(* ===== verification/Starshard_Prelude.thy ===== *)
theory Starshard_Prelude
  imports Main "HOL-Library.Word" "HOL-Library.Monad_Syntax" "HOL-Library.Multiset"
begin

text \<open>
  Shared vocabulary of the development: machine integers of the source (\<open>u64\<close>, \<open>usize\<close> on a
  64-bit target), the checked vector accesses that stand for Rust's panicking \<open>xs[i]\<close>, saturating
  arithmetic, \<open>Vec::swap_remove\<close>, and the list and map lemmas the component theories use.

  A Rust function that may panic is an \<open>option\<close>-valued HOL function: \<open>None\<close> is the panic. The
  \<open>do\<close> notation is the one of \<open>option\<close>.
\<close>

type_synonym u64 = "64 word"
type_synonym usize = "64 word"

named_theorems hb_laws \<open>laws of the hash maps the program uses\<close>
named_theorems slot_simps \<open>reading and writing one slot of a shard directory\<close>
named_theorems frame_simps \<open>what an operation leaves alone\<close>

section \<open>Vectors\<close>

text \<open>\<open>xs[i]\<close>: panics out of range.\<close>

definition index_checked :: "'a list \<Rightarrow> nat \<Rightarrow> 'a option" where
  "index_checked xs i = (if i < length xs then Some (xs ! i) else None)"

lemma index_checked_in [simp]: "i < length xs \<Longrightarrow> index_checked xs i = Some (xs ! i)"
  by (simp add: index_checked_def)

lemma index_checked_eq_Some: "index_checked xs i = Some x \<longleftrightarrow> i < length xs \<and> xs ! i = x"
  by (simp add: index_checked_def)

text \<open>\<open>Vec::swap_remove\<close>: the removed element's place is taken by the last one.\<close>

definition swap_remove :: "'a list \<Rightarrow> nat \<Rightarrow> 'a list" where
  "swap_remove xs i = butlast (xs[i := last xs])"

lemma swap_remove_last: "swap_remove (ys @ [x]) (length ys) = ys"
  by (simp add: swap_remove_def)

lemma swap_remove_mid: "swap_remove (ys @ x # zs @ [z]) (length ys) = ys @ z # zs"
proof -
  have "(ys @ x # zs @ [z])[length ys := last (ys @ x # zs @ [z])] = (ys @ z # zs) @ [z]"
    by simp
  then show ?thesis by (simp add: swap_remove_def butlast_append)
qed

lemma mset_swap_remove:
  assumes "i < length xs"
  shows "mset (swap_remove xs i) = mset xs - {#xs ! i#}"
proof -
  have split: "xs = take i xs @ xs ! i # drop (Suc i) xs"
    using assms by (rule id_take_nth_drop)
  have len: "length (take i xs) = i" using assms by simp
  show ?thesis
  proof (cases "drop (Suc i) xs" rule: rev_cases)
    case Nil
    then have "xs = take i xs @ [xs ! i]" using split by simp
    then have "swap_remove xs i = take i xs" using swap_remove_last[of "take i xs" "xs ! i"] len by simp
    moreover have "mset xs = mset (take i xs) + {#xs ! i#}"
      using arg_cong[OF \<open>xs = take i xs @ [xs ! i]\<close>, of mset] by simp
    ultimately show ?thesis by simp
  next
    case (snoc zs z)
    then have eq: "xs = take i xs @ xs ! i # zs @ [z]" using split by simp
    then have "swap_remove xs i = take i xs @ z # zs"
      using swap_remove_mid[of "take i xs" "xs ! i" zs z] len by simp
    moreover have "mset xs = mset (take i xs) + {#xs ! i#} + mset zs + {#z#}"
      using arg_cong[OF eq, of mset] by simp
    ultimately show ?thesis by simp
  qed
qed

text \<open>\<open>iter().position(p)\<close>: the index of the first match.\<close>

fun position :: "('a \<Rightarrow> bool) \<Rightarrow> 'a list \<Rightarrow> nat option" where
  "position p [] = None"
| "position p (x # xs) = (if p x then Some 0 else map_option Suc (position p xs))"

lemma position_Some: "position p xs = Some i \<Longrightarrow> i < length xs \<and> p (xs ! i)"
  by (induction xs arbitrary: i) (auto split: if_splits)

lemma position_None: "position p xs = None \<longleftrightarrow> (\<forall>x\<in>set xs. \<not> p x)"
  by (induction xs) auto

lemma position_Some_ex: "(\<exists>x\<in>set xs. p x) \<Longrightarrow> \<exists>i. position p xs = Some i"
  using position_None[of p xs] by auto

section \<open>Machine arithmetic\<close>

text \<open>\<open>u64::saturating_add\<close>.\<close>

definition saturating_add :: "u64 \<Rightarrow> u64 \<Rightarrow> u64" where
  "saturating_add a b = (if unat a + unat b < 2 ^ 64 then a + b else 18446744073709551615)"

lemma unat_saturating_add: "unat (saturating_add a b) = min (unat a + unat b) (2 ^ 64 - 1)"
proof (cases "unat a + unat b < 2 ^ 64")
  case True
  then show ?thesis by (simp add: saturating_add_def unat_word_ariths)
next
  case False
  then show ?thesis by (simp add: saturating_add_def)
qed

lemma unat_plus_one: "unat (x :: u64) + 1 < 2 ^ 64 \<Longrightarrow> unat (x + 1) = unat x + 1"
  by (simp add: unat_word_ariths)

section \<open>Finite maps given by lists\<close>

lemma card_dom_map_of: "distinct (map fst xs) \<Longrightarrow> card (dom (map_of xs)) = length xs"
  by (metis distinct_card dom_map_of_conv_image_fst length_map list.set_map)

lemma length_eq_if_map_of_eq:
  "\<lbrakk>distinct (map fst xs); distinct (map fst ys); map_of xs = map_of ys\<rbrakk> \<Longrightarrow> length xs = length ys"
  by (metis card_dom_map_of)

lemma sum_list_update_nat:
  "i < length xs \<Longrightarrow> sum_list (xs[i := (x::nat)]) + xs ! i = sum_list xs + x"
  by (induction xs arbitrary: i) (auto split: nat.splits)

section \<open>Loops whose body may panic\<close>

fun fold_option :: "('a \<Rightarrow> 's \<Rightarrow> 's option) \<Rightarrow> 'a list \<Rightarrow> 's \<Rightarrow> 's option" where
  "fold_option f [] s = Some s"
| "fold_option f (x # xs) s = Option.bind (f x s) (fold_option f xs)"

lemma fold_option_append:
  "fold_option f (xs @ ys) s = Option.bind (fold_option f xs s) (fold_option f ys)"
  by (induction xs arbitrary: s) (auto split: bind_split)

text \<open>A loop keeps a relation to its start when every step extends it and succeeds.\<close>

lemma fold_option_rel:
  assumes "R [] s" and "\<And>ys y zs s'. xs = ys @ y # zs \<Longrightarrow> R ys s' \<Longrightarrow> \<exists>s''. f y s' = Some s'' \<and> R (ys @ [y]) s''"
  shows "\<exists>s'. fold_option f xs s = Some s' \<and> R xs s'"
proof -
  have "\<exists>s'. fold_option f ys s = Some s' \<and> R ys s'" if "xs = ys @ zs" for ys zs
    using that
  proof (induction ys arbitrary: zs rule: rev_induct)
    case (snoc y ys)
    then obtain s' where "fold_option f ys s = Some s'" "R ys s'" by auto
    then show ?case using assms(2)[of ys y zs s'] snoc.prems by (auto simp: fold_option_append)
  qed (use assms(1) in simp)
  then show ?thesis by simp
qed

text \<open>The same for a loop that cannot panic.\<close>

lemma fold_rel:
  assumes "R [] s" and "\<And>ys y zs s'. xs = ys @ y # zs \<Longrightarrow> R ys s' \<Longrightarrow> R (ys @ [y]) (f y s')"
  shows "R xs (fold f xs s)"
proof -
  have "R ys (fold f ys s)" if "xs = ys @ zs" for ys zs
    using that
  proof (induction ys arbitrary: zs rule: rev_induct)
    case (snoc y ys)
    then show ?case using assms(2)[of ys y zs "fold f ys s"] by simp
  qed (use assms(1) in simp)
  then show ?thesis by simp
qed

section \<open>Grouping by shard index\<close>

text \<open>
  The batch operations partition their input into \<open>HashMap<usize, Vec<_>>\<close> buckets and then walk
  the buckets in the hash map's own order: input order inside a bucket, an order \<open>ord\<close> the hash map
  chooses between buckets. \<open>ord\<close> is a parameter; what is relied on is that it lists each index once.
\<close>

definition bucketize :: "(nat list \<Rightarrow> nat list) \<Rightarrow> ('a \<Rightarrow> nat) \<Rightarrow> 'a list \<Rightarrow> (nat \<times> 'a list) list" where
  "bucketize ord f xs = map (\<lambda>i. (i, filter (\<lambda>x. f x = i) xs)) (ord (remdups (map f xs)))"

definition enumerates :: "(nat list \<Rightarrow> nat list) \<Rightarrow> bool" where
  "enumerates ord \<longleftrightarrow> (\<forall>xs. distinct xs \<longrightarrow> mset (ord xs) = mset xs)"

lemma enumerates_set: "enumerates ord \<Longrightarrow> distinct xs \<Longrightarrow> set (ord xs) = set xs"
  by (metis enumerates_def mset_eq_setD)

lemma enumerates_distinct: "enumerates ord \<Longrightarrow> distinct xs \<Longrightarrow> distinct (ord xs)"
  by (metis enumerates_def distinct_count_atmost_1 mset_eq_setD)

lemma bucketize_index:
  "enumerates ord \<Longrightarrow> distinct (map fst (bucketize ord f xs)) \<and> set (map fst (bucketize ord f xs)) = f ` set xs"
  using enumerates_distinct[of ord "remdups (map f xs)"] enumerates_set[of ord "remdups (map f xs)"]
  by (simp add: bucketize_def comp_def)

lemma bucketize_elem: "(i, ys) \<in> set (bucketize ord f xs) \<Longrightarrow> ys = filter (\<lambda>x. f x = i) xs"
  by (auto simp: bucketize_def)

lemma those_map_Some: "those (map (\<lambda>x. Some (f x)) xs) = Some (map f xs)"
  by (induction xs) simp_all

end
