(* ===== verification/Hash_Map.thy ===== *)
theory Hash_Map
  imports Starshard_Prelude "HOL-Library.AList"
begin

text \<open>
  The interface of \<open>hashbrown::HashMap\<close>, a third-party crate: the operations the program calls, as
  a record that every definition using a hash map takes as an argument, and the locale
  \<open>hashbrown_map\<close> with the documented behaviour the program relies on. Iteration order and growth
  policy stay open. The last section shows that the laws can be met, by association lists that
  carry their capacity; that instance is what concrete evaluations use.
\<close>

section \<open>The operations\<close>

record ('k, 'v, 'm) hashbrown =
  hb_new :: 'm                                                   \<comment> \<open>\<open>with_hasher\<close>\<close>
  hb_get :: "'m \<Rightarrow> 'k \<Rightarrow> 'v option"                              \<comment> \<open>\<open>get\<close>, \<open>contains_key\<close>\<close>
  hb_insert :: "'m \<Rightarrow> 'k \<Rightarrow> 'v \<Rightarrow> 'v option \<times> 'm"                 \<comment> \<open>\<open>insert\<close>, \<open>VacantEntry::insert\<close>\<close>
  hb_remove :: "'m \<Rightarrow> 'k \<Rightarrow> 'v option \<times> 'm"                      \<comment> \<open>\<open>remove\<close>, \<open>remove_entry\<close>\<close>
  hb_iter :: "'m \<Rightarrow> ('k \<times> 'v) list"                              \<comment> \<open>\<open>iter\<close>, \<open>keys\<close>\<close>
  hb_len :: "'m \<Rightarrow> nat"
  hb_capacity :: "'m \<Rightarrow> nat"
  hb_reserve :: "'m \<Rightarrow> nat \<Rightarrow> 'm"
  hb_extract_if :: "'m \<Rightarrow> ('k \<Rightarrow> 'v \<Rightarrow> bool) \<Rightarrow> ('k \<times> 'v) list \<times> 'm"
  hb_drain :: "'m \<Rightarrow> ('k \<times> 'v) list \<times> 'm"

section \<open>The laws\<close>

locale hashbrown_map =
  fixes H :: "('k, 'v, 'm) hashbrown"
  assumes get_new: "hb_get H (hb_new H) k = None"
    and insert_old: "fst (hb_insert H m k v) = hb_get H m k"
    and get_insert: "hb_get H (snd (hb_insert H m k v)) = (hb_get H m)(k \<mapsto> v)"
    and remove_old: "fst (hb_remove H m k) = hb_get H m k"
    and get_remove: "hb_get H (snd (hb_remove H m k)) = (hb_get H m)(k := None)"
    and iter_distinct: "distinct (map fst (hb_iter H m))"
    and iter_map_of: "map_of (hb_iter H m) = hb_get H m"
    and len_iter: "hb_len H m = length (hb_iter H m)"
    and get_reserve: "hb_get H (hb_reserve H m n) = hb_get H m"
    and reserve_capacity: "hb_len H m + n \<le> hb_capacity H (hb_reserve H m n)"
    and len_capacity: "hb_len H m \<le> hb_capacity H m"
    and extract_out: "fst (hb_extract_if H m p) = filter (\<lambda>(k, v). p k v) (hb_iter H m)"
    and get_extract: "hb_get H (snd (hb_extract_if H m p)) k =
          (case hb_get H m k of None \<Rightarrow> None | Some v \<Rightarrow> if p k v then None else Some v)"
    and drain_out: "fst (hb_drain H m) = hb_iter H m"
    and get_drain: "hb_get H (snd (hb_drain H m)) k = None"
begin

lemmas get_simps = get_new insert_old get_insert remove_old get_remove get_reserve get_extract
  drain_out get_drain

lemma card_dom_get: "card (dom (hb_get H m)) = hb_len H m"
  using card_dom_map_of[OF iter_distinct[of m]] by (simp add: iter_map_of len_iter)

lemma finite_dom_get [simp]: "finite (dom (hb_get H m))"
  by (metis finite_dom_map_of iter_map_of)

lemma len_eq_if_get_eq: "hb_get H m = hb_get H m' \<Longrightarrow> hb_len H m = hb_len H m'"
  by (metis card_dom_get)

lemma len_new: "hb_len H (hb_new H) = 0"
proof -
  have "hb_get H (hb_new H) = Map.empty" by (simp add: fun_eq_iff get_new)
  then show ?thesis using card_dom_get[of "hb_new H"] by simp
qed

lemma len_insert:
  "hb_len H (snd (hb_insert H m k v)) = (if hb_get H m k = None then Suc (hb_len H m) else hb_len H m)"
proof -
  have "hb_len H (snd (hb_insert H m k v)) = card (insert k (dom (hb_get H m)))"
    by (simp add: card_dom_get[symmetric] get_insert)
  then show ?thesis
    by (simp add: card_insert_if card_dom_get domIff)
qed

lemma len_remove:
  "hb_len H (snd (hb_remove H m k)) = (if hb_get H m k = None then hb_len H m else hb_len H m - 1)"
proof -
  have "hb_len H (snd (hb_remove H m k)) = card (dom (hb_get H m) - {k})"
    by (simp add: card_dom_get[symmetric] get_remove dom_fun_upd del: fun_upd_apply)
  then show ?thesis
    by (simp add: card_Diff_singleton_if card_dom_get domIff)
qed

lemma len_pos: "hb_get H m k \<noteq> None \<Longrightarrow> 0 < hb_len H m"
  by (metis card_dom_get card_gt_0_iff domI domIff empty_iff finite_dom_get not_None_eq)

lemma len_reserve: "hb_len H (hb_reserve H m n) = hb_len H m"
  by (rule len_eq_if_get_eq) (rule get_reserve)

lemma len_drain: "hb_len H (snd (hb_drain H m)) = 0"
proof -
  have "hb_get H (snd (hb_drain H m)) = Map.empty" by (simp add: fun_eq_iff get_drain)
  then show ?thesis using card_dom_get[of "snd (hb_drain H m)"] by simp
qed

lemma len_zero: "hb_len H m = 0 \<longleftrightarrow> hb_get H m = Map.empty"
  using card_dom_get[of m] by (metis card_0_eq dom_eq_empty_conv finite_dom_get)

lemma iter_in: "(k, v) \<in> set (hb_iter H m) \<longleftrightarrow> hb_get H m k = Some v"
  by (metis iter_distinct iter_map_of map_of_eq_Some_iff)

lemma len_extract:
  "hb_len H (snd (hb_extract_if H m p)) + length (fst (hb_extract_if H m p)) = hb_len H m"
proof -
  let ?q = "\<lambda>(k, v). p k v"
  have d: "distinct (map fst (filter (\<lambda>x. \<not> ?q x) (hb_iter H m)))"
    by (simp add: distinct_map_filter iter_distinct)
  have "map_of (filter (\<lambda>x. \<not> ?q x) (hb_iter H m)) = hb_get H (snd (hb_extract_if H m p))"
  proof
    fix k
    show "map_of (filter (\<lambda>x. \<not> ?q x) (hb_iter H m)) k = hb_get H (snd (hb_extract_if H m p)) k"
    proof (cases "hb_get H (snd (hb_extract_if H m p)) k")
      case None
      then have "\<forall>v. (k, v) \<notin> set (filter (\<lambda>x. \<not> ?q x) (hb_iter H m))"
        by (auto simp: get_extract iter_in split: option.splits if_splits)
      then show ?thesis using None by (metis map_of_SomeD option.exhaust)
    next
      case (Some v)
      then have "(k, v) \<in> set (filter (\<lambda>x. \<not> ?q x) (hb_iter H m))"
        by (auto simp: get_extract iter_in split: option.splits if_splits)
      then show ?thesis using d Some by simp
    qed
  qed
  then have "hb_len H (snd (hb_extract_if H m p)) = length (filter (\<lambda>x. \<not> ?q x) (hb_iter H m))"
    using card_dom_map_of[OF d] by (simp add: card_dom_get)
  then show ?thesis
    using sum_length_filter_compl[of ?q "hb_iter H m"] by (simp add: extract_out len_iter)
qed

lemmas len_simps = len_new len_insert len_remove len_reserve len_drain

end

section \<open>The laws can be met\<close>

type_synonym ('k, 'v) alist_map = "('k \<times> 'v) list \<times> nat"

definition alist_ops :: "('k, 'v, ('k, 'v) alist_map) hashbrown" where
  "alist_ops =
    \<lparr>hb_new = ([], 0),
     hb_get = (\<lambda>m. map_of (fst m)),
     hb_insert = (\<lambda>m k v. (map_of (fst m) k, (AList.update k v (fst m), snd m))),
     hb_remove = (\<lambda>m k. (map_of (fst m) k, (AList.delete k (fst m), snd m))),
     hb_iter = (\<lambda>m. AList.clearjunk (fst m)),
     hb_len = (\<lambda>m. length (AList.clearjunk (fst m))),
     hb_capacity = (\<lambda>m. max (snd m) (length (AList.clearjunk (fst m)))),
     hb_reserve = (\<lambda>m n. (fst m, length (AList.clearjunk (fst m)) + n)),
     hb_extract_if = (\<lambda>m p. (filter (\<lambda>(k, v). p k v) (AList.clearjunk (fst m)),
        (filter (\<lambda>(k, v). \<not> p k v) (AList.clearjunk (fst m)), snd m))),
     hb_drain = (\<lambda>m. (AList.clearjunk (fst m), ([], snd m)))\<rparr>"

lemma map_of_filter_distinct:
  "distinct (map fst xs) \<Longrightarrow> map_of (filter (\<lambda>(k, v). \<not> p k v) xs) k =
     (case map_of xs k of None \<Rightarrow> None | Some v \<Rightarrow> if p k v then None else Some v)"
  by (induction xs) (auto split: option.splits simp: rev_image_eqI dest: map_of_SomeD)

interpretation alist: hashbrown_map "alist_ops :: ('k, 'v, ('k, 'v) alist_map) hashbrown"
  by unfold_locales
    (simp_all add: alist_ops_def update_conv' delete_conv' distinct_clearjunk map_of_clearjunk
      map_of_filter_distinct)

lemma alist_ops_laws: "hashbrown_map (alist_ops :: ('k, 'v, ('k, 'v) alist_map) hashbrown)"
  by (rule alist.hashbrown_map_axioms)

end
