(* ===== verification/Mutation.thy ===== *)
theory Mutation
  imports Hash_Map
begin

text \<open>
  Publication of mutation metadata (\<open>ShardMutation\<close> of \<open>core/mutation.rs\<close>) and the two routines
  that move one entry from the previous generation into the active one: \<open>promote_entry\<close>
  (\<open>core/mutation.rs\<close>), used by foreground operations, and \<open>move_one\<close> (\<open>rebalance.rs\<close>), used by
  migration batches. Lengths of hash maps are natural numbers; the shared counters \<open>total_len\<close> and
  \<open>write_epoch\<close> are 64-bit and wrap as \<open>fetch_add\<close> and \<open>fetch_sub\<close> do.
\<close>

section \<open>Moving one entry between generations\<close>

text \<open>
  The destination both routines write to: the active map itself when it has a spare slot, otherwise
  a clone of it with one slot reserved, which later replaces it.
\<close>

definition staged_destination :: "('k, 'v, 'm) hashbrown \<Rightarrow> 'm \<Rightarrow> 'm" where
  "staged_destination H active =
     (if hb_len H active = hb_capacity H active then hb_reserve H active 1 else active)"

text \<open>\<open>destination.entry(key)\<close>: a vacant entry takes the value, an occupied one keeps its own.\<close>

definition insert_if_vacant :: "('k, 'v, 'm) hashbrown \<Rightarrow> 'm \<Rightarrow> 'k \<Rightarrow> 'v \<Rightarrow> 'm" where
  "insert_if_vacant H destination key value =
     (case hb_get H destination key of
        None \<Rightarrow> snd (hb_insert H destination key value)
      | Some _ \<Rightarrow> destination)"

definition promote_entry :: "('k, 'v, 'm) hashbrown \<Rightarrow> 'm \<Rightarrow> 'm \<Rightarrow> 'k \<Rightarrow> 'm \<times> 'm" where
  "promote_entry H active previous key =
     (case hb_get H previous key of
        None \<Rightarrow> (active, previous)
      | Some _ \<Rightarrow>
          (let destination = staged_destination H active in
           case hb_remove H previous key of
             (None, previous') \<Rightarrow> (active, previous')
           | (Some value, previous') \<Rightarrow> (insert_if_vacant H destination key value, previous')))"

text \<open>\<open>move_one\<close> panics when the selected key is no longer in the source (\<open>expect\<close>).\<close>

definition move_one :: "('k, 'v, 'm) hashbrown \<Rightarrow> 'm \<Rightarrow> 'm \<Rightarrow> 'k \<Rightarrow> ('m \<times> 'm) option" where
  "move_one H active source key =
     (let destination = staged_destination H active in
      case hb_remove H source key of
        (None, _) \<Rightarrow> None
      | (Some value, source') \<Rightarrow> Some (insert_if_vacant H destination key value, source'))"

section \<open>ShardMutation\<close>

record 'm shard_mutation =
  mut_map :: 'm
  initial_len :: nat
  changed :: bool

definition shard_mutation_new :: "('k, 'v, 'm) hashbrown \<Rightarrow> 'm \<Rightarrow> 'm shard_mutation" where
  "shard_mutation_new H m = \<lparr>mut_map = m, initial_len = hb_len H m, changed = False\<rparr>"

definition mutation_insert ::
  "('k, 'v, 'm) hashbrown \<Rightarrow> 'm shard_mutation \<Rightarrow> 'k \<Rightarrow> 'v \<Rightarrow> 'v option \<times> 'm shard_mutation" where
  "mutation_insert H mu key value =
     (let (old, m) = hb_insert H (mut_map mu) key value
      in (old, mu\<lparr>changed := True, mut_map := m\<rparr>))"

definition mutation_remove ::
  "('k, 'v, 'm) hashbrown \<Rightarrow> 'm shard_mutation \<Rightarrow> 'k \<Rightarrow> 'v option \<times> 'm shard_mutation" where
  "mutation_remove H mu key =
     (let (old, m) = hb_remove H (mut_map mu) key in (old, mu\<lparr>mut_map := m\<rparr>))"

text \<open>\<open>Drop for ShardMutation\<close>: the final map, the new \<open>total_len\<close> and the new \<open>write_epoch\<close>.\<close>

definition mutation_drop ::
  "('k, 'v, 'm) hashbrown \<Rightarrow> 'm shard_mutation \<Rightarrow> usize \<Rightarrow> u64 \<Rightarrow> 'm \<times> usize \<times> u64" where
  "mutation_drop H mu total_len write_epoch =
     (let final_len = hb_len H (mut_map mu);
          total_len' =
            (if final_len > initial_len mu then total_len + of_nat (final_len - initial_len mu)
             else if final_len < initial_len mu then total_len - of_nat (initial_len mu - final_len)
             else total_len);
          write_epoch' =
            (if changed mu \<or> final_len \<noteq> initial_len mu then write_epoch + 1 else write_epoch)
      in (mut_map mu, total_len', write_epoch'))"

section \<open>Lemmas\<close>

text \<open>What a reader sees in an active and a previous map together.\<close>

definition both_get :: "('k, 'v, 'm) hashbrown \<Rightarrow> 'm \<Rightarrow> 'm \<Rightarrow> 'k \<Rightarrow> 'v option" where
  "both_get H active previous key =
     (case hb_get H active key of Some v \<Rightarrow> Some v | None \<Rightarrow> hb_get H previous key)"

lemma mutation_drop_total:
  "fst (snd (mutation_drop H mu n ep)) =
     n + of_nat (hb_len H (mut_map mu)) - of_nat (initial_len mu)"
  by (simp add: mutation_drop_def Let_def of_nat_diff)

lemma mutation_drop_map: "fst (mutation_drop H mu n ep) = mut_map mu"
  by (simp add: mutation_drop_def Let_def)

context hashbrown_map
begin

lemma staged_get [simp]: "hb_get H (staged_destination H a) = hb_get H a"
  by (simp add: staged_destination_def get_reserve)

lemma staged_len [simp]: "hb_len H (staged_destination H a) = hb_len H a"
  by (simp add: staged_destination_def len_reserve)

lemma staged_has_room: "hb_len H (staged_destination H a) < hb_capacity H (staged_destination H a)"
  using reserve_capacity[of a 1] len_capacity[of a]
  by (auto simp: staged_destination_def len_reserve)

lemma insert_if_vacant_get:
  "hb_get H (insert_if_vacant H d k v) =
     (case hb_get H d k of None \<Rightarrow> (hb_get H d)(k \<mapsto> v) | Some _ \<Rightarrow> hb_get H d)"
  by (simp add: insert_if_vacant_def get_insert split: option.splits)

lemma insert_if_vacant_len:
  "hb_len H (insert_if_vacant H d k v) =
     (if hb_get H d k = None then Suc (hb_len H d) else hb_len H d)"
  by (auto simp: insert_if_vacant_def len_insert split: option.splits)

lemma promote_entry_eq:
  "promote_entry H a p k =
     (case hb_get H p k of
        None \<Rightarrow> (a, p)
      | Some v \<Rightarrow> (insert_if_vacant H (staged_destination H a) k v, snd (hb_remove H p k)))"
proof (cases "hb_get H p k")
  case None
  then show ?thesis by (simp add: promote_entry_def)
next
  case (Some v)
  then show ?thesis
    using remove_old[of p k]
    by (cases "hb_remove H p k") (simp add: promote_entry_def Let_def)
qed

lemma promote_entry_active:
  "hb_get H (fst (promote_entry H a p k)) =
     (if hb_get H a k = None then (hb_get H a)(k := hb_get H p k) else hb_get H a)"
  by (auto simp: promote_entry_eq insert_if_vacant_get fun_eq_iff split: option.splits)

lemma promote_entry_previous:
  "hb_get H (snd (promote_entry H a p k)) = (hb_get H p)(k := None)"
  by (auto simp: promote_entry_eq get_remove fun_eq_iff split: option.splits)

lemma promote_entry_len:
  assumes "hb_get H a k = None \<or> hb_get H p k = None"
  shows "hb_len H (fst (promote_entry H a p k)) + hb_len H (snd (promote_entry H a p k)) =
           hb_len H a + hb_len H p"
  using assms len_pos[of p k]
  by (auto simp: promote_entry_eq insert_if_vacant_len len_remove split: option.splits)

lemma move_one_eq:
  "hb_get H s k = Some v \<Longrightarrow>
     move_one H a s k = Some (insert_if_vacant H (staged_destination H a) k v, snd (hb_remove H s k))"
  using remove_old[of s k] by (cases "hb_remove H s k") (simp add: move_one_def Let_def)

lemma move_one_absent: "hb_get H s k = None \<Longrightarrow> move_one H a s k = None"
  using remove_old[of s k] by (cases "hb_remove H s k") (simp add: move_one_def Let_def)

lemma move_one_is_promote:
  "hb_get H s k \<noteq> None \<Longrightarrow> move_one H a s k = Some (promote_entry H a s k)"
  by (auto simp: move_one_eq promote_entry_eq)

end

section \<open>Properties\<close>

text \<open>
  C18: promoting a key from the previous into the active generation changes nothing a reader sees:
  every key has the same value in the two maps taken together, the key has left the previous map,
  the number of stored entries is unchanged, and the destination has a spare slot, so that the
  insertion does not grow (and hence rehash) a live map.
\<close>

theorem promote_entry_preserves_view:
  assumes "hashbrown_map H" and "hb_get H a k = None \<or> hb_get H p k = None"
    and "promote_entry H a p k = (a', p')"
  shows "both_get H a' p' = both_get H a p \<and> hb_get H p' k = None \<and>
    hb_len H a' + hb_len H p' = hb_len H a + hb_len H p \<and>
    hb_len H (staged_destination H a) < hb_capacity H (staged_destination H a)"
proof (intro conjI)
  note laws = hashbrown_map.promote_entry_active[OF assms(1), of a p k]
    hashbrown_map.promote_entry_previous[OF assms(1), of a p k]
  show "both_get H a' p' = both_get H a p"
    using laws assms(2,3) by (auto simp: both_get_def fun_eq_iff split: option.splits if_splits)
  show "hb_get H p' k = None" using laws(2) assms(3) by simp
  show "hb_len H a' + hb_len H p' = hb_len H a + hb_len H p"
    using hashbrown_map.promote_entry_len[OF assms(1,2)] assms(3) by simp
  show "hb_len H (staged_destination H a) < hb_capacity H (staged_destination H a)"
    by (rule hashbrown_map.staged_has_room[OF assms(1)])
qed

theorem promote_entry_preserves_view_witness:
  "both_get alist_ops (fst (promote_entry alist_ops ([(1::nat, ''a'')], 1) ([(2, ''b'')], 1) 2))
     (snd (promote_entry alist_ops ([(1::nat, ''a'')], 1) ([(2, ''b'')], 1) 2)) 2 = Some ''b''"
proof -
  have "hb_get alist_ops ([(1::nat, ''a'')], 1) 2 = None \<or> hb_get alist_ops ([(2, ''b'')], 1) 2 = None"
    by (simp add: alist_ops_def)
  from promote_entry_preserves_view[OF alist_ops_laws this, OF surjective_pairing]
  show ?thesis by (simp add: both_get_def alist_ops_def)
qed

end
