(* ===== verification/Rebalance_Tracker.thy ===== *)
theory Rebalance_Tracker
  imports Starshard_Prelude Complex_Main
begin

text \<open>
  \<open>RebalanceTracker\<close> of \<open>rebalance.rs\<close>: generation, pause and progress metadata of a migration.
  Every method takes the tracker's mutex, so each is one atomic function on the \<open>progress\<close> record.
  \<open>Instant::now()\<close> is the argument \<open>now\<close>, in nanoseconds; the generation counter is 64-bit and
  wraps; the other counters only ever count up from zero within a generation and are natural numbers.
  \<open>Condvar\<close> waiting is the predicate \<open>wait_blocks\<close> (the loop condition of \<open>wait_ready\<close>) together
  with the value returned once it no longer holds.
\<close>

section \<open>State\<close>

record telemetry =
  generation :: u64
  from_shards :: nat
  to_shards :: nat
  initial_entries :: nat
  moved_entries :: nat
  completed_shards :: nat
  total_shards :: nat
  batches :: nat
  last_pause_ns :: nat
  max_pause_ns :: nat
  budget_overruns :: nat
  elapsed_ns :: nat
  paused :: bool
  worker_running :: bool
  complete :: bool

definition telemetry_default :: telemetry where
  "telemetry_default =
     \<lparr>generation = 0, from_shards = 0, to_shards = 0, initial_entries = 0, moved_entries = 0,
      completed_shards = 0, total_shards = 0, batches = 0, last_pause_ns = 0, max_pause_ns = 0,
      budget_overruns = 0, elapsed_ns = 0, paused = False, worker_running = False,
      complete = False\<rparr>"

record progress =
  migrating :: bool
  started :: "nat option"
  worker_generation :: "u64 option"
  telem :: telemetry

definition tracker_new :: progress where
  "tracker_new =
     \<lparr>migrating = False, started = None, worker_generation = None, telem = telemetry_default\<rparr>"

datatype migration_state = Idle | Migrating

record rebalance_status =
  status_state :: migration_state
  status_progress :: real
  status_moved :: nat
  status_total :: nat

section \<open>Operations\<close>

text \<open>\<open>started.elapsed().as_nanos().min(u64::MAX)\<close>.\<close>

definition elapsed_since :: "nat \<Rightarrow> nat \<Rightarrow> nat" where
  "elapsed_since start now = min (now - start) (2 ^ 64 - 1)"

definition begin_with_counts :: "nat \<Rightarrow> nat \<Rightarrow> nat \<Rightarrow> nat \<Rightarrow> progress \<Rightarrow> progress" where
  "begin_with_counts now from to initial p =
     p\<lparr>migrating := True, started := Some now,
       telem := telemetry_default\<lparr>generation := generation (telem p) + 1, from_shards := from,
         to_shards := to, initial_entries := initial, total_shards := from\<rparr>\<rparr>"

definition step :: "progress \<Rightarrow> progress" where
  "step p = p\<lparr>telem := (telem p)\<lparr>completed_shards := completed_shards (telem p) + 1\<rparr>\<rparr>"

definition finish_staged :: "nat \<Rightarrow> nat \<Rightarrow> nat \<Rightarrow> nat \<Rightarrow> nat \<Rightarrow> progress \<Rightarrow> progress" where
  "finish_staged now from to moved start p =
     (let elapsed = elapsed_since start now in
      p\<lparr>migrating := False, started := None,
        telem := telemetry_default\<lparr>generation := generation (telem p) + 1, from_shards := from,
          to_shards := to, initial_entries := moved, moved_entries := moved,
          completed_shards := from, total_shards := from, batches := 1, last_pause_ns := elapsed,
          max_pause_ns := elapsed, elapsed_ns := elapsed, complete := True\<rparr>\<rparr>)"

definition moved :: "progress \<Rightarrow> progress" where
  "moved p = p\<lparr>telem := (telem p)\<lparr>moved_entries := moved_entries (telem p) + 1\<rparr>\<rparr>"

definition record_batch :: "u64 \<Rightarrow> nat \<Rightarrow> nat \<Rightarrow> progress \<Rightarrow> progress" where
  "record_batch gen elapsed budget p =
     (if generation (telem p) \<noteq> gen then p
      else p\<lparr>telem := (telem p)\<lparr>batches := batches (telem p) + 1, last_pause_ns := elapsed,
             max_pause_ns := max (max_pause_ns (telem p)) elapsed,
             budget_overruns := budget_overruns (telem p)
               + (if budget \<noteq> 0 \<and> elapsed > budget then 1 else 0)\<rparr>\<rparr>)"

definition is_migrating :: "progress \<Rightarrow> bool" where
  "is_migrating p = migrating p"

definition finish :: "nat \<Rightarrow> progress \<Rightarrow> progress" where
  "finish now p =
     p\<lparr>migrating := False, started := None,
       telem := (telem p)\<lparr>paused := False, complete := True,
         elapsed_ns := (case started p of None \<Rightarrow> elapsed_ns (telem p)
                        | Some s \<Rightarrow> elapsed_since s now)\<rparr>\<rparr>"

definition tracker_snapshot :: "progress \<Rightarrow> rebalance_status" where
  "tracker_snapshot p =
     (let (mv, tot) = (if migrating p then (completed_shards (telem p), total_shards (telem p))
                       else (0, 0))
      in \<lparr>status_state = (if migrating p then Migrating else Idle),
          status_progress = (if tot = 0 then 0 else real mv / real tot),
          status_moved = mv, status_total = tot\<rparr>)"

definition tracker_telemetry :: "nat \<Rightarrow> progress \<Rightarrow> telemetry" where
  "tracker_telemetry now p =
     (let result = (telem p)\<lparr>elapsed_ns := (case started p of None \<Rightarrow> elapsed_ns (telem p)
                                          | Some s \<Rightarrow> elapsed_since s now)\<rparr>
      in result\<lparr>worker_running := worker_generation p = Some (generation result)\<rparr>)"

definition pause :: "bool \<Rightarrow> progress \<Rightarrow> bool \<times> progress" where
  "pause b p = (if \<not> migrating p then (False, p) else (True, p\<lparr>telem := (telem p)\<lparr>paused := b\<rparr>\<rparr>))"

definition has_worker :: "progress \<Rightarrow> bool" where
  "has_worker p = (worker_generation p \<noteq> None)"

definition claim_worker :: "u64 \<Rightarrow> progress \<Rightarrow> bool \<times> progress" where
  "claim_worker gen p =
     (if worker_generation p \<noteq> None \<or> generation (telem p) \<noteq> gen then (False, p)
      else (True, p\<lparr>worker_generation := Some gen\<rparr>))"

definition release_worker :: "u64 \<Rightarrow> progress \<Rightarrow> progress" where
  "release_worker gen p =
     (if worker_generation p = Some gen then p\<lparr>worker_generation := None\<rparr> else p)"

text \<open>\<open>wait_ready\<close>: the condition of its waiting loop and the value it returns after the loop.\<close>

definition wait_blocks :: "u64 \<Rightarrow> bool \<Rightarrow> progress \<Rightarrow> bool" where
  "wait_blocks gen cancelled p \<longleftrightarrow>
     migrating p \<and> generation (telem p) = gen \<and> paused (telem p) \<and> \<not> cancelled"

definition wait_result :: "u64 \<Rightarrow> bool \<Rightarrow> progress \<Rightarrow> bool" where
  "wait_result gen cancelled p \<longleftrightarrow> migrating p \<and> generation (telem p) = gen \<and> \<not> cancelled"

definition wait_ready :: "u64 \<Rightarrow> bool \<Rightarrow> progress \<Rightarrow> bool option" where
  "wait_ready gen cancelled p =
     (if wait_blocks gen cancelled p then None else Some (wait_result gen cancelled p))"

text \<open>One round of \<open>wait_ready_async\<close>: \<open>None\<close> awaits the next notification.\<close>

definition wait_ready_async :: "u64 \<Rightarrow> bool \<Rightarrow> nat \<Rightarrow> progress \<Rightarrow> bool option" where
  "wait_ready_async gen cancelled now p =
     (let t = tracker_telemetry now p in
      if cancelled \<or> generation t \<noteq> gen \<or> \<not> is_migrating p then Some False
      else if \<not> paused t then Some True
      else None)"

section \<open>Lemmas\<close>

lemma telemetry_of_begin [simp]:
  "migrating (begin_with_counts now from to n p)"
  "telem (begin_with_counts now from to n p) = telemetry_default\<lparr>generation := generation (telem p) + 1,
     from_shards := from, to_shards := to, initial_entries := n, total_shards := from\<rparr>"
  "worker_generation (begin_with_counts now from to n p) = worker_generation p"
  by (simp_all add: begin_with_counts_def)

lemma tracker_step_simps [simp]:
  "migrating (step p) = migrating p" "started (step p) = started p"
  "worker_generation (step p) = worker_generation p"
  "completed_shards (telem (step p)) = Suc (completed_shards (telem p))"
  "total_shards (telem (step p)) = total_shards (telem p)"
  "paused (telem (step p)) = paused (telem p)"
  "generation (telem (step p)) = generation (telem p)"
  "to_shards (telem (step p)) = to_shards (telem p)"
  by (simp_all add: step_def)

lemma tracker_moved_simps [simp]:
  "migrating (moved p) = migrating p" "started (moved p) = started p"
  "worker_generation (moved p) = worker_generation p"
  "completed_shards (telem (moved p)) = completed_shards (telem p)"
  "total_shards (telem (moved p)) = total_shards (telem p)"
  "paused (telem (moved p)) = paused (telem p)"
  "generation (telem (moved p)) = generation (telem p)"
  by (simp_all add: moved_def)

lemma tracker_record_batch_simps [simp]:
  "migrating (record_batch g e b p) = migrating p" "started (record_batch g e b p) = started p"
  "worker_generation (record_batch g e b p) = worker_generation p"
  "completed_shards (telem (record_batch g e b p)) = completed_shards (telem p)"
  "total_shards (telem (record_batch g e b p)) = total_shards (telem p)"
  "paused (telem (record_batch g e b p)) = paused (telem p)"
  "generation (telem (record_batch g e b p)) = generation (telem p)"
  by (simp_all add: record_batch_def)

lemma tracker_finish_simps [simp]:
  "\<not> migrating (finish now p)" "started (finish now p) = None"
  "worker_generation (finish now p) = worker_generation p"
  "complete (telem (finish now p))" "\<not> paused (telem (finish now p))"
  "generation (telem (finish now p)) = generation (telem p)"
  by (simp_all add: finish_def)

lemma tracker_finish_staged_simps [simp]:
  "\<not> migrating (finish_staged now f t m s p)" "started (finish_staged now f t m s p) = None"
  "worker_generation (finish_staged now f t m s p) = worker_generation p"
  "complete (telem (finish_staged now f t m s p))"
  by (simp_all add: finish_staged_def Let_def)

lemma pause_simps [simp]:
  "migrating (snd (pause b p)) = migrating p" "started (snd (pause b p)) = started p"
  "worker_generation (snd (pause b p)) = worker_generation p"
  "completed_shards (telem (snd (pause b p))) = completed_shards (telem p)"
  "total_shards (telem (snd (pause b p))) = total_shards (telem p)"
  "generation (telem (snd (pause b p))) = generation (telem p)"
  by (simp_all add: pause_def)

section \<open>The tracker as a state machine\<close>

text \<open>
  A state is the tracker together with the \<open>WorkerLease\<close>s that are still alive (the generations they
  were created for). The guards are those of the callers: a generation begins only when none is
  migrating (\<open>start_rebalance_online\<close>, \<open>spawn_rebalance\<close>, \<open>rebalance_to\<close>) and from at least one slot;
  a source slot is counted only while some remain (\<open>advance_rebalance_inner\<close>); \<open>finish\<close>,
  \<open>finish_staged\<close>, \<open>pause\<close> and \<open>record_batch\<close> may come at any time. A lease exists exactly from a
  successful \<open>claim_worker\<close> to its drop, which calls \<open>release_worker\<close>.
\<close>

type_synonym tracker_sys = "progress \<times> u64 list"

inductive tracker_trans :: "tracker_sys \<Rightarrow> tracker_sys \<Rightarrow> bool" where
  t_begin: "\<lbrakk>\<not> is_migrating p; 0 < from\<rbrakk> \<Longrightarrow> tracker_trans (p, ls) (begin_with_counts now from to n p, ls)"
| t_step: "\<lbrakk>is_migrating p; status_moved (tracker_snapshot p) < status_total (tracker_snapshot p)\<rbrakk>
     \<Longrightarrow> tracker_trans (p, ls) (step p, ls)"
| t_moved: "is_migrating p \<Longrightarrow> tracker_trans (p, ls) (moved p, ls)"
| t_batch: "tracker_trans (p, ls) (record_batch gen e b p, ls)"
| t_finish: "tracker_trans (p, ls) (finish now p, ls)"
| t_staged: "tracker_trans (p, ls) (finish_staged now from to m s p, ls)"
| t_pause: "tracker_trans (p, ls) (snd (pause b p), ls)"
| t_claim: "claim_worker gen p = (True, p') \<Longrightarrow> tracker_trans (p, ls) (p', gen # ls)"
| t_refuse: "claim_worker gen p = (False, p') \<Longrightarrow> tracker_trans (p, ls) (p', ls)"
| t_release: "gen \<in> set ls \<Longrightarrow> tracker_trans (p, ls) (release_worker gen p, remove1 gen ls)"

inductive tracker_reach :: "tracker_sys \<Rightarrow> bool" where
  r_new: "tracker_reach (tracker_new, [])"
| r_trans: "\<lbrakk>tracker_reach s; tracker_trans s t\<rbrakk> \<Longrightarrow> tracker_reach t"

inductive_cases tracker_transE: "tracker_trans (p, ls) t"

definition tracker_inv :: "progress \<Rightarrow> bool" where
  "tracker_inv p \<longleftrightarrow>
     (started p \<noteq> None \<longleftrightarrow> migrating p) \<and> (paused (telem p) \<longrightarrow> migrating p) \<and>
     (migrating p \<longrightarrow> 0 < total_shards (telem p) \<and>
        completed_shards (telem p) \<le> total_shards (telem p))"

definition leases_inv :: "tracker_sys \<Rightarrow> bool" where
  "leases_inv s \<longleftrightarrow> snd s = (case worker_generation (fst s) of None \<Rightarrow> [] | Some g \<Rightarrow> [g])"

lemma tracker_inv_new: "tracker_inv tracker_new"
  by (simp add: tracker_inv_def tracker_new_def telemetry_default_def)

lemma tracker_inv_begin: "0 < from \<Longrightarrow> tracker_inv (begin_with_counts now from to n p)"
  by (simp add: tracker_inv_def begin_with_counts_def telemetry_default_def)

lemma tracker_inv_finish: "tracker_inv (finish now p)"
  by (simp add: tracker_inv_def finish_def)

lemma tracker_inv_finish_staged: "tracker_inv (finish_staged now f t m s p)"
  by (simp add: tracker_inv_def finish_staged_def telemetry_default_def Let_def)

lemma tracker_inv_pause: "tracker_inv p \<Longrightarrow> tracker_inv (snd (pause b p))"
  by (auto simp: tracker_inv_def pause_def)

lemma tracker_inv_moved: "tracker_inv p \<Longrightarrow> tracker_inv (moved p)"
  by (simp add: tracker_inv_def)

lemma tracker_inv_record_batch: "tracker_inv p \<Longrightarrow> tracker_inv (record_batch g e b p)"
  by (simp add: tracker_inv_def)

lemma tracker_inv_step:
  "\<lbrakk>tracker_inv p; completed_shards (telem p) < total_shards (telem p)\<rbrakk> \<Longrightarrow> tracker_inv (step p)"
  by (simp add: tracker_inv_def)

lemmas tracker_inv_intros = tracker_inv_new tracker_inv_begin tracker_inv_finish
  tracker_inv_finish_staged tracker_inv_pause tracker_inv_moved tracker_inv_record_batch
  tracker_inv_step

lemma tracker_trans_inv: "tracker_trans s t \<Longrightarrow> tracker_inv (fst s) \<Longrightarrow> tracker_inv (fst t)"
proof (induction rule: tracker_trans.induct)
  case (t_step p ls)
  then show ?case
    by (auto intro!: tracker_inv_step simp: tracker_snapshot_def is_migrating_def)
next
  case (t_claim gen p p' ls)
  then show ?case by (auto simp: tracker_inv_def claim_worker_def split: if_splits)
next
  case (t_refuse gen p p' ls)
  then show ?case by (auto simp: claim_worker_def split: if_splits)
next
  case (t_release gen ls p)
  then show ?case by (auto simp: tracker_inv_def release_worker_def)
qed (auto intro: tracker_inv_intros)

lemma tracker_trans_leases: "tracker_trans s t \<Longrightarrow> leases_inv s \<Longrightarrow> leases_inv t"
proof (induction rule: tracker_trans.induct)
  case (t_claim gen p p' ls)
  then show ?case by (auto simp: leases_inv_def claim_worker_def split: if_splits)
next
  case (t_refuse gen p p' ls)
  then show ?case by (auto simp: leases_inv_def claim_worker_def split: if_splits)
next
  case (t_release gen ls p)
  then show ?case by (auto simp: leases_inv_def release_worker_def split: option.splits if_splits)
qed (auto simp: leases_inv_def)

lemma tracker_reach_inv: "tracker_reach s \<Longrightarrow> tracker_inv (fst s) \<and> leases_inv s"
proof (induction rule: tracker_reach.induct)
  case r_new
  show ?case
    by (simp add: tracker_inv_def leases_inv_def tracker_new_def telemetry_default_def)
next
  case (r_trans s t)
  then show ?case by (blast intro: tracker_trans_inv tracker_trans_leases)
qed

section \<open>Properties\<close>

text \<open>
  C19: whatever interleaving of tracker calls happened, an observed status is coherent: the counters
  never exceed their total, the fraction lies between 0 and 1, an idle tracker reports zeros and is
  not paused, and at most one worker lease is alive, the one whose generation the tracker records.
\<close>

theorem tracker_status_coherent:
  assumes "tracker_reach (p, ls)"
  shows "(let st = tracker_snapshot p in
            status_moved st \<le> status_total st \<and> 0 \<le> status_progress st \<and> status_progress st \<le> 1 \<and>
            (status_state st = Idle \<longrightarrow> status_moved st = 0 \<and> status_total st = 0 \<and>
               status_progress st = 0 \<and> \<not> paused (telem p))) \<and>
         length ls \<le> 1 \<and> (\<forall>g. g \<in> set ls \<longleftrightarrow> worker_generation p = Some g)"
proof -
  have "tracker_inv p" and "leases_inv (p, ls)"
    using tracker_reach_inv[OF assms] by simp_all
  then show ?thesis
    by (auto simp: tracker_inv_def leases_inv_def tracker_snapshot_def Let_def split: option.splits)
qed

theorem tracker_status_coherent_witness:
  "tracker_reach (step (begin_with_counts 5 2 4 7 tracker_new), []) \<and>
   status_moved (tracker_snapshot (step (begin_with_counts 5 2 4 7 tracker_new))) \<le>
   status_total (tracker_snapshot (step (begin_with_counts 5 2 4 7 tracker_new)))"
proof -
  have "tracker_reach (begin_with_counts 5 2 4 7 tracker_new, [])"
    by (rule r_trans[OF r_new], rule t_begin) (simp_all add: is_migrating_def tracker_new_def)
  then have r: "tracker_reach (step (begin_with_counts 5 2 4 7 tracker_new), [])"
    by (rule r_trans, intro t_step)
      (simp_all add: is_migrating_def tracker_snapshot_def telemetry_default_def)
  show ?thesis using r tracker_status_coherent[OF r] by (simp add: Let_def)
qed

text \<open>
  C20: the thread worker's \<open>wait_ready\<close> and the task worker's \<open>wait_ready_async\<close> block in the same
  states and return the same answer, and a worker that is let through owns a running migration of its
  own generation that nobody has paused.
\<close>

theorem wait_ready_sync_async_agree:
  "wait_ready gen cancelled p = wait_ready_async gen cancelled now p \<and>
   (wait_ready gen cancelled p = Some True \<longleftrightarrow>
      migrating p \<and> generation (telem p) = gen \<and> \<not> paused (telem p) \<and> \<not> cancelled)"
  by (auto simp: wait_ready_def wait_ready_async_def wait_blocks_def wait_result_def
      tracker_telemetry_def is_migrating_def Let_def)

end
