(* ===== verification/Shard_Count.thy ===== *)
theory Shard_Count
  imports Starshard_Prelude
begin

text \<open>
  Shard-count normalisation and validation (\<open>core/helpers.rs\<close>), the error the strict constructors
  return (\<open>error.rs\<close>) and the constants and modes of \<open>types.rs\<close>. Shard counts are \<open>usize\<close> values
  that are compared and never added, so they are natural numbers here.
\<close>

section \<open>types.rs, error.rs\<close>

definition DEFAULT_SHARDS :: nat where
  "DEFAULT_SHARDS = 64"

definition MAX_SHARDS :: nat where
  "MAX_SHARDS = 262144"

datatype snapshot_mode = CloneMode | Cached | Cow

record shard_count_error =
  requested :: nat
  max_allowed :: nat

section \<open>helpers.rs\<close>

definition normalized_shard_count :: "nat \<Rightarrow> nat" where
  "normalized_shard_count shard_count = (if shard_count = 0 then DEFAULT_SHARDS else shard_count)"

definition strict_shard_count :: "nat \<Rightarrow> nat \<Rightarrow> shard_count_error + nat" where
  "strict_shard_count shard_count max_shards =
     (let req = normalized_shard_count shard_count in
      if req > max_shards then Inl \<lparr>requested = req, max_allowed = max_shards\<rparr> else Inr req)"

definition capped_shard_count :: "nat \<Rightarrow> nat \<Rightarrow> nat" where
  "capped_shard_count shard_count max_shards = min (normalized_shard_count shard_count) max_shards"

section \<open>Lemmas\<close>

lemma normalized_pos [simp]: "0 < normalized_shard_count n"
  by (simp add: normalized_shard_count_def DEFAULT_SHARDS_def)

lemma strict_Inr: "strict_shard_count n mx = Inr c \<Longrightarrow> 0 < c \<and> c \<le> mx \<and> c = normalized_shard_count n"
  by (auto simp: strict_shard_count_def Let_def split: if_splits)

lemma strict_Inl: "strict_shard_count n mx = Inl e \<Longrightarrow> mx < normalized_shard_count n"
  by (auto simp: strict_shard_count_def Let_def split: if_splits)

lemma capped_pos [simp]: "0 < mx \<Longrightarrow> 0 < capped_shard_count n mx"
  by (simp add: capped_shard_count_def)

lemma capped_le: "capped_shard_count n mx \<le> mx"
  by (simp add: capped_shard_count_def)

end
