(* ===== verification/Eviction_Config.thy ===== *)
theory Eviction_Config
  imports Starshard_Prelude Complex_Main
begin

text \<open>
  The data types of \<open>eviction.rs\<close>: policies, configuration and its validation, the operation
  counters, the iterator builder and the drain iterator. Durations and weights are natural numbers;
  closures supplied by the caller (the weigher, filters) are functions. The parallel filter of the
  third-party crate \<open>rayon\<close> is the parameter \<open>par_filter\<close> of \<open>iter_builder_collect\<close>.
\<close>

section \<open>Policies, configuration, errors\<close>

datatype eviction_policy =
    LruPolicy
  | LfuPolicy
  | TimeToLive nat
  | Custom "unit \<Rightarrow> bool"

datatype capacity_policy = Lru | Lfu | Fifo

record eviction_config =
  cfg_policy :: eviction_policy
  max_entries :: "nat option"
  max_items_per_shard :: "nat option"
  ttl :: "nat option"
  check_interval :: nat
  background_enabled :: bool

definition eviction_config_default :: eviction_config where
  "eviction_config_default =
     \<lparr>cfg_policy = LruPolicy, max_entries = None, max_items_per_shard = None, ttl = None,
      check_interval = 60 * 10 ^ 9, background_enabled = True\<rparr>"

definition auto_lru :: "nat \<Rightarrow> nat \<Rightarrow> eviction_config" where
  "auto_lru n interval = eviction_config_default\<lparr>max_entries := Some n, check_interval := interval\<rparr>"

datatype eviction_scheduler_error =
    InvalidInterval
  | WorkerAlreadyRunning
  | RuntimeUnavailable
  | TimeDriverUnavailable
  | Spawn
  | WorkerPanicked
  | WorkerCancelled

datatype eviction_error =
    UnsupportedTtl
  | UnsupportedCustomPolicy
  | ConflictingEntryLimits
  | BackgroundNotAllowed
  | AlreadyConfigured
  | NotConfigured
  | Scheduler eviction_scheduler_error

record ('k, 'v) eviction_options =
  opt_config :: eviction_config
  opt_policy :: "capacity_policy option"
  opt_memory_budget :: "nat option"
  weigher :: "('k \<Rightarrow> 'v \<Rightarrow> nat) option"

definition options_new :: "eviction_config \<Rightarrow> ('k, 'v) eviction_options" where
  "options_new c = \<lparr>opt_config = c, opt_policy = None, opt_memory_budget = None, weigher = None\<rparr>"

definition with_policy :: "capacity_policy \<Rightarrow> ('k, 'v) eviction_options \<Rightarrow> ('k, 'v) eviction_options" where
  "with_policy p opts = opts\<lparr>opt_policy := Some p\<rparr>"

definition with_memory_budget ::
  "nat \<Rightarrow> ('k \<Rightarrow> 'v \<Rightarrow> nat) \<Rightarrow> ('k, 'v) eviction_options \<Rightarrow> ('k, 'v) eviction_options" where
  "with_memory_budget bytes w opts = opts\<lparr>opt_memory_budget := Some bytes, weigher := Some w\<rparr>"

definition validate_options :: "('k, 'v) eviction_options \<Rightarrow> eviction_error + unit" where
  "validate_options opts =
     (if ttl (opt_config opts) \<noteq> None \<or>
         (case cfg_policy (opt_config opts) of TimeToLive _ \<Rightarrow> True | _ \<Rightarrow> False)
      then Inl UnsupportedTtl
      else if (case cfg_policy (opt_config opts) of Custom _ \<Rightarrow> True | _ \<Rightarrow> False)
      then Inl UnsupportedCustomPolicy
      else if max_entries (opt_config opts) \<noteq> None \<and> max_items_per_shard (opt_config opts) \<noteq> None
      then Inl ConflictingEntryLimits
      else Inr ())"

definition options_policy :: "('k, 'v) eviction_options \<Rightarrow> capacity_policy" where
  "options_policy opts =
     (case opt_policy opts of
        Some p \<Rightarrow> p
      | None \<Rightarrow> (case cfg_policy (opt_config opts) of LfuPolicy \<Rightarrow> Lfu | _ \<Rightarrow> Lru))"

lemma validate_options_ok:
  "validate_options opts = Inr () \<Longrightarrow>
     max_entries (opt_config opts) = None \<or> max_items_per_shard (opt_config opts) = None"
  by (auto simp: validate_options_def split: if_splits)

section \<open>Operation counters\<close>

record atomic_metrics =
  inserts :: u64
  removes :: u64
  gets :: u64
  hits :: u64
  misses :: u64
  evictions :: u64

definition metrics_default :: atomic_metrics where
  "metrics_default = \<lparr>inserts = 0, removes = 0, gets = 0, hits = 0, misses = 0, evictions = 0\<rparr>"

record metrics_stats =
  total_inserts :: u64
  total_removes :: u64
  total_gets :: u64
  stat_hits :: u64
  stat_misses :: u64
  stat_evictions :: u64
  last_evict_time :: "nat option"
  hit_rate :: real

definition metrics_snapshot_of :: "atomic_metrics \<Rightarrow> metrics_stats" where
  "metrics_snapshot_of c =
     \<lparr>total_inserts = inserts c, total_removes = removes c, total_gets = gets c,
      stat_hits = hits c, stat_misses = misses c, stat_evictions = evictions c,
      last_evict_time = None,
      hit_rate = (if gets c > 0 then real (unat (hits c)) / real (unat (gets c)) else 0)\<rparr>"

definition metrics_reset :: "atomic_metrics \<Rightarrow> atomic_metrics" where
  "metrics_reset c =
     c\<lparr>inserts := 0, removes := 0, gets := 0, hits := 0, misses := 0, evictions := 0\<rparr>"

section \<open>IterBuilder\<close>

definition PARALLEL_FILTER_MIN_ITEMS :: nat where
  "PARALLEL_FILTER_MIN_ITEMS = 1024"

record ('k, 'v) iter_builder =
  builder_filter :: "('k \<Rightarrow> 'v \<Rightarrow> bool) option"
  builder_limit :: "nat option"
  builder_parallel :: bool

definition iter_builder_new :: "('k, 'v) iter_builder" where
  "iter_builder_new = \<lparr>builder_filter = None, builder_limit = None, builder_parallel = False\<rparr>"

definition iter_builder_collect ::
  "(('k \<times> 'v \<Rightarrow> bool) \<Rightarrow> ('k \<times> 'v) list \<Rightarrow> ('k \<times> 'v) list) \<Rightarrow>
   ('k, 'v) iter_builder \<Rightarrow> ('k \<times> 'v) list \<Rightarrow> ('k \<times> 'v) list" where
  "iter_builder_collect par_filter b items =
     (let result =
        (case builder_filter b of
           None \<Rightarrow> items
         | Some f \<Rightarrow>
             if builder_parallel b \<and> PARALLEL_FILTER_MIN_ITEMS \<le> length items
             then par_filter (\<lambda>(k, v). f k v) items
             else filter (\<lambda>(k, v). f k v) items)
      in case builder_limit b of None \<Rightarrow> result | Some n \<Rightarrow> take n result)"

text \<open>\<open>for_each\<close>: the callback as a function on the state it works on.\<close>

definition iter_builder_for_each ::
  "(('k \<times> 'v \<Rightarrow> bool) \<Rightarrow> ('k \<times> 'v) list \<Rightarrow> ('k \<times> 'v) list) \<Rightarrow>
   ('k, 'v) iter_builder \<Rightarrow> ('k \<times> 'v) list \<Rightarrow> ('k \<times> 'v \<Rightarrow> 's \<Rightarrow> 's) \<Rightarrow> 's \<Rightarrow> 's" where
  "iter_builder_for_each par_filter b items f s = fold f (iter_builder_collect par_filter b items) s"

section \<open>DrainIterator\<close>

record ('k, 'v) drain_iterator =
  drain_items :: "('k \<times> 'v) list"
  drain_index :: nat

definition drain_next :: "('k, 'v) drain_iterator \<Rightarrow> ('k \<times> 'v) option \<times> ('k, 'v) drain_iterator" where
  "drain_next d =
     (if drain_index d < length (drain_items d)
      then (Some (drain_items d ! drain_index d),
            d\<lparr>drain_items := swap_remove (drain_items d) (drain_index d)\<rparr>)
      else (None, d))"

definition drain_len :: "('k, 'v) drain_iterator \<Rightarrow> nat" where
  "drain_len d = length (drain_items d) - drain_index d"

definition drain_size_hint :: "('k, 'v) drain_iterator \<Rightarrow> nat \<times> nat option" where
  "drain_size_hint d = (drain_len d, Some (drain_len d))"

lemma length_swap_remove [simp]: "length (swap_remove xs i) = length xs - 1"
  by (simp add: swap_remove_def)

lemma drain_next_len:
  "drain_next d = (Some x, d') \<Longrightarrow> drain_len d = Suc (drain_len d') \<and> drain_index d' = drain_index d"
  by (auto simp: drain_next_def drain_len_def split: if_splits)

text \<open>\<open>Iterator::collect\<close> over the drain iterator.\<close>

function drain_collect :: "('k, 'v) drain_iterator \<Rightarrow> ('k \<times> 'v) list" where
  "drain_collect d =
     (case drain_next d of (None, _) \<Rightarrow> [] | (Some x, d') \<Rightarrow> x # drain_collect d')"
  by pat_completeness auto
termination
  by (relation "measure drain_len") (auto dest!: drain_next_len[OF sym])

declare drain_collect.simps [simp del]

lemma mset_drain_collect: "drain_index d = 0 \<Longrightarrow> mset (drain_collect d) = mset (drain_items d)"
proof (induction d rule: drain_collect.induct)
  case (1 d)
  show ?case
  proof (cases "drain_items d")
    case Nil
    then show ?thesis by (simp add: drain_collect.simps[of d] drain_next_def)
  next
    case (Cons x xs)
    let ?d' = "d\<lparr>drain_items := swap_remove (drain_items d) 0\<rparr>"
    have n: "drain_next d = (Some x, ?d')"
      using "1.prems" Cons by (simp add: drain_next_def)
    have "mset (drain_collect ?d') = mset (swap_remove (drain_items d) 0)"
      using "1.IH"[OF n[symmetric] refl] "1.prems" by simp
    also have "\<dots> = mset (drain_items d) - {#x#}"
      using mset_swap_remove[of 0 "drain_items d"] Cons by simp
    finally show ?thesis using n Cons by (simp add: drain_collect.simps[of d])
  qed
qed

section \<open>Properties\<close>

lemma length_drain_collect: "drain_index d = 0 \<Longrightarrow> length (drain_collect d) = drain_len d"
  using arg_cong[OF mset_drain_collect, of d size] by (simp add: drain_len_def)

text \<open>
  C21: the two iterators. The iteration builder gives, whatever the parallelism setting, the first \<open>limit\<close>
  of the items that pass the filter, in input order, so each result is an item, none is repeated more often
  than in the input and there are at most \<open>limit\<close> of them. Draining hands out every item exactly once, and
  before each call the reported length is exactly the number of items still to come.
\<close>

theorem iterators_exact:
  assumes "\<And>p xs. par_filter p xs = filter p xs" "drain_index d = 0"
  shows "iter_builder_collect par_filter b items =
     (let kept = (case builder_filter b of None \<Rightarrow> items
                  | Some f \<Rightarrow> filter (\<lambda>(k, v). f k v) items)
      in case builder_limit b of None \<Rightarrow> kept | Some n \<Rightarrow> take n kept) \<and>
    mset (iter_builder_collect par_filter b items) \<subseteq># mset items \<and>
    (\<forall>n. builder_limit b = Some n \<longrightarrow> length (iter_builder_collect par_filter b items) \<le> n) \<and>
    mset (drain_collect d) = mset (drain_items d) \<and>
    length (drain_collect d) = drain_len d \<and> drain_size_hint d = (drain_len d, Some (drain_len d)) \<and>
    (\<forall>x d'. drain_next d = (Some x, d') \<longrightarrow> drain_len d = Suc (drain_len d'))"
proof -
  have prefix: "mset (take n xs) \<subseteq># mset xs" for n and xs :: "('a \<times> 'b) list"
    by (metis append_take_drop_id mset_append mset_subset_eq_add_left)
  have filtered: "mset (filter p xs) \<subseteq># mset xs" for p and xs :: "('a \<times> 'b) list"
    by (simp add: multiset_filter_subset)
  note step = subset_mset.order_trans[OF prefix filtered]
  show ?thesis
    using mset_drain_collect[OF assms(2)] length_drain_collect[OF assms(2)]
    by (auto simp: iter_builder_collect_def assms(1) prefix filtered step drain_size_hint_def
        dest: drain_next_len split: option.splits)
qed

theorem iterators_exact_witness:
  "iter_builder_collect filter
     \<lparr>builder_filter = Some (\<lambda>k v. v > (10::nat)), builder_limit = Some 1, builder_parallel = True\<rparr>
     [(1::nat, 5), (2, 15), (3, 25)] = [(2, 15)] \<and>
   length (drain_collect \<lparr>drain_items = [(1::nat, ''a''), (2, ''b'')], drain_index = 0\<rparr>) = 2"
proof -
  let ?d = "\<lparr>drain_items = [(1::nat, ''a''), (2, ''b'')], drain_index = 0\<rparr>"
  let ?b = "\<lparr>builder_filter = Some (\<lambda>(k :: nat) v. v > (10::nat)), builder_limit = Some 1, builder_parallel = True\<rparr>"
  have "drain_index ?d = 0" by simp
  from iterators_exact[of filter, OF refl this, of ?b "[(1, 5), (2, 15), (3, 25)]"]
  show ?thesis by (simp add: drain_len_def Let_def)
qed

end
