(* ===== verification/Engine.thy ===== *)
theory Engine
  imports Hash_Map Eviction_Config "HOL-Library.Product_Lexorder"
begin

unbundle bit_operations_syntax

text \<open>
  The eviction engine, \<open>eviction/engine.rs\<close>: per-key policy metadata in 64 lock-striped hash maps
  (\<open>stripe\<close>, \<open>configured\<close>), the life-cycle state with its epochs and counters (\<open>lifecycle_state\<close>),
  the hooks the data operations call (\<open>prepare_insert\<close>, \<open>record_insert\<close>, \<open>record_read\<close>,
  \<open>record_remove\<close>, \<open>record_eviction\<close>), victim selection and repair (\<open>reconcile\<close>).

  Each function runs under the locks its Rust counterpart takes and is atomic here. An \<open>Arc<K>\<close> is
  the key it points to, so \<open>Arc::ptr_eq(a, b) || a == b\<close> is equality of keys. Stamps and epochs are
  64-bit and wrap; weights are sums of \<open>usize\<close> values in \<open>u128\<close>, which cannot overflow, and are
  natural numbers. \<open>Instant\<close>s are natural numbers supplied by the environment.

  \<open>deps\<close> collects what is not source code of the program: the caller's hasher \<open>hash_one\<close>, the
  \<open>FxBuildHasher\<close> of the engine, the two hash map types, the order in which a hash map of buckets is
  walked, and what the clock and the thread-local dispatch flag read during the call.
\<close>

section \<open>State\<close>

record 'k entry =
  entry_key :: 'k
  incarnation :: u64
  inserted :: u64
  accessed :: u64
  frequency :: u64
  entry_weight :: nat

record ('k, 'v, 'm, 'b) deps =
  hash_one :: "'k \<Rightarrow> u64"
  fx_hash_one :: "'k \<Rightarrow> u64"
  shard_ops :: "('k, 'v, 'm) hashbrown"
  stripe_ops :: "(u64, 'k entry list, 'b) hashbrown"
  bucket_order :: "nat list \<Rightarrow> nat list"
  now :: nat
  elapsed :: nat
  dispatching :: bool

definition STRIPES :: nat where
  "STRIPES = 64"

record ('k, 'b) stripe =
  buckets :: 'b
  stripe_weight :: nat
  retired :: "'k list"

definition stripe_default :: "('k, 'v, 'm, 'b) deps \<Rightarrow> ('k, 'b) stripe" where
  "stripe_default D = \<lparr>buckets = hb_new (stripe_ops D), stripe_weight = 0, retired = []\<rparr>"

record ('k, 'v, 'b) configured =
  options :: "('k, 'v) eviction_options"
  stripes :: "('k, 'b) stripe list"
  entries :: usize
  retired_stripes :: u64

record timing =
  timing_last :: "nat option"
  timing_duration :: nat

record ('k, 'v, 'b) lifecycle_state =
  configured :: "('k, 'v, 'b) configured option"
  metrics :: atomic_metrics
  sequence :: u64
  epoch :: u64
  dirty_epoch :: u64
  repaired_epoch :: u64
  work_epoch :: u64
  maintained_epoch :: u64
  reconciliations :: u64
  callback_panics :: u64
  suppressed_callbacks :: u64
  callback :: "('k \<Rightarrow> 'v \<Rightarrow> bool) option"  \<comment> \<open>\<open>True\<close>: the call panics\<close>
  timing :: timing

record 'k prepared_insert =
  prep_key :: "'k option"
  prep_hash :: u64
  prep_weight :: nat

record 'k eviction_candidate =
  cand_key :: 'k
  cand_weight :: nat
  cand_hash :: u64
  cand_epoch :: u64
  cand_incarnation :: u64
  cand_inserted :: u64
  cand_accessed :: u64
  cand_frequency :: u64

section \<open>Policy order\<close>

definition policy_rank :: "capacity_policy \<Rightarrow> u64 \<Rightarrow> u64 \<Rightarrow> u64 \<Rightarrow> u64 \<Rightarrow> u64 \<times> u64 \<times> u64" where
  "policy_rank policy ins acc freq incarn =
     (case policy of
        Lru \<Rightarrow> (acc, ins, incarn)
      | Lfu \<Rightarrow> (freq, acc, ins)
      | Fifo \<Rightarrow> (ins, 0, incarn))"

definition rank :: "capacity_policy \<Rightarrow> 'k eviction_candidate \<Rightarrow> u64 \<times> u64 \<times> u64" where
  "rank policy c =
     policy_rank policy (cand_inserted c) (cand_accessed c) (cand_frequency c) (cand_incarnation c)"

section \<open>Life-cycle state\<close>

definition lifecycle_new :: "('k, 'v, 'b) lifecycle_state" where
  "lifecycle_new =
     \<lparr>configured = None, metrics = metrics_default, sequence = 1, epoch = 1, dirty_epoch = 0,
      repaired_epoch = 0, work_epoch = 0, maintained_epoch = 0, reconciliations = 0,
      callback_panics = 0, suppressed_callbacks = 0, callback = None,
      timing = \<lparr>timing_last = None, timing_duration = 0\<rparr>\<rparr>"

definition configure ::
  "('k, 'v, 'm, 'b) deps \<Rightarrow> ('k, 'v) eviction_options \<Rightarrow> ('k, 'v, 'b) lifecycle_state \<Rightarrow>
   eviction_error + ('k, 'v, 'b) lifecycle_state" where
  "configure D opts l =
     (case validate_options opts of
        Inl e \<Rightarrow> Inl e
      | Inr _ \<Rightarrow>
          if configured l \<noteq> None then Inl AlreadyConfigured
          else Inr (l\<lparr>configured := Some \<lparr>options = opts,
                      stripes = replicate STRIPES (stripe_default D), entries = 0,
                      retired_stripes = 0\<rparr>\<rparr>))"

definition enabled :: "('k, 'v, 'b) lifecycle_state \<Rightarrow> bool" where
  "enabled l = (configured l \<noteq> None)"

definition config :: "('k, 'v, 'b) lifecycle_state \<Rightarrow> eviction_config option" where
  "config l = map_option (\<lambda>c. opt_config (options c)) (configured l)"

definition policy :: "('k, 'v, 'b) lifecycle_state \<Rightarrow> capacity_policy option" where
  "policy l = map_option (\<lambda>c. options_policy (options c)) (configured l)"

definition memory_budget :: "('k, 'v, 'b) lifecycle_state \<Rightarrow> nat option" where
  "memory_budget l = Option.bind (configured l) (\<lambda>c. opt_memory_budget (options c))"

definition mark_pending :: "('k, 'v, 'b) lifecycle_state \<Rightarrow> ('k, 'v, 'b) lifecycle_state" where
  "mark_pending l = (if enabled l then l\<lparr>work_epoch := work_epoch l + 1\<rparr> else l)"

text \<open>
  \<open>mutation()\<close> hands out a ticket. A ticket dropped unfinished, because the operation unwound,
  advances \<open>dirty_epoch\<close>; \<open>finish\<close> makes its drop a no-op.
\<close>

definition mutation :: "('k, 'v, 'b) lifecycle_state \<Rightarrow> ('k, 'v, 'b) lifecycle_state" where
  "mutation l = mark_pending l"

definition ticket_drop :: "bool \<Rightarrow> ('k, 'v, 'b) lifecycle_state \<Rightarrow> ('k, 'v, 'b) lifecycle_state" where
  "ticket_drop finished l =
     (if \<not> finished \<and> enabled l then l\<lparr>dirty_epoch := dirty_epoch l + 1\<rparr> else l)"

definition mark_dirty :: "('k, 'v, 'b) lifecycle_state \<Rightarrow> ('k, 'v, 'b) lifecycle_state" where
  "mark_dirty l =
     (if enabled l then mark_pending (l\<lparr>dirty_epoch := dirty_epoch l + 1\<rparr>) else l)"

definition dirty :: "('k, 'v, 'b) lifecycle_state \<Rightarrow> bool" where
  "dirty l = (dirty_epoch l \<noteq> repaired_epoch l)"

definition maintenance_generation :: "('k, 'v, 'b) lifecycle_state \<Rightarrow> u64" where
  "maintenance_generation l = work_epoch l"

definition mark_maintained :: "u64 \<Rightarrow> ('k, 'v, 'b) lifecycle_state \<Rightarrow> ('k, 'v, 'b) lifecycle_state" where
  "mark_maintained observed l = l\<lparr>maintained_epoch := max (maintained_epoch l) observed\<rparr>"

definition pending :: "('k, 'v, 'b) lifecycle_state \<Rightarrow> bool" where
  "pending l = (dirty l \<or> work_epoch l \<noteq> maintained_epoch l)"

definition weight :: "('k, 'v, 'b) lifecycle_state \<Rightarrow> 'k \<Rightarrow> 'v \<Rightarrow> nat" where
  "weight l key value =
     (case Option.bind (configured l) (\<lambda>c. weigher (options c)) of
        None \<Rightarrow> 0 | Some w \<Rightarrow> w key value)"

definition set_callback ::
  "('k \<Rightarrow> 'v \<Rightarrow> bool) \<Rightarrow> ('k, 'v, 'b) lifecycle_state \<Rightarrow> ('k, 'v, 'b) lifecycle_state" where
  "set_callback cb l = l\<lparr>callback := Some cb\<rparr>"

definition clear_callback :: "('k, 'v, 'b) lifecycle_state \<Rightarrow> ('k, 'v, 'b) lifecycle_state" where
  "clear_callback l = l\<lparr>callback := None\<rparr>"

definition metrics_snapshot :: "('k, 'v, 'b) lifecycle_state \<Rightarrow> metrics_stats" where
  "metrics_snapshot l =
     (metrics_snapshot_of (metrics l))\<lparr>last_evict_time := timing_last (timing l)\<rparr>"

definition reset_metrics :: "('k, 'v, 'b) lifecycle_state \<Rightarrow> ('k, 'v, 'b) lifecycle_state" where
  "reset_metrics l =
     l\<lparr>metrics := metrics_reset (metrics l), callback_panics := 0, suppressed_callbacks := 0,
       timing := \<lparr>timing_last = None, timing_duration = 0\<rparr>\<rparr>"

definition record_eviction_duration ::
  "nat \<Rightarrow> ('k, 'v, 'b) lifecycle_state \<Rightarrow> ('k, 'v, 'b) lifecycle_state" where
  "record_eviction_duration d l = l\<lparr>timing := (timing l)\<lparr>timing_duration := d\<rparr>\<rparr>"

definition exact_weight :: "('k, 'v, 'b) lifecycle_state \<Rightarrow> nat" where
  "exact_weight l =
     (case configured l of None \<Rightarrow> 0 | Some c \<Rightarrow> sum_list (map stripe_weight (stripes c)))"

definition over_memory_budget :: "('k, 'v, 'b) lifecycle_state \<Rightarrow> bool" where
  "over_memory_budget l =
     (case memory_budget l of None \<Rightarrow> False | Some budget \<Rightarrow> exact_weight l > budget)"

record eviction_runtime_stats =
  rt_enabled :: bool
  rt_pending :: bool
  rt_dirty :: bool
  tracked_entries :: usize
  estimated_weight :: nat
  weight_overflow :: bool
  rt_reconciliations :: u64
  rt_callback_panics :: u64
  rt_suppressed_callbacks :: u64
  rt_last_evict_time :: "nat option"
  last_eviction_duration :: nat

definition runtime_stats :: "('k, 'v, 'b) lifecycle_state \<Rightarrow> eviction_runtime_stats" where
  "runtime_stats l =
     \<lparr>rt_enabled = enabled l, rt_pending = pending l, rt_dirty = dirty l,
      tracked_entries = (case configured l of None \<Rightarrow> 0 | Some c \<Rightarrow> entries c),
      estimated_weight = min (exact_weight l) (2 ^ 64 - 1),
      weight_overflow = (exact_weight l > 2 ^ 64 - 1),
      rt_reconciliations = reconciliations l, rt_callback_panics = callback_panics l,
      rt_suppressed_callbacks = suppressed_callbacks l,
      rt_last_evict_time = timing_last (timing l),
      last_eviction_duration = timing_duration (timing l)\<rparr>"

section \<open>Deferred key retirement and callbacks\<close>

definition stripe_index :: "u64 \<Rightarrow> nat" where
  "stripe_index hash = unat hash mod STRIPES"

definition trailing_zeros :: "u64 \<Rightarrow> nat" where
  "trailing_zeros w = length (takeWhile (\<lambda>i. \<not> bit w i) [0..<64])"

text \<open>The loop of \<open>drain_retired\<close> over the set bits of the mask, lowest first.\<close>

lemma clear_lowest_less: "w \<noteq> 0 \<Longrightarrow> unat (w AND (w - 1)) < unat (w :: u64)"
proof -
  assume "w \<noteq> 0"
  have "w AND (w - 1) \<le> w - 1" by (rule word_and_le1)
  moreover have "w - 1 < w" using \<open>w \<noteq> 0\<close> by (simp add: word_less_nat_alt unat_minus_one unat_gt_0)
  ultimately show ?thesis by (simp add: word_less_nat_alt word_le_nat_alt)
qed

function drain_retired_loop ::
  "u64 \<Rightarrow> ('k, 'b) stripe list \<Rightarrow> 'k list \<Rightarrow> 'k list \<times> ('k, 'b) stripe list" where
  "drain_retired_loop w ss acc =
     (if w = 0 then (acc, ss)
      else let i = trailing_zeros w
           in drain_retired_loop (w AND (w - 1)) (ss[i := (ss ! i)\<lparr>retired := []\<rparr>])
                (acc @ retired (ss ! i)))"
  by pat_completeness auto
termination
  by (relation "measure (\<lambda>(w, ss, acc). unat w)") (auto intro: clear_lowest_less)

declare drain_retired_loop.simps [simp del]

definition drain_retired ::
  "('k, 'v, 'b) lifecycle_state \<Rightarrow> 'k list \<times> ('k, 'v, 'b) lifecycle_state" where
  "drain_retired l =
     (case configured l of
        None \<Rightarrow> ([], l)
      | Some c \<Rightarrow>
          (let (keys, ss) = drain_retired_loop (retired_stripes c) (stripes c) []
           in (keys, l\<lparr>configured := Some (c\<lparr>retired_stripes := 0, stripes := ss\<rparr>)\<rparr>)))"

definition defer_key ::
  "u64 \<Rightarrow> 'k \<Rightarrow> ('k, 'v, 'b) lifecycle_state \<Rightarrow> ('k, 'v, 'b) lifecycle_state" where
  "defer_key hash key l =
     (case configured l of
        None \<Rightarrow> l
      | Some c \<Rightarrow>
          (let i = stripe_index hash; s = stripes c ! i
           in l\<lparr>configured := Some (c\<lparr>stripes := (stripes c)[i := s\<lparr>retired := retired s @ [key]\<rparr>],
                  retired_stripes := retired_stripes c OR push_bit i 1\<rparr>)\<rparr>))"

definition dispatch_callbacks ::
  "('k, 'v, 'm, 'b) deps \<Rightarrow> ('k \<times> 'v) list \<Rightarrow> ('k, 'v, 'b) lifecycle_state \<Rightarrow>
   ('k, 'v, 'b) lifecycle_state" where
  "dispatch_callbacks D evicted l =
     (let l1 = snd (drain_retired l) in
      case callback l1 of
        None \<Rightarrow> l1
      | Some cb \<Rightarrow>
          if evicted = [] then l1
          else if dispatching D
          then l1\<lparr>suppressed_callbacks := suppressed_callbacks l1 + of_nat (length evicted)\<rparr>
          else l1\<lparr>callback_panics := callback_panics l1
                  + of_nat (length (filter (\<lambda>(k, v). cb k v) evicted))\<rparr>)"

section \<open>Hooks\<close>

definition stamp :: "('k, 'v, 'b) lifecycle_state \<Rightarrow> u64 \<times> ('k, 'v, 'b) lifecycle_state" where
  "stamp l = (sequence l, l\<lparr>sequence := sequence l + 1\<rparr>)"

definition set_configured ::
  "('k, 'v, 'b) configured \<Rightarrow> ('k, 'v, 'b) lifecycle_state \<Rightarrow> ('k, 'v, 'b) lifecycle_state" where
  "set_configured c l = l\<lparr>configured := Some c\<rparr>"

definition bucket_of :: "('k, 'v, 'm, 'b) deps \<Rightarrow> ('k, 'v, 'b) configured \<Rightarrow> u64 \<Rightarrow> 'k entry list option" where
  "bucket_of D c hash = hb_get (stripe_ops D) (buckets (stripes c ! stripe_index hash)) hash"

definition find_entry :: "('k, 'v, 'm, 'b) deps \<Rightarrow> ('k, 'v, 'b) configured \<Rightarrow> 'k \<Rightarrow> 'k entry option" where
  "find_entry D c key =
     Option.bind (bucket_of D c (fx_hash_one D key)) (find (\<lambda>e. entry_key e = key))"

definition prepare_insert ::
  "('k, 'v, 'm, 'b) deps \<Rightarrow> ('k, 'v, 'b) lifecycle_state \<Rightarrow> 'k \<Rightarrow> 'v \<Rightarrow> 'k prepared_insert" where
  "prepare_insert D l key value =
     (case configured l of
        None \<Rightarrow> \<lparr>prep_key = None, prep_hash = 0, prep_weight = 0\<rparr>
      | Some c \<Rightarrow>
          \<lparr>prep_key = Some (case find_entry D c key of Some e \<Rightarrow> entry_key e | None \<Rightarrow> key),
           prep_hash = fx_hash_one D key, prep_weight = weight l key value\<rparr>)"

definition record_insert ::
  "('k, 'v, 'm, 'b) deps \<Rightarrow> 'k prepared_insert \<Rightarrow> bool \<Rightarrow> ('k, 'v, 'b) lifecycle_state \<Rightarrow>
   ('k, 'v, 'b) lifecycle_state" where
  "record_insert D prep replaced l =
     (let l1 = l\<lparr>metrics := (metrics l)\<lparr>inserts := inserts (metrics l) + 1\<rparr>\<rparr> in
      case (configured l1, prep_key prep) of
        (Some c, Some key) \<Rightarrow>
          (let hash = prep_hash prep; i = stripe_index hash; s = stripes c ! i;
               (t, l2) = stamp l1;
               bucket = (case hb_get (stripe_ops D) (buckets s) hash of None \<Rightarrow> [] | Some b \<Rightarrow> b)
           in case position (\<lambda>e. entry_key e = key) bucket of
                Some j \<Rightarrow>
                  (let e = bucket ! j;
                       e' = e\<lparr>entry_weight := prep_weight prep, incarnation := t, accessed := t,
                              inserted := (if replaced then inserted e else t),
                              frequency := (if replaced then saturating_add (frequency e) 1 else 1)\<rparr>;
                       s' = s\<lparr>buckets := snd (hb_insert (stripe_ops D) (buckets s) hash (bucket[j := e'])),
                              stripe_weight := stripe_weight s - entry_weight e + prep_weight prep\<rparr>
                   in set_configured (c\<lparr>stripes := (stripes c)[i := s']\<rparr>) l2)
              | None \<Rightarrow>
                  (let e' = \<lparr>entry_key = key, incarnation = t, inserted = t, accessed = t,
                             frequency = 1, entry_weight = prep_weight prep\<rparr>;
                       s' = s\<lparr>buckets := snd (hb_insert (stripe_ops D) (buckets s) hash (bucket @ [e'])),
                              stripe_weight := stripe_weight s + prep_weight prep\<rparr>
                   in set_configured (c\<lparr>stripes := (stripes c)[i := s'], entries := entries c + 1\<rparr>) l2))
      | _ \<Rightarrow> l1)"

definition record_read ::
  "('k, 'v, 'm, 'b) deps \<Rightarrow> 'k \<Rightarrow> bool \<Rightarrow> ('k, 'v, 'b) lifecycle_state \<Rightarrow> ('k, 'v, 'b) lifecycle_state" where
  "record_read D key hit l =
     (let l1 = l\<lparr>metrics := (metrics l)\<lparr>gets := gets (metrics l) + 1\<rparr>\<rparr> in
      if \<not> hit then l1\<lparr>metrics := (metrics l1)\<lparr>misses := misses (metrics l1) + 1\<rparr>\<rparr>
      else
        (let l2 = l1\<lparr>metrics := (metrics l1)\<lparr>hits := hits (metrics l1) + 1\<rparr>\<rparr> in
         case configured l2 of
           None \<Rightarrow> l2
         | Some c \<Rightarrow>
             (let hash = fx_hash_one D key; i = stripe_index hash; s = stripes c ! i in
              case hb_get (stripe_ops D) (buckets s) hash of
                None \<Rightarrow> l2
              | Some bucket \<Rightarrow>
                  (case position (\<lambda>e. entry_key e = key) bucket of
                     None \<Rightarrow> l2
                   | Some j \<Rightarrow>
                       (let e = bucket ! j; (t, l3) = stamp l2;
                            e' = e\<lparr>accessed := max (accessed e) t,
                                   frequency := saturating_add (frequency e) 1\<rparr>;
                            s' = s\<lparr>buckets := snd (hb_insert (stripe_ops D) (buckets s) hash (bucket[j := e']))\<rparr>
                        in set_configured (c\<lparr>stripes := (stripes c)[i := s']\<rparr>) l3)))))"

text \<open>
  The common part of \<open>record_remove\<close> and \<open>record_eviction\<close>: detach the first entry of the bucket that
  satisfies \<open>p\<close>, retire its key, and drop the bucket when it becomes empty.
\<close>

definition detach_entry ::
  "('k, 'v, 'm, 'b) deps \<Rightarrow> u64 \<Rightarrow> ('k entry \<Rightarrow> bool) \<Rightarrow> ('k, 'v, 'b) configured \<Rightarrow> ('k, 'v, 'b) configured" where
  "detach_entry D hash p c =
     (let i = stripe_index hash; s = stripes c ! i;
          removed = (case hb_get (stripe_ops D) (buckets s) hash of
             None \<Rightarrow> None
           | Some bucket \<Rightarrow>
               map_option (\<lambda>j. (bucket ! j, swap_remove bucket j)) (position p bucket));
          c1 = (case removed of
             None \<Rightarrow> c
           | Some (e, rest) \<Rightarrow>
               c\<lparr>stripes := (stripes c)[i := s\<lparr>
                   buckets := snd (hb_insert (stripe_ops D) (buckets s) hash rest),
                   stripe_weight := stripe_weight s - entry_weight e,
                   retired := retired s @ [entry_key e]\<rparr>],
                 entries := entries c - 1,
                 retired_stripes := retired_stripes c OR push_bit i 1\<rparr>);
          s1 = stripes c1 ! i
      in if hb_get (stripe_ops D) (buckets s1) hash = Some []
         then c1\<lparr>stripes := (stripes c1)[i := s1\<lparr>buckets := snd (hb_remove (stripe_ops D) (buckets s1) hash)\<rparr>]\<rparr>
         else c1)"

definition record_remove ::
  "('k, 'v, 'm, 'b) deps \<Rightarrow> 'k \<Rightarrow> ('k, 'v, 'b) lifecycle_state \<Rightarrow> ('k, 'v, 'b) lifecycle_state" where
  "record_remove D key l =
     (let l1 = l\<lparr>metrics := (metrics l)\<lparr>removes := removes (metrics l) + 1\<rparr>\<rparr> in
      case configured l1 of
        None \<Rightarrow> l1
      | Some c \<Rightarrow> set_configured (detach_entry D (fx_hash_one D key) (\<lambda>e. entry_key e = key) c) l1)"

definition record_eviction ::
  "('k, 'v, 'm, 'b) deps \<Rightarrow> 'k eviction_candidate \<Rightarrow> ('k, 'v, 'b) lifecycle_state \<Rightarrow>
   ('k, 'v, 'b) lifecycle_state" where
  "record_eviction D cand l =
     (let l1 = l\<lparr>metrics := (metrics l)\<lparr>evictions := evictions (metrics l) + 1\<rparr>,
                 timing := (timing l)\<lparr>timing_last := Some (now D)\<rparr>\<rparr> in
      case configured l1 of
        None \<Rightarrow> l1
      | Some c \<Rightarrow>
          set_configured (detach_entry D (cand_hash cand) (\<lambda>e. incarnation e = cand_incarnation cand) c) l1)"

section \<open>Victim selection\<close>

definition make_candidate :: "u64 \<Rightarrow> u64 \<Rightarrow> 'k entry \<Rightarrow> 'k eviction_candidate" where
  "make_candidate ep hash e =
     \<lparr>cand_key = entry_key e, cand_weight = entry_weight e, cand_hash = hash, cand_epoch = ep,
      cand_incarnation = incarnation e, cand_inserted = inserted e, cand_accessed = accessed e,
      cand_frequency = frequency e\<rparr>"

text \<open>All entries with the hash of their bucket, stripe by stripe in the maps' iteration order.\<close>

definition tracked_list :: "('k, 'v, 'm, 'b) deps \<Rightarrow> ('k, 'v, 'b) configured \<Rightarrow> (u64 \<times> 'k entry) list" where
  "tracked_list D c =
     concat (map (\<lambda>s. concat (map (\<lambda>(hash, bucket). map (\<lambda>e. (hash, e)) bucket)
                                  (hb_iter (stripe_ops D) (buckets s)))) (stripes c))"

definition candidates ::
  "('k, 'v, 'm, 'b) deps \<Rightarrow> ('k, 'v, 'b) lifecycle_state \<Rightarrow> capacity_policy \<Rightarrow> 'k eviction_candidate list" where
  "candidates D l pol =
     (case configured l of
        None \<Rightarrow> []
      | Some c \<Rightarrow>
          if dirty l then []
          else sort_key (rank pol) (map (\<lambda>(hash, e). make_candidate (epoch l) hash e) (tracked_list D c)))"

fun min_scan :: "capacity_policy \<Rightarrow> 'k eviction_candidate option \<Rightarrow> 'k eviction_candidate list \<Rightarrow>
  'k eviction_candidate option" where
  "min_scan pol best [] = best"
| "min_scan pol best (x # xs) =
     min_scan pol (case best of None \<Rightarrow> Some x
                   | Some old \<Rightarrow> if rank pol x < rank pol old then Some x else Some old) xs"

definition minimum_candidate ::
  "('k, 'v, 'm, 'b) deps \<Rightarrow> ('k, 'v, 'b) lifecycle_state \<Rightarrow> capacity_policy \<Rightarrow> 'k eviction_candidate option" where
  "minimum_candidate D l pol =
     (case configured l of
        None \<Rightarrow> None
      | Some c \<Rightarrow>
          if dirty l then None
          else min_scan pol None (map (\<lambda>(hash, e). make_candidate (epoch l) hash e) (tracked_list D c)))"

definition candidates_for_keys ::
  "('k, 'v, 'm, 'b) deps \<Rightarrow> ('k, 'v, 'b) lifecycle_state \<Rightarrow> capacity_policy \<Rightarrow> 'k list \<Rightarrow>
   'k eviction_candidate list" where
  "candidates_for_keys D l pol keys =
     (case configured l of
        None \<Rightarrow> []
      | Some c \<Rightarrow>
          if dirty l then []
          else sort_key (rank pol)
            (List.map_filter (\<lambda>key. map_option (make_candidate (epoch l) (fx_hash_one D key))
                                 (find_entry D c key)) keys))"

definition validate ::
  "('k, 'v, 'm, 'b) deps \<Rightarrow> ('k, 'v, 'b) lifecycle_state \<Rightarrow> 'k eviction_candidate \<Rightarrow> bool" where
  "validate D l cand =
     (if dirty l \<or> cand_epoch cand \<noteq> epoch l then False
      else case configured l of
        None \<Rightarrow> False
      | Some c \<Rightarrow>
          (case bucket_of D c (cand_hash cand) of
             None \<Rightarrow> False
           | Some bucket \<Rightarrow>
               list_ex (\<lambda>e. incarnation e = cand_incarnation cand \<and> entry_weight e = cand_weight cand \<and>
                            accessed e = cand_accessed cand \<and> frequency e = cand_frequency cand) bucket))"

section \<open>Repair\<close>

text \<open>One iteration of the staging loop of \<open>reconcile\<close>.\<close>

definition stage_entry ::
  "('k, 'v, 'm, 'b) deps \<Rightarrow> ('k, 'v, 'b) configured \<Rightarrow> 'k \<times> nat \<Rightarrow>
   ('k, 'b) stripe list \<times> ('k, 'v, 'b) lifecycle_state \<Rightarrow>
   ('k, 'b) stripe list \<times> ('k, 'v, 'b) lifecycle_state" where
  "stage_entry D c = (\<lambda>(key, w) (staged, l).
     (let hash = fx_hash_one D key; i = stripe_index hash; (t, l') = stamp l;
          (ins, acc, freq) =
            (case find_entry D c key of
               None \<Rightarrow> (t, t, 1)
             | Some e \<Rightarrow> (inserted e, accessed e, frequency e));
          s = staged ! i;
          bucket = (case hb_get (stripe_ops D) (buckets s) hash of None \<Rightarrow> [] | Some b \<Rightarrow> b);
          e' = \<lparr>entry_key = key, incarnation = t, inserted = ins, accessed = acc, frequency = freq,
                entry_weight = w\<rparr>
      in (staged[i := s\<lparr>stripe_weight := stripe_weight s + w,
                        buckets := snd (hb_insert (stripe_ops D) (buckets s) hash (bucket @ [e']))\<rparr>], l')))"

definition publish_stripe ::
  "('k, 'v, 'm, 'b) deps \<Rightarrow> ('k, 'b) stripe \<Rightarrow> ('k, 'b) stripe \<Rightarrow> ('k, 'b) stripe" where
  "publish_stripe D guard replacement =
     replacement\<lparr>retired := retired replacement @ retired guard
       @ concat (map (\<lambda>(_, bucket). map entry_key bucket) (hb_iter (stripe_ops D) (buckets guard)))\<rparr>"

fun retired_mask :: "nat \<Rightarrow> ('k, 'b) stripe list \<Rightarrow> u64" where
  "retired_mask i [] = 0"
| "retired_mask i (s # ss) =
     (if retired s \<noteq> [] then push_bit i 1 OR retired_mask (Suc i) ss else retired_mask (Suc i) ss)"

definition reconcile ::
  "('k, 'v, 'm, 'b) deps \<Rightarrow> ('k \<times> nat) list \<Rightarrow> ('k, 'v, 'b) lifecycle_state \<Rightarrow>
   ('k, 'v, 'b) lifecycle_state" where
  "reconcile D live l =
     (case configured l of
        None \<Rightarrow> l
      | Some c \<Rightarrow>
          (let observed_dirty = dirty_epoch l;
               (staged, l1) = fold (stage_entry D c) live (replicate STRIPES (stripe_default D), l);
               published = map2 (publish_stripe D) (stripes c) staged
           in l1\<lparr>configured := Some (c\<lparr>stripes := published, entries := of_nat (length live),
                    retired_stripes := retired_stripes c OR retired_mask 0 published\<rparr>),
                 epoch := epoch l1 + 1, repaired_epoch := observed_dirty,
                 reconciliations := reconciliations l1 + 1\<rparr>))"

end
