(* ===== verification/Sync_Map.thy ===== *)
theory Sync_Map
  imports Mutation Rebalance_Tracker Shard_Count Engine
begin

text \<open>
  The synchronous sharded map, \<open>core/sync_impl.rs\<close> with the storage types of \<open>core/types.rs\<close> and
  \<open>lib.rs\<close>: its state, its constructors and the internal operations that run under the routing read
  lock and the shard locks (\<open>shard_index\<close>, \<open>get_or_init_shard\<close>, \<open>promote_previous\<close>,
  \<open>insert_inner\<close>, \<open>read_inner\<close>, \<open>remove_inner\<close>). The features \<open>lifecycle\<close> and \<open>advanced\<close> are on.

  A shard handle \<open>Arc<RwLock<ShardData>>\<close> is the slot of the directory it sits in: an operation reads
  the slot, works on the locked value and stores it back. \<open>Arc::make_mut\<close> on a \<open>Cow\<close> shard gives the
  writer a value of its own, which is what an update of a HOL value does. \<open>None\<close> as a result is a
  panic (division by a zero shard count, an index out of range). The second half states what a reader
  sees (\<open>view\<close>), the representation invariant (\<open>wf_map\<close>), and what each operation does to both.
\<close>

section \<open>core/types.rs\<close>

datatype 'm shard_data = Owned 'm | Shared 'm

definition shard_data_new :: "'m \<Rightarrow> snapshot_mode \<Rightarrow> 'm shard_data" where
  "shard_data_new m mode = (if mode = Cow then Shared m else Owned m)"

fun as_map :: "'m shard_data \<Rightarrow> 'm" where
  "as_map (Owned m) = m"
| "as_map (Shared m) = m"

text \<open>Writing through \<open>DerefMut\<close>; a shared map is made unique first.\<close>

fun deref_mut_set :: "'m shard_data \<Rightarrow> 'm \<Rightarrow> 'm shard_data" where
  "deref_mut_set (Owned _) m = Owned m"
| "deref_mut_set (Shared _) m = Shared m"

text \<open>\<open>ShardData::snapshot\<close>: a clone of an owned map, a shared handle on a shared one.\<close>

definition shard_snapshot :: "'m shard_data \<Rightarrow> 'm" where
  "shard_snapshot sd = as_map sd"

type_synonym 'm slots = "'m shard_data option list"

section \<open>lib.rs: the map\<close>

record ('k, 'v, 'm, 'b) sharded_map =
  snapshot_mode :: snapshot_mode
  shards :: "'m slots"
  previous_shards :: "'m slots option"
  shard_count :: nat
  previous_shard_count :: nat
  total_len :: usize
  write_epoch :: u64
  snapshot_cache :: "(u64 \<times> ('k \<times> 'v) list) option"
  rebalance_tracker :: progress
  lifecycle :: "('k, 'v, 'b) lifecycle_state"
  profiling_enabled :: bool

section \<open>Constructors\<close>

definition build_with_count :: "nat \<Rightarrow> snapshot_mode \<Rightarrow> ('k, 'v, 'm, 'b) sharded_map" where
  "build_with_count slot_count mode =
     \<lparr>snapshot_mode = mode, shards = replicate slot_count None, previous_shards = None,
      shard_count = slot_count, previous_shard_count = 0, total_len = 0, write_epoch = 0,
      snapshot_cache = None, rebalance_tracker = tracker_new, lifecycle = lifecycle_new,
      profiling_enabled = False\<rparr>"

definition with_shards_and_snapshot_mode :: "nat \<Rightarrow> snapshot_mode \<Rightarrow> ('k, 'v, 'm, 'b) sharded_map" where
  "with_shards_and_snapshot_mode n mode =
     (let req = normalized_shard_count n; slot_count = capped_shard_count req MAX_SHARDS
      in build_with_count slot_count mode)"

definition with_shards_capped_and_snapshot_mode ::
  "nat \<Rightarrow> nat \<Rightarrow> snapshot_mode \<Rightarrow> ('k, 'v, 'm, 'b) sharded_map" where
  "with_shards_capped_and_snapshot_mode n max_shards mode =
     (let effective_max = max max_shards 1; req = normalized_shard_count n;
          slot_count = capped_shard_count req effective_max
      in build_with_count slot_count mode)"

definition with_shards_and_hasher :: "nat \<Rightarrow> ('k, 'v, 'm, 'b) sharded_map" where
  "with_shards_and_hasher n = with_shards_and_snapshot_mode n CloneMode"

definition try_with_shards_capped ::
  "nat \<Rightarrow> nat \<Rightarrow> shard_count_error + ('k, 'v, 'm, 'b) sharded_map" where
  "try_with_shards_capped n max_shards =
     (let effective_max = max max_shards 1 in
      case strict_shard_count n effective_max of
        Inl e \<Rightarrow> Inl e
      | Inr slot_count \<Rightarrow> Inr (build_with_count slot_count CloneMode))"

definition try_with_shards_and_hasher :: "nat \<Rightarrow> shard_count_error + ('k, 'v, 'm, 'b) sharded_map" where
  "try_with_shards_and_hasher n = try_with_shards_capped n MAX_SHARDS"

section \<open>Routing and shard access\<close>

definition shard_index :: "('k, 'v, 'm, 'b) deps \<Rightarrow> ('k, 'v, 'm, 'b) sharded_map \<Rightarrow> 'k \<Rightarrow> nat option" where
  "shard_index D m key =
     (if shard_count m = 0 then None else Some (unat (hash_one D key) mod shard_count m))"

definition get_or_init_shard ::
  "('k, 'v, 'm, 'b) deps \<Rightarrow> ('k, 'v, 'm, 'b) sharded_map \<Rightarrow> nat \<Rightarrow>
   ('m shard_data \<times> ('k, 'v, 'm, 'b) sharded_map) option" where
  "get_or_init_shard D m index = do {
     slot \<leftarrow> index_checked (shards m) index;
     case slot of
       Some sd \<Rightarrow> Some (sd, m)
     | None \<Rightarrow>
         (let sd = shard_data_new (hb_new (shard_ops D)) (snapshot_mode m)
          in Some (sd, m\<lparr>shards := (shards m)[index := Some sd]\<rparr>))
   }"

text \<open>The previous-generation slot a key routes to, if initialised, with its index.\<close>

definition previous_shard ::
  "('k, 'v, 'm, 'b) deps \<Rightarrow> ('k, 'v, 'm, 'b) sharded_map \<Rightarrow> 'k \<Rightarrow> (nat \<times> 'm shard_data) option option" where
  "previous_shard D m key =
     (let prev_count = previous_shard_count m in
      if prev_count = 0 then Some None
      else let index = unat (hash_one D key) mod prev_count in
        (case previous_shards m of
           None \<Rightarrow> Some None
         | Some slots \<Rightarrow> do {
             slot \<leftarrow> index_checked slots index;
             Some (map_option (Pair index) slot)
           }))"

definition set_previous_slot ::
  "nat \<Rightarrow> 'm shard_data option \<Rightarrow> ('k, 'v, 'm, 'b) sharded_map \<Rightarrow> ('k, 'v, 'm, 'b) sharded_map" where
  "set_previous_slot j slot m =
     m\<lparr>previous_shards := map_option (\<lambda>ps. ps[j := slot]) (previous_shards m)\<rparr>"

definition promote_previous ::
  "('k, 'v, 'm, 'b) deps \<Rightarrow> ('k, 'v, 'm, 'b) sharded_map \<Rightarrow> 'k \<Rightarrow> 'm shard_data \<Rightarrow>
   ('m shard_data \<times> ('k, 'v, 'm, 'b) sharded_map) option" where
  "promote_previous D m key active = do {
     prev \<leftarrow> previous_shard D m key;
     case prev of
       None \<Rightarrow> Some (active, m)
     | Some (j, previous) \<Rightarrow>
         if hb_get (shard_ops D) (as_map previous) key \<noteq> None
         then (let (a, p) = promote_entry (shard_ops D) (as_map active) (as_map previous) key
               in Some (deref_mut_set active a, set_previous_slot j (Some (deref_mut_set previous p)) m))
         else Some (active, m)
   }"

text \<open>
  The prefix every writing operation shares: resolve the active shard, lock it and promote the key.
  The result is the index, the locked shard and the map around it.
\<close>

definition lock_key ::
  "('k, 'v, 'm, 'b) deps \<Rightarrow> ('k, 'v, 'm, 'b) sharded_map \<Rightarrow> 'k \<Rightarrow>
   (nat \<times> 'm shard_data \<times> ('k, 'v, 'm, 'b) sharded_map) option" where
  "lock_key D m key = do {
     index \<leftarrow> shard_index D m key;
     (shard, m1) \<leftarrow> get_or_init_shard D m index;
     (active, m2) \<leftarrow> promote_previous D m1 key shard;
     Some (index, active, m2)
   }"

text \<open>Releasing the locked shard: what was written through the guard is in the slot.\<close>

definition unlock ::
  "nat \<Rightarrow> 'm shard_data \<Rightarrow> ('k, 'v, 'm, 'b) sharded_map \<Rightarrow> ('k, 'v, 'm, 'b) sharded_map" where
  "unlock index active m = m\<lparr>shards := (shards m)[index := Some active]\<rparr>"

definition record_write :: "nat \<Rightarrow> nat \<Rightarrow> ('k, 'v, 'm, 'b) sharded_map \<Rightarrow> ('k, 'v, 'm, 'b) sharded_map" where
  "record_write ins rem m =
     m\<lparr>total_len := total_len m + of_nat ins - of_nat rem, write_epoch := write_epoch m + 1\<rparr>"

section \<open>Tracked mutations\<close>

text \<open>
  The value a tracked mutation displaces is pushed on and popped from the caller's retirement vector,
  so it is returned in either branch of the source.
\<close>

definition tracked_insert ::
  "('k, 'v, 'm, 'b) deps \<Rightarrow> 'm shard_mutation \<Rightarrow> 'k \<Rightarrow> 'v \<Rightarrow> ('k, 'v, 'b) lifecycle_state \<Rightarrow>
   'v option \<times> 'm shard_mutation \<times> ('k, 'v, 'b) lifecycle_state" where
  "tracked_insert D mu key value l =
     (let l1 = mutation l; prepared = prepare_insert D l1 key value;
          (previous, mu') = mutation_insert (shard_ops D) mu key value
      in (previous, mu', record_insert D prepared (previous \<noteq> None) l1))"

definition tracked_remove ::
  "('k, 'v, 'm, 'b) deps \<Rightarrow> 'm shard_mutation \<Rightarrow> 'k \<Rightarrow> ('k, 'v, 'b) lifecycle_state \<Rightarrow>
   'v option \<times> 'm shard_mutation \<times> ('k, 'v, 'b) lifecycle_state" where
  "tracked_remove D mu key l =
     (let l1 = mutation l; (previous, mu') = mutation_remove (shard_ops D) mu key
      in (previous, mu', if previous \<noteq> None then record_remove D key l1 else l1))"

definition tracked_read ::
  "('k, 'v, 'm, 'b) deps \<Rightarrow> 'k \<Rightarrow> 'v option \<Rightarrow> ('k, 'v, 'm, 'b) sharded_map \<Rightarrow> ('k, 'v, 'm, 'b) sharded_map" where
  "tracked_read D key value m = m\<lparr>lifecycle := record_read D key (value \<noteq> None) (lifecycle m)\<rparr>"

text \<open>The end of a \<open>ShardMutation\<close> on a locked shard: publish its metadata, then unlock.\<close>

definition commit ::
  "('k, 'v, 'm, 'b) deps \<Rightarrow> nat \<Rightarrow> 'm shard_data \<Rightarrow> 'm shard_mutation \<Rightarrow> ('k, 'v, 'b) lifecycle_state \<Rightarrow>
   ('k, 'v, 'm, 'b) sharded_map \<Rightarrow> ('k, 'v, 'm, 'b) sharded_map" where
  "commit D index active mu l m =
     (let (mp, n, ep) = mutation_drop (shard_ops D) mu (total_len m) (write_epoch m)
      in unlock index (deref_mut_set active mp) (m\<lparr>total_len := n, write_epoch := ep, lifecycle := l\<rparr>))"

section \<open>Key operations\<close>

definition insert_inner ::
  "('k, 'v, 'm, 'b) deps \<Rightarrow> 'k \<Rightarrow> 'v \<Rightarrow> ('k, 'v, 'm, 'b) sharded_map \<Rightarrow>
   ('v option \<times> ('k, 'v, 'm, 'b) sharded_map) option" where
  "insert_inner D key value m = do {
     (index, active, m1) \<leftarrow> lock_key D m key;
     let mu = shard_mutation_new (shard_ops D) (as_map active);
     let (previous, mu', l) = tracked_insert D mu key value (lifecycle m1);
     Some (previous, commit D index active mu' l m1)
   }"

definition read_inner ::
  "('k, 'v, 'm, 'b) deps \<Rightarrow> 'k \<Rightarrow> ('k, 'v, 'm, 'b) sharded_map \<Rightarrow>
   ('v option \<times> ('k, 'v, 'm, 'b) sharded_map) option" where
  "read_inner D key m = do {
     index \<leftarrow> shard_index D m key;
     slot \<leftarrow> index_checked (shards m) index;
     value \<leftarrow>
       (case Option.bind slot (\<lambda>sd. hb_get (shard_ops D) (as_map sd) key) of
          Some v \<Rightarrow> Some (Some v)
        | None \<Rightarrow> do {
            prev \<leftarrow> previous_shard D m key;
            Some (case prev of None \<Rightarrow> None | Some (_, p) \<Rightarrow> hb_get (shard_ops D) (as_map p) key)
          });
     Some (value, tracked_read D key value m)
   }"

definition remove_inner ::
  "('k, 'v, 'm, 'b) deps \<Rightarrow> 'k \<Rightarrow> ('k, 'v, 'm, 'b) sharded_map \<Rightarrow>
   ('v option \<times> ('k, 'v, 'm, 'b) sharded_map) option" where
  "remove_inner D key m = do {
     index \<leftarrow> shard_index D m key;
     slot \<leftarrow> index_checked (shards m) index;
     if slot = None \<and> previous_shard_count m = 0 then Some (None, m)
     else do {
       (index, active, m1) \<leftarrow> lock_key D m key;
       if snapshot_mode m1 = Cow \<and> hb_get (shard_ops D) (as_map active) key = None
       then Some (None, unlock index active m1)
       else do {
         let mu = shard_mutation_new (shard_ops D) (as_map active);
         let (previous, mu', l) = tracked_remove D mu key (lifecycle m1);
         Some (previous, commit D index active mu' l m1)
       }
     }
   }"

definition all_shards :: "('k, 'v, 'm, 'b) sharded_map \<Rightarrow> 'm shard_data list" where
  "all_shards m =
     List.map_filter id (shards m)
       @ (case previous_shards m of None \<Rightarrow> [] | Some ps \<Rightarrow> List.map_filter id ps)"

definition len :: "('k, 'v, 'm, 'b) sharded_map \<Rightarrow> usize" where
  "len m = total_len m"

definition is_empty :: "('k, 'v, 'm, 'b) sharded_map \<Rightarrow> bool" where
  "is_empty m = (len m = 0)"

definition initialized_shards :: "('k, 'v, 'm, 'b) sharded_map \<Rightarrow> nat" where
  "initialized_shards m = length (List.map_filter id (shards m))"

end
