(* ===== verification/Sync_View.thy ===== *)
theory Sync_View
  imports Sync_Map
begin

text \<open>
  What the two shard directories of a map mean: \<open>view\<close> is the finite map a reader sees, \<open>wf_dirs\<close> the
  representation invariant of the directories and the migration tracker, \<open>wf_map\<close> adds that the
  atomic length is the number of stored entries. The locale \<open>starshard_deps\<close> collects the laws of the
  third-party code; everything about one slot, one shard and one key operation is proved in it.
\<close>

section \<open>Directories\<close>

definition slot_get :: "('k, 'v, 'm, 'b) deps \<Rightarrow> 'm shard_data option \<Rightarrow> 'k \<Rightarrow> 'v option" where
  "slot_get D slot k = (case slot of None \<Rightarrow> None | Some sd \<Rightarrow> hb_get (shard_ops D) (as_map sd) k)"

definition slot_len :: "('k, 'v, 'm, 'b) deps \<Rightarrow> 'm shard_data option \<Rightarrow> nat" where
  "slot_len D slot = (case slot of None \<Rightarrow> 0 | Some sd \<Rightarrow> hb_len (shard_ops D) (as_map sd))"

definition route :: "('k, 'v, 'm, 'b) deps \<Rightarrow> nat \<Rightarrow> 'k \<Rightarrow> nat" where
  "route D n k = unat (hash_one D k) mod n"

definition slots_get :: "('k, 'v, 'm, 'b) deps \<Rightarrow> 'm slots \<Rightarrow> 'k \<Rightarrow> 'v option" where
  "slots_get D slots k = (if slots = [] then None else slot_get D (slots ! route D (length slots) k) k)"

definition slots_len :: "('k, 'v, 'm, 'b) deps \<Rightarrow> 'm slots \<Rightarrow> nat" where
  "slots_len D slots = sum_list (map (slot_len D) slots)"

definition shard_ok :: "('k, 'v, 'm, 'b) deps \<Rightarrow> snapshot_mode \<Rightarrow> nat \<Rightarrow> nat \<Rightarrow> 'm shard_data \<Rightarrow> bool" where
  "shard_ok D mode n i sd \<longleftrightarrow>
     ((\<exists>mp. sd = Shared mp) \<longleftrightarrow> mode = Cow) \<and>
     (\<forall>k. hb_get (shard_ops D) (as_map sd) k \<noteq> None \<longrightarrow> route D n k = i)"

definition slots_ok :: "('k, 'v, 'm, 'b) deps \<Rightarrow> snapshot_mode \<Rightarrow> 'm slots \<Rightarrow> bool" where
  "slots_ok D mode slots \<longleftrightarrow>
     (\<forall>i < length slots. \<forall>sd. slots ! i = Some sd \<longrightarrow> shard_ok D mode (length slots) i sd)"

definition prev_slots :: "('k, 'v, 'm, 'b) sharded_map \<Rightarrow> 'm slots" where
  "prev_slots m = (case previous_shards m of None \<Rightarrow> [] | Some ps \<Rightarrow> ps)"

section \<open>The view and the invariant\<close>

definition view :: "('k, 'v, 'm, 'b) deps \<Rightarrow> ('k, 'v, 'm, 'b) sharded_map \<Rightarrow> 'k \<Rightarrow> 'v option" where
  "view D m = slots_get D (prev_slots m) ++ slots_get D (shards m)"

definition stored_len :: "('k, 'v, 'm, 'b) deps \<Rightarrow> ('k, 'v, 'm, 'b) sharded_map \<Rightarrow> nat" where
  "stored_len D m = slots_len D (shards m) + slots_len D (prev_slots m)"

definition migration_ok :: "progress \<Rightarrow> 'm slots option \<Rightarrow> bool" where
  "migration_ok tr prev \<longleftrightarrow>
     tracker_inv tr \<and> (migrating tr \<longleftrightarrow> prev \<noteq> None) \<and>
     (case prev of None \<Rightarrow> True
      | Some ps \<Rightarrow> total_shards (telem tr) = length ps \<and> completed_shards (telem tr) < length ps \<and>
          0 < to_shards (telem tr) \<and> (\<forall>i < completed_shards (telem tr). ps ! i = None))"

definition wf_dirs :: "('k, 'v, 'm, 'b) deps \<Rightarrow> ('k, 'v, 'm, 'b) sharded_map \<Rightarrow> bool" where
  "wf_dirs D m \<longleftrightarrow>
     shards m \<noteq> [] \<and> shard_count m = length (shards m) \<and>
     previous_shard_count m = length (prev_slots m) \<and>
     slots_ok D (snapshot_mode m) (shards m) \<and> slots_ok D (snapshot_mode m) (prev_slots m) \<and>
     (\<forall>k. slots_get D (shards m) k = None \<or> slots_get D (prev_slots m) k = None) \<and>
     migration_ok (rebalance_tracker m) (previous_shards m)"

definition wf_map :: "('k, 'v, 'm, 'b) deps \<Rightarrow> ('k, 'v, 'm, 'b) sharded_map \<Rightarrow> bool" where
  "wf_map D m \<longleftrightarrow> wf_dirs D m \<and> total_len m = of_nat (stored_len D m)"

section \<open>Frame rules\<close>

lemma wf_dirs_frame [simp]:
  "wf_dirs D (m\<lparr>total_len := n\<rparr>) = wf_dirs D m" "wf_dirs D (m\<lparr>write_epoch := e\<rparr>) = wf_dirs D m"
  "wf_dirs D (m\<lparr>lifecycle := l\<rparr>) = wf_dirs D m" "wf_dirs D (m\<lparr>snapshot_cache := c\<rparr>) = wf_dirs D m"
  "wf_dirs D (m\<lparr>profiling_enabled := b\<rparr>) = wf_dirs D m"
  by (simp_all add: wf_dirs_def prev_slots_def)

lemma view_frame [simp]:
  "view D (m\<lparr>total_len := n\<rparr>) = view D m" "view D (m\<lparr>write_epoch := e\<rparr>) = view D m"
  "view D (m\<lparr>lifecycle := l\<rparr>) = view D m" "view D (m\<lparr>snapshot_cache := c\<rparr>) = view D m"
  "view D (m\<lparr>rebalance_tracker := t\<rparr>) = view D m" "view D (m\<lparr>profiling_enabled := b\<rparr>) = view D m"
  by (simp_all add: view_def prev_slots_def)

lemma stored_len_frame [simp]:
  "stored_len D (m\<lparr>total_len := n\<rparr>) = stored_len D m" "stored_len D (m\<lparr>write_epoch := e\<rparr>) = stored_len D m"
  "stored_len D (m\<lparr>lifecycle := l\<rparr>) = stored_len D m"
  "stored_len D (m\<lparr>snapshot_cache := c\<rparr>) = stored_len D m"
  "stored_len D (m\<lparr>rebalance_tracker := t\<rparr>) = stored_len D m"
  "stored_len D (m\<lparr>profiling_enabled := b\<rparr>) = stored_len D m"
  by (simp_all add: stored_len_def prev_slots_def)

lemma wf_map_frame [simp]:
  "wf_map D (m\<lparr>write_epoch := e\<rparr>) = wf_map D m" "wf_map D (m\<lparr>lifecycle := l\<rparr>) = wf_map D m"
  "wf_map D (m\<lparr>snapshot_cache := c\<rparr>) = wf_map D m" "wf_map D (m\<lparr>profiling_enabled := b\<rparr>) = wf_map D m"
  by (simp_all add: wf_map_def)

lemma prev_slots_upd [simp]:
  "prev_slots (m\<lparr>shards := s\<rparr>) = prev_slots m" "prev_slots (m\<lparr>total_len := n\<rparr>) = prev_slots m"
  "prev_slots (m\<lparr>write_epoch := e\<rparr>) = prev_slots m" "prev_slots (m\<lparr>lifecycle := l\<rparr>) = prev_slots m"
  by (simp_all add: prev_slots_def)

lemma unlock_simps [simp]:
  "shards (unlock i sd m) = (shards m)[i := Some sd]" "prev_slots (unlock i sd m) = prev_slots m"
  "previous_shards (unlock i sd m) = previous_shards m" "lifecycle (unlock i sd m) = lifecycle m"
  "total_len (unlock i sd m) = total_len m" "write_epoch (unlock i sd m) = write_epoch m"
  "snapshot_mode (unlock i sd m) = snapshot_mode m" "snapshot_cache (unlock i sd m) = snapshot_cache m"
  "rebalance_tracker (unlock i sd m) = rebalance_tracker m" "shard_count (unlock i sd m) = shard_count m"
  "previous_shard_count (unlock i sd m) = previous_shard_count m"
  "profiling_enabled (unlock i sd m) = profiling_enabled m"
  by (simp_all add: unlock_def)

lemma unlock_upd [simp]:
  "unlock i sd (m\<lparr>total_len := n\<rparr>) = (unlock i sd m)\<lparr>total_len := n\<rparr>"
  "unlock i sd (m\<lparr>write_epoch := e\<rparr>) = (unlock i sd m)\<lparr>write_epoch := e\<rparr>"
  "unlock i sd (m\<lparr>lifecycle := l\<rparr>) = (unlock i sd m)\<lparr>lifecycle := l\<rparr>"
  by (simp_all add: unlock_def)

lemma unlock_unlock [simp]: "unlock i sd' (unlock i sd m) = unlock i sd' m"
  by (simp add: unlock_def)

lemma as_map_deref_mut_set [simp]: "as_map (deref_mut_set sd mp) = mp"
  by (cases sd) simp_all

lemma shared_deref_mut_set [simp]: "(\<exists>x. deref_mut_set sd mp = Shared x) \<longleftrightarrow> (\<exists>x. sd = Shared x)"
  by (cases sd) simp_all

lemma as_map_new [simp]: "as_map (shard_data_new mp mode) = mp"
  by (simp add: shard_data_new_def)

lemma shared_new [simp]: "(\<exists>x. shard_data_new mp mode = Shared x) \<longleftrightarrow> mode = Cow"
  by (simp add: shard_data_new_def)

section \<open>Reading and writing slots\<close>

lemma slot_get_simps [simp]:
  "slot_get D None k = None" "slot_get D (Some sd) k = hb_get (shard_ops D) (as_map sd) k"
  by (simp_all add: slot_get_def)

lemma slot_len_simps [simp]:
  "slot_len D None = 0" "slot_len D (Some sd) = hb_len (shard_ops D) (as_map sd)"
  by (simp_all add: slot_len_def)

lemma slots_get_Nil [simp]: "slots_get D [] k = None"
  by (simp add: slots_get_def)

lemma slots_len_Nil [simp]: "slots_len D [] = 0"
  by (simp add: slots_len_def)

lemma route_less: "slots \<noteq> [] \<Longrightarrow> route D (length slots) k < length slots"
  by (simp add: route_def)

lemma slots_get_update:
  "i < length slots \<Longrightarrow> slots_get D (slots[i := slot]) k =
     (if route D (length slots) k = i then slot_get D slot k else slots_get D slots k)"
  using route_less[of slots D k] by (auto simp: slots_get_def)

lemma slots_get_at:
  "i < length slots \<Longrightarrow> route D (length slots) k = i \<Longrightarrow> slots_get D slots k = slot_get D (slots ! i) k"
  by (auto simp: slots_get_def)

lemma slots_ok_update:
  "\<lbrakk>slots_ok D mode slots; i < length slots;
    \<And>sd. slot = Some sd \<Longrightarrow> shard_ok D mode (length slots) i sd\<rbrakk> \<Longrightarrow> slots_ok D mode (slots[i := slot])"
  by (auto simp: slots_ok_def nth_list_update)

lemma slots_okD: "\<lbrakk>slots_ok D mode slots; i < length slots; slots ! i = Some sd\<rbrakk> \<Longrightarrow>
    shard_ok D mode (length slots) i sd"
  by (simp add: slots_ok_def)

lemma slots_len_update:
  assumes "i < length slots"
  shows "slots_len D (slots[i := slot]) + slot_len D (slots ! i) = slots_len D slots + slot_len D slot"
  using sum_list_update_nat[of i "map (slot_len D) slots" "slot_len D slot"] assms
  by (simp add: slots_len_def map_update)

lemma slot_in_get:
  "\<lbrakk>slots_ok D mode slots; i < length slots; slots ! i = Some sd; hb_get (shard_ops D) (as_map sd) k = Some v\<rbrakk>
     \<Longrightarrow> slots_get D slots k = Some v"
  using slots_okD[of D mode slots i sd] slots_get_at[of i slots D k] by (auto simp: shard_ok_def)

lemma slots_get_other:
  "\<lbrakk>slots_ok D mode slots; i < length slots; slots ! i = Some sd; route D (length slots) k \<noteq> i\<rbrakk>
     \<Longrightarrow> hb_get (shard_ops D) (as_map sd) k = None"
  using slots_okD[of D mode slots i sd] by (auto simp: shard_ok_def)

section \<open>Writing one slot of a map\<close>

lemma wf_dirsD:
  assumes "wf_dirs D m"
  shows "shards m \<noteq> []" "shard_count m = length (shards m)" "0 < length (shards m)"
    "previous_shard_count m = length (prev_slots m)" "slots_ok D (snapshot_mode m) (shards m)"
    "slots_ok D (snapshot_mode m) (prev_slots m)" "migration_ok (rebalance_tracker m) (previous_shards m)"
    "slots_get D (shards m) k = None \<or> slots_get D (prev_slots m) k = None"
  using assms by (auto simp: wf_dirs_def)

lemma migration_okD:
  "migration_ok tr prev \<Longrightarrow> tracker_inv tr \<and> (migrating tr \<longleftrightarrow> prev \<noteq> None) \<and> prev \<noteq> Some []"
  by (auto simp: migration_ok_def split: option.splits)

lemma wf_dirs_set_active:
  assumes wf: "wf_dirs D m" and i: "i < length (shards m)"
    and ok: "shard_ok D (snapshot_mode m) (length (shards m)) i sd"
    and disj: "\<And>k. hb_get (shard_ops D) (as_map sd) k \<noteq> None \<Longrightarrow> slots_get D (prev_slots m) k = None"
  shows "wf_dirs D (unlock i sd m)"
proof -
  have "slots_ok D (snapshot_mode m) ((shards m)[i := Some sd])"
    using wf i ok by (intro slots_ok_update) (auto simp: wf_dirs_def)
  moreover have "slots_get D ((shards m)[i := Some sd]) k = None \<or> slots_get D (prev_slots m) k = None" for k
    using wf_dirsD(8)[OF wf, of k] disj[of k] i
    by (cases "hb_get (shard_ops D) (as_map sd) k") (auto simp: slots_get_update)
  ultimately show ?thesis using wf by (simp add: wf_dirs_def)
qed

lemma view_set_active:
  assumes "i < length (shards m)"
  shows "view D (unlock i sd m) k =
    (if route D (length (shards m)) k = i
     then (case hb_get (shard_ops D) (as_map sd) k of Some v \<Rightarrow> Some v | None \<Rightarrow> slots_get D (prev_slots m) k)
     else view D m k)"
  using assms by (simp add: view_def map_add_def slots_get_update split: option.splits)

lemma stored_len_set_active:
  assumes "i < length (shards m)"
  shows "stored_len D (unlock i sd m) + slot_len D (shards m ! i) =
    stored_len D m + hb_len (shard_ops D) (as_map sd)"
  using slots_len_update[OF assms, of D "Some sd"] by (simp add: stored_len_def)

lemma prev_slots_set [simp]: "prev_slots (set_previous_slot j slot m) = (prev_slots m)[j := slot]"
  by (simp add: set_previous_slot_def prev_slots_def split: option.splits)

lemma set_previous_slot_simps [simp]:
  "shards (set_previous_slot j slot m) = shards m"
  "lifecycle (set_previous_slot j slot m) = lifecycle m" "total_len (set_previous_slot j slot m) = total_len m"
  "write_epoch (set_previous_slot j slot m) = write_epoch m"
  "snapshot_mode (set_previous_slot j slot m) = snapshot_mode m"
  "snapshot_cache (set_previous_slot j slot m) = snapshot_cache m"
  "rebalance_tracker (set_previous_slot j slot m) = rebalance_tracker m"
  "shard_count (set_previous_slot j slot m) = shard_count m"
  "previous_shard_count (set_previous_slot j slot m) = previous_shard_count m"
  "profiling_enabled (set_previous_slot j slot m) = profiling_enabled m"
  by (simp_all add: set_previous_slot_def)

lemma wf_dirs_set_previous:
  assumes wf: "wf_dirs D m" and j: "j < length (prev_slots m)" and at: "prev_slots m ! j \<noteq> None"
    and ok: "shard_ok D (snapshot_mode m) (length (prev_slots m)) j sd"
    and sub: "\<And>k. hb_get (shard_ops D) (as_map sd) k \<noteq> None \<Longrightarrow> slots_get D (shards m) k = None"
  shows "wf_dirs D (set_previous_slot j (Some sd) m)"
proof -
  obtain ps where ps: "previous_shards m = Some ps"
    using j by (auto simp: prev_slots_def split: option.splits)
  have pe: "prev_slots m = ps" using ps by (simp add: prev_slots_def)
  have "migration_ok (rebalance_tracker m) (Some (ps[j := Some sd]))"
  proof -
    have "\<not> j < completed_shards (telem (rebalance_tracker m))"
      using wf_dirsD(7)[OF wf] ps at pe by (auto simp: migration_ok_def)
    then show ?thesis using wf_dirsD(7)[OF wf] ps by (auto simp: migration_ok_def)
  qed
  moreover have "slots_ok D (snapshot_mode m) (ps[j := Some sd])"
    using wf_dirsD(6)[OF wf] j ok pe by (intro slots_ok_update) auto
  moreover have "slots_get D (shards m) k = None \<or> slots_get D (ps[j := Some sd]) k = None" for k
    using wf_dirsD(8)[OF wf, of k] sub[of k] j pe
    by (cases "hb_get (shard_ops D) (as_map sd) k") (auto simp: slots_get_update)
  ultimately show ?thesis
    using wf ps by (simp add: wf_dirs_def prev_slots_def set_previous_slot_def)
qed

lemma stored_len_set_previous:
  assumes "j < length (prev_slots m)"
  shows "stored_len D (set_previous_slot j slot m) + slot_len D (prev_slots m ! j) =
    stored_len D m + slot_len D slot"
  using slots_len_update[OF assms, of D slot] by (simp add: stored_len_def)

section \<open>The laws of the third-party code\<close>

locale starshard_deps =
  fixes D :: "('k, 'v, 'm, 'b) deps"
  assumes shard_laws: "hashbrown_map (shard_ops D)"
    and stripe_laws: "hashbrown_map (stripe_ops D)"
    and order_law: "enumerates (bucket_order D)"

sublocale starshard_deps \<subseteq> H: hashbrown_map "shard_ops D"
  by (rule shard_laws)

sublocale starshard_deps \<subseteq> B: hashbrown_map "stripe_ops D"
  by (rule stripe_laws)

text \<open>
  The laws can be met: association lists for both hash map types, identity hashing on numbers. This
  instance is the one concrete evaluations use.
\<close>

definition nat_deps ::
  "(nat, 'v, (nat, 'v) alist_map, (u64, nat entry list) alist_map) deps" where
  "nat_deps =
     \<lparr>hash_one = of_nat, fx_hash_one = of_nat, shard_ops = alist_ops, stripe_ops = alist_ops,
      bucket_order = id, now = 0, elapsed = 0, dispatching = False\<rparr>"

interpretation nat_deps: starshard_deps
  "nat_deps :: (nat, 'v, (nat, 'v) alist_map, (u64, nat entry list) alist_map) deps"
  by (rule starshard_deps.intro) (simp_all add: nat_deps_def alist_ops_laws enumerates_def)

lemma nat_deps_laws:
  "starshard_deps (nat_deps :: (nat, 'v, (nat, 'v) alist_map, (u64, nat entry list) alist_map) deps)"
  by (rule nat_deps.starshard_deps_axioms)

section \<open>Locking a key\<close>

text \<open>What an operation on the shards leaves alone.\<close>

definition same_meta :: "('k, 'v, 'm, 'b) sharded_map \<Rightarrow> ('k, 'v, 'm, 'b) sharded_map \<Rightarrow> bool" where
  "same_meta m m' \<longleftrightarrow>
     snapshot_mode m' = snapshot_mode m \<and> shard_count m' = shard_count m \<and>
     previous_shard_count m' = previous_shard_count m \<and> snapshot_cache m' = snapshot_cache m \<and>
     rebalance_tracker m' = rebalance_tracker m \<and> profiling_enabled m' = profiling_enabled m \<and>
     length (shards m') = length (shards m) \<and> length (prev_slots m') = length (prev_slots m)"

definition same_counters :: "('k, 'v, 'm, 'b) sharded_map \<Rightarrow> ('k, 'v, 'm, 'b) sharded_map \<Rightarrow> bool" where
  "same_counters m m' \<longleftrightarrow>
     total_len m' = total_len m \<and> write_epoch m' = write_epoch m \<and> lifecycle m' = lifecycle m"

lemma same_meta_refl [simp]: "same_meta m m"
  by (simp add: same_meta_def)

lemma same_counters_refl [simp]: "same_counters m m"
  by (simp add: same_counters_def)

lemma same_meta_trans: "same_meta a b \<Longrightarrow> same_meta b c \<Longrightarrow> same_meta a c"
  by (simp add: same_meta_def)

lemma same_meta_unlock: "same_meta m (unlock i sd m)"
  by (simp add: same_meta_def unlock_def)

lemma same_counters_unlock: "same_counters m (unlock i sd m)"
  by (simp add: same_counters_def)

lemma same_meta_set_previous: "same_meta m (set_previous_slot j slot m)"
  by (simp add: same_meta_def)

definition init_slot :: "('k, 'v, 'm, 'b) deps \<Rightarrow> ('k, 'v, 'm, 'b) sharded_map \<Rightarrow> nat \<Rightarrow> 'm shard_data" where
  "init_slot D m i =
     (case shards m ! i of Some sd \<Rightarrow> sd | None \<Rightarrow> shard_data_new (hb_new (shard_ops D)) (snapshot_mode m))"

lemma unlock_same: "shards m ! i = Some sd \<Longrightarrow> unlock i sd m = m"
  by (metis list_update_id sharded_map.surjective sharded_map.update_convs(2) unlock_def)

lemma get_or_init_eq:
  "i < length (shards m) \<Longrightarrow> get_or_init_shard D m i = Some (init_slot D m i, unlock i (init_slot D m i) m)"
  by (cases "shards m ! i") (simp_all add: get_or_init_shard_def init_slot_def unlock_same,
      simp add: unlock_def Let_def)

lemma shard_index_wf: "wf_dirs D m \<Longrightarrow> shard_index D m k = Some (route D (length (shards m)) k)"
  by (auto simp: shard_index_def route_def wf_dirs_def)

lemma previous_shard_wf:
  assumes "wf_dirs D m"
  shows "previous_shard D m k =
    Some (if prev_slots m = [] then None
          else map_option (Pair (route D (length (prev_slots m)) k))
                 (prev_slots m ! route D (length (prev_slots m)) k))"
proof (cases "previous_shards m")
  case None
  then show ?thesis using assms by (simp add: previous_shard_def wf_dirs_def prev_slots_def Let_def)
next
  case (Some ps)
  then have "ps \<noteq> []" "previous_shard_count m = length ps"
    using assms migration_okD[of "rebalance_tracker m" "previous_shards m"]
    by (auto simp: wf_dirs_def prev_slots_def)
  then show ?thesis using Some
    by (simp add: previous_shard_def prev_slots_def Let_def route_def)
qed

context starshard_deps
begin

lemma init_slot_get:
  "slot_get D (Some (init_slot D m i)) k = slot_get D (shards m ! i) k"
  by (simp add: init_slot_def H.get_new split: option.splits)

lemma init_slot_len: "hb_len (shard_ops D) (as_map (init_slot D m i)) = slot_len D (shards m ! i)"
  by (simp add: init_slot_def H.len_new split: option.splits)

lemma init_slot_ok:
  assumes "wf_dirs D m" "i < length (shards m)"
  shows "shard_ok D (snapshot_mode m) (length (shards m)) i (init_slot D m i)"
  using slots_okD[OF wf_dirsD(5)[OF assms(1)] assms(2)]
  by (auto simp: init_slot_def shard_ok_def H.get_new split: option.splits)

lemma get_or_init_wf:
  assumes "wf_dirs D m" "i < length (shards m)"
  defines "m1 \<equiv> unlock i (init_slot D m i) m"
  shows "wf_dirs D m1" "view D m1 = view D m" "stored_len D m1 = stored_len D m"
proof -
  note ok = init_slot_ok[OF assms(1,2)]
  have at: "hb_get (shard_ops D) (as_map (init_slot D m i)) k = slot_get D (shards m ! i) k" for k
    using init_slot_get[of m i k] by simp
  have same: "slots_get D ((shards m)[i := Some (init_slot D m i)]) = slots_get D (shards m)"
    using assms(2) by (auto simp: fun_eq_iff slots_get_update at slots_get_at)
  show "wf_dirs D m1"
    unfolding m1_def
  proof (rule wf_dirs_set_active[OF assms(1,2) ok])
    fix k assume "hb_get (shard_ops D) (as_map (init_slot D m i)) k \<noteq> None"
    then have "slots_get D (shards m) k \<noteq> None"
      using ok slots_get_at[OF assms(2), of D k] at[of k] by (auto simp: shard_ok_def)
    then show "slots_get D (prev_slots m) k = None" using wf_dirsD(8)[OF assms(1)] by metis
  qed
  show "view D m1 = view D m" by (simp add: m1_def view_def same)
  show "stored_len D m1 = stored_len D m"
    using stored_len_set_active[OF assms(2), of D "init_slot D m i"] by (simp add: m1_def init_slot_len)
qed

end

end
