(* ===== verification/Sync_Entries.thy ===== *)
theory Sync_Entries
  imports Sync_View
begin

text \<open>
  Walking the initialised shards, active directory first, as \<open>all_shards\<close> does: every logical entry is
  met exactly once. Staged resharding and all snapshots are built from this walk.
\<close>

definition slots_entries :: "('k, 'v, 'm, 'b) deps \<Rightarrow> 'm slots \<Rightarrow> ('k \<times> 'v) list" where
  "slots_entries D slots = concat (map (\<lambda>sd. hb_iter (shard_ops D) (as_map sd)) (List.map_filter id slots))"

definition stored_entries :: "('k, 'v, 'm, 'b) deps \<Rightarrow> ('k, 'v, 'm, 'b) sharded_map \<Rightarrow> ('k \<times> 'v) list" where
  "stored_entries D m = concat (map (\<lambda>sd. hb_iter (shard_ops D) (as_map sd)) (all_shards m))"

definition slot_entries :: "('k, 'v, 'm, 'b) deps \<Rightarrow> 'm shard_data option \<Rightarrow> ('k \<times> 'v) list" where
  "slot_entries D slot = (case slot of None \<Rightarrow> [] | Some sd \<Rightarrow> hb_iter (shard_ops D) (as_map sd))"

lemma stored_entries_eq: "stored_entries D m = slots_entries D (shards m) @ slots_entries D (prev_slots m)"
  by (simp add: stored_entries_def all_shards_def slots_entries_def prev_slots_def map_filter_def split: option.splits)

lemma slots_entries_eq: "slots_entries D slots = concat (map (slot_entries D) slots)"
  by (induction slots) (auto simp: slots_entries_def slot_entries_def map_filter_def split: option.splits)

lemma distinct_concat_route:
  assumes "\<And>i. i < length xs \<Longrightarrow> distinct (g (xs ! i)) \<and> (\<forall>k \<in> set (g (xs ! i)). r k = i + (n::nat))"
  shows "distinct (concat (map g xs)) \<and> (\<forall>k \<in> set (concat (map g xs)). n \<le> r k)"
  using assms
proof (induction xs arbitrary: n)
  case (Cons x xs)
  have "distinct (concat (map g xs)) \<and> (\<forall>k \<in> set (concat (map g xs)). Suc n \<le> r k)"
    using Cons.prems[of "Suc _"] by (intro Cons.IH) auto
  moreover have "distinct (g x)" "\<forall>k \<in> set (g x). r k = n" using Cons.prems[of 0] by simp_all
  ultimately show ?case by (auto simp del: set_concat)
qed simp

context starshard_deps
begin

lemma slots_entries_distinct:
  assumes "slots_ok D mode slots"
  shows "distinct (map fst (slots_entries D slots))"
proof -
  have "distinct (map fst (slot_entries D (slots ! i))) \<and>
      (\<forall>k \<in> set (map fst (slot_entries D (slots ! i))). route D (length slots) k = i + 0)" if "i < length slots" for i
    using slots_okD[OF assms that]
    by (auto simp: slot_entries_def H.iter_distinct H.iter_in shard_ok_def split: option.splits)
  from distinct_concat_route[OF this] show ?thesis by (simp add: slots_entries_eq map_concat comp_def)
qed

lemma slots_entries_in:
  assumes "slots_ok D mode slots"
  shows "(k, v) \<in> set (slots_entries D slots) \<longleftrightarrow> slots_get D slots k = Some v"
proof
  assume "(k, v) \<in> set (slots_entries D slots)"
  then obtain slot where "slot \<in> set slots" "(k, v) \<in> set (slot_entries D slot)" by (auto simp: slots_entries_eq)
  then obtain i where i: "i < length slots" "(k, v) \<in> set (slot_entries D (slots ! i))" by (metis in_set_conv_nth)
  then show "slots_get D slots k = Some v"
    using slot_in_get[OF assms i(1)] by (cases "slots ! i") (auto simp: slot_entries_def H.iter_in)
next
  assume a: "slots_get D slots k = Some v"
  then have ne: "slots \<noteq> []" by auto
  let ?i = "route D (length slots) k"
  have "slot_get D (slots ! ?i) k = Some v" using a ne by (simp add: slots_get_def)
  then have "(k, v) \<in> set (slot_entries D (slots ! ?i))"
    by (auto simp: slot_entries_def slot_get_def H.iter_in split: option.splits)
  then show "(k, v) \<in> set (slots_entries D slots)" using route_less[OF ne, of D k] by (auto simp: slots_entries_eq)
qed

lemma stored_entries_spec:
  assumes "wf_dirs D m"
  shows "distinct (map fst (stored_entries D m))" "map_of (stored_entries D m) = view D m"
    "length (stored_entries D m) = stored_len D m"
proof -
  note ok = wf_dirsD(5,6)[OF assms]
  have mo: "map_of (slots_entries D slots) = slots_get D slots" if "slots_ok D (snapshot_mode m) slots" for slots
  proof
    fix k
    show "map_of (slots_entries D slots) k = slots_get D slots k"
      using slots_entries_in[OF that, of k] slots_entries_distinct[OF that]
      by (cases "slots_get D slots k") (auto simp: map_of_eq_None_iff)
  qed
  have "fst ` set (slots_entries D (shards m)) \<inter> fst ` set (slots_entries D (prev_slots m)) = {}"
    using slots_entries_in[OF ok(1)] slots_entries_in[OF ok(2)] wf_dirsD(8)[OF assms] by (auto, metis option.distinct(1))
  then show "distinct (map fst (stored_entries D m))"
    using slots_entries_distinct[OF ok(1)] slots_entries_distinct[OF ok(2)] by (simp add: stored_entries_eq)
  show "map_of (stored_entries D m) = view D m"
    using mo[OF ok(1)] mo[OF ok(2)] by (simp add: stored_entries_eq map_of_append view_def)
  have "length (slot_entries D slot) = slot_len D slot" for slot
    by (cases slot) (simp_all add: slot_entries_def H.len_iter)
  then have "length (slots_entries D slots) = slots_len D slots" for slots
    by (simp add: slots_entries_eq slots_len_def length_concat comp_def)
  then show "length (stored_entries D m) = stored_len D m" by (simp add: stored_entries_eq stored_len_def)
qed

end

end
