(* ===== verification/Map_Contract.thy ===== *)
theory Map_Contract
  imports Starshard_Prelude
begin

text \<open>
  What a client may rely on: sequences of calls to a key-value store, the answers a finite map gives to
  them, and the contracts of a store. \<open>cache_contract\<close> lets the store forget entries; under it no answer is ever
  stale. \<open>map_contract\<close> extends it to a store that keeps everything; under it every sequence of calls
  is answered exactly as by the finite map. \<open>online_contract\<close> adds background work that may run between
  any two calls and must not be noticed, \<open>snapshot_contract\<close> snapshots that may be served from a cache.
\<close>

datatype ('k, 'v) call = Insert 'k 'v | Get 'k | Delete 'k

fun spec_call :: "('k, 'v) call \<Rightarrow> ('k \<Rightarrow> 'v option) \<Rightarrow> 'v option \<times> ('k \<Rightarrow> 'v option)" where
  "spec_call (Insert k v) A = (A k, A(k \<mapsto> v))"
| "spec_call (Get k) A = (A k, A)"
| "spec_call (Delete k) A = (A k, A(k := None))"

fun spec_calls :: "('k, 'v) call list \<Rightarrow> ('k \<Rightarrow> 'v option) \<Rightarrow> 'v option list \<times> ('k \<Rightarrow> 'v option)" where
  "spec_calls [] A = ([], A)"
| "spec_calls (c # cs) A =
     (let (r, A1) = spec_call c A; (rs, A2) = spec_calls cs A1 in (r # rs, A2))"

fun run_call ::
  "('k \<Rightarrow> 'v \<Rightarrow> 's \<Rightarrow> ('v option \<times> 's) option) \<Rightarrow> ('k \<Rightarrow> 's \<Rightarrow> ('v option \<times> 's) option) \<Rightarrow>
   ('k \<Rightarrow> 's \<Rightarrow> ('v option \<times> 's) option) \<Rightarrow> ('k, 'v) call \<Rightarrow> 's \<Rightarrow> ('v option \<times> 's) option" where
  "run_call ins get rem (Insert k v) s = ins k v s"
| "run_call ins get rem (Get k) s = get k s"
| "run_call ins get rem (Delete k) s = rem k s"

fun run_calls ::
  "('k \<Rightarrow> 'v \<Rightarrow> 's \<Rightarrow> ('v option \<times> 's) option) \<Rightarrow> ('k \<Rightarrow> 's \<Rightarrow> ('v option \<times> 's) option) \<Rightarrow>
   ('k \<Rightarrow> 's \<Rightarrow> ('v option \<times> 's) option) \<Rightarrow> ('k, 'v) call list \<Rightarrow> 's \<Rightarrow> ('v option list \<times> 's) option" where
  "run_calls ins get rem [] s = Some ([], s)"
| "run_calls ins get rem (c # cs) s = do {
     (r, s1) \<leftarrow> run_call ins get rem c s;
     (rs, s2) \<leftarrow> run_calls ins get rem cs s1;
     Some (r # rs, s2)
   }"

text \<open>An answer of a store that may have forgotten the entry.\<close>

definition lossy :: "'v option \<Rightarrow> 'v option \<Rightarrow> bool" where
  "lossy r a \<longleftrightarrow> r = None \<or> r = a"

lemma lossy_of_le: "f \<subseteq>\<^sub>m g \<Longrightarrow> lossy (f k) (g k)"
  unfolding lossy_def by (metis domIff map_le_def)

lemma map_le_upd: "f \<subseteq>\<^sub>m g \<Longrightarrow> f(k := x) \<subseteq>\<^sub>m g(k := x)"
  by (auto simp: map_le_def dom_def)

locale cache_contract =
  fixes inv :: "'s \<Rightarrow> bool"
    and V :: "'s \<Rightarrow> 'k \<Rightarrow> 'v option"
    and ins :: "'k \<Rightarrow> 'v \<Rightarrow> 's \<Rightarrow> ('v option \<times> 's) option"
    and get :: "'k \<Rightarrow> 's \<Rightarrow> ('v option \<times> 's) option"
    and rem :: "'k \<Rightarrow> 's \<Rightarrow> ('v option \<times> 's) option"
  assumes ins_ok: "inv s \<Longrightarrow> \<exists>s'. ins k v s = Some (V s k, s') \<and> inv s' \<and> V s' \<subseteq>\<^sub>m (V s)(k \<mapsto> v)"
    and get_ok: "inv s \<Longrightarrow> \<exists>s'. get k s = Some (V s k, s') \<and> inv s' \<and> V s' = V s"
    and rem_ok: "inv s \<Longrightarrow> \<exists>s'. rem k s = Some (V s k, s') \<and> inv s' \<and> V s' \<subseteq>\<^sub>m (V s)(k := None)"
begin

lemma call_lossy:
  assumes "inv s" "V s \<subseteq>\<^sub>m A"
  shows "\<exists>r s'. run_call ins get rem c s = Some (r, s') \<and> inv s' \<and> lossy r (fst (spec_call c A)) \<and>
    V s' \<subseteq>\<^sub>m snd (spec_call c A)"
proof (cases c)
  case (Insert k v)
  have "V s' \<subseteq>\<^sub>m A(k \<mapsto> v)" if "V s' \<subseteq>\<^sub>m (V s)(k \<mapsto> v)" for s'
    using map_le_trans[OF that map_le_upd[OF assms(2)]] .
  then show ?thesis using ins_ok[OF assms(1), of k v] lossy_of_le[OF assms(2), of k] Insert by auto
next
  case (Get k)
  then show ?thesis using get_ok[OF assms(1), of k] lossy_of_le[OF assms(2), of k] assms(2) by auto
next
  case (Delete k)
  have "V s' \<subseteq>\<^sub>m A(k := None)" if "V s' \<subseteq>\<^sub>m (V s)(k := None)" for s'
    using map_le_trans[OF that map_le_upd[OF assms(2)]] .
  then show ?thesis using rem_ok[OF assms(1), of k] lossy_of_le[OF assms(2), of k] Delete by auto
qed

lemma calls_lossy:
  assumes "inv s" "V s \<subseteq>\<^sub>m A"
  shows "\<exists>rs s'. run_calls ins get rem cs s = Some (rs, s') \<and> inv s' \<and>
    list_all2 lossy rs (fst (spec_calls cs A)) \<and> V s' \<subseteq>\<^sub>m snd (spec_calls cs A)"
  using assms
proof (induction cs arbitrary: s A)
  case (Cons c cs)
  obtain r s1 where 1: "run_call ins get rem c s = Some (r, s1)" "inv s1" "lossy r (fst (spec_call c A))"
    "V s1 \<subseteq>\<^sub>m snd (spec_call c A)" using call_lossy[OF Cons.prems] by blast
  obtain rs s' where "run_calls ins get rem cs s1 = Some (rs, s')" "inv s'"
    "list_all2 lossy rs (fst (spec_calls cs (snd (spec_call c A))))"
    "V s' \<subseteq>\<^sub>m snd (spec_calls cs (snd (spec_call c A)))" using Cons.IH[OF 1(2,4)] by blast
  then show ?case using 1 by (auto simp: split_beta Let_def)
qed simp

end

locale map_contract = cache_contract inv V ins get rem
  for inv :: "'s \<Rightarrow> bool" and V :: "'s \<Rightarrow> 'k \<Rightarrow> 'v option"
    and ins :: "'k \<Rightarrow> 'v \<Rightarrow> 's \<Rightarrow> ('v option \<times> 's) option"
    and get :: "'k \<Rightarrow> 's \<Rightarrow> ('v option \<times> 's) option" and rem :: "'k \<Rightarrow> 's \<Rightarrow> ('v option \<times> 's) option" +
  assumes ins_keeps: "inv s \<Longrightarrow> ins k v s = Some (r, s') \<Longrightarrow> V s' = (V s)(k \<mapsto> v)"
    and rem_keeps: "inv s \<Longrightarrow> rem k s = Some (r, s') \<Longrightarrow> V s' = (V s)(k := None)"
begin

lemma call_exact:
  assumes "inv s"
  shows "\<exists>s'. run_call ins get rem c s = Some (fst (spec_call c (V s)), s') \<and> inv s' \<and> V s' = snd (spec_call c (V s))"
  using ins_ok[OF assms] ins_keeps[OF assms] get_ok[OF assms] rem_ok[OF assms] rem_keeps[OF assms]
  by (cases c) (simp; metis)+

lemma calls_exact:
  assumes "inv s"
  shows "\<exists>s'. run_calls ins get rem cs s = Some (fst (spec_calls cs (V s)), s') \<and> inv s' \<and> V s' = snd (spec_calls cs (V s))"
  using assms
proof (induction cs arbitrary: s)
  case (Cons c cs)
  obtain s1 where 1: "run_call ins get rem c s = Some (fst (spec_call c (V s)), s1)" "inv s1" "V s1 = snd (spec_call c (V s))"
    using call_exact[OF Cons.prems] by blast
  obtain s' where "run_calls ins get rem cs s1 = Some (fst (spec_calls cs (V s1)), s')" "inv s'" "V s' = snd (spec_calls cs (V s1))"
    using Cons.IH[OF 1(2)] by blast
  then show ?case using 1 by (simp add: split_beta Let_def)
qed simp

end

text \<open>Calls (\<open>Inr\<close>) interleaved with background work (\<open>Inl\<close>); only calls have answers.\<close>

fun run_events ::
  "('e \<Rightarrow> 's \<Rightarrow> 's option) \<Rightarrow> (('k, 'v) call \<Rightarrow> 's \<Rightarrow> ('v option \<times> 's) option) \<Rightarrow>
   ('e + ('k, 'v) call) list \<Rightarrow> 's \<Rightarrow> ('v option list \<times> 's) option" where
  "run_events bg call [] s = Some ([], s)"
| "run_events bg call (Inl e # es) s = Option.bind (bg e s) (run_events bg call es)"
| "run_events bg call (Inr c # es) s = do {
     (r, s1) \<leftarrow> call c s;
     (rs, s2) \<leftarrow> run_events bg call es s1;
     Some (r # rs, s2)
   }"

fun calls_of :: "('e + 'c) list \<Rightarrow> 'c list" where
  "calls_of [] = []"
| "calls_of (Inl e # es) = calls_of es"
| "calls_of (Inr c # es) = c # calls_of es"

locale online_contract = map_contract inv V ins get rem
  for inv :: "'s \<Rightarrow> bool" and V :: "'s \<Rightarrow> 'k \<Rightarrow> 'v option"
    and ins :: "'k \<Rightarrow> 'v \<Rightarrow> 's \<Rightarrow> ('v option \<times> 's) option"
    and get :: "'k \<Rightarrow> 's \<Rightarrow> ('v option \<times> 's) option" and rem :: "'k \<Rightarrow> 's \<Rightarrow> ('v option \<times> 's) option" +
  fixes bg :: "'e \<Rightarrow> 's \<Rightarrow> 's option"
  assumes bg_unseen: "inv s \<Longrightarrow> \<exists>s'. bg e s = Some s' \<and> inv s' \<and> V s' = V s"
begin

lemma events_exact:
  assumes "inv s"
  shows "\<exists>s'. run_events bg (run_call ins get rem) es s = Some (fst (spec_calls (calls_of es) (V s)), s') \<and> inv s' \<and>
    V s' = snd (spec_calls (calls_of es) (V s))"
  using assms
proof (induction es arbitrary: s rule: calls_of.induct)
  case (2 e es)
  obtain s1 where "bg e s = Some s1" "inv s1" "V s1 = V s" using bg_unseen[OF 2(2)] by blast
  then show ?case using 2(1)[of s1] by simp
next
  case (3 c es)
  obtain s1 where 1: "run_call ins get rem c s = Some (fst (spec_call c (V s)), s1)" "inv s1" "V s1 = snd (spec_call c (V s))"
    using call_exact[OF 3(2)] by blast
  obtain s' where "run_events bg (run_call ins get rem) es s1 = Some (fst (spec_calls (calls_of es) (V s1)), s')" "inv s'"
    "V s' = snd (spec_calls (calls_of es) (V s1))" using 3(1)[OF 1(2)] by blast
  then show ?case using 1 by (simp add: split_beta Let_def)
qed simp

end

section \<open>Histories with snapshots\<close>

text \<open>A list of entries is exactly the content of a finite map.\<close>

definition lists_map :: "('k \<times> 'v) list \<Rightarrow> ('k \<Rightarrow> 'v option) \<Rightarrow> bool" where
  "lists_map xs A \<longleftrightarrow> distinct (map fst xs) \<and> map_of xs = A"

datatype ('e, 'k, 'v) history_step = Work 'e | Do "('k, 'v) call" | Snap

datatype ('k, 'v) history_output = Answer "'v option" | Content "('k \<times> 'v) list"

fun run_history ::
  "('e \<Rightarrow> 's \<Rightarrow> 's option) \<Rightarrow> (('k, 'v) call \<Rightarrow> 's \<Rightarrow> ('v option \<times> 's) option) \<Rightarrow> ('s \<Rightarrow> ('k \<times> 'v) list \<times> 's) \<Rightarrow>
   ('e, 'k, 'v) history_step list \<Rightarrow> 's \<Rightarrow> (('k, 'v) history_output list \<times> 's) option" where
  "run_history bg call snap [] s = Some ([], s)"
| "run_history bg call snap (Work e # ss) s = Option.bind (bg e s) (run_history bg call snap ss)"
| "run_history bg call snap (Do c # ss) s = do {
     (r, s1) \<leftarrow> call c s;
     (outs, s2) \<leftarrow> run_history bg call snap ss s1;
     Some (Answer r # outs, s2)
   }"
| "run_history bg call snap (Snap # ss) s = do {
     let (data, s1) = snap s;
     (outs, s2) \<leftarrow> run_history bg call snap ss s1;
     Some (Content data # outs, s2)
   }"

text \<open>The outputs a finite map justifies.\<close>

fun history_ok :: "('e, 'k, 'v) history_step list \<Rightarrow> ('k, 'v) history_output list \<Rightarrow> ('k \<Rightarrow> 'v option) \<Rightarrow> bool" where
  "history_ok [] outs A = (outs = [])"
| "history_ok (Work b # ss) outs A = history_ok ss outs A"
| "history_ok (Do c # ss) (Answer r # outs) A = (r = fst (spec_call c A) \<and> history_ok ss outs (snd (spec_call c A)))"
| "history_ok (Snap # ss) (Content xs # outs) A = (lists_map xs A \<and> history_ok ss outs A)"
| "history_ok _ _ A = False"

text \<open>
  A store that caches its snapshots: \<open>inv n\<close> says that at most \<open>n\<close> calls have passed since the cache was
  filled. A snapshot is only promised while that many calls cannot wrap the version counter.
\<close>

locale snapshot_contract =
  fixes inv :: "nat \<Rightarrow> 's \<Rightarrow> bool"
    and V :: "'s \<Rightarrow> 'k \<Rightarrow> 'v option"
    and bg :: "'e \<Rightarrow> 's \<Rightarrow> 's option"
    and call :: "('k, 'v) call \<Rightarrow> 's \<Rightarrow> ('v option \<times> 's) option"
    and snap :: "'s \<Rightarrow> ('k \<times> 'v) list \<times> 's"
  assumes bg_ok: "inv n s \<Longrightarrow> \<exists>s'. bg e s = Some s' \<and> inv n s' \<and> V s' = V s"
    and call_ok: "inv n s \<Longrightarrow> \<exists>s'. call c s = Some (fst (spec_call c (V s)), s') \<and> inv (Suc n) s' \<and> V s' = snd (spec_call c (V s))"
    and snap_ok: "inv n s \<Longrightarrow> n < 2 ^ 64 \<Longrightarrow> \<exists>data s'. snap s = (data, s') \<and> lists_map data (V s) \<and> inv n s' \<and> V s' = V s"
begin

lemma history_exact:
  assumes "inv n s" "n + length ss < 2 ^ 64"
  shows "\<exists>outs n' s'. run_history bg call snap ss s = Some (outs, s') \<and> history_ok ss outs (V s) \<and> inv n' s'"
  using assms
proof (induction ss arbitrary: s n)
  case (Cons st ss)
  have bound: "Suc n + length ss < 2 ^ 64" "n + length ss < 2 ^ 64" "n < 2 ^ 64"
    using Cons.prems(2) by (auto simp del: power_numeral)
  show ?case
  proof (cases st)
    case (Work b)
    then show ?thesis using bg_ok[OF Cons.prems(1), of b] Cons.IH[of n] bound(2) by fastforce
  next
    case (Do c)
    then show ?thesis using call_ok[OF Cons.prems(1), of c] Cons.IH[of "Suc n"] bound(1) by fastforce
  next
    case Snap
    then show ?thesis using snap_ok[OF Cons.prems(1) bound(3)] Cons.IH[of n] bound(2) by fastforce
  qed
qed auto

end

end
