(* ===== verification/Sync_Keys.thy ===== *)
theory Sync_Keys
  imports Sync_View
begin

text \<open>
  The effect of the single-key operations of \<open>core/sync_impl.rs\<close> on the view, the invariant and the
  counters: locking a key (with promotion), committing a mutation of a locked shard, and the inner
  insert, read and remove, each on a map that may be in the middle of a migration.
\<close>

text \<open>The life-cycle effect of a tracked insertion.\<close>

definition insert_hook ::
  "('k, 'v, 'm, 'b) deps \<Rightarrow> 'k \<Rightarrow> 'v \<Rightarrow> bool \<Rightarrow> ('k, 'v, 'b) lifecycle_state \<Rightarrow> ('k, 'v, 'b) lifecycle_state" where
  "insert_hook D k v replaced l = record_insert D (prepare_insert D (mutation l) k v) replaced (mutation l)"

definition remove_hook ::
  "('k, 'v, 'm, 'b) deps \<Rightarrow> 'k \<Rightarrow> bool \<Rightarrow> ('k, 'v, 'b) lifecycle_state \<Rightarrow> ('k, 'v, 'b) lifecycle_state" where
  "remove_hook D k removed l = (if removed then record_remove D k (mutation l) else mutation l)"

text \<open>
  From \<open>m\<close> an operation has reached the well-formed \<open>m'\<close> with view \<open>V\<close>, write epoch \<open>ep\<close> and life-cycle
  state \<open>l\<close>, and has left everything else alone.
\<close>

definition committed ::
  "('k, 'v, 'm, 'b) deps \<Rightarrow> ('k, 'v, 'm, 'b) sharded_map \<Rightarrow> ('k \<Rightarrow> 'v option) \<Rightarrow> u64 \<Rightarrow>
   ('k, 'v, 'b) lifecycle_state \<Rightarrow> ('k, 'v, 'm, 'b) sharded_map \<Rightarrow> bool" where
  "committed D m V ep l m' \<longleftrightarrow>
     wf_map D m' \<and> view D m' = V \<and> same_meta m m' \<and> write_epoch m' = ep \<and> lifecycle m' = l"

definition locked ::
  "('k, 'v, 'm, 'b) deps \<Rightarrow> ('k, 'v, 'm, 'b) sharded_map \<Rightarrow> 'k \<Rightarrow> nat \<Rightarrow> 'm shard_data \<Rightarrow>
   ('k, 'v, 'm, 'b) sharded_map \<Rightarrow> bool" where
  "locked D m k i a m2 \<longleftrightarrow>
     hb_get (shard_ops D) (as_map a) k = view D m k \<and> lifecycle m2 = lifecycle m \<and>
     snapshot_mode m2 = snapshot_mode m \<and>
     (\<forall>l. committed D m (view D m) (write_epoch m) l (unlock i a (m2\<lparr>lifecycle := l\<rparr>))) \<and>
     (\<forall>v l. \<exists>mu. tracked_insert D (shard_mutation_new (shard_ops D) (as_map a)) k v l =
        (view D m k, mu, insert_hook D k v (view D m k \<noteq> None) l) \<and>
      (\<forall>l' l''. committed D m ((view D m)(k \<mapsto> v)) (write_epoch m + 1) l' (commit D i a mu l' (m2\<lparr>lifecycle := l''\<rparr>)))) \<and>
     (\<forall>l. \<exists>mu. tracked_remove D (shard_mutation_new (shard_ops D) (as_map a)) k l =
        (view D m k, mu, remove_hook D k (view D m k \<noteq> None) l) \<and>
      (\<forall>l' l''. committed D m ((view D m)(k := None))
         (if view D m k = None then write_epoch m else write_epoch m + 1) l' (commit D i a mu l' (m2\<lparr>lifecycle := l''\<rparr>))))"

context starshard_deps
begin

section \<open>Locking\<close>

lemma len_upd:
  assumes "hb_get (shard_ops D) a k = None" "hb_get (shard_ops D) a' = (hb_get (shard_ops D) a)(k \<mapsto> v)"
  shows "hb_len (shard_ops D) a' = Suc (hb_len (shard_ops D) a)"
  using H.len_eq_if_get_eq[of a' "snd (hb_insert (shard_ops D) a k v)"] assms by (simp add: H.get_insert H.len_insert)

lemma len_del:
  assumes "hb_get (shard_ops D) p k = Some v" "hb_get (shard_ops D) p' = (hb_get (shard_ops D) p)(k := None)"
  shows "Suc (hb_len (shard_ops D) p') = hb_len (shard_ops D) p"
  using H.len_eq_if_get_eq[of p' "snd (hb_remove (shard_ops D) p k)"] assms H.len_pos[of p k]
  by (simp add: H.get_remove H.len_remove)

lemma unlock_set_previous: "set_previous_slot j slot (unlock i sd m) = unlock i sd (set_previous_slot j slot m)"
  by (simp add: set_previous_slot_def unlock_def)

text \<open>
  Moving one key: the active shard \<open>A\<close> has gained it, the previous shard \<open>P\<close> has lost it. Promotion and
  migration batches both end in this state.
\<close>

lemma transfer_key:
  assumes wf: "wf_dirs D m" and j: "j < length (prev_slots m)" and p: "prev_slots m ! j = Some p"
    and k: "hb_get (shard_ops D) (as_map p) k = Some v" and i: "i = route D (length (shards m)) k"
    and A: "hb_get (shard_ops D) (as_map A) = (hb_get (shard_ops D) (as_map (init_slot D m i)))(k \<mapsto> v)"
    and sA: "(\<exists>x. A = Shared x) \<longleftrightarrow> (\<exists>x. init_slot D m i = Shared x)"
    and P: "hb_get (shard_ops D) (as_map P) = (hb_get (shard_ops D) (as_map p))(k := None)"
    and sP: "(\<exists>x. P = Shared x) \<longleftrightarrow> (\<exists>x. p = Shared x)"
  defines "m3 \<equiv> unlock i A (set_previous_slot j (Some P) m)"
  shows "wf_dirs D m3" "view D m3 = view D m" "stored_len D m3 = stored_len D m"
    "slots_get D (prev_slots m3) = (slots_get D (prev_slots m))(k := None)"
    "Suc (slots_len D (prev_slots m3)) = slots_len D (prev_slots m)"
proof -
  let ?sd = "init_slot D m i" and ?m2 = "set_previous_slot j (Some P) m"
  have il: "i < length (shards m)" using wf_dirsD(1)[OF wf] by (simp add: i route_less)
  have prevk: "slots_get D (prev_slots m) k = Some v" by (rule slot_in_get[OF wf_dirsD(6)[OF wf] j p k])
  then have none: "slots_get D (shards m) k = None" using wf_dirsD(8)[OF wf, of k] by simp
  have act: "slots_get D (shards m) k' = hb_get (shard_ops D) (as_map ?sd) k'" if "route D (length (shards m)) k' = i" for k'
    using that init_slot_get[of m i k'] slots_get_at[OF il, of D k'] by simp
  have at: "slot_get D (prev_slots m ! j) k' = hb_get (shard_ops D) (as_map p) k'" for k' by (simp add: p)
  have prev2: "slots_get D (prev_slots ?m2) = (slots_get D (prev_slots m))(k := None)"
  proof
    fix k'
    show "slots_get D (prev_slots ?m2) k' = ((slots_get D (prev_slots m))(k := None)) k'"
      using j P at[of k'] slots_get_at[OF j, of D k'] slots_okD[OF wf_dirsD(6)[OF wf] j p] k
      by (auto simp: slots_get_update shard_ok_def)
  qed
  have w2: "wf_dirs D ?m2"
  proof (rule wf_dirs_set_previous[OF wf j])
    show "shard_ok D (snapshot_mode m) (length (prev_slots m)) j P"
      using slots_okD[OF wf_dirsD(6)[OF wf] j p] P sP by (auto simp: shard_ok_def split: if_splits)
    fix k' assume "hb_get (shard_ops D) (as_map P) k' \<noteq> None"
    then have "slots_get D (prev_slots m) k' \<noteq> None"
      using P slot_in_get[OF wf_dirsD(6)[OF wf] j p] by (auto split: if_splits)
    then show "slots_get D (shards m) k' = None" using wf_dirsD(8)[OF wf, of k'] by auto
  qed (use p in simp)
  have okA: "shard_ok D (snapshot_mode ?m2) (length (shards ?m2)) i A"
    using init_slot_ok[OF wf il] A sA by (auto simp: shard_ok_def i split: if_splits)
  show "wf_dirs D m3" unfolding m3_def
  proof (rule wf_dirs_set_active[OF w2 _ okA])
    fix k' assume k': "hb_get (shard_ops D) (as_map A) k' \<noteq> None"
    then have "k' = k \<or> slots_get D (shards m) k' \<noteq> None"
      using A act[of k'] okA by (auto simp: shard_ok_def split: if_splits)
    then show "slots_get D (prev_slots ?m2) k' = None"
      using prev2 wf_dirsD(8)[OF wf, of k'] by (auto split: if_splits)
  qed (use il in simp)
  show prev3: "slots_get D (prev_slots m3) = (slots_get D (prev_slots m))(k := None)"
    using prev2 by (simp add: m3_def)
  have act3: "slots_get D (shards m3) k' = ((slots_get D (shards m))(k \<mapsto> v)) k'" for k'
    using il A act[of k'] by (auto simp: m3_def slots_get_update i)
  show "view D m3 = view D m"
  proof
    fix k'
    show "view D m3 k' = view D m k'"
      using act3[of k'] prev3 prevk none by (auto simp: view_def map_add_def split: option.splits)
  qed
  have lenA: "hb_len (shard_ops D) (as_map A) = Suc (slot_len D (shards m ! i))"
    using len_upd[OF _ A] none act[of k] by (simp add: i init_slot_len)
  have lenP: "Suc (hb_len (shard_ops D) (as_map P)) = slot_len D (prev_slots m ! j)" using len_del[OF k P] by (simp add: p)
  show "stored_len D m3 = stored_len D m"
    using stored_len_set_active[of i ?m2 D A] stored_len_set_previous[OF j, of D "Some P"] il lenA lenP
    by (simp add: m3_def)
  show "Suc (slots_len D (prev_slots m3)) = slots_len D (prev_slots m)"
    using slots_len_update[OF j, of D "Some P"] lenP by (simp add: m3_def)
qed

lemma lock_key_spec:
  fixes k :: 'k
  assumes wf: "wf_dirs D m"
  defines "i \<equiv> route D (length (shards m)) k"
  obtains a m2 where "lock_key D m k = Some (i, a, m2)" "wf_dirs D (unlock i a m2)"
    "view D (unlock i a m2) = view D m" "stored_len D (unlock i a m2) = stored_len D m"
    "hb_get (shard_ops D) (as_map a) k = view D m k" "slots_get D (prev_slots m2) k = None"
    "same_meta m m2" "same_counters m m2"
proof -
  let ?sd = "init_slot D m i" and ?j = "route D (length (prev_slots m)) k"
  let ?m1 = "unlock i ?sd m"
  have i: "i < length (shards m)" using wf_dirsD(1)[OF wf] by (simp add: i_def route_less)
  note m1 = get_or_init_wf[OF wf i]
  have sd_k: "hb_get (shard_ops D) (as_map ?sd) k = slots_get D (shards m) k"
    using init_slot_get[of m i k] slots_get_at[OF i, of D k] by (simp add: i_def)
  have start: "lock_key D m k = do { (a, m2) \<leftarrow> promote_previous D ?m1 k ?sd; Some (i, a, m2) }"
    using i by (simp add: lock_key_def shard_index_wf[OF wf] get_or_init_eq i_def)
  show thesis
  proof (cases "slots_get D (prev_slots m) k")
    case None
    have "promote_previous D ?m1 k ?sd = Some (?sd, ?m1)"
      using None by (auto simp: promote_previous_def previous_shard_wf[OF m1(1)] slots_get_def
          split: option.splits)
    then show thesis
      using that[of ?sd ?m1] start m1 None sd_k
      by (simp add: same_meta_unlock same_counters_unlock view_def map_add_def split: option.splits)
  next
    case (Some v)
    then have ne: "prev_slots m \<noteq> []" by (auto simp: slots_get_def split: if_splits)
    then have j: "?j < length (prev_slots m)" by (rule route_less)
    obtain p where p: "prev_slots m ! ?j = Some p" "hb_get (shard_ops D) (as_map p) k = Some v"
      using Some slots_get_at[OF j refl] by (auto simp: slot_get_def split: option.splits)
    have none: "slots_get D (shards m) k = None" using wf_dirsD(8)[OF wf, of k] Some by simp
    obtain a' p' where ap: "promote_entry (shard_ops D) (as_map ?sd) (as_map p) k = (a', p')"
      by (cases "promote_entry (shard_ops D) (as_map ?sd) (as_map p) k")
    let ?P = "deref_mut_set p p'" and ?A = "deref_mut_set ?sd a'"
    let ?m2 = "set_previous_slot ?j (Some ?P) ?m1"
    have pr: "promote_previous D ?m1 k ?sd = Some (?A, ?m2)"
      using ne p ap by (simp add: promote_previous_def previous_shard_wf[OF m1(1)])
    have ga: "hb_get (shard_ops D) (as_map ?A) = (hb_get (shard_ops D) (as_map ?sd))(k \<mapsto> v)"
      using H.promote_entry_active[of "as_map ?sd" "as_map p" k] ap sd_k none p by simp
    have gp: "hb_get (shard_ops D) (as_map ?P) = (hb_get (shard_ops D) (as_map p))(k := None)"
      using H.promote_entry_previous[of "as_map ?sd" "as_map p" k] ap by simp
    note tr = transfer_key[OF wf j p meta_eq_to_obj_eq[OF i_def] ga shared_deref_mut_set gp shared_deref_mut_set]
    have "hb_get (shard_ops D) (as_map ?A) k = view D m k"
      using ga Some none by (simp add: view_def map_add_def)
    moreover have "same_meta m ?m2" by (simp add: same_meta_def unlock_def)
    ultimately show thesis
      using that[of ?A ?m2] start pr tr by (simp add: same_counters_def unlock_set_previous)
  qed
qed

section \<open>Committing a mutation of a locked shard\<close>

lemma commit_eq:
  "commit D i a mu l m =
     (unlock i (deref_mut_set a (mut_map mu)) m)
       \<lparr>total_len := total_len m + of_nat (hb_len (shard_ops D) (mut_map mu)) - of_nat (initial_len mu),
        write_epoch := (if changed mu \<or> hb_len (shard_ops D) (mut_map mu) \<noteq> initial_len mu
                        then write_epoch m + 1 else write_epoch m),
        lifecycle := l\<rparr>"
proof -
  have "mutation_drop (shard_ops D) mu (total_len m) (write_epoch m) =
      (mut_map mu, total_len m + of_nat (hb_len (shard_ops D) (mut_map mu)) - of_nat (initial_len mu),
       if changed mu \<or> hb_len (shard_ops D) (mut_map mu) \<noteq> initial_len mu
       then write_epoch m + 1 else write_epoch m)"
    using mutation_drop_total[of "shard_ops D" mu "total_len m" "write_epoch m"]
    by (simp add: mutation_drop_def Let_def)
  then show ?thesis by (simp add: commit_def)
qed

lemma commit_wf:
  assumes wf: "wf_map D (unlock i a m)" and i: "i < length (shards m)"
    and init: "initial_len mu = hb_len (shard_ops D) (as_map a)"
    and routed: "\<And>k. hb_get (shard_ops D) (mut_map mu) k \<noteq> None \<Longrightarrow>
        route D (length (shards m)) k = i \<and> slots_get D (prev_slots m) k = None"
  shows "wf_map D (commit D i a mu l m)"
    and "view D (commit D i a mu l m) k =
      (if route D (length (shards m)) k = i
       then (case hb_get (shard_ops D) (mut_map mu) k of Some v \<Rightarrow> Some v | None \<Rightarrow> slots_get D (prev_slots m) k)
       else view D (unlock i a m) k)"
    and "same_meta m (commit D i a mu l m)" and "lifecycle (commit D i a mu l m) = l"
proof -
  let ?sd = "deref_mut_set a (mut_map mu)"
  let ?m3 = "unlock i a m"
  have wd: "wf_dirs D ?m3" and tl: "total_len m = of_nat (stored_len D ?m3)"
    using wf by (simp_all add: wf_map_def)
  have "shard_ok D (snapshot_mode m) (length (shards m)) i a"
    using slots_okD[OF wf_dirsD(5)[OF wd], of i a] i by simp
  then have ok: "shard_ok D (snapshot_mode ?m3) (length (shards ?m3)) i ?sd"
    using routed by (auto simp: shard_ok_def)
  have "wf_dirs D (unlock i ?sd ?m3)"
    by (rule wf_dirs_set_active[OF wd _ ok]) (use i routed in auto)
  moreover have "stored_len D (unlock i ?sd ?m3) + hb_len (shard_ops D) (as_map a) =
      stored_len D ?m3 + hb_len (shard_ops D) (mut_map mu)"
    using stored_len_set_active[of i ?m3 D ?sd] i by simp
  then have "(of_nat (stored_len D (unlock i ?sd ?m3)) :: usize) + of_nat (hb_len (shard_ops D) (as_map a)) =
      of_nat (stored_len D ?m3) + of_nat (hb_len (shard_ops D) (mut_map mu))"
    by (metis of_nat_add)
  then have "of_nat (stored_len D (unlock i ?sd ?m3)) =
      total_len m + of_nat (hb_len (shard_ops D) (mut_map mu)) - (of_nat (initial_len mu) :: usize)"
    by (simp add: tl init algebra_simps)
  ultimately show "wf_map D (commit D i a mu l m)"
    by (simp add: wf_map_def commit_eq)
  show "view D (commit D i a mu l m) k =
      (if route D (length (shards m)) k = i
       then (case hb_get (shard_ops D) (mut_map mu) k of Some v \<Rightarrow> Some v | None \<Rightarrow> slots_get D (prev_slots m) k)
       else view D (unlock i a m) k)"
    using view_set_active[of i ?m3 D ?sd k] i by (simp add: commit_eq split: option.splits)
  show "same_meta m (commit D i a mu l m)" by (simp add: commit_eq same_meta_def unlock_def)
  show "lifecycle (commit D i a mu l m) = l" by (simp add: commit_eq)
qed

lemma commit_key:
  assumes wf: "wf_map D (unlock i a m)" and i: "i < length (shards m)"
    and "initial_len mu = hb_len (shard_ops D) (as_map a)"
    and get: "hb_get (shard_ops D) (mut_map mu) = (hb_get (shard_ops D) (as_map a))(k := x)"
    and k: "route D (length (shards m)) k = i" "slots_get D (prev_slots m) k = None"
  shows "wf_map D (commit D i a mu l m)" "view D (commit D i a mu l m) = (view D (unlock i a m))(k := x)"
proof -
  have wd: "wf_dirs D (unlock i a m)" using wf by (simp add: wf_map_def)
  have at: "shards (unlock i a m) ! i = Some a" using i by simp
  have routed: "route D (length (shards m)) k' = i \<and> slots_get D (prev_slots m) k' = None"
    if h: "hb_get (shard_ops D) (mut_map mu) k' \<noteq> None" for k'
  proof (cases "k' = k")
    case False
    then obtain v where v: "hb_get (shard_ops D) (as_map a) k' = Some v" using h get by auto
    then show ?thesis
      using slots_okD[OF wf_dirsD(5)[OF wd], of i a] slot_in_get[OF wf_dirsD(5)[OF wd] _ at v]
        wf_dirsD(8)[OF wd, of k'] i by (auto simp: shard_ok_def)
  qed (use k in simp)
  note c = commit_wf[OF wf i assms(3) routed]
  show "wf_map D (commit D i a mu l m)" by (rule c(1))
  have "view D (unlock i a m) k' = (case hb_get (shard_ops D) (as_map a) k' of Some v \<Rightarrow> Some v
      | None \<Rightarrow> slots_get D (prev_slots m) k')" if "route D (length (shards m)) k' = i" for k'
    using view_set_active[OF i, of D a k'] that by simp
  then show "view D (commit D i a mu l m) = (view D (unlock i a m))(k := x)"
    using c(2)[of l] k get by (auto simp: fun_eq_iff split: option.splits)
qed

section \<open>A locked key\<close>

text \<open>Everything an operation can do with the shard of a key once it holds the shard's lock.\<close>

lemma locked_key:
  assumes wf: "wf_map D m"
  shows "\<exists>i a m2. lock_key D m k = Some (i, a, m2) \<and> locked D m k i a m2"
proof -
  have wd: "wf_dirs D m" and n: "total_len m = of_nat (stored_len D m)"
    using wf by (simp_all add: wf_map_def)
  let ?i = "route D (length (shards m)) k"
  obtain a m2 where L: "lock_key D m k = Some (?i, a, m2)" "wf_dirs D (unlock ?i a m2)"
    "view D (unlock ?i a m2) = view D m" "stored_len D (unlock ?i a m2) = stored_len D m"
    "hb_get (shard_ops D) (as_map a) k = view D m k" "slots_get D (prev_slots m2) k = None"
    "same_meta m m2" "same_counters m m2"
    by (rule lock_key_spec[OF wd, of k])
  have i: "?i < length (shards m2)" using L(7) route_less[OF wf_dirsD(1)[OF wd]]
    by (simp add: same_meta_def)
  have w2: "wf_map D (unlock ?i a m2)" using L n by (simp add: wf_map_def same_counters_def)
  have k: "route D (length (shards m2)) k = ?i" using L(7) by (simp add: same_meta_def)
  have fin: "committed D m ((view D m)(k := x)) (write_epoch m + (if changed mu \<or>
        hb_len (shard_ops D) (mut_map mu) \<noteq> initial_len mu then 1 else 0)) l (commit D ?i a mu l (m2\<lparr>lifecycle := l''\<rparr>))"
    if "initial_len mu = hb_len (shard_ops D) (as_map a)"
      "hb_get (shard_ops D) (mut_map mu) = (hb_get (shard_ops D) (as_map a))(k := x)" for mu x l l''
  proof -
    have eq: "commit D ?i a mu l (m2\<lparr>lifecycle := l''\<rparr>) = commit D ?i a mu l m2" by (simp add: commit_eq)
    have "same_meta m (commit D ?i a mu l m2)"
      using L(7) by (rule same_meta_trans) (simp add: commit_eq same_meta_def unlock_def)
    moreover have "write_epoch (commit D ?i a mu l m2) = write_epoch m + (if changed mu \<or>
        hb_len (shard_ops D) (mut_map mu) \<noteq> initial_len mu then 1 else 0)" "lifecycle (commit D ?i a mu l m2) = l"
      using L(8) by (simp_all add: commit_eq same_counters_def)
    ultimately show ?thesis
      using commit_key[OF w2 i that k L(6), of l] L(3) unfolding eq by (simp add: committed_def)
  qed
  have "committed D m (view D m) (write_epoch m) l (unlock ?i a (m2\<lparr>lifecycle := l\<rparr>))" for l
    using w2 L(3,7,8) by (simp add: committed_def same_meta_def same_counters_def)
  moreover have "\<exists>mu. tracked_insert D (shard_mutation_new (shard_ops D) (as_map a)) k v l =
        (view D m k, mu, insert_hook D k v (view D m k \<noteq> None) l) \<and>
      (\<forall>l' l''. committed D m ((view D m)(k \<mapsto> v)) (write_epoch m + 1) l' (commit D ?i a mu l' (m2\<lparr>lifecycle := l''\<rparr>)))"
    for v l
  proof -
    obtain old mp where ins: "hb_insert (shard_ops D) (as_map a) k v = (old, mp)" by fastforce
    have "old = view D m k" using H.insert_old[of "as_map a" k v] ins L(5) by simp
    moreover have "hb_get (shard_ops D) mp = (hb_get (shard_ops D) (as_map a))(k := Some v)"
      using H.get_insert[of "as_map a" k v] ins by simp
    ultimately show ?thesis
      using fin[of "\<lparr>mut_map = mp, initial_len = hb_len (shard_ops D) (as_map a), changed = True\<rparr>" "Some v"] ins
      by (simp add: tracked_insert_def mutation_insert_def shard_mutation_new_def insert_hook_def Let_def)
  qed
  moreover have "\<exists>mu. tracked_remove D (shard_mutation_new (shard_ops D) (as_map a)) k l =
        (view D m k, mu, remove_hook D k (view D m k \<noteq> None) l) \<and>
      (\<forall>l' l''. committed D m ((view D m)(k := None))
         (if view D m k = None then write_epoch m else write_epoch m + 1) l' (commit D ?i a mu l' (m2\<lparr>lifecycle := l''\<rparr>)))"
    for l
  proof -
    obtain old mp where rm: "hb_remove (shard_ops D) (as_map a) k = (old, mp)" by fastforce
    have "old = view D m k" using H.remove_old[of "as_map a" k] rm L(5) by simp
    moreover have "hb_get (shard_ops D) mp = (hb_get (shard_ops D) (as_map a))(k := None)"
      using H.get_remove[of "as_map a" k] rm by simp
    moreover have "hb_len (shard_ops D) mp \<noteq> hb_len (shard_ops D) (as_map a) \<longleftrightarrow> view D m k \<noteq> None"
      using H.len_remove[of "as_map a" k] H.len_pos[of "as_map a" k] rm L(5) by auto
    ultimately show ?thesis
      using fin[of "\<lparr>mut_map = mp, initial_len = hb_len (shard_ops D) (as_map a), changed = False\<rparr>" None] rm
      by (cases "view D m k")
        (simp_all add: tracked_remove_def mutation_remove_def shard_mutation_new_def remove_hook_def Let_def)
  qed
  ultimately have "locked D m k ?i a m2"
    using L(5,7,8) unfolding locked_def by (simp add: same_counters_def same_meta_def)
  then show ?thesis using L(1) by blast
qed

lemma lockedD:
  assumes "locked D m k i a m2"
  shows "hb_get (shard_ops D) (as_map a) k = view D m k" "lifecycle m2 = lifecycle m"
    "snapshot_mode m2 = snapshot_mode m"
    "committed D m (view D m) (write_epoch m) l (unlock i a (m2\<lparr>lifecycle := l\<rparr>))"
  using assms unfolding locked_def by blast+

lemma locked_insert:
  "locked D m k i a m2 \<Longrightarrow> \<exists>mu. tracked_insert D (shard_mutation_new (shard_ops D) (as_map a)) k v l =
        (view D m k, mu, insert_hook D k v (view D m k \<noteq> None) l) \<and>
    (\<forall>l' l''. committed D m ((view D m)(k \<mapsto> v)) (write_epoch m + 1) l' (commit D i a mu l' (m2\<lparr>lifecycle := l''\<rparr>)))"
  unfolding locked_def by blast

lemma locked_remove:
  "locked D m k i a m2 \<Longrightarrow> \<exists>mu. tracked_remove D (shard_mutation_new (shard_ops D) (as_map a)) k l =
        (view D m k, mu, remove_hook D k (view D m k \<noteq> None) l) \<and>
    (\<forall>l' l''. committed D m ((view D m)(k := None))
         (if view D m k = None then write_epoch m else write_epoch m + 1) l' (commit D i a mu l' (m2\<lparr>lifecycle := l''\<rparr>)))"
  unfolding locked_def by blast

lemma locked_same: "locked D m k i a m2 \<Longrightarrow> m2\<lparr>lifecycle := lifecycle m\<rparr> = m2"
  by (simp add: lockedD(2)[symmetric])

section \<open>The inner key operations\<close>

lemma insert_inner_spec:
  assumes wf: "wf_map D m"
  shows "\<exists>m'. insert_inner D k v m = Some (view D m k, m') \<and>
    committed D m ((view D m)(k \<mapsto> v)) (write_epoch m + 1) (insert_hook D k v (view D m k \<noteq> None) (lifecycle m)) m'"
proof -
  obtain i a m2 where L: "lock_key D m k = Some (i, a, m2)" "locked D m k i a m2" using locked_key[OF wf] by blast
  obtain mu where mu: "tracked_insert D (shard_mutation_new (shard_ops D) (as_map a)) k v (lifecycle m) =
        (view D m k, mu, insert_hook D k v (view D m k \<noteq> None) (lifecycle m))"
    "\<forall>l' l''. committed D m ((view D m)(k \<mapsto> v)) (write_epoch m + 1) l' (commit D i a mu l' (m2\<lparr>lifecycle := l''\<rparr>))"
    using locked_insert[OF L(2)] by blast
  show ?thesis
    using mu(1) mu(2)[rule_format, of _ "lifecycle m"] L(1) lockedD(2)[OF L(2)] locked_same[OF L(2)]
    by (simp add: insert_inner_def Let_def)
qed

lemma read_inner_eq:
  assumes wf: "wf_dirs D m"
  shows "read_inner D k m = Some (view D m k, tracked_read D k (view D m k) m)"
proof -
  let ?i = "route D (length (shards m)) k"
  have i: "?i < length (shards m)" using route_less[OF wf_dirsD(1)[OF wf]] .
  have a: "Option.bind (shards m ! ?i) (\<lambda>sd. hb_get (shard_ops D) (as_map sd) k) = slots_get D (shards m) k"
    using slots_get_at[OF i refl] by (simp add: slot_get_def split: option.splits)
  have p: "(case prev of None \<Rightarrow> None | Some (_, p) \<Rightarrow> hb_get (shard_ops D) (as_map p) k) =
      slots_get D (prev_slots m) k" if "previous_shard D m k = Some prev" for prev
    using that by (auto simp: previous_shard_wf[OF wf] slots_get_def slot_get_def split: option.splits if_splits)
  obtain prev where prev: "previous_shard D m k = Some prev" using previous_shard_wf[OF wf] by blast
  show ?thesis
    using i p[OF prev]
    by (cases "slots_get D (shards m) k")
      (simp_all add: read_inner_def shard_index_wf[OF wf] a prev view_def map_add_def)
qed

lemma remove_inner_spec:
  assumes wf: "wf_map D m"
  shows "\<exists>m' l. remove_inner D k m = Some (view D m k, m') \<and>
    committed D m ((view D m)(k := None)) (if view D m k = None then write_epoch m else write_epoch m + 1) l m' \<and>
    (l = remove_hook D k (view D m k \<noteq> None) (lifecycle m) \<or> view D m k = None \<and> l = lifecycle m)"
proof -
  have wd: "wf_dirs D m" using wf by (simp add: wf_map_def)
  let ?i = "route D (length (shards m)) k"
  have im: "?i < length (shards m)" using route_less[OF wf_dirsD(1)[OF wd]] .
  obtain i a m2 where L: "lock_key D m k = Some (i, a, m2)" "locked D m k i a m2" using locked_key[OF wf] by blast
  note d = lockedD[OF L(2)] and m2 = locked_same[OF L(2)]
  consider (early) "shards m ! ?i = None" "previous_shard_count m = 0"
    | (cow) "\<not> (shards m ! ?i = None \<and> previous_shard_count m = 0)" "snapshot_mode m = Cow" "view D m k = None"
    | (main) "\<not> (shards m ! ?i = None \<and> previous_shard_count m = 0)"
        "\<not> (snapshot_mode m = Cow \<and> view D m k = None)"
    by argo
  then show ?thesis
  proof cases
    case early
    then have none: "view D m k = None"
      using wf_dirsD(4)[OF wd] slots_get_at[OF im refl] by (simp add: view_def map_add_def)
    then show ?thesis using early wf im
      by (intro exI[of _ m] exI[of _ "lifecycle m"])
        (simp add: remove_inner_def shard_index_wf[OF wd] fun_upd_idem committed_def)
  next
    case cow
    then show ?thesis
      using im L(1) d(1,3) d(4)[of "lifecycle m"]
      by (intro exI[of _ "unlock i a m2"] exI[of _ "lifecycle m"])
        (auto simp: remove_inner_def shard_index_wf[OF wd] fun_upd_idem m2)
  next
    case main
    obtain mu where mu: "tracked_remove D (shard_mutation_new (shard_ops D) (as_map a)) k (lifecycle m) =
        (view D m k, mu, remove_hook D k (view D m k \<noteq> None) (lifecycle m))"
      "\<forall>l' l''. committed D m ((view D m)(k := None)) (if view D m k = None then write_epoch m else write_epoch m + 1)
        l' (commit D i a mu l' (m2\<lparr>lifecycle := l''\<rparr>))"
      using locked_remove[OF L(2)] by blast
    let ?l = "remove_hook D k (view D m k \<noteq> None) (lifecycle m)"
    have "remove_inner D k m = Some (view D m k, commit D i a mu ?l m2)"
      using main im L(1) d(1-3) mu(1) by (auto simp: remove_inner_def shard_index_wf[OF wd] Let_def)
    then show ?thesis using mu(2)[rule_format, of ?l "lifecycle m"] unfolding m2 by blast
  qed
qed

end

end
