(* ===== verification/Engine_Inv.thy ===== *)
theory Engine_Inv
  imports Engine
begin

text \<open>
  Which parts of the life-cycle state the hooks of the eviction engine leave alone. The representation
  invariant of the striped metadata, and what the hooks do to the map from keys to entries it represents, are
  in \<open>Engine_Track\<close>.
\<close>

section \<open>Configuration never changes\<close>

definition life_opts :: "('k, 'v, 'b) lifecycle_state \<Rightarrow> ('k, 'v) eviction_options option" where
  "life_opts l = map_option options (configured l)"

lemma opts_None: "life_opts l = None \<longleftrightarrow> configured l = None"
  by (simp add: life_opts_def)

lemma opts_fields [simp]:
  "life_opts (l\<lparr>metrics := a\<rparr>) = life_opts l" "life_opts (l\<lparr>sequence := b\<rparr>) = life_opts l" "life_opts (l\<lparr>epoch := b\<rparr>) = life_opts l"
  "life_opts (l\<lparr>dirty_epoch := b\<rparr>) = life_opts l" "life_opts (l\<lparr>repaired_epoch := b\<rparr>) = life_opts l"
  "life_opts (l\<lparr>work_epoch := b\<rparr>) = life_opts l" "life_opts (l\<lparr>maintained_epoch := b\<rparr>) = life_opts l"
  "life_opts (l\<lparr>reconciliations := b\<rparr>) = life_opts l" "life_opts (l\<lparr>callback_panics := b\<rparr>) = life_opts l"
  "life_opts (l\<lparr>suppressed_callbacks := b\<rparr>) = life_opts l" "life_opts (l\<lparr>timing := t\<rparr>) = life_opts l"
  "life_opts (l\<lparr>configured := c\<rparr>) = map_option options c"
  by (simp_all add: life_opts_def)

lemma config_opts: "config l = map_option opt_config (life_opts l)"
  by (simp add: config_def life_opts_def option.map_comp comp_def)

lemma policy_opts: "policy l = map_option options_policy (life_opts l)"
  by (simp add: policy_def life_opts_def option.map_comp comp_def)

lemma memory_budget_opts: "memory_budget l = Option.bind (life_opts l) opt_memory_budget"
  by (cases "configured l") (simp_all add: memory_budget_def life_opts_def)

lemma weight_opts: "weight l k v = (case Option.bind (life_opts l) weigher of None \<Rightarrow> 0 | Some w \<Rightarrow> w k v)"
  by (cases "configured l") (simp_all add: weight_def life_opts_def)

lemma opts_mutation [simp]: "life_opts (mutation l) = life_opts l" "life_opts (mark_pending l) = life_opts l" "life_opts (mark_dirty l) = life_opts l"
  by (simp_all add: mutation_def mark_pending_def mark_dirty_def)

lemma opts_marks [simp]:
  "life_opts (mark_maintained ob l) = life_opts l" "life_opts (record_eviction_duration d l) = life_opts l"
  by (simp_all add: mark_maintained_def record_eviction_duration_def)

lemma opts_drain_retired [simp]: "life_opts (snd (drain_retired l)) = life_opts l"
  by (auto simp: drain_retired_def life_opts_def split: option.splits prod.splits)

lemma opts_dispatch [simp]: "life_opts (dispatch_callbacks D ev l) = life_opts l"
  by (simp add: dispatch_callbacks_def Let_def split: option.splits)

lemma opts_stamp [simp]: "life_opts (snd (stamp l)) = life_opts l"
  by (simp add: stamp_def)

lemma options_detach [simp]: "options (detach_entry D h p c) = options c"
  by (auto simp: detach_entry_def Let_def split: option.splits prod.splits)

lemma opts_record_insert [simp]: "life_opts (record_insert D prep r l) = life_opts l"
  by (auto simp: record_insert_def life_opts_def set_configured_def stamp_def Let_def split: option.splits)

lemma opts_record_read [simp]: "life_opts (record_read D k h l) = life_opts l"
  by (auto simp: record_read_def life_opts_def set_configured_def stamp_def Let_def split: option.splits)

lemma opts_record_remove [simp]: "life_opts (record_remove D k l) = life_opts l"
  by (auto simp: record_remove_def life_opts_def set_configured_def Let_def split: option.splits)

lemma opts_record_eviction [simp]: "life_opts (record_eviction D c l) = life_opts l"
  by (auto simp: record_eviction_def life_opts_def set_configured_def Let_def split: option.splits)

lemma opts_stage: "life_opts (snd (fold (stage_entry D c) live (ss, l))) = life_opts l"
proof (induction live arbitrary: ss l)
  case (Cons x live)
  obtain k w where x: "x = (k, w)" by (cases x)
  have "life_opts (snd (stage_entry D c x (ss, l))) = life_opts l"
    by (auto simp: stage_entry_def x stamp_def Let_def split: option.splits prod.splits)
  then show ?case using Cons.IH by (metis fold_simps(2) prod.collapse)
qed simp

lemma opts_reconcile [simp]: "life_opts (reconcile D live l) = life_opts l"
proof (cases "configured l")
  case (Some c)
  obtain staged l1 where st: "fold (stage_entry D c) live (replicate STRIPES (stripe_default D), l) = (staged, l1)"
    by fastforce
  show ?thesis using Some st by (simp add: reconcile_def life_opts_def Let_def)
qed (simp add: reconcile_def life_opts_def)

end
