(* ===== verification/Sync_Shrink.thy ===== *)
theory Sync_Shrink
  imports Sync_Keys Engine_Inv
begin

text \<open>
  Taking entries out of one shard: the shared step of eviction, \<open>retain\<close>, \<open>clear\<close> and \<open>drain\<close>.
  \<open>shrunk D out m m'\<close> says that exactly the entries \<open>out\<close> have left the map between \<open>m\<close> and \<open>m'\<close>.
\<close>

definition shrunk ::
  "('k, 'v, 'm, 'b) deps \<Rightarrow> ('k \<times> 'v) list \<Rightarrow> ('k, 'v, 'm, 'b) sharded_map \<Rightarrow> ('k, 'v, 'm, 'b) sharded_map \<Rightarrow> bool" where
  "shrunk D out m m' \<longleftrightarrow>
     wf_map D m' \<and> same_meta m m' \<and> distinct (map fst out) \<and> (\<forall>(k, v) \<in> set out. view D m k = Some v) \<and>
     view D m' = view D m |` (- fst ` set out) \<and> life_opts (lifecycle m') = life_opts (lifecycle m)"

lemma shrunk_refl: "wf_map D m \<Longrightarrow> shrunk D [] m m"
  by (simp add: shrunk_def restrict_map_def)

lemma shrunk_trans:
  assumes "shrunk D out1 m m1" "shrunk D out2 m1 m2"
  shows "shrunk D (out1 @ out2) m m2"
proof -
  have sub: "view D m k = Some v \<and> k \<notin> fst ` set out1" if "(k, v) \<in> set out2" for k v
  proof -
    have "view D m1 k = Some v" using assms(2) that by (auto simp: shrunk_def)
    moreover have "view D m1 = view D m |` (- fst ` set out1)" using assms(1) by (simp add: shrunk_def)
    ultimately show ?thesis by (simp add: restrict_map_def split: if_splits)
  qed
  have "view D m2 = view D m |` (- fst ` set (out1 @ out2))"
    using assms by (simp add: shrunk_def image_Un Int_commute)
  moreover have "distinct (map fst (out1 @ out2))"
  proof -
    have "fst x \<notin> fst ` set out1" if "x \<in> set out2" for x using sub[of "fst x" "snd x"] that by simp
    then have "\<forall>y \<in> fst ` set out2. y \<notin> fst ` set out1" by (simp only: ball_simps) simp
    then have "fst ` set out1 \<inter> fst ` set out2 = {}" by (metis disjoint_iff)
    then show ?thesis using assms by (simp add: shrunk_def)
  qed
  moreover have "\<forall>(k, v) \<in> set (out1 @ out2). view D m k = Some v"
    using assms sub by (auto simp: shrunk_def)
  moreover have "same_meta m m2" using assms same_meta_trans unfolding shrunk_def by blast
  ultimately show ?thesis using assms by (simp add: shrunk_def)
qed

lemma shrunk_frame:
  "life_opts l = life_opts (lifecycle m) \<Longrightarrow> shrunk D out (m\<lparr>lifecycle := l\<rparr>) m' = shrunk D out m m'"
  "life_opts l = life_opts (lifecycle m') \<Longrightarrow> shrunk D out m (m'\<lparr>lifecycle := l\<rparr>) = shrunk D out m m'"
  by (simp_all add: shrunk_def same_meta_def)

lemma shrunk_subset: "shrunk D out m m' \<Longrightarrow> view D m' \<subseteq>\<^sub>m view D m"
  by (simp add: shrunk_def map_le_def restrict_map_def dom_def)

lemma shrunkD: "shrunk D out m m' \<Longrightarrow> wf_map D m' \<and> same_meta m m' \<and> life_opts (lifecycle m') = life_opts (lifecycle m)"
  by (simp add: shrunk_def)

lemma map_le_SomeI: "f \<subseteq>\<^sub>m g \<Longrightarrow> f k = Some v \<Longrightarrow> g k = Some v"
  by (metis domI map_le_def)

context starshard_deps
begin

lemma shrink_active:
  assumes wf: "wf_dirs D m" and i: "i < length (shards m)" and sd: "shards m ! i = Some sd"
    and sub: "hb_get (shard_ops D) g \<subseteq>\<^sub>m hb_get (shard_ops D) (as_map sd)"
  defines "m1 \<equiv> unlock i (deref_mut_set sd g) m"
  shows "wf_dirs D m1"
    "view D m1 k = (if hb_get (shard_ops D) (as_map sd) k \<noteq> None then hb_get (shard_ops D) g k else view D m k)"
    "stored_len D m1 + hb_len (shard_ops D) (as_map sd) = stored_len D m + hb_len (shard_ops D) g"
    "hb_get (shard_ops D) (as_map sd) k = Some v \<Longrightarrow> view D m k = Some v"
proof -
  have ok: "shard_ok D (snapshot_mode m) (length (shards m)) i sd"
    using slots_okD[OF wf_dirsD(5)[OF wf] i sd] .
  then have okg: "shard_ok D (snapshot_mode m) (length (shards m)) i (deref_mut_set sd g)"
    using map_le_SomeI[OF sub] by (auto simp: shard_ok_def)
  have act: "slots_get D (shards m) k = Some v" if "hb_get (shard_ops D) (as_map sd) k = Some v" for k v
    using slot_in_get[OF wf_dirsD(5)[OF wf] i sd that] .
  have prev: "slots_get D (prev_slots m) k = None" if "hb_get (shard_ops D) (as_map sd) k \<noteq> None" for k
    using that act wf_dirsD(8)[OF wf, of k] by auto
  show "wf_dirs D m1" unfolding m1_def
    by (rule wf_dirs_set_active[OF wf i okg]) (use prev map_le_SomeI[OF sub] in fastforce)
  show "view D m1 k = (if hb_get (shard_ops D) (as_map sd) k \<noteq> None then hb_get (shard_ops D) g k else view D m k)"
  proof (cases "hb_get (shard_ops D) (as_map sd) k")
    case None
    then have "hb_get (shard_ops D) g k = None" using map_le_SomeI[OF sub, of k] by (cases "hb_get (shard_ops D) g k") auto
    then show ?thesis
      using view_set_active[OF i, of D "deref_mut_set sd g" k] slots_get_at[OF i, of D k] sd None
      by (auto simp: m1_def view_def map_add_def split: option.splits)
  next
    case (Some v)
    then have "route D (length (shards m)) k = i" using ok by (auto simp: shard_ok_def)
    then show ?thesis
      using view_set_active[OF i, of D "deref_mut_set sd g" k] prev[of k] Some
      by (auto simp: m1_def split: option.splits)
  qed
  show "stored_len D m1 + hb_len (shard_ops D) (as_map sd) = stored_len D m + hb_len (shard_ops D) g"
    using stored_len_set_active[OF i, of D "deref_mut_set sd g"] sd by (simp add: m1_def)
  show "view D m k = Some v" if "hb_get (shard_ops D) (as_map sd) k = Some v"
    using act[OF that] by (simp add: view_def map_add_def)
qed

lemma shrink_previous:
  assumes wf: "wf_dirs D m" and j: "j < length (prev_slots m)" and sd: "prev_slots m ! j = Some sd"
    and sub: "hb_get (shard_ops D) g \<subseteq>\<^sub>m hb_get (shard_ops D) (as_map sd)"
  defines "m1 \<equiv> set_previous_slot j (Some (deref_mut_set sd g)) m"
  shows "wf_dirs D m1"
    "view D m1 k = (if hb_get (shard_ops D) (as_map sd) k \<noteq> None then hb_get (shard_ops D) g k else view D m k)"
    "stored_len D m1 + hb_len (shard_ops D) (as_map sd) = stored_len D m + hb_len (shard_ops D) g"
    "hb_get (shard_ops D) (as_map sd) k = Some v \<Longrightarrow> view D m k = Some v"
proof -
  have ok: "shard_ok D (snapshot_mode m) (length (prev_slots m)) j sd"
    using slots_okD[OF wf_dirsD(6)[OF wf] j sd] .
  then have okg: "shard_ok D (snapshot_mode m) (length (prev_slots m)) j (deref_mut_set sd g)"
    using map_le_SomeI[OF sub] by (auto simp: shard_ok_def)
  have prev: "slots_get D (prev_slots m) k = Some v" if "hb_get (shard_ops D) (as_map sd) k = Some v" for k v
    using slot_in_get[OF wf_dirsD(6)[OF wf] j sd that] .
  have act: "slots_get D (shards m) k = None" if "hb_get (shard_ops D) (as_map sd) k \<noteq> None" for k
    using that prev wf_dirsD(8)[OF wf, of k] by auto
  show "wf_dirs D m1" unfolding m1_def
    by (rule wf_dirs_set_previous[OF wf j _ okg]) (use act map_le_SomeI[OF sub] sd in fastforce)+
  show "view D m1 k = (if hb_get (shard_ops D) (as_map sd) k \<noteq> None then hb_get (shard_ops D) g k else view D m k)"
  proof (cases "hb_get (shard_ops D) (as_map sd) k")
    case None
    then have "hb_get (shard_ops D) g k = None" using map_le_SomeI[OF sub, of k] by (cases "hb_get (shard_ops D) g k") auto
    then show ?thesis
      using slots_get_at[OF j, of D k] sd None j
      by (auto simp: m1_def view_def map_add_def slots_get_update split: option.splits)
  next
    case (Some v)
    then have "route D (length (prev_slots m)) k = j" using ok by (auto simp: shard_ok_def)
    then show ?thesis using act[of k] Some j by (auto simp: m1_def view_def map_add_def slots_get_update)
  qed
  show "stored_len D m1 + hb_len (shard_ops D) (as_map sd) = stored_len D m + hb_len (shard_ops D) g"
    using stored_len_set_previous[OF j, of D "Some (deref_mut_set sd g)"] sd by (simp add: m1_def)
  show "view D m k = Some v" if "hb_get (shard_ops D) (as_map sd) k = Some v"
    using prev[OF that] act[of k] that by (simp add: view_def map_add_def)
qed

text \<open>Removing one key from a hash map, present or not.\<close>

lemma remove_le: "hb_get (shard_ops D) (snd (hb_remove (shard_ops D) g k)) \<subseteq>\<^sub>m hb_get (shard_ops D) g"
  by (simp add: H.get_remove map_le_def)

lemma len_remove_Some:
  "hb_get (shard_ops D) g k = Some v \<Longrightarrow> Suc (hb_len (shard_ops D) (snd (hb_remove (shard_ops D) g k))) = hb_len (shard_ops D) g"
  using H.len_remove[of g k] H.len_pos[of g k] by simp

lemma len_remove_None:
  "hb_get (shard_ops D) g k = None \<Longrightarrow> hb_len (shard_ops D) (snd (hb_remove (shard_ops D) g k)) = hb_len (shard_ops D) g"
  using H.len_remove[of g k] by simp

end

end
