(* ===== verification/Sync_Eviction.thy ===== *)
theory Sync_Eviction
  imports Sync_Shrink
begin

text \<open>
  Policy maintenance of the synchronous map, \<open>core/sync_impl/eviction_impl.rs\<close>: the constructors of
  configured caches, the repair of the metadata and \<open>run_eviction\<close> with its early exit, its per-shard
  path under the shared routing lock and its exclusive path. The first lemmas show that a pass only
  removes entries, counts exactly what it removed, and keeps the representation invariant; that it
  restores the configured limits is proved in \<open>Capacity\<close>.

  The scheduler of a background worker is the subject of \<open>Scheduler\<close>; \<open>try_with_eviction_options\<close>
  starts it only after the map is built.
\<close>

section \<open>Constructors\<close>

definition build_eviction_map ::
  "('k, 'v, 'm, 'b) deps \<Rightarrow> nat \<Rightarrow> snapshot_mode \<Rightarrow> ('k, 'v) eviction_options \<Rightarrow>
   eviction_error + ('k, 'v, 'm, 'b) sharded_map" where
  "build_eviction_map D n mode opts =
     (case validate_options opts of
        Inl e \<Rightarrow> Inl e
      | Inr _ \<Rightarrow>
          (let m = with_shards_and_snapshot_mode n mode in
           case configure D opts (lifecycle m) of
             Inl e \<Rightarrow> Inl e
           | Inr l \<Rightarrow> Inr (m\<lparr>lifecycle := l\<rparr>)))"

definition try_with_manual_eviction ::
  "('k, 'v, 'm, 'b) deps \<Rightarrow> nat \<Rightarrow> snapshot_mode \<Rightarrow> ('k, 'v) eviction_options \<Rightarrow>
   eviction_error + ('k, 'v, 'm, 'b) sharded_map" where
  "try_with_manual_eviction D n mode opts =
     (if background_enabled (opt_config opts) then Inl BackgroundNotAllowed
      else build_eviction_map D n mode opts)"

section \<open>Repair\<close>

definition live_weights ::
  "('k, 'v, 'm, 'b) deps \<Rightarrow> ('k, 'v, 'm, 'b) sharded_map \<Rightarrow> ('k \<times> nat) list" where
  "live_weights D m =
     concat (map (\<lambda>sd. map (\<lambda>(k, v). (k, weight (lifecycle m) k v)) (hb_iter (shard_ops D) (as_map sd)))
       (all_shards m))"

definition reconcile_eviction_metadata ::
  "('k, 'v, 'm, 'b) deps \<Rightarrow> ('k, 'v, 'm, 'b) sharded_map \<Rightarrow> ('k, 'v, 'm, 'b) sharded_map" where
  "reconcile_eviction_metadata D m =
     (if \<not> dirty (lifecycle m) then m
      else let m1 = m\<lparr>lifecycle := mutation (lifecycle m)\<rparr>
           in m1\<lparr>lifecycle := reconcile D (live_weights D m1) (lifecycle m1)\<rparr>)"

section \<open>The per-shard path\<close>

text \<open>A committed removal: one entry less, a new epoch, the candidate's metadata detached.\<close>

definition commit_eviction ::
  "('k, 'v, 'm, 'b) deps \<Rightarrow> 'k eviction_candidate \<Rightarrow> ('k, 'v, 'm, 'b) sharded_map \<Rightarrow> ('k, 'v, 'm, 'b) sharded_map" where
  "commit_eviction D c m =
     (let m1 = record_write 0 1 m in m1\<lparr>lifecycle := record_eviction D c (lifecycle m1)\<rparr>)"

fun shard_victims ::
  "('k, 'v, 'm, 'b) deps \<Rightarrow> nat \<Rightarrow> 'k eviction_candidate list \<Rightarrow> 'm \<Rightarrow> ('k \<times> 'v) list \<Rightarrow>
   ('k, 'v, 'm, 'b) sharded_map \<Rightarrow> 'm \<times> ('k \<times> 'v) list \<times> ('k, 'v, 'm, 'b) sharded_map" where
  "shard_victims D limit [] guard evicted m = (guard, evicted, m)"
| "shard_victims D limit (c # cs) guard evicted m =
     (if hb_len (shard_ops D) guard \<le> limit then (guard, evicted, m)
      else if \<not> validate D (lifecycle m) c then shard_victims D limit cs guard evicted m
      else case hb_remove (shard_ops D) guard (cand_key c) of
             (Some v, guard') \<Rightarrow>
               shard_victims D limit cs guard' (evicted @ [(cand_key c, v)]) (commit_eviction D c m)
           | (None, guard') \<Rightarrow> shard_victims D limit cs guard' evicted m)"

definition evict_shard ::
  "('k, 'v, 'm, 'b) deps \<Rightarrow> nat \<Rightarrow> capacity_policy \<Rightarrow> nat \<Rightarrow>
   ('k \<times> 'v) list \<times> bool \<times> ('k, 'v, 'm, 'b) sharded_map \<Rightarrow>
   ('k \<times> 'v) list \<times> bool \<times> ('k, 'v, 'm, 'b) sharded_map" where
  "evict_shard D limit pol i = (\<lambda>(evicted, retry, m).
     (case shards m ! i of
        None \<Rightarrow> (evicted, retry, m)
      | Some sd \<Rightarrow>
          if hb_len (shard_ops D) (as_map sd) \<le> limit then (evicted, retry, m)
          else
            (let cs = candidates_for_keys D (lifecycle m) pol (map fst (hb_iter (shard_ops D) (as_map sd)));
                 (guard, evicted', m1) = shard_victims D limit cs (as_map sd) evicted m
             in (evicted', retry \<or> hb_len (shard_ops D) guard > limit,
                 unlock i (deref_mut_set sd guard) m1))))"

definition evict_per_shard ::
  "('k, 'v, 'm, 'b) deps \<Rightarrow> nat \<Rightarrow> capacity_policy \<Rightarrow> ('k, 'v, 'm, 'b) sharded_map \<Rightarrow>
   ('k \<times> 'v) list \<times> bool \<times> ('k, 'v, 'm, 'b) sharded_map" where
  "evict_per_shard D limit pol m = fold (evict_shard D limit pol) [0..<length (shards m)] ([], False, m)"

section \<open>The exclusive path\<close>

fun count_keys ::
  "('k, 'v, 'm, 'b) deps \<Rightarrow> ('k, 'v, 'm, 'b) sharded_map \<Rightarrow> 'k list \<Rightarrow> nat list \<Rightarrow> nat list option" where
  "count_keys D m [] counts = Some counts"
| "count_keys D m (k # ks) counts = do {
     i \<leftarrow> shard_index D m k;
     n \<leftarrow> index_checked counts i;
     count_keys D m ks (counts[i := n + 1])
   }"

definition stored_keys :: "('k, 'v, 'm, 'b) deps \<Rightarrow> ('k, 'v, 'm, 'b) sharded_map \<Rightarrow> 'k list" where
  "stored_keys D m = concat (map (\<lambda>sd. map fst (hb_iter (shard_ops D) (as_map sd))) (all_shards m))"

text \<open>One iteration of the loop over the active and the previous shard of a victim.\<close>

definition remove_from ::
  "('k, 'v, 'm, 'b) deps \<Rightarrow> 'k \<Rightarrow> 'm shard_data \<Rightarrow> ('v \<times> 'm shard_data) option" where
  "remove_from D key sd =
     (if hb_get (shard_ops D) (as_map sd) key = None then None
      else case hb_remove (shard_ops D) (as_map sd) key of
             (None, _) \<Rightarrow> None
           | (Some v, mp) \<Rightarrow> Some (v, deref_mut_set sd mp))"

definition remove_victim ::
  "('k, 'v, 'm, 'b) deps \<Rightarrow> 'k \<Rightarrow> nat \<Rightarrow> ('k, 'v, 'm, 'b) sharded_map \<Rightarrow>
   ('v \<times> ('k, 'v, 'm, 'b) sharded_map) option option" where
  "remove_victim D key index m = do {
     active \<leftarrow> index_checked (shards m) index;
     previous \<leftarrow> previous_shard D m key;
     Some (case Option.bind active (remove_from D key) of
             Some (v, sd) \<Rightarrow> Some (v, unlock index sd m)
           | None \<Rightarrow>
               (case previous of
                  None \<Rightarrow> None
                | Some (j, p) \<Rightarrow>
                    map_option (\<lambda>(v, sd). (v, set_previous_slot j (Some sd) m)) (remove_from D key p)))
   }"

definition over_target :: "('k, 'v, 'm, 'b) sharded_map \<Rightarrow> nat option \<Rightarrow> bool" where
  "over_target m target = (case target of None \<Rightarrow> False | Some t \<Rightarrow> unat (len m) > t)"

definition over_shard :: "nat option \<Rightarrow> nat list \<Rightarrow> nat \<Rightarrow> bool option" where
  "over_shard per_limit counts index =
     (case per_limit of
        None \<Rightarrow> Some False
      | Some limit \<Rightarrow> map_option (\<lambda>n. n > limit) (index_checked counts index))"

fun evict_loop ::
  "('k, 'v, 'm, 'b) deps \<Rightarrow> nat option \<Rightarrow> nat option \<Rightarrow> 'k eviction_candidate list \<Rightarrow> bool \<Rightarrow> nat list \<Rightarrow>
   ('k \<times> 'v) list \<Rightarrow> ('k, 'v, 'm, 'b) sharded_map \<Rightarrow> (('k \<times> 'v) list \<times> ('k, 'v, 'm, 'b) sharded_map) option" where
  "evict_loop D target per_limit [] over_weight counts evicted m = Some (evicted, m)"
| "evict_loop D target per_limit (c # cs) over_weight counts evicted m =
     (if per_limit = None \<and> \<not> over_target m target \<and> \<not> over_weight then Some (evicted, m)
      else do {
        index \<leftarrow> shard_index D m (cand_key c);
        os \<leftarrow> over_shard per_limit counts index;
        if \<not> over_target m target \<and> \<not> os \<and> \<not> over_weight
        then evict_loop D target per_limit cs over_weight counts evicted m
        else if \<not> validate D (lifecycle m) c
        then evict_loop D target per_limit cs over_weight counts evicted m
        else do {
          victim \<leftarrow> remove_victim D (cand_key c) index m;
          case victim of
            None \<Rightarrow> evict_loop D target per_limit cs over_weight counts evicted m
          | Some (v, m1) \<Rightarrow>
              (let m2 = commit_eviction D c m1;
                   ow = (if over_weight then over_memory_budget (lifecycle m2) else over_weight);
                   counts' = (if per_limit \<noteq> None then counts[index := counts ! index - 1] else counts)
               in evict_loop D target per_limit cs ow counts' (evicted @ [(cand_key c, v)]) m2)
        }
      })"

definition evict_exclusive ::
  "('k, 'v, 'm, 'b) deps \<Rightarrow> nat option \<Rightarrow> nat option \<Rightarrow> capacity_policy \<Rightarrow> ('k \<times> 'v) list \<Rightarrow>
   ('k, 'v, 'm, 'b) sharded_map \<Rightarrow> (('k \<times> 'v) list \<times> ('k, 'v, 'm, 'b) sharded_map) option" where
  "evict_exclusive D target per_limit pol evicted m = do {
     let m1 = reconcile_eviction_metadata D (m\<lparr>lifecycle := mutation (lifecycle m)\<rparr>);
     let observed = maintenance_generation (lifecycle m1);
     counts \<leftarrow> (if per_limit \<noteq> None then count_keys D m1 (stored_keys D m1) (replicate (shard_count m1) 0)
                else Some []);
     let over_weight = over_memory_budget (lifecycle m1);
     let cands =
       (if per_limit \<noteq> None \<or> over_target m1 target \<or> over_weight
        then (if per_limit = None \<and> memory_budget (lifecycle m1) = None \<and>
                 (case target of None \<Rightarrow> False | Some t \<Rightarrow> t \<le> unat (len m1) \<and> unat (len m1) - t = 1)
              then (case minimum_candidate D (lifecycle m1) pol of None \<Rightarrow> [] | Some c \<Rightarrow> [c])
              else candidates D (lifecycle m1) pol)
        else []);
     (evicted', m2) \<leftarrow> evict_loop D target per_limit cands over_weight counts evicted m1;
     Some (evicted', m2\<lparr>lifecycle := mark_maintained observed (lifecycle m2)\<rparr>)
   }"

section \<open>A maintenance pass\<close>

text \<open>\<open>EvictionBatch::dispatch\<close>.\<close>

definition batch_dispatch ::
  "('k, 'v, 'm, 'b) deps \<Rightarrow> ('k \<times> 'v) list \<Rightarrow> ('k, 'v, 'm, 'b) sharded_map \<Rightarrow> nat \<times> ('k, 'v, 'm, 'b) sharded_map" where
  "batch_dispatch D evicted m =
     (length evicted,
      m\<lparr>lifecycle := dispatch_callbacks D evicted (record_eviction_duration (elapsed D) (lifecycle m))\<rparr>)"

definition effective_target :: "nat option \<Rightarrow> nat option \<Rightarrow> nat option" where
  "effective_target wanted limit =
     (case (wanted, limit) of
        (Some r, Some c) \<Rightarrow> Some (min r c)
      | (Some r, None) \<Rightarrow> Some r
      | (None, c) \<Rightarrow> c)"

definition run_eviction ::
  "('k, 'v, 'm, 'b) deps \<Rightarrow> nat option \<Rightarrow> capacity_policy option \<Rightarrow> ('k, 'v, 'm, 'b) sharded_map \<Rightarrow>
   (nat \<times> ('k, 'v, 'm, 'b) sharded_map) option" where
  "run_eviction D target_count pol m =
     (case config (lifecycle m) of
        None \<Rightarrow> Some (0, m)
      | Some cfg \<Rightarrow>
          (case (if pol = None then policy (lifecycle m) else pol) of
             None \<Rightarrow> Some (0, m)
           | Some p \<Rightarrow>
               (let observed = maintenance_generation (lifecycle m);
                    target = effective_target target_count (max_entries cfg);
                    per_limit = max_items_per_shard cfg
                in if \<not> dirty (lifecycle m) \<and> per_limit = None \<and> \<not> over_target m target \<and>
                      \<not> over_memory_budget (lifecycle m)
                   then Some (0, m\<lparr>lifecycle := dispatch_callbacks D [] (mark_maintained observed (lifecycle m))\<rparr>)
                   else if target = None \<and> memory_budget (lifecycle m) = None \<and> \<not> dirty (lifecycle m) \<and>
                           per_limit \<noteq> None \<and> previous_shard_count m = 0
                   then
                     (let l1 = mutation (lifecycle m); obs = maintenance_generation l1;
                          (evicted, retry, m1) = evict_per_shard D (the per_limit) p (m\<lparr>lifecycle := l1\<rparr>)
                      in if \<not> retry \<and> \<not> dirty (lifecycle m1)
                         then Some (batch_dispatch D evicted
                                (m1\<lparr>lifecycle := mark_maintained obs (lifecycle m1)\<rparr>))
                         else map_option (\<lambda>(ev, m2). batch_dispatch D ev m2)
                                (evict_exclusive D target per_limit p evicted m1))
                   else map_option (\<lambda>(ev, m2). batch_dispatch D ev m2)
                          (evict_exclusive D target per_limit p [] m))))"

definition evict :: "('k, 'v, 'm, 'b) deps \<Rightarrow> nat \<Rightarrow> ('k, 'v, 'm, 'b) sharded_map \<Rightarrow>
   (nat \<times> ('k, 'v, 'm, 'b) sharded_map) option" where
  "evict D target_count m = run_eviction D (Some target_count) None m"

definition evict_lru :: "('k, 'v, 'm, 'b) deps \<Rightarrow> nat \<Rightarrow> ('k, 'v, 'm, 'b) sharded_map \<Rightarrow>
   (nat \<times> ('k, 'v, 'm, 'b) sharded_map) option" where
  "evict_lru D target_count m = run_eviction D (Some target_count) (Some Lru) m"

definition enforce_eviction_limits :: "('k, 'v, 'm, 'b) deps \<Rightarrow> ('k, 'v, 'm, 'b) sharded_map \<Rightarrow>
   (nat \<times> ('k, 'v, 'm, 'b) sharded_map) option" where
  "enforce_eviction_limits D m = run_eviction D None None m"

text \<open>\<open>OperationUnwind\<close>: what an operation that unwinds leaves in the life-cycle state.\<close>

definition operation_unwind :: "('k, 'v, 'm, 'b) deps \<Rightarrow> ('k, 'v, 'b) lifecycle_state \<Rightarrow> ('k, 'v, 'b) lifecycle_state" where
  "operation_unwind D l = dispatch_callbacks D [] (mark_dirty l)"

section \<open>A pass only removes\<close>

text \<open>From \<open>m\<close> to \<open>m'\<close> exactly the entries \<open>ev\<close> have been evicted, in this order.\<close>

definition evicted_by ::
  "('k, 'v, 'm, 'b) deps \<Rightarrow> ('k \<times> 'v) list \<Rightarrow> ('k, 'v, 'm, 'b) sharded_map \<Rightarrow> ('k, 'v, 'm, 'b) sharded_map \<Rightarrow> bool" where
  "evicted_by D ev m m' \<longleftrightarrow> shrunk D ev m m' \<and> write_epoch m' = write_epoch m + of_nat (length ev)"

lemma evicted_by_refl: "wf_map D m \<Longrightarrow> evicted_by D [] m m"
  by (simp add: evicted_by_def shrunk_refl)

lemma evicted_by_trans: "evicted_by D ev1 m m1 \<Longrightarrow> evicted_by D ev2 m1 m2 \<Longrightarrow> evicted_by D (ev1 @ ev2) m m2"
  by (simp add: evicted_by_def shrunk_trans[of D ev1 m m1 ev2 m2])

lemma evicted_by_frame [simp]:
  "life_opts l = life_opts (lifecycle m) \<Longrightarrow> evicted_by D ev (m\<lparr>lifecycle := l\<rparr>) m' = evicted_by D ev m m'"
  "life_opts l = life_opts (lifecycle m') \<Longrightarrow> evicted_by D ev m (m'\<lparr>lifecycle := l\<rparr>) = evicted_by D ev m m'"
  by (simp_all add: evicted_by_def shrunk_frame)

lemma evicted_by_subset: "evicted_by D ev m m' \<Longrightarrow> view D m' \<subseteq>\<^sub>m view D m"
  by (simp add: evicted_by_def shrunk_subset[of D ev m m'])

lemma evicted_byD: "evicted_by D ev m m' \<Longrightarrow> wf_map D m' \<and> same_meta m m' \<and> life_opts (lifecycle m') = life_opts (lifecycle m)"
  by (simp add: evicted_by_def shrunkD[of D ev m m'])

lemma commit_eviction_simps [simp]:
  "view D (commit_eviction D c m) = view D m" "wf_dirs D (commit_eviction D c m) = wf_dirs D m"
  "stored_len D (commit_eviction D c m) = stored_len D m"
  "total_len (commit_eviction D c m) = total_len m - 1"
  "write_epoch (commit_eviction D c m) = write_epoch m + 1" "shards (commit_eviction D c m) = shards m"
  "prev_slots (commit_eviction D c m) = prev_slots m"
  "unlock i sd (commit_eviction D c m) = commit_eviction D c (unlock i sd m)"
  "lifecycle (commit_eviction D c m) = record_eviction D c (lifecycle m)"
  by (simp_all add: commit_eviction_def record_write_def Let_def)

lemma same_meta_commit_eviction: "same_meta m (commit_eviction D c m)"
  by (simp add: commit_eviction_def record_write_def same_meta_def Let_def)

lemma commit_eviction_evicted:
  assumes wf: "wf_map D m" and v: "view D m k = Some v" and "same_meta m m1" "same_counters m m1" "wf_dirs D m1"
    "view D m1 = (view D m)(k := None)" "stored_len D m = Suc (stored_len D m1)"
  shows "evicted_by D [(k, v)] m (commit_eviction D c m1)"
proof -
  have "same_meta m (commit_eviction D c m1)"
    using assms(3) same_meta_commit_eviction by (rule same_meta_trans)
  moreover have "view D m1 = view D m |` (- {k})" using assms(6) by (auto simp: fun_eq_iff restrict_map_def)
  ultimately show ?thesis
    using assms by (simp add: evicted_by_def shrunk_def wf_map_def same_counters_def)
qed

context starshard_deps
begin

lemma remove_from_eq:
  "remove_from D k sd = map_option (\<lambda>v. (v, deref_mut_set sd (snd (hb_remove (shard_ops D) (as_map sd) k))))
     (hb_get (shard_ops D) (as_map sd) k)"
  using H.remove_old[of "as_map sd" k]
  by (cases "hb_remove (shard_ops D) (as_map sd) k") (auto simp: remove_from_def split: option.splits)

lemma remove_shard_entry:
  assumes wf: "wf_dirs D m" and i: "i < length (shards m)" and sd: "shards m ! i = Some sd"
    and v: "hb_get (shard_ops D) (as_map sd) k = Some v"
  defines "m1 \<equiv> unlock i (deref_mut_set sd (snd (hb_remove (shard_ops D) (as_map sd) k))) m"
  shows "wf_dirs D m1" "view D m1 = (view D m)(k := None)" "stored_len D m = Suc (stored_len D m1)"
    "view D m k = Some v"
proof -
  note s = shrink_active[OF wf i sd remove_le, of k, folded m1_def]
  show "wf_dirs D m1" by (rule s(1))
  show "view D m1 = (view D m)(k := None)"
    using s(2) shrink_active(4)[OF wf i sd remove_le] v by (auto simp: fun_eq_iff H.get_remove)
  show "stored_len D m = Suc (stored_len D m1)" using s(3) len_remove_Some[OF v] by simp
  show "view D m k = Some v" using s(4)[OF v] .
qed

lemma remove_shard_absent:
  assumes wf: "wf_dirs D m" and i: "i < length (shards m)" and sd: "shards m ! i = Some sd"
    and none: "hb_get (shard_ops D) (as_map sd) k = None"
  defines "m1 \<equiv> unlock i (deref_mut_set sd (snd (hb_remove (shard_ops D) (as_map sd) k))) m"
  shows "wf_dirs D m1" "view D m1 = view D m" "stored_len D m1 = stored_len D m"
proof -
  note s = shrink_active[OF wf i sd remove_le, of k, folded m1_def]
  show "wf_dirs D m1" by (rule s(1))
  show "view D m1 = view D m" 
    using s(2) shrink_active(4)[OF wf i sd remove_le] none by (auto simp: fun_eq_iff H.get_remove)
  show "stored_len D m1 = stored_len D m" using s(3) len_remove_None[OF none] by simp
qed

lemma remove_victim_spec:
  assumes wf: "wf_dirs D m"
  shows "view D m k = None \<Longrightarrow> remove_victim D k (route D (length (shards m)) k) m = Some None"
    and "view D m k = Some v \<Longrightarrow> \<exists>m1. remove_victim D k (route D (length (shards m)) k) m = Some (Some (v, m1)) \<and>
      wf_dirs D m1 \<and> view D m1 = (view D m)(k := None) \<and> stored_len D m = Suc (stored_len D m1) \<and>
      same_meta m m1 \<and> same_counters m m1"
proof -
  let ?i = "route D (length (shards m)) k" and ?j = "route D (length (prev_slots m)) k"
  have i: "?i < length (shards m)" using wf_dirsD(1)[OF wf] by (rule route_less)
  have act: "Option.bind (shards m ! ?i) (remove_from D k) = None" if "slots_get D (shards m) k = None"
    using that slots_get_at[OF i refl] by (cases "shards m ! ?i") (auto simp: remove_from_eq)
  show "remove_victim D k ?i m = Some None" if none: "view D m k = None"
  proof -
    have "slots_get D (shards m) k = None" "slots_get D (prev_slots m) k = None"
      using none by (auto simp: view_def map_add_def split: option.splits)
    then show ?thesis using i act
      by (auto simp: remove_victim_def previous_shard_wf[OF wf] remove_from_eq slots_get_def split: option.splits if_splits)
  qed
  show "\<exists>m1. remove_victim D k ?i m = Some (Some (v, m1)) \<and>
      wf_dirs D m1 \<and> view D m1 = (view D m)(k := None) \<and> stored_len D m = Suc (stored_len D m1) \<and>
      same_meta m m1 \<and> same_counters m m1" if v: "view D m k = Some v"
  proof (cases "slots_get D (shards m) k")
    case (Some w)
    then obtain sd where sd: "shards m ! ?i = Some sd" "hb_get (shard_ops D) (as_map sd) k = Some v"
      using v slots_get_at[OF i refl] by (cases "shards m ! ?i") (auto simp: view_def map_add_def)
    have "same_meta m (unlock ?i x m)" "same_counters m (unlock ?i x m)" for x
      by (rule same_meta_unlock same_counters_unlock)+
    then show ?thesis
      using remove_shard_entry(1-3)[OF wf i sd] i sd
      by (intro exI[of _ "unlock ?i (deref_mut_set sd (snd (hb_remove (shard_ops D) (as_map sd) k))) m"])
        (simp add: remove_victim_def previous_shard_wf[OF wf] remove_from_eq)
  next
    case None
    then have pv: "slots_get D (prev_slots m) k = Some v" using v by (simp add: view_def map_add_def)
    then have ne: "prev_slots m \<noteq> []" by auto
    then have j: "?j < length (prev_slots m)" by (rule route_less)
    obtain p where p: "prev_slots m ! ?j = Some p" "hb_get (shard_ops D) (as_map p) k = Some v"
      using pv slots_get_at[OF j refl] by (cases "prev_slots m ! ?j") auto
    let ?p = "deref_mut_set p (snd (hb_remove (shard_ops D) (as_map p) k))"
    let ?m1 = "set_previous_slot ?j (Some ?p) m"
    note sp = shrink_previous[OF wf j p(1) remove_le, of k]
    have "wf_dirs D ?m1" by (rule sp(1))
    moreover have "view D ?m1 = (view D m)(k := None)"
      using sp(2) shrink_previous(4)[OF wf j p(1) remove_le] p(2) by (auto simp: fun_eq_iff H.get_remove)
    moreover have "stored_len D m = Suc (stored_len D ?m1)" using sp(3) len_remove_Some[OF p(2)] by simp
    moreover have "same_meta m ?m1" "same_counters m ?m1"
      by (rule same_meta_set_previous) (simp add: same_counters_def)
    ultimately show ?thesis
      using i p ne act[OF None]
      by (intro exI[of _ ?m1]) (simp add: remove_victim_def previous_shard_wf[OF wf] remove_from_eq)
  qed
qed

lemma count_keys_ok:
  assumes "wf_dirs D m" "length counts = shard_count m"
  shows "\<exists>counts'. count_keys D m ks counts = Some counts' \<and> length counts' = shard_count m"
  using assms(2)
proof (induction ks arbitrary: counts)
  case (Cons k ks)
  have "route D (length (shards m)) k < length counts"
    using Cons.prems wf_dirsD[OF assms(1)] route_less by metis
  then show ?case
    using Cons.IH[of "counts[route D (length (shards m)) k := counts ! route D (length (shards m)) k + 1]"]
      Cons.prems by (simp add: shard_index_wf[OF assms(1)])
qed simp

lemma evict_loop_spec:
  assumes "wf_map D m" "per_limit \<noteq> None \<Longrightarrow> length counts = shard_count m"
  shows "\<exists>ev' m'. evict_loop D target per_limit cs ow counts ev m = Some (ev @ ev', m') \<and> evicted_by D ev' m m'"
  using assms
proof (induction cs arbitrary: ow counts ev m)
  case Nil
  then show ?case using evicted_by_refl[of D m] by (intro exI[of _ "[]"]) simp
next
  case (Cons c cs)
  let ?k = "cand_key c" and ?i = "route D (length (shards m)) (cand_key c)"
  have wd: "wf_dirs D m" using Cons.prems(1) by (simp add: wf_map_def)
  have os: "\<exists>b. over_shard per_limit counts ?i = Some b"
    using Cons.prems(2) wf_dirsD(1,2)[OF wd] route_less[of "shards m" D ?k]
    by (cases per_limit) (auto simp: over_shard_def)
  note skip = Cons.IH[OF Cons.prems]
  show ?case
  proof (cases "view D m ?k")
    case None
    then show ?thesis
      using skip os remove_victim_spec(1)[OF wd None] evicted_by_refl[OF Cons.prems(1)]
      by (auto simp: shard_index_wf[OF wd])
  next
    case (Some v)
    obtain m1 where m1: "remove_victim D ?k ?i m = Some (Some (v, m1))" "wf_dirs D m1"
      "view D m1 = (view D m)(?k := None)" "stored_len D m = Suc (stored_len D m1)" "same_meta m m1" "same_counters m m1"
      using remove_victim_spec(2)[OF wd Some] by blast
    let ?m2 = "commit_eviction D c m1"
    have e: "evicted_by D [(?k, v)] m ?m2"
      using commit_eviction_evicted[OF Cons.prems(1) Some m1(5,6,2-4)] .
    have next_ok: "\<exists>ev' m'. evict_loop D target per_limit cs ow' counts' (ev @ [(?k, v)]) ?m2 = Some (ev @ ev', m') \<and>
        evicted_by D ev' m m'" if "per_limit \<noteq> None \<Longrightarrow> length counts' = shard_count m" for ow' counts'
    proof -
      have "per_limit \<noteq> None \<Longrightarrow> length counts' = shard_count ?m2"
        using that evicted_byD[OF e] by (simp add: same_meta_def)
      then obtain ev' m' where r: "evict_loop D target per_limit cs ow' counts' (ev @ [(?k, v)]) ?m2 =
          Some ((ev @ [(?k, v)]) @ ev', m')" "evicted_by D ev' ?m2 m'"
        using Cons.IH[of ?m2 counts' ow' "ev @ [(?k, v)]"] evicted_byD[OF e] by blast
      then show ?thesis using evicted_by_trans[OF e r(2)] by (intro exI[of _ "[(?k, v)] @ ev'"] exI[of _ m']) simp
    qed
    show ?thesis
      using skip os m1(1) next_ok Cons.prems(2) evicted_by_refl[OF Cons.prems(1)]
      by (auto simp: shard_index_wf[OF wd] Let_def)
  qed
qed

lemma deref_mut_set_idem [simp]: "deref_mut_set (deref_mut_set sd x) y = deref_mut_set sd y"
  by (cases sd) simp_all

lemma shard_victims_spec:
  assumes "wf_map D (unlock i (deref_mut_set sd g) m)" "i < length (shards m)"
  shows "\<exists>g' ev' m'. shard_victims D limit cs g ev m = (g', ev @ ev', m') \<and>
    evicted_by D ev' (unlock i (deref_mut_set sd g) m) (unlock i (deref_mut_set sd g') m')"
  using assms
proof (induction cs arbitrary: g ev m)
  case Nil
  then show ?case using evicted_by_refl by (intro exI[of _ g] exI[of _ "[]"]) simp
next
  case (Cons c cs)
  let ?k = "cand_key c" and ?u = "\<lambda>g. unlock i (deref_mut_set sd g) m"
  define g1 where "g1 = snd (hb_remove (shard_ops D) g ?k)"
  have wd: "wf_dirs D (?u g)" using Cons.prems(1) by (simp add: wf_map_def)
  have at: "i < length (shards (?u g))" "shards (?u g) ! i = Some (deref_mut_set sd g)"
    using Cons.prems(2) by simp_all
  have sm: "same_meta (?u g) (?u g1)" "same_counters (?u g) (?u g1)"
    by (simp_all add: same_meta_def same_counters_def unlock_def)
  note skip = Cons.IH[OF Cons.prems]
  have rm: "hb_remove (shard_ops D) g ?k = (hb_get (shard_ops D) g ?k, g1)"
    using H.remove_old[of g ?k] by (simp add: g1_def prod_eq_iff)
  show ?case
  proof (cases "hb_get (shard_ops D) g ?k")
    case None
    note ab = remove_shard_absent[OF wd at, of ?k, simplified, OF None, folded g1_def]
    have w1: "wf_map D (?u g1)" using ab Cons.prems(1) by (simp add: wf_map_def)
    have "evicted_by D [] (?u g) (?u g1)"
      using w1 ab(2) sm by (simp add: evicted_by_def shrunk_def restrict_map_def)
    then have "\<exists>g' ev' m'. shard_victims D limit cs g1 ev m = (g', ev @ ev', m') \<and>
        evicted_by D ev' (?u g) (unlock i (deref_mut_set sd g') m')"
      using Cons.IH[OF w1 Cons.prems(2), of ev] evicted_by_trans by fastforce
    then show ?thesis using skip rm None Cons.prems evicted_by_refl[OF Cons.prems(1)] by auto
  next
    case (Some v)
    note ent = remove_shard_entry[OF wd at, of ?k v, simplified, OF Some, folded g1_def]
    have e: "evicted_by D [(?k, v)] (?u g) (unlock i (deref_mut_set sd g1) (commit_eviction D c m))"
      using commit_eviction_evicted[OF Cons.prems(1) ent(4) sm ent(1-3), of c] by simp
    have "\<exists>g' ev' m'. shard_victims D limit cs g1 (ev @ [(?k, v)]) (commit_eviction D c m) = (g', ev @ ev', m') \<and>
        evicted_by D ev' (?u g) (unlock i (deref_mut_set sd g') m')"
    proof -
      obtain g' ev' m' where r: "shard_victims D limit cs g1 (ev @ [(?k, v)]) (commit_eviction D c m) =
            (g', (ev @ [(?k, v)]) @ ev', m')"
          "evicted_by D ev' (unlock i (deref_mut_set sd g1) (commit_eviction D c m)) (unlock i (deref_mut_set sd g') m')"
        using Cons.IH[of g1 "commit_eviction D c m" "ev @ [(?k, v)]"] evicted_byD[OF e] Cons.prems(2) by auto
      then show ?thesis using evicted_by_trans[OF e r(2)]
        by (intro exI[of _ g'] exI[of _ "[(?k, v)] @ ev'"] exI[of _ m']) simp
    qed
    then show ?thesis using skip rm Some Cons.prems evicted_by_refl[OF Cons.prems(1)] by auto
  qed
qed

lemma evict_shard_spec:
  assumes "wf_map D m" "i < length (shards m)"
  shows "\<exists>ev' r' m'. evict_shard D limit pol i (ev, r, m) = (ev @ ev', r', m') \<and> evicted_by D ev' m m'"
proof (cases "shards m ! i")
  case None
  then show ?thesis using evicted_by_refl[OF assms(1)] by (simp add: evict_shard_def)
next
  case (Some sd)
  have same: "unlock i (deref_mut_set sd (as_map sd)) m = m" using unlock_same[OF Some] by (cases sd) simp_all
  obtain g' ev' m' where v: "shard_victims D limit (candidates_for_keys D (lifecycle m) pol
      (map fst (hb_iter (shard_ops D) (as_map sd)))) (as_map sd) ev m = (g', ev @ ev', m')"
    "evicted_by D ev' m (unlock i (deref_mut_set sd g') m')"
    using shard_victims_spec[of i sd "as_map sd" m limit _ ev] assms unfolding same by blast
  show ?thesis
  proof (cases "hb_len (shard_ops D) (as_map sd) \<le> limit")
    case True
    then show ?thesis using Some evicted_by_refl[OF assms(1)] by (simp add: evict_shard_def)
  next
    case False
    then show ?thesis using Some v by (auto simp: evict_shard_def Let_def)
  qed
qed

lemma evict_per_shard_spec:
  assumes "wf_map D m"
  shows "\<exists>ev r m'. evict_per_shard D limit pol m = (ev, r, m') \<and> evicted_by D ev m m'"
proof -
  have "\<exists>ev' r' m'. fold (evict_shard D limit pol) ixs (ev, r, m1) = (ev @ ev', r', m') \<and> evicted_by D ev' m1 m'"
    if "wf_map D m1" "\<forall>i \<in> set ixs. i < length (shards m1)" for ixs ev r m1
    using that
  proof (induction ixs arbitrary: ev r m1)
    case Nil
    then show ?case using evicted_by_refl by (intro exI[of _ "[]"]) simp
  next
    case (Cons i xs)
    obtain ev1 r1 m2 where s: "evict_shard D limit pol i (ev, r, m1) = (ev @ ev1, r1, m2)" "evicted_by D ev1 m1 m2"
      using evict_shard_spec[of m1 i limit pol ev r] Cons.prems by auto
    have "\<forall>i \<in> set xs. i < length (shards m2)" using Cons.prems evicted_byD[OF s(2)] by (simp add: same_meta_def)
    then obtain ev2 r2 m3 where "fold (evict_shard D limit pol) xs (ev @ ev1, r1, m2) = ((ev @ ev1) @ ev2, r2, m3)"
      "evicted_by D ev2 m2 m3"
      using Cons.IH[of m2 "ev @ ev1" r1] evicted_byD[OF s(2)] by blast
    then show ?case using s evicted_by_trans[OF s(2)] by (intro exI[of _ "ev1 @ ev2"]) auto
  qed
  from this[of m "[0..<length (shards m)]" "[]" False] assms show ?thesis
    by (auto simp: evict_per_shard_def)
qed

lemma evict_exclusive_spec:
  assumes "wf_map D m"
  shows "\<exists>ev' m'. evict_exclusive D target per_limit pol ev m = Some (ev @ ev', m') \<and> evicted_by D ev' m m'"
proof -
  let ?m1 = "reconcile_eviction_metadata D (m\<lparr>lifecycle := mutation (lifecycle m)\<rparr>)"
  obtain l where m1: "?m1 = m\<lparr>lifecycle := l\<rparr>" and l: "life_opts l = life_opts (lifecycle m)"
    by (cases "dirty (mutation (lifecycle m))") (auto simp: reconcile_eviction_metadata_def Let_def)
  have w1: "wf_map D ?m1" using assms by (simp add: m1)
  obtain counts where c: "(if per_limit \<noteq> None then count_keys D ?m1 (stored_keys D ?m1) (replicate (shard_count ?m1) 0)
      else Some []) = Some counts" "per_limit \<noteq> None \<Longrightarrow> length counts = shard_count ?m1"
    using count_keys_ok[of ?m1 "replicate (shard_count ?m1) 0" "stored_keys D ?m1"] w1
    by (cases per_limit) (auto simp: wf_map_def)
  show ?thesis
  proof -
    define ow cands where "ow = over_memory_budget (lifecycle ?m1)" and "cands =
       (if per_limit \<noteq> None \<or> over_target ?m1 target \<or> ow
        then (if per_limit = None \<and> memory_budget (lifecycle ?m1) = None \<and>
                 (case target of None \<Rightarrow> False | Some t \<Rightarrow> t \<le> unat (len ?m1) \<and> unat (len ?m1) - t = 1)
              then (case minimum_candidate D (lifecycle ?m1) pol of None \<Rightarrow> [] | Some c \<Rightarrow> [c])
              else candidates D (lifecycle ?m1) pol)
        else [])"
    obtain ev' m' where r: "evict_loop D target per_limit cands ow counts ev ?m1 = Some (ev @ ev', m')"
      "evicted_by D ev' ?m1 m'"
      using evict_loop_spec[OF w1 c(2)] by blast
    then have e: "evicted_by D ev' m m'" using l by (simp add: m1)
    show ?thesis
      using r(1) c(1) e unfolding evict_exclusive_def ow_def cands_def Let_def
      by (intro exI[of _ ev'] exI[of _ "m'\<lparr>lifecycle := mark_maintained (maintenance_generation (lifecycle ?m1)) (lifecycle m')\<rparr>"]) simp
  qed
qed

lemma run_eviction_evicts:
  assumes "wf_map D m"
  shows "\<exists>ev m'. run_eviction D target pol m = Some (length ev, m') \<and> evicted_by D ev m m' \<and>
    (configured (lifecycle m) = None \<longrightarrow> ev = [] \<and> m' = m)"
proof (cases "configured (lifecycle m)")
  case None
  then show ?thesis using evicted_by_refl[OF assms] by (intro exI[of _ "[]"] exI[of _ m]) (simp add: run_eviction_def config_def)
next
  case (Some c)
  define cfg where "cfg = opt_config (options c)"
  define tgt where "tgt = effective_target target (max_entries cfg)"
  obtain p where p: "(if pol = None then policy (lifecycle m) else pol) = Some p"
    using Some by (cases pol) (auto simp: policy_def)
  have excl: "\<exists>ev' m'. map_option (\<lambda>(e, m2). batch_dispatch D e m2) (evict_exclusive D tgt (max_items_per_shard cfg) p ev m1) =
      Some (length ev', m') \<and> evicted_by D ev' m m'" if e: "evicted_by D ev m m1" for ev m1
  proof -
    obtain ev1 m2 where "evict_exclusive D tgt (max_items_per_shard cfg) p ev m1 = Some (ev @ ev1, m2)" "evicted_by D ev1 m1 m2"
      using evict_exclusive_spec[of m1] evicted_byD[OF e] by blast
    then show ?thesis using evicted_by_trans[OF e] by (intro exI[of _ "ev @ ev1"]) (auto simp: batch_dispatch_def)
  qed
  let ?m0 = "m\<lparr>lifecycle := mutation (lifecycle m)\<rparr>"
  obtain ev r m1 where ps: "evict_per_shard D (the (max_items_per_shard cfg)) p ?m0 = (ev, r, m1)" "evicted_by D ev m m1"
    using evict_per_shard_spec[of ?m0 "the (max_items_per_shard cfg)" p] assms by auto
  have nil: "evicted_by D [] m (m\<lparr>lifecycle := l\<rparr>)" if "life_opts l = life_opts (lifecycle m)" for l using that evicted_by_refl[OF assms] by simp
  show ?thesis
    using excl[OF ps(2)] excl[OF evicted_by_refl[OF assms]] ps nil
    unfolding run_eviction_def p by (auto simp: config_def Some cfg_def[symmetric] tgt_def[symmetric] Let_def batch_dispatch_def
        intro: exI[of _ "[]"])
qed

lemma enforce_evicts:
  assumes "wf_map D m"
  shows "\<exists>ev m'. enforce_eviction_limits D m = Some (length ev, m') \<and> evicted_by D ev m m' \<and>
    (configured (lifecycle m) = None \<longrightarrow> ev = [] \<and> m' = m)"
  using run_eviction_evicts[OF assms] unfolding enforce_eviction_limits_def .

end

end
