(* ===== verification/Advanced.thy ===== *)
theory Advanced
  imports Starshard_Prelude
begin

text \<open>
  The data types of \<open>advanced.rs\<close>: transactions under construction, the result of a compare-and-swap,
  snapshots labelled with a write epoch, and the quorum configuration of the replication layer. What
  the map does with them is in \<open>Sync_Ops\<close>, \<open>Sync_Snapshots\<close> and \<open>Replication\<close>.
\<close>

section \<open>Transactions\<close>

datatype 'a transaction_result = Committed 'a | Aborted | Conflict

datatype ('k, 'v) txn_op = Read 'k | Write 'k 'v | Remove 'k

fun txn_key :: "('k, 'v) txn_op \<Rightarrow> 'k" where
  "txn_key (Read k) = k"
| "txn_key (Write k v) = k"
| "txn_key (Remove k) = k"

record ('k, 'v) transaction =
  ops :: "('k, 'v) txn_op list"
  read_set :: "'k list"
  write_set :: "'k list"
  txn_version :: u64

definition transaction_new :: "('k, 'v) transaction" where
  "transaction_new = \<lparr>ops = [], read_set = [], write_set = [], txn_version = 0\<rparr>"

definition txn_read :: "'k \<Rightarrow> ('k, 'v) transaction \<Rightarrow> ('k, 'v) transaction" where
  "txn_read key t = t\<lparr>read_set := read_set t @ [key], ops := ops t @ [Read key]\<rparr>"

definition txn_write :: "'k \<Rightarrow> 'v \<Rightarrow> ('k, 'v) transaction \<Rightarrow> ('k, 'v) transaction" where
  "txn_write key val t = t\<lparr>write_set := write_set t @ [key], ops := ops t @ [Write key val]\<rparr>"

definition txn_remove :: "'k \<Rightarrow> ('k, 'v) transaction \<Rightarrow> ('k, 'v) transaction" where
  "txn_remove key t = t\<lparr>write_set := write_set t @ [key], ops := ops t @ [Remove key]\<rparr>"

definition txn_len :: "('k, 'v) transaction \<Rightarrow> nat" where
  "txn_len t = length (ops t)"

definition txn_is_empty :: "('k, 'v) transaction \<Rightarrow> bool" where
  "txn_is_empty t = (ops t = [])"

text \<open>The two key sets are the projections of the operation list.\<close>

fun is_read :: "('k, 'v) txn_op \<Rightarrow> bool" where
  "is_read (Read _) = True"
| "is_read _ = False"

definition txn_ok :: "('k, 'v) transaction \<Rightarrow> bool" where
  "txn_ok t \<longleftrightarrow>
     read_set t = map txn_key (filter is_read (ops t)) \<and>
     write_set t = map txn_key (filter (\<lambda>x. \<not> is_read x) (ops t))"

lemma txn_ok_new: "txn_ok transaction_new"
  by (simp add: txn_ok_def transaction_new_def)

lemma txn_ok_steps:
  "txn_ok t \<Longrightarrow> txn_ok (txn_read k t)" "txn_ok t \<Longrightarrow> txn_ok (txn_write k v t)"
  "txn_ok t \<Longrightarrow> txn_ok (txn_remove k t)"
  by (simp_all add: txn_ok_def txn_read_def txn_write_def txn_remove_def)

section \<open>Compare and swap\<close>

datatype 'v cas_result = Success 'v | Failure 'v

fun is_success :: "'v cas_result \<Rightarrow> bool" where
  "is_success (Success _) = True"
| "is_success (Failure _) = False"

fun into_value :: "'v cas_result \<Rightarrow> 'v" where
  "into_value (Success v) = v"
| "into_value (Failure v) = v"

section \<open>Labelled snapshots\<close>

record ('k, 'v) cow_snapshot =
  cow_data :: "('k \<times> 'v) list"
  cow_version :: u64

record ('k, 'v) isolated_snapshot =
  iso_version :: u64
  iso_timestamp :: nat
  iso_data :: "('k \<times> 'v) list"

definition cow_from_arc :: "('k \<times> 'v) list \<Rightarrow> u64 \<Rightarrow> ('k, 'v) cow_snapshot" where
  "cow_from_arc data version = \<lparr>cow_data = data, cow_version = version\<rparr>"

definition isolated_from_arc :: "nat \<Rightarrow> u64 \<Rightarrow> ('k \<times> 'v) list \<Rightarrow> ('k, 'v) isolated_snapshot" where
  "isolated_from_arc now version data = \<lparr>iso_version = version, iso_timestamp = now, iso_data = data\<rparr>"

definition isolated_age :: "nat \<Rightarrow> ('k, 'v) isolated_snapshot \<Rightarrow> nat" where
  "isolated_age now s = now - iso_timestamp s"

section \<open>Replication vocabulary\<close>

datatype replica_error = ConnectionFailed | Timeout | Rejected string | QuorumFailed

datatype ('k, 'v) replication_op = RepInsert 'k 'v | RepRemove 'k | RepClear

record quorum_config =
  replica_count :: nat
  write_quorum :: nat
  read_quorum :: nat
  timeout :: nat

definition quorum_strict :: "nat \<Rightarrow> quorum_config" where
  "quorum_strict n = \<lparr>replica_count = n, write_quorum = n, read_quorum = n, timeout = 5 * 10 ^ 9\<rparr>"

definition quorum_majority :: "nat \<Rightarrow> quorum_config" where
  "quorum_majority n =
     (let quorum = n div 2 + 1
      in \<lparr>replica_count = n, write_quorum = quorum, read_quorum = quorum, timeout = 5 * 10 ^ 9\<rparr>)"

definition quorum_is_valid :: "quorum_config \<Rightarrow> bool" where
  "quorum_is_valid c \<longleftrightarrow>
     replica_count c > 0 \<and> timeout c \<noteq> 0 \<and> write_quorum c > replica_count c div 2 \<and>
     read_quorum c > 0 \<and> write_quorum c \<le> replica_count c \<and> read_quorum c \<le> replica_count c"

lemma quorum_presets_valid:
  "0 < n \<Longrightarrow> quorum_is_valid (quorum_majority n)" "0 < n \<Longrightarrow> quorum_is_valid (quorum_strict n)"
  by (auto simp: quorum_is_valid_def quorum_majority_def quorum_strict_def Let_def)

text \<open>
  C22: under a valid quorum configuration any two write quorums of the replica set share a replica, so
  two acknowledged writes always have a common witness; and the majority configuration of a nonempty
  replica set is valid and minimal: no valid configuration has a smaller write quorum.
\<close>

theorem write_quorums_intersect:
  assumes "quorum_is_valid c" "finite R" "card R = replica_count c" "A \<subseteq> R" "B \<subseteq> R"
    "write_quorum c \<le> card A" "write_quorum c \<le> card B"
  shows "A \<inter> B \<noteq> {} \<and> quorum_is_valid (quorum_majority (replica_count c)) \<and>
    write_quorum (quorum_majority (replica_count c)) \<le> write_quorum c"
proof -
  have fin: "finite A" "finite B" using assms(2,4,5) by (auto intro: finite_subset)
  have "card (A \<union> B) \<le> card R" using assms(2,4,5) by (intro card_mono) auto
  moreover have "replica_count c < 2 * write_quorum c" using assms(1) by (auto simp: quorum_is_valid_def)
  moreover have "card A + card B = card (A \<union> B) + card (A \<inter> B)" using fin by (rule card_Un_Int)
  ultimately have "0 < card (A \<inter> B)" using assms(3,6,7) by linarith
  then have "A \<inter> B \<noteq> {}" by auto
  moreover have "0 < replica_count c" using assms(1) by (simp add: quorum_is_valid_def)
  ultimately show ?thesis
    using quorum_presets_valid(1)[of "replica_count c"] assms(1)
    by (auto simp: quorum_majority_def quorum_is_valid_def Let_def)
qed

theorem write_quorums_intersect_witness:
  "{0, 1 :: nat} \<inter> {1, 2} \<noteq> {} \<and> quorum_is_valid (quorum_majority 3) \<and>
   write_quorum (quorum_majority 3) \<le> write_quorum (quorum_majority 3)"
  using write_quorums_intersect[of "quorum_majority 3" "{0, 1, 2 :: nat}" "{0, 1}" "{1, 2}"]
  by (simp add: quorum_majority_def quorum_is_valid_def Let_def)

end
