(* ===== verification/Sync_Ops.thy ===== *)
theory Sync_Ops
  imports Sync_Eviction Advanced
begin

text \<open>
  The public operations of \<open>ShardedHashMap\<close> (\<open>core/sync_impl.rs\<close>): single-key operations, closures
  under the shard lock, batches, \<open>retain\<close>, \<open>clear\<close>, \<open>drain\<close>, transactions, compare-and-swap and the
  statistics. Each is the whole method: the work under the routing lock and then, where the source
  calls it, \<open>enforce_eviction_limits\<close>. A closure argument is a HOL function; a result \<open>None\<close> of the
  outer option is a panic.
\<close>

section \<open>Single keys\<close>

definition insert_op ::
  "('k, 'v, 'm, 'b) deps \<Rightarrow> 'k \<Rightarrow> 'v \<Rightarrow> ('k, 'v, 'm, 'b) sharded_map \<Rightarrow>
   ('v option \<times> ('k, 'v, 'm, 'b) sharded_map) option" where
  "insert_op D key val m = do {
     (previous, m1) \<leftarrow> insert_inner D key val m;
     (_, m2) \<leftarrow> enforce_eviction_limits D m1;
     Some (previous, m2)
   }"

definition get_borrowed ::
  "('k, 'v, 'm, 'b) deps \<Rightarrow> 'k \<Rightarrow> ('k, 'v, 'm, 'b) sharded_map \<Rightarrow>
   ('v option \<times> ('k, 'v, 'm, 'b) sharded_map) option" where
  "get_borrowed D key m = read_inner D key m"

definition read_with ::
  "('k, 'v, 'm, 'b) deps \<Rightarrow> 'k \<Rightarrow> ('v \<Rightarrow> 'r) \<Rightarrow> ('k, 'v, 'm, 'b) sharded_map \<Rightarrow>
   ('r option \<times> ('k, 'v, 'm, 'b) sharded_map) option" where
  "read_with D key read m = do {
     (val, m1) \<leftarrow> read_inner D key m;
     Some (map_option read val, m1)
   }"

definition contains_borrowed ::
  "('k, 'v, 'm, 'b) deps \<Rightarrow> 'k \<Rightarrow> ('k, 'v, 'm, 'b) sharded_map \<Rightarrow>
   (bool \<times> ('k, 'v, 'm, 'b) sharded_map) option" where
  "contains_borrowed D key m = do {
     (val, m1) \<leftarrow> read_inner D key m;
     Some (val \<noteq> None, m1)
   }"

definition remove_borrowed ::
  "('k, 'v, 'm, 'b) deps \<Rightarrow> 'k \<Rightarrow> ('k, 'v, 'm, 'b) sharded_map \<Rightarrow>
   ('v option \<times> ('k, 'v, 'm, 'b) sharded_map) option" where
  "remove_borrowed D key m = do {
     (previous, m1) \<leftarrow> remove_inner D key m;
     (_, m2) \<leftarrow> enforce_eviction_limits D m1;
     Some (previous, m2)
   }"

section \<open>Closures under the shard lock\<close>

definition get_or_insert_with ::
  "('k, 'v, 'm, 'b) deps \<Rightarrow> 'k \<Rightarrow> (unit \<Rightarrow> 'v) \<Rightarrow> ('k, 'v, 'm, 'b) sharded_map \<Rightarrow>
   ('v \<times> ('k, 'v, 'm, 'b) sharded_map) option" where
  "get_or_insert_with D key f m = do {
     (index, active, m1) \<leftarrow> lock_key D m key;
     let current = hb_get (shard_ops D) (as_map active) key;
     let m2 = tracked_read D key current m1;
     case current of
       Some val \<Rightarrow> Some (val, unlock index active m2)
     | None \<Rightarrow> do {
         let val = f ();
         let (_, mu, l) = tracked_insert D (shard_mutation_new (shard_ops D) (as_map active)) key val (lifecycle m2);
         (_, m3) \<leftarrow> enforce_eviction_limits D (commit D index active mu l m2);
         Some (val, m3)
       }
   }"

definition compute_if_present ::
  "('k, 'v, 'm, 'b) deps \<Rightarrow> 'k \<Rightarrow> ('v \<Rightarrow> 'v option) \<Rightarrow> ('k, 'v, 'm, 'b) sharded_map \<Rightarrow>
   ('v option \<times> ('k, 'v, 'm, 'b) sharded_map) option" where
  "compute_if_present D key f m = do {
     (index, active, m1) \<leftarrow> lock_key D m key;
     let current = hb_get (shard_ops D) (as_map active) key;
     let m2 = tracked_read D key current m1;
     case current of
       None \<Rightarrow> Some (None, unlock index active m2)
     | Some val \<Rightarrow> do {
         let result = f val;
         let mu0 = shard_mutation_new (shard_ops D) (as_map active);
         let (_, mu, l) =
           (case result of
              Some new \<Rightarrow> tracked_insert D mu0 key new (lifecycle m2)
            | None \<Rightarrow> tracked_remove D mu0 key (lifecycle m2));
         (_, m3) \<leftarrow> enforce_eviction_limits D (commit D index active mu l m2);
         Some (result, m3)
       }
   }"

definition compare_and_swap ::
  "('k, 'v, 'm, 'b) deps \<Rightarrow> 'k \<Rightarrow> 'v \<Rightarrow> 'v \<Rightarrow> ('k, 'v, 'm, 'b) sharded_map \<Rightarrow>
   ('v cas_result \<times> ('k, 'v, 'm, 'b) sharded_map) option" where
  "compare_and_swap D key expected new m = do {
     (index, active, m1) \<leftarrow> lock_key D m key;
     let current = hb_get (shard_ops D) (as_map active) key;
     let m2 = m1\<lparr>lifecycle := record_read D key (current \<noteq> None) (lifecycle m1)\<rparr>;
     let (result, m3) =
       (case current of
          Some cur \<Rightarrow>
            if cur = expected
            then (let (_, mu, l) = tracked_insert D (shard_mutation_new (shard_ops D) (as_map active)) key new
                                     (lifecycle m2)
                  in (Success new, commit D index active mu l m2))
            else (Failure cur, unlock index active m2)
        | None \<Rightarrow> (Failure new, unlock index active m2));
     (_, m4) \<leftarrow> enforce_eviction_limits D m3;
     Some (result, m4)
   }"

definition compare_and_remove ::
  "('k, 'v, 'm, 'b) deps \<Rightarrow> 'k \<Rightarrow> 'v \<Rightarrow> ('k, 'v, 'm, 'b) sharded_map \<Rightarrow>
   (bool \<times> ('k, 'v, 'm, 'b) sharded_map) option" where
  "compare_and_remove D key expected m = do {
     (index, active, m1) \<leftarrow> lock_key D m key;
     let current = hb_get (shard_ops D) (as_map active) key;
     let m2 = m1\<lparr>lifecycle := record_read D key (current \<noteq> None) (lifecycle m1)\<rparr>;
     let (removed, m3) =
       (if current = Some expected
        then (let (_, mu, l) = tracked_remove D (shard_mutation_new (shard_ops D) (as_map active)) key (lifecycle m2)
              in (True, commit D index active mu l m2))
        else (False, unlock index active m2));
     (_, m4) \<leftarrow> enforce_eviction_limits D m3;
     Some (removed, m4)
   }"

section \<open>Batches\<close>

definition insert_step ::
  "('k, 'v, 'm, 'b) deps \<Rightarrow> 'k \<times> 'v \<Rightarrow> nat \<times> ('k, 'v, 'm, 'b) sharded_map \<Rightarrow>
   (nat \<times> ('k, 'v, 'm, 'b) sharded_map) option" where
  "insert_step D = (\<lambda>(key, val) (n, m). do {
     (previous, m1) \<leftarrow> insert_inner D key val m;
     Some (if previous = None then n + 1 else n, m1)
   })"

definition remove_step ::
  "('k, 'v, 'm, 'b) deps \<Rightarrow> 'k \<Rightarrow> nat \<times> ('k, 'v, 'm, 'b) sharded_map \<Rightarrow>
   (nat \<times> ('k, 'v, 'm, 'b) sharded_map) option" where
  "remove_step D = (\<lambda>key (n, m). do {
     (previous, m1) \<leftarrow> remove_inner D key m;
     Some (if previous \<noteq> None then n + 1 else n, m1)
   })"

fun insert_all ::
  "('k, 'v, 'm, 'b) deps \<Rightarrow> ('k \<times> 'v) list \<Rightarrow> nat \<times> 'm shard_mutation \<times> ('k, 'v, 'b) lifecycle_state \<Rightarrow>
   nat \<times> 'm shard_mutation \<times> ('k, 'v, 'b) lifecycle_state" where
  "insert_all D [] acc = acc"
| "insert_all D ((key, val) # es) (n, mu, l) =
     (let (previous, mu', l') = tracked_insert D mu key val l
      in insert_all D es (if previous = None then n + 1 else n, mu', l'))"

fun remove_all ::
  "('k, 'v, 'm, 'b) deps \<Rightarrow> 'k list \<Rightarrow> nat \<times> 'm shard_mutation \<times> ('k, 'v, 'b) lifecycle_state \<Rightarrow>
   nat \<times> 'm shard_mutation \<times> ('k, 'v, 'b) lifecycle_state" where
  "remove_all D [] acc = acc"
| "remove_all D (key # ks) (n, mu, l) =
     (let (previous, mu', l') = tracked_remove D mu key l
      in remove_all D ks (if previous \<noteq> None then n + 1 else n, mu', l'))"

text \<open>The index of each element, computed before any bucket is touched; no shards is a panic.\<close>

definition indexed ::
  "('k, 'v, 'm, 'b) deps \<Rightarrow> ('k, 'v, 'm, 'b) sharded_map \<Rightarrow> ('a \<Rightarrow> 'k) \<Rightarrow> 'a list \<Rightarrow> (nat \<times> 'a) list option" where
  "indexed D m key_of xs = those (map (\<lambda>x. map_option (\<lambda>i. (i, x)) (shard_index D m (key_of x))) xs)"

definition insert_bucket ::
  "('k, 'v, 'm, 'b) deps \<Rightarrow> nat \<times> (nat \<times> 'k \<times> 'v) list \<Rightarrow> nat \<times> ('k, 'v, 'm, 'b) sharded_map \<Rightarrow>
   (nat \<times> ('k, 'v, 'm, 'b) sharded_map) option" where
  "insert_bucket D = (\<lambda>(index, es) (n, m). do {
     (shard, m1) \<leftarrow> get_or_init_shard D m index;
     let (n', mu, l) = insert_all D (map snd es) (n, shard_mutation_new (shard_ops D) (as_map shard), lifecycle m1);
     Some (n', commit D index shard mu l m1)
   })"

definition remove_bucket ::
  "('k, 'v, 'm, 'b) deps \<Rightarrow> nat \<times> (nat \<times> 'k) list \<Rightarrow> nat \<times> ('k, 'v, 'm, 'b) sharded_map \<Rightarrow>
   (nat \<times> ('k, 'v, 'm, 'b) sharded_map) option" where
  "remove_bucket D = (\<lambda>(index, ks) (n, m). do {
     slot \<leftarrow> index_checked (shards m) index;
     case slot of
       None \<Rightarrow> Some (n, m)
     | Some shard \<Rightarrow>
         if snapshot_mode m = Cow \<and> \<not> list_ex (\<lambda>(_, k). hb_get (shard_ops D) (as_map shard) k \<noteq> None) ks
         then Some (n, m)
         else
           (let (n', mu, l) = remove_all D (map snd ks)
                  (n, shard_mutation_new (shard_ops D) (as_map shard), lifecycle m)
            in Some (n', commit D index shard mu l m))
   })"

definition batch_insert ::
  "('k, 'v, 'm, 'b) deps \<Rightarrow> ('k \<times> 'v) list \<Rightarrow> ('k, 'v, 'm, 'b) sharded_map \<Rightarrow>
   (nat \<times> ('k, 'v, 'm, 'b) sharded_map) option" where
  "batch_insert D es m = do {
     (n, m1) \<leftarrow>
       (if previous_shard_count m \<noteq> 0 then fold_option (insert_step D) es (0, m)
        else do {
          ixs \<leftarrow> indexed D m fst es;
          fold_option (insert_bucket D) (bucketize (bucket_order D) fst ixs) (0, m)
        });
     (_, m2) \<leftarrow> enforce_eviction_limits D m1;
     Some (n, m2)
   }"

definition batch_remove ::
  "('k, 'v, 'm, 'b) deps \<Rightarrow> 'k list \<Rightarrow> ('k, 'v, 'm, 'b) sharded_map \<Rightarrow>
   (nat \<times> ('k, 'v, 'm, 'b) sharded_map) option" where
  "batch_remove D ks m = do {
     (n, m1) \<leftarrow>
       (if previous_shard_count m \<noteq> 0 then fold_option (remove_step D) ks (0, m)
        else do {
          ixs \<leftarrow> indexed D m id ks;
          fold_option (remove_bucket D) (bucketize (bucket_order D) fst ixs) (0, m)
        });
     (_, m2) \<leftarrow> enforce_eviction_limits D m1;
     Some (n, m2)
   }"

text \<open>\<open>batch_get\<close>: the result vector is filled by position, bucket after bucket.\<close>

definition get_step ::
  "('k, 'v, 'm, 'b) deps \<Rightarrow> nat \<times> 'k \<Rightarrow> 'v option list \<times> ('k, 'v, 'm, 'b) sharded_map \<Rightarrow>
   ('v option list \<times> ('k, 'v, 'm, 'b) sharded_map) option" where
  "get_step D = (\<lambda>(pos, key) (result, m). do {
     (val, m1) \<leftarrow> read_inner D key m;
     Some (result[pos := val], m1)
   })"

fun get_all ::
  "('k, 'v, 'm, 'b) deps \<Rightarrow> 'm shard_data option \<Rightarrow> (nat \<times> 'k) list \<Rightarrow>
   'v option list \<times> ('k, 'v, 'm, 'b) sharded_map \<Rightarrow> 'v option list \<times> ('k, 'v, 'm, 'b) sharded_map" where
  "get_all D slot [] acc = acc"
| "get_all D None ((pos, key) # ks) (result, m) = get_all D None ks (result, tracked_read D key None m)"
| "get_all D (Some sd) ((pos, key) # ks) (result, m) =
     (let val = hb_get (shard_ops D) (as_map sd) key
      in get_all D (Some sd) ks (result[pos := val], tracked_read D key val m))"

definition get_bucket ::
  "('k, 'v, 'm, 'b) deps \<Rightarrow> nat \<times> (nat \<times> nat \<times> 'k) list \<Rightarrow> 'v option list \<times> ('k, 'v, 'm, 'b) sharded_map \<Rightarrow>
   ('v option list \<times> ('k, 'v, 'm, 'b) sharded_map) option" where
  "get_bucket D = (\<lambda>(index, ks) (result, m). do {
     slot \<leftarrow> index_checked (shards m) index;
     Some (get_all D slot (map snd ks) (result, m))
   })"

definition batch_get ::
  "('k, 'v, 'm, 'b) deps \<Rightarrow> 'k list \<Rightarrow> ('k, 'v, 'm, 'b) sharded_map \<Rightarrow>
   ('v option list \<times> ('k, 'v, 'm, 'b) sharded_map) option" where
  "batch_get D ks m =
     (let result = replicate (length ks) None in
      if previous_shard_count m \<noteq> 0 then fold_option (get_step D) (enumerate 0 ks) (result, m)
      else do {
        ixs \<leftarrow> indexed D m snd (enumerate 0 ks);
        fold_option (get_bucket D) (bucketize (bucket_order D) fst ixs) (result, m)
      })"

section \<open>Whole-map operations\<close>

text \<open>A loop over \<open>all_shards()\<close> that writes each shard: active slots first, then previous ones.\<close>

definition for_active ::
  "('m shard_data \<Rightarrow> 'a \<Rightarrow> ('k, 'v, 'm, 'b) sharded_map \<Rightarrow> 'm shard_data \<times> 'a \<times> ('k, 'v, 'm, 'b) sharded_map) \<Rightarrow>
   nat \<Rightarrow> 'a \<times> ('k, 'v, 'm, 'b) sharded_map \<Rightarrow> 'a \<times> ('k, 'v, 'm, 'b) sharded_map" where
  "for_active f i = (\<lambda>(acc, m).
     (case shards m ! i of
        None \<Rightarrow> (acc, m)
      | Some sd \<Rightarrow> (let (sd', acc', m') = f sd acc m in (acc', unlock i sd' m'))))"

definition for_previous ::
  "('m shard_data \<Rightarrow> 'a \<Rightarrow> ('k, 'v, 'm, 'b) sharded_map \<Rightarrow> 'm shard_data \<times> 'a \<times> ('k, 'v, 'm, 'b) sharded_map) \<Rightarrow>
   nat \<Rightarrow> 'a \<times> ('k, 'v, 'm, 'b) sharded_map \<Rightarrow> 'a \<times> ('k, 'v, 'm, 'b) sharded_map" where
  "for_previous f j = (\<lambda>(acc, m).
     (case prev_slots m ! j of
        None \<Rightarrow> (acc, m)
      | Some sd \<Rightarrow> (let (sd', acc', m') = f sd acc m in (acc', set_previous_slot j (Some sd') m'))))"

definition for_all_shards ::
  "('m shard_data \<Rightarrow> 'a \<Rightarrow> ('k, 'v, 'm, 'b) sharded_map \<Rightarrow> 'm shard_data \<times> 'a \<times> ('k, 'v, 'm, 'b) sharded_map) \<Rightarrow>
   'a \<Rightarrow> ('k, 'v, 'm, 'b) sharded_map \<Rightarrow> 'a \<times> ('k, 'v, 'm, 'b) sharded_map" where
  "for_all_shards f acc m =
     fold (for_previous f) [0..<length (prev_slots m)] (fold (for_active f) [0..<length (shards m)] (acc, m))"

definition retain_shard ::
  "('k, 'v, 'm, 'b) deps \<Rightarrow> ('k \<Rightarrow> 'v \<Rightarrow> bool) \<Rightarrow> 'm shard_data \<Rightarrow> ('k \<times> 'v) list \<Rightarrow>
   ('k, 'v, 'm, 'b) sharded_map \<Rightarrow> 'm shard_data \<times> ('k \<times> 'v) list \<times> ('k, 'v, 'm, 'b) sharded_map" where
  "retain_shard D predicate sd retired_pairs m =
     (let m1 = m\<lparr>lifecycle := mutation (lifecycle m)\<rparr>;
          (removed, mp) = hb_extract_if (shard_ops D) (as_map sd) (\<lambda>k v. \<not> predicate k v);
          m2 = fold (\<lambda>(k, _) m'. (record_write 0 1 m')\<lparr>lifecycle := record_remove D k (lifecycle m')\<rparr>) removed m1
      in (deref_mut_set sd mp, retired_pairs @ removed, m2))"

definition retain_op ::
  "('k, 'v, 'm, 'b) deps \<Rightarrow> ('k \<Rightarrow> 'v \<Rightarrow> bool) \<Rightarrow> ('k, 'v, 'm, 'b) sharded_map \<Rightarrow>
   ('k, 'v, 'm, 'b) sharded_map option" where
  "retain_op D predicate m = do {
     let (_, m1) = for_all_shards (retain_shard D predicate) [] m;
     (_, m2) \<leftarrow> enforce_eviction_limits D m1;
     Some m2
   }"

definition drain_shard ::
  "('k, 'v, 'm, 'b) deps \<Rightarrow> 'm shard_data \<Rightarrow> ('k \<times> 'v) list \<Rightarrow>
   ('k, 'v, 'm, 'b) sharded_map \<Rightarrow> 'm shard_data \<times> ('k \<times> 'v) list \<times> ('k, 'v, 'm, 'b) sharded_map" where
  "drain_shard D sd items m =
     (let n = hb_len (shard_ops D) (as_map sd);
          m1 = m\<lparr>lifecycle := mutation (lifecycle m)\<rparr>;
          (drained, mp) = hb_drain (shard_ops D) (as_map sd);
          m2 = (if n \<noteq> 0 then record_write 0 n m1 else m1);
          m3 = m2\<lparr>lifecycle := fold (\<lambda>(k, _). record_remove D k) drained (lifecycle m2)\<rparr>
      in (deref_mut_set sd mp, items @ drained, m3))"

text \<open>The exclusive part of \<open>clear\<close> and \<open>drain\<close>.\<close>

definition drain_all ::
  "('k, 'v, 'm, 'b) deps \<Rightarrow> ('k, 'v, 'm, 'b) sharded_map \<Rightarrow> ('k \<times> 'v) list \<times> ('k, 'v, 'm, 'b) sharded_map" where
  "drain_all D m =
     (let (items, m1) = for_all_shards (drain_shard D) [] m
      in (items, m1\<lparr>previous_shards := None, previous_shard_count := 0,
                    rebalance_tracker := finish (now D) (rebalance_tracker m1)\<rparr>))"

definition clear_op :: "('k, 'v, 'm, 'b) deps \<Rightarrow> ('k, 'v, 'm, 'b) sharded_map \<Rightarrow>
   ('k, 'v, 'm, 'b) sharded_map option" where
  "clear_op D m = do {
     let (_, m1) = drain_all D m;
     (_, m2) \<leftarrow> enforce_eviction_limits D m1;
     Some m2
   }"

definition drain_op :: "('k, 'v, 'm, 'b) deps \<Rightarrow> ('k, 'v, 'm, 'b) sharded_map \<Rightarrow>
   (('k, 'v) drain_iterator \<times> ('k, 'v, 'm, 'b) sharded_map) option" where
  "drain_op D m = do {
     let (items, m1) = drain_all D m;
     (_, m2) \<leftarrow> enforce_eviction_limits D m1;
     Some (\<lparr>drain_items = items, drain_index = 0\<rparr>, m2)
   }"

section \<open>Transactions\<close>

text \<open>
  The guards of a transaction are the slots of the participating shards: all active ones are
  initialised first, in ascending order, and each operation then works on its slot.
\<close>

definition txn_step ::
  "('k, 'v, 'm, 'b) deps \<Rightarrow> ('k, 'v) txn_op \<Rightarrow> ('k, 'v, 'm, 'b) sharded_map \<Rightarrow>
   ('k, 'v, 'm, 'b) sharded_map option" where
  "txn_step D txo m = do {
     index \<leftarrow> shard_index D m (txn_key txo);
     slot \<leftarrow> index_checked (shards m) index;
     guard \<leftarrow> slot;
     (active, m1) \<leftarrow> promote_previous D m (txn_key txo) guard;
     Some (case txo of
       Read key \<Rightarrow>
         unlock index active
           (m1\<lparr>lifecycle := record_read D key (hb_get (shard_ops D) (as_map active) key \<noteq> None) (lifecycle m1)\<rparr>)
     | Write key val \<Rightarrow>
         (let (_, mu, l) = tracked_insert D (shard_mutation_new (shard_ops D) (as_map active)) key val (lifecycle m1)
          in commit D index active mu l m1)
     | Remove key \<Rightarrow>
         if snapshot_mode m1 = Cow \<and> hb_get (shard_ops D) (as_map active) key = None
         then unlock index active m1
         else (let (_, mu, l) = tracked_remove D (shard_mutation_new (shard_ops D) (as_map active)) key (lifecycle m1)
               in commit D index active mu l m1))
   }"

definition execute_transaction ::
  "('k, 'v, 'm, 'b) deps \<Rightarrow> ('k, 'v) transaction \<Rightarrow> ('k, 'v, 'm, 'b) sharded_map \<Rightarrow>
   (unit transaction_result \<times> ('k, 'v, 'm, 'b) sharded_map) option" where
  "execute_transaction D txn m = do {
     ixs \<leftarrow> indexed D m txn_key (ops txn);
     let active_indices = remdups_adj (sort (map fst ixs));
     m1 \<leftarrow> fold_option (\<lambda>i m'. map_option snd (get_or_init_shard D m' i)) active_indices m;
     m2 \<leftarrow> fold_option (txn_step D) (ops txn) m1;
     (_, m3) \<leftarrow> enforce_eviction_limits D m2;
     Some (Committed (), m3)
   }"

section \<open>Statistics\<close>

record shard_stats =
  st_initialized :: nat
  st_total :: nat
  st_empty :: nat
  st_avg_load :: real
  st_max_load :: nat

definition shard_stats_of :: "('k, 'v, 'm, 'b) deps \<Rightarrow> ('k, 'v, 'm, 'b) sharded_map \<Rightarrow> shard_stats" where
  "shard_stats_of D m =
     (let loads = map (\<lambda>sd. hb_len (shard_ops D) (as_map sd)) (List.map_filter id (shards m))
      in \<lparr>st_initialized = length loads, st_total = length (shards m),
          st_empty = length (filter (\<lambda>n. n = 0) loads),
          st_avg_load = (if loads = [] then 0 else real (sum_list loads) / real (length loads)),
          st_max_load = fold max loads 0\<rparr>)"

definition utilization_percent :: "shard_stats \<Rightarrow> real" where
  "utilization_percent s =
     (if st_total s = 0 then 0 else real (st_initialized s) / real (st_total s) * 100)"

record per_shard_load =
  load_shard_idx :: nat
  load_entry_count :: nat
  load_capacity :: nat

definition per_shard_load_of :: "('k, 'v, 'm, 'b) deps \<Rightarrow> ('k, 'v, 'm, 'b) sharded_map \<Rightarrow> per_shard_load list" where
  "per_shard_load_of D m =
     List.map_filter (\<lambda>(index, slot). map_option (\<lambda>sd.
        \<lparr>load_shard_idx = index, load_entry_count = hb_len (shard_ops D) (as_map sd),
         load_capacity = hb_capacity (shard_ops D) (as_map sd)\<rparr>) slot) (enumerate 0 (shards m))"

record memory_stats =
  shards_allocated :: nat
  total_capacity :: nat
  load_factor :: real

definition memory_stats_of :: "('k, 'v, 'm, 'b) deps \<Rightarrow> ('k, 'v, 'm, 'b) sharded_map \<Rightarrow> memory_stats" where
  "memory_stats_of D m =
     (let sds = all_shards m;
          cap = sum_list (map (\<lambda>sd. hb_capacity (shard_ops D) (as_map sd)) sds);
          n = sum_list (map (\<lambda>sd. hb_len (shard_ops D) (as_map sd)) sds)
      in \<lparr>shards_allocated = length sds, total_capacity = cap,
          load_factor = (if cap = 0 then 0 else real n / real cap)\<rparr>)"

definition enable_profiling :: "bool \<Rightarrow> ('k, 'v, 'm, 'b) sharded_map \<Rightarrow> ('k, 'v, 'm, 'b) sharded_map" where
  "enable_profiling b m = m\<lparr>profiling_enabled := b\<rparr>"

end
