(* ===== verification/Sync_Correct.thy ===== *)
theory Sync_Correct
  imports Sync_Ops
begin

text \<open>
  Correctness of the public operations of the synchronous map against the finite map \<open>view\<close>. An
  operation that ends with \<open>enforce_eviction_limits\<close> reaches the view it promises less the entries the
  maintenance pass evicted; without a configured policy nothing is evicted.
\<close>

section \<open>The length of a map\<close>

context starshard_deps
begin

lemma dom_slots_get:
  assumes "slots_ok D mode slots"
  shows "dom (slots_get D slots) = (\<Union>i<length slots. dom (slot_get D (slots ! i)))"
proof
  show "dom (slots_get D slots) \<subseteq> (\<Union>i<length slots. dom (slot_get D (slots ! i)))"
    using route_less[of slots D] by (fastforce simp: slots_get_def split: if_splits)
  show "(\<Union>i<length slots. dom (slot_get D (slots ! i))) \<subseteq> dom (slots_get D slots)"
  proof
    fix k assume "k \<in> (\<Union>i<length slots. dom (slot_get D (slots ! i)))"
    then obtain i sd v where "i < length slots" "slots ! i = Some sd" "hb_get (shard_ops D) (as_map sd) k = Some v"
      by (auto simp: slot_get_def split: option.splits)
    then show "k \<in> dom (slots_get D slots)" using slot_in_get[OF assms] by blast
  qed
qed

lemma finite_slot_get [simp]: "finite (dom (slot_get D slot))"
proof (cases slot)
  case (Some sd)
  have "slot_get D slot = hb_get (shard_ops D) (as_map sd)" by (simp add: Some fun_eq_iff)
  then show ?thesis by simp
qed (simp add: dom_def)

lemma card_slot_get: "card (dom (slot_get D slot)) = slot_len D slot"
proof (cases slot)
  case (Some sd)
  have "slot_get D slot = hb_get (shard_ops D) (as_map sd)" by (simp add: Some fun_eq_iff)
  then show ?thesis by (simp add: Some H.card_dom_get)
qed (simp add: dom_def)

lemma card_slots_get:
  assumes ok: "slots_ok D mode slots"
  shows "card (dom (slots_get D slots)) = slots_len D slots"
proof -
  have disj: "dom (slot_get D (slots ! i)) \<inter> dom (slot_get D (slots ! j)) = {}"
    if "i < length slots" "j < length slots" "i \<noteq> j" for i j
  proof -
    have "route D (length slots) k = i'" if "k \<in> dom (slot_get D (slots ! i'))" "i' < length slots" for k i'
      using that slots_okD[OF ok, of i'] by (auto simp: slot_get_def shard_ok_def split: option.splits)
    then show ?thesis using that by blast
  qed
  have "card (dom (slots_get D slots)) = (\<Sum>i<length slots. card (dom (slot_get D (slots ! i))))"
    unfolding dom_slots_get[OF ok] using disj by (intro card_UN_disjoint) auto
  also have "\<dots> = slots_len D slots"
    by (simp add: slots_len_def card_slot_get sum_list_sum_nth atLeast0LessThan)
  finally show ?thesis .
qed

lemma finite_dom_slots: "slots_ok D mode slots \<Longrightarrow> finite (dom (slots_get D slots))"
  by (simp add: dom_slots_get)

lemma dom_view: "dom (view D m) = dom (slots_get D (prev_slots m)) \<union> dom (slots_get D (shards m))"
  by (auto simp: view_def)

lemma finite_dom_view: "wf_dirs D m \<Longrightarrow> finite (dom (view D m))"
  using finite_dom_slots[OF wf_dirsD(5)] finite_dom_slots[OF wf_dirsD(6)] by (simp add: dom_view)

lemma stored_len_card:
  assumes "wf_dirs D m"
  shows "stored_len D m = card (dom (view D m))"
proof -
  have "dom (slots_get D (prev_slots m)) \<inter> dom (slots_get D (shards m)) = {}"
  proof (rule equals0I)
    fix k assume "k \<in> dom (slots_get D (prev_slots m)) \<inter> dom (slots_get D (shards m))"
    then show False using wf_dirsD(8)[OF assms, of k] by auto
  qed
  then show ?thesis
    using card_slots_get[OF wf_dirsD(5)[OF assms]] card_slots_get[OF wf_dirsD(6)[OF assms]]
      finite_dom_slots[OF wf_dirsD(5)[OF assms]] finite_dom_slots[OF wf_dirsD(6)[OF assms]]
    by (simp add: dom_view stored_len_def card_Un_disjoint)
qed

lemma len_card: "wf_map D m \<Longrightarrow> len m = of_nat (card (dom (view D m)))"
  by (simp add: len_def wf_map_def stored_len_card)

end

section \<open>The end of an operation\<close>

text \<open>
  From \<open>m\<close> a complete operation that promises the view \<open>V\<close> has reached \<open>m'\<close>: the maintenance pass at its
  end has evicted entries of \<open>V\<close>, none if no policy is configured.
\<close>

definition op_post ::
  "('k, 'v, 'm, 'b) deps \<Rightarrow> ('k, 'v, 'm, 'b) sharded_map \<Rightarrow> ('k \<Rightarrow> 'v option) \<Rightarrow> ('k, 'v, 'm, 'b) sharded_map \<Rightarrow> bool" where
  "op_post D m V m' \<longleftrightarrow>
     wf_map D m' \<and> snapshot_mode m' = snapshot_mode m \<and> shard_count m' = shard_count m \<and>
     life_opts (lifecycle m') = life_opts (lifecycle m) \<and> view D m' \<subseteq>\<^sub>m V \<and>
     (life_opts (lifecycle m) = None \<longrightarrow> view D m' = V)"

lemma op_postD:
  assumes "op_post D m V m'"
  shows "wf_map D m'" "view D m' \<subseteq>\<^sub>m V" "life_opts (lifecycle m') = life_opts (lifecycle m)"
    "life_opts (lifecycle m) = None \<Longrightarrow> view D m' = V"
  using assms by (simp_all add: op_post_def)

lemma op_post_refl: "wf_map D m \<Longrightarrow> op_post D m (view D m) m"
  by (simp add: op_post_def)

lemma op_post_committed:
  "committed D m V ep l m' \<Longrightarrow> life_opts l = life_opts (lifecycle m) \<Longrightarrow> op_post D m V m'"
  by (simp add: op_post_def committed_def same_meta_def)

lemma op_post_trans:
  assumes "op_post D m V m1" "view D m1 = V" "op_post D m1 V m2"
  shows "op_post D m V m2"
  using assms by (simp add: op_post_def)

lemma life_opts_hooks [simp]:
  "life_opts (insert_hook D k v r l) = life_opts l" "life_opts (remove_hook D k r l) = life_opts l"
  by (simp_all add: insert_hook_def remove_hook_def)

context starshard_deps
begin

lemma enforce_post:
  assumes "op_post D m V m1" "view D m1 = V"
  shows "\<exists>n m'. enforce_eviction_limits D m1 = Some (n, m') \<and> op_post D m V m'"
proof -
  have w: "wf_map D m1" using assms(1) by (simp add: op_post_def)
  obtain ev m' where e: "enforce_eviction_limits D m1 = Some (length ev, m')" "evicted_by D ev m1 m'"
    "configured (lifecycle m1) = None \<longrightarrow> ev = [] \<and> m' = m1"
    using enforce_evicts[OF w] by metis
  have "op_post D m1 V m'"
    using evicted_byD[OF e(2)] evicted_by_subset[OF e(2)] e(3) assms(2) w
    by (auto simp: op_post_def same_meta_def opts_None)
  then show ?thesis using e(1) op_post_trans[OF assms] by blast
qed

lemma enforce_committed:
  assumes "committed D m V ep l m1" "life_opts l = life_opts (lifecycle m)"
  shows "\<exists>n m'. enforce_eviction_limits D m1 = Some (n, m') \<and> op_post D m V m'"
  using enforce_post[OF op_post_committed[OF assms]] assms(1) by (simp add: committed_def)

section \<open>Single keys\<close>

lemma insert_op_post:
  assumes "wf_map D m"
  shows "\<exists>m'. insert_op D k v m = Some (view D m k, m') \<and> op_post D m ((view D m)(k \<mapsto> v)) m'"
proof -
  obtain m1 where "insert_inner D k v m = Some (view D m k, m1)"
    and c: "committed D m ((view D m)(k \<mapsto> v)) (write_epoch m + 1) (insert_hook D k v (view D m k \<noteq> None) (lifecycle m)) m1"
    using insert_inner_spec[OF assms] by blast
  then show ?thesis using enforce_committed[OF c] by (auto simp: insert_op_def)
qed

lemma remove_post:
  assumes "wf_map D m"
  shows "\<exists>m'. remove_borrowed D k m = Some (view D m k, m') \<and> op_post D m ((view D m)(k := None)) m'"
proof -
  obtain m1 l where r: "remove_inner D k m = Some (view D m k, m1)"
    and c: "committed D m ((view D m)(k := None)) (if view D m k = None then write_epoch m else write_epoch m + 1) l m1"
    and l: "l = remove_hook D k (view D m k \<noteq> None) (lifecycle m) \<or> view D m k = None \<and> l = lifecycle m"
    using remove_inner_spec[OF assms] by blast
  have "life_opts l = life_opts (lifecycle m)" using l by auto
  then show ?thesis using r enforce_committed[OF c] by (auto simp: remove_borrowed_def)
qed

lemma tracked_read_frame [simp]:
  "view D (tracked_read D k x m) = view D m" "wf_map D (tracked_read D k x m) = wf_map D m"
  "write_epoch (tracked_read D k x m) = write_epoch m"
  "life_opts (lifecycle (tracked_read D k x m)) = life_opts (lifecycle m)"
  "same_meta m' (tracked_read D k x m) = same_meta m' m" "shards (tracked_read D k x m) = shards m"
  "previous_shard_count (tracked_read D k x m) = previous_shard_count m"
  "op_post D m' V (tracked_read D k x m) = op_post D m' V m"
  by (simp_all add: tracked_read_def same_meta_def op_post_def)

lemma read_with_post:
  assumes "wf_map D m"
  shows "\<exists>m'. read_with D k f m = Some (map_option f (view D m k), m') \<and> op_post D m (view D m) m' \<and>
    view D m' = view D m \<and> write_epoch m' = write_epoch m"
  using read_inner_eq[of m k] assms op_post_refl[OF assms] by (simp add: read_with_def wf_map_def)

lemma contains_post:
  assumes "wf_map D m"
  shows "\<exists>m'. contains_borrowed D k m = Some (k \<in> dom (view D m), m') \<and> op_post D m (view D m) m' \<and>
    view D m' = view D m \<and> write_epoch m' = write_epoch m"
  using read_inner_eq[of m k] assms op_post_refl[OF assms] by (simp add: contains_borrowed_def wf_map_def domIff)

lemma get_post:
  assumes "wf_map D m"
  shows "\<exists>m'. get_borrowed D k m = Some (view D m k, m') \<and> op_post D m (view D m) m' \<and>
    view D m' = view D m \<and> write_epoch m' = write_epoch m"
  using read_inner_eq[of m k] assms op_post_refl[OF assms] by (simp add: get_borrowed_def wf_map_def)

section \<open>Closures under the shard lock\<close>

lemma locked_insert_enforce:
  assumes "locked D m k i a m2" "life_opts l = life_opts (lifecycle m)"
  shows "\<exists>mu l' n m'. tracked_insert D (shard_mutation_new (shard_ops D) (as_map a)) k v l = (view D m k, mu, l') \<and>
    enforce_eviction_limits D (commit D i a mu l' (m2\<lparr>lifecycle := x\<rparr>)) = Some (n, m') \<and>
    op_post D m ((view D m)(k \<mapsto> v)) m'"
  using locked_insert[OF assms(1), of v l] assms(2) enforce_committed by (metis life_opts_hooks(1))

lemma locked_remove_enforce:
  assumes "locked D m k i a m2" "life_opts l = life_opts (lifecycle m)"
  shows "\<exists>mu l' n m'. tracked_remove D (shard_mutation_new (shard_ops D) (as_map a)) k l = (view D m k, mu, l') \<and>
    enforce_eviction_limits D (commit D i a mu l' (m2\<lparr>lifecycle := x\<rparr>)) = Some (n, m') \<and>
    op_post D m ((view D m)(k := None)) m'"
  using locked_remove[OF assms(1), of l] assms(2) enforce_committed by (metis life_opts_hooks(2))

lemma get_or_insert_post:
  assumes "wf_map D m"
  shows "\<exists>m'. get_or_insert_with D k f m = Some (case view D m k of Some v \<Rightarrow> v | None \<Rightarrow> f (), m') \<and>
    op_post D m ((view D m)(k \<mapsto> (case view D m k of Some v \<Rightarrow> v | None \<Rightarrow> f ()))) m'"
proof -
  obtain i a m2 where L: "lock_key D m k = Some (i, a, m2)" "locked D m k i a m2" using locked_key[OF assms] by blast
  note d = lockedD[OF L(2)]
  let ?l = "record_read D k (view D m k \<noteq> None) (lifecycle m)"
  show ?thesis
  proof (cases "view D m k")
    case (Some v)
    have "op_post D m (view D m) (unlock i a (m2\<lparr>lifecycle := ?l\<rparr>))" using op_post_committed[OF d(4)] by simp
    then show ?thesis using L(1) d(1,2) Some
      by (simp add: get_or_insert_with_def tracked_read_def fun_upd_idem)
  next
    case None
    then show ?thesis
      using L(1) d(1,2) locked_insert_enforce[OF L(2), of ?l "f ()" ?l]
      by (auto simp: get_or_insert_with_def tracked_read_def Let_def)
  qed
qed

lemma compute_post:
  assumes "wf_map D m"
  shows "\<exists>m'. compute_if_present D k f m = Some (Option.bind (view D m k) f, m') \<and>
    op_post D m ((view D m)(k := Option.bind (view D m k) f)) m'"
proof -
  obtain i a m2 where L: "lock_key D m k = Some (i, a, m2)" "locked D m k i a m2" using locked_key[OF assms] by blast
  note d = lockedD[OF L(2)]
  let ?l = "record_read D k (view D m k \<noteq> None) (lifecycle m)"
  show ?thesis
  proof (cases "view D m k")
    case None
    have "op_post D m (view D m) (unlock i a (m2\<lparr>lifecycle := ?l\<rparr>))" using op_post_committed[OF d(4)] by simp
    then show ?thesis using L(1) d(1,2) None
      by (simp add: compute_if_present_def tracked_read_def fun_upd_idem)
  next
    case (Some v)
    then show ?thesis
      using L(1) d(1,2) locked_insert_enforce[OF L(2), of ?l "the (f v)" ?l] locked_remove_enforce[OF L(2), of ?l ?l]
      by (cases "f v") (auto simp: compute_if_present_def tracked_read_def Let_def)
  qed
qed

lemma cas_post:
  assumes "wf_map D m"
  shows "\<exists>m'. compare_and_swap D k expected new m =
      Some (case view D m k of None \<Rightarrow> Failure new | Some v \<Rightarrow> if v = expected then Success new else Failure v, m') \<and>
    op_post D m (if view D m k = Some expected then (view D m)(k \<mapsto> new) else view D m) m'"
proof -
  obtain i a m2 where L: "lock_key D m k = Some (i, a, m2)" "locked D m k i a m2" using locked_key[OF assms] by blast
  note d = lockedD[OF L(2)]
  let ?l = "record_read D k (view D m k \<noteq> None) (lifecycle m)"
  have miss: "\<exists>n m'. enforce_eviction_limits D (unlock i a (m2\<lparr>lifecycle := ?l\<rparr>)) = Some (n, m') \<and> op_post D m (view D m) m'"
    using enforce_committed[OF d(4)] by simp
  show ?thesis
    using L(1) d(1,2) locked_insert_enforce[OF L(2), of ?l new ?l] miss
    by (cases "view D m k") (fastforce simp: compare_and_swap_def Let_def)+
qed

lemma compare_and_remove_post:
  assumes "wf_map D m"
  shows "\<exists>m'. compare_and_remove D k expected m = Some (view D m k = Some expected, m') \<and>
    op_post D m (if view D m k = Some expected then (view D m)(k := None) else view D m) m'"
proof -
  obtain i a m2 where L: "lock_key D m k = Some (i, a, m2)" "locked D m k i a m2" using locked_key[OF assms] by blast
  note d = lockedD[OF L(2)]
  let ?l = "record_read D k (view D m k \<noteq> None) (lifecycle m)"
  have miss: "\<exists>n m'. enforce_eviction_limits D (unlock i a (m2\<lparr>lifecycle := ?l\<rparr>)) = Some (n, m') \<and> op_post D m (view D m) m'"
    using enforce_committed[OF d(4)] by simp
  show ?thesis
    using L(1) d(1,2) locked_remove_enforce[OF L(2), of ?l ?l] miss
    by (cases "view D m k = Some expected") (fastforce simp: compare_and_remove_def Let_def)+
qed

end

end
