(* ===== verification/Sync_Batch.thy ===== *)
theory Sync_Batch
  imports Sync_Correct
begin

text \<open>
  Correctness of the batch operations: whatever order the buckets are walked in, a batch has the effect
  of its elements one after the other, and it reports exactly the keys that were new or removed.
\<close>

section \<open>Batches on one mutation\<close>

context starshard_deps
begin

lemma tracked_insert_eq:
  "\<exists>mp l'. tracked_insert D mu k v l = (hb_get (shard_ops D) (mut_map mu) k, mu\<lparr>changed := True, mut_map := mp\<rparr>, l') \<and>
    hb_get (shard_ops D) mp = (hb_get (shard_ops D) (mut_map mu))(k \<mapsto> v) \<and> life_opts l' = life_opts l"
  using H.insert_old[of "mut_map mu" k v] H.get_insert[of "mut_map mu" k v]
  by (cases "hb_insert (shard_ops D) (mut_map mu) k v") (auto simp: tracked_insert_def mutation_insert_def Let_def)

lemma tracked_remove_eq:
  "\<exists>mp l'. tracked_remove D mu k l = (hb_get (shard_ops D) (mut_map mu) k, mu\<lparr>mut_map := mp\<rparr>, l') \<and>
    hb_get (shard_ops D) mp = (hb_get (shard_ops D) (mut_map mu))(k := None) \<and> life_opts l' = life_opts l"
  using H.remove_old[of "mut_map mu" k] H.get_remove[of "mut_map mu" k]
  by (cases "hb_remove (shard_ops D) (mut_map mu) k") (auto simp: tracked_remove_def mutation_remove_def Let_def)

lemma insert_all_spec:
  "\<exists>mu' l'. insert_all D es (n, mu, l) =
      (n + card (fst ` set es - dom (hb_get (shard_ops D) (mut_map mu))), mu', l') \<and>
    hb_get (shard_ops D) (mut_map mu') = hb_get (shard_ops D) (mut_map mu) ++ map_of (rev es) \<and>
    initial_len mu' = initial_len mu \<and> life_opts l' = life_opts l"
proof (induction es arbitrary: n mu l)
  case (Cons e es)
  obtain k v where e: "e = (k, v)" by (cases e)
  obtain mp l1 where t: "tracked_insert D mu k v l =
      (hb_get (shard_ops D) (mut_map mu) k, mu\<lparr>changed := True, mut_map := mp\<rparr>, l1)"
    "hb_get (shard_ops D) mp = (hb_get (shard_ops D) (mut_map mu))(k \<mapsto> v)" "life_opts l1 = life_opts l"
    using tracked_insert_eq by blast
  let ?V = "hb_get (shard_ops D) (mut_map mu)" and ?n1 = "if hb_get (shard_ops D) (mut_map mu) k = None then n + 1 else n"
  have "card (fst ` set (e # es) - dom ?V) = (if ?V k = None then 1 else 0) + card (fst ` set es - insert k (dom ?V))"
  proof -
    have "fst ` set (e # es) - dom ?V = (if ?V k = None then {k} else {}) \<union> (fst ` set es - insert k (dom ?V))"
      by (auto simp: e)
    then show ?thesis by (auto simp: card_Un_disjoint)
  qed
  then show ?case
    using Cons.IH[of ?n1 "mu\<lparr>changed := True, mut_map := mp\<rparr>" l1] t by (auto simp: e simp del: fun_upd_apply)
qed simp

lemma remove_all_spec:
  "\<exists>mu' l'. remove_all D ks (n, mu, l) =
      (n + card (set ks \<inter> dom (hb_get (shard_ops D) (mut_map mu))), mu', l') \<and>
    hb_get (shard_ops D) (mut_map mu') = hb_get (shard_ops D) (mut_map mu) |` (- set ks) \<and>
    initial_len mu' = initial_len mu \<and> life_opts l' = life_opts l"
proof (induction ks arbitrary: n mu l)
  case Nil
  then show ?case by (simp add: restrict_map_def)
next
  case (Cons k ks)
  obtain mp l1 where t: "tracked_remove D mu k l = (hb_get (shard_ops D) (mut_map mu) k, mu\<lparr>mut_map := mp\<rparr>, l1)"
    "hb_get (shard_ops D) mp = (hb_get (shard_ops D) (mut_map mu))(k := None)" "life_opts l1 = life_opts l"
    using tracked_remove_eq by blast
  let ?V = "hb_get (shard_ops D) (mut_map mu)" and ?n1 = "if hb_get (shard_ops D) (mut_map mu) k \<noteq> None then n + 1 else n"
  have "card (set (k # ks) \<inter> dom ?V) = (if ?V k \<noteq> None then 1 else 0) + card (set ks \<inter> (dom ?V - {k}))"
  proof -
    have "set (k # ks) \<inter> dom ?V = (if ?V k \<noteq> None then {k} else {}) \<union> (set ks \<inter> (dom ?V - {k}))" by auto
    then show ?thesis by (auto simp: card_Un_disjoint)
  qed
  moreover have "(?V(k := None)) |` (- set ks) = ?V |` (- set (k # ks))"
    by (auto simp: restrict_map_def)
  ultimately show ?case
    using Cons.IH[of ?n1 "mu\<lparr>mut_map := mp\<rparr>" l1] t
    by (cases "hb_get (shard_ops D) (mut_map mu) k") (auto simp del: fun_upd_apply fun_upd_restrict_conv restrict_fun_upd)
qed

lemma indexed_wf:
  "wf_dirs D m \<Longrightarrow> indexed D m key_of xs = Some (map (\<lambda>x. (route D (length (shards m)) (key_of x), x)) xs)"
  by (simp add: indexed_def shard_index_wf those_map_Some)

section \<open>One bucket\<close>

lemma commit_bucket:
  assumes wf: "wf_map D m" "prev_slots m = []" and i: "i < length (shards m)"
    and init: "initial_len mu = hb_len (shard_ops D) (as_map (init_slot D m i))"
    and dom: "dom (hb_get (shard_ops D) (mut_map mu)) \<subseteq> dom (slot_get D (shards m ! i)) \<union> {k. route D (length (shards m)) k = i}"
    and l: "life_opts l = life_opts (lifecycle m)"
  defines "m' \<equiv> commit D i (init_slot D m i) mu l (unlock i (init_slot D m i) m)"
  shows "op_post D m (view D m') m'" "prev_slots m' = []" "length (shards m') = length (shards m)"
    "view D m' k = (if route D (length (shards m)) k = i then hb_get (shard_ops D) (mut_map mu) k else view D m k)"
proof -
  let ?a = "init_slot D m i"
  have wd: "wf_dirs D m" using wf by (simp add: wf_map_def)
  note m1 = get_or_init_wf[OF wd i]
  have w1: "wf_map D (unlock i ?a (unlock i ?a m))" using wf m1 by (simp add: wf_map_def)
  have routed: "route D (length (shards (unlock i ?a m))) k = i \<and> slots_get D (prev_slots (unlock i ?a m)) k = None"
    if "hb_get (shard_ops D) (mut_map mu) k \<noteq> None" for k
  proof -
    have "k \<in> dom (slot_get D (shards m ! i)) \<or> route D (length (shards m)) k = i" using that dom by auto
    then show ?thesis using slots_okD[OF wf_dirsD(5)[OF wd] i] wf(2)
      by (auto simp: slot_get_def shard_ok_def split: option.splits)
  qed
  note c = commit_wf[OF w1 _ init routed, of l, folded m'_def, simplified]
  have sm: "same_meta m m'"
    using c(3)[OF i] same_meta_trans[OF same_meta_unlock] by blast
  show "prev_slots m' = []" using sm wf(2) by (simp add: same_meta_def)
  show "length (shards m') = length (shards m)" using sm by (simp add: same_meta_def)
  show "op_post D m (view D m') m'"
    using c(1)[OF i] c(4)[OF i] sm l by (simp add: op_post_def same_meta_def)
  show "view D m' k = (if route D (length (shards m)) k = i then hb_get (shard_ops D) (mut_map mu) k else view D m k)"
    using c(2)[OF i, of k] wf(2) m1(2) by (simp split: option.splits)
qed

lemma insert_bucket_spec:
  assumes wf: "wf_map D m" "prev_slots m = []" and i: "i < length (shards m)"
    and r: "\<And>k v. (k, v) \<in> set (map snd es) \<Longrightarrow> route D (length (shards m)) k = i"
  shows "\<exists>m'. insert_bucket D (i, es) (n, m) = Some (n + card (fst ` set (map snd es) - dom (view D m)), m') \<and>
    op_post D m (view D m') m' \<and> prev_slots m' = [] \<and> length (shards m') = length (shards m) \<and>
    view D m' = view D m ++ map_of (rev (map snd es))"
proof -
  let ?a = "init_slot D m i" and ?es = "map snd es"
  have va: "view D m k = hb_get (shard_ops D) (as_map ?a) k" if "route D (length (shards m)) k = i" for k
    using that wf(2) init_slot_get[of m i k] slots_get_at[OF i that] by (simp add: view_def map_add_def split: option.splits)
  obtain mu l where ia: "insert_all D ?es (n, shard_mutation_new (shard_ops D) (as_map ?a), lifecycle m) =
      (n + card (fst ` set ?es - dom (hb_get (shard_ops D) (as_map ?a))), mu, l)"
    "hb_get (shard_ops D) (mut_map mu) = hb_get (shard_ops D) (as_map ?a) ++ map_of (rev ?es)"
    "initial_len mu = hb_len (shard_ops D) (as_map ?a)" "life_opts l = life_opts (lifecycle m)"
    using insert_all_spec[of ?es n "shard_mutation_new (shard_ops D) (as_map ?a)" "lifecycle m"]
    by (auto simp: shard_mutation_new_def)
  have r': "route D (length (shards m)) k = i" if "k \<in> fst ` set ?es" for k
    using that r[of k] by (metis (no_types, lifting) image_iff prod.collapse)
  have "dom (hb_get (shard_ops D) (mut_map mu)) \<subseteq> dom (slot_get D (shards m ! i)) \<union> {k. route D (length (shards m)) k = i}"
    using ia(2) init_slot_get[of m i] r' by (auto simp: dom_map_of_conv_image_fst map_add_dom_app_simps dest!: map_of_SomeD)
  note c = commit_bucket[OF wf i ia(3) this ia(4)]
  have "fst ` set ?es - dom (hb_get (shard_ops D) (as_map ?a)) = fst ` set ?es - dom (view D m)"
  proof -
    have "k \<in> dom (hb_get (shard_ops D) (as_map ?a)) \<longleftrightarrow> k \<in> dom (view D m)" if "k \<in> fst ` set ?es" for k
      by (simp only: domIff va[OF r'[OF that]])
    then show ?thesis by blast
  qed
  moreover have "view D (commit D i ?a mu l (unlock i ?a m)) = view D m ++ map_of (rev ?es)"
  proof
    fix k
    have "map_of (rev ?es) k = None" if "route D (length (shards m)) k \<noteq> i"
      using that r' by (force simp: map_of_eq_None_iff)
    then show "view D (commit D i ?a mu l (unlock i ?a m)) k = (view D m ++ map_of (rev ?es)) k"
      using c(4)[of k] va[of k] ia(2) by (auto simp: map_add_def split: option.splits)
  qed
  ultimately show ?thesis
    using c(1-3) ia(1) get_or_init_eq[OF i] by (simp add: insert_bucket_def)
qed

lemma filter_index: "map snd (filter (\<lambda>x. fst x = i) (map (\<lambda>x. (f x, x)) xs)) = filter (\<lambda>x. f x = i) xs"
  by (induction xs) auto

lemma map_of_filter_key: "map_of (filter (\<lambda>e. P (fst e)) xs) k = (if P k then map_of xs k else None)"
  by (induction xs) auto

lemma op_post_step: "op_post D m (view D m1) m1 \<Longrightarrow> op_post D m1 (view D m2) m2 \<Longrightarrow> op_post D m (view D m2) m2"
  by (simp add: op_post_def)

lemma insert_steps:
  assumes wf: "wf_map D m"
    and step: "\<And>k v n m1. wf_map D m1 \<Longrightarrow> \<exists>m2. f (k, v) (n, m1) = Some (if view D m1 k = None then n + 1 else n, m2) \<and>
      op_post D m1 (view D m2) m2 \<and> view D m2 = (view D m1)(k \<mapsto> v)"
  shows "\<exists>m'. fold_option f es (0, m) = Some (card (fst ` set es - dom (view D m)), m') \<and>
    op_post D m (view D m ++ map_of (rev es)) m' \<and> view D m' = view D m ++ map_of (rev es)"
proof -
  let ?R = "\<lambda>ys (n, m'). n = card (fst ` set ys - dom (view D m)) \<and>
    op_post D m (view D m') m' \<and> view D m' = view D m ++ map_of (rev ys)"
  have "\<exists>s'. fold_option f es (0, m) = Some s' \<and> ?R es s'"
  proof (rule fold_option_rel[where R = ?R])
    show "?R [] (0, m)" using op_post_refl[OF wf] by simp
    fix ys and y :: "'k \<times> 'v" and zs s' assume R: "?R ys s'"
    obtain n m1 k v where s: "s' = (n, m1)" "y = (k, v)" by (cases s', cases y)
    have w: "wf_map D m1" using R s by (simp add: op_post_def)
    obtain m2 where ins: "f (k, v) (n, m1) = Some (if view D m1 k = None then n + 1 else n, m2)"
      and post: "op_post D m1 (view D m2) m2" "view D m2 = (view D m1)(k \<mapsto> v)"
      using step[OF w] by blast
    have "card (fst ` set (ys @ [y]) - dom (view D m)) =
        (if view D m1 k = None then 1 else 0) + card (fst ` set ys - dom (view D m))"
    proof -
      have none: "view D m1 k = None \<longleftrightarrow> k \<notin> fst ` set ys \<and> k \<notin> dom (view D m)"
        using R s by (auto simp: map_add_None map_of_eq_None_iff)
      have "fst ` set (ys @ [y]) - dom (view D m) =
          (if view D m1 k = None then {k} else {}) \<union> (fst ` set ys - dom (view D m))"
        using none s by auto
      then show ?thesis using none by (auto simp: card_insert_if)
    qed
    then show "\<exists>s''. f y s' = Some s'' \<and> ?R (ys @ [y]) s''"
      using R s ins post op_post_step[OF _ post(1)] by (auto simp del: fun_upd_apply)
  qed
  then show ?thesis by (auto simp: split_beta)
qed

lemma insert_step_ok:
  assumes "wf_map D m1"
  shows "\<exists>m2. insert_step D (k, v) (n, m1) = Some (if view D m1 k = None then n + 1 else n, m2) \<and>
    op_post D m1 (view D m2) m2 \<and> view D m2 = (view D m1)(k \<mapsto> v)"
proof -
  obtain m2 where "insert_inner D k v m1 = Some (view D m1 k, m2)"
    and c: "committed D m1 ((view D m1)(k \<mapsto> v)) (write_epoch m1 + 1) (insert_hook D k v (view D m1 k \<noteq> None) (lifecycle m1)) m2"
    using insert_inner_spec[OF assms] by blast
  then show ?thesis using op_post_committed[OF c] by (simp add: insert_step_def committed_def)
qed

lemmas insert_steps_spec = insert_steps[OF _ insert_step_ok]

lemma insert_buckets_spec:
  fixes es :: "('k \<times> 'v) list"
  assumes wf: "wf_map D m" and np: "prev_slots m = []"
  defines "ixs \<equiv> map (\<lambda>x. (route D (length (shards m)) (fst x), x)) es"
  shows "\<exists>m'. fold_option (insert_bucket D) (bucketize (bucket_order D) fst ixs) (0, m) =
      Some (card (fst ` set es - dom (view D m)), m') \<and>
    op_post D m (view D m ++ map_of (rev es)) m' \<and> view D m' = view D m ++ map_of (rev es)"
proof -
  let ?r = "route D (length (shards m))" and ?bs = "bucketize (bucket_order D) fst ixs"
  let ?V = "\<lambda>ys k. if ?r k \<in> fst ` set ys then (view D m ++ map_of (rev es)) k else view D m k"
  let ?R = "\<lambda>ys (n, m'). n = card {k \<in> fst ` set es - dom (view D m). ?r k \<in> fst ` set ys} \<and>
    op_post D m (view D m') m' \<and> prev_slots m' = [] \<and> length (shards m') = length (shards m) \<and> view D m' = ?V ys"
  have idx: "distinct (map fst ?bs)" "set (map fst ?bs) = fst ` set ixs" using bucketize_index[OF order_law, of fst ixs] by simp_all
  have "\<exists>s'. fold_option (insert_bucket D) ?bs (0, m) = Some s' \<and> ?R ?bs s'"
  proof (rule fold_option_rel[where R = ?R])
    show "?R [] (0, m)" using op_post_refl[OF wf] np by simp
    fix ys y zs s' assume split: "?bs = ys @ y # zs" and R: "?R ys s'"
    obtain n m1 i b where s: "s' = (n, m1)" "y = (i, b)" by (cases s', cases y)
    have new: "i \<notin> fst ` set ys" using idx(1) s by (auto simp: split)
    have b: "b = filter (\<lambda>x. fst x = i) ixs" using bucketize_elem[of i b "bucket_order D" fst ixs] split s by simp
    have es: "map snd b = filter (\<lambda>x. ?r (fst x) = i) es" unfolding b ixs_def by (rule filter_index)
    have i: "i < length (shards m)"
    proof -
      have "i \<in> fst ` set ixs" unfolding idx(2)[symmetric] split using s by simp
      then show ?thesis using route_less[OF wf_dirsD(1), of D m] wf by (auto simp: ixs_def wf_map_def)
    qed
    have v: "map_of (rev (map snd b)) k = (if ?r k = i then map_of (rev es) k else None)" for k
      unfolding es rev_filter by (rule map_of_filter_key)
    obtain m2 where st: "insert_bucket D (i, b) (n, m1) = Some (n + card (fst ` set (map snd b) - dom (view D m1)), m2)"
      "op_post D m1 (view D m2) m2" "prev_slots m2 = []" "length (shards m2) = length (shards m1)"
      "view D m2 = view D m1 ++ map_of (rev (map snd b))"
      using insert_bucket_spec[of m1 i b n] R s i es by (auto simp: op_post_def)
    have "op_post D m (view D m1) m1" using R unfolding s prod.case by blast
    note o2 = op_post_step[OF this st(2)]
    have vm2: "view D m2 = ?V (ys @ [y])"
      using st(5) R s v new by (auto simp: fun_eq_iff map_add_def split: option.splits)
    have "card {k \<in> fst ` set es - dom (view D m). ?r k \<in> fst ` set (ys @ [y])} =
        n + card (fst ` set (map snd b) - dom (view D m1))"
    proof -
      have "fst ` set (map snd b) - dom (view D m1) = {k \<in> fst ` set es - dom (view D m). ?r k = i}"
        using R s new unfolding es by (auto split: if_splits)
      moreover have "{k \<in> fst ` set es - dom (view D m). ?r k \<in> fst ` set (ys @ [y])} =
          {k \<in> fst ` set es - dom (view D m). ?r k \<in> fst ` set ys} \<union> {k \<in> fst ` set es - dom (view D m). ?r k = i}"
        using s by auto
      moreover have "{k \<in> fst ` set es - dom (view D m). ?r k \<in> fst ` set ys} \<inter>
          {k \<in> fst ` set es - dom (view D m). ?r k = i} = {}" using new by auto
      ultimately show ?thesis using R s by (simp add: card_Un_disjoint)
    qed
    then show "\<exists>s''. insert_bucket D y s' = Some s'' \<and> ?R (ys @ [y]) s''"
      using R s st(1,3,4) vm2 o2 by simp
  qed
  then obtain n m' where f: "fold_option (insert_bucket D) ?bs (0, m) = Some (n, m')" "?R ?bs (n, m')" by auto
  have all: "?r k \<in> fst ` set ?bs" if "k \<in> fst ` set es" for k
  proof -
    have "fst ` set ?bs = (\<lambda>x. ?r (fst x)) ` set es" using idx(2) by (simp add: ixs_def image_image)
    then show ?thesis using that by auto
  qed
  have "view D m' = view D m ++ map_of (rev es)"
  proof
    fix k
    have "map_of (rev es) k = None" if "?r k \<notin> fst ` set ?bs"
      using that all[of k] by (auto simp: map_of_eq_None_iff)
    then show "view D m' k = (view D m ++ map_of (rev es)) k"
      using f(2) by (auto simp: map_add_def)
  qed
  moreover have "op_post D m (view D m') m'" using f(2) unfolding prod.case by blast
  moreover have "{k \<in> fst ` set es - dom (view D m). ?r k \<in> fst ` set ?bs} = fst ` set es - dom (view D m)"
    using all by auto
  ultimately show ?thesis using f by simp
qed

lemma batch_insert_post:
  assumes wf: "wf_map D m"
  shows "\<exists>m'. batch_insert D es m = Some (card (fst ` set es - dom (view D m)), m') \<and>
    op_post D m (view D m ++ map_of (rev es)) m'"
proof -
  have wd: "wf_dirs D m" using wf by (simp add: wf_map_def)
  have "\<exists>m1. (if previous_shard_count m \<noteq> 0 then fold_option (insert_step D) es (0, m)
        else do { ixs \<leftarrow> indexed D m fst es;
                  fold_option (insert_bucket D) (bucketize (bucket_order D) fst ixs) (0, m) }) =
      Some (card (fst ` set es - dom (view D m)), m1) \<and>
    op_post D m (view D m ++ map_of (rev es)) m1 \<and> view D m1 = view D m ++ map_of (rev es)"
    using insert_steps_spec[OF wf, of es] insert_buckets_spec[OF wf, of es] wf_dirsD(4)[OF wd]
    by (simp add: indexed_wf[OF wd])
  then show ?thesis using enforce_post unfolding batch_insert_def by fastforce
qed

section \<open>batch_remove\<close>

lemma remove_bucket_spec:
  assumes wf: "wf_map D m" "prev_slots m = []" and i: "i < length (shards m)"
    and r: "\<And>k. k \<in> set (map snd ks) \<Longrightarrow> route D (length (shards m)) k = i"
  shows "\<exists>m'. remove_bucket D (i, ks) (n, m) = Some (n + card (set (map snd ks) \<inter> dom (view D m)), m') \<and>
    op_post D m (view D m') m' \<and> prev_slots m' = [] \<and> length (shards m') = length (shards m) \<and>
    view D m' = view D m |` (- set (map snd ks))"
proof -
  let ?ks = "map snd ks"
  have va: "view D m k = slot_get D (shards m ! i) k" if "route D (length (shards m)) k = i" for k
    using that wf(2) slots_get_at[OF i that] by (simp add: view_def map_add_def split: option.splits)
  have skip: ?thesis if none: "\<And>k. k \<in> set ?ks \<Longrightarrow> view D m k = None"
    and eq: "remove_bucket D (i, ks) (n, m) = Some (n, m)"
  proof -
    have 1: "set ?ks \<inter> dom (view D m) = {}"
    proof (rule equals0I)
      fix k assume "k \<in> set ?ks \<inter> dom (view D m)"
      then show False using none[of k] by auto
    qed
    have 2: "view D m |` (- set ?ks) = view D m" using none by (fastforce simp: restrict_map_def fun_eq_iff)
    show ?thesis unfolding 1 2 using eq op_post_refl[OF wf(1)] wf(2) by simp
  qed
  show ?thesis
  proof (cases "shards m ! i")
    case None
    then show ?thesis using skip va r i by (simp add: remove_bucket_def)
  next
    case (Some sd)
    have a: "init_slot D m i = sd" using Some by (simp add: init_slot_def)
    show ?thesis
    proof (cases "snapshot_mode m = Cow \<and> \<not> list_ex (\<lambda>(_, k). hb_get (shard_ops D) (as_map sd) k \<noteq> None) ks")
      case True
      then have "view D m k = None" if "k \<in> set ?ks" for k
        using that va[OF r[OF that]] Some by (auto simp: list_ex_iff)
      then show ?thesis using skip True Some i by (simp add: remove_bucket_def)
    next
      case False
      obtain mu l where ra: "remove_all D ?ks (n, shard_mutation_new (shard_ops D) (as_map sd), lifecycle m) =
          (n + card (set ?ks \<inter> dom (hb_get (shard_ops D) (as_map sd))), mu, l)"
        "hb_get (shard_ops D) (mut_map mu) = hb_get (shard_ops D) (as_map sd) |` (- set ?ks)"
        "initial_len mu = hb_len (shard_ops D) (as_map sd)" "life_opts l = life_opts (lifecycle m)"
        using remove_all_spec[of ?ks n "shard_mutation_new (shard_ops D) (as_map sd)" "lifecycle m"]
        by (auto simp: shard_mutation_new_def)
      have "dom (hb_get (shard_ops D) (mut_map mu)) \<subseteq> dom (slot_get D (shards m ! i)) \<union> {k. route D (length (shards m)) k = i}"
        using ra(2) Some by auto
      note c = commit_bucket[OF wf i _ this ra(4), unfolded a unlock_same[OF Some], OF ra(3)]
      have "set ?ks \<inter> dom (hb_get (shard_ops D) (as_map sd)) = set ?ks \<inter> dom (view D m)"
      proof -
        have "k \<in> dom (hb_get (shard_ops D) (as_map sd)) \<longleftrightarrow> k \<in> dom (view D m)" if "k \<in> set ?ks" for k
          using va[OF r[OF that]] Some by (simp add: domIff)
        then show ?thesis by blast
      qed
      moreover have "view D (commit D i sd mu l m) = view D m |` (- set ?ks)"
        using c(4) va Some ra(2) r by (auto simp: fun_eq_iff restrict_map_def)
      ultimately show ?thesis
        using c(1-3) ra(1) Some False i by (auto simp: remove_bucket_def)
    qed
  qed
qed

lemma remove_steps:
  assumes wf: "wf_map D m"
    and step: "\<And>k n m1. wf_map D m1 \<Longrightarrow> \<exists>m2. f k (n, m1) = Some (if view D m1 k \<noteq> None then n + 1 else n, m2) \<and>
      op_post D m1 (view D m2) m2 \<and> view D m2 = (view D m1)(k := None)"
  shows "\<exists>m'. fold_option f ks (0, m) = Some (card (set ks \<inter> dom (view D m)), m') \<and>
    op_post D m (view D m |` (- set ks)) m' \<and> view D m' = view D m |` (- set ks)"
proof -
  let ?R = "\<lambda>ys (n, m'). n = card (set ys \<inter> dom (view D m)) \<and>
    op_post D m (view D m') m' \<and> view D m' = view D m |` (- set ys)"
  have "\<exists>s'. fold_option f ks (0, m) = Some s' \<and> ?R ks s'"
  proof (rule fold_option_rel[where R = ?R])
    show "?R [] (0, m)" using op_post_refl[OF wf] by (simp add: restrict_map_def)
    fix ys and k :: 'k and zs s' assume R: "?R ys s'"
    obtain n m1 where s: "s' = (n, m1)" by (cases s')
    have w: "wf_map D m1" using R s by (simp add: op_post_def)
    obtain m2 where rm: "f k (n, m1) = Some (if view D m1 k \<noteq> None then n + 1 else n, m2)"
      and post: "op_post D m1 (view D m2) m2" "view D m2 = (view D m1)(k := None)"
      using step[OF w] by blast
    have "card (set (ys @ [k]) \<inter> dom (view D m)) = (if view D m1 k \<noteq> None then 1 else 0) + card (set ys \<inter> dom (view D m))"
    proof -
      have none: "view D m1 k \<noteq> None \<longleftrightarrow> k \<notin> set ys \<and> k \<in> dom (view D m)"
        using R s by (auto simp: restrict_map_def)
      have "set (ys @ [k]) \<inter> dom (view D m) = (if view D m1 k \<noteq> None then {k} else {}) \<union> (set ys \<inter> dom (view D m))"
        using none by auto
      then show ?thesis using none by (auto simp: card_insert_if)
    qed
    moreover have "view D m2 = view D m |` (- set (ys @ [k]))"
      using post(2) R s by (auto simp: restrict_map_def)
    ultimately show "\<exists>s''. f k s' = Some s'' \<and> ?R (ys @ [k]) s''"
      using R s rm post(1) op_post_step[OF _ post(1), of m] by (cases "view D m1 k") auto
  qed
  then show ?thesis by (auto simp: split_beta)
qed

lemma remove_step_ok:
  assumes "wf_map D m1"
  shows "\<exists>m2. remove_step D k (n, m1) = Some (if view D m1 k \<noteq> None then n + 1 else n, m2) \<and>
    op_post D m1 (view D m2) m2 \<and> view D m2 = (view D m1)(k := None)"
proof -
  obtain m2 l where "remove_inner D k m1 = Some (view D m1 k, m2)"
    and c: "committed D m1 ((view D m1)(k := None)) (if view D m1 k = None then write_epoch m1 else write_epoch m1 + 1) l m2"
    and l: "l = remove_hook D k (view D m1 k \<noteq> None) (lifecycle m1) \<or> view D m1 k = None \<and> l = lifecycle m1"
    using remove_inner_spec[OF assms] by blast
  moreover have "op_post D m1 (view D m2) m2" using op_post_committed[OF c] c l by (auto simp: committed_def)
  ultimately show ?thesis by (simp add: remove_step_def committed_def)
qed

lemmas remove_steps_spec = remove_steps[OF _ remove_step_ok]

lemma remove_buckets_spec:
  fixes ks :: "'k list"
  assumes wf: "wf_map D m" and np: "prev_slots m = []"
  defines "ixs \<equiv> map (\<lambda>x. (route D (length (shards m)) x, x)) ks"
  shows "\<exists>m'. fold_option (remove_bucket D) (bucketize (bucket_order D) fst ixs) (0, m) =
      Some (card (set ks \<inter> dom (view D m)), m') \<and>
    op_post D m (view D m |` (- set ks)) m' \<and> view D m' = view D m |` (- set ks)"
proof -
  let ?r = "route D (length (shards m))" and ?bs = "bucketize (bucket_order D) fst ixs"
  let ?K = "\<lambda>ys. {k \<in> set ks. ?r k \<in> fst ` set ys}"
  let ?R = "\<lambda>ys (n, m'). n = card (?K ys \<inter> dom (view D m)) \<and>
    op_post D m (view D m') m' \<and> prev_slots m' = [] \<and> length (shards m') = length (shards m) \<and>
    view D m' = view D m |` (- ?K ys)"
  have idx: "distinct (map fst ?bs)" "set (map fst ?bs) = fst ` set ixs"
    using bucketize_index[OF order_law, of fst ixs] by simp_all
  have "\<exists>s'. fold_option (remove_bucket D) ?bs (0, m) = Some s' \<and> ?R ?bs s'"
  proof (rule fold_option_rel[where R = ?R])
    show "?R [] (0, m)" using op_post_refl[OF wf] np by (simp add: restrict_map_def)
    fix ys y zs s' assume split: "?bs = ys @ y # zs" and R: "?R ys s'"
    obtain n m1 i b where s: "s' = (n, m1)" "y = (i, b)" by (cases s', cases y)
    have new: "i \<notin> fst ` set ys" using idx(1) s by (auto simp: split)
    have b: "b = filter (\<lambda>x. fst x = i) ixs" using bucketize_elem[of i b "bucket_order D" fst ixs] split s by simp
    have kb: "map snd b = filter (\<lambda>x. ?r x = i) ks" unfolding b ixs_def by (rule filter_index)
    have i: "i < length (shards m)"
    proof -
      have "i \<in> fst ` set ixs" unfolding idx(2)[symmetric] split using s by simp
      then show ?thesis using route_less[OF wf_dirsD(1), of D m] wf by (auto simp: ixs_def wf_map_def)
    qed
    obtain m2 where st: "remove_bucket D (i, b) (n, m1) = Some (n + card (set (map snd b) \<inter> dom (view D m1)), m2)"
      "op_post D m1 (view D m2) m2" "prev_slots m2 = []" "length (shards m2) = length (shards m1)"
      "view D m2 = view D m1 |` (- set (map snd b))"
      using remove_bucket_spec[of m1 i b n] R s i kb by (auto simp: op_post_def)
    have K: "?K (ys @ [y]) = ?K ys \<union> set (map snd b)" using s by (auto simp: kb)
    have "op_post D m (view D m1) m1" using R unfolding s prod.case by blast
    note o2 = op_post_step[OF this st(2)]
    have vm2: "view D m2 = view D m |` (- ?K (ys @ [y]))"
      unfolding K st(5) using R s by (simp add: Int_commute)
    have dj: "?K ys \<inter> set (map snd b) = {}" using new by (auto simp: kb)
    have "card (?K (ys @ [y]) \<inter> dom (view D m)) = n + card (set (map snd b) \<inter> dom (view D m1))"
    proof -
      have "set (map snd b) \<inter> dom (view D m1) = set (map snd b) \<inter> dom (view D m)"
        using R s dj by auto
      moreover have "?K (ys @ [y]) \<inter> dom (view D m) = (?K ys \<inter> dom (view D m)) \<union> (set (map snd b) \<inter> dom (view D m))"
        unfolding K by blast
      moreover have "card ((?K ys \<inter> dom (view D m)) \<union> (set (map snd b) \<inter> dom (view D m))) =
          card (?K ys \<inter> dom (view D m)) + card (set (map snd b) \<inter> dom (view D m))"
        using dj by (intro card_Un_disjoint) auto
      ultimately show ?thesis using R s by simp
    qed
    then show "\<exists>s''. remove_bucket D y s' = Some s'' \<and> ?R (ys @ [y]) s''"
      using R s st(1,3,4) vm2 o2 by simp
  qed
  then obtain n m' where f: "fold_option (remove_bucket D) ?bs (0, m) = Some (n, m')" "?R ?bs (n, m')" by auto
  have "fst ` set ?bs = ?r ` set ks" using idx(2) by (simp add: ixs_def image_image)
  then have "?K ?bs = set ks" by auto
  moreover have "op_post D m (view D m') m'" using f(2) unfolding prod.case by blast
  ultimately show ?thesis using f by simp
qed

lemma batch_remove_post:
  assumes wf: "wf_map D m"
  shows "\<exists>m'. batch_remove D ks m = Some (card (set ks \<inter> dom (view D m)), m') \<and> op_post D m (view D m |` (- set ks)) m'"
proof -
  have wd: "wf_dirs D m" using wf by (simp add: wf_map_def)
  have "\<exists>m1. (if previous_shard_count m \<noteq> 0 then fold_option (remove_step D) ks (0, m)
        else do { ixs \<leftarrow> indexed D m id ks;
                  fold_option (remove_bucket D) (bucketize (bucket_order D) fst ixs) (0, m) }) =
      Some (card (set ks \<inter> dom (view D m)), m1) \<and>
    op_post D m (view D m |` (- set ks)) m1 \<and> view D m1 = view D m |` (- set ks)"
    using remove_steps_spec[OF wf, of ks] remove_buckets_spec[OF wf, of ks] wf_dirsD(4)[OF wd]
    by (simp add: indexed_wf[OF wd])
  then show ?thesis using enforce_post unfolding batch_remove_def by fastforce
qed

section \<open>batch_get\<close>

text \<open>A read changes nothing but counters and access stamps.\<close>

definition read_only :: "('k, 'v, 'm, 'b) sharded_map \<Rightarrow> ('k, 'v, 'm, 'b) sharded_map \<Rightarrow> bool" where
  "read_only m m' \<longleftrightarrow> (\<exists>l. m' = m\<lparr>lifecycle := l\<rparr> \<and> life_opts l = life_opts (lifecycle m))"

lemma read_only_refl: "read_only m m"
  by (auto simp: read_only_def intro: exI[of _ "lifecycle m"])

lemma read_only_step: "read_only m m' \<Longrightarrow> read_only m (tracked_read D k x m')"
  by (auto simp: read_only_def tracked_read_def)

lemma read_only_facts:
  "read_only m m' \<Longrightarrow> view D m' = view D m \<and> wf_map D m' = wf_map D m \<and> wf_dirs D m' = wf_dirs D m \<and>
     write_epoch m' = write_epoch m \<and> shards m' = shards m \<and> previous_shard_count m' = previous_shard_count m"
  by (auto simp: read_only_def)

lemma get_all_spec:
  assumes "read_only m m1" "distinct (map fst ks)"
    "\<forall>(pos, k) \<in> set ks. pos < length res \<and> res ! pos = None"
  shows "\<exists>res' m2. get_all D slot ks (res, m1) = (res', m2) \<and> read_only m m2 \<and> length res' = length res \<and>
    (\<forall>(pos, k) \<in> set ks. res' ! pos = slot_get D slot k) \<and> (\<forall>pos. pos \<notin> fst ` set ks \<longrightarrow> res' ! pos = res ! pos)"
  using assms
proof (induction ks arbitrary: res m1)
  case (Cons x ks)
  obtain pos k where x: "x = (pos, k)" by (cases x)
  let ?res = "res[pos := slot_get D slot k]"
  have pos: "pos < length res" "res ! pos = None" "pos \<notin> fst ` set ks" using Cons.prems(2,3) x by auto
  have step: "get_all D slot (x # ks) (res, m1) = get_all D slot ks (?res, tracked_read D k (slot_get D slot k) m1)"
    using pos list_update_id[of res pos] by (cases slot) (simp_all add: x Let_def)
  have rest: "p \<noteq> pos" if "(p, k') \<in> set ks" for p k' using that pos(3) by (metis fst_conv image_eqI)
  have "\<forall>(p, k') \<in> set ks. p < length ?res \<and> ?res ! p = None"
  proof clarify
    fix p k' assume "(p, k') \<in> set ks"
    then show "p < length ?res \<and> ?res ! p = None" using Cons.prems(3) rest[of p k'] by auto
  qed
  then obtain res' m2 where r: "get_all D slot ks (?res, tracked_read D k (slot_get D slot k) m1) = (res', m2)"
    "read_only m m2" "length res' = length ?res" "\<forall>(p, k') \<in> set ks. res' ! p = slot_get D slot k'"
    "\<forall>p. p \<notin> fst ` set ks \<longrightarrow> res' ! p = ?res ! p"
    using Cons.IH[of "tracked_read D k (slot_get D slot k) m1" ?res] read_only_step[OF Cons.prems(1)] Cons.prems(2) by auto
  have "res' ! pos = slot_get D slot k" using r(5) pos by simp
  moreover have "\<forall>p. p \<notin> fst ` set (x # ks) \<longrightarrow> res' ! p = res ! p" using r(5) x by simp
  ultimately show ?case using r(2-4) by (simp add: step r(1)) (simp add: x)
qed (use read_only_refl in auto)

lemma get_buckets_spec:
  fixes ks :: "'k list"
  assumes wf: "wf_map D m" and np: "prev_slots m = []"
  defines "ixs \<equiv> map (\<lambda>x. (route D (length (shards m)) (snd x), x)) (enumerate 0 ks)"
  shows "\<exists>m'. fold_option (get_bucket D) (bucketize (bucket_order D) fst ixs) (replicate (length ks) None, m) =
      Some (map (view D m) ks, m') \<and> read_only m m'"
proof -
  let ?r = "route D (length (shards m))" and ?bs = "bucketize (bucket_order D) fst ixs"
  let ?R = "\<lambda>ys (res, m'). read_only m m' \<and> length res = length ks \<and>
    (\<forall>p < length ks. res ! p = (if ?r (ks ! p) \<in> fst ` set ys then view D m (ks ! p) else None))"
  have idx: "distinct (map fst ?bs)" "set (map fst ?bs) = fst ` set ixs"
    using bucketize_index[OF order_law, of fst ixs] by simp_all
  have wd: "wf_dirs D m" using wf by (simp add: wf_map_def)
  have "\<exists>s'. fold_option (get_bucket D) ?bs (replicate (length ks) None, m) = Some s' \<and> ?R ?bs s'"
  proof (rule fold_option_rel[where R = ?R])
    show "?R [] (replicate (length ks) None, m)" using read_only_refl by simp
    fix ys y zs s' assume split: "?bs = ys @ y # zs" and R: "?R ys s'"
    obtain res m1 i b where s: "s' = (res, m1)" "y = (i, b)" by (cases s', cases y)
    have new: "i \<notin> fst ` set ys" using idx(1) s by (auto simp: split)
    have b: "b = filter (\<lambda>x. fst x = i) ixs" using bucketize_elem[of i b "bucket_order D" fst ixs] split s by simp
    have kb: "map snd b = filter (\<lambda>x. ?r (snd x) = i) (enumerate 0 ks)" unfolding b ixs_def by (rule filter_index)
    have i: "i < length (shards m)"
    proof -
      have "i \<in> fst ` set ixs" unfolding idx(2)[symmetric] split using s by simp
      then show ?thesis using route_less[OF wf_dirsD(1)[OF wd], of D] by (auto simp: ixs_def)
    qed
    have mem: "(p, k) \<in> set (map snd b) \<longleftrightarrow> p < length ks \<and> k = ks ! p \<and> ?r k = i" for p k
      unfolding kb by (auto simp: in_set_enumerate_eq)
    have pre: "\<forall>(p, k) \<in> set (map snd b). p < length res \<and> res ! p = None"
    proof clarify
      fix p k assume "(p, k) \<in> set (map snd b)"
      then have "p < length ks \<and> k = ks ! p \<and> ?r k = i" unfolding mem .
      then show "p < length res \<and> res ! p = None" using R s new by auto
    qed
    have sh: "shards m1 = shards m" using R s read_only_facts[of m m1] by simp
    have dist: "distinct (map fst (map snd b))" unfolding kb by (simp add: distinct_map_filter)
    have ro: "read_only m m1" using R s by simp
    obtain res' m2 where g: "get_all D (shards m ! i) (map snd b) (res, m1) = (res', m2)" "read_only m m2"
      "length res' = length res" "\<forall>(p, k) \<in> set (map snd b). res' ! p = slot_get D (shards m ! i) k"
      "\<forall>p. p \<notin> fst ` set (map snd b) \<longrightarrow> res' ! p = res ! p"
      using get_all_spec[OF ro dist pre, of "shards m ! i"] by blast
    have "res' ! p = (if ?r (ks ! p) \<in> fst ` set (ys @ [y]) then view D m (ks ! p) else None)" if "p < length ks" for p
    proof (cases "?r (ks ! p) = i")
      case True
      then have "res' ! p = slot_get D (shards m ! i) (ks ! p)" using g(4) mem[of p "ks ! p"] that by auto
      also have "\<dots> = view D m (ks ! p)"
        using np slots_get_at[OF i True] by (simp add: view_def map_add_def split: option.splits)
      finally show ?thesis using True s by simp
    next
      case False
      then have "p \<notin> fst ` set (map snd b)" using mem by force
      then show ?thesis using g(5) R s False that by simp
    qed
    then show "\<exists>s''. get_bucket D y s' = Some s'' \<and> ?R (ys @ [y]) s''"
      using g(1-3) R s i sh by (simp add: get_bucket_def)
  qed
  then obtain res m' where f: "fold_option (get_bucket D) ?bs (replicate (length ks) None, m) = Some (res, m')"
    "?R ?bs (res, m')" by auto
  have "?r (ks ! p) \<in> fst ` set ?bs" if "p < length ks" for p
  proof -
    have "(p, ks ! p) \<in> set (enumerate 0 ks)" using that by (simp add: in_set_enumerate_eq)
    then have "?r (ks ! p) \<in> fst ` set ixs" by (force simp: ixs_def)
    then show ?thesis using idx(2) by simp
  qed
  then have "res = map (view D m) ks" using f(2) by (intro nth_equalityI) auto
  then show ?thesis using f by simp
qed

lemma get_steps:
  assumes wf: "wf_map D m"
    and step: "\<And>k p res m1. wf_dirs D m1 \<Longrightarrow> f (p, k) (res, m1) = Some (res[p := view D m1 k], tracked_read D k (view D m1 k) m1)"
  shows "\<exists>m'. fold_option f (enumerate 0 ks) (replicate (length ks) None, m) = Some (map (view D m) ks, m') \<and> read_only m m'"
proof -
  let ?R = "\<lambda>ys (res, m'). read_only m m' \<and> length res = length ks \<and>
    (\<forall>p < length ks. res ! p = (if p < length ys then view D m (ks ! p) else None))"
  have wd: "wf_dirs D m" using wf by (simp add: wf_map_def)
  have "\<exists>s'. fold_option f (enumerate 0 ks) (replicate (length ks) None, m) = Some s' \<and> ?R (enumerate 0 ks) s'"
  proof (rule fold_option_rel[where R = ?R])
    show "?R [] (replicate (length ks) None, m)" using read_only_refl by simp
    fix ys y zs s' assume split: "enumerate 0 ks = ys @ y # zs" and R: "?R ys s'"
    obtain res m1 where s: "s' = (res, m1)" by (cases s')
    have len: "length ys < length ks" using arg_cong[OF split, of length] by simp
    have "y = enumerate 0 ks ! length ys" unfolding split by simp
    then have y: "y = (length ys, ks ! length ys)" using len by (simp add: nth_enumerate_eq)
    have ro: "read_only m m1" using R s by simp
    note rf = read_only_facts[OF ro]
    have "f y s' = Some (res[length ys := view D m (ks ! length ys)],
        tracked_read D (ks ! length ys) (view D m (ks ! length ys)) m1)"
      using step[of m1 "length ys" "ks ! length ys" res] rf wd by (simp add: s y)
    then show "\<exists>s''. f y s' = Some s'' \<and> ?R (ys @ [y]) s''"
      using R s len read_only_step[OF ro] by (auto simp: nth_list_update)
  qed
  then obtain res m' where f: "fold_option f (enumerate 0 ks) (replicate (length ks) None, m) = Some (res, m')"
    "?R (enumerate 0 ks) (res, m')" by auto
  then have "res = map (view D m) ks" by (intro nth_equalityI) auto
  then show ?thesis using f by simp
qed

lemma get_step_ok:
  "wf_dirs D m1 \<Longrightarrow> get_step D (p, k) (res, m1) = Some (res[p := view D m1 k], tracked_read D k (view D m1 k) m1)"
  using read_inner_eq[of m1 k] by (simp add: get_step_def)

lemmas get_steps_spec = get_steps[OF _ get_step_ok]

lemma batch_get_post:
  assumes wf: "wf_map D m"
  shows "\<exists>m'. batch_get D ks m = Some (map (view D m) ks, m') \<and> op_post D m (view D m) m' \<and>
    view D m' = view D m \<and> write_epoch m' = write_epoch m"
proof -
  have wd: "wf_dirs D m" using wf by (simp add: wf_map_def)
  have "\<exists>m'. batch_get D ks m = Some (map (view D m) ks, m') \<and> read_only m m'"
    using get_steps_spec[OF wf, of ks] get_buckets_spec[OF wf, of ks] wf_dirsD(4)[OF wd]
    by (cases "prev_slots m = []") (simp_all add: batch_get_def indexed_wf[OF wd] Let_def)
  then show ?thesis using wf by (auto simp: read_only_def op_post_def)
qed

end

end
