(* ===== verification/Sync_Whole.thy ===== *)
theory Sync_Whole
  imports Sync_Batch
begin

text \<open>
  Correctness of the operations that walk every shard of both generations (\<open>retain\<close>, \<open>clear\<close>, \<open>drain\<close>)
  and of transactions.
\<close>

section \<open>A loop over all shards\<close>

text \<open>One iteration takes out of its shard exactly the entries that do not satisfy \<open>p\<close>.\<close>

definition sheds ::
  "('k, 'v, 'm, 'b) deps \<Rightarrow> ('k \<Rightarrow> 'v \<Rightarrow> bool) \<Rightarrow>
   ('m shard_data \<Rightarrow> ('k \<times> 'v) list \<Rightarrow> ('k, 'v, 'm, 'b) sharded_map \<Rightarrow>
     'm shard_data \<times> ('k \<times> 'v) list \<times> ('k, 'v, 'm, 'b) sharded_map) \<Rightarrow> bool" where
  "sheds D p f \<longleftrightarrow> (\<forall>sd acc m. \<exists>g out e l.
     f sd acc m = (deref_mut_set sd g, acc @ out,
       m\<lparr>total_len := total_len m - of_nat (length out), write_epoch := e, lifecycle := l\<rparr>) \<and>
     life_opts l = life_opts (lifecycle m) \<and> distinct (map fst out) \<and>
     (\<forall>k v. (k, v) \<in> set out \<longleftrightarrow> hb_get (shard_ops D) (as_map sd) k = Some v \<and> \<not> p k v) \<and>
     (\<forall>k v. hb_get (shard_ops D) g k = Some v \<longleftrightarrow> hb_get (shard_ops D) (as_map sd) k = Some v \<and> p k v) \<and>
     hb_len (shard_ops D) g + length out = hb_len (shard_ops D) (as_map sd))"

definition clean :: "('k, 'v, 'm, 'b) deps \<Rightarrow> ('k \<Rightarrow> 'v \<Rightarrow> bool) \<Rightarrow> 'm shard_data option \<Rightarrow> bool" where
  "clean D p slot \<longleftrightarrow> (\<forall>k v. slot_get D slot k = Some v \<longrightarrow> p k v)"

lemma sheds_step:
  "sheds D p f \<Longrightarrow> \<exists>g out e l.
     f sd acc m = (deref_mut_set sd g, acc @ out,
       m\<lparr>total_len := total_len m - of_nat (length out), write_epoch := e, lifecycle := l\<rparr>) \<and>
     life_opts l = life_opts (lifecycle m) \<and> distinct (map fst out) \<and>
     (\<forall>k v. (k, v) \<in> set out \<longleftrightarrow> hb_get (shard_ops D) (as_map sd) k = Some v \<and> \<not> p k v) \<and>
     (\<forall>k v. hb_get (shard_ops D) g k = Some v \<longleftrightarrow> hb_get (shard_ops D) (as_map sd) k = Some v \<and> p k v) \<and>
     hb_len (shard_ops D) g + length out = hb_len (shard_ops D) (as_map sd)"
  unfolding sheds_def by (elim allE)

lemma set_previous_slot_upd [simp]:
  "set_previous_slot j s (m\<lparr>total_len := n\<rparr>) = (set_previous_slot j s m)\<lparr>total_len := n\<rparr>"
  "set_previous_slot j s (m\<lparr>write_epoch := e\<rparr>) = (set_previous_slot j s m)\<lparr>write_epoch := e\<rparr>"
  "set_previous_slot j s (m\<lparr>lifecycle := l\<rparr>) = (set_previous_slot j s m)\<lparr>lifecycle := l\<rparr>"
  by (simp_all add: set_previous_slot_def)

context starshard_deps
begin

text \<open>Both directories lose entries the same way; \<open>m1\<close> is the map with one slot replaced.\<close>

lemma shed_slot:
  assumes wf: "wf_map D m" and wd: "wf_dirs D m1" and sm: "same_meta m m1" "total_len m1 = total_len m"
    and vw: "\<And>k. view D m1 k = (if hb_get (shard_ops D) (as_map sd) k \<noteq> None then hb_get (shard_ops D) g k else view D m k)"
    and st: "stored_len D m1 + hb_len (shard_ops D) (as_map sd) = stored_len D m + hb_len (shard_ops D) g"
    and mem: "\<And>k v. hb_get (shard_ops D) (as_map sd) k = Some v \<Longrightarrow> view D m k = Some v"
    and out: "distinct (map fst out)" "\<And>k v. (k, v) \<in> set out \<longleftrightarrow> hb_get (shard_ops D) (as_map sd) k = Some v \<and> \<not> p k v"
    and g: "\<And>k v. hb_get (shard_ops D) g k = Some v \<longleftrightarrow> hb_get (shard_ops D) (as_map sd) k = Some v \<and> p k v"
    and n: "hb_len (shard_ops D) g + length out = hb_len (shard_ops D) (as_map sd)"
    and l: "life_opts l = life_opts (lifecycle m)"
  shows "shrunk D out m (m1\<lparr>total_len := total_len m - of_nat (length out), write_epoch := e, lifecycle := l\<rparr>)"
proof -
  have "stored_len D m = stored_len D m1 + length out" using st n by simp
  then have "total_len m - of_nat (length out) = of_nat (stored_len D m1)" using wf by (simp add: wf_map_def)
  moreover have "view D m1 = view D m |` (- fst ` set out)"
  proof
    fix k
    have "k \<in> fst ` set out \<longleftrightarrow> (\<exists>v. hb_get (shard_ops D) (as_map sd) k = Some v \<and> \<not> p k v)"
    proof -
      have "k \<in> fst ` set out \<longleftrightarrow> (\<exists>v. (k, v) \<in> set out)" by force
      then show ?thesis by (simp add: out(2))
    qed
    moreover have "hb_get (shard_ops D) g k = (if p k w then Some w else None)"
      if "hb_get (shard_ops D) (as_map sd) k = Some w" for w
    proof (cases "hb_get (shard_ops D) g k")
      case None
      then show ?thesis using g[of k w] that by auto
    next
      case (Some x)
      then show ?thesis using g[of k x] that by simp
    qed
    ultimately show "view D m1 k = (view D m |` (- fst ` set out)) k"
      using vw[of k] mem[of k] by (cases "hb_get (shard_ops D) (as_map sd) k") (simp_all add: restrict_map_def)
  qed
  moreover have "\<forall>(k, v) \<in> set out. view D m k = Some v" using mem out(2) by auto
  ultimately show ?thesis
    using wd sm out(1) l by (simp add: shrunk_def wf_map_def same_meta_def)
qed

lemma sheds_le:
  "(\<And>k v. hb_get (shard_ops D) g k = Some v \<longleftrightarrow> hb_get (shard_ops D) (as_map sd) k = Some v \<and> p k v) \<Longrightarrow>
   hb_get (shard_ops D) g \<subseteq>\<^sub>m hb_get (shard_ops D) (as_map sd)"
  by (auto simp: map_le_def)

lemma for_active_spec:
  assumes f: "sheds D p f" and wf: "wf_map D m" and i: "i < length (shards m)"
  shows "\<exists>out m'. for_active f i (acc, m) = (acc @ out, m') \<and> shrunk D out m m' \<and> (\<forall>(k, v) \<in> set out. \<not> p k v) \<and>
    clean D p (shards m' ! i) \<and> (\<forall>j. j \<noteq> i \<longrightarrow> shards m' ! j = shards m ! j) \<and> prev_slots m' = prev_slots m"
proof (cases "shards m ! i")
  case None
  then show ?thesis using shrunk_refl[OF wf] by (simp add: for_active_def clean_def)
next
  case (Some sd)
  obtain g out e l where s: "f sd acc m = (deref_mut_set sd g, acc @ out,
       m\<lparr>total_len := total_len m - of_nat (length out), write_epoch := e, lifecycle := l\<rparr>)"
    "life_opts l = life_opts (lifecycle m)" "distinct (map fst out)"
    "\<forall>k v. (k, v) \<in> set out \<longleftrightarrow> hb_get (shard_ops D) (as_map sd) k = Some v \<and> \<not> p k v"
    "\<forall>k v. hb_get (shard_ops D) g k = Some v \<longleftrightarrow> hb_get (shard_ops D) (as_map sd) k = Some v \<and> p k v"
    "hb_len (shard_ops D) g + length out = hb_len (shard_ops D) (as_map sd)"
    using sheds_step[OF f, of sd acc m] by blast
  let ?m1 = "unlock i (deref_mut_set sd g) m"
  have wd: "wf_dirs D m" using wf by (simp add: wf_map_def)
  note sh = shrink_active[OF wd i Some sheds_le[OF s(5)[rule_format]]]
  have "shrunk D out m (?m1\<lparr>total_len := total_len m - of_nat (length out), write_epoch := e, lifecycle := l\<rparr>)"
    by (rule shed_slot[OF wf sh(1) same_meta_unlock _ sh(2,3,4) s(3) s(4,5)[rule_format] s(6,2)]) simp
  then show ?thesis using Some s(1,4,5) i
    by (auto simp: for_active_def clean_def)
qed

lemma for_previous_spec:
  assumes f: "sheds D p f" and wf: "wf_map D m" and i: "i < length (prev_slots m)"
  shows "\<exists>out m'. for_previous f i (acc, m) = (acc @ out, m') \<and> shrunk D out m m' \<and> (\<forall>(k, v) \<in> set out. \<not> p k v) \<and>
    clean D p (prev_slots m' ! i) \<and> (\<forall>j. j \<noteq> i \<longrightarrow> prev_slots m' ! j = prev_slots m ! j) \<and> shards m' = shards m"
proof (cases "prev_slots m ! i")
  case None
  then show ?thesis using shrunk_refl[OF wf] by (simp add: for_previous_def clean_def)
next
  case (Some sd)
  obtain g out e l where s: "f sd acc m = (deref_mut_set sd g, acc @ out,
       m\<lparr>total_len := total_len m - of_nat (length out), write_epoch := e, lifecycle := l\<rparr>)"
    "life_opts l = life_opts (lifecycle m)" "distinct (map fst out)"
    "\<forall>k v. (k, v) \<in> set out \<longleftrightarrow> hb_get (shard_ops D) (as_map sd) k = Some v \<and> \<not> p k v"
    "\<forall>k v. hb_get (shard_ops D) g k = Some v \<longleftrightarrow> hb_get (shard_ops D) (as_map sd) k = Some v \<and> p k v"
    "hb_len (shard_ops D) g + length out = hb_len (shard_ops D) (as_map sd)"
    using sheds_step[OF f, of sd acc m] by blast
  let ?m1 = "set_previous_slot i (Some (deref_mut_set sd g)) m"
  have wd: "wf_dirs D m" using wf by (simp add: wf_map_def)
  note sh = shrink_previous[OF wd i Some sheds_le[OF s(5)[rule_format]]]
  have "shrunk D out m (?m1\<lparr>total_len := total_len m - of_nat (length out), write_epoch := e, lifecycle := l\<rparr>)"
    by (rule shed_slot[OF wf sh(1) same_meta_set_previous _ sh(2,3,4) s(3) s(4,5)[rule_format] s(6,2)]) simp
  then show ?thesis using Some s(1,4,5) i
    by (auto simp: for_previous_def clean_def)
qed

lemma for_all_shards_spec:
  assumes f: "sheds D p f" and wf: "wf_map D m"
  shows "\<exists>out m'. for_all_shards f [] m = (out, m') \<and> shrunk D out m m' \<and> (\<forall>(k, v) \<in> set out. \<not> p k v) \<and>
    (\<forall>k v. view D m' k = Some v \<longrightarrow> p k v)"
proof -
  let ?O = "\<lambda>(out, m'). shrunk D out m m' \<and> (\<forall>(k, v) \<in> set out. \<not> p k v)"
  let ?R1 = "\<lambda>ys s. ?O s \<and> (\<forall>i \<in> set ys. clean D p (shards (snd s) ! i))"
  have 1: "?R1 [0..<length (shards m)] (fold (for_active f) [0..<length (shards m)] ([], m))"
  proof (rule fold_rel[where R = ?R1])
    show "?R1 [] ([], m)" using shrunk_refl[OF wf] by simp
    fix ys i zs s assume split: "[0..<length (shards m)] = ys @ i # zs" and R: "?R1 ys s"
    obtain out m1 where s: "s = (out, m1)" by (cases s)
    have sh: "shrunk D out m m1" using R s by simp
    have "i \<in> set [0..<length (shards m)]" unfolding split by simp
    then have i: "i < length (shards m1)" using shrunkD[OF sh] by (simp add: same_meta_def)
    obtain out' m2 where st: "for_active f i (out, m1) = (out @ out', m2)" "shrunk D out' m1 m2" "\<forall>(k, v) \<in> set out'. \<not> p k v"
      "clean D p (shards m2 ! i)" "\<forall>j. j \<noteq> i \<longrightarrow> shards m2 ! j = shards m1 ! j"
      using for_active_spec[OF f _ i, of out] shrunkD[OF sh] by blast
    have "clean D p (shards m2 ! j)" if "j \<in> set (ys @ [i])" for j
      using that st(4,5) R s by (cases "j = i") auto
    then show "?R1 (ys @ [i]) (for_active f i s)"
      using R s st(1,3) shrunk_trans[OF sh st(2)] by auto
  qed
  obtain out1 m1 where a: "fold (for_active f) [0..<length (shards m)] ([], m) = (out1, m1)" by fastforce
  have sh1: "shrunk D out1 m m1" and p1: "\<forall>(k, v) \<in> set out1. \<not> p k v"
    and c1: "\<And>i. i < length (shards m) \<Longrightarrow> clean D p (shards m1 ! i)" using 1 a by auto
  let ?R2 = "\<lambda>ys s. ?O s \<and> (\<forall>i \<in> set ys. clean D p (prev_slots (snd s) ! i)) \<and> shards (snd s) = shards m1"
  have 2: "?R2 [0..<length (prev_slots m)] (fold (for_previous f) [0..<length (prev_slots m)] (out1, m1))"
  proof (rule fold_rel[where R = ?R2])
    show "?R2 [] (out1, m1)" using sh1 p1 by simp
    fix ys i zs s assume split: "[0..<length (prev_slots m)] = ys @ i # zs" and R: "?R2 ys s"
    obtain out m2 where s: "s = (out, m2)" by (cases s)
    have sh: "shrunk D out m m2" using R s by simp
    have "i \<in> set [0..<length (prev_slots m)]" unfolding split by simp
    then have i: "i < length (prev_slots m2)" using shrunkD[OF sh] by (simp add: same_meta_def)
    obtain out' m3 where st: "for_previous f i (out, m2) = (out @ out', m3)" "shrunk D out' m2 m3" "\<forall>(k, v) \<in> set out'. \<not> p k v"
      "clean D p (prev_slots m3 ! i)" "\<forall>j. j \<noteq> i \<longrightarrow> prev_slots m3 ! j = prev_slots m2 ! j" "shards m3 = shards m2"
      using for_previous_spec[OF f _ i, of out] shrunkD[OF sh] by blast
    have "clean D p (prev_slots m3 ! j)" if "j \<in> set (ys @ [i])" for j
      using that st(4,5) R s by (cases "j = i") auto
    then show "?R2 (ys @ [i]) (for_previous f i s)"
      using R s st(1,3,6) shrunk_trans[OF sh st(2)] by auto
  qed
  obtain out m' where b: "fold (for_previous f) [0..<length (prev_slots m)] (out1, m1) = (out, m')" by fastforce
  have sh: "shrunk D out m m'" and po: "\<forall>(k, v) \<in> set out. \<not> p k v" and c2: "\<And>i. i < length (prev_slots m) \<Longrightarrow> clean D p (prev_slots m' ! i)"
    and e: "shards m' = shards m1" using 2 b by auto
  have "p k v" if "view D m' k = Some v" for k v
  proof -
    have len: "length (shards m') = length (shards m)" "length (prev_slots m') = length (prev_slots m)"
      using shrunkD[OF sh] by (simp_all add: same_meta_def)
    have "slots_get D (shards m') k = Some v \<or> slots_get D (prev_slots m') k = Some v"
      using that by (auto simp: view_def map_add_def split: option.splits)
    then show ?thesis
      using c1[of "route D (length (shards m)) k"] c2[of "route D (length (prev_slots m)) k"] len e
        route_less[of "shards m'" D k] route_less[of "prev_slots m'" D k]
      by (auto simp: slots_get_def clean_def split: if_splits)
  qed
  then show ?thesis using a b sh po by (simp add: for_all_shards_def)
qed

lemma shrunk_filter:
  assumes "shrunk D out m m'" "\<forall>(k, v) \<in> set out. \<not> p k v" "\<forall>k v. view D m' k = Some v \<longrightarrow> p k v"
  shows "view D m' k = (case view D m k of None \<Rightarrow> None | Some v \<Rightarrow> if p k v then Some v else None)"
    and "map_of out k = (case view D m k of None \<Rightarrow> None | Some v \<Rightarrow> if p k v then None else Some v)"
proof -
  have mem: "view D m k = Some v" if "(k, v) \<in> set out" for k v using assms(1) that by (auto simp: shrunk_def)
  have v: "view D m' k = (if k \<in> fst ` set out then None else view D m k)"
    using assms(1) by (simp add: shrunk_def restrict_map_def)
  have d: "distinct (map fst out)" using assms(1) by (simp add: shrunk_def)
  have in_out: "k \<in> fst ` set out \<longleftrightarrow> (\<exists>v. view D m k = Some v \<and> \<not> p k v)"
  proof
    assume "k \<in> fst ` set out"
    then obtain w where "(k, w) \<in> set out" by auto
    then show "\<exists>v. view D m k = Some v \<and> \<not> p k v" using mem assms(2) by blast
  next
    assume "\<exists>v. view D m k = Some v \<and> \<not> p k v"
    then show "k \<in> fst ` set out" using v assms(3) by (metis option.distinct(1))
  qed
  show "view D m' k = (case view D m k of None \<Rightarrow> None | Some v \<Rightarrow> if p k v then Some v else None)"
    using v in_out by (auto split: option.splits)
  show "map_of out k = (case view D m k of None \<Rightarrow> None | Some v \<Rightarrow> if p k v then None else Some v)"
  proof (cases "map_of out k")
    case None
    then have "k \<notin> fst ` set out" by (simp add: map_of_eq_None_iff)
    then show ?thesis using None in_out by (auto split: option.splits)
  next
    case (Some w)
    then have "(k, w) \<in> set out" by (rule map_of_SomeD)
    then show ?thesis using Some mem assms(2) by fastforce
  qed
qed

section \<open>retain, clear, drain\<close>

lemma retain_fold:
  "\<exists>l. fold (\<lambda>(k, _) m'. (record_write 0 1 m')\<lparr>lifecycle := record_remove D k (lifecycle m')\<rparr>) rem m =
      m\<lparr>total_len := total_len m - of_nat (length rem), write_epoch := write_epoch m + of_nat (length rem), lifecycle := l\<rparr> \<and>
    life_opts l = life_opts (lifecycle m)"
proof (induction rem arbitrary: m)
  case Nil
  then show ?case by (auto intro: exI[of _ "lifecycle m"])
next
  case (Cons x rem)
  obtain k v where x: "x = (k, v)" by (cases x)
  let ?m1 = "(record_write 0 1 m)\<lparr>lifecycle := record_remove D k (lifecycle m)\<rparr>"
  obtain l where "fold (\<lambda>(k, _) m'. (record_write 0 1 m')\<lparr>lifecycle := record_remove D k (lifecycle m')\<rparr>) rem ?m1 =
      ?m1\<lparr>total_len := total_len ?m1 - of_nat (length rem), write_epoch := write_epoch ?m1 + of_nat (length rem), lifecycle := l\<rparr>"
    "life_opts l = life_opts (lifecycle ?m1)" using Cons.IH[of ?m1] by blast
  then show ?case by (intro exI[of _ l]) (simp add: x record_write_def algebra_simps)
qed

text \<open>\<open>h\<close> is what happens to the life-cycle state before the first entry is taken out.\<close>

lemma extract_sheds:
  assumes h: "\<And>l. life_opts (h l) = life_opts l"
    and f: "\<And>sd acc m. f sd acc m =
      (let m1 = m\<lparr>lifecycle := h (lifecycle m)\<rparr>;
           (removed, mp) = hb_extract_if (shard_ops D) (as_map sd) (\<lambda>k v. \<not> p k v);
           m2 = fold (\<lambda>(k, _) m'. (record_write 0 1 m')\<lparr>lifecycle := record_remove D k (lifecycle m')\<rparr>) removed m1
       in (deref_mut_set sd mp, acc @ removed, m2))"
  shows "sheds D p f"
  unfolding sheds_def
proof (intro allI)
  fix sd acc and m :: "('k, 'v, 'm, 'b) sharded_map"
  obtain rem g where x: "hb_extract_if (shard_ops D) (as_map sd) (\<lambda>k v. \<not> p k v) = (rem, g)" by fastforce
  have rem: "rem = filter (\<lambda>(k, v). \<not> p k v) (hb_iter (shard_ops D) (as_map sd))"
    using H.extract_out[of "as_map sd" "\<lambda>k v. \<not> p k v"] x by simp
  have "hb_get (shard_ops D) g k = (case hb_get (shard_ops D) (as_map sd) k of None \<Rightarrow> None | Some v \<Rightarrow> if \<not> p k v then None else Some v)" for k
    using H.get_extract[of "as_map sd" "\<lambda>k v. \<not> p k v" k] x by simp
  then have g: "hb_get (shard_ops D) g k = Some v \<longleftrightarrow> hb_get (shard_ops D) (as_map sd) k = Some v \<and> p k v" for k v
    by (auto split: option.splits)
  obtain l where "fold (\<lambda>(k, _) m'. (record_write 0 1 m')\<lparr>lifecycle := record_remove D k (lifecycle m')\<rparr>) rem
      (m\<lparr>lifecycle := h (lifecycle m)\<rparr>) = m\<lparr>total_len := total_len m - of_nat (length rem),
        write_epoch := write_epoch m + of_nat (length rem), lifecycle := l\<rparr>" "life_opts l = life_opts (lifecycle m)"
    using retain_fold[of rem "m\<lparr>lifecycle := h (lifecycle m)\<rparr>"] h by auto
  moreover have "distinct (map fst rem)" unfolding rem by (simp add: distinct_map_filter H.iter_distinct)
  moreover have "hb_len (shard_ops D) g + length rem = hb_len (shard_ops D) (as_map sd)"
    using H.len_extract[of "as_map sd" "\<lambda>k v. \<not> p k v"] x by simp
  moreover have "(k, v) \<in> set rem \<longleftrightarrow> hb_get (shard_ops D) (as_map sd) k = Some v \<and> \<not> p k v" for k v
    by (simp add: rem H.iter_in)
  ultimately show "\<exists>g out e l. f sd acc m = (deref_mut_set sd g, acc @ out,
       m\<lparr>total_len := total_len m - of_nat (length out), write_epoch := e, lifecycle := l\<rparr>) \<and>
     life_opts l = life_opts (lifecycle m) \<and> distinct (map fst out) \<and>
     (\<forall>k v. (k, v) \<in> set out \<longleftrightarrow> hb_get (shard_ops D) (as_map sd) k = Some v \<and> \<not> p k v) \<and>
     (\<forall>k v. hb_get (shard_ops D) g k = Some v \<longleftrightarrow> hb_get (shard_ops D) (as_map sd) k = Some v \<and> p k v) \<and>
     hb_len (shard_ops D) g + length out = hb_len (shard_ops D) (as_map sd)"
    using x g by (intro exI[of _ g] exI[of _ rem] exI[of _ "write_epoch m + of_nat (length rem)"] exI[of _ l])
      (simp add: f)
qed

lemma retain_sheds: "sheds D p (retain_shard D p)"
  by (rule extract_sheds[where h = mutation]) (simp_all add: retain_shard_def)

lemma life_opts_fold_remove: "life_opts (fold (\<lambda>(k, _). record_remove D k) xs l) = life_opts l"
  by (induction xs arbitrary: l) (auto simp: split_beta)

lemma drain_sheds: "sheds D (\<lambda>_ _. False) (drain_shard D)"
  unfolding sheds_def
proof (intro allI)
  fix sd acc and m :: "('k, 'v, 'm, 'b) sharded_map"
  obtain out g where x: "hb_drain (shard_ops D) (as_map sd) = (out, g)" by fastforce
  have out: "out = hb_iter (shard_ops D) (as_map sd)" using H.drain_out[of "as_map sd"] x by simp
  have g: "hb_get (shard_ops D) g k = None" for k using H.get_drain[of "as_map sd"] x by simp
  have n: "hb_len (shard_ops D) g = 0" using H.len_drain[of "as_map sd"] x by simp
  have "(k, v) \<in> set out \<longleftrightarrow> hb_get (shard_ops D) (as_map sd) k = Some v" for k v by (simp add: out H.iter_in)
  then show "\<exists>g out e l. drain_shard D sd acc m = (deref_mut_set sd g, acc @ out,
       m\<lparr>total_len := total_len m - of_nat (length out), write_epoch := e, lifecycle := l\<rparr>) \<and>
     life_opts l = life_opts (lifecycle m) \<and> distinct (map fst out) \<and>
     (\<forall>k v. (k, v) \<in> set out \<longleftrightarrow> hb_get (shard_ops D) (as_map sd) k = Some v \<and> \<not> False) \<and>
     (\<forall>k v. hb_get (shard_ops D) g k = Some v \<longleftrightarrow> hb_get (shard_ops D) (as_map sd) k = Some v \<and> False) \<and>
     hb_len (shard_ops D) g + length out = hb_len (shard_ops D) (as_map sd)"
    using x g n H.iter_distinct[of "as_map sd"]
    by (intro exI[of _ g] exI[of _ out] exI[of _ "if hb_len (shard_ops D) (as_map sd) \<noteq> 0 then write_epoch m + 1 else write_epoch m"]
        exI[of _ "fold (\<lambda>(k, _). record_remove D k) out (mutation (lifecycle m))"])
      (auto simp: drain_shard_def record_write_def H.len_iter out[symmetric] life_opts_fold_remove Let_def)
qed

lemma retain_all_spec:
  assumes "wf_map D m"
  shows "\<exists>out m1. for_all_shards (retain_shard D p) [] m = (out, m1) \<and> op_post D m (view D m1) m1 \<and>
    view D m1 = (\<lambda>k. case view D m k of None \<Rightarrow> None | Some v \<Rightarrow> if p k v then Some v else None)"
proof -
  obtain out m1 where f: "for_all_shards (retain_shard D p) [] m = (out, m1)" "shrunk D out m m1"
    "\<forall>(k, v) \<in> set out. \<not> p k v" "\<forall>k v. view D m1 k = Some v \<longrightarrow> p k v"
    using for_all_shards_spec[OF retain_sheds assms] by blast
  have "op_post D m (view D m1) m1" using shrunkD[OF f(2)] by (simp add: op_post_def same_meta_def)
  moreover have "view D m1 = (\<lambda>k. case view D m k of None \<Rightarrow> None | Some v \<Rightarrow> if p k v then Some v else None)"
    using shrunk_filter(1)[OF f(2-4)] by blast
  ultimately show ?thesis using f(1) by blast
qed

lemma retain_post:
  assumes "wf_map D m"
  shows "\<exists>m'. retain_op D p m = Some m' \<and>
    op_post D m (\<lambda>k. case view D m k of None \<Rightarrow> None | Some v \<Rightarrow> if p k v then Some v else None) m'"
  using retain_all_spec[OF assms, of p] enforce_post[of m] by (fastforce simp: retain_op_def)

lemma drain_all_spec:
  assumes wf: "wf_map D m"
  shows "\<exists>items m'. drain_all D m = (items, m') \<and> map_of items = view D m \<and> distinct (map fst items) \<and>
    op_post D m Map.empty m' \<and> view D m' = Map.empty \<and> previous_shards m' = None \<and> \<not> migrating (rebalance_tracker m')"
proof -
  obtain items m1 where f: "for_all_shards (drain_shard D) [] m = (items, m1)" "shrunk D items m m1"
    "\<forall>(k, v) \<in> set items. \<not> False" "\<forall>k v. view D m1 k = Some v \<longrightarrow> False"
    using for_all_shards_spec[OF drain_sheds wf] by blast
  let ?m2 = "m1\<lparr>previous_shards := None, previous_shard_count := 0, rebalance_tracker := finish (now D) (rebalance_tracker m1)\<rparr>"
  have w1: "wf_dirs D m1" and n1: "total_len m1 = of_nat (stored_len D m1)" using shrunkD[OF f(2)] by (simp_all add: wf_map_def)
  have empty: "view D m1 = Map.empty"
  proof
    show "view D m1 k = None" for k using f(4) by (cases "view D m1 k") auto
  qed
  have none: "slots_get D (shards m1) k = None" for k
    using fun_cong[OF empty, of k] by (auto simp: view_def map_add_def split: option.splits)
  have p2: "prev_slots ?m2 = []" by (simp add: prev_slots_def)
  have "stored_len D m1 = 0" using stored_len_card[OF w1] empty by simp
  then have "stored_len D ?m2 = 0" by (simp add: stored_len_def p2)
  moreover have "wf_dirs D ?m2"
    using w1 unfolding wf_dirs_def p2
    by (simp add: migration_ok_def tracker_inv_finish slots_ok_def)
  ultimately have "wf_map D ?m2" using n1 \<open>stored_len D m1 = 0\<close> by (simp add: wf_map_def)
  moreover have "view D ?m2 = Map.empty" using none by (auto simp: view_def p2 map_add_def)
  moreover have "distinct (map fst items)" using f(2) by (simp add: shrunk_def)
  moreover have "map_of items = view D m"
  proof
    fix k
    have "map_of items k = (case view D m k of None \<Rightarrow> None | Some v \<Rightarrow> if False then None else Some v)"
      using f(2,4) by (intro shrunk_filter(2)) simp_all
    then show "map_of items k = view D m k" by (cases "view D m k") simp_all
  qed
  ultimately show ?thesis
    using f(1) shrunkD[OF f(2)] by (simp add: drain_all_def op_post_def same_meta_def)
qed

lemma op_post_empty: "op_post D m Map.empty m' \<Longrightarrow> view D m' = Map.empty"
  by (auto simp: op_post_def map_le_def dom_def fun_eq_iff)

lemma clear_post:
  assumes "wf_map D m"
  shows "\<exists>m'. clear_op D m = Some m' \<and> op_post D m Map.empty m' \<and> view D m' = Map.empty"
proof -
  obtain items m1 where d: "drain_all D m = (items, m1)" "op_post D m Map.empty m1" "view D m1 = Map.empty"
    using drain_all_spec[OF assms] by blast
  obtain n m' where "enforce_eviction_limits D m1 = Some (n, m')" "op_post D m Map.empty m'"
    using enforce_post[OF d(2,3)] by blast
  moreover then have "view D m' = Map.empty" using op_post_empty by blast
  ultimately show ?thesis using d(1) by (simp add: clear_op_def)
qed

lemma drain_post:
  assumes "wf_map D m"
  shows "\<exists>items m'. drain_op D m = Some (\<lparr>drain_items = items, drain_index = 0\<rparr>, m') \<and> map_of items = view D m \<and>
    distinct (map fst items) \<and> op_post D m Map.empty m' \<and> view D m' = Map.empty"
proof -
  obtain items m1 where d: "drain_all D m = (items, m1)" "op_post D m Map.empty m1" "view D m1 = Map.empty"
    "map_of items = view D m" "distinct (map fst items)"
    using drain_all_spec[OF assms] by blast
  obtain n m' where "enforce_eviction_limits D m1 = Some (n, m')" "op_post D m Map.empty m'"
    using enforce_post[OF d(2,3)] by blast
  moreover then have "view D m' = Map.empty" using op_post_empty by blast
  ultimately show ?thesis using d(1,4,5) by (simp add: drain_op_def)
qed

end

section \<open>Transactions\<close>

text \<open>The sequential meaning of a transaction.\<close>

fun txn_apply :: "('k, 'v) txn_op \<Rightarrow> ('k \<Rightarrow> 'v option) \<Rightarrow> ('k \<Rightarrow> 'v option)" where
  "txn_apply (Read k) V = V"
| "txn_apply (Write k v) V = V(k \<mapsto> v)"
| "txn_apply (Remove k) V = V(k := None)"

context starshard_deps
begin

lemma promote_previous_shards: "promote_previous D m k sd = Some (a, m1) \<Longrightarrow> shards m1 = shards m"
  by (auto simp: promote_previous_def Let_def split: bind_splits option.splits if_splits prod.splits)

lemma txn_step_spec:
  assumes wf: "wf_map D m" and at: "shards m ! route D (length (shards m)) (txn_key x) \<noteq> None"
  shows "\<exists>m'. txn_step D x m = Some m' \<and> op_post D m (view D m') m' \<and> view D m' = txn_apply x (view D m) \<and>
    length (shards m') = length (shards m) \<and> (\<forall>j. shards m ! j \<noteq> None \<longrightarrow> shards m' ! j \<noteq> None)"
proof -
  have wd: "wf_dirs D m" using wf by (simp add: wf_map_def)
  let ?k = "txn_key x" and ?i = "route D (length (shards m)) (txn_key x)"
  obtain sd where sd: "shards m ! ?i = Some sd" using at by blast
  have i: "?i < length (shards m)" using route_less[OF wf_dirsD(1)[OF wd]] .
  obtain i a m2 where L: "lock_key D m ?k = Some (i, a, m2)" "locked D m ?k i a m2" using locked_key[OF wf] by blast
  have pp: "promote_previous D m ?k sd = Some (a, m2)" and ii: "i = ?i"
    using L(1) i sd by (auto simp: lock_key_def shard_index_wf[OF wd] get_or_init_shard_def split: bind_splits)
  have sh: "shards m2 = shards m" using promote_previous_shards[OF pp] .
  note d = lockedD[OF L(2)] and same = locked_same[OF L(2)]
  have keep: "length (shards (unlock ?i q m3)) = length (shards m) \<and>
      (\<forall>j. shards m ! j \<noteq> None \<longrightarrow> shards (unlock ?i q m3) ! j \<noteq> None)" if "shards m3 = shards m" for q m3
    using that i by (auto simp: nth_list_update)
  have keepc: "length (shards (commit D ?i a mu l m2)) = length (shards m) \<and>
      (\<forall>j. shards m ! j \<noteq> None \<longrightarrow> shards (commit D ?i a mu l m2) ! j \<noteq> None)" for mu l
    using sh i by (auto simp: commit_eq nth_list_update)
  have post: "op_post D m V m' \<and> view D m' = V" if "committed D m V ep l m'" "life_opts l = life_opts (lifecycle m)" for V ep l m'
    using op_post_committed[OF that] that(1) by (simp add: committed_def)
  show ?thesis
  proof (cases x)
    case (Read k)
    let ?l = "record_read D k (view D m k \<noteq> None) (lifecycle m)"
    have "txn_step D x m = Some (unlock ?i a (m2\<lparr>lifecycle := ?l\<rparr>))"
      using i sd pp d(1,2) Read by (simp add: txn_step_def shard_index_wf[OF wd])
    then show ?thesis using post[OF d(4)[of ?l]] keep[of "m2\<lparr>lifecycle := ?l\<rparr>" a] sh ii Read by simp
  next
    case (Write k v)
    let ?l = "insert_hook D k v (view D m k \<noteq> None) (lifecycle m)"
    obtain mu where mu: "tracked_insert D (shard_mutation_new (shard_ops D) (as_map a)) k v (lifecycle m) = (view D m k, mu, ?l)"
      "\<forall>l' l''. committed D m ((view D m)(k \<mapsto> v)) (write_epoch m + 1) l' (commit D i a mu l' (m2\<lparr>lifecycle := l''\<rparr>))"
      using locked_insert[OF L(2), of v "lifecycle m"] Write by auto
    have "txn_step D x m = Some (commit D ?i a mu ?l m2)"
      using i sd pp d(1,2) Write mu(1) by (simp add: txn_step_def shard_index_wf[OF wd])
    then show ?thesis
      using post[OF mu(2)[rule_format, of ?l "lifecycle m"]] keepc[of mu ?l] ii Write same by simp
  next
    case (Remove k)
    show ?thesis
    proof (cases "snapshot_mode m = Cow \<and> view D m k = None")
      case True
      then have "txn_step D x m = Some (unlock ?i a m2)"
        using i sd pp d(1-3) Remove by (simp add: txn_step_def shard_index_wf[OF wd])
      moreover have "(view D m)(k := None) = view D m" using True by (simp add: fun_upd_idem)
      ultimately show ?thesis
        using post[OF d(4)[of "lifecycle m"]] keep[OF sh, of a] ii Remove same by simp
    next
      case False
      let ?l = "remove_hook D k (view D m k \<noteq> None) (lifecycle m)"
      obtain mu where mu: "tracked_remove D (shard_mutation_new (shard_ops D) (as_map a)) k (lifecycle m) = (view D m k, mu, ?l)"
        "\<forall>l' l''. committed D m ((view D m)(k := None)) (if view D m k = None then write_epoch m else write_epoch m + 1)
           l' (commit D i a mu l' (m2\<lparr>lifecycle := l''\<rparr>))"
        using locked_remove[OF L(2), of "lifecycle m"] Remove by auto
      have "txn_step D x m = Some (commit D ?i a mu ?l m2)"
        using i sd pp d(1-3) Remove mu(1) False by (auto simp: txn_step_def shard_index_wf[OF wd])
      then show ?thesis
        using post[OF mu(2)[rule_format, of ?l "lifecycle m"]] keepc[of mu ?l] ii Remove same by simp
    qed
  qed
qed

lemma init_shards_spec:
  assumes wf: "wf_map D m" and ixs: "\<forall>i \<in> set ixs. i < length (shards m)"
  shows "\<exists>m'. fold_option (\<lambda>i m'. map_option snd (get_or_init_shard D m' i)) ixs m = Some m' \<and>
    op_post D m (view D m) m' \<and> view D m' = view D m \<and> length (shards m') = length (shards m) \<and>
    (\<forall>i \<in> set ixs. shards m' ! i \<noteq> None)"
proof -
  let ?R = "\<lambda>ys m'. op_post D m (view D m') m' \<and> view D m' = view D m \<and> length (shards m') = length (shards m) \<and>
    (\<forall>i \<in> set ys. shards m' ! i \<noteq> None)"
  have "\<exists>m'. fold_option (\<lambda>i m'. map_option snd (get_or_init_shard D m' i)) ixs m = Some m' \<and> ?R ixs m'"
  proof (rule fold_option_rel[where R = ?R])
    show "?R [] m" using op_post_refl[OF wf] by simp
    fix ys i zs m1 assume split: "ixs = ys @ i # zs" and R: "?R ys m1"
    have w1: "wf_map D m1" and o1: "op_post D m (view D m1) m1" using R by (simp_all add: op_post_def)
    then have wd: "wf_dirs D m1" by (simp add: wf_map_def)
    have i: "i < length (shards m1)" using ixs split R by simp
    let ?m2 = "unlock i (init_slot D m1 i) m1"
    note g = get_or_init_wf[OF wd i]
    have "op_post D m1 (view D ?m2) ?m2" using g w1 by (simp add: op_post_def wf_map_def)
    note o2 = op_post_step[OF o1 this]
    show "\<exists>m''. map_option snd (get_or_init_shard D m1 i) = Some m'' \<and> ?R (ys @ [i]) m''"
      using o2 g(2) R i by (intro exI[of _ ?m2]) (auto simp: get_or_init_eq[OF i] nth_list_update)
  qed
  then show ?thesis by auto
qed

lemma execute_transaction_post:
  assumes wf: "wf_map D m"
  shows "\<exists>m'. execute_transaction D t m = Some (Committed (), m') \<and> op_post D m (fold txn_apply (ops t) (view D m)) m'"
proof -
  have wd: "wf_dirs D m" using wf by (simp add: wf_map_def)
  let ?r = "\<lambda>x. route D (length (shards m)) (txn_key x)"
  let ?ixs = "remdups_adj (sort (map fst (map (\<lambda>x. (?r x, x)) (ops t))))"
  have set: "set ?ixs = ?r ` set (ops t)" by (simp add: image_image)
  have lt: "\<forall>i \<in> set ?ixs. i < length (shards m)" unfolding set using route_less[OF wf_dirsD(1)[OF wd]] by auto
  obtain m1 where m1: "fold_option (\<lambda>i m'. map_option snd (get_or_init_shard D m' i)) ?ixs m = Some m1"
    "op_post D m (view D m) m1" "view D m1 = view D m" "length (shards m1) = length (shards m)"
    "\<forall>i \<in> set ?ixs. shards m1 ! i \<noteq> None"
    using init_shards_spec[OF wf lt] by blast
  let ?R = "\<lambda>ys m'. op_post D m (view D m') m' \<and> view D m' = fold txn_apply ys (view D m) \<and>
    length (shards m') = length (shards m) \<and> (\<forall>i \<in> set ?ixs. shards m' ! i \<noteq> None)"
  have "\<exists>m'. fold_option (txn_step D) (ops t) m1 = Some m' \<and> ?R (ops t) m'"
  proof (rule fold_option_rel[where R = ?R])
    show "?R [] m1" using m1 by simp
    fix ys x zs m2 assume split: "ops t = ys @ x # zs" and R: "?R ys m2"
    have w2: "wf_map D m2" and o2: "op_post D m (view D m2) m2" using R by (simp_all add: op_post_def)
    have mem: "?r x \<in> set ?ixs" unfolding set split by simp
    have len: "length (shards m2) = length (shards m)" and "\<forall>i \<in> set ?ixs. shards m2 ! i \<noteq> None" using R by blast+
    then have at: "shards m2 ! route D (length (shards m2)) (txn_key x) \<noteq> None" unfolding len using mem by blast
    obtain m3 where m3: "txn_step D x m2 = Some m3" "op_post D m2 (view D m3) m3" "view D m3 = txn_apply x (view D m2)"
      "length (shards m3) = length (shards m2)" "\<forall>j. shards m2 ! j \<noteq> None \<longrightarrow> shards m3 ! j \<noteq> None"
      using txn_step_spec[OF w2 at] by blast
    show "\<exists>m''. txn_step D x m2 = Some m'' \<and> ?R (ys @ [x]) m''"
      using m3 R op_post_step[OF o2 m3(2)] by (intro exI[of _ m3]) auto
  qed
  then obtain m2 where m2: "fold_option (txn_step D) (ops t) m1 = Some m2" "?R (ops t) m2" by blast
  have v2: "view D m2 = fold txn_apply (ops t) (view D m)" and "op_post D m (view D m2) m2" using m2(2) by blast+
  then have "op_post D m (fold txn_apply (ops t) (view D m)) m2" by simp
  then obtain n m' where "enforce_eviction_limits D m2 = Some (n, m')" "op_post D m (fold txn_apply (ops t) (view D m)) m'"
    using enforce_post[OF _ v2] by blast
  then show ?thesis using m1(1) m2(1) by (simp add: execute_transaction_def indexed_wf[OF wd])
qed

end

end
