(* ===== verification/Sync_Contract.thy ===== *)
theory Sync_Contract
  imports Map_Contract Sync_Whole
begin

text \<open>
  The synchronous map meets both contracts of \<open>Map_Contract\<close>, and the statements about the public
  operations in terms of the view.
\<close>

section \<open>Contracts from postconditions\<close>

text \<open>Without a configured policy the map keeps everything.\<close>

definition plain_map :: "('k, 'v, 'm, 'b) deps \<Rightarrow> ('k, 'v, 'm, 'b) sharded_map \<Rightarrow> bool" where
  "plain_map D m \<longleftrightarrow> wf_map D m \<and> life_opts (lifecycle m) = None"

lemma op_post_plain: "op_post D m V m' \<Longrightarrow> plain_map D m \<Longrightarrow> plain_map D m' \<and> view D m' = V"
  by (simp add: op_post_def plain_map_def)

text \<open>Operations of either map whose results are described by \<open>op_post\<close> meet both contracts.\<close>

locale map_operations =
  fixes D :: "('k, 'v, 'm, 'b) deps"
    and ins :: "'k \<Rightarrow> 'v \<Rightarrow> ('k, 'v, 'm, 'b) sharded_map \<Rightarrow> ('v option \<times> ('k, 'v, 'm, 'b) sharded_map) option"
    and get :: "'k \<Rightarrow> ('k, 'v, 'm, 'b) sharded_map \<Rightarrow> ('v option \<times> ('k, 'v, 'm, 'b) sharded_map) option"
    and rem :: "'k \<Rightarrow> ('k, 'v, 'm, 'b) sharded_map \<Rightarrow> ('v option \<times> ('k, 'v, 'm, 'b) sharded_map) option"
  assumes ins_post: "wf_map D m \<Longrightarrow> \<exists>m'. ins k v m = Some (view D m k, m') \<and> op_post D m ((view D m)(k \<mapsto> v)) m'"
    and get_post: "wf_map D m \<Longrightarrow> \<exists>m'. get k m = Some (view D m k, m') \<and> op_post D m (view D m) m' \<and> view D m' = view D m \<and>
      write_epoch m' = write_epoch m"
    and rem_post: "wf_map D m \<Longrightarrow> \<exists>m'. rem k m = Some (view D m k, m') \<and> op_post D m ((view D m)(k := None)) m'"

sublocale map_operations \<subseteq> cache: cache_contract "wf_map D" "view D" ins get rem
proof
  fix m k v assume m: "wf_map D m"
  show "\<exists>s'. ins k v m = Some (view D m k, s') \<and> wf_map D s' \<and> view D s' \<subseteq>\<^sub>m (view D m)(k \<mapsto> v)"
    using ins_post[OF m, of k v] by (meson op_postD(1,2))
  show "\<exists>s'. get k m = Some (view D m k, s') \<and> wf_map D s' \<and> view D s' = view D m"
    using get_post[OF m, of k] by (meson op_postD(1))
  show "\<exists>s'. rem k m = Some (view D m k, s') \<and> wf_map D s' \<and> view D s' \<subseteq>\<^sub>m (view D m)(k := None)"
    using rem_post[OF m, of k] by (meson op_postD(1,2))
qed

sublocale map_operations \<subseteq> plain: map_contract "plain_map D" "view D" ins get rem
proof
  fix m k v assume m: "plain_map D m"
  then have wf: "wf_map D m" by (simp add: plain_map_def)
  obtain m' where i: "ins k v m = Some (view D m k, m')" "op_post D m ((view D m)(k \<mapsto> v)) m'" using ins_post[OF wf] by blast
  show "\<exists>s'. ins k v m = Some (view D m k, s') \<and> plain_map D s' \<and> view D s' \<subseteq>\<^sub>m (view D m)(k \<mapsto> v)"
    "\<And>r s'. ins k v m = Some (r, s') \<Longrightarrow> view D s' = (view D m)(k \<mapsto> v)"
    using i(1) op_post_plain[OF i(2) m] by auto
  obtain m' where g: "get k m = Some (view D m k, m')" "op_post D m (view D m) m'" using get_post[OF wf] by blast
  show "\<exists>s'. get k m = Some (view D m k, s') \<and> plain_map D s' \<and> view D s' = view D m"
    using g(1) op_post_plain[OF g(2) m] by auto
  obtain m' where r: "rem k m = Some (view D m k, m')" "op_post D m ((view D m)(k := None)) m'" using rem_post[OF wf] by blast
  show "\<exists>s'. rem k m = Some (view D m k, s') \<and> plain_map D s' \<and> view D s' \<subseteq>\<^sub>m (view D m)(k := None)"
    "\<And>r s'. rem k m = Some (r, s') \<Longrightarrow> view D s' = (view D m)(k := None)"
    using r(1) op_post_plain[OF r(2) m] by auto
qed

sublocale starshard_deps \<subseteq> sync: map_operations D "insert_op D" "get_borrowed D" "remove_borrowed D"
  by unfold_locales (rule insert_op_post get_post remove_post; assumption)+

context starshard_deps
begin

lemma sync_calls_lossy:
  "wf_map D m \<Longrightarrow> \<exists>rs m'. run_calls (insert_op D) (get_borrowed D) (remove_borrowed D) cs m = Some (rs, m') \<and>
    wf_map D m' \<and> list_all2 lossy rs (fst (spec_calls cs (view D m))) \<and> view D m' \<subseteq>\<^sub>m snd (spec_calls cs (view D m))"
  by (rule sync.cache.calls_lossy) simp_all

lemma sync_calls_exact:
  "plain_map D m \<Longrightarrow> \<exists>m'. run_calls (insert_op D) (get_borrowed D) (remove_borrowed D) cs m =
      Some (fst (spec_calls cs (view D m)), m') \<and> plain_map D m' \<and> view D m' = snd (spec_calls cs (view D m))"
  by (rule sync.plain.calls_exact)

end

section \<open>New maps\<close>

lemma build_simps [simp]:
  "shards (build_with_count n mode) = replicate n None" "prev_slots (build_with_count n mode) = []"
  "snapshot_mode (build_with_count n mode) = mode" "shard_count (build_with_count n mode) = n"
  "total_len (build_with_count n mode) = 0" "write_epoch (build_with_count n mode) = 0"
  "lifecycle (build_with_count n mode) = lifecycle_new" "snapshot_cache (build_with_count n mode) = None"
  "previous_shards (build_with_count n mode) = None" "previous_shard_count (build_with_count n mode) = 0"
  "rebalance_tracker (build_with_count n mode) = tracker_new"
  by (simp_all add: build_with_count_def prev_slots_def)

lemma slots_get_replicate [simp]: "slots_get D (replicate n None) k = None"
  using route_less[of "replicate n None" D k] by (auto simp: slots_get_def)

lemma view_build [simp]: "view D (build_with_count n mode) = Map.empty"
  by (auto simp: view_def map_add_def)

lemma wf_map_build: "0 < n \<Longrightarrow> wf_map D (build_with_count n mode)"
  using tracker_inv_new
  by (auto simp: wf_map_def wf_dirs_def stored_len_def slots_len_def sum_list_replicate slots_ok_def migration_ok_def tracker_new_def)

lemma configured_build [simp]: "configured (lifecycle_new) = None"
  by (simp add: lifecycle_new_def)

text \<open>A concrete map over the instance \<open>nat_deps\<close>, for evaluations.\<close>

type_synonym nat_map =
  "(nat, nat, (nat, nat) alist_map, (u64, nat entry list) alist_map) sharded_map"

definition fresh_map :: "snapshot_mode \<Rightarrow> nat_map" where
  "fresh_map mode = build_with_count 2 mode"

lemma fresh_map_facts [simp]:
  "wf_map nat_deps (fresh_map mode)" "view nat_deps (fresh_map mode) = Map.empty"
  "configured (lifecycle (fresh_map mode)) = None" "life_opts (lifecycle (fresh_map mode)) = None"
  "write_epoch (fresh_map mode) = 0" "rebalance_tracker (fresh_map mode) = tracker_new" "shard_count (fresh_map mode) = 2"
  by (simp_all add: fresh_map_def wf_map_build life_opts_def)

lemma tracker_new_simps [simp]:
  "\<not> migrating tracker_new" "worker_generation tracker_new = None" "telem tracker_new = telemetry_default"
  by (simp_all add: tracker_new_def)

end
