(* ===== verification/Sync_Rebalance.thy ===== *)
theory Sync_Rebalance
  imports Sync_Entries
begin

text \<open>
  Resharding of the synchronous map, \<open>core/sync_impl/rebalance_impl.rs\<close>: starting an online migration,
  bounded migration batches, the supervised worker, and \<open>rebalance_to\<close> in both of its modes.

  A batch holds the routing lock exclusively, so it is one atomic function. What it reads from its
  surroundings while it runs is a \<open>batch_env\<close>: the \<open>n\<close>-th reading of \<open>elapsed_ns(timer.started)\<close> and the
  \<open>n\<close>-th reading of the worker's cancellation flag. Keys and values retired by a batch are only kept
  until the locks are released, so they are not part of the state.
\<close>

section \<open>rebalance.rs: options and reports\<close>

record rebalance_options =
  opt_background :: bool
  opt_batch_size :: nat
  opt_max_pause_ns :: nat

record batch_report =
  rep_moved_entries :: nat
  rep_completed_shards :: nat
  rep_complete :: bool
  rep_budget_exhausted :: bool
  rep_elapsed_ns :: nat

definition batch_report_default :: batch_report where
  "batch_report_default =
     \<lparr>rep_moved_entries = 0, rep_completed_shards = 0, rep_complete = False, rep_budget_exhausted = False,
      rep_elapsed_ns = 0\<rparr>"

record rebalance_report =
  rr_from_shards :: nat
  rr_to_shards :: nat
  rr_moved_entries :: nat
  rr_elapsed_ms :: nat

datatype rebalance_error =
    InvalidShardCount shard_count_error
  | WorkerAlreadyRunning
  | TargetMismatch nat nat
  | Spawn
  | RuntimeUnavailable
  | WorkerPanicked
  | WorkerCancelled

record batch_env =
  env_clock :: "nat \<Rightarrow> nat"
  env_control :: "(nat \<Rightarrow> bool) option"

definition control_cancelled :: "batch_env \<Rightarrow> nat \<Rightarrow> bool" where
  "control_cancelled env n = (case env_control env of None \<Rightarrow> False | Some f \<Rightarrow> f n)"

definition USIZE_MAX :: nat where
  "USIZE_MAX = 2 ^ 64 - 1"

section \<open>Control of a migration\<close>

definition pause_rebalance :: "('k, 'v, 'm, 'b) sharded_map \<Rightarrow> bool \<times> ('k, 'v, 'm, 'b) sharded_map" where
  "pause_rebalance m =
     (let (b, tr) = pause True (rebalance_tracker m) in (b, m\<lparr>rebalance_tracker := tr\<rparr>))"

definition resume_rebalance :: "('k, 'v, 'm, 'b) sharded_map \<Rightarrow> bool \<times> ('k, 'v, 'm, 'b) sharded_map" where
  "resume_rebalance m =
     (let (b, tr) = pause False (rebalance_tracker m) in (b, m\<lparr>rebalance_tracker := tr\<rparr>))"

text \<open>The block by which all three entry points publish an empty active generation.\<close>

definition begin_migration ::
  "('k, 'v, 'm, 'b) deps \<Rightarrow> nat \<Rightarrow> nat \<Rightarrow> ('k, 'v, 'm, 'b) sharded_map \<Rightarrow> ('k, 'v, 'm, 'b) sharded_map" where
  "begin_migration D current target m =
     (m\<lparr>shards := replicate target None, previous_shards := Some (shards m),
        previous_shard_count := current, shard_count := target,
        lifecycle := mark_pending (lifecycle m),
        rebalance_tracker := begin_with_counts (now D) current target (unat (total_len m)) (rebalance_tracker m)\<rparr>)"

definition start_rebalance_online ::
  "('k, 'v, 'm, 'b) deps \<Rightarrow> nat \<Rightarrow> ('k, 'v, 'm, 'b) sharded_map \<Rightarrow> (shard_count_error + unit) \<times> ('k, 'v, 'm, 'b) sharded_map" where
  "start_rebalance_online D new_shard_count m =
     (case strict_shard_count new_shard_count MAX_SHARDS of
        Inl e \<Rightarrow> (Inl e, m)
      | Inr target \<Rightarrow>
          if is_migrating (rebalance_tracker m) \<or> target = shard_count m then (Inr (), m)
          else (Inr (), begin_migration D (length (shards m)) target m))"

section \<open>One migration batch\<close>

record ('k, 'v, 'm, 'b) batch_state =
  work_keys :: "'k list"
  loaded_index :: "nat option"
  report :: batch_report
  batch_map :: "('k, 'v, 'm, 'b) sharded_map"
  clock_reads :: nat
  control_reads :: nat

definition source_slot :: "nat \<Rightarrow> ('k, 'v, 'm, 'b) sharded_map \<Rightarrow> 'm shard_data option" where
  "source_slot index m =
     (case previous_shards m of None \<Rightarrow> None
      | Some slots \<Rightarrow> if index < length slots then slots ! index else None)"

text \<open>The loop that collects keys of the source until the time budget is spent.\<close>

fun load_keys :: "(nat \<Rightarrow> nat) \<Rightarrow> nat \<Rightarrow> 'k list \<Rightarrow> nat \<Rightarrow> 'k list \<times> nat" where
  "load_keys clk pause_ns [] n = ([], n)"
| "load_keys clk pause_ns (k # ks) n =
     (if pause_ns = 0 then (let (r, n') = load_keys clk pause_ns ks n in (k # r, n'))
      else if clk n \<ge> pause_ns then ([k], n + 1)
      else let (r, n') = load_keys clk pause_ns ks (n + 1) in (k # r, n'))"

definition load_work ::
  "('k, 'v, 'm, 'b) deps \<Rightarrow> batch_env \<Rightarrow> nat \<Rightarrow> nat \<Rightarrow> nat \<Rightarrow> ('k, 'v, 'm, 'b) batch_state \<Rightarrow> ('k, 'v, 'm, 'b) batch_state" where
  "load_work D env pause_ns entry_limit index s =
     (if loaded_index s = Some index then s
      else
        (let keys = (case source_slot index (batch_map s) of
                       None \<Rightarrow> []
                     | Some sd \<Rightarrow> take (entry_limit - rep_moved_entries (report s))
                                   (map fst (hb_iter (shard_ops D) (as_map sd))));
             (ks, n) = load_keys (env_clock env) pause_ns keys (clock_reads s)
         in s\<lparr>work_keys := work_keys s @ ks, loaded_index := Some index, clock_reads := n\<rparr>))"

definition migrate_key ::
  "('k, 'v, 'm, 'b) deps \<Rightarrow> telemetry \<Rightarrow> nat \<Rightarrow> 'm shard_data \<Rightarrow> 'k \<Rightarrow> ('k, 'v, 'm, 'b) sharded_map \<Rightarrow>
   ('k, 'v, 'm, 'b) sharded_map option" where
  "migrate_key D tel index source key m = do {
     target_index \<leftarrow> shard_index D m key;
     (target, m1) \<leftarrow> get_or_init_shard D m target_index;
     target_map \<leftarrow>
       (if hb_capacity (shard_ops D) (as_map target) = 0
        then (if to_shards tel = 0 then None
              else Some (hb_reserve (shard_ops D) (as_map target)
                     (max ((initial_entries tel + to_shards tel - 1) div to_shards tel) 1)))
        else Some (as_map target));
     (t, s) \<leftarrow> move_one (shard_ops D) target_map (as_map source) key;
     let m2 = set_previous_slot index (Some (deref_mut_set source s)) (unlock target_index (deref_mut_set target t) m1);
     Some (m2\<lparr>rebalance_tracker := moved (rebalance_tracker m2)\<rparr>)
   }"

definition move_next ::
  "('k, 'v, 'm, 'b) deps \<Rightarrow> telemetry \<Rightarrow> nat \<Rightarrow> 'm shard_data option \<Rightarrow> ('k, 'v, 'm, 'b) batch_state \<Rightarrow>
   ('k, 'v, 'm, 'b) batch_state option" where
  "move_next D tel index source s =
     (if work_keys s = [] then Some s
      else
        (let key = last (work_keys s); s1 = s\<lparr>work_keys := butlast (work_keys s)\<rparr> in
         case source of
           None \<Rightarrow> Some s1
         | Some sd \<Rightarrow> do {
             m \<leftarrow> migrate_key D tel index sd key (batch_map s1);
             Some (s1\<lparr>batch_map := m,
                     report := (report s1)\<lparr>rep_moved_entries := rep_moved_entries (report s1) + 1\<rparr>\<rparr>)
           }))"

definition retire_source ::
  "('k, 'v, 'm, 'b) deps \<Rightarrow> nat \<Rightarrow> ('k, 'v, 'm, 'b) batch_state \<Rightarrow> bool \<times> ('k, 'v, 'm, 'b) batch_state" where
  "retire_source D index s =
     (let m = batch_map s;
          drained = (case source_slot index m of None \<Rightarrow> True | Some sd \<Rightarrow> hb_len (shard_ops D) (as_map sd) = 0)
      in if drained
         then (True, s\<lparr>batch_map := (set_previous_slot index None m)\<lparr>rebalance_tracker := step (rebalance_tracker m)\<rparr>,
                      report := (report s)\<lparr>rep_completed_shards := rep_completed_shards (report s) + 1\<rparr>\<rparr>)
         else (False, s))"

text \<open>The end of an iteration; the first component says whether the loop goes on.\<close>

definition finish_or_yield ::
  "('k, 'v, 'm, 'b) deps \<Rightarrow> batch_env \<Rightarrow> nat \<Rightarrow> bool \<Rightarrow> ('k, 'v, 'm, 'b) batch_state \<Rightarrow> bool \<times> ('k, 'v, 'm, 'b) batch_state" where
  "finish_or_yield D env pause_ns drained s =
     (let m = batch_map s; status = tracker_snapshot (rebalance_tracker m); t = env_clock env (clock_reads s) in
      if status_moved status = status_total status
      then (False, s\<lparr>batch_map := m\<lparr>previous_shards := None, previous_shard_count := 0,
                       rebalance_tracker := finish (now D + t) (rebalance_tracker m)\<rparr>,
                     clock_reads := clock_reads s + 1, report := (report s)\<lparr>rep_complete := True\<rparr>\<rparr>)
      else if \<not> drained \<and> work_keys s = []
      then (False, s\<lparr>report := (report s)\<lparr>rep_budget_exhausted := True\<rparr>\<rparr>)
      else if pause_ns = 0 then (True, s)
      else if t \<ge> pause_ns
      then (False, s\<lparr>clock_reads := clock_reads s + 1, report := (report s)\<lparr>rep_budget_exhausted := True\<rparr>\<rparr>)
      else (True, s\<lparr>clock_reads := clock_reads s + 1\<rparr>))"

definition batch_step ::
  "('k, 'v, 'm, 'b) deps \<Rightarrow> batch_env \<Rightarrow> telemetry \<Rightarrow> nat \<Rightarrow> nat \<Rightarrow> ('k, 'v, 'm, 'b) batch_state \<Rightarrow>
   (bool \<times> ('k, 'v, 'm, 'b) batch_state) option" where
  "batch_step D env tel entry_limit pause_ns s =
     (let s0 = s\<lparr>control_reads := control_reads s + 1\<rparr> in
      if control_cancelled env (control_reads s) then Some (False, s0)
      else
        (let index = status_moved (tracker_snapshot (rebalance_tracker (batch_map s0)));
             source = source_slot index (batch_map s0)
         in do {
           s2 \<leftarrow> move_next D tel index source (load_work D env pause_ns entry_limit index s0);
           let (drained, s3) = retire_source D index s2;
           Some (finish_or_yield D env pause_ns drained s3)
         }))"

text \<open>
  The loop of a batch ends for every input: an iteration that goes on has either retired a source slot,
  of which at most \<open>max_shards\<close> are retired, or used up one of the keys it loaded.
\<close>

definition batch_measure :: "nat \<Rightarrow> ('k, 'v, 'm, 'b) batch_state \<Rightarrow> nat \<times> nat \<times> nat" where
  "batch_measure max_shards s =
     (max_shards - rep_completed_shards (report s),
      if loaded_index s = Some (status_moved (tracker_snapshot (rebalance_tracker (batch_map s)))) then 0 else 1,
      length (work_keys s))"

lemma load_work_simps [simp]:
  "loaded_index (load_work D env p e i s) = Some i" "batch_map (load_work D env p e i s) = batch_map s"
  "report (load_work D env p e i s) = report s"
  by (auto simp: load_work_def Let_def split: prod.splits)

lemma tracker_snapshot_moved_cong:
  "status_moved (tracker_snapshot p) = (if migrating p then completed_shards (telem p) else 0)"
  "status_total (tracker_snapshot p) = (if migrating p then total_shards (telem p) else 0)"
  by (simp_all add: tracker_snapshot_def)

lemma migrate_key_tracker:
  "migrate_key D tel i sd k m = Some m' \<Longrightarrow> rebalance_tracker m' = moved (rebalance_tracker m)"
  by (auto simp: migrate_key_def get_or_init_shard_def Let_def unlock_def set_previous_slot_def
      split: bind_splits option.splits prod.splits if_splits)

lemma move_next_facts:
  assumes "move_next D tel i src s = Some s'"
  shows "loaded_index s' = loaded_index s" "work_keys s' = butlast (work_keys s)"
    "rep_completed_shards (report s') = rep_completed_shards (report s)"
    "status_moved (tracker_snapshot (rebalance_tracker (batch_map s'))) =
     status_moved (tracker_snapshot (rebalance_tracker (batch_map s)))"
  using assms
  by (auto simp: move_next_def Let_def tracker_snapshot_moved_cong dest!: migrate_key_tracker
      split: if_splits option.splits bind_splits)

lemma batch_step_decreases:
  assumes "batch_step D env tel e p s = Some (True, s')" "rep_completed_shards (report s) < max_shards"
  shows "(batch_measure max_shards s', batch_measure max_shards s) \<in> less_than <*lex*> less_than <*lex*> less_than"
proof -
  define i where "i = status_moved (tracker_snapshot (rebalance_tracker (batch_map s)))"
  define s0 where "s0 = s\<lparr>control_reads := control_reads s + 1\<rparr>"
  obtain s2 drained s3 where s2: "move_next D tel i (source_slot i (batch_map s0)) (load_work D env p e i s0) = Some s2"
    and s3: "retire_source D i s2 = (drained, s3)" and s': "finish_or_yield D env p drained s3 = (True, s')"
    using assms(1) by (auto simp: batch_step_def s0_def i_def Let_def split: if_splits bind_splits prod.splits)
  note f = move_next_facts[OF s2]
  have same: "work_keys s' = work_keys s3" "loaded_index s' = loaded_index s3"
    "rep_completed_shards (report s') = rep_completed_shards (report s3)" "batch_map s' = batch_map s3"
    "drained \<or> work_keys s3 \<noteq> []"
    using s' by (auto simp: finish_or_yield_def Let_def split: if_splits)
  show ?thesis
  proof (cases drained)
    case True
    then have "rep_completed_shards (report s3) = Suc (rep_completed_shards (report s))"
      using s3 f by (auto simp: retire_source_def Let_def s0_def split: if_splits)
    then show ?thesis using assms(2) same by (auto simp: batch_measure_def)
  next
    case False
    then have "s3 = s2" using s3 by (auto simp: retire_source_def Let_def split: if_splits)
    then have "work_keys s' = butlast (work_keys (load_work D env p e i s0))" "loaded_index s' = Some i"
      "rep_completed_shards (report s') = rep_completed_shards (report s)"
      "status_moved (tracker_snapshot (rebalance_tracker (batch_map s'))) = i" "work_keys s' \<noteq> []"
      using f same False by (auto simp: s0_def i_def)
    then show ?thesis
      by (cases "loaded_index s = Some i")
        (auto simp: batch_measure_def i_def[symmetric] load_work_def s0_def intro!: diff_less)
  qed
qed

function batch_loop ::
  "('k, 'v, 'm, 'b) deps \<Rightarrow> batch_env \<Rightarrow> telemetry \<Rightarrow> nat \<Rightarrow> nat \<Rightarrow> nat \<Rightarrow> ('k, 'v, 'm, 'b) batch_state \<Rightarrow>
   ('k, 'v, 'm, 'b) batch_state option" where
  "batch_loop D env tel max_shards entry_limit pause_ns s =
     (if rep_completed_shards (report s) < max_shards \<and> rep_moved_entries (report s) < entry_limit
      then (case batch_step D env tel entry_limit pause_ns s of
              None \<Rightarrow> None
            | Some (go, s') \<Rightarrow> if go then batch_loop D env tel max_shards entry_limit pause_ns s' else Some s')
      else Some s)"
  by pat_completeness auto
termination
  by (relation "inv_image (less_than <*lex*> less_than <*lex*> less_than)
       (\<lambda>(D, env, tel, max_shards, e, p, s). batch_measure max_shards s)")
    (auto intro: wf_inv_image simp: batch_step_decreases)

declare batch_loop.simps [simp del]

definition advance_rebalance_inner ::
  "('k, 'v, 'm, 'b) deps \<Rightarrow> batch_env \<Rightarrow> nat \<Rightarrow> nat \<Rightarrow> nat \<Rightarrow> u64 option \<Rightarrow> ('k, 'v, 'm, 'b) sharded_map \<Rightarrow>
   (batch_report \<times> ('k, 'v, 'm, 'b) sharded_map) option" where
  "advance_rebalance_inner D env max_shards entry_limit pause_ns expected m =
     (let tel = tracker_telemetry (now D) (rebalance_tracker m) in
      if (case expected of None \<Rightarrow> False | Some g \<Rightarrow> g \<noteq> generation tel) \<or> paused tel \<or> control_cancelled env 0 \<or> max_shards = 0
      then Some (batch_report_default, m)
      else if \<not> is_migrating (rebalance_tracker m)
      then Some (batch_report_default\<lparr>rep_complete := True\<rparr>, m)
      else do {
        s \<leftarrow> batch_loop D env tel max_shards entry_limit pause_ns
               \<lparr>work_keys = [], loaded_index = None, report = batch_report_default, batch_map = m,
                clock_reads = 0, control_reads = 1\<rparr>;
        let r = report s;
        let r' = r\<lparr>rep_elapsed_ns := env_clock env (clock_reads s),
                   rep_budget_exhausted := rep_budget_exhausted r \<or>
                     (\<not> rep_complete r \<and> rep_moved_entries r \<ge> entry_limit)\<rparr>;
        Some (r', (batch_map s)\<lparr>rebalance_tracker := record_batch (generation tel)
                     (env_clock env (clock_reads s + 1)) pause_ns (rebalance_tracker (batch_map s))\<rparr>)
      })"

definition advance_rebalance ::
  "('k, 'v, 'm, 'b) deps \<Rightarrow> (nat \<Rightarrow> nat) \<Rightarrow> nat \<Rightarrow> ('k, 'v, 'm, 'b) sharded_map \<Rightarrow> (nat \<times> ('k, 'v, 'm, 'b) sharded_map) option" where
  "advance_rebalance D clk max_shards m = do {
     (r, m') \<leftarrow> advance_rebalance_inner D \<lparr>env_clock = clk, env_control = None\<rparr> max_shards USIZE_MAX 0 None m;
     Some (rep_completed_shards r, m')
   }"

definition advance_rebalance_with_options ::
  "('k, 'v, 'm, 'b) deps \<Rightarrow> (nat \<Rightarrow> nat) \<Rightarrow> rebalance_options \<Rightarrow> ('k, 'v, 'm, 'b) sharded_map \<Rightarrow>
   (batch_report \<times> ('k, 'v, 'm, 'b) sharded_map) option" where
  "advance_rebalance_with_options D clk opts m =
     advance_rebalance_inner D \<lparr>env_clock = clk, env_control = None\<rparr> USIZE_MAX (max (opt_batch_size opts) 1)
       (opt_max_pause_ns opts) None m"

section \<open>Completing a rebalance\<close>

text \<open>Staging: every stored entry goes into the map of its new shard unless the key is there already.\<close>

definition staged_insert ::
  "('k, 'v, 'm, 'b) deps \<Rightarrow> nat \<Rightarrow> 'k \<times> 'v \<Rightarrow> 'm option list \<times> nat \<Rightarrow> ('m option list \<times> nat) option" where
  "staged_insert D target = (\<lambda>(key, val) (maps, n).
     if target = 0 then None
     else do {
       let index = unat (hash_one D key) mod target;
       slot \<leftarrow> index_checked maps index;
       let mp = (case slot of None \<Rightarrow> hb_new (shard_ops D) | Some mp \<Rightarrow> mp);
       Some (case hb_get (shard_ops D) mp key of
               None \<Rightarrow> (maps[index := Some (snd (hb_insert (shard_ops D) mp key val))], n + 1)
             | Some _ \<Rightarrow> (maps[index := Some mp], n))
     })"

definition stage_all ::
  "('k, 'v, 'm, 'b) deps \<Rightarrow> nat \<Rightarrow> ('k, 'v, 'm, 'b) sharded_map \<Rightarrow> ('m option list \<times> nat) option" where
  "stage_all D target m = fold_option (staged_insert D target) (stored_entries D m) (replicate target None, 0)"

definition publish_staged ::
  "('k, 'v, 'm, 'b) deps \<Rightarrow> nat \<Rightarrow> 'm option list \<Rightarrow> nat \<Rightarrow> ('k, 'v, 'm, 'b) sharded_map \<Rightarrow> ('k, 'v, 'm, 'b) sharded_map" where
  "publish_staged D target maps n m =
     m\<lparr>shards := map (map_option (\<lambda>mp. shard_data_new mp (snapshot_mode m))) maps,
       previous_shards := None, previous_shard_count := 0, shard_count := target,
       lifecycle := mark_pending (lifecycle m),
       rebalance_tracker :=
         finish_staged (now D + elapsed D) (shard_count m) target n (now D) (rebalance_tracker m)\<rparr>"

text \<open>The cooperative loop; \<open>clks i\<close> is the clock of round \<open>i\<close>. \<open>None\<close> is a panic or no end.\<close>

partial_function (option) cooperative_loop ::
  "('k, 'v, 'm, 'b) deps \<Rightarrow> (nat \<Rightarrow> nat \<Rightarrow> nat) \<Rightarrow> nat \<Rightarrow> rebalance_options \<Rightarrow> nat \<Rightarrow> nat \<Rightarrow> ('k, 'v, 'm, 'b) sharded_map \<Rightarrow>
   (nat \<times> ('k, 'v, 'm, 'b) sharded_map) option" where
  "cooperative_loop D clks target opts rnd n m =
     (let current = shard_count m; migr = is_migrating (rebalance_tracker m) in
      if \<not> migr \<and> current = target then Some (n, m)
      else do {
        let m1 = (if migr then m else begin_migration D current target m);
        let m2 = snd (resume_rebalance m1);
        (r, m3) \<leftarrow> advance_rebalance_with_options D (clks rnd) opts m2;
        cooperative_loop D clks target opts (rnd + 1) (n + rep_moved_entries r) m3
      })"

definition rebalance_to ::
  "('k, 'v, 'm, 'b) deps \<Rightarrow> (nat \<Rightarrow> nat \<Rightarrow> nat) \<Rightarrow> nat \<Rightarrow> rebalance_options \<Rightarrow> ('k, 'v, 'm, 'b) sharded_map \<Rightarrow>
   ((shard_count_error + rebalance_report) \<times> ('k, 'v, 'm, 'b) sharded_map) option" where
  "rebalance_to D clks new_shard_count opts m =
     (case strict_shard_count new_shard_count MAX_SHARDS of
        Inl e \<Rightarrow> Some (Inl e, m)
      | Inr target \<Rightarrow>
          if opt_background opts then do {
            let from = shard_count m;
            (n, m') \<leftarrow> cooperative_loop D clks target opts 0 0 m;
            Some (Inr \<lparr>rr_from_shards = from, rr_to_shards = target, rr_moved_entries = n,
                       rr_elapsed_ms = elapsed D div 1000000\<rparr>, m')
          }
          else if target = shard_count m \<and> \<not> is_migrating (rebalance_tracker m)
          then Some (Inr \<lparr>rr_from_shards = shard_count m, rr_to_shards = target, rr_moved_entries = 0,
                          rr_elapsed_ms = 0\<rparr>, m)
          else do {
            (maps, n) \<leftarrow> stage_all D target m;
            Some (Inr \<lparr>rr_from_shards = shard_count m, rr_to_shards = target, rr_moved_entries = n,
                       rr_elapsed_ms = elapsed D div 1000000\<rparr>, publish_staged D target maps n m)
          })"

section \<open>The supervised worker\<close>

record worker_ticket =
  ticket_generation :: u64
  ticket_complete :: bool
  ticket_from :: nat
  ticket_target :: nat

text \<open>\<open>spawn_rebalance\<close> up to the creation of the thread; \<open>spawned\<close> is whether the system creates it.\<close>

definition spawn_rebalance ::
  "('k, 'v, 'm, 'b) deps \<Rightarrow> bool \<Rightarrow> nat \<Rightarrow> ('k, 'v, 'm, 'b) sharded_map \<Rightarrow>
   (rebalance_error + worker_ticket) \<times> ('k, 'v, 'm, 'b) sharded_map" where
  "spawn_rebalance D spawned n m =
     (case strict_shard_count n MAX_SHARDS of
        Inl e \<Rightarrow> (Inl (InvalidShardCount e), m)
      | Inr target \<Rightarrow>
          if has_worker (rebalance_tracker m) then (Inl WorkerAlreadyRunning, m)
          else
            (let migr = is_migrating (rebalance_tracker m); current = shard_count m in
             if migr \<and> current \<noteq> target then (Inl (TargetMismatch current target), m)
             else
               (let already_complete = (\<not> migr \<and> current = target);
                    m1 = (if \<not> migr \<and> \<not> already_complete then begin_migration D current target m else m);
                    tel = tracker_telemetry (now D) (rebalance_tracker m1);
                    (claimed, tr) = claim_worker (generation tel) (rebalance_tracker m1);
                    m2 = m1\<lparr>rebalance_tracker := tr\<rparr>
                in if \<not> claimed then (Inl WorkerAlreadyRunning, m1)
                   else if \<not> spawned
                   then (Inl Spawn, m2\<lparr>rebalance_tracker := release_worker (generation tel) tr\<rparr>)
                   else (Inr \<lparr>ticket_generation = generation tel, ticket_complete = already_complete,
                              ticket_from = (if already_complete then current else from_shards tel),
                              ticket_target = target\<rparr>, m2))))"

record worker_state =
  wk_moved :: nat
  wk_completed :: bool
  wk_effective :: nat

definition worker_start :: "worker_ticket \<Rightarrow> rebalance_options \<Rightarrow> worker_state" where
  "worker_start tk opts =
     \<lparr>wk_moved = 0, wk_completed = ticket_complete tk, wk_effective = max (opt_batch_size opts) 1\<rparr>"

text \<open>
  One round of the worker's loop after \<open>wait_ready\<close> has let it through: the state, whether it leaves the
  loop, and the map after the batch.
\<close>

definition worker_round ::
  "('k, 'v, 'm, 'b) deps \<Rightarrow> batch_env \<Rightarrow> rebalance_options \<Rightarrow> u64 \<Rightarrow> worker_state \<Rightarrow> ('k, 'v, 'm, 'b) sharded_map \<Rightarrow>
   (bool \<times> worker_state \<times> ('k, 'v, 'm, 'b) sharded_map) option" where
  "worker_round D env opts gen w m = do {
     (r, m') \<leftarrow> advance_rebalance_inner D env USIZE_MAX (wk_effective w) (opt_max_pause_ns opts) (Some gen) m;
     let w1 = w\<lparr>wk_moved := wk_moved w + rep_moved_entries r\<rparr>;
     Some (if rep_complete r then (True, w1\<lparr>wk_completed := True\<rparr>, m')
           else if opt_max_pause_ns opts \<noteq> 0 \<and> rep_elapsed_ns r > opt_max_pause_ns opts
           then (False, w1\<lparr>wk_effective := max (wk_effective w div 2) 1\<rparr>, m')
           else (False, w1\<lparr>wk_effective := min (min (wk_effective w + 1) USIZE_MAX) (max (opt_batch_size opts) 1)\<rparr>, m'))
   }"

record rebalance_outcome =
  out_completed :: bool
  out_report :: rebalance_report

definition worker_outcome ::
  "('k, 'v, 'm, 'b) deps \<Rightarrow> worker_ticket \<Rightarrow> worker_state \<Rightarrow> ('k, 'v, 'm, 'b) sharded_map \<Rightarrow> rebalance_outcome" where
  "worker_outcome D tk w m =
     (let final_state = tracker_telemetry (now D) (rebalance_tracker m) in
      \<lparr>out_completed = (wk_completed w \<or> (generation final_state = ticket_generation tk \<and> complete final_state)),
       out_report = \<lparr>rr_from_shards = ticket_from tk, rr_to_shards = ticket_target tk,
                      rr_moved_entries = wk_moved w, rr_elapsed_ms = elapsed D div 1000000\<rparr>\<rparr>)"

text \<open>
  The worker running on its own: \<open>cancels i\<close> is the flag \<open>wait_ready\<close> reads before round \<open>i\<close>. A round that
  blocks blocks for good when nobody else runs, so it has no result. The drop of the lease ends the thread.
\<close>

partial_function (option) worker_loop ::
  "('k, 'v, 'm, 'b) deps \<Rightarrow> (nat \<Rightarrow> batch_env) \<Rightarrow> (nat \<Rightarrow> bool) \<Rightarrow> rebalance_options \<Rightarrow> worker_ticket \<Rightarrow> nat \<Rightarrow>
   worker_state \<Rightarrow> ('k, 'v, 'm, 'b) sharded_map \<Rightarrow> (rebalance_outcome \<times> ('k, 'v, 'm, 'b) sharded_map) option" where
  "worker_loop D envs cancels opts tk rnd w m =
     (let gen = ticket_generation tk;
          leave = (\<lambda>w m. Some (worker_outcome D tk w m,
             m\<lparr>rebalance_tracker := release_worker gen (rebalance_tracker m)\<rparr>))
      in do {
        ready \<leftarrow> wait_ready gen (cancels rnd) (rebalance_tracker m);
        if \<not> ready then leave w m
        else do {
          (stop, w', m') \<leftarrow> worker_round D (envs rnd) opts gen w m;
          if stop then leave w' m' else worker_loop D envs cancels opts tk (rnd + 1) w' m'
        }
      })"

definition run_worker ::
  "('k, 'v, 'm, 'b) deps \<Rightarrow> (nat \<Rightarrow> batch_env) \<Rightarrow> (nat \<Rightarrow> bool) \<Rightarrow> rebalance_options \<Rightarrow> worker_ticket \<Rightarrow>
   ('k, 'v, 'm, 'b) sharded_map \<Rightarrow> (rebalance_outcome \<times> ('k, 'v, 'm, 'b) sharded_map) option" where
  "run_worker D envs cancels opts tk m = worker_loop D envs cancels opts tk 0 (worker_start tk opts) m"

end
