(* ===== verification/Sync_Migration.thy ===== *)
theory Sync_Migration
  imports Sync_Rebalance Sync_Correct
begin

text \<open>
  Correctness of resharding: whatever the target, the budgets and the clock, no entry point of
  \<open>rebalance_impl.rs\<close> changes what a reader sees, every batch makes progress, and the loops that promise
  completion complete.
\<close>

section \<open>Steps of a migration on the directories\<close>

text \<open>What resharding keeps.\<close>

definition same_content :: "('k, 'v, 'm, 'b) deps \<Rightarrow> ('k, 'v, 'm, 'b) sharded_map \<Rightarrow> ('k, 'v, 'm, 'b) sharded_map \<Rightarrow> bool" where
  "same_content D m m' \<longleftrightarrow>
     view D m' = view D m \<and> stored_len D m' = stored_len D m \<and> total_len m' = total_len m \<and>
     write_epoch m' = write_epoch m \<and> snapshot_mode m' = snapshot_mode m \<and> snapshot_cache m' = snapshot_cache m \<and>
     life_opts (lifecycle m') = life_opts (lifecycle m) \<and> profiling_enabled m' = profiling_enabled m"

lemma same_content_refl [simp]: "same_content D m m"
  by (simp add: same_content_def)

lemma same_content_trans: "same_content D a b \<Longrightarrow> same_content D b c \<Longrightarrow> same_content D a c"
  by (simp add: same_content_def)

lemma wf_map_dirs: "wf_map D m \<Longrightarrow> wf_dirs D m"
  by (simp add: wf_map_def)

lemma same_content_wf: "same_content D m m' \<Longrightarrow> wf_dirs D m' \<Longrightarrow> wf_map D m \<Longrightarrow> wf_map D m'"
  by (simp add: same_content_def wf_map_def)

lemma same_content_tracker [simp]: "same_content D m (m'\<lparr>rebalance_tracker := t\<rparr>) = same_content D m m'"
  by (simp add: same_content_def)

lemma prev_slots_tracker [simp]: "prev_slots (m\<lparr>rebalance_tracker := t\<rparr>) = prev_slots m"
  by (simp add: prev_slots_def)

lemma wf_dirs_tracker: "wf_dirs D m \<Longrightarrow> migration_ok t (previous_shards m) \<Longrightarrow> wf_dirs D (m\<lparr>rebalance_tracker := t\<rparr>)"
  by (simp add: wf_dirs_def prev_slots_def)

lemma migration_ok_cong:
  "\<lbrakk>migration_ok t prev; tracker_inv t'; migrating t' = migrating t; total_shards (telem t') = total_shards (telem t);
    completed_shards (telem t') = completed_shards (telem t); to_shards (telem t') = to_shards (telem t)\<rbrakk>
   \<Longrightarrow> migration_ok t' prev"
  by (cases prev) (simp_all add: migration_ok_def)

lemma to_shards_kept [simp]:
  "to_shards (telem (moved p)) = to_shards (telem p)" "to_shards (telem (record_batch g e b p)) = to_shards (telem p)"
  "to_shards (telem (snd (pause c p))) = to_shards (telem p)"
  by (simp_all add: moved_def record_batch_def pause_def)

lemma migration_ok_moved: "migration_ok t prev \<Longrightarrow> migration_ok (moved t) prev"
  by (rule migration_ok_cong) (auto simp: migration_ok_def intro: tracker_inv_moved)

lemma migration_ok_record: "migration_ok t prev \<Longrightarrow> migration_ok (record_batch g e b t) prev"
  by (rule migration_ok_cong) (auto simp: migration_ok_def intro: tracker_inv_record_batch)

lemma migration_ok_pause: "migration_ok t prev \<Longrightarrow> migration_ok (snd (pause b t)) prev"
  by (rule migration_ok_cong) (auto simp: migration_ok_def intro: tracker_inv_pause)

lemma migration_okE:
  assumes "wf_dirs D m" "migrating (rebalance_tracker m)"
  shows "previous_shards m = Some (prev_slots m)" "total_shards (telem (rebalance_tracker m)) = length (prev_slots m)"
    "completed_shards (telem (rebalance_tracker m)) < length (prev_slots m)" "0 < to_shards (telem (rebalance_tracker m))"
    "i < completed_shards (telem (rebalance_tracker m)) \<Longrightarrow> prev_slots m ! i = None"
  using wf_dirsD(7)[OF assms(1)] assms(2) by (auto simp: migration_ok_def prev_slots_def split: option.splits)

lemma not_migrating_prev: "wf_dirs D m \<Longrightarrow> \<not> migrating (rebalance_tracker m) \<Longrightarrow> previous_shards m = None \<and> prev_slots m = []"
  by (auto simp: wf_dirs_def migration_ok_def prev_slots_def)

lemma slots_get_replicate_None [simp]: "slots_get D (replicate n None) k = None"
  by (simp add: slots_get_def route_def)

lemma slots_len_replicate_None [simp]: "slots_len D (replicate n None) = 0"
  by (simp add: slots_len_def)

lemma life_opts_mark_pending [simp]: "life_opts (mark_pending l) = life_opts l"
  by (simp add: life_opts_def mark_pending_def)

lemma begin_migration_spec:
  assumes wf: "wf_dirs D m" and nm: "\<not> migrating (rebalance_tracker m)" and t: "0 < target"
  defines "m' \<equiv> begin_migration D (length (shards m)) target m"
  shows "wf_dirs D m'" "same_content D m m'" "migrating (rebalance_tracker m')" "shard_count m' = target"
    "\<not> paused (telem (rebalance_tracker m'))" "worker_generation (rebalance_tracker m') = worker_generation (rebalance_tracker m)"
    "generation (telem (rebalance_tracker m')) = generation (telem (rebalance_tracker m)) + 1" "prev_slots m' = shards m"
    "completed_shards (telem (rebalance_tracker m')) = 0"
proof -
  have prev: "prev_slots m' = shards m" "previous_shards m' = Some (shards m)"
    by (simp_all add: m'_def begin_migration_def prev_slots_def)
  have "migration_ok (rebalance_tracker m') (Some (shards m))"
    using wf_dirsD(3)[OF wf] t
    by (auto simp: migration_ok_def m'_def begin_migration_def telemetry_default_def intro!: tracker_inv_begin)
  moreover have "slots_ok D (snapshot_mode m) (replicate target None)" by (simp add: slots_ok_def)
  ultimately show "wf_dirs D m'"
    using wf t prev by (auto simp: wf_dirs_def) (auto simp: m'_def begin_migration_def)
  show "same_content D m m'"
    using not_migrating_prev[OF wf nm] prev
    by (auto simp: same_content_def view_def stored_len_def fun_eq_iff map_add_def m'_def begin_migration_def prev_slots_def
        split: option.splits)
qed (simp_all add: m'_def begin_migration_def telemetry_default_def prev_slots_def)

context starshard_deps
begin

lemma migrate_key_spec:
  assumes wf: "wf_dirs D m" and j: "j < length (prev_slots m)" and p: "prev_slots m ! j = Some sd"
    and k: "hb_get (shard_ops D) (as_map sd) k = Some v" and tel: "0 < to_shards tel"
  shows "\<exists>m' P. migrate_key D tel j sd k m = Some m' \<and> wf_dirs D m' \<and> same_content D m m' \<and>
     Suc (slots_len D (prev_slots m')) = slots_len D (prev_slots m) \<and> prev_slots m' = (prev_slots m)[j := Some P] \<and>
     hb_get (shard_ops D) (as_map P) = (hb_get (shard_ops D) (as_map sd))(k := None) \<and>
     rebalance_tracker m' = moved (rebalance_tracker m) \<and> shard_count m' = shard_count m"
proof -
  define i where "i = route D (length (shards m)) k"
  let ?T = "init_slot D m i"
  define tm where "tm = (if hb_capacity (shard_ops D) (as_map ?T) = 0
     then hb_reserve (shard_ops D) (as_map ?T) (max ((initial_entries tel + to_shards tel - 1) div to_shards tel) 1) else as_map ?T)"
  have i: "i < length (shards m)" using wf_dirsD(1)[OF wf] by (simp add: i_def route_less)
  have tm: "hb_get (shard_ops D) tm = hb_get (shard_ops D) (as_map ?T)" by (simp add: tm_def H.get_reserve)
  have "slots_get D (prev_slots m) k = Some v" by (rule slot_in_get[OF wf_dirsD(6)[OF wf] j p k])
  then have none: "hb_get (shard_ops D) (as_map ?T) k = None"
    using wf_dirsD(8)[OF wf, of k] init_slot_get[of m i k] slots_get_at[OF i, of D k] by (simp add: i_def)
  obtain a' p' where ap: "promote_entry (shard_ops D) tm (as_map sd) k = (a', p')"
    by (cases "promote_entry (shard_ops D) tm (as_map sd) k")
  let ?A = "deref_mut_set ?T a'" and ?P = "deref_mut_set sd p'"
  let ?m3 = "unlock i ?A (set_previous_slot j (Some ?P) m)"
  have ga: "hb_get (shard_ops D) (as_map ?A) = (hb_get (shard_ops D) (as_map ?T))(k \<mapsto> v)"
    using H.promote_entry_active[of tm "as_map sd" k] ap none k tm by simp
  have gp: "hb_get (shard_ops D) (as_map ?P) = (hb_get (shard_ops D) (as_map sd))(k := None)"
    using H.promote_entry_previous[of tm "as_map sd" k] ap by simp
  note tr = transfer_key[OF wf j p k i_def ga shared_deref_mut_set gp shared_deref_mut_set]
  have "migrate_key D tel j sd k m = Some (?m3\<lparr>rebalance_tracker := moved (rebalance_tracker m)\<rparr>)"
    using i tel k ap H.move_one_is_promote[of "as_map sd" k tm]
    by (cases "hb_capacity (shard_ops D) (as_map ?T) = 0")
      (simp_all add: migrate_key_def shard_index_wf[OF wf] get_or_init_eq i_def[symmetric] tm_def unlock_set_previous Let_def)
  moreover have "wf_dirs D (?m3\<lparr>rebalance_tracker := moved (rebalance_tracker m)\<rparr>)"
    using wf_dirs_tracker[OF tr(1)] wf_dirsD(7)[OF tr(1)] by (simp add: migration_ok_moved)
  moreover have "same_content D m (?m3\<lparr>rebalance_tracker := moved (rebalance_tracker m)\<rparr>)"
    using tr by (simp add: same_content_def)
  ultimately show ?thesis using tr gp
    by (intro exI[of _ "?m3\<lparr>rebalance_tracker := moved (rebalance_tracker m)\<rparr>"] exI[of _ ?P]) simp
qed

lemma slots_get_drop_empty:
  assumes "j < length slots" "\<And>k. slot_get D (slots ! j) k = None"
  shows "slots_get D (slots[j := None]) = slots_get D slots" "slots_len D (slots[j := None]) = slots_len D slots"
proof -
  show "slots_get D (slots[j := None]) = slots_get D slots"
    using assms slots_get_at[OF assms(1), of D] by (auto simp: fun_eq_iff slots_get_update)
  have "slot_get D (slots ! j) = Map.empty" using assms(2) by (simp add: fun_eq_iff)
  then have "slot_len D (slots ! j) = 0" using card_slot_get[of "slots ! j"] by simp
  then show "slots_len D (slots[j := None]) = slots_len D slots" using slots_len_update[OF assms(1), of D None] by simp
qed

lemma retire_spec:
  assumes wf: "wf_dirs D m" and mg: "migrating (rebalance_tracker m)"
    and c: "c = completed_shards (telem (rebalance_tracker m))" and e: "\<And>k. slot_get D (prev_slots m ! c) k = None"
  defines "m' \<equiv> (set_previous_slot c None m)\<lparr>rebalance_tracker := step (rebalance_tracker m)\<rparr>"
  shows "Suc c < length (prev_slots m) \<Longrightarrow> wf_dirs D m'" "same_content D m m'"
    "slots_len D (prev_slots m') = slots_len D (prev_slots m)" "length (prev_slots m') = length (prev_slots m)"
proof -
  note mo = migration_okE[OF wf mg]
  have cl: "c < length (prev_slots m)" using mo(3) c by simp
  note drop = slots_get_drop_empty[OF cl e]
  show "same_content D m m'"
    using drop by (simp add: m'_def same_content_def view_def stored_len_def)
  show "slots_len D (prev_slots m') = slots_len D (prev_slots m)" "length (prev_slots m') = length (prev_slots m)"
    using drop by (simp_all add: m'_def)
  assume l: "Suc c < length (prev_slots m)"
  have "migration_ok (step (rebalance_tracker m)) (Some ((prev_slots m)[c := None]))"
    using wf_dirsD(7)[OF wf] mo l mg c
    by (auto simp: migration_ok_def nth_list_update less_Suc_eq intro!: tracker_inv_step)
  moreover have "slots_ok D (snapshot_mode m) ((prev_slots m)[c := None])"
    by (rule slots_ok_update[OF wf_dirsD(6)[OF wf] cl]) simp
  moreover have "previous_shards (set_previous_slot c None m) = Some ((prev_slots m)[c := None])"
    using mo(1) by (simp add: set_previous_slot_def)
  ultimately show "wf_dirs D m'" using wf drop(1) unfolding wf_dirs_def m'_def by simp
qed

lemma finish_spec:
  fixes t :: nat
  assumes wf: "wf_dirs D m" and mg: "migrating (rebalance_tracker m)"
    and c: "c = completed_shards (telem (rebalance_tracker m))" and e: "\<And>k. slot_get D (prev_slots m ! c) k = None"
    and last: "Suc c = length (prev_slots m)"
  defines "m' \<equiv> (set_previous_slot c None m)\<lparr>previous_shards := None, previous_shard_count := 0,
      rebalance_tracker := finish t (step (rebalance_tracker m))\<rparr>"
  shows "wf_dirs D m'" "same_content D m m'" "slots_len D (prev_slots m) = 0"
proof -
  note mo = migration_okE[OF wf mg]
  have "slot_get D (prev_slots m ! j) k = None" if "j < length (prev_slots m)" for j k
    using that e mo(5)[of j] last c by (cases "j = c") auto
  then have none: "slots_get D (prev_slots m) k = None" for k
    using route_less[of "prev_slots m" D k] by (auto simp: slots_get_def)
  then have "slots_get D (prev_slots m) = Map.empty" by (simp add: fun_eq_iff)
  then show len: "slots_len D (prev_slots m) = 0" using card_slots_get[OF wf_dirsD(6)[OF wf]] by simp
  have "migration_ok (finish t (step (rebalance_tracker m))) None"
    by (simp add: migration_ok_def tracker_inv_finish)
  moreover have "slots_ok D (snapshot_mode m) []" by (simp add: slots_ok_def)
  ultimately show "wf_dirs D m'" using wf by (simp add: wf_dirs_def m'_def prev_slots_def)
  have "prev_slots m' = []" "shards m' = shards m" by (simp_all add: m'_def prev_slots_def)
  then have "view D m' = view D m" "stored_len D m' = stored_len D m"
    using none len by (auto simp: view_def stored_len_def fun_eq_iff map_add_def split: option.splits)
  then show "same_content D m m'" by (simp add: same_content_def) (simp add: m'_def)
qed

end

section \<open>The loop of a batch\<close>

definition batch_core ::
  "('k, 'v, 'm, 'b) deps \<Rightarrow> ('k, 'v, 'm, 'b) sharded_map \<Rightarrow> ('k, 'v, 'm, 'b) sharded_map \<Rightarrow> bool" where
  "batch_core D m0 m \<longleftrightarrow>
     wf_dirs D m \<and> same_content D m0 m \<and> shard_count m = shard_count m0 \<and>
     generation (telem (rebalance_tracker m)) = generation (telem (rebalance_tracker m0)) \<and>
     worker_generation (rebalance_tracker m) = worker_generation (rebalance_tracker m0)"

definition batch_running ::
  "('k, 'v, 'm, 'b) deps \<Rightarrow> ('k, 'v, 'm, 'b) sharded_map \<Rightarrow> batch_report \<Rightarrow> ('k, 'v, 'm, 'b) sharded_map \<Rightarrow> bool" where
  "batch_running D m0 r m \<longleftrightarrow>
     batch_core D m0 m \<and> migrating (rebalance_tracker m) \<and> \<not> rep_complete r \<and>
     paused (telem (rebalance_tracker m)) = paused (telem (rebalance_tracker m0)) \<and>
     length (prev_slots m) = length (prev_slots m0) \<and>
     completed_shards (telem (rebalance_tracker m)) = completed_shards (telem (rebalance_tracker m0)) + rep_completed_shards r \<and>
     slots_len D (prev_slots m) + rep_moved_entries r = slots_len D (prev_slots m0)"

definition batch_done ::
  "('k, 'v, 'm, 'b) deps \<Rightarrow> ('k, 'v, 'm, 'b) sharded_map \<Rightarrow> batch_report \<Rightarrow> ('k, 'v, 'm, 'b) sharded_map \<Rightarrow> bool" where
  "batch_done D m0 r m \<longleftrightarrow>
     batch_core D m0 m \<and> \<not> migrating (rebalance_tracker m) \<and> complete (telem (rebalance_tracker m)) \<and> rep_complete r \<and>
     rep_moved_entries r = slots_len D (prev_slots m0) \<and>
     completed_shards (telem (rebalance_tracker m0)) + rep_completed_shards r = length (prev_slots m0)"

text \<open>The keys still to be moved are keys of the current source; \<open>exact\<close> when all of them were loaded.\<close>

definition work_ok :: "('k, 'v, 'm, 'b) deps \<Rightarrow> bool \<Rightarrow> 'k list \<Rightarrow> 'm shard_data option \<Rightarrow> bool" where
  "work_ok D exact ks slot \<longleftrightarrow>
     distinct ks \<and> (\<forall>k \<in> set ks. slot_get D slot k \<noteq> None) \<and> (exact \<longrightarrow> length ks = slot_len D slot)"

definition batch_inv ::
  "('k, 'v, 'm, 'b) deps \<Rightarrow> bool \<Rightarrow> ('k, 'v, 'm, 'b) sharded_map \<Rightarrow> ('k, 'v, 'm, 'b) batch_state \<Rightarrow> bool" where
  "batch_inv D exact m0 s \<longleftrightarrow>
     (let m = batch_map s; c = completed_shards (telem (rebalance_tracker m)) in
      batch_running D m0 (report s) m \<and>
      (if loaded_index s = Some c
       then work_ok D exact (work_keys s) (prev_slots m ! c) \<and>
            (work_keys s = [] \<longrightarrow> slot_len D (prev_slots m ! c) = 0)
       else work_keys s = []))"

text \<open>The work a batch has done.\<close>

definition batch_work :: "batch_report \<Rightarrow> nat" where
  "batch_work r = rep_moved_entries r + rep_completed_shards r"

lemma wf_batch_measure: "wf (less_than <*lex*> less_than <*lex*> less_than)"
  by (intro wf_lex_prod wf_less_than)

lemma load_keys_take: "\<exists>j. fst (load_keys clk p ks n) = take j ks \<and> (ks \<noteq> [] \<longrightarrow> 0 < j) \<and> (p = 0 \<longrightarrow> j = length ks)"
proof (induction clk p ks n rule: load_keys.induct)
  case (2 clk p k ks n)
  consider "p = 0" | "p \<noteq> 0" "clk n \<ge> p" | "p \<noteq> 0" "\<not> clk n \<ge> p" by blast
  then show ?case
  proof cases
    case 1
    then obtain j where "fst (load_keys clk p ks n) = take j ks" "j = length ks" using 2(1) by auto
    then show ?thesis using 1 by (intro exI[of _ "Suc (length ks)"]) (simp add: split_beta)
  next
    case 2
    then show ?thesis by (intro exI[of _ 1]) simp
  next
    case 3
    then obtain j where "fst (load_keys clk p ks (n + 1)) = take j ks" using 2(2) by auto
    then show ?thesis using 3 by (intro exI[of _ "Suc j"]) (simp add: split_beta)
  qed
qed simp

lemma source_slot_wf:
  assumes "wf_dirs D m" "migrating (rebalance_tracker m)"
  shows "source_slot (completed_shards (telem (rebalance_tracker m))) m = prev_slots m ! completed_shards (telem (rebalance_tracker m))"
  using migration_okE(1,3)[OF assms] by (simp add: source_slot_def)

lemma slots_len_at: "i < length slots \<Longrightarrow> slot_len D (slots ! i) \<le> slots_len D slots"
  unfolding slots_len_def by (metis elem_le_sum_list length_map nth_map)

context starshard_deps
begin

lemma slot_len_zero: "slot_len D slot = 0 \<longleftrightarrow> (\<forall>k. slot_get D slot k = None)"
  by (cases slot) (auto simp: H.len_zero fun_eq_iff)

lemma work_ok_pop:
  assumes "work_ok D exact (ks @ [k]) (Some sd)" "hb_get (shard_ops D) (as_map P) = (hb_get (shard_ops D) (as_map sd))(k := None)"
  shows "work_ok D exact ks (Some P)"
proof -
  obtain v where "hb_get (shard_ops D) (as_map sd) k = Some v" using assms(1) by (auto simp: work_ok_def)
  from len_del[OF this assms(2)] show ?thesis using assms by (auto simp: work_ok_def)
qed

lemma load_work_ok:
  fixes env :: batch_env
  assumes inv: "batch_inv D exact m0 s" and c: "c = completed_shards (telem (rebalance_tracker (batch_map s)))"
    and e: "rep_moved_entries (report s) < e" and ex: "exact \<longrightarrow> p = 0 \<and> slots_len D (prev_slots m0) < e"
  defines "ks \<equiv> work_keys (load_work D env p e c s)"
  shows "work_ok D exact ks (prev_slots (batch_map s) ! c)" "ks = [] \<Longrightarrow> slot_len D (prev_slots (batch_map s) ! c) = 0"
proof -
  let ?m = "batch_map s" and ?slot = "prev_slots (batch_map s) ! c"
  have run: "batch_running D m0 (report s) ?m" using inv by (simp add: batch_inv_def Let_def)
  then have wf: "wf_dirs D ?m" "migrating (rebalance_tracker ?m)" by (simp_all add: batch_running_def batch_core_def)
  note src = source_slot_wf[OF wf, folded c]
  have "work_ok D exact ks ?slot \<and> (ks = [] \<longrightarrow> slot_len D ?slot = 0)"
  proof (cases "loaded_index s = Some c")
    case True
    then show ?thesis using inv c by (simp add: ks_def load_work_def batch_inv_def Let_def)
  next
    case False
    then have "work_keys s = []" using inv c by (simp add: batch_inv_def Let_def)
    show ?thesis
    proof (cases ?slot)
      case None
      then have "ks = []" using False src \<open>work_keys s = []\<close> by (simp add: ks_def load_work_def)
      then show ?thesis using None by (simp add: work_ok_def)
    next
      case (Some sd)
      let ?keys = "map fst (hb_iter (shard_ops D) (as_map sd))"
      let ?l = "take (e - rep_moved_entries (report s)) ?keys"
      obtain j where j: "fst (load_keys (env_clock env) p ?l (clock_reads s)) = take j ?l" "?l \<noteq> [] \<longrightarrow> 0 < j" "p = 0 \<longrightarrow> j = length ?l"
        using load_keys_take by blast
      have ks: "ks = take j ?l"
        using False src Some \<open>work_keys s = []\<close> j(1) by (simp add: ks_def load_work_def split_beta Let_def)
      have "distinct ks" using H.iter_distinct[of "as_map sd"] by (simp add: ks)
      moreover have "slot_get D ?slot k \<noteq> None" if "k \<in> set ks" for k
      proof -
        have "k \<in> fst ` set (hb_iter (shard_ops D) (as_map sd))" using that ks by (auto dest!: in_set_takeD)
        then show ?thesis using Some H.iter_in[of k _ "as_map sd"] by force
      qed
      moreover have len: "length ?keys = slot_len D ?slot" using Some by (simp add: H.len_iter)
      moreover have "slot_len D ?slot \<le> e - rep_moved_entries (report s)" if exact
      proof -
        have "slot_len D ?slot \<le> slots_len D (prev_slots ?m)"
          using migration_okE(3)[OF wf] c by (intro slots_len_at) simp
        moreover have "slots_len D (prev_slots ?m) + rep_moved_entries (report s) < e"
          using run ex that by (simp add: batch_running_def)
        ultimately show ?thesis by linarith
      qed
      then have "exact \<longrightarrow> length ks = slot_len D ?slot" using j(3) ex len by (simp add: ks)
      moreover have "ks = [] \<longrightarrow> slot_len D ?slot = 0" using j(2) e len by (auto simp: ks)
      ultimately show ?thesis by (simp add: work_ok_def)
    qed
  qed
  then show "work_ok D exact ks ?slot" "ks = [] \<Longrightarrow> slot_len D ?slot = 0" by simp_all
qed

lemma move_next_ok:
  assumes run: "batch_running D m0 (report s) (batch_map s)" and c: "c = completed_shards (telem (rebalance_tracker (batch_map s)))"
    and wk: "work_ok D exact (work_keys s) (prev_slots (batch_map s) ! c)" and tel: "0 < to_shards tel"
    and ne: "work_keys s = [] \<Longrightarrow> slot_len D (prev_slots (batch_map s) ! c) = 0"
  shows "\<exists>s'. move_next D tel c (prev_slots (batch_map s) ! c) s = Some s' \<and> batch_running D m0 (report s') (batch_map s') \<and>
    c = completed_shards (telem (rebalance_tracker (batch_map s'))) \<and>
    work_ok D exact (work_keys s') (prev_slots (batch_map s') ! c) \<and> loaded_index s' = loaded_index s \<and>
    rep_completed_shards (report s') = rep_completed_shards (report s) \<and>
    (s' = s \<and> slot_len D (prev_slots (batch_map s) ! c) = 0 \<or>
     rep_moved_entries (report s') = Suc (rep_moved_entries (report s)))"
proof (cases "work_keys s = []")
  case True
  then show ?thesis using run c wk ne by (intro exI[of _ s]) (simp add: move_next_def)
next
  case False
  let ?m = "batch_map s" and ?k = "last (work_keys s)"
  have wf: "wf_dirs D ?m" "migrating (rebalance_tracker ?m)" using run by (simp_all add: batch_running_def batch_core_def)
  have cl: "c < length (prev_slots ?m)" using migration_okE(3)[OF wf] c by simp
  have "slot_get D (prev_slots ?m ! c) ?k \<noteq> None" using wk False by (simp add: work_ok_def)
  then obtain sd v where sd: "prev_slots ?m ! c = Some sd" "hb_get (shard_ops D) (as_map sd) ?k = Some v"
    by (auto simp: slot_get_def split: option.splits)
  obtain m' P where m': "migrate_key D tel c sd ?k ?m = Some m'" "wf_dirs D m'" "same_content D ?m m'"
    "Suc (slots_len D (prev_slots m')) = slots_len D (prev_slots ?m)" "prev_slots m' = (prev_slots ?m)[c := Some P]"
    "hb_get (shard_ops D) (as_map P) = (hb_get (shard_ops D) (as_map sd))(?k := None)"
    "rebalance_tracker m' = moved (rebalance_tracker ?m)" "shard_count m' = shard_count ?m"
    using migrate_key_spec[OF wf(1) cl sd tel] by blast
  let ?s' = "s\<lparr>work_keys := butlast (work_keys s), batch_map := m',
     report := (report s)\<lparr>rep_moved_entries := rep_moved_entries (report s) + 1\<rparr>\<rparr>"
  have "move_next D tel c (prev_slots ?m ! c) s = Some ?s'" using False sd m' by (simp add: move_next_def Let_def)
  moreover have "batch_running D m0 (report ?s') (batch_map ?s')"
    using run m' same_content_trans[of D m0 ?m m'] by (simp add: batch_running_def batch_core_def)
  moreover have "work_ok D exact (work_keys ?s') (prev_slots (batch_map ?s') ! c)"
  proof -
    have "work_ok D exact (butlast (work_keys s) @ [?k]) (Some sd)" using wk False sd by simp
    from work_ok_pop[OF this m'(6)] show ?thesis using m'(5) cl by simp
  qed
  ultimately show ?thesis using m'(7) c by (intro exI[of _ ?s']) simp
qed

lemma retire_yield_ok:
  assumes run: "batch_running D m0 (report s) (batch_map s)" and c: "c = completed_shards (telem (rebalance_tracker (batch_map s)))"
    and wk: "work_ok D exact (work_keys s) (prev_slots (batch_map s) ! c)" and l: "loaded_index s = Some c"
    and ex: "exact \<longrightarrow> p = 0"
    and r: "retire_source D c s = (drained, s3)" and y: "finish_or_yield D env p drained s3 = (go, s')"
  shows "drained \<longleftrightarrow> slot_len D (prev_slots (batch_map s) ! c) = 0"
    "go \<Longrightarrow> batch_inv D exact m0 s'" "\<not> go \<Longrightarrow> batch_running D m0 (report s') (batch_map s') \<or> batch_done D m0 (report s') (batch_map s')"
    "exact \<Longrightarrow> \<not> go \<Longrightarrow> batch_done D m0 (report s') (batch_map s')"
    "rep_moved_entries (report s') = rep_moved_entries (report s)"
    "rep_completed_shards (report s') = rep_completed_shards (report s) + (if drained then 1 else 0)"
proof -
  let ?m = "batch_map s"
  have wf: "wf_dirs D ?m" "migrating (rebalance_tracker ?m)" and core: "batch_core D m0 ?m"
    using run by (simp_all add: batch_running_def batch_core_def)
  note mo = migration_okE[OF wf]
  have dr: "drained \<longleftrightarrow> slot_len D (prev_slots ?m ! c) = 0"
    using r source_slot_wf[OF wf, folded c] by (auto simp: retire_source_def Let_def split: option.splits if_splits)
  then show "drained \<longleftrightarrow> slot_len D (prev_slots ?m ! c) = 0" .
  let ?goal = "(go \<longrightarrow> batch_inv D exact m0 s') \<and>
    (\<not> go \<longrightarrow> batch_running D m0 (report s') (batch_map s') \<or> batch_done D m0 (report s') (batch_map s')) \<and>
    (exact \<longrightarrow> \<not> go \<longrightarrow> batch_done D m0 (report s') (batch_map s')) \<and>
    rep_moved_entries (report s') = rep_moved_entries (report s) \<and>
    rep_completed_shards (report s') = rep_completed_shards (report s) + (if drained then 1 else 0)"
  have ?goal
  proof (cases drained)
    case False
    then have s3: "s3 = s" using r by (auto simp: retire_source_def Let_def split: if_splits)
    have nt: "\<not> status_moved (tracker_snapshot (rebalance_tracker ?m)) = status_total (tracker_snapshot (rebalance_tracker ?m))"
      using mo(2,3) wf(2) by (simp add: tracker_snapshot_moved_cong)
    have ne: "exact \<Longrightarrow> work_keys s \<noteq> []" using wk False dr by (auto simp: work_ok_def)
    show ?thesis
      using y run wk c l s3 False nt ne ex
      by (auto simp: finish_or_yield_def Let_def batch_inv_def batch_running_def split: if_splits)
  next
    case True
    have e: "slot_get D (prev_slots ?m ! c) k = None" for k using True dr slot_len_zero by simp
    have nil: "work_keys s = []" using wk True dr e by (cases "work_keys s") (auto simp: work_ok_def)
    note rt = retire_spec[OF wf c e]
    have s3: "s3 = s\<lparr>batch_map := (set_previous_slot c None ?m)\<lparr>rebalance_tracker := step (rebalance_tracker ?m)\<rparr>,
        report := (report s)\<lparr>rep_completed_shards := rep_completed_shards (report s) + 1\<rparr>\<rparr>"
      using r True by (auto simp: retire_source_def Let_def split: if_splits)
    have tot: "status_moved (tracker_snapshot (rebalance_tracker (batch_map s3))) = status_total (tracker_snapshot (rebalance_tracker (batch_map s3)))
        \<longleftrightarrow> Suc c = length (prev_slots ?m)"
      using mo(2) wf(2) c by (simp add: s3 tracker_snapshot_moved_cong)
    show ?thesis
    proof (cases "Suc c = length (prev_slots ?m)")
      case True
      let ?t = "now D + env_clock env (clock_reads s)"
      note fin = finish_spec(1,2)[OF wf c e True, of ?t] finish_spec(3)[OF wf c e True]
      have eq: "batch_map s' = (set_previous_slot c None ?m)\<lparr>previous_shards := None, previous_shard_count := 0,
          rebalance_tracker := finish ?t (step (rebalance_tracker ?m))\<rparr>" "\<not> go"
        "report s' = (report s)\<lparr>rep_completed_shards := rep_completed_shards (report s) + 1, rep_complete := True\<rparr>"
        using y True tot by (auto simp: finish_or_yield_def Let_def s3)
      have "batch_done D m0 (report s') (batch_map s')"
        using run core fin True c same_content_trans[of D m0 ?m "batch_map s'"]
        by (auto simp: batch_done_def batch_core_def batch_running_def eq)
      then show ?thesis using eq \<open>drained\<close> by simp
    next
      case False
      then have wf': "wf_dirs D (batch_map s3)" using rt(1) mo(3) c by (simp add: s3)
      have ny: "\<not> (status_moved (tracker_snapshot (rebalance_tracker (batch_map s3))) = status_total (tracker_snapshot (rebalance_tracker (batch_map s3))))"
        using False tot by simp
      have same: "batch_map s' = batch_map s3" "work_keys s' = []" "loaded_index s' = Some c" "exact \<longrightarrow> go"
        "rep_moved_entries (report s') = rep_moved_entries (report s)" "rep_complete (report s') = rep_complete (report s)"
        "rep_completed_shards (report s') = Suc (rep_completed_shards (report s))"
        using y ny nil l ex \<open>drained\<close> by (auto simp: finish_or_yield_def Let_def s3 split: if_splits)
      have "batch_running D m0 (report s') (batch_map s')"
        using run core rt(2-4) wf' c same same_content_trans[of D m0 ?m "batch_map s3"]
        by (simp add: batch_running_def batch_core_def s3)
      moreover have "completed_shards (telem (rebalance_tracker (batch_map s'))) = Suc c" using same(1) c by (simp add: s3)
      ultimately show ?thesis using same \<open>drained\<close> by (simp add: batch_inv_def Let_def)
    qed
  qed
  then show "go \<Longrightarrow> batch_inv D exact m0 s'" "\<not> go \<Longrightarrow> batch_running D m0 (report s') (batch_map s') \<or> batch_done D m0 (report s') (batch_map s')"
    "exact \<Longrightarrow> \<not> go \<Longrightarrow> batch_done D m0 (report s') (batch_map s')"
    "rep_moved_entries (report s') = rep_moved_entries (report s)"
    "rep_completed_shards (report s') = rep_completed_shards (report s) + (if drained then 1 else 0)" by simp_all
qed

lemma batch_step_ok:
  assumes inv: "batch_inv D exact m0 s" and tel: "0 < to_shards tel"
    and e: "rep_moved_entries (report s) < e" and ex: "exact \<longrightarrow> p = 0 \<and> slots_len D (prev_slots m0) < e"
  shows "\<exists>go s'. batch_step D env tel e p s = Some (go, s') \<and> (go \<longrightarrow> batch_inv D exact m0 s') \<and>
    (\<not> go \<longrightarrow> batch_running D m0 (report s') (batch_map s') \<or> batch_done D m0 (report s') (batch_map s')) \<and>
    rep_moved_entries (report s') \<le> Suc (rep_moved_entries (report s)) \<and>
    rep_completed_shards (report s') \<le> Suc (rep_completed_shards (report s)) \<and>
    batch_work (report s) \<le> batch_work (report s') \<and>
    (\<not> control_cancelled env (control_reads s) \<longrightarrow> batch_work (report s) < batch_work (report s')) \<and>
    (exact \<longrightarrow> \<not> control_cancelled env (control_reads s) \<longrightarrow> \<not> go \<longrightarrow> batch_done D m0 (report s') (batch_map s'))"
proof -
  define c where "c = completed_shards (telem (rebalance_tracker (batch_map s)))"
  define s0 where "s0 = s\<lparr>control_reads := control_reads s + 1\<rparr>"
  have inv0: "batch_inv D exact m0 s0" and c0: "c = completed_shards (telem (rebalance_tracker (batch_map s0)))"
    and e0: "rep_moved_entries (report s0) < e" and rep: "report s0 = report s"
    using inv e by (simp_all add: s0_def c_def batch_inv_def Let_def)
  have run: "batch_running D m0 (report s) (batch_map s)" using inv by (simp add: batch_inv_def Let_def)
  show ?thesis
  proof (cases "control_cancelled env (control_reads s)")
    case True
    then show ?thesis using run by (intro exI[of _ False] exI[of _ s0]) (simp add: batch_step_def s0_def)
  next
    case False
    let ?s1 = "load_work D env p e c s0" and ?slot = "prev_slots (batch_map s) ! c"
    have wf: "wf_dirs D (batch_map s)" "migrating (rebalance_tracker (batch_map s))" using run by (simp_all add: batch_running_def batch_core_def)
    have bm: "batch_map s0 = batch_map s" by (simp add: s0_def)
    note lw = load_work_ok[OF inv0 c0 e0 ex, of env, unfolded bm]
    have "batch_running D m0 (report ?s1) (batch_map ?s1)" "c = completed_shards (telem (rebalance_tracker (batch_map ?s1)))"
      "work_ok D exact (work_keys ?s1) (prev_slots (batch_map ?s1) ! c)" using run lw(1) by (simp_all add: bm rep c_def)
    from move_next_ok[OF this tel] lw(2)
    obtain s2 where s2: "move_next D tel c ?slot ?s1 = Some s2" "batch_running D m0 (report s2) (batch_map s2)"
      "c = completed_shards (telem (rebalance_tracker (batch_map s2)))" "work_ok D exact (work_keys s2) (prev_slots (batch_map s2) ! c)"
      "loaded_index s2 = Some c" "rep_completed_shards (report s2) = rep_completed_shards (report s)"
      "s2 = ?s1 \<and> slot_len D ?slot = 0 \<or> rep_moved_entries (report s2) = Suc (rep_moved_entries (report s))"
      by (auto simp: bm rep)
    obtain drained s3 where s3: "retire_source D c s2 = (drained, s3)" by (cases "retire_source D c s2")
    obtain go s' where s': "finish_or_yield D env p drained s3 = (go, s')" by (cases "finish_or_yield D env p drained s3")
    have exp: "exact \<longrightarrow> p = 0" using ex by simp
    note ry = retire_yield_ok[OF s2(2,3,4,5) exp s3 s']
    have "batch_step D env tel e p s = Some (go, s')"
      using False s2(1) s3 s' wf(2) source_slot_wf[OF wf, folded c_def]
      by (simp add: batch_step_def s0_def[symmetric, simplified] bm Let_def tracker_snapshot_moved_cong c_def[symmetric])
    moreover have "batch_work (report s) < batch_work (report s')" "rep_moved_entries (report s') \<le> Suc (rep_moved_entries (report s))"
      using ry(1,5,6) s2(6,7) rep by (auto simp: batch_work_def bm)
    ultimately show ?thesis using ry(2,3,4,6) s2(6) False by (intro exI[of _ go] exI[of _ s']) auto
  qed
qed

lemma batch_loop_ok:
  assumes "batch_inv D exact m0 s" "0 < to_shards tel" "exact \<longrightarrow> p = 0 \<and> slots_len D (prev_slots m0) < e"
    "rep_moved_entries (report s) \<le> e" "rep_completed_shards (report s) \<le> mx"
  shows "\<exists>s'. batch_loop D env tel mx e p s = Some s' \<and>
    (batch_running D m0 (report s') (batch_map s') \<or> batch_done D m0 (report s') (batch_map s')) \<and>
    rep_moved_entries (report s') \<le> e \<and> rep_completed_shards (report s') \<le> mx \<and> batch_work (report s) \<le> batch_work (report s') \<and>
    (\<not> control_cancelled env (control_reads s) \<longrightarrow> rep_moved_entries (report s) < e \<longrightarrow> rep_completed_shards (report s) < mx \<longrightarrow>
       batch_work (report s) < batch_work (report s')) \<and>
    (exact \<longrightarrow> env_control env = None \<longrightarrow> batch_done D m0 (report s') (batch_map s') \<or> rep_completed_shards (report s') = mx)"
  using assms
proof (induction "batch_measure mx s" arbitrary: s rule: wf_induct_rule[OF wf_batch_measure])
  case (1 s)
  note sim = batch_loop.simps[of D env tel mx e p s]
  have run: "batch_running D m0 (report s) (batch_map s)" using "1.prems"(1) by (simp add: batch_inv_def Let_def)
  show ?case
  proof (cases "rep_completed_shards (report s) < mx \<and> rep_moved_entries (report s) < e")
    case False
    moreover have "rep_moved_entries (report s) < e" if exact
      using run that "1.prems"(3) by (simp add: batch_running_def)
    ultimately show ?thesis using sim run "1.prems"(4,5) by (intro exI[of _ s]) auto
  next
    case True
    obtain go s1 where st: "batch_step D env tel e p s = Some (go, s1)" "go \<longrightarrow> batch_inv D exact m0 s1"
      "\<not> go \<longrightarrow> batch_running D m0 (report s1) (batch_map s1) \<or> batch_done D m0 (report s1) (batch_map s1)"
      "rep_moved_entries (report s1) \<le> Suc (rep_moved_entries (report s))"
      "rep_completed_shards (report s1) \<le> Suc (rep_completed_shards (report s))" "batch_work (report s) \<le> batch_work (report s1)"
      "\<not> control_cancelled env (control_reads s) \<longrightarrow> batch_work (report s) < batch_work (report s1)"
      "exact \<longrightarrow> \<not> control_cancelled env (control_reads s) \<longrightarrow> \<not> go \<longrightarrow> batch_done D m0 (report s1) (batch_map s1)"
      using batch_step_ok[of exact m0 s tel e p env] "1.prems" True by blast
    show ?thesis
    proof (cases go)
      case False
      then show ?thesis using sim st True by (intro exI[of _ s1]) (auto simp: control_cancelled_def)
    next
      case go: True
      have go_eq: "go = True" using go by simp
      have bounds: "rep_moved_entries (report s1) \<le> e" "rep_completed_shards (report s1) \<le> mx" using st(4,5) True by simp_all
      have inv1: "batch_inv D exact m0 s1" using st(2) go by simp
      note ih = "1.hyps"[OF batch_step_decreases[OF st(1)[unfolded go_eq] conjunct1[OF True]] inv1 "1.prems"(2,3) bounds]
      then obtain s' where s': "batch_loop D env tel mx e p s1 = Some s' \<and>
        (batch_running D m0 (report s') (batch_map s') \<or> batch_done D m0 (report s') (batch_map s')) \<and>
        rep_moved_entries (report s') \<le> e \<and> rep_completed_shards (report s') \<le> mx \<and> batch_work (report s1) \<le> batch_work (report s') \<and>
        (\<not> control_cancelled env (control_reads s1) \<longrightarrow> rep_moved_entries (report s1) < e \<longrightarrow> rep_completed_shards (report s1) < mx \<longrightarrow>
          batch_work (report s1) < batch_work (report s')) \<and>
        (exact \<longrightarrow> env_control env = None \<longrightarrow> batch_done D m0 (report s') (batch_map s') \<or> rep_completed_shards (report s') = mx)"
        by (elim exE)
      have "batch_loop D env tel mx e p s = Some s'" using sim st(1) go True s' by simp
      then show ?thesis using s' st(6,7) by (intro exI[of _ s']) auto
    qed
  qed
qed


end

section \<open>Batches\<close>

text \<open>What is left of a migration: entries of the previous generation and source slots not yet retired.\<close>

definition remaining :: "('k, 'v, 'm, 'b) deps \<Rightarrow> ('k, 'v, 'm, 'b) sharded_map \<Rightarrow> nat" where
  "remaining D m = slots_len D (prev_slots m) + (length (prev_slots m) - completed_shards (telem (rebalance_tracker m)))"

text \<open>A batch gets past its early returns.\<close>

definition admitted :: "batch_env \<Rightarrow> nat \<Rightarrow> u64 option \<Rightarrow> progress \<Rightarrow> bool" where
  "admitted env max_shards expected p \<longleftrightarrow>
     (case expected of None \<Rightarrow> True | Some g \<Rightarrow> g = generation (telem p)) \<and> \<not> paused (telem p) \<and>
     \<not> control_cancelled env 0 \<and> max_shards \<noteq> 0"

definition batch_post ::
  "('k, 'v, 'm, 'b) deps \<Rightarrow> ('k, 'v, 'm, 'b) sharded_map \<Rightarrow> batch_report \<Rightarrow> ('k, 'v, 'm, 'b) sharded_map \<Rightarrow> bool" where
  "batch_post D m r m' \<longleftrightarrow>
     wf_map D m' \<and> same_content D m m' \<and> shard_count m' = shard_count m \<and>
     generation (telem (rebalance_tracker m')) = generation (telem (rebalance_tracker m)) \<and>
     worker_generation (rebalance_tracker m') = worker_generation (rebalance_tracker m) \<and>
     slots_len D (prev_slots m') + rep_moved_entries r = slots_len D (prev_slots m) \<and>
     remaining D m' + batch_work r = remaining D m \<and>
     (migrating (rebalance_tracker m') \<longrightarrow>
        migrating (rebalance_tracker m) \<and> paused (telem (rebalance_tracker m')) = paused (telem (rebalance_tracker m)))"

lemma tracker_telemetry_simps [simp]:
  "generation (tracker_telemetry t p) = generation (telem p)" "paused (tracker_telemetry t p) = paused (telem p)"
  "to_shards (tracker_telemetry t p) = to_shards (telem p)" "from_shards (tracker_telemetry t p) = from_shards (telem p)"
  "complete (tracker_telemetry t p) = complete (telem p)"
  by (simp_all add: tracker_telemetry_def Let_def)

context starshard_deps
begin

lemma batch_end_post:
  fixes g :: u64 and el p :: nat
  assumes wf: "wf_map D m" and mg: "migrating (rebalance_tracker m)"
    and b: "batch_running D m r m' \<or> batch_done D m r m'" and eq: "rep_moved_entries r' = rep_moved_entries r"
      "rep_completed_shards r' = rep_completed_shards r"
  defines "m'' \<equiv> m'\<lparr>rebalance_tracker := record_batch g el p (rebalance_tracker m')\<rparr>"
  shows "batch_post D m r' m''" "rep_complete r \<longleftrightarrow> \<not> migrating (rebalance_tracker m'')"
proof -
  have core: "batch_core D m m'" using b by (auto simp: batch_running_def batch_done_def)
  then have wf': "wf_dirs D m'" and sc: "same_content D m m'" by (simp_all add: batch_core_def)
  have "wf_dirs D m''" unfolding m''_def
    by (rule wf_dirs_tracker[OF wf' migration_ok_record[OF wf_dirsD(7)[OF wf']]])
  then have w: "wf_map D m''" using same_content_wf[OF _ _ wf, of m''] sc by (simp add: m''_def)
  have cl: "completed_shards (telem (rebalance_tracker m)) < length (prev_slots m)"
    by (rule migration_okE(3)[OF wf_map_dirs[OF wf] mg])
  show "batch_post D m r' m''"
    using b
  proof
    assume "batch_running D m r m'"
    then show ?thesis
      using w core sc mg eq migration_okE(3)[OF wf']
      by (auto simp: batch_post_def batch_running_def batch_core_def m''_def remaining_def batch_work_def)
  next
    assume "batch_done D m r m'"
    then show ?thesis
      using w core sc mg eq cl not_migrating_prev[OF wf']
      by (auto simp: batch_post_def batch_done_def batch_core_def m''_def remaining_def batch_work_def)
  qed
  show "rep_complete r \<longleftrightarrow> \<not> migrating (rebalance_tracker m'')"
    using b by (auto simp: m''_def batch_running_def batch_done_def)
qed

lemma batch_post_refl: "wf_map D m \<Longrightarrow> batch_work r = 0 \<Longrightarrow> batch_post D m r m"
  by (simp add: batch_post_def batch_work_def)

lemma advance_inner_ok:
  assumes wf: "wf_map D m"
  shows "\<exists>r m'. advance_rebalance_inner D env mx e p expd m = Some (r, m') \<and> batch_post D m r m' \<and>
    rep_moved_entries r \<le> e \<and> rep_completed_shards r \<le> mx \<and>
    (\<not> admitted env mx expd (rebalance_tracker m) \<longrightarrow> r = batch_report_default \<and> m' = m) \<and>
    (admitted env mx expd (rebalance_tracker m) \<longrightarrow> (rep_complete r \<longleftrightarrow> \<not> migrating (rebalance_tracker m'))) \<and>
    (admitted env mx expd (rebalance_tracker m) \<longrightarrow> migrating (rebalance_tracker m) \<longrightarrow> \<not> control_cancelled env 1 \<longrightarrow> 0 < e \<longrightarrow>
       0 < batch_work r) \<and>
    (admitted env mx expd (rebalance_tracker m) \<longrightarrow> env_control env = None \<longrightarrow> p = 0 \<longrightarrow> slots_len D (prev_slots m) < e \<longrightarrow>
       rep_complete r \<or> rep_completed_shards r = mx)"
proof -
  let ?tel = "tracker_telemetry (now D) (rebalance_tracker m)"
  consider "\<not> admitted env mx expd (rebalance_tracker m)"
    | "admitted env mx expd (rebalance_tracker m)" "\<not> migrating (rebalance_tracker m)"
    | "admitted env mx expd (rebalance_tracker m)" "migrating (rebalance_tracker m)" by blast
  then show ?thesis
  proof cases
    case 1
    then show ?thesis using wf
      by (intro exI[of _ batch_report_default] exI[of _ m])
        (auto simp: advance_rebalance_inner_def admitted_def Let_def batch_report_default_def
          intro!: batch_post_refl simp: batch_work_def split: option.splits)
  next
    case 2
    let ?r = "batch_report_default\<lparr>rep_complete := True\<rparr>"
    have "advance_rebalance_inner D env mx e p expd m = Some (?r, m)"
      using 2 by (auto simp: advance_rebalance_inner_def admitted_def is_migrating_def Let_def split: option.splits)
    moreover have "batch_post D m ?r m" by (rule batch_post_refl[OF wf]) (simp add: batch_work_def batch_report_default_def)
    ultimately show ?thesis using 2 by (intro exI[of _ ?r] exI[of _ m]) (simp add: batch_report_default_def)
  next
    case 3
    let ?s = "\<lparr>work_keys = [], loaded_index = None, report = batch_report_default, batch_map = m, clock_reads = 0, control_reads = 1\<rparr>"
    let ?ex = "p = 0 \<and> slots_len D (prev_slots m) < e"
    have tel: "0 < to_shards ?tel" using migration_okE(4)[OF wf_map_dirs[OF wf] 3(2)] by simp
    have inv: "batch_inv D ?ex m ?s"
      using wf 3(2) by (simp add: batch_inv_def batch_running_def batch_core_def wf_map_def batch_report_default_def)
    obtain s' where s': "batch_loop D env ?tel mx e p ?s = Some s'"
      "batch_running D m (report s') (batch_map s') \<or> batch_done D m (report s') (batch_map s')"
      "rep_moved_entries (report s') \<le> e" "rep_completed_shards (report s') \<le> mx"
      "\<not> control_cancelled env 1 \<longrightarrow> 0 < e \<longrightarrow> 0 < mx \<longrightarrow> 0 < batch_work (report s')"
      "?ex \<longrightarrow> env_control env = None \<longrightarrow> batch_done D m (report s') (batch_map s') \<or> rep_completed_shards (report s') = mx"
      using batch_loop_ok[OF inv tel, of p e mx env] by (auto simp: batch_report_default_def batch_work_def)
    let ?r = "(report s')\<lparr>rep_elapsed_ns := env_clock env (clock_reads s'), rep_budget_exhausted := rep_budget_exhausted (report s') \<or>
        (\<not> rep_complete (report s') \<and> rep_moved_entries (report s') \<ge> e)\<rparr>"
    let ?m = "(batch_map s')\<lparr>rebalance_tracker := record_batch (generation ?tel) (env_clock env (clock_reads s' + 1)) p (rebalance_tracker (batch_map s'))\<rparr>"
    have "advance_rebalance_inner D env mx e p expd m = Some (?r, ?m)"
      using 3 s'(1) by (auto simp: advance_rebalance_inner_def admitted_def is_migrating_def Let_def split: option.splits)
    moreover have "batch_post D m ?r ?m" by (rule batch_end_post(1)[OF wf 3(2) s'(2)]) simp_all
    moreover have "rep_complete ?r \<longleftrightarrow> \<not> migrating (rebalance_tracker ?m)"
      using batch_end_post(2)[OF wf 3(2) s'(2), of ?r] by simp
    moreover have "mx \<noteq> 0" using 3(1) by (simp add: admitted_def)
    ultimately show ?thesis using s'(3-6) 3
      by (intro exI[of _ ?r] exI[of _ ?m]) (auto simp: batch_work_def batch_done_def)
  qed
qed

end

end
