(* ===== verification/Sync_Completion.thy ===== *)
theory Sync_Completion
  imports Sync_Migration
begin

text \<open>
  The entry points of \<open>rebalance_impl.rs\<close> that promise a finished rebalance: the staged copy and the
  cooperative loop of \<open>rebalance_to\<close>, and the supervised worker. Both loops are partial functions; they
  are shown to return.
\<close>

section \<open>Staged copy\<close>

abbreviation staged_slots :: "snapshot_mode \<Rightarrow> 'm option list \<Rightarrow> 'm slots" where
  "staged_slots mode maps \<equiv> map (map_option (\<lambda>mp. shard_data_new mp mode)) maps"

context starshard_deps
begin

lemma staged_insert_ok:
  assumes t: "0 < target" "length maps = target" and ok: "slots_ok D mode (staged_slots mode maps)"
    and get: "slots_get D (staged_slots mode maps) = map_of xs" and k: "k \<notin> fst ` set xs"
  shows "\<exists>maps'. staged_insert D target (k, v) (maps, n) = Some (maps', Suc n) \<and> length maps' = target \<and>
    slots_ok D mode (staged_slots mode maps') \<and> slots_get D (staged_slots mode maps') = map_of (xs @ [(k, v)])"
proof -
  let ?i = "route D target k"
  let ?mp = "case maps ! ?i of None \<Rightarrow> hb_new (shard_ops D) | Some mp \<Rightarrow> mp"
  let ?new = "snd (hb_insert (shard_ops D) ?mp k v)"
  have i: "?i < length maps" using t by (simp add: route_def)
  have at: "hb_get (shard_ops D) ?mp k' = slot_get D (staged_slots mode maps ! ?i) k'" for k'
    using i by (cases "maps ! ?i") (simp_all add: H.get_new)
  have nk: "map_of xs k = None" using k by (simp add: map_of_eq_None_iff)
  then have none: "hb_get (shard_ops D) ?mp k = None"
    using at[of k] slots_get_at[of ?i "staged_slots mode maps" D k] i t get by simp
  have "staged_insert D target (k, v) (maps, n) = Some (maps[?i := Some ?new], Suc n)"
    using t i none by (simp add: staged_insert_def route_def[symmetric] Let_def)
  moreover have sl: "staged_slots mode (maps[?i := Some ?new]) = (staged_slots mode maps)[?i := Some (shard_data_new ?new mode)]"
    by (simp add: map_update)
  have "hb_get (shard_ops D) ?mp k' \<noteq> None \<longrightarrow> route D target k' = ?i" for k'
    using slots_okD[OF ok, of ?i] at[of k'] i t by (cases "maps ! ?i") (auto simp: shard_ok_def)
  then have "shard_ok D mode target ?i (shard_data_new ?new mode)"
    by (auto simp: shard_ok_def H.get_insert)
  then have "slots_ok D mode (staged_slots mode (maps[?i := Some ?new]))"
    unfolding sl using i t by (intro slots_ok_update[OF ok]) auto
  moreover have "slots_get D (staged_slots mode (maps[?i := Some ?new])) = map_of (xs @ [(k, v)])"
  proof
    fix k'
    have "map_of (xs @ [(k, v)]) k' = (if k' = k then Some v else map_of xs k')"
      using nk by (cases "map_of xs k'") (auto simp: map_of_append map_add_def)
    moreover have "slots_get D (staged_slots mode maps) k' = slot_get D (staged_slots mode maps ! ?i) k'" if "route D target k' = ?i"
      using that i t by (intro slots_get_at) simp_all
    ultimately show "slots_get D (staged_slots mode (maps[?i := Some ?new])) k' = map_of (xs @ [(k, v)]) k'"
      unfolding sl using i t at[of k'] get by (auto simp: slots_get_update H.get_insert)
  qed
  ultimately show ?thesis using t by (intro exI[of _ "maps[?i := Some ?new]"]) simp
qed

lemma stage_all_ok:
  assumes wf: "wf_dirs D m" and t: "0 < target"
  shows "\<exists>maps. stage_all D target m = Some (maps, stored_len D m) \<and> length maps = target \<and>
    slots_ok D mode (staged_slots mode maps) \<and> slots_get D (staged_slots mode maps) = view D m"
proof -
  let ?R = "\<lambda>xs (maps, n). n = length xs \<and> length maps = target \<and> slots_ok D mode (staged_slots mode maps) \<and>
     slots_get D (staged_slots mode maps) = map_of xs"
  have "\<exists>s'. fold_option (staged_insert D target) (stored_entries D m) (replicate target None, 0) = Some s' \<and> ?R (stored_entries D m) s'"
  proof (rule fold_option_rel)
    show "?R [] (replicate target None, 0)" by (simp add: slots_ok_def fun_eq_iff)
  next
    fix ys y zs s' assume split: "stored_entries D m = ys @ y # zs" and R: "?R ys s'"
    have "fst y \<notin> fst ` set ys" using stored_entries_spec(1)[OF wf] by (simp add: split)
    then show "\<exists>s''. staged_insert D target y s' = Some s'' \<and> ?R (ys @ [y]) s''"
      using staged_insert_ok[OF t, of "fst s'" mode ys "fst y" "snd y" "snd s'"] R by (cases s'; cases y) auto
  qed
  then show ?thesis using stored_entries_spec(2,3)[OF wf] by (auto simp: stage_all_def)
qed

lemma publish_staged_ok:
  fixes n :: nat
  assumes wf: "wf_map D m" and t: "0 < target" "length maps = target"
    and ok: "slots_ok D (snapshot_mode m) (staged_slots (snapshot_mode m) maps)"
    and get: "slots_get D (staged_slots (snapshot_mode m) maps) = view D m"
  defines "m' \<equiv> publish_staged D target maps n m"
  shows "wf_map D m'" "same_content D m m'" "\<not> migrating (rebalance_tracker m')" "shard_count m' = target"
proof -
  have prev: "prev_slots m' = []" "previous_shards m' = None" "shards m' = staged_slots (snapshot_mode m) maps"
    by (simp_all add: m'_def publish_staged_def prev_slots_def)
  have view: "view D m' = view D m" using get by (simp add: view_def prev map_add_def fun_eq_iff split: option.splits)
  have "migration_ok (rebalance_tracker m') None"
    by (simp add: migration_ok_def m'_def publish_staged_def tracker_inv_finish_staged)
  moreover have "slots_ok D (snapshot_mode m) []" by (simp add: slots_ok_def)
  ultimately have wd: "wf_dirs D m'"
    unfolding wf_dirs_def prev using t ok by (auto simp: m'_def publish_staged_def)
  then have "stored_len D m' = stored_len D m" using stored_len_card[OF wd] stored_len_card[OF wf_map_dirs[OF wf]] view by simp
  then show sc: "same_content D m m'" using view by (simp add: same_content_def) (simp add: m'_def publish_staged_def)
  show "wf_map D m'" by (rule same_content_wf[OF sc wd wf])
qed (simp_all add: m'_def publish_staged_def)

end

section \<open>The cooperative loop\<close>

lemma resume_rebalance_ok:
  assumes "wf_map D m"
  defines "m' \<equiv> snd (resume_rebalance m)"
  shows "wf_map D m'" "same_content D m m'" "\<not> paused (telem (rebalance_tracker m'))" "shard_count m' = shard_count m"
    "prev_slots m' = prev_slots m" "remaining D m' = remaining D m" "migrating (rebalance_tracker m') = migrating (rebalance_tracker m)"
proof -
  have eq: "m' = m\<lparr>rebalance_tracker := snd (pause False (rebalance_tracker m))\<rparr>"
    by (simp add: m'_def resume_rebalance_def split_beta)
  show sc: "same_content D m m'" by (simp add: eq)
  show "wf_map D m'"
    using wf_dirs_tracker[OF wf_map_dirs[OF assms(1)] migration_ok_pause[OF wf_dirsD(7)[OF wf_map_dirs[OF assms(1)]]]]
    by (intro same_content_wf[OF sc _ assms(1)]) (simp add: eq)
  show "\<not> paused (telem (rebalance_tracker m'))"
    using wf_dirsD(7)[OF wf_map_dirs[OF assms(1)]] by (auto simp: eq pause_def migration_ok_def tracker_inv_def)
qed (simp_all add: m'_def resume_rebalance_def split_beta remaining_def)

lemma begin_migration_map:
  assumes "wf_map D m" "\<not> migrating (rebalance_tracker m)" "0 < target"
  defines "m' \<equiv> begin_migration D (shard_count m) target m"
  shows "wf_map D m'" "same_content D m m'" "migrating (rebalance_tracker m')" "shard_count m' = target"
    "slots_len D (prev_slots m') = stored_len D m"
    "\<not> paused (telem (rebalance_tracker m'))" "worker_generation (rebalance_tracker m') = worker_generation (rebalance_tracker m)"
proof -
  have sc: "shard_count m = length (shards m)" using wf_dirsD(2)[OF wf_map_dirs[OF assms(1)]] .
  note b = begin_migration_spec[OF wf_map_dirs[OF assms(1)] assms(2,3)]
  show "wf_map D m'" using same_content_wf[OF b(2,1) assms(1)] by (simp add: m'_def sc)
  show "slots_len D (prev_slots m') = stored_len D m"
    using b(8) not_migrating_prev[OF wf_map_dirs[OF assms(1)] assms(2)] by (simp add: m'_def sc stored_len_def)
qed (use begin_migration_spec[OF wf_map_dirs[OF assms(1)] assms(2,3)] wf_dirsD(2)[OF wf_map_dirs[OF assms(1)]] in \<open>simp_all add: m'_def\<close>)

text \<open>How far the loop still is from its goal, and how many entries it will move.\<close>

definition coop_measure :: "('k, 'v, 'm, 'b) deps \<Rightarrow> nat \<Rightarrow> ('k, 'v, 'm, 'b) sharded_map \<Rightarrow> nat \<times> nat" where
  "coop_measure D target m =
     (if migrating (rebalance_tracker m) then (if shard_count m = target then 1 else 3)
      else (if shard_count m = target then 0 else 2), remaining D m)"

definition coop_moves :: "('k, 'v, 'm, 'b) deps \<Rightarrow> nat \<Rightarrow> ('k, 'v, 'm, 'b) sharded_map \<Rightarrow> nat" where
  "coop_moves D target m =
     (if migrating (rebalance_tracker m) then slots_len D (prev_slots m) else 0) +
     (if shard_count m = target then 0 else stored_len D m)"

context starshard_deps
begin

lemma coop_round:
  assumes wf: "wf_map D m" and t: "0 < target" and go: "\<not> (\<not> migrating (rebalance_tracker m) \<and> shard_count m = target)"
  defines "m1 \<equiv> if migrating (rebalance_tracker m) then m else begin_migration D (shard_count m) target m"
  shows "\<exists>r m'. advance_rebalance_with_options D clk opts (snd (resume_rebalance m1)) = Some (r, m') \<and> wf_map D m' \<and>
    same_content D m m' \<and> (coop_measure D target m', coop_measure D target m) \<in> less_than <*lex*> less_than \<and>
    coop_moves D target m' + rep_moved_entries r = coop_moves D target m"
proof -
  have m1: "wf_map D m1" "same_content D m m1" "migrating (rebalance_tracker m1)"
    using wf begin_migration_map[OF wf _ t] by (auto simp: m1_def)
  have m1': "if migrating (rebalance_tracker m) then m1 = m else shard_count m1 = target \<and> slots_len D (prev_slots m1) = stored_len D m"
    using begin_migration_map[OF wf _ t] by (auto simp: m1_def)
  let ?m2 = "snd (resume_rebalance m1)" and ?env = "\<lparr>env_clock = clk, env_control = None\<rparr>"
  note m2 = resume_rebalance_ok[OF m1(1)]
  have adm: "admitted ?env USIZE_MAX None (rebalance_tracker ?m2)"
    using m2(3) by (simp add: admitted_def control_cancelled_def USIZE_MAX_def)
  obtain r m' where m': "advance_rebalance_with_options D clk opts ?m2 = Some (r, m')" "batch_post D ?m2 r m'" "0 < batch_work r"
    using advance_inner_ok[OF m2(1), of ?env USIZE_MAX "max (opt_batch_size opts) 1" "opt_max_pause_ns opts" None] adm m1(3) m2(7)
    by (auto simp: advance_rebalance_with_options_def control_cancelled_def)
  have sc: "same_content D m m'" using m1(2) m2(2) m'(2) same_content_trans unfolding batch_post_def by blast
  have less: "remaining D m' < remaining D m1" using m'(2,3) m2(6) by (simp add: batch_post_def)
  have moved: "slots_len D (prev_slots m') + rep_moved_entries r = slots_len D (prev_slots m1)"
    using m'(2) m2(5) by (simp add: batch_post_def)
  have cnt: "shard_count m' = shard_count m1" using m'(2) m2(4) by (simp add: batch_post_def)
  have wf': "wf_map D m'" using m'(2) by (simp add: batch_post_def)
  have nm: "\<not> migrating (rebalance_tracker m') \<Longrightarrow> slots_len D (prev_slots m') = 0"
    using not_migrating_prev[OF wf_map_dirs[OF wf']] by simp
  have "(coop_measure D target m', coop_measure D target m) \<in> less_than <*lex*> less_than"
    using m1' less cnt go by (auto simp: coop_measure_def split: if_splits)
  moreover have "coop_moves D target m' + rep_moved_entries r = coop_moves D target m"
    using m1' moved cnt go nm sc by (auto simp: coop_moves_def same_content_def split: if_splits)
  ultimately show ?thesis using m'(1) wf' sc by blast
qed

text \<open>Any solution of the loop's equation returns; the two maps have one loop each.\<close>

lemma coop_equation_ok:
  assumes eq: "\<And>rnd n m. F rnd n m =
      (if \<not> migrating (rebalance_tracker m) \<and> shard_count m = target then Some (n, m)
       else do {
         (r, m3) \<leftarrow> advance_rebalance_with_options D (clks rnd) opts (snd (resume_rebalance
            (if migrating (rebalance_tracker m) then m else begin_migration D (shard_count m) target m)));
         F (rnd + 1) (n + rep_moved_entries r) m3
       })"
    and "wf_map D m" "0 < target"
  shows "\<exists>m'. F rnd n m = Some (n + coop_moves D target m, m') \<and> wf_map D m' \<and>
    same_content D m m' \<and> \<not> migrating (rebalance_tracker m') \<and> shard_count m' = target"
  using assms(2,3)
proof (induction "coop_measure D target m" arbitrary: m n rnd rule: wf_induct_rule[OF wf_lex_prod[OF wf_less_than wf_less_than]])
  case (1 m)
  note sim = eq[of rnd n m]
  show ?case
  proof (cases "\<not> migrating (rebalance_tracker m) \<and> shard_count m = target")
    case True
    then show ?thesis using sim 1(2) by (intro exI[of _ m]) (simp add: coop_moves_def)
  next
    case False
    let ?m1 = "if migrating (rebalance_tracker m) then m else begin_migration D (shard_count m) target m"
    obtain r m3 where m3: "advance_rebalance_with_options D (clks rnd) opts (snd (resume_rebalance ?m1)) = Some (r, m3)" "wf_map D m3"
      "same_content D m m3" "(coop_measure D target m3, coop_measure D target m) \<in> less_than <*lex*> less_than"
      "coop_moves D target m3 + rep_moved_entries r = coop_moves D target m"
      using coop_round[OF 1(2,3) False] by blast
    have "F rnd n m = F (rnd + 1) (n + rep_moved_entries r) m3"
      unfolding sim using False m3(1) by auto
    moreover have "n + rep_moved_entries r + coop_moves D target m3 = n + coop_moves D target m" using m3(5) by simp
    ultimately show ?thesis
      using 1(1)[OF m3(4,2) 1(3), of "rnd + 1" "n + rep_moved_entries r"] same_content_trans[OF m3(3)] by auto
  qed
qed

lemma cooperative_ok:
  assumes "wf_map D m" "0 < target"
  shows "\<exists>m'. cooperative_loop D clks target opts rnd n m = Some (n + coop_moves D target m, m') \<and> wf_map D m' \<and>
    same_content D m m' \<and> \<not> migrating (rebalance_tracker m') \<and> shard_count m' = target"
proof (rule coop_equation_ok[OF _ assms])
  show "cooperative_loop D clks target opts rnd n m =
      (if \<not> migrating (rebalance_tracker m) \<and> shard_count m = target then Some (n, m)
       else do {
         (r, m3) \<leftarrow> advance_rebalance_with_options D (clks rnd) opts (snd (resume_rebalance
            (if migrating (rebalance_tracker m) then m else begin_migration D (shard_count m) target m)));
         cooperative_loop D clks target opts (rnd + 1) (n + rep_moved_entries r) m3
       })" for rnd n m
    by (subst cooperative_loop.simps) (simp add: is_migrating_def Let_def)
qed

lemma rebalance_to_ok:
  assumes wf: "wf_map D m" and t: "strict_shard_count req MAX_SHARDS = Inr target"
  shows "\<exists>r m'. rebalance_to D clks req opts m = Some (Inr r, m') \<and> wf_map D m' \<and> same_content D m m' \<and>
    \<not> migrating (rebalance_tracker m') \<and> shard_count m' = target \<and> rr_from_shards r = shard_count m \<and> rr_to_shards r = target"
proof -
  have pos: "0 < target" using strict_Inr[OF t] by simp
  obtain m1 where m1: "cooperative_loop D clks target opts 0 0 m = Some (0 + coop_moves D target m, m1)" "wf_map D m1"
    "same_content D m m1" "\<not> migrating (rebalance_tracker m1)" "shard_count m1 = target"
    using cooperative_ok[OF wf pos] by blast
  obtain maps where maps: "stage_all D target m = Some (maps, stored_len D m)" "length maps = target"
    "slots_ok D (snapshot_mode m) (staged_slots (snapshot_mode m) maps)" "slots_get D (staged_slots (snapshot_mode m) maps) = view D m"
    using stage_all_ok[OF wf_map_dirs[OF wf] pos] by blast
  note pub = publish_staged_ok[OF wf pos maps(2,3,4), of "stored_len D m"]
  consider "opt_background opts" | "\<not> opt_background opts" "target = shard_count m" "\<not> migrating (rebalance_tracker m)"
    | "\<not> opt_background opts" "\<not> (target = shard_count m \<and> \<not> migrating (rebalance_tracker m))" by blast
  then show ?thesis
  proof cases
    case 1
    then show ?thesis using m1 by (simp add: rebalance_to_def t)
  next
    case 2
    then show ?thesis using wf by (simp add: rebalance_to_def t is_migrating_def)
  next
    case 3
    have "rebalance_to D clks req opts m = Some (Inr \<lparr>rr_from_shards = shard_count m, rr_to_shards = target,
        rr_moved_entries = stored_len D m, rr_elapsed_ms = elapsed D div 1000000\<rparr>, publish_staged D target maps (stored_len D m) m)"
      using 3 maps(1) by (auto simp: rebalance_to_def t is_migrating_def)
    then show ?thesis using pub by simp
  qed
qed

end

section \<open>The worker\<close>

lemma release_worker_simps [simp]:
  "migrating (release_worker g p) = migrating p" "telem (release_worker g p) = telem p" "started (release_worker g p) = started p"
  "worker_generation (release_worker g p) = (if worker_generation p = Some g then None else worker_generation p)"
  by (simp_all add: release_worker_def)

lemma wf_map_tracker:
  assumes "wf_map D m" "migrating t = migrating (rebalance_tracker m)" "telem t = telem (rebalance_tracker m)"
    "started t = started (rebalance_tracker m)"
  shows "wf_map D (m\<lparr>rebalance_tracker := t\<rparr>)"
proof -
  have "migration_ok t (previous_shards m)"
    using wf_dirsD(7)[OF wf_map_dirs[OF assms(1)]] assms(2-4) by (auto simp: migration_ok_def tracker_inv_def)
  then show ?thesis using assms(1) wf_dirs_tracker[OF wf_map_dirs[OF assms(1)]] by (simp add: wf_map_def)
qed

text \<open>A worker that may run: it owns the lease of a running, unpaused generation.\<close>

definition worker_ready :: "worker_ticket \<Rightarrow> ('k, 'v, 'm, 'b) sharded_map \<Rightarrow> bool" where
  "worker_ready tk m \<longleftrightarrow>
     worker_generation (rebalance_tracker m) = Some (ticket_generation tk) \<and>
     shard_count m = ticket_target tk \<and>
     (if ticket_complete tk then \<not> migrating (rebalance_tracker m)
      else migrating (rebalance_tracker m) \<and> \<not> paused (telem (rebalance_tracker m)) \<and>
           generation (telem (rebalance_tracker m)) = ticket_generation tk)"

definition worker_done :: "('k, 'v, 'm, 'b) deps \<Rightarrow> worker_ticket \<Rightarrow> nat \<Rightarrow> ('k, 'v, 'm, 'b) sharded_map \<Rightarrow>
    (rebalance_outcome \<times> ('k, 'v, 'm, 'b) sharded_map) option \<Rightarrow> bool" where
  "worker_done D tk n m res \<longleftrightarrow>
     (\<exists>out m'. res = Some (out, m') \<and> out_completed out \<and> rr_moved_entries (out_report out) = n + slots_len D (prev_slots m) \<and>
        wf_map D m' \<and> same_content D m m' \<and> \<not> migrating (rebalance_tracker m') \<and>
        shard_count m' = shard_count m \<and> worker_generation (rebalance_tracker m') = None)"

context starshard_deps
begin

lemma worker_leave:
  assumes "wf_map D m" "\<not> migrating (rebalance_tracker m)" "wk_completed w"
    "worker_generation (rebalance_tracker m) = Some (ticket_generation tk)"
  shows "worker_done D tk (wk_moved w) m (Some (worker_outcome D tk w m,
     m\<lparr>rebalance_tracker := release_worker (ticket_generation tk) (rebalance_tracker m)\<rparr>))"
  using assms not_migrating_prev[OF wf_map_dirs[OF assms(1)] assms(2)]
  by (simp add: worker_done_def worker_outcome_def Let_def wf_map_tracker)

lemma worker_round_ok:
  assumes wf: "wf_map D m" and rd: "worker_ready tk m" "\<not> ticket_complete tk" and nc: "\<And>i. \<not> control_cancelled env i"
    and e: "0 < wk_effective w"
  shows "\<exists>stop w' m'. worker_round D env opts (ticket_generation tk) w m = Some (stop, w', m') \<and> wf_map D m' \<and> same_content D m m' \<and>
    0 < wk_effective w' \<and> wk_moved w' + slots_len D (prev_slots m') = wk_moved w + slots_len D (prev_slots m) \<and>
    worker_generation (rebalance_tracker m') = worker_generation (rebalance_tracker m) \<and> shard_count m' = shard_count m \<and>
    (if stop then \<not> migrating (rebalance_tracker m') \<and> wk_completed w'
     else worker_ready tk m' \<and> remaining D m' < remaining D m)"
proof -
  let ?g = "ticket_generation tk"
  have mg: "migrating (rebalance_tracker m)" using rd by (simp add: worker_ready_def)
  have adm: "admitted env USIZE_MAX (Some ?g) (rebalance_tracker m)"
    using rd nc by (simp add: worker_ready_def admitted_def USIZE_MAX_def)
  obtain r m' where r: "advance_rebalance_inner D env USIZE_MAX (wk_effective w) (opt_max_pause_ns opts) (Some ?g) m = Some (r, m')"
    "batch_post D m r m'" "rep_complete r \<longleftrightarrow> \<not> migrating (rebalance_tracker m')" "0 < batch_work r"
    using advance_inner_ok[OF wf, of env USIZE_MAX "wk_effective w" "opt_max_pause_ns opts" "Some ?g"] adm mg nc e by auto
  have post: "wf_map D m'" "same_content D m m'" "slots_len D (prev_slots m') + rep_moved_entries r = slots_len D (prev_slots m)"
    "worker_generation (rebalance_tracker m') = worker_generation (rebalance_tracker m)" "shard_count m' = shard_count m"
    "remaining D m' < remaining D m"
    using r(2,4) by (auto simp: batch_post_def)
  have rd': "migrating (rebalance_tracker m') \<Longrightarrow> worker_ready tk m'" using r(2) rd by (simp add: worker_ready_def batch_post_def)
  let ?w1 = "w\<lparr>wk_moved := wk_moved w + rep_moved_entries r\<rparr>"
  obtain stop w' where w': "worker_round D env opts ?g w m = Some (stop, w', m')" "stop = rep_complete r" "stop \<longrightarrow> wk_completed w'"
    "wk_moved w' = wk_moved w + rep_moved_entries r" "0 < wk_effective w'"
  proof (cases "rep_complete r")
    case True
    then show thesis using that[of True "?w1\<lparr>wk_completed := True\<rparr>"] r(1) e by (simp add: worker_round_def Let_def)
  next
    case False
    let ?e1 = "max (wk_effective w div 2) 1" and ?e2 = "min (min (wk_effective w + 1) USIZE_MAX) (max (opt_batch_size opts) 1)"
    show thesis
      by (rule that[of False "?w1\<lparr>wk_effective := if opt_max_pause_ns opts \<noteq> 0 \<and> rep_elapsed_ns r > opt_max_pause_ns opts then ?e1 else ?e2\<rparr>"])
        (use False r(1) in \<open>auto simp: worker_round_def Let_def USIZE_MAX_def\<close>)
  qed
  show ?thesis using w' r(3) post rd' by (intro exI[of _ stop] exI[of _ w'] exI[of _ m']) simp
qed

lemma worker_equation_ok:
  assumes eq: "\<And>rnd w m. F rnd w m = do {
        ready \<leftarrow> wait_ready (ticket_generation tk) (cancels rnd) (rebalance_tracker m);
        if \<not> ready
        then Some (worker_outcome D tk w m, m\<lparr>rebalance_tracker := release_worker (ticket_generation tk) (rebalance_tracker m)\<rparr>)
        else do {
          (stop, w', m') \<leftarrow> worker_round D (envs rnd) opts (ticket_generation tk) w m;
          if stop
          then Some (worker_outcome D tk w' m', m'\<lparr>rebalance_tracker := release_worker (ticket_generation tk) (rebalance_tracker m')\<rparr>)
          else F (rnd + 1) w' m'
        }
      }"
    and "wf_map D m" "worker_ready tk m" "\<not> ticket_complete tk" "0 < wk_effective w"
    and nc: "\<And>i j. \<not> control_cancelled (envs i) j" "\<And>i. \<not> cancels i"
  shows "worker_done D tk (wk_moved w) m (F rnd w m)"
  using assms(2-5)
proof (induction "remaining D m" arbitrary: m w rnd rule: less_induct)
  case (less m w rnd)
  have ready: "wait_ready (ticket_generation tk) (cancels rnd) (rebalance_tracker m) = Some True"
    using less.prems(2,3) nc(2) by (simp add: worker_ready_def wait_ready_def wait_blocks_def wait_result_def)
  obtain stop w' m' where r: "worker_round D (envs rnd) opts (ticket_generation tk) w m = Some (stop, w', m')" "wf_map D m'"
    "same_content D m m'" "0 < wk_effective w'" "wk_moved w' + slots_len D (prev_slots m') = wk_moved w + slots_len D (prev_slots m)"
    "worker_generation (rebalance_tracker m') = worker_generation (rebalance_tracker m)" "shard_count m' = shard_count m"
    "if stop then \<not> migrating (rebalance_tracker m') \<and> wk_completed w' else worker_ready tk m' \<and> remaining D m' < remaining D m"
    using worker_round_ok[OF less.prems(1,2,3) nc(1) less.prems(4)] by blast
  note sim = eq[of rnd w m]
  have "worker_done D tk (wk_moved w') m' (F rnd w m)"
  proof (cases stop)
    case True
    then show ?thesis
      using worker_leave[OF r(2), of w' tk] r(6,8) less.prems(2)
      unfolding sim by (simp add: ready r(1) worker_ready_def)
  next
    case False
    then show ?thesis
      using less.hyps[of m' w' "rnd + 1"] r(2,4,8) less.prems(3) unfolding sim by (simp add: ready r(1))
  qed
  then show ?case using r(3,5,7) same_content_trans[OF r(3)] unfolding worker_done_def by fastforce
qed

text \<open>A worker that finds its migration finished before its first round.\<close>

lemma worker_complete_ok:
  assumes "wf_map D m" "worker_ready tk m" "ticket_complete tk"
  shows "wait_ready (ticket_generation tk) c (rebalance_tracker m) = Some False"
    "worker_done D tk 0 m (Some (worker_outcome D tk (worker_start tk opts) m,
      m\<lparr>rebalance_tracker := release_worker (ticket_generation tk) (rebalance_tracker m)\<rparr>))"
proof -
  have nm: "\<not> migrating (rebalance_tracker m)" using assms by (simp add: worker_ready_def)
  then show "wait_ready (ticket_generation tk) c (rebalance_tracker m) = Some False"
    by (simp add: wait_ready_def wait_blocks_def wait_result_def)
  show "worker_done D tk 0 m (Some (worker_outcome D tk (worker_start tk opts) m,
      m\<lparr>rebalance_tracker := release_worker (ticket_generation tk) (rebalance_tracker m)\<rparr>))"
    using worker_leave[OF assms(1) nm, of "worker_start tk opts" tk] assms(2,3) by (simp add: worker_start_def worker_ready_def)
qed

lemma run_worker_ok:
  assumes "wf_map D m" "worker_ready tk m" "\<And>i j. \<not> control_cancelled (envs i) j" "\<And>i. \<not> cancels i"
  shows "worker_done D tk 0 m (run_worker D envs cancels opts tk m)"
proof (cases "ticket_complete tk")
  case True
  note c = worker_complete_ok[OF assms(1,2) True]
  show ?thesis using c(1)[of "cancels 0"] c(2)[of opts] by (simp add: run_worker_def worker_loop.simps Let_def)
next
  case False
  have "worker_done D tk (wk_moved (worker_start tk opts)) m (worker_loop D envs cancels opts tk 0 (worker_start tk opts) m)"
    by (rule worker_equation_ok[OF _ assms(1,2) False _ assms(3,4)])
      (subst worker_loop.simps, simp add: Let_def, simp add: worker_start_def)
  then show ?thesis by (simp add: run_worker_def worker_start_def)
qed

lemma spawn_rebalance_ok:
  assumes wf: "wf_map D m" and t: "strict_shard_count n MAX_SHARDS = Inr target" and free: "worker_generation (rebalance_tracker m) = None"
    and tgt: "migrating (rebalance_tracker m) \<longrightarrow> shard_count m = target \<and> \<not> paused (telem (rebalance_tracker m))"
  shows "\<exists>tk m'. spawn_rebalance D True n m = (Inr tk, m') \<and> wf_map D m' \<and> same_content D m m' \<and> worker_ready tk m' \<and>
    ticket_target tk = target \<and> shard_count m' = target"
proof -
  have pos: "0 < target" using strict_Inr[OF t] by simp
  let ?mg = "migrating (rebalance_tracker m)"
  define m1 where "m1 = (if \<not> ?mg \<and> shard_count m \<noteq> target then begin_migration D (shard_count m) target m else m)"
  note b = begin_migration_map[OF wf _ pos]
  have m1: "wf_map D m1" "same_content D m m1" "worker_generation (rebalance_tracker m1) = None" "shard_count m1 = target"
    "if \<not> ?mg \<and> shard_count m = target then \<not> migrating (rebalance_tracker m1)
     else migrating (rebalance_tracker m1) \<and> \<not> paused (telem (rebalance_tracker m1))"
    using wf free tgt b by (auto simp: m1_def)
  define g where "g = generation (telem (rebalance_tracker m1))"
  let ?m2 = "m1\<lparr>rebalance_tracker := (rebalance_tracker m1)\<lparr>worker_generation := Some g\<rparr>\<rparr>"
  let ?tk = "\<lparr>ticket_generation = g, ticket_complete = (\<not> ?mg \<and> shard_count m = target),
     ticket_from = (if \<not> ?mg \<and> shard_count m = target then shard_count m else from_shards (telem (rebalance_tracker m1))), ticket_target = target\<rparr>"
  have "spawn_rebalance D True n m = (Inr ?tk, ?m2)"
    using t free tgt m1(3) by (auto simp: spawn_rebalance_def has_worker_def is_migrating_def Let_def m1_def g_def claim_worker_def)
  moreover have "wf_map D ?m2" by (rule wf_map_tracker[OF m1(1)]) simp_all
  moreover have "same_content D m ?m2" using m1(2) by simp
  ultimately show ?thesis
    using m1(4,5) by (intro exI[of _ ?tk] exI[of _ ?m2]) (simp add: worker_ready_def g_def)
qed

end

end
