(* ===== verification/Sync_Online.thy ===== *)
theory Sync_Online
  imports Sync_Contract Sync_Completion
begin

text \<open>
  Resharding online: the entry points of \<open>rebalance_impl.rs\<close> as background work between the calls of
  clients. The synchronous map without a policy meets \<open>online_contract\<close>.
\<close>

datatype background =
    StartOnline nat
  | Advance batch_env nat nat nat "u64 option"
  | Pause
  | Resume
  | RebalanceTo "nat \<Rightarrow> nat \<Rightarrow> nat" nat rebalance_options
  | SpawnWorker bool nat

fun background_op :: "('k, 'v, 'm, 'b) deps \<Rightarrow> background \<Rightarrow> ('k, 'v, 'm, 'b) sharded_map \<Rightarrow> ('k, 'v, 'm, 'b) sharded_map option" where
  "background_op D (StartOnline n) m = Some (snd (start_rebalance_online D n m))"
| "background_op D (Advance env mx e p expd) m = map_option snd (advance_rebalance_inner D env mx e p expd m)"
| "background_op D Pause m = Some (snd (pause_rebalance m))"
| "background_op D Resume m = Some (snd (resume_rebalance m))"
| "background_op D (RebalanceTo clks n opts) m = map_option snd (rebalance_to D clks n opts m)"
| "background_op D (SpawnWorker ok n) m = Some (snd (spawn_rebalance D ok n m))"

lemma pause_rebalance_ok:
  assumes "wf_map D m"
  shows "wf_map D (snd (pause_rebalance m))" "same_content D m (snd (pause_rebalance m))"
proof -
  have eq: "snd (pause_rebalance m) = m\<lparr>rebalance_tracker := snd (pause True (rebalance_tracker m))\<rparr>"
    by (simp add: pause_rebalance_def split_beta)
  show sc: "same_content D m (snd (pause_rebalance m))" by (simp add: eq)
  show "wf_map D (snd (pause_rebalance m))"
    using wf_dirs_tracker[OF wf_map_dirs[OF assms] migration_ok_pause[OF wf_dirsD(7)[OF wf_map_dirs[OF assms]]]]
    by (intro same_content_wf[OF sc _ assms]) (simp add: eq)
qed

lemma start_online_ok:
  assumes "wf_map D m"
  shows "wf_map D (snd (start_rebalance_online D n m))" "same_content D m (snd (start_rebalance_online D n m))"
proof -
  have "wf_map D (snd (start_rebalance_online D n m)) \<and> same_content D m (snd (start_rebalance_online D n m))"
  proof (cases "strict_shard_count n MAX_SHARDS")
    case (Inl e)
    then show ?thesis using assms by (simp add: start_rebalance_online_def)
  next
    case (Inr target)
    have "length (shards m) = shard_count m" using wf_dirsD(2)[OF wf_map_dirs[OF assms]] by simp
    then show ?thesis
      using Inr assms strict_Inr[OF Inr] begin_migration_map(1,2)[OF assms, of target]
      by (simp add: start_rebalance_online_def is_migrating_def)
  qed
  then show "wf_map D (snd (start_rebalance_online D n m))" "same_content D m (snd (start_rebalance_online D n m))" by simp_all
qed

lemma spawn_safe:
  assumes wf: "wf_map D m"
  shows "wf_map D (snd (spawn_rebalance D ok n m)) \<and> same_content D m (snd (spawn_rebalance D ok n m))"
proof (cases "strict_shard_count n MAX_SHARDS")
  case (Inl e)
  then show ?thesis using wf by (simp add: spawn_rebalance_def)
next
  case (Inr target)
  have b: "\<not> migrating (rebalance_tracker m) \<Longrightarrow> wf_map D (begin_migration D (shard_count m) target m) \<and>
      same_content D m (begin_migration D (shard_count m) target m)"
    using begin_migration_map(1,2)[OF wf, of target] strict_Inr[OF Inr] by auto
  show ?thesis
    using wf b by (auto simp: spawn_rebalance_def Inr Let_def is_migrating_def claim_worker_def intro!: wf_map_tracker split: if_splits)
qed

context starshard_deps
begin

lemma background_unseen:
  assumes wf: "wf_map D m"
  shows "\<exists>m'. background_op D b m = Some m' \<and> wf_map D m' \<and> same_content D m m'"
proof (cases b)
  case (StartOnline n)
  then show ?thesis using start_online_ok[OF wf] by simp
next
  case (Advance env mx e p expd)
  then show ?thesis using advance_inner_ok[OF wf, of env mx e p expd] by (auto simp: batch_post_def)
next
  case Pause
  then show ?thesis using pause_rebalance_ok[OF wf] by simp
next
  case Resume
  then show ?thesis using resume_rebalance_ok(1,2)[OF wf] by simp
next
  case (RebalanceTo clks n opts)
  show ?thesis
  proof (cases "strict_shard_count n MAX_SHARDS")
    case (Inl e)
    then show ?thesis using RebalanceTo wf by (simp add: rebalance_to_def)
  next
    case (Inr target)
    then show ?thesis using RebalanceTo rebalance_to_ok[OF wf Inr, of clks opts] by auto
  qed
next
  case (SpawnWorker ok n)
  then show ?thesis using spawn_safe[OF wf, of ok n] by simp
qed

end

sublocale starshard_deps \<subseteq> sync_online: online_contract "plain_map D" "view D" "insert_op D" "get_borrowed D" "remove_borrowed D" "background_op D"
proof
  fix m b assume "plain_map D m"
  then show "\<exists>s'. background_op D b m = Some s' \<and> plain_map D s' \<and> view D s' = view D m"
    using background_unseen[of m b] unfolding plain_map_def same_content_def by metis
qed

context starshard_deps
begin

lemma online_events_exact:
  "plain_map D m \<Longrightarrow> \<exists>m'. run_events (background_op D) (run_call (insert_op D) (get_borrowed D) (remove_borrowed D)) es m =
      Some (fst (spec_calls (calls_of es) (view D m)), m') \<and> plain_map D m' \<and> view D m' = snd (spec_calls (calls_of es) (view D m))"
  by (rule sync_online.events_exact)

lemma advance_exact:
  assumes wf: "wf_map D m" and mg: "migrating (rebalance_tracker m)" and np: "\<not> paused (telem (rebalance_tracker m))"
    and fits: "slots_len D (prev_slots m) < USIZE_MAX"
  shows "\<exists>m'. advance_rebalance D clk n m =
      Some (min n (length (prev_slots m) - completed_shards (telem (rebalance_tracker m))), m') \<and> wf_map D m' \<and> same_content D m m' \<and>
    (migrating (rebalance_tracker m') \<longleftrightarrow> n < length (prev_slots m) - completed_shards (telem (rebalance_tracker m)))"
proof -
  let ?env = "\<lparr>env_clock = clk, env_control = None\<rparr>"
  let ?left = "\<lambda>m. length (prev_slots m) - completed_shards (telem (rebalance_tracker m))"
  have c: "0 < ?left m" using migration_okE(3)[OF wf_map_dirs[OF wf] mg] by simp
  obtain r m' where r: "advance_rebalance_inner D ?env n USIZE_MAX 0 None m = Some (r, m')" "batch_post D m r m'" "rep_completed_shards r \<le> n"
    "n \<noteq> 0 \<longrightarrow> (rep_complete r \<longleftrightarrow> \<not> migrating (rebalance_tracker m')) \<and> (rep_complete r \<or> rep_completed_shards r = n)"
    "n = 0 \<longrightarrow> m' = m \<and> rep_completed_shards r = 0"
    using advance_inner_ok[OF wf, of ?env n USIZE_MAX 0 None] np fits
    by (auto simp: admitted_def control_cancelled_def batch_report_default_def)
  have left: "?left m' + rep_completed_shards r = ?left m" using r(2) by (simp add: batch_post_def remaining_def batch_work_def)
  have wf': "wf_map D m'" using r(2) by (simp add: batch_post_def)
  have pos: "migrating (rebalance_tracker m') \<Longrightarrow> 0 < ?left m'" using migration_okE(3)[OF wf_map_dirs[OF wf']] by simp
  have zero: "\<not> migrating (rebalance_tracker m') \<Longrightarrow> ?left m' = 0" using not_migrating_prev[OF wf_map_dirs[OF wf']] by simp
  have "rep_completed_shards r = min n (?left m) \<and> (migrating (rebalance_tracker m') \<longleftrightarrow> n < ?left m)"
    using left pos zero r(3,4,5) c mg by (cases "n = 0"; cases "migrating (rebalance_tracker m')") auto
  then show ?thesis using r(1,2) by (simp add: advance_rebalance_def batch_post_def)
qed

end

end
