(* ===== verification/Sync_Snapshots.thy ===== *)
theory Sync_Snapshots
  imports Sync_Entries Sync_Online
begin

text \<open>
  Snapshots and iteration of the synchronous map (\<open>core/sync_impl.rs\<close>, \<open>snapshot.rs\<close>, \<open>advanced.rs\<close>) and
  the cached snapshot with its epoch check. A capture holds the routing lock, both directories and every
  shard for reading, so it is one atomic step on the map. \<open>par\<close> stands for rayon's parallel
  \<open>flat_map_iter\<close> collection, which is used from 4096 entries on; what is relied on is that it yields the
  elements of the sequential collection.
\<close>

section \<open>snapshot.rs\<close>

record 'm snapshot_view =
  sv_shards :: "'m list"
  sv_len :: nat
  sv_version :: u64
  sv_shard_count :: nat

definition snapshot_view_new :: "('k, 'v, 'm, 'b) deps \<Rightarrow> 'm list \<Rightarrow> u64 \<Rightarrow> nat \<Rightarrow> 'm snapshot_view" where
  "snapshot_view_new D sds version slot_count =
     \<lparr>sv_shards = sds, sv_len = sum_list (map (hb_len (shard_ops D)) sds), sv_version = version,
      sv_shard_count = slot_count\<rparr>"

definition sv_iter :: "('k, 'v, 'm, 'b) deps \<Rightarrow> 'm snapshot_view \<Rightarrow> ('k \<times> 'v) list" where
  "sv_iter D sv = concat (map (hb_iter (shard_ops D)) (sv_shards sv))"

definition sv_is_empty :: "'m snapshot_view \<Rightarrow> bool" where
  "sv_is_empty sv = (sv_len sv = 0)"

section \<open>Capturing\<close>

definition capture_view_data :: "('k, 'v, 'm, 'b) sharded_map \<Rightarrow> 'm list \<times> u64 \<times> nat" where
  "capture_view_data m = (map shard_snapshot (all_shards m), write_epoch m, length (shards m))"

definition snapshot_view_of :: "('k, 'v, 'm, 'b) deps \<Rightarrow> ('k, 'v, 'm, 'b) sharded_map \<Rightarrow> 'm snapshot_view" where
  "snapshot_view_of D m =
     (let (sds, ep, slot_count) = capture_view_data m in snapshot_view_new D sds ep slot_count)"

definition collect_into ::
  "('k, 'v, 'm, 'b) deps \<Rightarrow> (('m shard_data \<Rightarrow> 't list) \<Rightarrow> 'm shard_data list \<Rightarrow> 't list) \<Rightarrow> ('k \<times> 'v \<Rightarrow> 't) \<Rightarrow>
   ('k, 'v, 'm, 'b) sharded_map \<Rightarrow> 't list \<times> u64" where
  "collect_into D par project m =
     (let guards = all_shards m; n = sum_list (map (\<lambda>g. hb_len (shard_ops D) (as_map g)) guards);
          items_of = (\<lambda>g. map project (hb_iter (shard_ops D) (as_map g)))
      in (if n \<ge> 4096 \<and> length guards > 1 then par items_of guards else concat (map items_of guards), write_epoch m))"

definition collect_with ::
  "('k, 'v, 'm, 'b) deps \<Rightarrow> (('m shard_data \<Rightarrow> 't list) \<Rightarrow> 'm shard_data list \<Rightarrow> 't list) \<Rightarrow> ('k \<times> 'v \<Rightarrow> 't) \<Rightarrow>
   ('k, 'v, 'm, 'b) sharded_map \<Rightarrow> 't list" where
  "collect_with D par project m =
     (if snapshot_mode m = Cow then map project (sv_iter D (snapshot_view_of D m))
      else fst (collect_into D par project m))"

definition cached_snapshot :: "('k, 'v, 'm, 'b) sharded_map \<Rightarrow> (u64 \<times> ('k \<times> 'v) list) option" where
  "cached_snapshot m =
     (if snapshot_mode m = CloneMode then None
      else (case snapshot_cache m of
              None \<Rightarrow> None
            | Some (ep, data) \<Rightarrow> if ep = write_epoch m then Some (ep, data) else None))"

definition capture_snapshot ::
  "('k, 'v, 'm, 'b) deps \<Rightarrow> (('m shard_data \<Rightarrow> ('k \<times> 'v) list) \<Rightarrow> 'm shard_data list \<Rightarrow> ('k \<times> 'v) list) \<Rightarrow>
   ('k, 'v, 'm, 'b) sharded_map \<Rightarrow> (u64 \<times> ('k \<times> 'v) list) \<times> ('k, 'v, 'm, 'b) sharded_map" where
  "capture_snapshot D par m =
     (case cached_snapshot m of
        Some snapshot \<Rightarrow> (snapshot, m)
      | None \<Rightarrow>
          (let (items, ep) =
                 (if snapshot_mode m = Cow
                  then (let (sds, ep, _) = capture_view_data m
                        in (concat (map (hb_iter (shard_ops D)) sds), ep))
                  else collect_into D par id m)
           in ((ep, items), if snapshot_mode m = CloneMode then m else m\<lparr>snapshot_cache := Some (ep, items)\<rparr>)))"

definition shared_snapshot ::
  "('k, 'v, 'm, 'b) deps \<Rightarrow> (('m shard_data \<Rightarrow> ('k \<times> 'v) list) \<Rightarrow> 'm shard_data list \<Rightarrow> ('k \<times> 'v) list) \<Rightarrow>
   ('k, 'v, 'm, 'b) sharded_map \<Rightarrow> ('k \<times> 'v) list \<times> ('k, 'v, 'm, 'b) sharded_map" where
  "shared_snapshot D par m = (let ((_, data), m') = capture_snapshot D par m in (data, m'))"

definition iter_op ::
  "('k, 'v, 'm, 'b) deps \<Rightarrow> (('m shard_data \<Rightarrow> ('k \<times> 'v) list) \<Rightarrow> 'm shard_data list \<Rightarrow> ('k \<times> 'v) list) \<Rightarrow>
   ('k, 'v, 'm, 'b) sharded_map \<Rightarrow> ('k \<times> 'v) list \<times> ('k, 'v, 'm, 'b) sharded_map" where
  "iter_op D par m =
     (if snapshot_mode m = CloneMode then (collect_with D par id m, m)
      else shared_snapshot D par m)"

definition keys_op ::
  "('k, 'v, 'm, 'b) deps \<Rightarrow> (('m shard_data \<Rightarrow> 'k list) \<Rightarrow> 'm shard_data list \<Rightarrow> 'k list) \<Rightarrow>
   ('k, 'v, 'm, 'b) sharded_map \<Rightarrow> 'k list" where
  "keys_op D par m = collect_with D par fst m"

definition values_op ::
  "('k, 'v, 'm, 'b) deps \<Rightarrow> (('m shard_data \<Rightarrow> 'v list) \<Rightarrow> 'm shard_data list \<Rightarrow> 'v list) \<Rightarrow>
   ('k, 'v, 'm, 'b) sharded_map \<Rightarrow> 'v list" where
  "values_op D par m = collect_with D par snd m"

definition cow_snapshot_of ::
  "('k, 'v, 'm, 'b) deps \<Rightarrow> (('m shard_data \<Rightarrow> ('k \<times> 'v) list) \<Rightarrow> 'm shard_data list \<Rightarrow> ('k \<times> 'v) list) \<Rightarrow>
   ('k, 'v, 'm, 'b) sharded_map \<Rightarrow> ('k, 'v) cow_snapshot \<times> ('k, 'v, 'm, 'b) sharded_map" where
  "cow_snapshot_of D par m =
     (let ((version, data), m') = capture_snapshot D par m in (cow_from_arc data version, m'))"

definition versioned_snapshot ::
  "('k, 'v, 'm, 'b) deps \<Rightarrow> (('m shard_data \<Rightarrow> ('k \<times> 'v) list) \<Rightarrow> 'm shard_data list \<Rightarrow> ('k \<times> 'v) list) \<Rightarrow>
   ('k, 'v, 'm, 'b) sharded_map \<Rightarrow> ('k, 'v) isolated_snapshot \<times> ('k, 'v, 'm, 'b) sharded_map" where
  "versioned_snapshot D par m =
     (let ((version, data), m') = capture_snapshot D par m in (isolated_from_arc (now D) version data, m'))"

definition snapshot_at_version ::
  "('k, 'v, 'm, 'b) deps \<Rightarrow> (('m shard_data \<Rightarrow> ('k \<times> 'v) list) \<Rightarrow> 'm shard_data list \<Rightarrow> ('k \<times> 'v) list) \<Rightarrow> u64 \<Rightarrow>
   ('k, 'v, 'm, 'b) sharded_map \<Rightarrow> ('k, 'v) isolated_snapshot option \<times> ('k, 'v, 'm, 'b) sharded_map" where
  "snapshot_at_version D par version m =
     (if version \<noteq> write_epoch m then (None, m)
      else
        (let ((captured, data), m') = capture_snapshot D par m
         in (if version = captured then Some (isolated_from_arc (now D) captured data) else None, m')))"

section \<open>Exactness\<close>

text \<open>What rayon documents: the parallel collection has the elements of the sequential one.\<close>

definition par_collects :: "(('a \<Rightarrow> 't list) \<Rightarrow> 'a list \<Rightarrow> 't list) \<Rightarrow> bool" where
  "par_collects par \<longleftrightarrow> (\<forall>f xs. mset (par f xs) = mset (concat (map f xs)))"

lemma lists_map_mset:
  assumes "mset xs = mset ys" "lists_map xs A"
  shows "lists_map ys A"
proof -
  have "distinct (map fst ys)"
    using assms mset_eq_imp_distinct_iff[of "map fst xs" "map fst ys"] by (simp add: lists_map_def)
  then have "map_of xs = map_of ys"
    using assms map_of_inject_set[of xs ys] mset_eq_setD[OF assms(1)] by (simp add: lists_map_def)
  then show ?thesis using \<open>distinct (map fst ys)\<close> assms(2) by (simp add: lists_map_def)
qed

text \<open>The cached snapshot is at most \<open>n\<close> writes old, and exact if no write happened since.\<close>

definition cache_ok :: "('k, 'v, 'm, 'b) deps \<Rightarrow> nat \<Rightarrow> ('k, 'v, 'm, 'b) sharded_map \<Rightarrow> bool" where
  "cache_ok D n m \<longleftrightarrow>
     (case snapshot_cache m of None \<Rightarrow> True
      | Some (ep, data) \<Rightarrow> \<exists>d \<le> n. write_epoch m = ep + of_nat d \<and> (d = 0 \<longrightarrow> lists_map data (view D m)))"

lemma of_nat_u64_zero: "d < 2 ^ 64 \<Longrightarrow> (of_nat d :: u64) = 0 \<Longrightarrow> d = 0"
  using unsigned_of_nat[of d, where 'a = nat and 'b = 64] by (simp add: take_bit_nat_eq_self)

lemma same_cache: "\<exists>x. m = m\<lparr>snapshot_cache := x\<rparr>"
  by (rule exI[of _ "snapshot_cache m"]) simp

lemma cached_exact:
  assumes "cache_ok D n m" "n < 2 ^ 64" "cached_snapshot m = Some (ep, data)"
  shows "ep = write_epoch m" "lists_map data (view D m)"
proof -
  have c: "snapshot_cache m = Some (ep, data)" "ep = write_epoch m"
    using assms(3) by (auto simp: cached_snapshot_def split: if_splits option.splits)
  obtain d where d: "d \<le> n" "write_epoch m = ep + of_nat d" "d = 0 \<longrightarrow> lists_map data (view D m)"
    using assms(1) c(1) by (auto simp: cache_ok_def)
  have "(of_nat d :: u64) = 0" using d(2) unfolding c(2) by simp
  then have "d = 0" by (rule of_nat_u64_zero[OF le_less_trans[OF d(1) assms(2)]])
  then show "ep = write_epoch m" "lists_map data (view D m)" using c(2) d(3) by simp_all
qed

context starshard_deps
begin

lemma entries_exact: "wf_map D m \<Longrightarrow> lists_map (stored_entries D m) (view D m)"
  using stored_entries_spec[of m] by (simp add: lists_map_def wf_map_def)

lemma sv_iter_eq: "sv_iter D (snapshot_view_of D m) = stored_entries D m"
  by (simp add: sv_iter_def snapshot_view_of_def capture_view_data_def snapshot_view_new_def stored_entries_def
      shard_snapshot_def comp_def)

lemma collect_into_mset:
  assumes "par_collects par"
  shows "mset (fst (collect_into D par project m)) = image_mset project (mset (stored_entries D m))"
proof -
  let ?seq = "concat (map (\<lambda>g. map project (hb_iter (shard_ops D) (as_map g))) (all_shards m))"
  have "?seq = map project (stored_entries D m)" by (simp add: stored_entries_def map_concat comp_def)
  moreover have "mset (fst (collect_into D par project m)) = mset ?seq"
    using assms by (simp add: collect_into_def par_collects_def Let_def)
  ultimately show ?thesis by simp
qed

lemma collect_with_mset:
  "par_collects par \<Longrightarrow> mset (collect_with D par project m) = image_mset project (mset (stored_entries D m))"
  by (simp add: collect_with_def collect_into_mset sv_iter_eq)

lemma capture_exact:
  assumes wf: "wf_map D m" and c: "cache_ok D n m" "n < 2 ^ 64" and par: "par_collects par"
  shows "\<exists>data m'. capture_snapshot D par m = ((write_epoch m, data), m') \<and> lists_map data (view D m) \<and>
    (\<exists>x. m' = m\<lparr>snapshot_cache := x\<rparr>) \<and> cache_ok D n m'"
proof (cases "cached_snapshot m")
  case (Some s)
  obtain ep data where s: "s = (ep, data)" by (cases s)
  then show ?thesis using Some cached_exact[OF c, of ep data] c(1) same_cache by (auto simp: capture_snapshot_def)
next
  case None
  let ?items = "if snapshot_mode m = Cow then stored_entries D m else fst (collect_into D par id m)"
  have "mset ?items = mset (stored_entries D m)" using collect_into_mset[OF par, of id m] by simp
  then have ex: "lists_map ?items (view D m)" using lists_map_mset entries_exact[OF wf] by metis
  have eq: "capture_snapshot D par m = ((write_epoch m, ?items), if snapshot_mode m = CloneMode then m else m\<lparr>snapshot_cache := Some (write_epoch m, ?items)\<rparr>)"
    using None by (auto simp: capture_snapshot_def capture_view_data_def stored_entries_def shard_snapshot_def comp_def
        collect_into_def Let_def)
  have "cache_ok D n (m\<lparr>snapshot_cache := Some (write_epoch m, ?items)\<rparr>)" using ex by (auto simp: cache_ok_def intro!: exI[of _ 0])
  then show ?thesis
    using eq ex c(1) same_cache by auto
qed

end

section \<open>Snapshots along a history\<close>

lemma cache_ok_mono: "cache_ok D n m \<Longrightarrow> n \<le> n' \<Longrightarrow> cache_ok D n' m"
  unfolding cache_ok_def by (simp split: option.splits prod.splits) (meson le_trans)

lemma cache_ok_frame:
  "cache_ok D n m \<Longrightarrow> snapshot_cache m' = snapshot_cache m \<Longrightarrow> write_epoch m' = write_epoch m \<Longrightarrow> view D m' = view D m \<Longrightarrow>
   cache_ok D n m'"
  by (cases "snapshot_cache m") (auto simp: cache_ok_def)

lemma cache_ok_write:
  assumes "cache_ok D n m" "snapshot_cache m' = snapshot_cache m" "write_epoch m' = write_epoch m + 1"
  shows "cache_ok D (Suc n) m'"
proof (cases "snapshot_cache m")
  case (Some c)
  obtain ep data where c: "c = (ep, data)" by (cases c)
  obtain d where "d \<le> n" "write_epoch m = ep + of_nat d" using assms(1) Some c by (auto simp: cache_ok_def)
  then have "Suc d \<le> Suc n" "write_epoch m' = ep + of_nat (Suc d)" using assms(3) by (simp_all add: add.assoc add.commute)
  then show ?thesis using assms(2) Some c by (auto simp: cache_ok_def intro!: exI[of _ "Suc d"])
qed (simp add: cache_ok_def assms(2))

lemma cache_ok_committed:
  assumes "cache_ok D n m" "committed D m V ep l m'" "ep = write_epoch m + 1 \<or> ep = write_epoch m \<and> V = view D m"
  shows "cache_ok D (Suc n) m'"
  using assms cache_ok_write[OF assms(1), of m'] cache_ok_frame[OF cache_ok_mono[OF assms(1), of "Suc n"], of m']
  by (auto simp: committed_def same_meta_def)

text \<open>A map without a policy whose cached snapshot is at most \<open>n\<close> writes old.\<close>

definition cached_map :: "('k, 'v, 'm, 'b) deps \<Rightarrow> nat \<Rightarrow> ('k, 'v, 'm, 'b) sharded_map \<Rightarrow> bool" where
  "cached_map D n m \<longleftrightarrow> plain_map D m \<and> cache_ok D n m"

lemma enforce_plain: "life_opts (lifecycle m) = None \<Longrightarrow> enforce_eviction_limits D m = Some (0, m)"
  by (simp add: enforce_eviction_limits_def run_eviction_def opts_None config_def)

context starshard_deps
begin

lemma call_keeps_cache:
  assumes m: "plain_map D m" and c: "cache_ok D n m"
  shows "\<exists>m'. run_call (insert_op D) (get_borrowed D) (remove_borrowed D) c m = Some (fst (spec_call c (view D m)), m') \<and>
    plain_map D m' \<and> view D m' = snd (spec_call c (view D m)) \<and> cache_ok D (Suc n) m'"
proof -
  have wf: "wf_map D m" and pl: "life_opts (lifecycle m) = None" using m by (simp_all add: plain_map_def)
  show ?thesis
  proof (cases c)
    case (Insert k v)
    obtain m1 where m1: "insert_inner D k v m = Some (view D m k, m1)"
      and cm: "committed D m ((view D m)(k \<mapsto> v)) (write_epoch m + 1) (insert_hook D k v (view D m k \<noteq> None) (lifecycle m)) m1"
      using insert_inner_spec[OF wf] by blast
    have "life_opts (lifecycle m1) = None" using cm pl by (simp add: committed_def)
    then show ?thesis
      using Insert m1 cm enforce_plain[of m1 D] cache_ok_committed[OF c cm]
      by (auto simp: insert_op_def plain_map_def committed_def)
  next
    case (Get k)
    have "cache_ok D (Suc n) (tracked_read D k (view D m k) m)"
      by (rule cache_ok_frame[OF cache_ok_mono[OF c]]) (simp_all add: tracked_read_def)
    then show ?thesis using Get read_inner_eq[of m k] wf pl by (simp add: get_borrowed_def plain_map_def wf_map_def[of D m] )
  next
    case (Delete k)
    obtain m1 l where r: "remove_inner D k m = Some (view D m k, m1)"
      and cm: "committed D m ((view D m)(k := None)) (if view D m k = None then write_epoch m else write_epoch m + 1) l m1"
      and l: "l = remove_hook D k (view D m k \<noteq> None) (lifecycle m) \<or> view D m k = None \<and> l = lifecycle m"
      using remove_inner_spec[OF wf] by blast
    have lo: "life_opts (lifecycle m1) = None" using cm l pl by (auto simp: committed_def)
    have "cache_ok D (Suc n) m1"
      by (rule cache_ok_committed[OF c cm]) (auto simp: fun_upd_idem)
    then show ?thesis using Delete r lo cm enforce_plain[OF lo, of D] by (auto simp: remove_borrowed_def plain_map_def committed_def)
  qed
qed

lemma background_keeps_cache:
  assumes "cached_map D n m"
  shows "\<exists>m'. background_op D b m = Some m' \<and> cached_map D n m' \<and> view D m' = view D m"
proof -
  obtain m' where m': "background_op D b m = Some m'" "wf_map D m'" "same_content D m m'"
    using background_unseen assms by (auto simp: cached_map_def plain_map_def)
  then show ?thesis using assms cache_ok_frame[of D n m m'] by (auto simp: cached_map_def plain_map_def same_content_def)
qed

lemma snapshot_keeps_cache:
  assumes "cached_map D n m" "n < 2 ^ 64" "par_collects par"
  shows "\<exists>data m'. shared_snapshot D par m = (data, m') \<and> lists_map data (view D m) \<and> cached_map D n m' \<and> view D m' = view D m"
proof -
  have "wf_map D m" "cache_ok D n m" using assms(1) by (simp_all add: cached_map_def plain_map_def)
  then obtain data m' x where "capture_snapshot D par m = ((write_epoch m, data), m')" "lists_map data (view D m)"
    "m' = m\<lparr>snapshot_cache := x\<rparr>" "cache_ok D n m'"
    using capture_exact[OF _ _ assms(2,3)] by blast
  then show ?thesis using assms(1) by (simp add: cached_map_def plain_map_def shared_snapshot_def)
qed

end

text \<open>The synchronous map with rayon's collection meets the contract.\<close>

locale parallel_deps = starshard_deps D
  for D :: "('k, 'v, 'm, 'b) deps" +
  fixes par :: "('m shard_data \<Rightarrow> ('k \<times> 'v) list) \<Rightarrow> 'm shard_data list \<Rightarrow> ('k \<times> 'v) list"
  assumes par_law: "par_collects par"

sublocale parallel_deps \<subseteq> sync_snapshots: snapshot_contract "cached_map D" "view D" "background_op D"
  "run_call (insert_op D) (get_borrowed D) (remove_borrowed D)" "shared_snapshot D par"
proof
  show "\<exists>s'. background_op D e s = Some s' \<and> cached_map D n s' \<and> view D s' = view D s" if "cached_map D n s" for n s e
    using background_keeps_cache[OF that] .
  show "\<exists>s'. run_call (insert_op D) (get_borrowed D) (remove_borrowed D) c s = Some (fst (spec_call c (view D s)), s') \<and>
      cached_map D (Suc n) s' \<and> view D s' = snd (spec_call c (view D s))" if "cached_map D n s" for n s c
    using call_keeps_cache[of s n c] that unfolding cached_map_def by blast
  show "\<exists>data s'. shared_snapshot D par s = (data, s') \<and> lists_map data (view D s) \<and> cached_map D n s' \<and> view D s' = view D s"
    if "cached_map D n s" "n < 2 ^ 64" for n s
    using snapshot_keeps_cache[OF that par_law] .
qed

context parallel_deps
begin

lemma sync_history_exact:
  assumes "plain_map D m" "cache_ok D n m" "n + length ss < 2 ^ 64"
  shows "\<exists>outs m'. run_history (background_op D) (run_call (insert_op D) (get_borrowed D) (remove_borrowed D))
      (shared_snapshot D par) ss m = Some (outs, m') \<and> history_ok ss outs (view D m) \<and> plain_map D m'"
  using sync_snapshots.history_exact[of n m ss] assms by (auto simp: cached_map_def)

end

section \<open>The public iteration operations\<close>

lemma lists_map_set: "lists_map xs A \<Longrightarrow> fst ` set xs = dom A"
  using dom_map_of_conv_image_fst[of xs] by (simp add: lists_map_def)

lemma lists_map_values: "lists_map xs A \<Longrightarrow> image_mset snd (mset xs) = image_mset (\<lambda>k. the (A k)) (mset_set (dom A))"
proof -
  assume xs: "lists_map xs A"
  then have "mset_set (dom A) = mset (map fst xs)"
    using mset_set_set[of "map fst xs"] by (simp add: lists_map_def lists_map_set[OF xs] del: mset_map)
  moreover have "map snd xs = map (\<lambda>k. the (A k)) (map fst xs)"
    using xs by (auto simp: lists_map_def)
  ultimately show ?thesis by (metis mset_map)
qed

context starshard_deps
begin

lemma view_exact:
  assumes wf: "wf_map D m"
  shows "lists_map (sv_iter D (snapshot_view_of D m)) (view D m) \<and> sv_len (snapshot_view_of D m) = card (dom (view D m))"
proof -
  have "sv_len (snapshot_view_of D m) = length (stored_entries D m)"
    by (simp add: snapshot_view_of_def capture_view_data_def snapshot_view_new_def stored_entries_def length_concat
        shard_snapshot_def comp_def H.len_iter)
  also have "\<dots> = card (dom (view D m))" using stored_entries_spec(3)[OF wf_map_dirs[OF wf]] stored_len_card wf by (simp add: wf_map_def)
  finally show ?thesis using entries_exact[OF wf] by (simp add: sv_iter_eq)
qed

lemma keys_exact:
  assumes "wf_map D m" "par_collects par"
  shows "distinct (keys_op D par m) \<and> set (keys_op D par m) = dom (view D m)"
proof -
  have "mset (keys_op D par m) = mset (map fst (stored_entries D m))" by (simp add: keys_op_def collect_with_mset[OF assms(2)])
  then show ?thesis
    using mset_eq_imp_distinct_iff[of "keys_op D par m"] mset_eq_setD[of "keys_op D par m"] entries_exact[OF assms(1)]
      lists_map_set[OF entries_exact[OF assms(1)]] by (metis list.set_map lists_map_def)
qed

lemma values_exact:
  assumes "wf_map D m" "par_collects par"
  shows "mset (values_op D par m) = image_mset (\<lambda>k. the (view D m k)) (mset_set (dom (view D m)))"
  using lists_map_values[OF entries_exact[OF assms(1)]] by (simp add: values_op_def collect_with_mset[OF assms(2)])

lemma iter_exact:
  assumes "wf_map D m" "cache_ok D n m" "n < 2 ^ 64" "par_collects par"
  shows "lists_map (fst (iter_op D par m)) (view D m) \<and> view D (snd (iter_op D par m)) = view D m"
proof (cases "snapshot_mode m = CloneMode")
  case True
  have "mset (stored_entries D m) = mset (collect_with D par id m)" by (simp add: collect_with_mset[OF assms(4)])
  then show ?thesis using lists_map_mset[OF _ entries_exact[OF assms(1)]] True by (simp add: iter_op_def)
next
  case False
  then show ?thesis using capture_exact[OF assms] by (auto simp: iter_op_def shared_snapshot_def)
qed

lemma at_version_exact:
  assumes "wf_map D m" "cache_ok D n m" "n < 2 ^ 64" "par_collects par"
  shows "fst (snapshot_at_version D par ver m) \<noteq> None \<longleftrightarrow> ver = write_epoch m"
  using capture_exact[OF assms] by (auto simp: snapshot_at_version_def)

end

section \<open>Properties\<close>

lemma cache_ok_fresh [simp]: "cache_ok nat_deps n (fresh_map mode)"
  by (simp add: cache_ok_def fresh_map_def)

lemma seq_collects [simp]: "par_collects (\<lambda>f xs. concat (map f xs))"
  by (simp add: par_collects_def)

text \<open>
  C23: snapshots never go stale: in any history of client calls, resharding work and snapshots on a map
  without an eviction policy and with fewer than 2^64 steps since the cache was filled, every cached or
  rebuilt snapshot lists exactly the content of the finite map at that point, each key once.
\<close>

theorem snapshots_never_stale:
  assumes "starshard_deps D" "plain_map D m" "cache_ok D n m" "n + length ss < 2 ^ 64" "par_collects par"
  shows "\<exists>outs m'. run_history (background_op D) (run_call (insert_op D) (get_borrowed D) (remove_borrowed D))
      (shared_snapshot D par) ss m = Some (outs, m') \<and> history_ok ss outs (view D m) \<and> wf_map D m'"
  using parallel_deps.sync_history_exact[OF parallel_deps.intro[OF assms(1) parallel_deps_axioms.intro[OF assms(5)]] assms(2-4)]
  by (auto simp: plain_map_def)

theorem snapshots_never_stale_witness:
  "\<exists>outs m'. run_history (background_op nat_deps) (run_call (insert_op nat_deps) (get_borrowed nat_deps) (remove_borrowed nat_deps))
      (shared_snapshot nat_deps (\<lambda>f xs. concat (map f xs))) [Snap, Do (Insert 1 10), Snap, Snap] (fresh_map Cached) = Some (outs, m') \<and>
    history_ok [Snap :: (background, nat, nat) history_step, Do (Insert 1 10), Snap, Snap] outs Map.empty \<and> wf_map nat_deps m'"
  using snapshots_never_stale[OF nat_deps_laws, of "fresh_map Cached" 0 "[Snap, Do (Insert 1 10), Snap, Snap]" "\<lambda>f xs. concat (map f xs)"]
  by (simp add: plain_map_def)

text \<open>
  C24: in every snapshot mode \<open>snapshot_view\<close>, \<open>keys\<close>, \<open>values\<close> and \<open>iter\<close> see each entry of both generations
  exactly once, sequentially collected or in parallel, and a versioned snapshot is handed out exactly for
  the current write epoch. The snapshot that may be cached has to be one taken fewer than 2^64 epochs ago, as it is on any map with that
  short a history.
\<close>

theorem iteration_exact:
  assumes "starshard_deps D" "wf_map D m" "cache_ok D n m" "n < 2 ^ 64" "par_collects par" "par_collects pk" "par_collects pv"
  shows "lists_map (sv_iter D (snapshot_view_of D m)) (view D m) \<and>
    sv_len (snapshot_view_of D m) = card (dom (view D m)) \<and>
    distinct (keys_op D pk m) \<and> set (keys_op D pk m) = dom (view D m) \<and>
    mset (values_op D pv m) = image_mset (\<lambda>k. the (view D m k)) (mset_set (dom (view D m))) \<and>
    lists_map (fst (iter_op D par m)) (view D m) \<and> view D (snd (iter_op D par m)) = view D m \<and>
    (fst (snapshot_at_version D par ver m) \<noteq> None \<longleftrightarrow> ver = write_epoch m)"
  using starshard_deps.iter_exact[OF assms(1-5)] starshard_deps.keys_exact[OF assms(1,2,6)]
    starshard_deps.values_exact[OF assms(1,2,7)] starshard_deps.view_exact[OF assms(1,2)]
    starshard_deps.at_version_exact[OF assms(1-5), of ver] by blast

theorem iteration_exact_witness:
  "\<exists>m. insert_op nat_deps 1 10 (fresh_map Cow) = Some (None, m) \<and>
    set (keys_op nat_deps (\<lambda>f xs. concat (map f xs)) m) = {1} \<and> mset (values_op nat_deps (\<lambda>f xs. concat (map f xs)) m) = {#10#} \<and>
    fst (snapshot_at_version nat_deps (\<lambda>f xs. concat (map f xs)) (write_epoch m) m) \<noteq> None"
proof -
  have "plain_map nat_deps (fresh_map Cow)" "cache_ok nat_deps 0 (fresh_map Cow)" by (simp_all add: plain_map_def)
  then obtain m where m: "insert_op nat_deps 1 10 (fresh_map Cow) = Some (None, m)" "wf_map nat_deps m" "cache_ok nat_deps 1 m"
    "view nat_deps m = [1 \<mapsto> 10]"
    using starshard_deps.call_keeps_cache[OF nat_deps_laws, of "fresh_map Cow" 0 "Insert 1 10"]
    by (auto simp: plain_map_def)
  then show ?thesis
    using iteration_exact[OF nat_deps_laws m(2,3), of "\<lambda>f xs. concat (map f xs)" "\<lambda>f xs. concat (map f xs)"
        "\<lambda>f xs. concat (map f xs)" "write_epoch m"] by auto
qed

end
