(* ===== verification/Sync_Serde.thy ===== *)
theory Sync_Serde
  imports Sync_Snapshots
begin

text \<open>
  Serialisation, \<open>serde/sync_serde.rs\<close> and \<open>serde/mod.rs\<close>. The data format is third-party code: \<open>enc\<close> and
  \<open>dec\<close> turn the transit representation into wire data and back, either may fail. A map is written as its
  shard count and its entries and read back by inserting the entries into a new map, whose hasher is
  \<open>S::default()\<close> and need not be the hasher of the map that was written.
\<close>

record ('k, 'v) sharded_map_repr =
  repr_shard_count :: nat
  repr_entries :: "('k \<times> 'v) list"

definition serialize_view :: "('k, 'v, 'm, 'b) deps \<Rightarrow> 'm snapshot_view \<Rightarrow> ('k \<times> 'v) list" where
  "serialize_view D sv = sv_iter D sv"

definition serialize_map ::
  "('k, 'v, 'm, 'b) deps \<Rightarrow> (('k, 'v) sharded_map_repr \<Rightarrow> 'w option) \<Rightarrow> ('k, 'v, 'm, 'b) sharded_map \<Rightarrow> 'w option" where
  "serialize_map D enc m =
     (let sv = snapshot_view_of D m
      in enc \<lparr>repr_shard_count = sv_shard_count sv, repr_entries = serialize_view D sv\<rparr>)"

text \<open>The outer \<open>option\<close> is a panic, the inner one a format error.\<close>

definition deserialize_map ::
  "('k, 'v, 'm, 'b) deps \<Rightarrow> ('w \<Rightarrow> ('k, 'v) sharded_map_repr option) \<Rightarrow> 'w \<Rightarrow> ('k, 'v, 'm, 'b) sharded_map option option" where
  "deserialize_map D dec w =
     (case dec w of
        None \<Rightarrow> Some None
      | Some repr \<Rightarrow> do {
          let sc = (if repr_shard_count repr = 0 then DEFAULT_SHARDS else repr_shard_count repr);
          m \<leftarrow> fold_option (\<lambda>(k, v) m. map_option snd (insert_op D k v m)) (repr_entries repr) (with_shards_and_hasher sc);
          Some (Some m)
        })"

lemma map_of_rev_distinct: "distinct (map fst xs) \<Longrightarrow> map_of (rev xs) = map_of xs"
  by (simp add: map_of_inject_set rev_map[symmetric])

context starshard_deps
begin

lemma insert_all_ok:
  assumes "plain_map D m"
  shows "\<exists>m'. fold_option (\<lambda>(k, v) m. map_option snd (insert_op D k v m)) es m = Some m' \<and> plain_map D m' \<and>
    view D m' = view D m ++ map_of (rev es) \<and> shard_count m' = shard_count m \<and> snapshot_mode m' = snapshot_mode m"
proof -
  let ?R = "\<lambda>es m'. plain_map D m' \<and> view D m' = view D m ++ map_of (rev es) \<and> shard_count m' = shard_count m \<and>
     snapshot_mode m' = snapshot_mode m"
  show ?thesis
  proof (rule fold_option_rel[where R = ?R])
    show "?R [] m" using assms by simp
  next
    fix ys zs :: "('k \<times> 'v) list" and y :: "'k \<times> 'v" and m' assume R: "?R ys m'"
    obtain k v where y: "y = (k, v)" by (cases y)
    have wf: "wf_map D m'" using R by (simp add: plain_map_def)
    obtain m'' where m'': "insert_op D k v m' = Some (view D m' k, m'')" "op_post D m' ((view D m')(k \<mapsto> v)) m''"
      using insert_op_post[OF wf] by blast
    then show "\<exists>s''. (case y of (k, v) \<Rightarrow> \<lambda>m. map_option snd (insert_op D k v m)) m' = Some s'' \<and> ?R (ys @ [y]) s''"
      using R y by (simp add: op_post_def plain_map_def)
  qed
qed

lemma deserialize_ok:
  assumes "dec w = Some repr"
  shows "\<exists>m'. deserialize_map D dec w = Some (Some m') \<and> plain_map D m' \<and> view D m' = map_of (rev (repr_entries repr)) \<and>
    shard_count m' = min (normalized_shard_count (repr_shard_count repr)) MAX_SHARDS \<and> snapshot_mode m' = CloneMode"
proof -
  let ?sc = "if repr_shard_count repr = 0 then DEFAULT_SHARDS else repr_shard_count repr"
  let ?m0 = "with_shards_and_hasher ?sc :: ('k, 'v, 'm, 'b) sharded_map"
  have m0: "?m0 = build_with_count (min (normalized_shard_count (repr_shard_count repr)) MAX_SHARDS) CloneMode"
    by (simp add: with_shards_and_hasher_def with_shards_and_snapshot_mode_def normalized_shard_count_def
        capped_shard_count_def DEFAULT_SHARDS_def Let_def)
  have "plain_map D ?m0"
    unfolding m0 by (simp add: plain_map_def wf_map_build life_opts_def MAX_SHARDS_def)
  from insert_all_ok[OF this, of "repr_entries repr"] show ?thesis
    using assms unfolding m0
    by (auto simp: deserialize_map_def with_shards_and_hasher_def with_shards_and_snapshot_mode_def normalized_shard_count_def
        capped_shard_count_def DEFAULT_SHARDS_def Let_def)
qed

lemma serialized_entries:
  assumes e: "serialize_map D enc m = Some w" and law: "\<And>r w. enc r = Some w \<Longrightarrow> dec w = Some r"
  shows "dec w = Some \<lparr>repr_shard_count = length (shards m), repr_entries = stored_entries D m\<rparr>"
proof -
  have "sv_shard_count (snapshot_view_of D m) = length (shards m)"
    by (simp add: snapshot_view_of_def capture_view_data_def snapshot_view_new_def)
  then show ?thesis using e by (intro law) (simp add: serialize_map_def serialize_view_def sv_iter_eq Let_def)
qed

end

text \<open>
  C25: serialising a map and reading the result back, in any format whose decoder inverts its encoder and with any hasher, gives
  a well-formed map with the same content and the same number of shards, also when the map was in the
  middle of a migration. Reading foreign data never panics: a format error is reported, and otherwise the entries are
  inserted in order, so the last of several entries for a key wins, with zero shards read as the default and
  more than the limit capped.
\<close>

theorem serde_round_trip:
  fixes D :: "('k, 'v, 'm, 'b) deps" and D' :: "('k, 'v, 'n, 'c) deps"
  assumes "starshard_deps D" "starshard_deps D'" "wf_map D m" "shard_count m \<le> MAX_SHARDS" "\<And>r w. enc r = Some w \<Longrightarrow> dec w = Some r"
    "serialize_map D enc m = Some w"
  shows "(\<exists>m'. deserialize_map D' dec w = Some (Some m') \<and> wf_map D' m' \<and> view D' m' = view D m \<and>
      shard_count m' = shard_count m \<and> len m' = len m) \<and>
    (case dec' w' of
       None \<Rightarrow> deserialize_map D' dec' w' = Some None
     | Some r \<Rightarrow> \<exists>m'. deserialize_map D' dec' w' = Some (Some m') \<and> wf_map D' m' \<and> view D' m' = map_of (rev (repr_entries r)) \<and>
         shard_count m' = (if repr_shard_count r = 0 then DEFAULT_SHARDS else min (repr_shard_count r) MAX_SHARDS))"
proof
  let ?r = "\<lparr>repr_shard_count = length (shards m), repr_entries = stored_entries D m\<rparr>"
  note wd = wf_map_dirs[OF assms(3)]
  have "dec w = Some ?r" by (rule starshard_deps.serialized_entries[OF assms(1,6,5)])
  then obtain m' where "deserialize_map D' dec w = Some (Some m')" "plain_map D' m'" "view D' m' = view D m" "shard_count m' = shard_count m"
    using starshard_deps.deserialize_ok[OF assms(2), of dec w ?r] starshard_deps.stored_entries_spec[OF assms(1) wd]
      wf_dirsD(1,2)[OF wd] assms(4) by (auto simp: map_of_rev_distinct normalized_shard_count_def min_absorb1)
  then show "\<exists>m'. deserialize_map D' dec w = Some (Some m') \<and> wf_map D' m' \<and> view D' m' = view D m \<and>
      shard_count m' = shard_count m \<and> len m' = len m"
    using starshard_deps.len_card[OF assms(2)] starshard_deps.len_card[OF assms(1,3)] by (intro exI[of _ m']) (simp add: plain_map_def)
  show "case dec' w' of
       None \<Rightarrow> deserialize_map D' dec' w' = Some None
     | Some r \<Rightarrow> \<exists>m'. deserialize_map D' dec' w' = Some (Some m') \<and> wf_map D' m' \<and> view D' m' = map_of (rev (repr_entries r)) \<and>
         shard_count m' = (if repr_shard_count r = 0 then DEFAULT_SHARDS else min (repr_shard_count r) MAX_SHARDS)"
  proof (cases "dec' w'")
    case (Some r)
    then show ?thesis
      using starshard_deps.deserialize_ok[OF assms(2), of dec' w' r] Some
      by (auto simp: plain_map_def normalized_shard_count_def DEFAULT_SHARDS_def MAX_SHARDS_def)
  qed (simp add: deserialize_map_def)
qed

theorem serde_round_trip_witness:
  "(\<exists>m'. deserialize_map nat_deps Some (the (serialize_map nat_deps Some (fresh_map Cow))) = Some (Some m') \<and>
      view nat_deps m' = Map.empty \<and> shard_count m' = 2) \<and>
   (\<exists>m'. deserialize_map nat_deps Some \<lparr>repr_shard_count = 0, repr_entries = [(1, 10), (1, 11 :: nat)]\<rparr> = Some (Some m') \<and>
      view nat_deps m' = [1 \<mapsto> 11] \<and> shard_count m' = 64)"
  using serde_round_trip[OF nat_deps_laws nat_deps_laws, of "fresh_map Cow" Some Some "the (serialize_map nat_deps Some (fresh_map Cow))" Some
      "\<lparr>repr_shard_count = 0, repr_entries = [(1, 10), (1, 11)]\<rparr>"]
  by (auto simp: MAX_SHARDS_def DEFAULT_SHARDS_def serialize_map_def Let_def)

end
