(* ===== verification/Scheduler.thy ===== *)
theory Scheduler
  imports Eviction_Config
begin

text \<open>
  Supervised periodic maintenance, \<open>eviction/scheduler.rs\<close>: the registry shared by all clones of a map, the
  \<open>Control\<close> block of each worker, the worker's lease and its handle. Control blocks are shared objects, so
  they live in a store (\<open>controls\<close>, indexed by allocation); a \<open>Weak\<close> reference can be upgraded exactly
  while some lease or handle still owns the block (\<open>live\<close>). Clock, thread creation and runtime are
  arguments. The second half is the state machine of all threads together.
\<close>

section \<open>State\<close>

datatype eviction_worker_stop = Cancelled | OwnersDropped | Panicked | RuntimeStopped | SpawnFailed

record eviction_worker_status =
  w_generation :: u64
  w_running :: bool
  w_ticks :: u64
  w_evicted :: usize
  w_stop :: "eviction_worker_stop option"

definition status_default :: eviction_worker_status where
  "status_default = \<lparr>w_generation = 0, w_running = False, w_ticks = 0, w_evicted = 0, w_stop = None\<rparr>"

record scheduler_registry =
  reg_generation :: u64
  reg_active :: "nat option"
  reg_last :: eviction_worker_status
  controls :: "eviction_worker_status list"

definition registry_new :: scheduler_registry where
  "registry_new = \<lparr>reg_generation = 0, reg_active = None, reg_last = status_default, controls = []\<rparr>"

record worker_lease =
  lease_control :: nat
  lease_active :: bool
  unexpected_stop :: eviction_worker_stop

section \<open>Control\<close>

definition control_new :: "u64 \<Rightarrow> eviction_worker_status" where
  "control_new gen = status_default\<lparr>w_generation := gen, w_running := True\<rparr>"

definition control_cancel :: "eviction_worker_stop \<Rightarrow> eviction_worker_status \<Rightarrow> eviction_worker_status" where
  "control_cancel reason p = (if w_running p \<and> w_stop p = None then p\<lparr>w_stop := Some reason\<rparr> else p)"

definition record_tick :: "usize \<Rightarrow> eviction_worker_status \<Rightarrow> eviction_worker_status" where
  "record_tick n p = p\<lparr>w_ticks := saturating_add (w_ticks p) 1, w_evicted := saturating_add (w_evicted p) n\<rparr>"

text \<open>\<open>None\<close>: still waiting. \<open>timed_out\<close> is whether the interval has passed.\<close>

definition wait_interval :: "bool \<Rightarrow> eviction_worker_status \<Rightarrow> bool option" where
  "wait_interval timed_out p =
     (if w_stop p = None \<and> \<not> timed_out then None else Some (timed_out \<and> w_stop p = None))"

text \<open>One poll of \<open>until_stopped\<close>: \<open>None\<close> is pending; \<open>notified\<close> whether a stop notification has arrived.\<close>

definition until_stopped :: "bool \<Rightarrow> 'a option \<Rightarrow> eviction_worker_status \<Rightarrow> 'a option option" where
  "until_stopped notified work p =
     (if w_stop p \<noteq> None then Some None else if notified then Some None else map_option Some work)"

definition set_control ::
  "nat \<Rightarrow> (eviction_worker_status \<Rightarrow> eviction_worker_status) \<Rightarrow> scheduler_registry \<Rightarrow> scheduler_registry" where
  "set_control c f s = s\<lparr>controls := (controls s)[c := f (controls s ! c)]\<rparr>"

section \<open>Registry and leases\<close>

definition upgrade :: "(nat \<Rightarrow> bool) \<Rightarrow> nat option \<Rightarrow> nat option" where
  "upgrade live w = (case w of None \<Rightarrow> None | Some c \<Rightarrow> if live c then Some c else None)"

definition registry_status :: "(nat \<Rightarrow> bool) \<Rightarrow> scheduler_registry \<Rightarrow> eviction_worker_status" where
  "registry_status live s =
     (case upgrade live (reg_active s) of None \<Rightarrow> reg_last s | Some c \<Rightarrow> controls s ! c)"

definition claim ::
  "(nat \<Rightarrow> bool) \<Rightarrow> eviction_worker_stop \<Rightarrow> scheduler_registry \<Rightarrow>
   (eviction_scheduler_error + nat \<times> worker_lease) \<times> scheduler_registry" where
  "claim live unexpected s =
     (if upgrade live (reg_active s) \<noteq> None then (Inl WorkerAlreadyRunning, s)
      else
        (let gen = reg_generation s + 1; c = length (controls s) in
         (Inr (c, \<lparr>lease_control = c, lease_active = True, unexpected_stop = unexpected\<rparr>),
          s\<lparr>reg_generation := gen, reg_active := Some c, controls := controls s @ [control_new gen]\<rparr>)))"

definition registry_cancel :: "(nat \<Rightarrow> bool) \<Rightarrow> eviction_worker_stop \<Rightarrow> scheduler_registry \<Rightarrow> scheduler_registry" where
  "registry_cancel live reason s =
     (case upgrade live (reg_active s) of None \<Rightarrow> s | Some c \<Rightarrow> set_control c (control_cancel reason) s)"

text \<open>\<open>finish\<close> of a lease; \<open>registry_alive\<close> is whether its \<open>Weak\<close> registry can be upgraded.\<close>

definition lease_finish ::
  "bool \<Rightarrow> bool \<Rightarrow> worker_lease \<Rightarrow> scheduler_registry \<Rightarrow> worker_lease \<times> scheduler_registry" where
  "lease_finish panicking registry_alive l s =
     (if \<not> lease_active l then (l, s)
      else
        (let p = (controls s ! lease_control l)\<lparr>w_running := False\<rparr>;
             status = p\<lparr>w_stop := (if panicking then Some Panicked
                                   else if w_stop p = None then Some (unexpected_stop l) else w_stop p)\<rparr>;
             s1 = set_control (lease_control l) (\<lambda>_. status) s
         in (l\<lparr>lease_active := False\<rparr>,
             if registry_alive \<and> reg_generation s1 = w_generation status
             then s1\<lparr>reg_active := None, reg_last := status\<rparr> else s1)))"

definition lease_complete :: "bool \<Rightarrow> worker_lease \<Rightarrow> scheduler_registry \<Rightarrow> eviction_worker_status \<times> scheduler_registry" where
  "lease_complete registry_alive l s =
     (let (l', s') = lease_finish False registry_alive l s in (controls s' ! lease_control l', s'))"

section \<open>Starting\<close>

text \<open>Intervals are in nanoseconds; \<open>clock_max\<close> is the largest representable instant.\<close>

definition validate_interval :: "nat \<Rightarrow> nat \<Rightarrow> nat \<Rightarrow> eviction_scheduler_error + unit" where
  "validate_interval now clock_max interval =
     (if interval = 0 \<or> now + interval > clock_max then Inl InvalidInterval else Inr ())"

text \<open>A thread that cannot be created drops the closure and with it the lease.\<close>

definition start_sync_with ::
  "(nat \<Rightarrow> bool) \<Rightarrow> nat \<Rightarrow> nat \<Rightarrow> nat \<Rightarrow> bool \<Rightarrow> scheduler_registry \<Rightarrow>
   (eviction_scheduler_error + nat \<times> worker_lease) \<times> scheduler_registry" where
  "start_sync_with live now clock_max interval spawned s =
     (case validate_interval now clock_max interval of
        Inl e \<Rightarrow> (Inl e, s)
      | Inr _ \<Rightarrow>
          (case claim live SpawnFailed s of
             (Inl e, s1) \<Rightarrow> (Inl e, s1)
           | (Inr (c, l), s1) \<Rightarrow>
               if spawned then (Inr (c, l), s1) else (Inl Spawn, snd (lease_finish False True l s1))))"

definition start_async ::
  "(nat \<Rightarrow> bool) \<Rightarrow> nat \<Rightarrow> nat \<Rightarrow> nat \<Rightarrow> bool \<Rightarrow> bool \<Rightarrow> scheduler_registry \<Rightarrow>
   (eviction_scheduler_error + nat \<times> worker_lease) \<times> scheduler_registry" where
  "start_async live now clock_max interval runtime timer s =
     (case validate_interval now clock_max interval of
        Inl e \<Rightarrow> (Inl e, s)
      | Inr _ \<Rightarrow>
          if \<not> runtime then (Inl RuntimeUnavailable, s)
          else if \<not> timer then (Inl TimeDriverUnavailable, s)
          else claim live RuntimeStopped s)"

section \<open>The worker loops\<close>

text \<open>
  A turn says whether the interval passed, what the other threads did to the registry meanwhile, and what
  the maintenance call returned (\<open>None\<close>: it panicked). The outer \<open>None\<close> is a worker that is still running
  after the given turns; the status is \<open>None\<close> after a panic, which drops the lease while unwinding.
\<close>

type_synonym worker_turn = "bool \<times> (scheduler_registry \<Rightarrow> scheduler_registry) \<times> usize option"

fun sync_worker ::
  "worker_turn list \<Rightarrow> worker_lease \<Rightarrow> scheduler_registry \<Rightarrow> (eviction_worker_status option \<times> scheduler_registry) option" where
  "sync_worker [] l s = None"
| "sync_worker ((timed_out, others, tick) # turns) l s =
     (case wait_interval timed_out (controls s ! lease_control l) of
        None \<Rightarrow> sync_worker turns l (others s)
      | Some False \<Rightarrow> (let (st, s') = lease_complete True l s in Some (Some st, s'))
      | Some True \<Rightarrow>
          (let s1 = others s in
           case tick of
             None \<Rightarrow> Some (None, snd (lease_finish True True l s1))
           | Some evicted \<Rightarrow> sync_worker turns l (set_control (lease_control l) (record_tick evicted) s1)))"

text \<open>
  A turn of the asynchronous worker: the stop notifications seen before the delay and during the
  maintenance future, the delay's and the future's result of that poll, and whether the next deadline is
  representable. A pending future is polled again in the next turn, with the delay already elapsed.
\<close>

record async_turn =
  notified_delay :: bool
  delay_done :: "unit option"
  notified_tick :: bool
  async_others :: "scheduler_registry \<Rightarrow> scheduler_registry"
  async_tick :: "usize option"
  deadline_ok :: bool

fun async_worker ::
  "async_turn list \<Rightarrow> worker_lease \<Rightarrow> scheduler_registry \<Rightarrow> (eviction_worker_status \<times> scheduler_registry) option" where
  "async_worker [] l s = None"
| "async_worker (t # turns) l s =
     (case until_stopped (notified_delay t) (delay_done t) (controls s ! lease_control l) of
        None \<Rightarrow> async_worker turns l (async_others t s)
      | Some None \<Rightarrow> Some (lease_complete True l s)
      | Some (Some _) \<Rightarrow>
          (let s1 = async_others t s in
           case until_stopped (notified_tick t) (async_tick t) (controls s1 ! lease_control l) of
             None \<Rightarrow> async_worker turns l s1
           | Some None \<Rightarrow> Some (lease_complete True l s1)
           | Some (Some evicted) \<Rightarrow>
               (let s2 = set_control (lease_control l) (record_tick evicted) s1 in
                if deadline_ok t then async_worker turns l s2 else Some (lease_complete True l s2))))"

section \<open>Joining\<close>

definition join_sync :: "eviction_worker_status option \<Rightarrow> eviction_scheduler_error + eviction_worker_status" where
  "join_sync result = (case result of Some st \<Rightarrow> Inr st | None \<Rightarrow> Inl WorkerPanicked)"

datatype task_result = TaskDone eviction_worker_status | TaskPanicked | TaskAborted

definition join_async :: "task_result \<Rightarrow> eviction_worker_status \<Rightarrow> eviction_scheduler_error + eviction_worker_status" where
  "join_async result control =
     (case result of
        TaskDone st \<Rightarrow> Inr st
      | TaskPanicked \<Rightarrow> Inl WorkerPanicked
      | TaskAborted \<Rightarrow>
          (case w_stop control of
             Some Cancelled \<Rightarrow> Inr control
           | Some OwnersDropped \<Rightarrow> Inr control
           | _ \<Rightarrow> Inl WorkerCancelled))"

section \<open>The owner shared by the external clones\<close>

text \<open>The automatic handle it keeps is the control block of that handle; dropping a handle cancels it.\<close>

definition handle_drop :: "nat \<Rightarrow> scheduler_registry \<Rightarrow> scheduler_registry" where
  "handle_drop c s = set_control c (control_cancel Cancelled) s"

definition retain_handle :: "nat \<Rightarrow> nat option \<Rightarrow> scheduler_registry \<Rightarrow> nat option \<times> scheduler_registry" where
  "retain_handle h automatic s = (Some h, case automatic of None \<Rightarrow> s | Some old \<Rightarrow> handle_drop old s)"

definition owner_drop :: "(nat \<Rightarrow> bool) \<Rightarrow> nat option \<Rightarrow> scheduler_registry \<Rightarrow> scheduler_registry" where
  "owner_drop live automatic s =
     (let s1 = registry_cancel live OwnersDropped s in
      case automatic of None \<Rightarrow> s1 | Some h \<Rightarrow> handle_drop h s1)"

section \<open>All threads together\<close>

text \<open>
  A worker is its lease and whether it is inside a maintenance call; a handle is the control block it
  owns. Starting, waiting, the start and the end of a maintenance call, cancellation and the drops of
  leases, handles and owners may interleave in any order; \<open>finish\<close> is one step.
\<close>

type_synonym scheduler_sys = "scheduler_registry \<times> (worker_lease \<times> bool) list \<times> nat list"

definition live_in :: "(worker_lease \<times> bool) list \<Rightarrow> nat list \<Rightarrow> nat \<Rightarrow> bool" where
  "live_in ws hs c \<longleftrightarrow> c \<in> (lease_control \<circ> fst) ` set ws \<or> c \<in> set hs"

inductive sched_step :: "scheduler_sys \<Rightarrow> scheduler_sys \<Rightarrow> bool" where
  sc_start: "start_sync_with (live_in ws hs) now mx iv ok s = (Inr (c, l), s') \<Longrightarrow>
     sched_step (s, ws, hs) (s', (l, False) # ws, c # hs)"
| sc_start_async: "start_async (live_in ws hs) now mx iv rt tm s = (Inr (c, l), s') \<Longrightarrow>
     sched_step (s, ws, hs) (s', (l, False) # ws, c # hs)"
| sc_refused: "start_sync_with (live_in ws hs) now mx iv ok s = (Inl e, s') \<Longrightarrow> sched_step (s, ws, hs) (s', ws, hs)"
| sc_begin: "\<lbrakk>ws = us @ (l, False) # vs; wait_interval b (controls s ! lease_control l) = Some True\<rbrakk> \<Longrightarrow>
     sched_step (s, ws, hs) (s, us @ (l, True) # vs, hs)"
| sc_tick: "ws = us @ (l, True) # vs \<Longrightarrow>
     sched_step (s, ws, hs) (set_control (lease_control l) (record_tick n) s, us @ (l, False) # vs, hs)"
| sc_exit: "\<lbrakk>ws = us @ (l, False) # vs; wait_interval b (controls s ! lease_control l) = Some False\<rbrakk> \<Longrightarrow>
     sched_step (s, ws, hs) (snd (lease_finish False True l s), us @ vs, hs)"
| sc_panic: "ws = us @ (l, True) # vs \<Longrightarrow> sched_step (s, ws, hs) (snd (lease_finish True True l s), us @ vs, hs)"
| sc_abort: "ws = us @ (l, t) # vs \<Longrightarrow> sched_step (s, ws, hs) (snd (lease_finish False True l s), us @ vs, hs)"
| sc_cancel: "c \<in> set hs \<Longrightarrow> sched_step (s, ws, hs) (set_control c (control_cancel Cancelled) s, ws, hs)"
| sc_drop: "c \<in> set hs \<Longrightarrow> sched_step (s, ws, hs) (handle_drop c s, ws, remove1 c hs)"
| sc_owners: "\<lbrakk>set_option a \<subseteq> set hs; hs' = (case a of None \<Rightarrow> hs | Some h \<Rightarrow> remove1 h hs)\<rbrakk> \<Longrightarrow>
     sched_step (s, ws, hs) (owner_drop (live_in ws hs) a s, ws, hs')"

inductive sched_reach :: "scheduler_sys \<Rightarrow> bool" where
  sr_init: "sched_reach (registry_new, [], [])"
| sr_step: "\<lbrakk>sched_reach x; sched_step x y\<rbrakk> \<Longrightarrow> sched_reach y"

section \<open>The invariant\<close>

text \<open>At most one worker; it is the registered one and its control block says it is running.\<close>

definition sched_inv :: "scheduler_sys \<Rightarrow> bool" where
  "sched_inv x \<longleftrightarrow>
     (case x of (s, ws, hs) \<Rightarrow>
        (\<forall>c \<in> set hs. c < length (controls s)) \<and> \<not> w_running (reg_last s) \<and>
        (\<forall>c < length (controls s). \<not> w_running (controls s ! c) \<longrightarrow> w_stop (controls s ! c) \<noteq> None) \<and>
        (case ws of
           [] \<Rightarrow> reg_active s = None \<and> (\<forall>c < length (controls s). \<not> w_running (controls s ! c))
         | [(l, t)] \<Rightarrow> lease_active l \<and> lease_control l < length (controls s) \<and> reg_active s = Some (lease_control l) \<and>
             w_generation (controls s ! lease_control l) = reg_generation s \<and>
             (\<forall>c < length (controls s). w_running (controls s ! c) \<longleftrightarrow> c = lease_control l)
         | _ \<Rightarrow> False))"

lemma control_cancel_simps [simp]:
  "w_running (control_cancel r p) = w_running p" "w_generation (control_cancel r p) = w_generation p"
  "w_ticks (control_cancel r p) = w_ticks p" "w_stop p = Some x \<Longrightarrow> w_stop (control_cancel r p) = Some x"
  "w_stop (control_cancel r p) = None \<longleftrightarrow> w_stop p = None \<and> \<not> w_running p"
  by (auto simp: control_cancel_def)

lemma record_tick_simps [simp]:
  "w_running (record_tick n p) = w_running p" "w_generation (record_tick n p) = w_generation p"
  "w_stop (record_tick n p) = w_stop p" "w_ticks (record_tick n p) = saturating_add (w_ticks p) 1"
  by (simp_all add: record_tick_def)

lemma set_control_simps [simp]:
  "controls (set_control c f s) = (controls s)[c := f (controls s ! c)]" "reg_active (set_control c f s) = reg_active s"
  "reg_last (set_control c f s) = reg_last s" "reg_generation (set_control c f s) = reg_generation s"
  by (simp_all add: set_control_def)

lemma sched_inv_control:
  assumes "sched_inv (s, ws, hs)" "\<And>p. w_running (f p) = w_running p" "\<And>p. w_generation (f p) = w_generation p"
    "\<And>p. \<not> w_running p \<Longrightarrow> w_stop p \<noteq> None \<Longrightarrow> w_stop (f p) \<noteq> None" "map fst ws' = map fst ws" "set hs' \<subseteq> set hs"
  shows "sched_inv (set_control c f s, ws', hs')"
proof -
  have "ws = [] \<and> ws' = [] \<or> (\<exists>l t t'. ws = [(l, t)] \<and> ws' = [(l, t')])"
    using assms(1,5) by (auto simp: sched_inv_def split: list.splits)
  then show ?thesis
    using assms by (cases "c < length (controls s)") (auto simp: sched_inv_def nth_list_update)
qed

lemma sched_inv_single:
  assumes "sched_inv (s, us @ (l, t) # vs, hs)"
  shows "us = []" "vs = []"
proof -
  obtain x where "us @ (l, t) # vs = [x]" using assms by (auto simp: sched_inv_def split: list.splits)
  then show "us = []" "vs = []" by (auto simp: append_eq_Cons_conv)
qed

lemma sched_inv_finish:
  assumes "sched_inv (s, us @ (l, t) # vs, hs)"
  shows "sched_inv (snd (lease_finish pn True l s), us @ vs, hs)"
  using assms sched_inv_single[OF assms] by (auto simp: sched_inv_def lease_finish_def Let_def nth_list_update)

lemma claim_inv:
  assumes "sched_inv (s, ws, hs)"
  shows "fst (claim (live_in ws hs) u s) = Inl WorkerAlreadyRunning \<and> ws \<noteq> [] \<and> snd (claim (live_in ws hs) u s) = s \<or>
    ws = [] \<and> (\<exists>l. fst (claim (live_in ws hs) u s) = Inr (length (controls s), l) \<and>
      sched_inv (snd (claim (live_in ws hs) u s), [(l, False)], length (controls s) # hs))"
proof (cases ws)
  case Nil
  then show ?thesis using assms
    by (auto simp: claim_def upgrade_def sched_inv_def Let_def control_new_def nth_append status_default_def less_Suc_eq)
next
  case (Cons w ws')
  then have "ws' = []" using assms by (auto simp: sched_inv_def split: list.splits)
  then show ?thesis using assms Cons by (cases w) (auto simp: claim_def upgrade_def sched_inv_def live_in_def)
qed

lemma start_sync_inv:
  assumes "sched_inv (s, ws, hs)"
  shows "(\<exists>e. fst (start_sync_with (live_in ws hs) n mx iv ok s) = Inl e) \<and>
      sched_inv (snd (start_sync_with (live_in ws hs) n mx iv ok s), ws, hs) \<or>
    ws = [] \<and> (\<exists>c l. fst (start_sync_with (live_in ws hs) n mx iv ok s) = Inr (c, l) \<and>
      sched_inv (snd (start_sync_with (live_in ws hs) n mx iv ok s), [(l, False)], c # hs))"
proof -
  have fin: "sched_inv (snd (lease_finish False True l s'), [], hs)" if "sched_inv (s', [(l, False)], c # hs)" for l s' c
  proof -
    have "sched_inv (s', [] @ (l, False) # [], hs)" using that by (auto simp: sched_inv_def)
    from sched_inv_finish[OF this] show ?thesis by simp
  qed
  show ?thesis
    using claim_inv[OF assms, of SpawnFailed] assms fin
    by (cases "claim (live_in ws hs) SpawnFailed s") (auto simp: start_sync_with_def validate_interval_def)
qed

lemma sched_step_inv: "sched_step x y \<Longrightarrow> sched_inv x \<Longrightarrow> sched_inv y"
proof (induction rule: sched_step.induct)
  case (sc_start ws hs now mx iv ok s c l s')
  then show ?case using start_sync_inv[OF sc_start.prems, of now mx iv ok] by auto
next
  case (sc_start_async ws hs now mx iv rt tm s c l s')
  then show ?case
    using claim_inv[OF sc_start_async.prems, of RuntimeStopped]
    by (auto simp: start_async_def validate_interval_def split: if_splits)
next
  case (sc_refused ws hs now mx iv ok s e s')
  then show ?case using start_sync_inv[OF sc_refused.prems, of now mx iv ok] by auto
next
  case (sc_begin ws us l vs b s hs)
  have "sched_inv (set_control (length (controls s)) id s, us @ (l, True) # vs, hs)"
    by (rule sched_inv_control[OF sc_begin.prems]) (simp_all add: sc_begin.hyps)
  then show ?case by (simp add: set_control_def)
next
  case (sc_tick ws us l vs s hs n)
  show ?case by (rule sched_inv_control[OF sc_tick.prems]) (simp_all add: sc_tick.hyps)
next
  case (sc_cancel c hs s ws)
  show ?case by (rule sched_inv_control[OF sc_cancel.prems]) simp_all
next
  case (sc_drop c hs s ws)
  show ?case unfolding handle_drop_def by (rule sched_inv_control[OF sc_drop.prems]) (simp_all add: set_remove1_subset)
next
  case (sc_owners a hs hs' s ws)
  have 1: "sched_inv (registry_cancel (live_in ws hs) OwnersDropped s, ws, hs)"
    using sc_owners.prems
    by (auto simp: registry_cancel_def split: option.splits intro!: sched_inv_control[OF sc_owners.prems])
  show ?case
  proof (cases a)
    case (Some h)
    have "sched_inv (set_control h (control_cancel Cancelled) (registry_cancel (live_in ws hs) OwnersDropped s), ws, remove1 h hs)"
      by (rule sched_inv_control[OF 1]) (simp_all add: set_remove1_subset)
    then show ?thesis using sc_owners.hyps Some by (simp add: owner_drop_def handle_drop_def)
  qed (use 1 sc_owners.hyps in \<open>simp add: owner_drop_def\<close>)
qed (auto intro: sched_inv_finish)

lemma sched_reach_inv: "sched_reach x \<Longrightarrow> sched_inv x"
proof (induction rule: sched_reach.induct)
  case sr_init
  show ?case by (simp add: sched_inv_def registry_new_def status_default_def)
next
  case (sr_step x y)
  then show ?case by (blast intro: sched_step_inv)
qed

lemma sched_reach_one:
  assumes "sched_reach (s, ws, hs)"
  shows "ws = [] \<or> (\<exists>l t. ws = [(l, t)])"
  using sched_reach_inv[OF assms] by (auto simp: sched_inv_def split: list.splits)

lemma sched_reach_status:
  assumes "sched_reach (s, ws, hs)"
  shows "w_running (registry_status (live_in ws hs) s) \<longleftrightarrow> ws \<noteq> []"
  using sched_reach_inv[OF assms] sched_reach_one[OF assms]
  by (auto simp: sched_inv_def registry_status_def upgrade_def live_in_def)

lemma sched_reach_start:
  assumes "sched_reach (s, ws, hs)"
  shows "fst (start_sync_with (live_in ws hs) now mx iv ok s) =
      (if iv = 0 \<or> now + iv > mx then Inl InvalidInterval
       else if ws \<noteq> [] then Inl WorkerAlreadyRunning
       else if \<not> ok then Inl Spawn
       else Inr (length (controls s), \<lparr>lease_control = length (controls s), lease_active = True, unexpected_stop = SpawnFailed\<rparr>))"
  using sched_reach_inv[OF assms] sched_reach_one[OF assms]
  by (auto simp: start_sync_with_def validate_interval_def claim_def sched_inv_def upgrade_def live_in_def Let_def)

section \<open>What a joined worker reports\<close>

lemma lease_complete_status:
  assumes "lease_active l" "lease_control l < length (controls s)"
  shows "\<not> w_running (fst (lease_complete ra l s)) \<and> w_stop (fst (lease_complete ra l s)) \<noteq> None"
  using assms by (auto simp: lease_complete_def lease_finish_def Let_def)

text \<open>The other threads may allocate control blocks and never free one.\<close>

definition keeps_controls :: "(scheduler_registry \<Rightarrow> scheduler_registry) \<Rightarrow> bool" where
  "keeps_controls f \<longleftrightarrow> (\<forall>s. length (controls s) \<le> length (controls (f s)))"

lemma keeps_controlsD: "keeps_controls f \<Longrightarrow> c < length (controls s) \<Longrightarrow> c < length (controls (f s))"
  by (auto simp: keeps_controls_def intro: order_less_le_trans)

lemma sync_worker_status:
  assumes "sync_worker turns l s = Some (Some st, s')" "lease_active l" "lease_control l < length (controls s)"
    "\<forall>t \<in> set turns. keeps_controls (fst (snd t))"
  shows "\<not> w_running st \<and> w_stop st \<noteq> None"
  using assms
proof (induction turns arbitrary: s)
  case (Cons t turns)
  obtain timed_out others tick where t: "t = (timed_out, others, tick)" by (cases t) auto
  have c: "lease_control l < length (controls (others s))" using Cons.prems(3,4) t by (simp add: keeps_controlsD)
  show ?case
    using Cons.prems(1) Cons.IH[of "others s"] Cons.IH[of "set_control (lease_control l) (record_tick _) (others s)"] c
      Cons.prems(2-4) lease_complete_status[OF Cons.prems(2,3), of True]
    by (auto simp: t Let_def split: option.splits bool.splits prod.splits)
qed simp

lemma async_worker_status:
  assumes "async_worker turns l s = Some (st, s')" "lease_active l" "lease_control l < length (controls s)"
    "\<forall>t \<in> set turns. keeps_controls (async_others t)"
  shows "\<not> w_running st \<and> w_stop st \<noteq> None"
  using assms
proof (induction turns arbitrary: s)
  case (Cons t turns)
  let ?s1 = "async_others t s" and ?tick = "\<lambda>n. set_control (lease_control l) (record_tick n) (async_others t s)"
  have s1: "lease_control l < length (controls ?s1)" using Cons.prems(3,4) by (simp add: keeps_controlsD)
  have fin: "lease_complete True l x = (st, s') \<Longrightarrow> lease_control l < length (controls x) \<Longrightarrow> \<not> w_running st \<and> w_stop st \<noteq> None" for x
    using lease_complete_status[OF Cons.prems(2), of x True] by simp
  have IH: "\<not> w_running st \<and> w_stop st \<noteq> None" if "async_worker turns l x = Some (st, s')" "lease_control l < length (controls x)" for x
    using Cons.IH[OF that(1) Cons.prems(2) that(2)] Cons.prems(4) by simp
  have "lease_control l < length (controls (?tick n))" for n using s1 by simp
  then show ?case
    using Cons.prems(1,3) s1 fin[of s] fin[of ?s1] fin[of "?tick _"] IH[of ?s1] IH[of "?tick _"]
    by (auto simp: Let_def split: option.splits if_splits simp del: set_control_simps)
qed simp

section \<open>A stop request is final\<close>

text \<open>
  What control block \<open>c\<close> may still record: the ticks it has, plus one for a worker that is inside a
  maintenance call. Once a stop reason is set this never grows, and the reason only gives way to a panic.
\<close>

definition in_call :: "(worker_lease \<times> bool) list \<Rightarrow> nat \<Rightarrow> nat" where
  "in_call ws c = (if (\<exists>l. (l, True) \<in> set ws \<and> lease_control l = c) then 1 else 0)"

definition stop_kept :: "nat \<Rightarrow> scheduler_sys \<Rightarrow> scheduler_sys \<Rightarrow> bool" where
  "stop_kept c x y \<longleftrightarrow>
     (case (x, y) of ((s, ws, _), (s', ws', _)) \<Rightarrow>
        c < length (controls s) \<and> c < length (controls s') \<and> w_stop (controls s ! c) \<noteq> None \<and>
        w_stop (controls s' ! c) \<in> {w_stop (controls s ! c), Some Panicked} \<and>
        unat (w_ticks (controls s' ! c)) + in_call ws' c \<le> unat (w_ticks (controls s ! c)) + in_call ws c)"

lemma stop_kept_trans: "stop_kept c x y \<Longrightarrow> stop_kept c y z \<Longrightarrow> stop_kept c x z"
  by (auto simp: stop_kept_def)

lemma in_call_simps [simp]:
  "in_call [] c = 0" "in_call [(l, False)] c = 0" "in_call [(l, True)] c = (if lease_control l = c then 1 else 0)"
  by (auto simp: in_call_def)

lemma ticks_le: "unat (saturating_add a 1) \<le> Suc (unat a)"
  by (simp add: unat_saturating_add)

lemma cancel_stop_kept:
  assumes "c < length (controls s)" "w_stop (controls s ! c) \<noteq> None"
  shows "stop_kept c (s, ws, hs) (set_control d (control_cancel r) s, ws, hs')"
  using assms by (cases "d = c") (auto simp: stop_kept_def control_cancel_def)

lemma stop_kept_refl: "c < length (controls s) \<Longrightarrow> w_stop (controls s ! c) \<noteq> None \<Longrightarrow> stop_kept c (s, ws, hs) (s, ws, hs')"
  by (simp add: stop_kept_def)

lemma finish_stop_kept:
  assumes "c < length (controls s)" "w_stop (controls s ! c) \<noteq> None"
  shows "stop_kept c (s, [(l, t)], hs) (snd (lease_finish pn ra l s), [], hs')"
  using assms by (cases "lease_control l = c") (auto simp: stop_kept_def lease_finish_def Let_def)

lemma claim_stop_kept:
  assumes "c < length (controls s)" "w_stop (controls s ! c) \<noteq> None" "in_call ws' c \<le> in_call ws c"
  shows "stop_kept c (s, ws, hs) (snd (claim lv u s), ws', hs')"
  using assms by (auto simp: stop_kept_def claim_def Let_def nth_append)

lemma start_sync_stop_kept:
  assumes "c < length (controls s)" "w_stop (controls s ! c) \<noteq> None" "in_call ws' c \<le> in_call ws c"
  shows "stop_kept c (s, ws, hs) (snd (start_sync_with lv now mx iv ok s), ws', hs')"
  using assms
  by (auto simp: stop_kept_def start_sync_with_def validate_interval_def claim_def lease_finish_def Let_def nth_append
      nth_list_update)

lemma in_call_Cons [simp]: "in_call ((l, False) # ws) c = in_call ws c"
  by (auto simp: in_call_def)

lemma sched_step_stop_kept:
  assumes "sched_step x y" "sched_inv x" "c < length (controls (fst x))" "w_stop (controls (fst x) ! c) \<noteq> None"
  shows "stop_kept c x y"
  using assms
proof (induction rule: sched_step.induct)
  case (sc_start ws hs now mx iv ok s d l s')
  then show ?case using start_sync_stop_kept[of c s "(l, False) # ws" ws hs "live_in ws hs" now mx iv ok "d # hs"] by simp
next
  case (sc_start_async ws hs now mx iv rt tm s d l s')
  then show ?case
    using claim_stop_kept[of c s "(l, False) # ws" ws hs "live_in ws hs" RuntimeStopped "d # hs"]
    by (simp add: start_async_def validate_interval_def split: if_splits)
next
  case (sc_refused ws hs now mx iv ok s e s')
  then show ?case using start_sync_stop_kept[of c s ws ws hs "live_in ws hs" now mx iv ok hs] by simp
next
  case (sc_begin ws us l vs b s hs)
  then show ?case
    using sched_inv_single[of s us l False vs hs]
    by (auto simp: stop_kept_def wait_interval_def split: if_splits)
next
  case (sc_tick ws us l vs s hs n)
  then show ?case
    using sched_inv_single[of s us l True vs hs] ticks_le[of "w_ticks (controls s ! c)"]
    by (auto simp: stop_kept_def nth_list_update)
next
  case (sc_exit ws us l vs b s hs)
  then show ?case using sched_inv_single[of s us l False vs hs] by (simp add: finish_stop_kept)
next
  case (sc_panic ws us l vs s hs)
  then show ?case using sched_inv_single[of s us l True vs hs] by (simp add: finish_stop_kept)
next
  case (sc_abort ws us l t vs s hs)
  then show ?case using sched_inv_single[of s us l t vs hs] by (simp add: finish_stop_kept)
next
  case (sc_owners a hs hs' s ws)
  then have c: "c < length (controls s)" "w_stop (controls s ! c) \<noteq> None" by simp_all
  have 1: "stop_kept c (s, ws, hs) (registry_cancel (live_in ws hs) OwnersDropped s, ws, hx)" for hx
    using c cancel_stop_kept[OF c] stop_kept_refl[OF c] by (simp add: registry_cancel_def split: option.splits)
  then have c1: "c < length (controls (registry_cancel (live_in ws hs) OwnersDropped s))"
    "w_stop (controls (registry_cancel (live_in ws hs) OwnersDropped s) ! c) \<noteq> None"
    by (auto simp: stop_kept_def)
  show ?case
    using 1 stop_kept_trans[OF 1 cancel_stop_kept[OF c1]] by (simp add: owner_drop_def handle_drop_def Let_def split: option.splits)
qed (simp_all add: cancel_stop_kept handle_drop_def)

lemma sched_steps_stop_kept:
  assumes "sched_step\<^sup>*\<^sup>* x y" "sched_inv x" "c < length (controls (fst x))" "w_stop (controls (fst x) ! c) \<noteq> None"
  shows "sched_inv y \<and> stop_kept c x y"
  using assms
proof (induction rule: rtranclp_induct)
  case base
  then show ?case by (cases x) (auto simp: stop_kept_def)
next
  case (step y z)
  then have y: "sched_inv y" "stop_kept c x y" by blast+
  then have "c < length (controls (fst y))" "w_stop (controls (fst y) ! c) \<noteq> None"
    by (auto simp: stop_kept_def split: prod.splits)
  with y step.hyps(2) show ?case
    using sched_step_inv sched_step_stop_kept stop_kept_trans by blast
qed

section \<open>Properties\<close>

text \<open>
  C27: at most one maintenance worker exists at any moment, whatever starts, stops, panics and drops
  interleave; the registry reports a running worker exactly while there is one, and a start is answered
  by the interval check, then by the registration, then by the thread creation.
\<close>

theorem one_maintenance_worker:
  assumes "sched_reach (s, ws, hs)"
  shows "length ws \<le> 1 \<and> (w_running (registry_status (live_in ws hs) s) \<longleftrightarrow> ws \<noteq> []) \<and>
    fst (start_sync_with (live_in ws hs) now mx iv ok s) =
      (if iv = 0 \<or> now + iv > mx then Inl InvalidInterval
       else if ws \<noteq> [] then Inl WorkerAlreadyRunning
       else if \<not> ok then Inl Spawn
       else Inr (length (controls s), \<lparr>lease_control = length (controls s), lease_active = True, unexpected_stop = SpawnFailed\<rparr>))"
  using sched_reach_one[OF assms] sched_reach_status[OF assms] sched_reach_start[OF assms] by auto

theorem one_maintenance_worker_witness:
  "\<exists>s l. sched_reach (s, [(l, False)], [0]) \<and>
    fst (start_sync_with (live_in [(l, False)] [0]) 5 100 10 True s) = Inl WorkerAlreadyRunning"
proof -
  obtain s l where st: "start_sync_with (live_in [] []) 5 100 10 True registry_new = (Inr (0, l), s)"
    by (simp add: start_sync_with_def validate_interval_def claim_def upgrade_def registry_new_def Let_def)
  then have r: "sched_reach (s, [(l, False)], [0])" by (metis sr_init sr_step sc_start)
  then show ?thesis using one_maintenance_worker[OF r, of 5 100 10 True] by auto
qed

text \<open>
  C28: a stop request is final: once a control block has a stop reason, no later interleaving replaces it
  except by a panic, and its worker completes at most the maintenance call it is in.
\<close>

theorem stop_request_is_final:
  assumes "sched_reach (s, ws, hs)" "sched_step\<^sup>*\<^sup>* (s, ws, hs) (s', ws', hs')"
    "c < length (controls s)" "w_stop (controls s ! c) = Some r"
  shows "w_stop (controls s' ! c) \<in> {Some r, Some Panicked} \<and>
    unat (w_ticks (controls s' ! c)) + in_call ws' c \<le> unat (w_ticks (controls s ! c)) + in_call ws c"
  using sched_steps_stop_kept[OF assms(2) sched_reach_inv[OF assms(1)], of c] assms(3,4) by (auto simp: stop_kept_def)

theorem stop_request_is_final_witness:
  "\<exists>s l. sched_reach (s, [(l, False)], [0]) \<and> w_stop (controls s ! 0) = Some Cancelled \<and>
    w_stop (controls (owner_drop (live_in [(l, False)] [0]) None s) ! 0) \<in> {Some Cancelled, Some Panicked}"
proof -
  let ?p = "(control_new 1)\<lparr>w_stop := Some Cancelled\<rparr>"
  obtain s l where st: "start_sync_with (live_in [] []) 5 100 10 True registry_new = (Inr (0, l), s)" "controls s = [control_new 1]"
    by (simp add: start_sync_with_def validate_interval_def claim_def upgrade_def registry_new_def Let_def)
  define s1 where "s1 = set_control 0 (control_cancel Cancelled) s"
  have "sched_reach (s, [(l, False)], [0])" using st(1) by (metis sr_init sr_step sc_start)
  then have r: "sched_reach (s1, [(l, False)], [0])"
    unfolding s1_def using sr_step[OF _ sc_cancel[of 0 "[0]" s "[(l, False)]"]] by simp
  have w: "w_stop (controls s1 ! 0) = Some Cancelled" "0 < length (controls s1)"
    by (simp_all add: s1_def st(2) control_cancel_def control_new_def status_default_def)
  have "sched_step\<^sup>*\<^sup>* (s1, [(l, False)], [0]) (owner_drop (live_in [(l, False)] [0]) None s1, [(l, False)], [0])"
    by (rule r_into_rtranclp, rule sc_owners) simp_all
  from stop_request_is_final[OF r this w(2,1)] show ?thesis using r w by blast
qed

end
