(* ===== verification/Sync_Lifecycle.thy ===== *)
theory Sync_Lifecycle
  imports Sync_Contract Scheduler
begin

text \<open>
  Configured caches (\<open>core/sync_impl/eviction_impl.rs\<close>): the constructors that may start the periodic worker,
  worker start and status on an existing map, and the accessors that reach the eviction engine. A cache is
  the map with the scheduler registry its clones share; \<open>start\<close> bundles what the operating system decides:
  the clock reading, the largest instant, and whether the thread could be created. The periodic tick is
  \<open>enforce_eviction_limits\<close>.
\<close>

record start_env =
  start_now :: nat
  start_clock_max :: nat
  start_spawned :: bool

definition spawn_eviction_task ::
  "(nat \<Rightarrow> bool) \<Rightarrow> start_env \<Rightarrow> ('k, 'v, 'm, 'b) sharded_map \<Rightarrow> scheduler_registry \<Rightarrow>
   (eviction_error + nat \<times> worker_lease) \<times> scheduler_registry" where
  "spawn_eviction_task live en m s =
     (case config (lifecycle m) of
        None \<Rightarrow> (Inl NotConfigured, s)
      | Some cfg \<Rightarrow>
          (case start_sync_with live (start_now en) (start_clock_max en) (check_interval cfg) (start_spawned en) s of
             (Inl e, s') \<Rightarrow> (Inl (Scheduler e), s')
           | (Inr h, s') \<Rightarrow> (Inr h, s')))"

text \<open>A cache under construction is owned by nobody else, so its registry starts empty and no block is alive.\<close>

definition try_with_eviction_options ::
  "('k, 'v, 'm, 'b) deps \<Rightarrow> start_env \<Rightarrow> nat \<Rightarrow> snapshot_mode \<Rightarrow> ('k, 'v) eviction_options \<Rightarrow>
   eviction_error + (('k, 'v, 'm, 'b) sharded_map \<times> scheduler_registry \<times> nat option)" where
  "try_with_eviction_options D en n mode opts =
     (case build_eviction_map D n mode opts of
        Inl e \<Rightarrow> Inl e
      | Inr m \<Rightarrow>
          if background_enabled (opt_config opts)
          then (case spawn_eviction_task (\<lambda>_. False) en m registry_new of
                  (Inl e, _) \<Rightarrow> Inl e
                | (Inr (c, _), s) \<Rightarrow>
                    (let (automatic, s') = retain_handle c None s in Inr (m, s', automatic)))
          else Inr (m, registry_new, None))"

definition try_with_eviction ::
  "('k, 'v, 'm, 'b) deps \<Rightarrow> start_env \<Rightarrow> nat \<Rightarrow> eviction_config \<Rightarrow>
   eviction_error + (('k, 'v, 'm, 'b) sharded_map \<times> scheduler_registry \<times> nat option)" where
  "try_with_eviction D en n cfg = try_with_eviction_options D en n CloneMode (options_new cfg)"

text \<open>\<open>None\<close> is the panic on an invalid configuration.\<close>

definition with_eviction ::
  "('k, 'v, 'm, 'b) deps \<Rightarrow> start_env \<Rightarrow> nat \<Rightarrow> eviction_config \<Rightarrow>
   (('k, 'v, 'm, 'b) sharded_map \<times> scheduler_registry \<times> nat option) option" where
  "with_eviction D en n cfg = (case try_with_eviction D en n cfg of Inl _ \<Rightarrow> None | Inr r \<Rightarrow> Some r)"

definition eviction_worker_status :: "(nat \<Rightarrow> bool) \<Rightarrow> scheduler_registry \<Rightarrow> eviction_worker_status" where
  "eviction_worker_status live s = registry_status live s"

definition set_evict_callback ::
  "('k \<Rightarrow> 'v \<Rightarrow> bool) \<Rightarrow> ('k, 'v, 'm, 'b) sharded_map \<Rightarrow> ('k, 'v, 'm, 'b) sharded_map" where
  "set_evict_callback cb m = m\<lparr>lifecycle := set_callback cb (lifecycle m)\<rparr>"

definition clear_evict_callback :: "('k, 'v, 'm, 'b) sharded_map \<Rightarrow> ('k, 'v, 'm, 'b) sharded_map" where
  "clear_evict_callback m = m\<lparr>lifecycle := clear_callback (lifecycle m)\<rparr>"

definition map_metrics_snapshot :: "('k, 'v, 'm, 'b) sharded_map \<Rightarrow> metrics_stats" where
  "map_metrics_snapshot m = metrics_snapshot (lifecycle m)"

definition map_reset_metrics :: "('k, 'v, 'm, 'b) sharded_map \<Rightarrow> ('k, 'v, 'm, 'b) sharded_map" where
  "map_reset_metrics m = m\<lparr>lifecycle := reset_metrics (lifecycle m)\<rparr>"

definition map_eviction_runtime_stats :: "('k, 'v, 'm, 'b) sharded_map \<Rightarrow> eviction_runtime_stats" where
  "map_eviction_runtime_stats m = runtime_stats (lifecycle m)"

section \<open>Construction\<close>

lemma build_eviction_cases:
  "build_eviction_map D n mode opts =
     (case validate_options opts of Inl e \<Rightarrow> Inl e
      | Inr _ \<Rightarrow> Inr ((build_with_count (min (normalized_shard_count n) MAX_SHARDS) mode)
          \<lparr>lifecycle := lifecycle_new\<lparr>configured := Some \<lparr>options = opts, stripes = replicate STRIPES (stripe_default D),
             entries = 0, retired_stripes = 0\<rparr>\<rparr>\<rparr>))"
  by (simp add: build_eviction_map_def configure_def with_shards_and_snapshot_mode_def capped_shard_count_def
      normalized_shard_count_def DEFAULT_SHARDS_def Let_def split: sum.split)

lemma registry_new_simps [simp]:
  "reg_active registry_new = None" "\<not> w_running (reg_last registry_new)" "w_running (control_new g)"
  by (simp_all add: registry_new_def status_default_def control_new_def)

lemma start_fresh:
  "start_sync_with (\<lambda>_. False) nw mx iv ok registry_new =
     (if iv = 0 \<or> nw + iv > mx then (Inl InvalidInterval, registry_new)
      else if \<not> ok then (Inl Spawn, snd (lease_finish False True \<lparr>lease_control = 0, lease_active = True, unexpected_stop = SpawnFailed\<rparr>
        (registry_new\<lparr>reg_generation := 1, reg_active := Some 0, controls := [control_new 1]\<rparr>)))
      else (Inr (0, \<lparr>lease_control = 0, lease_active = True, unexpected_stop = SpawnFailed\<rparr>),
        registry_new\<lparr>reg_generation := 1, reg_active := Some 0, controls := [control_new 1]\<rparr>))"
  by (simp add: start_sync_with_def validate_interval_def claim_def upgrade_def registry_new_def Let_def)

text \<open>What construction must answer, as one decision table.\<close>

definition construction_error :: "start_env \<Rightarrow> ('k, 'v) eviction_options \<Rightarrow> eviction_error option" where
  "construction_error en opts =
     (case validate_options opts of
        Inl e \<Rightarrow> Some e
      | Inr _ \<Rightarrow>
          (let iv = check_interval (opt_config opts) in
           if \<not> background_enabled (opt_config opts) then None
           else if iv = 0 \<or> start_now en + iv > start_clock_max en then Some (Scheduler InvalidInterval)
           else if \<not> start_spawned en then Some (Scheduler Spawn)
           else None))"

definition constructed ::
  "('k, 'v, 'm, 'b) deps \<Rightarrow> nat \<Rightarrow> ('k, 'v) eviction_options \<Rightarrow>
   ('k, 'v, 'm, 'b) sharded_map \<times> scheduler_registry \<times> nat option \<Rightarrow> bool" where
  "constructed D n opts c \<longleftrightarrow>
     (case c of (m, s, automatic) \<Rightarrow> wf_map D m \<and> view D m = Map.empty \<and> config (lifecycle m) = Some (opt_config opts) \<and>
       shard_count m = min (normalized_shard_count n) MAX_SHARDS \<and>
       (automatic \<noteq> None \<longleftrightarrow> background_enabled (opt_config opts)) \<and>
       (w_running (eviction_worker_status (\<lambda>c. automatic = Some c) s) \<longleftrightarrow> background_enabled (opt_config opts)))"

lemma try_with_eviction_cases:
  fixes D :: "('k, 'v, 'm, 'b) deps"
  shows "case try_with_eviction_options D en n mode opts of
     Inl e \<Rightarrow> construction_error en opts = Some e
   | Inr c \<Rightarrow> construction_error en opts = None \<and> constructed D n opts c"
proof (cases "validate_options opts")
  case (Inl e)
  then show ?thesis by (simp add: try_with_eviction_options_def build_eviction_cases construction_error_def)
next
  case (Inr u)
  define m :: "('k, 'v, 'm, 'b) sharded_map" where "m = (build_with_count (min (normalized_shard_count n) MAX_SHARDS) mode)
          \<lparr>lifecycle := lifecycle_new\<lparr>configured := Some \<lparr>options = opts, stripes = replicate STRIPES (stripe_default D),
             entries = 0, retired_stripes = 0\<rparr>\<rparr>\<rparr>"
  have b: "build_eviction_map D n mode opts = Inr m" using Inr by (simp add: build_eviction_cases m_def)
  have m: "wf_map D m" "view D m = Map.empty" "config (lifecycle m) = Some (opt_config opts)"
    "shard_count m = min (normalized_shard_count n) MAX_SHARDS"
    by (simp_all add: m_def wf_map_build config_def MAX_SHARDS_def)
  show ?thesis
    by (simp add: try_with_eviction_options_def b spawn_eviction_task_def m(3) start_fresh construction_error_def Inr Let_def
        retain_handle_def constructed_def m eviction_worker_status_def registry_status_def upgrade_def)
qed

end
