(* ===== verification/Sync_Reachable.thy ===== *)
theory Sync_Reachable
  imports Sync_Snapshots Sync_Lifecycle
begin

text \<open>
  The maps a program can hold: those built by one of the constructors and changed by public operations, resharding,
  maintenance and snapshots, in any order. Reachability is an inductive predicate; every reachable map is well formed
  and no operation panics on it, so every theorem that assumes \<open>wf_map\<close> applies to whatever map a client has.
\<close>

section \<open>Public operations as steps\<close>

datatype ('k, 'v, 'm) public_op =
    OpCall "('k, 'v) call"
  | OpContains 'k
  | OpGetOrInsert 'k "unit \<Rightarrow> 'v"
  | OpCompute 'k "'v \<Rightarrow> 'v option"
  | OpSwap 'k 'v 'v
  | OpCompareRemove 'k 'v
  | OpBatchInsert "('k \<times> 'v) list"
  | OpBatchRemove "'k list"
  | OpBatchGet "'k list"
  | OpRetain "'k \<Rightarrow> 'v \<Rightarrow> bool"
  | OpClear
  | OpDrain
  | OpTransaction "('k, 'v) transaction"
  | OpEvict "nat option" "capacity_policy option"
  | OpRebalance background
  | OpSnapshot "('m shard_data \<Rightarrow> ('k \<times> 'v) list) \<Rightarrow> 'm shard_data list \<Rightarrow> ('k \<times> 'v) list"
  | OpCallback "('k \<Rightarrow> 'v \<Rightarrow> bool) option"
  | OpProfiling bool

fun public_step ::
  "('k, 'v, 'm, 'b) deps \<Rightarrow> ('k, 'v, 'm) public_op \<Rightarrow> ('k, 'v, 'm, 'b) sharded_map \<Rightarrow> ('k, 'v, 'm, 'b) sharded_map option" where
  "public_step D (OpCall c) m = map_option snd (run_call (insert_op D) (get_borrowed D) (remove_borrowed D) c m)"
| "public_step D (OpContains k) m = map_option snd (contains_borrowed D k m)"
| "public_step D (OpGetOrInsert k f) m = map_option snd (get_or_insert_with D k f m)"
| "public_step D (OpCompute k f) m = map_option snd (compute_if_present D k f m)"
| "public_step D (OpSwap k old new) m = map_option snd (compare_and_swap D k old new m)"
| "public_step D (OpCompareRemove k old) m = map_option snd (compare_and_remove D k old m)"
| "public_step D (OpBatchInsert es) m = map_option snd (batch_insert D es m)"
| "public_step D (OpBatchRemove ks) m = map_option snd (batch_remove D ks m)"
| "public_step D (OpBatchGet ks) m = map_option snd (batch_get D ks m)"
| "public_step D (OpRetain p) m = retain_op D p m"
| "public_step D OpClear m = clear_op D m"
| "public_step D OpDrain m = map_option snd (drain_op D m)"
| "public_step D (OpTransaction t) m = map_option snd (execute_transaction D t m)"
| "public_step D (OpEvict target pol) m = map_option snd (run_eviction D target pol m)"
| "public_step D (OpRebalance b) m = background_op D b m"
| "public_step D (OpSnapshot par) m = Some (snd (shared_snapshot D par m))"
| "public_step D (OpCallback (Some cb)) m = Some (set_evict_callback cb m)"
| "public_step D (OpCallback None) m = Some (clear_evict_callback m)"
| "public_step D (OpProfiling b) m = Some (enable_profiling b m)"

inductive reachable :: "('k, 'v, 'm, 'b) deps \<Rightarrow> ('k, 'v, 'm, 'b) sharded_map \<Rightarrow> bool" for D where
  new_map: "reachable D (with_shards_and_snapshot_mode n mode)"
| new_capped: "reachable D (with_shards_capped_and_snapshot_mode n limit mode)"
| new_strict: "try_with_shards_capped n limit = Inr m \<Longrightarrow> reachable D m"
| new_cache: "build_eviction_map D n mode opts = Inr m \<Longrightarrow> reachable D m"
| step: "reachable D m \<Longrightarrow> public_step D c m = Some m' \<Longrightarrow> reachable D m'"

section \<open>Steps preserve well-formedness\<close>

text \<open>What no operation changes: the snapshot mode and the cache configuration.\<close>

definition step_ok :: "('k, 'v, 'm, 'b) deps \<Rightarrow> ('k, 'v, 'm, 'b) sharded_map \<Rightarrow> ('k, 'v, 'm, 'b) sharded_map option \<Rightarrow> bool" where
  "step_ok D m r \<longleftrightarrow> (\<exists>m'. r = Some m' \<and> wf_map D m' \<and> snapshot_mode m' = snapshot_mode m \<and>
     life_opts (lifecycle m') = life_opts (lifecycle m))"

lemma step_ok_post: "op_post D m V m' \<Longrightarrow> r = Some m' \<Longrightarrow> step_ok D m r"
  by (simp add: op_post_def step_ok_def)

lemma shared_snapshot_cache: "\<exists>x. snd (shared_snapshot D par m) = m\<lparr>snapshot_cache := x\<rparr>"
  using same_cache[of m] by (auto simp: shared_snapshot_def capture_snapshot_def split_beta Let_def split: option.splits prod.splits)

context starshard_deps
begin

lemma call_step:
  assumes "wf_map D m"
  shows "step_ok D m (public_step D (OpCall c) m)"
proof (cases c)
  case (Insert k v)
  obtain m' where "insert_op D k v m = Some (view D m k, m')" "op_post D m ((view D m)(k \<mapsto> v)) m'" using insert_op_post[OF assms] by blast
  then show ?thesis using Insert by (auto intro: step_ok_post)
next
  case (Get k)
  obtain m' where "get_borrowed D k m = Some (view D m k, m')" "op_post D m (view D m) m'" using get_post[OF assms] by blast
  then show ?thesis using Get by (auto intro: step_ok_post)
next
  case (Delete k)
  obtain m' where "remove_borrowed D k m = Some (view D m k, m')" "op_post D m ((view D m)(k := None)) m'" using remove_post[OF assms] by blast
  then show ?thesis using Delete by (auto intro: step_ok_post)
qed

text \<open>Every postcondition of an operation gives one case.\<close>

lemma post_pair: "\<exists>m'. f = Some (r, m') \<and> op_post D m V m' \<Longrightarrow> step_ok D m (map_option snd f)"
  by (auto intro: step_ok_post)

lemma post_pair_more: "\<exists>m'. f = Some (r, m') \<and> op_post D m V m' \<and> P m' \<Longrightarrow> step_ok D m (map_option snd f)"
  by (auto intro: step_ok_post)

lemma evict_step_ok:
  assumes "wf_map D m"
  shows "step_ok D m (map_option snd (run_eviction D target pol m))"
proof -
  obtain ev m' where "run_eviction D target pol m = Some (length ev, m')" "evicted_by D ev m m'"
    using run_eviction_evicts[OF assms] by blast
  then show ?thesis using evicted_byD[of D ev m m'] by (auto simp: step_ok_def same_meta_def)
qed

lemma public_step_ok:
  assumes wf: "wf_map D m"
  shows "step_ok D m (public_step D c m)"
proof (cases c)
  case (OpCall x)
  then show ?thesis using call_step[OF wf] by simp
next
  case (OpContains k)
  then show ?thesis using post_pair_more[OF contains_post[OF wf]] by simp
next
  case (OpGetOrInsert k f)
  then show ?thesis using post_pair[OF get_or_insert_post[OF wf]] by simp
next
  case (OpCompute k f)
  then show ?thesis using post_pair[OF compute_post[OF wf]] by simp
next
  case (OpSwap k a b)
  then show ?thesis using post_pair[OF cas_post[OF wf]] by simp
next
  case (OpCompareRemove k a)
  then show ?thesis using post_pair[OF compare_and_remove_post[OF wf]] by simp
next
  case (OpBatchInsert es)
  then show ?thesis using post_pair[OF batch_insert_post[OF wf]] by simp
next
  case (OpBatchRemove ks)
  then show ?thesis using post_pair[OF batch_remove_post[OF wf]] by simp
next
  case (OpBatchGet ks)
  then show ?thesis using post_pair_more[OF batch_get_post[OF wf]] by simp
next
  case (OpRetain p)
  then show ?thesis using retain_post[OF wf, of p] by (auto intro: step_ok_post)
next
  case OpClear
  then show ?thesis using clear_post[OF wf] by (auto intro: step_ok_post)
next
  case OpDrain
  then show ?thesis using drain_post[OF wf] by (auto intro: step_ok_post)
next
  case (OpTransaction t)
  then show ?thesis using post_pair[OF execute_transaction_post[OF wf]] by simp
next
  case (OpEvict target pol)
  then show ?thesis using evict_step_ok[OF wf] by simp
next
  case (OpRebalance b)
  then show ?thesis using background_unseen[OF wf, of b] by (auto simp: step_ok_def same_content_def)
next
  case (OpSnapshot par)
  then show ?thesis using shared_snapshot_cache[of D par m] wf by (auto simp: step_ok_def)
next
  case (OpCallback cb)
  then show ?thesis using wf
    by (cases cb) (simp_all add: step_ok_def set_evict_callback_def clear_evict_callback_def set_callback_def clear_callback_def life_opts_def)
next
  case (OpProfiling b)
  then show ?thesis using wf by (simp add: step_ok_def enable_profiling_def wf_map_def)
qed

lemma reachable_wf:
  assumes "reachable D m"
  shows "wf_map D m"
  using assms
proof induction
  case (new_map n mode)
  then show ?case by (simp add: with_shards_and_snapshot_mode_def capped_shard_count_def MAX_SHARDS_def Let_def wf_map_build)
next
  case (new_capped n limit mode)
  then show ?case by (simp add: with_shards_capped_and_snapshot_mode_def capped_shard_count_def Let_def wf_map_build)
next
  case (new_strict n limit m)
  then show ?case by (auto simp: try_with_shards_capped_def Let_def strict_Inr wf_map_build split: sum.splits)
next
  case (new_cache n mode opts m)
  have "0 < min (normalized_shard_count n) MAX_SHARDS" by (simp add: MAX_SHARDS_def)
  note w = wf_map_build[OF this, of D mode]
  show ?case using new_cache w by (auto simp: build_eviction_cases split: sum.splits)
next
  case (step m c m')
  then show ?case using public_step_ok[OF step.IH, of c] by (simp add: step_ok_def)
qed

end

section \<open>Properties\<close>

text \<open>
  C7: the invariant of the representation is a type of the program: every map reachable from a constructor by
  public operations in any order is well formed, and every public operation on such a map returns (none
  panics), gives a reachable map again and leaves the snapshot mode and the cache configuration alone.
\<close>

theorem reachable_maps_well_formed:
  assumes "starshard_deps D" "reachable D m"
  shows "wf_map D m \<and> (\<exists>m'. public_step D c m = Some m' \<and> reachable D m' \<and> wf_map D m' \<and>
    snapshot_mode m' = snapshot_mode m \<and> life_opts (lifecycle m') = life_opts (lifecycle m))"
  using starshard_deps.public_step_ok[OF assms(1), of m c] starshard_deps.reachable_wf[OF assms] reachable.step[OF assms(2)]
  by (auto simp: step_ok_def)

theorem reachable_maps_well_formed_witness:
  "\<exists>m'. public_step nat_deps (OpBatchInsert [(1, 10), (2, 20)]) (with_shards_and_snapshot_mode 4 Cow) = Some m' \<and>
    reachable nat_deps m' \<and> wf_map nat_deps m'"
  using reachable_maps_well_formed[OF nat_deps_laws reachable.new_map[of nat_deps 4 Cow], of "OpBatchInsert [(1, 10), (2, 20)]"]
  by blast

end
