(* ===== verification/Engine_Track.thy ===== *)
theory Engine_Track
  imports Engine_Inv
begin

text \<open>
  The metadata of the eviction engine as a map from keys to entries. \<open>find_entry\<close> is that map; \<open>meta_ok\<close> is the
  representation invariant of the stripes: an entry is in the bucket of its key's hash, no bucket holds a
  key or an incarnation twice, and the weight kept by a stripe is the sum over its entries. Each hook
  changes the map at one key; \<open>reconcile\<close> rebuilds it from the live entries whatever it was before.
\<close>

section \<open>Buckets as maps\<close>

definition bucket_ok :: "('k, 'v, 'm, 'b) deps \<Rightarrow> nat \<Rightarrow> u64 \<Rightarrow> 'k entry list \<Rightarrow> bool" where
  "bucket_ok D t h b \<longleftrightarrow> distinct (map entry_key b) \<and> distinct (map incarnation b) \<and>
     (\<forall>e\<in>set b. fx_hash_one D (entry_key e) = h \<and> unat (incarnation e) < t)"

definition stripe_sum :: "('k, 'v, 'm, 'b) deps \<Rightarrow> ('k \<Rightarrow> 'k entry option) \<Rightarrow> nat \<Rightarrow> nat" where
  "stripe_sum D T i = (\<Sum>k | k \<in> dom T \<and> stripe_index (fx_hash_one D k) = i. entry_weight (the (T k)))"

definition meta_ok :: "('k, 'v, 'm, 'b) deps \<Rightarrow> nat \<Rightarrow> ('k, 'v, 'b) configured \<Rightarrow> bool" where
  "meta_ok D t c \<longleftrightarrow> length (stripes c) = STRIPES \<and>
     (\<forall>h b. bucket_of D c h = Some b \<longrightarrow> bucket_ok D t h b) \<and>
     (\<forall>i<STRIPES. \<forall>h. hb_get (stripe_ops D) (buckets (stripes c ! i)) h \<noteq> None \<longrightarrow> stripe_index h = i) \<and>
     (\<forall>i<STRIPES. stripe_weight (stripes c ! i) = stripe_sum D (find_entry D c) i)"

text \<open>What the hooks do to one bucket and the weight of its stripe.\<close>

definition put_bucket ::
  "('k, 'v, 'm, 'b) deps \<Rightarrow> u64 \<Rightarrow> 'b \<Rightarrow> nat \<Rightarrow> ('k, 'v, 'b) configured \<Rightarrow> ('k, 'v, 'b) configured" where
  "put_bucket D h bs w c =
     c\<lparr>stripes := (stripes c)[stripe_index h := (stripes c ! stripe_index h)\<lparr>buckets := bs, stripe_weight := w\<rparr>]\<rparr>"

definition same_stripes :: "('k, 'v, 'b) configured \<Rightarrow> ('k, 'v, 'b) configured \<Rightarrow> bool" where
  "same_stripes c c' \<longleftrightarrow> map (\<lambda>s. (buckets s, stripe_weight s)) (stripes c) = map (\<lambda>s. (buckets s, stripe_weight s)) (stripes c')"

lemma stripe_upd_commute: "s\<lparr>buckets := a, stripe_weight := b\<rparr> = s\<lparr>stripe_weight := b, buckets := a\<rparr>"
  by (cases s) simp

lemma stripe_index_less [simp]: "stripe_index h < STRIPES"
  by (simp add: stripe_index_def STRIPES_def)

lemma find_key:
  "distinct (map entry_key b) \<Longrightarrow> find (\<lambda>e. entry_key e = k) b = Some e \<longleftrightarrow> e \<in> set b \<and> entry_key e = k"
  by (induction b) (auto simp: image_iff)

lemma find_key_None: "find (\<lambda>e. entry_key e = k) b = None \<longleftrightarrow> k \<notin> entry_key ` set b"
  by (auto simp: find_None_iff image_iff)

lemma find_in: "find P xs = Some x \<Longrightarrow> x \<in> set xs \<and> P x"
  by (induction xs) (auto split: if_splits)

lemma find_append: "find P (xs @ ys) = (case find P xs of None \<Rightarrow> find P ys | Some x \<Rightarrow> Some x)"
  by (induction xs) simp_all

lemma set_swap_remove:
  assumes "j < length b" "distinct b"
  shows "set (swap_remove b j) = set b - {b ! j}" "distinct (swap_remove b j)"
proof -
  have m: "mset (swap_remove b j) = mset b - {#b ! j#}" by (rule mset_swap_remove[OF assms(1)])
  have "mset b = add_mset (b ! j) (mset (swap_remove b j))" using assms(1) by (simp add: m)
  then have d: "distinct (b ! j # swap_remove b j)" "set b = insert (b ! j) (set (swap_remove b j))"
    using assms(2) mset_eq_imp_distinct_iff[of b "b ! j # swap_remove b j"] mset_eq_setD[of b "b ! j # swap_remove b j"] by simp_all
  then show "set (swap_remove b j) = set b - {b ! j}" "distinct (swap_remove b j)" by auto
qed

text \<open>One key of a map changes.\<close>

lemma sum_upd:
  fixes f :: "'e \<Rightarrow> nat"
  assumes "finite (dom T)" "P k"
  shows "(\<Sum>k' | k' \<in> dom (T(k := x)) \<and> P k'. f (the ((T(k := x)) k'))) =
    (\<Sum>k' | k' \<in> dom T \<and> P k'. f (the (T k'))) - (case T k of None \<Rightarrow> 0 | Some e \<Rightarrow> f e) + (case x of None \<Rightarrow> 0 | Some e \<Rightarrow> f e)"
proof -
  define S where "S = {k'. k' \<in> dom T \<and> P k'} - {k}"
  have fin: "finite S" using assms(1) by (simp add: S_def)
  have same: "(\<Sum>k'\<in>S. f (the ((T(k := x)) k'))) = (\<Sum>k'\<in>S. f (the (T k')))"
    by (rule sum.cong) (auto simp: S_def)
  have new: "{k'. k' \<in> dom (T(k := x)) \<and> P k'} = (if x = None then S else insert k S)"
    using assms(2) by (auto simp: S_def)
  have old: "{k'. k' \<in> dom T \<and> P k'} = (if T k = None then S else insert k S)"
    using assms(2) by (auto simp: S_def)
  have k: "k \<notin> S" by (simp add: S_def)
  have "(\<Sum>k' | k' \<in> dom (T(k := x)) \<and> P k'. f (the ((T(k := x)) k'))) =
      (case x of None \<Rightarrow> 0 | Some e \<Rightarrow> f e) + (\<Sum>k'\<in>S. f (the (T k')))"
    unfolding new using fin k same by (cases x) (simp_all add: sum.insert del: fun_upd_apply, simp)
  moreover have "(\<Sum>k' | k' \<in> dom T \<and> P k'. f (the (T k'))) = (case T k of None \<Rightarrow> 0 | Some e \<Rightarrow> f e) + (\<Sum>k'\<in>S. f (the (T k')))"
    unfolding old using fin k by (cases "T k") simp_all
  ultimately show ?thesis by simp
qed

section \<open>The metadata as a map\<close>

locale engine_deps =
  fixes D :: "('k, 'v, 'm, 'b) deps"
  assumes stripe_map: "hashbrown_map (stripe_ops D)"

sublocale engine_deps \<subseteq> B: hashbrown_map "stripe_ops D"
  by (rule stripe_map)

context engine_deps
begin

lemma find_entry_iff:
  assumes "meta_ok D t c"
  shows "find_entry D c k = Some e \<longleftrightarrow> (\<exists>b. bucket_of D c (fx_hash_one D k) = Some b \<and> e \<in> set b \<and> entry_key e = k)"
proof (cases "bucket_of D c (fx_hash_one D k)")
  case (Some b)
  then have "distinct (map entry_key b)" using assms by (auto simp: meta_ok_def bucket_ok_def)
  then show ?thesis using Some find_key[of b k e] by (simp add: find_entry_def)
qed (simp add: find_entry_def)

lemma find_entryD:
  assumes "find_entry D c k = Some e"
  obtains b where "bucket_of D c (fx_hash_one D k) = Some b" "e \<in> set b" "entry_key e = k"
proof (cases "bucket_of D c (fx_hash_one D k)")
  case (Some b)
  then show ?thesis using that assms find_in[of "\<lambda>e. entry_key e = k" b e] by (simp add: find_entry_def)
qed (use assms in \<open>simp add: find_entry_def\<close>)

lemma finite_tracked:
  assumes "length (stripes c) = STRIPES"
  shows "finite (dom (find_entry D c))"
proof -
  let ?E = "\<Union>i<STRIPES. \<Union>b\<in>ran (hb_get (stripe_ops D) (buckets (stripes c ! i))). entry_key ` set b"
  have "finite (ran (hb_get (stripe_ops D) (buckets (stripes c ! i))))" for i by (simp add: finite_ran)
  then have "finite ?E" by blast
  moreover have "dom (find_entry D c) \<subseteq> ?E"
  proof
    fix k assume "k \<in> dom (find_entry D c)"
    then obtain e where "find_entry D c k = Some e" by auto
    then obtain b where "bucket_of D c (fx_hash_one D k) = Some b" "e \<in> set b" "entry_key e = k" by (rule find_entryD)
    then show "k \<in> ?E" by (force simp: bucket_of_def ran_def)
  qed
  ultimately show ?thesis using finite_subset by blast
qed

lemma bucket_of_put:
  assumes "length (stripes c) = STRIPES"
  shows "bucket_of D (put_bucket D h bs w c) h' =
    (if stripe_index h' = stripe_index h then hb_get (stripe_ops D) bs h' else bucket_of D c h')"
  using assms by (simp add: bucket_of_def put_bucket_def)

text \<open>
  Replacing the content of the bucket of \<open>k\<close> so that exactly \<open>k\<close>'s entry changes, to \<open>x\<close>, with the weight of the
  stripe adjusted accordingly, keeps the invariant.
\<close>

lemma meta_put:
  assumes ok: "meta_ok D t c" and t: "t \<le> t'" and h: "h = fx_hash_one D k"
    and get: "hb_get (stripe_ops D) bs = (hb_get (stripe_ops D) (buckets (stripes c ! stripe_index h)))(h := y)"
    and b: "\<And>b. y = Some b \<Longrightarrow> bucket_ok D t' h b"
    and upd: "\<And>k'. fx_hash_one D k' = h \<Longrightarrow> Option.bind y (find (\<lambda>e. entry_key e = k')) = ((find_entry D c)(k := x)) k'"
    and w: "w = stripe_weight (stripes c ! stripe_index h) - (case find_entry D c k of None \<Rightarrow> 0 | Some e \<Rightarrow> entry_weight e) +
      (case x of None \<Rightarrow> 0 | Some e \<Rightarrow> entry_weight e)"
  shows "meta_ok D t' (put_bucket D h bs w c)" "find_entry D (put_bucket D h bs w c) = (find_entry D c)(k := x)"
proof -
  let ?c = "put_bucket D h bs w c"
  have len: "length (stripes c) = STRIPES" using ok by (simp add: meta_ok_def)
  have bk: "bucket_of D ?c h' = (if h' = h then y else bucket_of D c h')" for h'
    unfolding bucket_of_put[OF len] get by (auto simp: bucket_of_def)
  show T: "find_entry D ?c = (find_entry D c)(k := x)"
  proof
    fix k' show "find_entry D ?c k' = ((find_entry D c)(k := x)) k'"
    proof (cases "fx_hash_one D k' = h")
      case True
      then show ?thesis using upd[OF True] unfolding find_entry_def[of D ?c] bk by simp
    next
      case False
      then show ?thesis using h unfolding find_entry_def[of D ?c] bk by (auto simp: find_entry_def)
    qed
  qed
  have mono: "bucket_ok D t h' b' \<Longrightarrow> bucket_ok D t' h' b'" for h' b' using t by (fastforce simp: bucket_ok_def)
  have slots: "stripe_index h' = i" if "i < STRIPES" "hb_get (stripe_ops D) (buckets (stripes ?c ! i)) h' \<noteq> None" for i h'
    using that ok get len by (cases "i = stripe_index h") (auto simp: put_bucket_def meta_ok_def split: if_splits)
  have sums: "stripe_weight (stripes ?c ! i) = stripe_sum D (find_entry D ?c) i" if i: "i < STRIPES" for i
  proof (cases "i = stripe_index h")
    case True
    then show ?thesis
      using ok i w h len sum_upd[OF finite_tracked[OF len], of "\<lambda>k. stripe_index (fx_hash_one D k) = i" k entry_weight x]
      unfolding T stripe_sum_def by (simp add: put_bucket_def meta_ok_def stripe_sum_def)
  next
    case False
    then have "stripe_sum D ((find_entry D c)(k := x)) i = stripe_sum D (find_entry D c) i"
      using h unfolding stripe_sum_def by (intro sum.cong) auto
    then show ?thesis using False ok i unfolding T by (simp add: put_bucket_def meta_ok_def)
  qed
  show "meta_ok D t' ?c"
    unfolding meta_ok_def
  proof (intro conjI allI impI)
    show "length (stripes ?c) = STRIPES" using len by (simp add: put_bucket_def)
    show "bucket_ok D t' h' b'" if "bucket_of D ?c h' = Some b'" for h' b'
      using that ok b mono unfolding bk by (auto simp: meta_ok_def split: if_splits)
  qed (rule slots sums; assumption)+
qed

lemma tracked_weight_le:
  assumes ok: "meta_ok D t c" and e: "find_entry D c k = Some e"
  shows "entry_weight e \<le> stripe_weight (stripes c ! stripe_index (fx_hash_one D k))"
proof -
  let ?i = "stripe_index (fx_hash_one D k)"
  have "finite (dom (find_entry D c))" using ok by (intro finite_tracked) (simp add: meta_ok_def)
  then have "entry_weight (the (find_entry D c k)) \<le> stripe_sum D (find_entry D c) ?i"
    unfolding stripe_sum_def by (intro member_le_sum) (auto simp: e)
  then show ?thesis using ok e by (simp add: meta_ok_def)
qed

lemma meta_insert:
  assumes "meta_ok D t c" "t \<le> t'" "h = fx_hash_one D k" "bucket_ok D t' h b'"
    and "\<And>k'. fx_hash_one D k' = h \<Longrightarrow> find (\<lambda>e. entry_key e = k') b' = ((find_entry D c)(k \<mapsto> e')) k'"
    and "w = stripe_weight (stripes c ! stripe_index h) - (case find_entry D c k of None \<Rightarrow> 0 | Some e \<Rightarrow> entry_weight e) + entry_weight e'"
  defines "c1 \<equiv> put_bucket D h (snd (hb_insert (stripe_ops D) (buckets (stripes c ! stripe_index h)) h b')) w c"
  shows "meta_ok D t' c1" "find_entry D c1 = (find_entry D c)(k \<mapsto> e')"
  unfolding c1_def using assms(1-6) by (intro meta_put[where y = "Some b'" and k = k and x = "Some e'" and t = t]; simp add: B.get_insert)+

lemma same_stripes_nth:
  assumes "same_stripes c c'"
  shows "length (stripes c) = length (stripes c')"
    "i < length (stripes c') \<Longrightarrow> buckets (stripes c ! i) = buckets (stripes c' ! i)"
    "i < length (stripes c') \<Longrightarrow> stripe_weight (stripes c ! i) = stripe_weight (stripes c' ! i)"
proof -
  show len: "length (stripes c) = length (stripes c')" using assms unfolding same_stripes_def by (metis length_map)
  have "map (\<lambda>s. (buckets s, stripe_weight s)) (stripes c) ! i = map (\<lambda>s. (buckets s, stripe_weight s)) (stripes c') ! i"
    using assms by (simp add: same_stripes_def)
  then show "i < length (stripes c') \<Longrightarrow> buckets (stripes c ! i) = buckets (stripes c' ! i)"
    "i < length (stripes c') \<Longrightarrow> stripe_weight (stripes c ! i) = stripe_weight (stripes c' ! i)"
    using len by simp_all
qed

lemma meta_cong:
  assumes "same_stripes c c'" "meta_ok D t c'"
  shows "meta_ok D t c" "find_entry D c = find_entry D c'"
proof -
  have len: "length (stripes c') = STRIPES" using assms(2) by (simp add: meta_ok_def)
  note n = same_stripes_nth[OF assms(1), unfolded len]
  have b: "bucket_of D c h = bucket_of D c' h" for h using n(2) by (simp add: bucket_of_def)
  show T: "find_entry D c = find_entry D c'" by (rule ext) (simp add: find_entry_def b)
  show "meta_ok D t c" using assms(2) n by (auto simp: meta_ok_def b T)
qed

lemma bucket_update:
  assumes b: "bucket_of D c h = Some b" and ok: "meta_ok D t c" and j: "j < length b"
    and e': "entry_key e' = entry_key (b ! j)" "unat (incarnation e') < t'" and t: "t \<le> t'"
    and inc: "incarnation e' = incarnation (b ! j) \<or> unat (incarnation e') \<ge> t"
  shows "bucket_ok D t' h (b[j := e'])"
    "fx_hash_one D k' = h \<Longrightarrow> find (\<lambda>e. entry_key e = k') (b[j := e']) = ((find_entry D c)(entry_key (b ! j) \<mapsto> e')) k'"
proof -
  have o: "bucket_ok D t h b" using ok b by (simp add: meta_ok_def)
  then have d: "distinct (map entry_key b)" "distinct (map incarnation b)" and el: "\<And>e. e \<in> set b \<Longrightarrow> fx_hash_one D (entry_key e) = h"
    "\<And>e. e \<in> set b \<Longrightarrow> unat (incarnation e) < t" by (auto simp: bucket_ok_def)
  have dk: "map entry_key (b[j := e']) = map entry_key b" using e' j by (simp add: map_update list_update_same_conv)
  have "incarnation e' \<notin> set (map incarnation b) - {map incarnation b ! j}" using inc el(2) j by fastforce
  then have di: "distinct (map incarnation (b[j := e']))" using d(2) by (simp add: map_update distinct_list_update)
  have st: "set (b[j := e']) = insert e' (set b - {b ! j})" by (rule set_update_distinct[OF distinct_map[THEN iffD1, OF d(1), THEN conjunct1] j])
  have bj: "b ! j \<in> set b" using j by simp
  show "bucket_ok D t' h (b[j := e'])"
    unfolding bucket_ok_def dk using d(1) di st e' el t bj by (auto intro: less_le_trans)
  have "find (\<lambda>e. entry_key e = k') (b[j := e']) = Some e \<longleftrightarrow> ((find_entry D c)(entry_key (b ! j) \<mapsto> e')) k' = Some e"
    if h: "fx_hash_one D k' = h" for e
    using find_key[of "b[j := e']" k' e] d(1) dk st e' b h find_entry_iff[OF ok, of k' e] inj_onD[OF distinct_map[THEN iffD1, OF d(1), THEN conjunct2]] bj
    by auto
  then show "fx_hash_one D k' = h \<Longrightarrow> find (\<lambda>e. entry_key e = k') (b[j := e']) = ((find_entry D c)(entry_key (b ! j) \<mapsto> e')) k'"
    by (metis not_Some_eq)
qed

lemma bucket_append:
  assumes ok: "meta_ok D t c" and b: "b = (case bucket_of D c h of None \<Rightarrow> [] | Some b \<Rightarrow> b)"
    and k: "fx_hash_one D (entry_key e') = h" "entry_key e' \<notin> entry_key ` set b" and inc: "unat (incarnation e') = t" "t < t'"
  shows "bucket_ok D t' h (b @ [e'])"
    "fx_hash_one D k' = h \<Longrightarrow> find (\<lambda>e. entry_key e = k') (b @ [e']) = ((find_entry D c)(entry_key e' \<mapsto> e')) k'"
proof -
  have o: "bucket_ok D t h b" using ok b by (auto simp: meta_ok_def bucket_ok_def split: option.splits)
  have "incarnation e' \<notin> incarnation ` set b" using o inc by (auto simp: bucket_ok_def)
  then show "bucket_ok D t' h (b @ [e'])" using o k inc by (auto simp: bucket_ok_def)
  have "find_entry D c k' = find (\<lambda>e. entry_key e = k') b" if "fx_hash_one D k' = h"
    using b that by (auto simp: find_entry_def split: option.splits)
  then show "fx_hash_one D k' = h \<Longrightarrow> find (\<lambda>e. entry_key e = k') (b @ [e']) = ((find_entry D c)(entry_key e' \<mapsto> e')) k'"
    using find_key_None[of "entry_key e'" b] k(2) by (cases "k' = entry_key e'") (auto simp: find_append split: option.splits)
qed

lemma bucket_swap_remove:
  assumes b: "bucket_of D c h = Some b" and ok: "meta_ok D t c" and j: "j < length b"
  shows "bucket_ok D t h (swap_remove b j)"
    "fx_hash_one D k' = h \<Longrightarrow> find (\<lambda>e. entry_key e = k') (swap_remove b j) = ((find_entry D c)(entry_key (b ! j) := None)) k'"
proof -
  have o: "bucket_ok D t h b" using ok b by (simp add: meta_ok_def)
  then have d: "distinct (map entry_key b)" "distinct (map incarnation b)" by (auto simp: bucket_ok_def)
  have db: "distinct b" and inj: "inj_on entry_key (set b)" "inj_on incarnation (set b)" using d by (auto simp: distinct_map)
  note sw = set_swap_remove[OF j db]
  have dr: "distinct (map entry_key (swap_remove b j))" "distinct (map incarnation (swap_remove b j))"
    using sw inj by (auto simp: distinct_map intro: inj_on_subset)
  show "bucket_ok D t h (swap_remove b j)" using o sw dr by (auto simp: bucket_ok_def)
  have "find (\<lambda>e. entry_key e = k') (swap_remove b j) = Some e \<longleftrightarrow> ((find_entry D c)(entry_key (b ! j) := None)) k' = Some e"
    if h: "fx_hash_one D k' = h" for e
    using find_key[OF dr(1), of k' e] sw(1) b h find_entry_iff[OF ok, of k' e] inj_onD[OF inj(1), of e "b ! j"] j
    by auto
  then show "fx_hash_one D k' = h \<Longrightarrow> find (\<lambda>e. entry_key e = k') (swap_remove b j) = ((find_entry D c)(entry_key (b ! j) := None)) k'"
    by (metis not_Some_eq)
qed

end

section \<open>The hooks\<close>

text \<open>
  The part of a life-cycle state that matters to selection: its configured metadata satisfies the invariant and
  represents \<open>T\<close>. Stamps are only unique until the 64-bit sequence wraps.
\<close>

definition tracks :: "('k, 'v, 'm, 'b) deps \<Rightarrow> ('k, 'v, 'b) lifecycle_state \<Rightarrow> ('k \<Rightarrow> 'k entry option) \<Rightarrow> bool" where
  "tracks D l T \<longleftrightarrow> (\<exists>c. configured l = Some c \<and> meta_ok D (unat (sequence l)) c \<and> find_entry D c = T)"

text \<open>What decides whether a candidate is current, apart from the metadata.\<close>

abbreviation same_epochs :: "('k, 'v, 'b) lifecycle_state \<Rightarrow> ('k, 'v, 'b) lifecycle_state \<Rightarrow> bool" where
  "same_epochs l l' \<equiv> epoch l' = epoch l \<and> dirty_epoch l' = dirty_epoch l \<and> repaired_epoch l' = repaired_epoch l"

lemma tracks_fields [simp]:
  "tracks D (l\<lparr>metrics := a\<rparr>) T = tracks D l T" "tracks D (l\<lparr>epoch := b\<rparr>) T = tracks D l T"
  "tracks D (l\<lparr>dirty_epoch := b\<rparr>) T = tracks D l T" "tracks D (l\<lparr>repaired_epoch := b\<rparr>) T = tracks D l T"
  "tracks D (l\<lparr>work_epoch := b\<rparr>) T = tracks D l T" "tracks D (l\<lparr>maintained_epoch := b\<rparr>) T = tracks D l T"
  "tracks D (l\<lparr>reconciliations := b\<rparr>) T = tracks D l T" "tracks D (l\<lparr>callback_panics := b\<rparr>) T = tracks D l T"
  "tracks D (l\<lparr>suppressed_callbacks := b\<rparr>) T = tracks D l T" "tracks D (l\<lparr>timing := t\<rparr>) T = tracks D l T"
  by (simp_all add: tracks_def)

lemma tracks_marks [simp]:
  "tracks D (mutation l) T = tracks D l T" "tracks D (mark_pending l) T = tracks D l T"
  "tracks D (mark_maintained ob l) T = tracks D l T" "tracks D (record_eviction_duration d l) T = tracks D l T"
  "same_epochs l (mutation l)" "same_epochs l (mark_pending l)" "same_epochs l (mark_maintained ob l)"
  "same_epochs l (record_eviction_duration d l)" "sequence (mutation l) = sequence l" "sequence (mark_maintained ob l) = sequence l"
  "sequence (mark_pending l) = sequence l" "sequence (record_eviction_duration d l) = sequence l"
  by (simp_all add: mutation_def mark_pending_def mark_maintained_def record_eviction_duration_def)

lemma unat_stamp: "unat (sequence l) + 1 < 2 ^ 64 \<Longrightarrow> unat (sequence l + 1) = Suc (unat (sequence l))"
  by (simp add: unat_add_lem[THEN iffD1])

context engine_deps
begin

lemma record_insert_tracks:
  assumes "tracks D l T" "unat (sequence l) + 1 < 2 ^ 64"
  shows "\<exists>e. tracks D (record_insert D (prepare_insert D l k v) r l) (T(k \<mapsto> e)) \<and> entry_key e = k \<and> entry_weight e = weight l k v"
    "same_epochs l (record_insert D (prepare_insert D l k v) r l)"
    "sequence (record_insert D (prepare_insert D l k v) r l) = sequence l + 1"
proof -
  obtain c where c: "configured l = Some c" "meta_ok D (unat (sequence l)) c" "find_entry D c = T"
    using assms(1) by (auto simp: tracks_def)
  define t where "t = unat (sequence l)"
  define h where "h = fx_hash_one D k"
  define b where "b = (case bucket_of D c h of None \<Rightarrow> [] | Some b \<Rightarrow> b)"
  have prep: "prepare_insert D l k v = \<lparr>prep_key = Some k, prep_hash = h, prep_weight = weight l k v\<rparr>"
    using find_entryD[of c k] by (auto simp: prepare_insert_def c h_def split: option.splits)
  have len: "length (stripes c) = STRIPES" using c(2) by (simp add: meta_ok_def)
  have seq: "unat (sequence l + 1) = Suc t" using unat_stamp[OF assms(2)] by (simp add: t_def)
  show "same_epochs l (record_insert D (prepare_insert D l k v) r l)"
    and sq: "sequence (record_insert D (prepare_insert D l k v) r l) = sequence l + 1"
    by (auto simp: record_insert_def prep c stamp_def set_configured_def Let_def split: option.splits)
  show "\<exists>e. tracks D (record_insert D (prepare_insert D l k v) r l) (T(k \<mapsto> e)) \<and> entry_key e = k \<and> entry_weight e = weight l k v"
  proof (cases "position (\<lambda>e. entry_key e = k) b")
    case None
    define e' where "e' = \<lparr>entry_key = k, incarnation = sequence l, inserted = sequence l, accessed = sequence l,
        frequency = 1, entry_weight = weight l k v\<rparr>"
    have nin: "entry_key e' \<notin> entry_key ` set b" using None by (auto simp: position_None e'_def)
    note ap = bucket_append[OF c(2)[folded t_def] b_def _ nin, of "Suc t"]
    have "T k \<noteq> Some e" for e
      using find_entry_iff[OF c(2), of k e] None unfolding c(3) by (auto simp: b_def h_def position_None split: option.splits)
    then have Tk: "T k = None" by (cases "T k") auto
    let ?s = "stripes c ! stripe_index h"
    define c1 where "c1 = put_bucket D h (snd (hb_insert (stripe_ops D) (buckets ?s) h (b @ [e']))) (stripe_weight ?s + weight l k v) c"
    have mp: "meta_ok D (Suc t) c1" "find_entry D c1 = T(k \<mapsto> e')"
      unfolding c1_def c(3)[symmetric] using ap c(2,3) Tk
      by (intro meta_insert[where t = t and k = k and e' = e']; simp add: t_def h_def e'_def)+
    have "configured (record_insert D (prepare_insert D l k v) r l) = Some (c1\<lparr>entries := entries c + 1\<rparr>)"
      using None by (simp add: record_insert_def prep c(1) b_def bucket_of_def stamp_def set_configured_def Let_def c1_def put_bucket_def e'_def)
    then have "tracks D (record_insert D (prepare_insert D l k v) r l) (T(k \<mapsto> e'))"
      using mp meta_cong[of "c1\<lparr>entries := entries c + 1\<rparr>" c1 "Suc t"] seq sq by (simp add: tracks_def same_stripes_def)
    then show ?thesis by (intro exI[of _ e']) (simp add: e'_def)
  next
    case (Some j)
    then have j: "j < length b" "entry_key (b ! j) = k" using position_Some by fastforce+
    then have bk: "bucket_of D c h = Some b" by (auto simp: b_def split: option.splits)
    let ?s = "stripes c ! stripe_index h" and ?e = "b ! j"
    define e' where "e' = ?e\<lparr>entry_weight := weight l k v, incarnation := sequence l, accessed := sequence l,
        inserted := (if r then inserted ?e else sequence l), frequency := (if r then saturating_add (frequency ?e) 1 else 1)\<rparr>"
    note up = bucket_update[OF bk c(2)[folded t_def] j(1), of e' "Suc t"]
    have Tk: "T k = Some ?e" using find_entry_iff[OF c(2), of k ?e] bk j by (simp add: c(3) h_def)
    define c1 where "c1 = put_bucket D h (snd (hb_insert (stripe_ops D) (buckets ?s) h (b[j := e'])))
      (stripe_weight ?s - entry_weight ?e + weight l k v) c"
    have mp: "meta_ok D (Suc t) c1" "find_entry D c1 = T(k \<mapsto> e')"
      unfolding c1_def c(3)[symmetric] using up c(2,3) Tk j(2)
      by (intro meta_insert[where t = t and k = k and e' = e']; simp add: t_def h_def e'_def)+
    have "configured (record_insert D (prepare_insert D l k v) r l) = Some c1"
      using Some bk by (simp add: record_insert_def prep c(1) bucket_of_def stamp_def set_configured_def Let_def c1_def put_bucket_def e'_def)
    then have "tracks D (record_insert D (prepare_insert D l k v) r l) (T(k \<mapsto> e'))"
      using mp seq sq by (simp add: tracks_def)
    then show ?thesis by (intro exI[of _ e']) (simp add: e'_def j(2))
  qed
qed

lemma record_read_tracks:
  assumes "tracks D l T" "unat (sequence l) + 1 < 2 ^ 64"
  shows "\<exists>T'. tracks D (record_read D k hit l) T' \<and> map_option entry_weight \<circ> T' = map_option entry_weight \<circ> T"
    "same_epochs l (record_read D k hit l)"
    "unat (sequence l) \<le> unat (sequence (record_read D k hit l)) \<and> unat (sequence (record_read D k hit l)) \<le> Suc (unat (sequence l))"
proof -
  obtain c where c: "configured l = Some c" "meta_ok D (unat (sequence l)) c" "find_entry D c = T"
    using assms(1) by (auto simp: tracks_def)
  define t where "t = unat (sequence l)"
  define h where "h = fx_hash_one D k"
  have seq: "unat (sequence l + 1) = Suc t" using unat_stamp[OF assms(2)] by (simp add: t_def)
  show "same_epochs l (record_read D k hit l)"
    by (auto simp: record_read_def c stamp_def set_configured_def Let_def split: option.splits)
  show "unat (sequence l) \<le> unat (sequence (record_read D k hit l)) \<and> unat (sequence (record_read D k hit l)) \<le> Suc (unat (sequence l))"
    using seq by (auto simp: record_read_def c stamp_def set_configured_def Let_def t_def split: option.splits)
  show "\<exists>T'. tracks D (record_read D k hit l) T' \<and> map_option entry_weight \<circ> T' = map_option entry_weight \<circ> T"
  proof (cases "hit \<and> T k \<noteq> None")
    case False
    have "bucket_of D c h = Some b \<Longrightarrow> hit \<Longrightarrow> position (\<lambda>e. entry_key e = k) b = None" for b
      using False find_entry_iff[OF c(2), of k] c(3) by (auto simp: position_None h_def)
    then have "tracks D (record_read D k hit l) T"
      using assms(1) by (auto simp: record_read_def c(1) Let_def bucket_of_def h_def split: option.splits)
    then show ?thesis by blast
  next
    case True
    then obtain e where e: "T k = Some e" by auto
    then obtain b where b: "bucket_of D c h = Some b" "e \<in> set b" "entry_key e = k" using find_entryD[of c k e] c(3) h_def by blast
    then obtain j where pj: "position (\<lambda>e. entry_key e = k) b = Some j" using position_Some_ex[of b "\<lambda>e. entry_key e = k"] by blast
    then have j: "j < length b" "entry_key (b ! j) = k" using position_Some by fastforce+
    have Tk: "T k = Some (b ! j)" using find_entry_iff[OF c(2), of k "b ! j"] b(1) j by (simp add: c(3) h_def)
    let ?s = "stripes c ! stripe_index h" and ?e = "b ! j"
    define e' where "e' = ?e\<lparr>accessed := max (accessed ?e) (sequence l), frequency := saturating_add (frequency ?e) 1\<rparr>"
    have inc: "unat (incarnation ?e) < t" using c(2) b(1) j(1) by (auto simp: meta_ok_def bucket_ok_def t_def)
    note up = bucket_update[OF b(1) c(2)[folded t_def] j(1), of e' "Suc t"]
    have le: "entry_weight ?e \<le> stripe_weight ?s"
      using tracked_weight_le[OF c(2), of k ?e] Tk by (simp add: c(3) h_def)
    define c1 where "c1 = put_bucket D h (snd (hb_insert (stripe_ops D) (buckets ?s) h (b[j := e']))) (stripe_weight ?s) c"
    have mp: "meta_ok D (Suc t) c1" "find_entry D c1 = T(k \<mapsto> e')"
      unfolding c1_def c(3)[symmetric] using up c(2,3) Tk j(2) inc le
      by (intro meta_insert[where t = t and k = k and e' = e']; simp add: t_def h_def e'_def)+
    have "configured (record_read D k hit l) = Some c1" "sequence (record_read D k hit l) = sequence l + 1"
      using True pj b(1) by (simp_all add: record_read_def c(1) bucket_of_def stamp_def set_configured_def Let_def c1_def put_bucket_def e'_def h_def)
    then have "tracks D (record_read D k hit l) (T(k \<mapsto> e'))" using mp seq by (simp add: tracks_def)
    moreover have "map_option entry_weight \<circ> T(k \<mapsto> e') = map_option entry_weight \<circ> T"
      using Tk by (simp add: fun_eq_iff e'_def)
    ultimately show ?thesis by blast
  qed
qed

lemma detach_meta:
  assumes ok: "meta_ok D t c" and e: "find_entry D c k = Some e" and h: "h = fx_hash_one D k"
    and p: "\<And>b e'. bucket_of D c h = Some b \<Longrightarrow> e' \<in> set b \<Longrightarrow> p e' \<longleftrightarrow> e' = e"
  shows "meta_ok D t (detach_entry D h p c)" "find_entry D (detach_entry D h p c) = (find_entry D c)(k := None)"
proof -
  obtain b where b: "bucket_of D c h = Some b" "e \<in> set b" "entry_key e = k" using find_entryD[OF e] h by blast
  obtain j where pj: "position p b = Some j" using position_Some_ex[of b p] b p by blast
  then have j: "j < length b" "b ! j = e" using position_Some[of p b j] p[OF b(1)] by auto
  let ?s = "stripes c ! stripe_index h" and ?ops = "stripe_ops D"
  have len: "stripe_index h < length (stripes c)" using ok by (simp add: meta_ok_def)
  define rest where "rest = swap_remove b j"
  define bs where "bs = (let bs1 = snd (hb_insert ?ops (buckets ?s) h rest) in if rest = [] then snd (hb_remove ?ops bs1 h) else bs1)"
  define c1 where "c1 = put_bucket D h bs (stripe_weight ?s - entry_weight e) c"
  have get: "hb_get ?ops bs = (hb_get ?ops (buckets ?s))(h := (if rest = [] then None else Some rest))"
    by (simp add: bs_def Let_def B.get_insert B.get_remove)
  note sw = bucket_swap_remove[OF b(1) ok j(1), folded rest_def]
  have upd: "Option.bind (if rest = [] then None else Some rest) (find (\<lambda>e. entry_key e = k')) = ((find_entry D c)(k := None)) k'"
    if "fx_hash_one D k' = h" for k'
    using sw(2)[OF that] j(2) b(3) by (cases "rest = []") simp_all
  have mp: "meta_ok D t c1" "find_entry D c1 = (find_entry D c)(k := None)"
    unfolding c1_def using sw(1) e ok h
    by (intro meta_put[where t = t and k = k and x = None and y = "if rest = [] then None else Some rest"] get upd;
        simp split: if_splits)+
  have "same_stripes (detach_entry D h p c) c1"
    using b(1) pj len j by (auto simp: detach_entry_def same_stripes_def c1_def put_bucket_def bucket_of_def Let_def bs_def rest_def B.get_insert map_update)
  from meta_cong[OF this mp(1)] mp(2)
  show "meta_ok D t (detach_entry D h p c)" "find_entry D (detach_entry D h p c) = (find_entry D c)(k := None)" by simp_all
qed

lemma record_remove_tracks:
  assumes "tracks D l T" "T k \<noteq> None"
  shows "tracks D (record_remove D k l) (T(k := None))" "same_epochs l (record_remove D k l)"
    "sequence (record_remove D k l) = sequence l"
proof -
  obtain c e where c: "configured l = Some c" "meta_ok D (unat (sequence l)) c" "find_entry D c = T" "find_entry D c k = Some e"
    using assms by (auto simp: tracks_def)
  have "entry_key e' = k \<longleftrightarrow> e' = e" if "bucket_of D c (fx_hash_one D k) = Some b" "e' \<in> set b" for b e'
    using that c(4) find_entry_iff[OF c(2), of k e'] find_entry_iff[OF c(2), of k e] by auto
  from detach_meta[OF c(2,4) refl, of "\<lambda>e. entry_key e = k", OF this]
  show "tracks D (record_remove D k l) (T(k := None))"
    by (simp add: tracks_def record_remove_def c(1) set_configured_def Let_def c(3))
  show "same_epochs l (record_remove D k l)" "sequence (record_remove D k l) = sequence l"
    by (simp_all add: record_remove_def c(1) set_configured_def Let_def)
qed

lemma record_eviction_tracks:
  assumes "tracks D l T" "T k = Some e"
  shows "tracks D (record_eviction D (make_candidate ep (fx_hash_one D k) e) l) (T(k := None))"
    "same_epochs l (record_eviction D cd l)" "sequence (record_eviction D cd l) = sequence l"
proof -
  obtain c where c: "configured l = Some c" "meta_ok D (unat (sequence l)) c" "find_entry D c = T"
    using assms(1) by (auto simp: tracks_def)
  have e: "find_entry D c k = Some e" using assms(2) c(3) by simp
  have "incarnation e' = incarnation e \<longleftrightarrow> e' = e" if b: "bucket_of D c (fx_hash_one D k) = Some b" "e' \<in> set b" for b e'
  proof -
    have "e \<in> set b" "inj_on incarnation (set b)"
      using find_entryD[OF e] b(1) c(2) by (auto simp: meta_ok_def bucket_ok_def distinct_map)
    then show ?thesis using b(2) by (auto dest: inj_onD)
  qed
  from detach_meta[OF c(2) e refl, of "\<lambda>e'. incarnation e' = incarnation e", OF this]
  show "tracks D (record_eviction D (make_candidate ep (fx_hash_one D k) e) l) (T(k := None))"
    by (simp add: tracks_def record_eviction_def c(1) set_configured_def Let_def c(3) make_candidate_def)
  show "same_epochs l (record_eviction D cd l)" "sequence (record_eviction D cd l) = sequence l"
    by (simp_all add: record_eviction_def c(1) set_configured_def Let_def)
qed

lemma exact_weight_sum:
  assumes "tracks D l T"
  shows "exact_weight l = (\<Sum>k\<in>dom T. entry_weight (the (T k)))"
proof -
  obtain c where c: "configured l = Some c" "meta_ok D (unat (sequence l)) c" "find_entry D c = T"
    using assms(1) by (auto simp: tracks_def)
  have len: "length (stripes c) = STRIPES" using c(2) by (simp add: meta_ok_def)
  have fin: "finite (dom T)" using finite_tracked[OF len] c(3) by simp
  have "exact_weight l = (\<Sum>i<STRIPES. stripe_weight (stripes c ! i))"
    by (simp add: exact_weight_def c(1) sum_list_sum_nth len atLeast0LessThan)
  also have "\<dots> = (\<Sum>i<STRIPES. \<Sum>k | k \<in> dom T \<and> stripe_index (fx_hash_one D k) = i. entry_weight (the (T k)))"
    using c(2,3) by (intro sum.cong) (auto simp: meta_ok_def stripe_sum_def)
  also have "\<dots> = (\<Sum>k\<in>dom T. entry_weight (the (T k)))"
    using sum.group[OF fin, of "{..<STRIPES}" "\<lambda>k. stripe_index (fx_hash_one D k)" "\<lambda>k. entry_weight (the (T k))"]
    by (simp add: image_subset_iff)
  finally show ?thesis .
qed

lemma drain_retired_same:
  "same_stripes (c\<lparr>retired_stripes := 0, stripes := snd (drain_retired_loop w (stripes c) acc)\<rparr>) c"
proof -
  have "map (\<lambda>s. (buckets s, stripe_weight s)) (snd (drain_retired_loop w ss acc)) = map (\<lambda>s. (buckets s, stripe_weight s)) ss" for ss
  proof (induction w ss acc rule: drain_retired_loop.induct)
    case (1 w ss acc)
    have "map (\<lambda>s. (buckets s, stripe_weight s)) (ss[i := (ss ! i)\<lparr>retired := []\<rparr>]) = map (\<lambda>s. (buckets s, stripe_weight s)) ss" for i
      by (cases "i < length ss") (simp_all add: map_update list_update_same_conv list_update_beyond)
    then show ?case using 1 by (subst drain_retired_loop.simps) (simp add: Let_def)
  qed
  then show ?thesis by (simp add: same_stripes_def)
qed

lemma dispatch_tracks [simp]:
  assumes "tracks D l T"
  shows "tracks D (dispatch_callbacks D ev l) T" "same_epochs l (dispatch_callbacks D ev l)"
    "sequence (dispatch_callbacks D ev l) = sequence l"
proof -
  obtain c where c: "configured l = Some c" "meta_ok D (unat (sequence l)) c" "find_entry D c = T"
    using assms(1) by (auto simp: tracks_def)
  obtain ks ss where d: "drain_retired_loop (retired_stripes c) (stripes c) [] = (ks, ss)" by fastforce
  let ?l = "l\<lparr>configured := Some (c\<lparr>retired_stripes := 0, stripes := ss\<rparr>)\<rparr>"
  have dl: "snd (drain_retired l) = ?l" by (simp add: drain_retired_def c(1) d)
  have "tracks D ?l T"
    using meta_cong[OF _ c(2)] drain_retired_same[where c = c and w = "retired_stripes c" and acc = "[]"] c(3) by (simp add: tracks_def d)
  then show "tracks D (dispatch_callbacks D ev l) T" by (auto simp: dispatch_callbacks_def dl Let_def split: option.splits)
  show "same_epochs l (dispatch_callbacks D ev l)" "sequence (dispatch_callbacks D ev l) = sequence l"
    by (auto simp: dispatch_callbacks_def dl Let_def split: option.splits)
qed

end

section \<open>Selection\<close>

text \<open>A candidate is current if it describes an entry the engine still tracks.\<close>

definition current :: "('k, 'v, 'm, 'b) deps \<Rightarrow> ('k, 'v, 'b) lifecycle_state \<Rightarrow> ('k \<Rightarrow> 'k entry option) \<Rightarrow> 'k eviction_candidate \<Rightarrow> bool" where
  "current D l T cd \<longleftrightarrow> (\<exists>k e. T k = Some e \<and> cd = make_candidate (epoch l) (fx_hash_one D k) e)"

lemma cand_key_make [simp]: "cand_key (make_candidate ep h e) = entry_key e"
  by (simp add: make_candidate_def)

lemma min_scan_spec:
  "(case min_scan pol best xs of
      None \<Rightarrow> best = None \<and> xs = []
    | Some x \<Rightarrow> x \<in> set xs \<union> set_option best \<and> (\<forall>y\<in>set xs \<union> set_option best. rank pol x \<le> rank pol y))"
proof (induction xs arbitrary: best)
  case Nil
  then show ?case by (cases best) auto
next
  case (Cons a xs)
  let ?b = "case best of None \<Rightarrow> Some a | Some old \<Rightarrow> if rank pol a < rank pol old then Some a else Some old"
  have b: "set_option ?b \<subseteq> insert a (set_option best)" "\<forall>y\<in>insert a (set_option best). \<exists>z\<in>set_option ?b. rank pol z \<le> rank pol y" "?b \<noteq> None"
    by (auto split: option.splits)
  show ?case
  proof (cases "min_scan pol ?b xs")
    case None
    then show ?thesis using Cons.IH[of ?b] b(3) by simp
  next
    case (Some x)
    then have x: "x \<in> set xs \<union> set_option ?b" "\<forall>y\<in>set xs \<union> set_option ?b. rank pol x \<le> rank pol y"
      using Cons.IH[of ?b] by simp_all
    have "rank pol x \<le> rank pol y" if "y \<in> insert a (set_option best)" for y
      using b(2) that x(2) by (meson UnCI order_trans)
    then show ?thesis using Some x b(1) by auto
  qed
qed

context engine_deps
begin

lemma set_tracked_list:
  assumes ok: "meta_ok D t c"
  shows "(h, e) \<in> set (tracked_list D c) \<longleftrightarrow> h = fx_hash_one D (entry_key e) \<and> find_entry D c (entry_key e) = Some e"
proof -
  have it: "(h, b) \<in> set (hb_iter (stripe_ops D) bs) \<longleftrightarrow> hb_get (stripe_ops D) bs h = Some b" for b bs
    using B.iter_distinct B.iter_map_of by (metis map_of_eq_Some_iff)
  have len: "length (stripes c) = STRIPES" using ok by (simp add: meta_ok_def)
  have "(h, e) \<in> set (tracked_list D c) \<longleftrightarrow>
      (\<exists>i<STRIPES. \<exists>b. hb_get (stripe_ops D) (buckets (stripes c ! i)) h = Some b \<and> e \<in> set b)"
  proof -
    have "(h, e) \<in> set (tracked_list D c) \<longleftrightarrow> (\<exists>s\<in>set (stripes c). \<exists>b. (h, b) \<in> set (hb_iter (stripe_ops D) (buckets s)) \<and> e \<in> set b)"
      by (fastforce simp: tracked_list_def)
    then show ?thesis unfolding it by (simp add: Bex_def in_set_conv_nth len) blast
  qed
  also have "\<dots> \<longleftrightarrow> (\<exists>b. bucket_of D c h = Some b \<and> e \<in> set b)"
    using ok unfolding bucket_of_def meta_ok_def by (metis option.distinct(1) stripe_index_less)
  also have "\<dots> \<longleftrightarrow> h = fx_hash_one D (entry_key e) \<and> find_entry D c (entry_key e) = Some e"
    using ok find_entry_iff[OF ok, of "entry_key e" e] by (auto simp: meta_ok_def bucket_ok_def)
  finally show ?thesis .
qed

lemma set_candidates:
  assumes "tracks D l T" "\<not> dirty l"
  shows "set (candidates D l pol) = Collect (current D l T)" "sorted (map (rank pol) (candidates D l pol))"
    "case minimum_candidate D l pol of None \<Rightarrow> T = Map.empty
      | Some x \<Rightarrow> current D l T x \<and> (\<forall>y. current D l T y \<longrightarrow> rank pol x \<le> rank pol y)"
    "set (candidates_for_keys D l pol ks) = {cd. current D l T cd \<and> cand_key cd \<in> set ks}"
proof -
  obtain c where c: "configured l = Some c" "meta_ok D (unat (sequence l)) c" "find_entry D c = T"
    using assms(1) by (auto simp: tracks_def)
  have key: "T k = Some e \<Longrightarrow> entry_key e = k" for k e using find_entryD[of c k e] c(3) by blast
  let ?xs = "map (\<lambda>(hash, e). make_candidate (epoch l) hash e) (tracked_list D c)"
  have "x \<in> set ?xs \<longleftrightarrow> current D l T x" for x
  proof
    assume "x \<in> set ?xs"
    then obtain h e where "(h, e) \<in> set (tracked_list D c)" "x = make_candidate (epoch l) h e" by auto
    then show "current D l T x" unfolding set_tracked_list[OF c(2)] c(3) by (auto simp: current_def)
  next
    assume "current D l T x"
    then obtain k e where e: "T k = Some e" "x = make_candidate (epoch l) (fx_hash_one D k) e" by (auto simp: current_def)
    then have "(fx_hash_one D k, e) \<in> set (tracked_list D c)" unfolding set_tracked_list[OF c(2)] c(3) using key by auto
    then show "x \<in> set ?xs" using e(2) by force
  qed
  then have xs: "set ?xs = Collect (current D l T)" by blast
  show "set (candidates D l pol) = Collect (current D l T)" "sorted (map (rank pol) (candidates D l pol))"
    using xs assms(2) by (simp_all add: candidates_def c(1))
  have empty: "Collect (current D l T) = {} \<Longrightarrow> T = Map.empty"
    by (rule ext, rule ccontr) (auto simp: current_def)
  show "case minimum_candidate D l pol of None \<Rightarrow> T = Map.empty
      | Some x \<Rightarrow> current D l T x \<and> (\<forall>y. current D l T y \<longrightarrow> rank pol x \<le> rank pol y)"
    using min_scan_spec[where pol = pol and best = None and xs = ?xs] xs empty assms(2) by (auto simp: minimum_candidate_def c(1) split: option.splits)
  show "set (candidates_for_keys D l pol ks) = {cd. current D l T cd \<and> cand_key cd \<in> set ks}"
  proof -
    have "set (candidates_for_keys D l pol ks) = {make_candidate (epoch l) (fx_hash_one D k) e |k e. k \<in> set ks \<and> T k = Some e}"
      using assms(2) by (force simp: candidates_for_keys_def c(1,3) List.map_filter_def image_iff)
    also have "\<dots> = {cd. current D l T cd \<and> cand_key cd \<in> set ks}"
      using key by (auto simp: current_def; blast)
    finally show ?thesis .
  qed
qed

lemma validate_current:
  assumes "tracks D l T" "\<not> dirty l" "current D l T cd"
  shows "validate D l cd"
proof -
  obtain c where c: "configured l = Some c" "meta_ok D (unat (sequence l)) c" "find_entry D c = T"
    using assms(1) by (auto simp: tracks_def)
  obtain k e where e: "T k = Some e" "cd = make_candidate (epoch l) (fx_hash_one D k) e" using assms(3) by (auto simp: current_def)
  then obtain b where "bucket_of D c (fx_hash_one D k) = Some b" "e \<in> set b" using find_entryD[of c k e] c(3) by blast
  then show ?thesis using assms(2) by (auto simp: validate_def c(1) e(2) make_candidate_def list_ex_iff)
qed

lemma current_key:
  assumes "tracks D l T" "current D l T cd"
  obtains e where "T (cand_key cd) = Some e" "cd = make_candidate (epoch l) (fx_hash_one D (cand_key cd)) e"
proof -
  obtain c where c: "find_entry D c = T" using assms(1) by (auto simp: tracks_def)
  obtain k e where e: "T k = Some e" "cd = make_candidate (epoch l) (fx_hash_one D k) e" using assms(2) by (auto simp: current_def)
  then have "cand_key cd = k" using find_entryD[of c k e] c by (auto simp: make_candidate_def)
  then show ?thesis using that e by blast
qed

section \<open>Repair\<close>

lemma stage_entries:
  assumes "meta_ok D (unat (sequence l)) (c\<lparr>stripes := staged\<rparr>)" "find_entry D (c\<lparr>stripes := staged\<rparr>) = T"
    and "distinct (map fst live)" "fst ` set live \<inter> dom T = {}" "unat (sequence l) + length live < 2 ^ 64"
  shows "\<exists>staged' l' T'. fold (stage_entry D c0) live (staged, l) = (staged', l') \<and>
    meta_ok D (unat (sequence l')) (c\<lparr>stripes := staged'\<rparr>) \<and> find_entry D (c\<lparr>stripes := staged'\<rparr>) = T' \<and>
    (\<forall>k. map_option entry_weight (T' k) = (case map_of live k of Some w \<Rightarrow> Some w | None \<Rightarrow> map_option entry_weight (T k))) \<and>
    l' = l\<lparr>sequence := sequence l'\<rparr> \<and> unat (sequence l') = unat (sequence l) + length live"
  using assms
proof (induction live arbitrary: staged l T)
  case Nil
  then show ?case by auto
next
  case (Cons kw live)
  obtain k w where kw: "kw = (k, w)" by fastforce
  define h where "h = fx_hash_one D k"
  define e' where "e' = \<lparr>entry_key = k, incarnation = sequence l,
     inserted = (case find_entry D c0 k of None \<Rightarrow> sequence l | Some e \<Rightarrow> inserted e),
     accessed = (case find_entry D c0 k of None \<Rightarrow> sequence l | Some e \<Rightarrow> accessed e),
     frequency = (case find_entry D c0 k of None \<Rightarrow> 1 | Some e \<Rightarrow> frequency e), entry_weight = w\<rparr>"
  let ?c = "c\<lparr>stripes := staged\<rparr>" and ?s = "staged ! stripe_index h" and ?t = "unat (sequence l)"
  define b where "b = (case bucket_of D ?c h of None \<Rightarrow> [] | Some b \<Rightarrow> b)"
  have seq: "unat (sequence l + 1) = Suc ?t" using Cons.prems(5) by (intro unat_stamp) simp
  have Tk: "T k = None" using Cons.prems(4) kw by auto
  have nin: "entry_key e' \<notin> entry_key ` set b"
    using Tk find_entry_iff[OF Cons.prems(1), of k] Cons.prems(2) by (cases "bucket_of D ?c h") (auto simp: b_def h_def e'_def)
  note ap = bucket_append[OF Cons.prems(1) b_def _ nin, of "Suc ?t"]
  define c1 where "c1 = put_bucket D h (snd (hb_insert (stripe_ops D) (buckets (stripes ?c ! stripe_index h)) h (b @ [e'])))
     (stripe_weight ?s + w) ?c"
  have mp: "meta_ok D (Suc ?t) c1" "find_entry D c1 = (find_entry D ?c)(k \<mapsto> e')"
    unfolding c1_def using ap Cons.prems(1,2) Tk
    by (intro meta_insert[where t = ?t and k = k and e' = e']; simp add: h_def e'_def)+
  define staged1 where "staged1 = staged[stripe_index h := ?s\<lparr>stripe_weight := stripe_weight ?s + w,
      buckets := snd (hb_insert (stripe_ops D) (buckets ?s) h (b @ [e']))\<rparr>]"
  have st: "stage_entry D c0 kw (staged, l) = (staged1, l\<lparr>sequence := sequence l + 1\<rparr>)"
    by (simp add: stage_entry_def kw stamp_def staged1_def b_def bucket_of_def h_def e'_def Let_def split: option.splits)
  have c1: "c1 = c\<lparr>stripes := staged1\<rparr>" by (simp add: c1_def put_bucket_def staged1_def stripe_upd_commute)
  let ?l1 = "l\<lparr>sequence := sequence l + 1\<rparr>"
  have pre: "meta_ok D (unat (sequence ?l1)) (c\<lparr>stripes := staged1\<rparr>)" "find_entry D (c\<lparr>stripes := staged1\<rparr>) = T(k \<mapsto> e')"
    "distinct (map fst live)" "fst ` set live \<inter> dom (T(k \<mapsto> e')) = {}" "unat (sequence ?l1) + length live < 2 ^ 64"
    using mp seq Cons.prems kw unfolding c1 by auto
  obtain staged' l' T' where r: "fold (stage_entry D c0) live (staged1, ?l1) = (staged', l')"
    "meta_ok D (unat (sequence l')) (c\<lparr>stripes := staged'\<rparr>)" "find_entry D (c\<lparr>stripes := staged'\<rparr>) = T'"
    "\<forall>k'. map_option entry_weight (T' k') = (case map_of live k' of Some w \<Rightarrow> Some w | None \<Rightarrow> map_option entry_weight ((T(k \<mapsto> e')) k'))"
    "l' = ?l1\<lparr>sequence := sequence l'\<rparr>" "unat (sequence l') = unat (sequence ?l1) + length live"
    using Cons.IH[OF pre] by blast
  have "map_of live k = None" using Cons.prems(3) kw by (auto simp: map_of_eq_None_iff)
  then have "\<forall>k'. map_option entry_weight (T' k') = (case map_of (kw # live) k' of Some w \<Rightarrow> Some w | None \<Rightarrow> map_option entry_weight (T k'))"
    using r(4) kw by (auto simp: e'_def split: option.splits)
  moreover have "l' = l\<lparr>sequence := sequence l'\<rparr>" by (subst r(5)) simp
  moreover have "unat (sequence l') = unat (sequence l) + length (kw # live)" using r(6) seq by simp
  moreover have "fold (stage_entry D c0) (kw # live) (staged, l) = (staged', l')" using r(1) st by simp
  ultimately show ?case using r(2,3) by blast
qed

lemma reconcile_tracks:
  assumes "configured l = Some c" "length (stripes c) = STRIPES" "distinct (map fst live)"
    "unat (sequence l) + length live < 2 ^ 64"
  shows "\<exists>T. tracks D (reconcile D live l) T \<and> (\<forall>k. map_option entry_weight (T k) = map_of live k)"
    "\<not> dirty (reconcile D live l)" "unat (sequence (reconcile D live l)) = unat (sequence l) + length live"
proof -
  let ?c = "c\<lparr>stripes := replicate STRIPES (stripe_default D)\<rparr>"
  have none: "hb_get (stripe_ops D) (buckets (replicate STRIPES (stripe_default D) ! i)) h = None" if "i < STRIPES" for i h
    using that by (simp add: stripe_default_def B.get_new)
  have bn: "bucket_of D ?c h = None" for h by (simp add: bucket_of_def stripe_default_def B.get_new)
  have T0: "find_entry D ?c = Map.empty" by (rule ext) (simp add: find_entry_def bn)
  have ok0: "meta_ok D (unat (sequence l)) ?c" using none unfolding meta_ok_def bn T0 by (auto simp: stripe_sum_def stripe_default_def)
  have dj: "fst ` set live \<inter> dom Map.empty = {}" by simp
  obtain staged l' T where r: "fold (stage_entry D c) live (replicate STRIPES (stripe_default D), l) = (staged, l')"
    "meta_ok D (unat (sequence l')) (c\<lparr>stripes := staged\<rparr>)" "find_entry D (c\<lparr>stripes := staged\<rparr>) = T"
    "\<forall>k. map_option entry_weight (T k) = (case map_of live k of Some w \<Rightarrow> Some w | None \<Rightarrow> map_option entry_weight ((Map.empty :: 'k \<Rightarrow> 'k entry option) k))"
    "l' = l\<lparr>sequence := sequence l'\<rparr>" "unat (sequence l') = unat (sequence l) + length live"
    using stage_entries[OF ok0 T0 assms(3) dj assms(4), where ?c0.0 = c] by blast
  let ?pub = "map2 (publish_stripe D) (stripes c) staged"
  have len: "length staged = STRIPES" using r(2) by (simp add: meta_ok_def)
  have rec: "reconcile D live l = l'\<lparr>configured := Some (c\<lparr>stripes := ?pub, entries := of_nat (length live),
      retired_stripes := retired_stripes c OR retired_mask 0 ?pub\<rparr>), epoch := epoch l' + 1, repaired_epoch := dirty_epoch l,
      reconciliations := reconciliations l' + 1\<rparr>"
    by (simp add: reconcile_def assms(1) r(1) Let_def)
  have "same_stripes (c\<lparr>stripes := ?pub, entries := of_nat (length live), retired_stripes := rs\<rparr>) (c\<lparr>stripes := staged\<rparr>)" for rs
    using len assms(2) unfolding same_stripes_def by (auto simp: list_eq_iff_nth_eq publish_stripe_def)
  from meta_cong[OF this r(2)] have "tracks D (reconcile D live l) T" by (simp add: tracks_def rec r(3))
  moreover have "map_option entry_weight (T k) = map_of live k" for k
    using r(4)[rule_format, of k] by (simp split: option.splits)
  ultimately show "\<exists>T. tracks D (reconcile D live l) T \<and> (\<forall>k. map_option entry_weight (T k) = map_of live k)" by blast
  have "dirty_epoch l' = dirty_epoch l" by (subst r(5)) simp
  then show "\<not> dirty (reconcile D live l)" by (simp add: rec dirty_def)
  show "unat (sequence (reconcile D live l)) = unat (sequence l) + length live" by (simp add: rec r(6))
qed

end

end
