(* ===== verification/Capacity.thy ===== *)
theory Capacity
  imports Sync_Contract Sync_Entries Engine_Track
begin

text \<open>
  A maintenance pass restores the configured limits. \<open>synced\<close> relates a map and the eviction engine: the engine
  tracks exactly the keys of the view, each with the weight of its value. The hooks keep a map synced, and
  \<open>reconcile\<close> makes any map synced. On a synced map a pass that ends has evicted every candidate that
  still had to go, so no limit is exceeded afterwards, and with a limit on entries or weight alone
  the victims are the entries the policy ranks lowest.
\<close>

section \<open>A map and its metadata\<close>

definition synced_by ::
  "('k, 'v, 'm, 'b) deps \<Rightarrow> ('k, 'v, 'm, 'b) sharded_map \<Rightarrow> ('k \<Rightarrow> 'k entry option) \<Rightarrow> bool" where
  "synced_by D m T \<longleftrightarrow> tracks D (lifecycle m) T \<and> \<not> dirty (lifecycle m) \<and>
     (\<forall>k. map_option entry_weight (T k) = map_option (weight (lifecycle m) k) (view D m k))"

definition shard_load :: "('k, 'v, 'm, 'b) deps \<Rightarrow> ('k, 'v, 'm, 'b) sharded_map \<Rightarrow> nat \<Rightarrow> nat" where
  "shard_load D m i = card {k \<in> dom (view D m). route D (length (shards m)) k = i}"

definition total_weight :: "('k, 'v, 'm, 'b) deps \<Rightarrow> ('k, 'v, 'm, 'b) sharded_map \<Rightarrow> nat" where
  "total_weight D m = (\<Sum>k\<in>dom (view D m). weight (lifecycle m) k (the (view D m k)))"

text \<open>The limits of one pass, and why a key may still have to go.\<close>

definition pass_limits ::
  "('k, 'v, 'm, 'b) deps \<Rightarrow> nat option \<Rightarrow> nat option \<Rightarrow> ('k, 'v, 'm, 'b) sharded_map \<Rightarrow> bool" where
  "pass_limits D target per_limit m \<longleftrightarrow> \<not> over_target m target \<and>
     (\<forall>budget. memory_budget (lifecycle m) = Some budget \<longrightarrow> total_weight D m \<le> budget) \<and>
     (\<forall>lim i. per_limit = Some lim \<longrightarrow> shard_load D m i \<le> lim)"

definition needed ::
  "('k, 'v, 'm, 'b) deps \<Rightarrow> nat option \<Rightarrow> nat option \<Rightarrow> ('k, 'v, 'm, 'b) sharded_map \<Rightarrow> 'k \<Rightarrow> bool" where
  "needed D target per_limit m k \<longleftrightarrow> over_target m target \<or> over_memory_budget (lifecycle m) \<or>
     (\<exists>lim. per_limit = Some lim \<and> lim < shard_load D m (route D (length (shards m)) k))"

lemma weight_cong: "life_opts l' = life_opts l \<Longrightarrow> weight l' = weight l"
  by (simp add: fun_eq_iff weight_opts)

text \<open>
  The result of a run over the candidates \<open>cs\<close>: the map is synced, every candidate that would still have to go is
  gone, and if the condition does not depend on the shard, the victims are among a prefix of \<open>cs\<close> that is gone.
\<close>

definition run_ok ::
  "('k, 'v, 'm, 'b) deps \<Rightarrow> nat option \<Rightarrow> nat option \<Rightarrow> 'k eviction_candidate list \<Rightarrow> ('k, 'v, 'm, 'b) sharded_map \<Rightarrow>
   ('k, 'v, 'm, 'b) sharded_map \<Rightarrow> bool" where
  "run_ok D target per_limit cs m m' \<longleftrightarrow>
     (\<exists>T. synced_by D m' T) \<and> sequence (lifecycle m') = sequence (lifecycle m) \<and>
     (\<forall>c\<in>set cs. needed D target per_limit m' (cand_key c) \<longrightarrow> view D m' (cand_key c) = None) \<and>
     (per_limit = None \<longrightarrow> (\<exists>n. (\<forall>c\<in>set (take n cs). view D m' (cand_key c) = None) \<and>
        (\<forall>k. view D m k \<noteq> None \<and> view D m' k = None \<longrightarrow> k \<in> cand_key ` set (take n cs))))"

lemma run_ok_skip:
  assumes "run_ok D target per_limit cs m m'" "needed D target per_limit m' (cand_key c) \<Longrightarrow> view D m' (cand_key c) = None"
    "per_limit = None \<Longrightarrow> view D m' (cand_key c) = None"
  shows "run_ok D target per_limit (c # cs) m m'"
proof -
  have "\<exists>n. (\<forall>x\<in>set (take n (c # cs)). view D m' (cand_key x) = None) \<and>
      (\<forall>k. view D m k \<noteq> None \<and> view D m' k = None \<longrightarrow> k \<in> cand_key ` set (take n (c # cs)))" if none: "per_limit = None"
  proof -
    obtain n where "\<forall>x\<in>set (take n cs). view D m' (cand_key x) = None"
      "\<forall>k. view D m k \<noteq> None \<and> view D m' k = None \<longrightarrow> k \<in> cand_key ` set (take n cs)"
      using assms(1) none unfolding run_ok_def by blast
    then show ?thesis using assms(3)[OF none] by (intro exI[of _ "Suc n"]) auto
  qed
  then show ?thesis using assms(1,2) by (simp add: run_ok_def)
qed

lemma run_ok_step:
  assumes "run_ok D target per_limit cs m2 m'" "sequence (lifecycle m2) = sequence (lifecycle m)"
    "view D m2 = (view D m)(cand_key c := None)" "view D m' (cand_key c) = None"
  shows "run_ok D target per_limit (c # cs) m m'"
proof -
  have "\<exists>n. (\<forall>x\<in>set (take n (c # cs)). view D m' (cand_key x) = None) \<and>
      (\<forall>k. view D m k \<noteq> None \<and> view D m' k = None \<longrightarrow> k \<in> cand_key ` set (take n (c # cs)))" if none: "per_limit = None"
  proof -
    obtain n where n: "\<forall>x\<in>set (take n cs). view D m' (cand_key x) = None"
      "\<forall>k. view D m2 k \<noteq> None \<and> view D m' k = None \<longrightarrow> k \<in> cand_key ` set (take n cs)"
      using assms(1) none unfolding run_ok_def by blast
    have "k \<in> cand_key ` set (take (Suc n) (c # cs))" if "view D m k \<noteq> None" "view D m' k = None" for k
      using n(2)[rule_format, of k] that assms(3) by (cases "k = cand_key c") auto
    then show ?thesis using n(1) assms(4) by (intro exI[of _ "Suc n"]) auto
  qed
  then show ?thesis using assms by (simp add: run_ok_def)
qed

lemma map_of_map_key: "map_of (map (\<lambda>(k, v). (k, f k v)) xs) k = map_option (f k) (map_of xs k)"
  by (induction xs) auto

sublocale starshard_deps \<subseteq> engine: engine_deps D
  by unfold_locales

context starshard_deps
begin

lemma tracks_key: "tracks D l T \<Longrightarrow> T k = Some e \<Longrightarrow> entry_key e = k"
  unfolding tracks_def using engine.find_entryD by metis

lemma synced_dom: "synced_by D m T \<Longrightarrow> T k = None \<longleftrightarrow> view D m k = None"
  unfolding synced_by_def by (metis option.map_disc_iff)

lemma synced_weight:
  assumes "synced_by D m T"
  shows "exact_weight (lifecycle m) = total_weight D m"
proof -
  have dom: "dom T = dom (view D m)" using synced_dom[OF assms] by (simp add: dom_def)
  have "entry_weight (the (T k)) = weight (lifecycle m) k (the (view D m k))" if "k \<in> dom T" for k
    using assms that unfolding synced_by_def by (metis domIff option.exhaust_sel option.map_sel synced_dom[OF assms])
  then show ?thesis
    using engine.exact_weight_sum[of "lifecycle m" T] assms unfolding synced_by_def total_weight_def dom[symmetric] by simp
qed

lemma unat_len:
  assumes "wf_map D m" "card (dom (view D m)) < 2 ^ 64"
  shows "unat (len m) = card (dom (view D m))"
  using assms by (simp add: len_card unat_of_nat take_bit_nat_eq_self)

text \<open>Fewer entries are never further over a limit.\<close>

lemma needed_mono:
  assumes wf: "wf_map D m" "wf_map D m'" and sy: "synced_by D m T" "synced_by D m' T'" and sub: "view D m' \<subseteq>\<^sub>m view D m"
    and meta: "same_meta m m'" "life_opts (lifecycle m') = life_opts (lifecycle m)" and b: "card (dom (view D m)) < 2 ^ 64"
    and n: "needed D target per_limit m' k"
  shows "needed D target per_limit m k"
proof -
  have fin: "finite (dom (view D m))" using finite_dom_view wf(1) by (simp add: wf_map_def)
  have dom: "dom (view D m') \<subseteq> dom (view D m)" using sub by (rule map_le_implies_dom_le)
  have len: "unat (len m') \<le> unat (len m)"
    using unat_len[OF wf(1) b] unat_len[OF wf(2)] card_mono[OF fin dom] b by simp
  have w: "exact_weight (lifecycle m') \<le> exact_weight (lifecycle m)"
  proof -
    have "total_weight D m' = (\<Sum>k\<in>dom (view D m'). weight (lifecycle m) k (the (view D m k)))"
      unfolding total_weight_def using sub weight_cong[OF meta(2)] by (intro sum.cong) (auto simp: map_le_def)
    also have "\<dots> \<le> total_weight D m" unfolding total_weight_def by (rule sum_mono2[OF fin dom]) simp
    finally show ?thesis using synced_weight[OF sy(1)] synced_weight[OF sy(2)] by simp
  qed
  have ld: "shard_load D m' i \<le> shard_load D m i" for i
    using meta(1) dom fin unfolding shard_load_def same_meta_def by (intro card_mono) auto
  show ?thesis
    using n len w ld[of "route D (length (shards m)) k"] meta
    by (auto simp: needed_def over_target_def over_memory_budget_def memory_budget_opts same_meta_def split: option.splits)
qed

lemma synced_commit:
  assumes sy: "synced_by D m T" and e: "T k = Some e" and m1: "lifecycle m1 = lifecycle m" "view D m1 = (view D m)(k := None)"
    and c: "c = make_candidate (epoch (lifecycle m)) (fx_hash_one D k) e"
  shows "synced_by D (commit_eviction D c m1) (T(k := None))" "epoch (lifecycle (commit_eviction D c m1)) = epoch (lifecycle m)"
    "sequence (lifecycle (commit_eviction D c m1)) = sequence (lifecycle m)"
proof -
  have tr: "tracks D (lifecycle m) T" using sy by (simp add: synced_by_def)
  note r = engine.record_eviction_tracks[OF tr e]
  show "epoch (lifecycle (commit_eviction D c m1)) = epoch (lifecycle m)"
    "sequence (lifecycle (commit_eviction D c m1)) = sequence (lifecycle m)" using r(2,3)[of c] m1(1) by simp_all
  have "weight (record_eviction D c (lifecycle m)) = weight (lifecycle m)" by (rule weight_cong) simp
  then show "synced_by D (commit_eviction D c m1) (T(k := None))"
    using r(1)[of "epoch (lifecycle m)"] r(2)[of c] sy m1 unfolding c[symmetric] by (simp add: synced_by_def dirty_def)
qed

section \<open>The loop over the candidates\<close>

text \<open>Removing one current candidate: the step of the exclusive path.\<close>

lemma evict_step:
  assumes wf: "wf_map D m" and sy: "synced_by D m T" and cur: "current D (lifecycle m) T c"
    and m1: "lifecycle m1 = lifecycle m" "view D m1 = (view D m)(cand_key c := None)"
  obtains e where "T (cand_key c) = Some e" "synced_by D (commit_eviction D c m1) (T(cand_key c := None))"
    "epoch (lifecycle (commit_eviction D c m1)) = epoch (lifecycle m)"
    "sequence (lifecycle (commit_eviction D c m1)) = sequence (lifecycle m)"
proof -
  have tr: "tracks D (lifecycle m) T" using sy by (simp add: synced_by_def)
  obtain e where e: "T (cand_key c) = Some e" "c = make_candidate (epoch (lifecycle m)) (fx_hash_one D (cand_key c)) e"
    using engine.current_key[OF tr cur] by blast
  show ?thesis by (rule that[OF e(1) synced_commit[OF sy e(1) m1 e(2)]])
qed

lemma current_upd: "current D l T c \<Longrightarrow> tracks D l T \<Longrightarrow> epoch l' = epoch l \<Longrightarrow> cand_key c \<noteq> k \<Longrightarrow> current D l' (T(k := None)) c"
  using engine.current_key[of l T c] unfolding current_def by (metis fun_upd_other)

lemma shard_load_remove:
  assumes "wf_dirs D m" "view D m k = Some v" "view D m1 = (view D m)(k := None)" "length (shards m1) = length (shards m)"
  shows "shard_load D m1 i = (if route D (length (shards m)) k = i then shard_load D m i - 1 else shard_load D m i)"
proof -
  let ?S = "\<lambda>m. {k \<in> dom (view D m). route D (length (shards m)) k = i}"
  have fin: "finite (?S m)" using finite_dom_view[OF assms(1)] by simp
  have S: "?S m1 = ?S m - {k}" using assms(3,4) by auto
  show ?thesis
  proof (cases "route D (length (shards m)) k = i")
    case True
    then have "k \<in> ?S m" using assms(2) by auto
    then show ?thesis using True fin unfolding shard_load_def S by (simp add: card_Diff_singleton)
  next
    case False
    then have "?S m - {k} = ?S m" by auto
    then show ?thesis using False unfolding shard_load_def S by simp
  qed
qed

lemma evict_loop_run:
  assumes "wf_map D m" "synced_by D m T" "card (dom (view D m)) < 2 ^ 64"
    "\<forall>c\<in>set cs. current D (lifecycle m) T c \<or> view D m (cand_key c) = None"
    "per_limit \<noteq> None \<Longrightarrow> length counts = shard_count m \<and> (\<forall>i < shard_count m. counts ! i = shard_load D m i)"
    "ow = over_memory_budget (lifecycle m)" "evict_loop D target per_limit cs ow counts ev m = Some (ev', m')"
  shows "run_ok D target per_limit cs m m'"
  using assms
proof (induction cs arbitrary: ow counts ev m T)
  case Nil
  then show ?case by (auto simp: run_ok_def)
next
  case (Cons c cs)
  note wf = Cons.prems(1) and sy = Cons.prems(2) and b = Cons.prems(3) and cs = Cons.prems(4) and ct = Cons.prems(5)
    and ow = Cons.prems(6) and run = Cons.prems(7)
  let ?k = "cand_key c" and ?i = "route D (length (shards m)) (cand_key c)"
  have wd: "wf_dirs D m" using wf by (simp add: wf_map_def)
  have tr: "tracks D (lifecycle m) T" "\<not> dirty (lifecycle m)" using sy by (simp_all add: synced_by_def)
  have i: "?i < length (shards m)" by (rule route_less[OF wf_dirsD(1)[OF wd]])
  obtain ev1 where ev: "evicted_by D ev1 m m'"
    using evict_loop_spec[OF wf, of per_limit counts target "c # cs" ow ev] ct run by auto
  have sub: "view D m' k = None" if "view D m k = None" for k
    using evicted_by_subset[OF ev] that by (metis domIff map_le_implies_dom_le subsetD)
  have os: "over_shard per_limit counts ?i = Some (\<exists>lim. per_limit = Some lim \<and> lim < shard_load D m ?i)"
    using ct i wf_dirsD(2)[OF wd] by (cases per_limit) (auto simp: over_shard_def)
  have nd: "needed D target per_limit m ?k \<longleftrightarrow> over_target m target \<or> ow \<or> (\<exists>lim. per_limit = Some lim \<and> lim < shard_load D m ?i)"
    by (auto simp: needed_def ow)
  show ?case
  proof (cases "per_limit = None \<and> \<not> over_target m target \<and> \<not> ow")
    case True
    then have "m' = m" using run by simp
    then show ?thesis using True sy ow by (auto simp: run_ok_def needed_def intro!: exI[of _ 0])
  next
    case False
    show ?thesis
    proof (cases "needed D target per_limit m ?k \<and> view D m ?k \<noteq> None")
      case skip: False
      have "evict_loop D target per_limit cs ow counts ev m = Some (ev', m')"
        using run False skip nd os remove_victim_spec(1)[OF wd]
        by (auto simp: shard_index_wf[OF wd] split: if_splits)
      then have r: "run_ok D target per_limit cs m m'" using Cons.IH[OF wf sy b _ ct ow] cs by simp
      obtain T' where "synced_by D m' T'" using r by (auto simp: run_ok_def)
      then have "needed D target per_limit m' ?k \<Longrightarrow> needed D target per_limit m ?k"
        using needed_mono[OF wf _ sy _ evicted_by_subset[OF ev] _ _ b] evicted_byD[OF ev] by blast
      then show ?thesis using run_ok_skip[OF r] skip sub False nd by blast
    next
      case go: True
      then obtain v where v: "view D m ?k = Some v" by auto
      have cur: "current D (lifecycle m) T c" using cs v by auto
      have val: "validate D (lifecycle m) c" by (rule engine.validate_current[OF tr cur])
      obtain m1 where m1: "remove_victim D ?k ?i m = Some (Some (v, m1))" "wf_dirs D m1"
        "view D m1 = (view D m)(?k := None)" "stored_len D m = Suc (stored_len D m1)" "same_meta m m1" "same_counters m m1"
        using remove_victim_spec(2)[OF wd v] by blast
      let ?m2 = "commit_eviction D c m1"
      have e: "evicted_by D [(?k, v)] m ?m2" using commit_eviction_evicted[OF wf v m1(5,6,2-4)] .
      have l1: "lifecycle m1 = lifecycle m" using m1(6) by (simp add: same_counters_def)
      obtain st: "synced_by D ?m2 (T(?k := None))" "epoch (lifecycle ?m2) = epoch (lifecycle m)"
        "sequence (lifecycle ?m2) = sequence (lifecycle m)" using evict_step[OF wf sy cur l1 m1(3)] by blast
      have v2: "view D ?m2 = (view D m)(?k := None)" using m1(3) by simp
      have w2: "wf_map D ?m2" "same_meta m ?m2" "life_opts (lifecycle ?m2) = life_opts (lifecycle m)" using evicted_byD[OF e] by auto
      define ow' counts' where "ow' = (if ow then over_memory_budget (lifecycle ?m2) else ow)" and
        "counts' = (if per_limit \<noteq> None then counts[?i := counts ! ?i - 1] else counts)"
      have run2: "evict_loop D target per_limit cs ow' counts' (ev @ [(?k, v)]) ?m2 = Some (ev', m')"
        using run False go nd os val m1(1) by (auto simp: shard_index_wf[OF wd] Let_def ow'_def counts'_def)
      have ow2: "ow' = over_memory_budget (lifecycle ?m2)"
        using needed_mono[OF wf w2(1) sy st(1) evicted_by_subset[OF e] w2(2,3) b, of None None ?k] ow
        by (auto simp: ow'_def needed_def over_target_def)
      have b2: "card (dom (view D ?m2)) < 2 ^ 64"
        using card_mono[OF finite_dom_view[OF wd] map_le_implies_dom_le[OF evicted_by_subset[OF e]]] b by simp
      have cs2: "\<forall>c'\<in>set cs. current D (lifecycle ?m2) (T(?k := None)) c' \<or> view D ?m2 (cand_key c') = None"
        using cs current_upd[OF _ tr(1) st(2)] v2 by (metis fun_upd_apply list.set_intros(2))
      have ct2: "length counts' = shard_count ?m2 \<and> (\<forall>j < shard_count ?m2. counts' ! j = shard_load D ?m2 j)" if "per_limit \<noteq> None"
        using ct[OF that] that i w2(2) wf_dirsD(2)[OF wd] shard_load_remove[OF wd v v2] unfolding same_meta_def
        by (auto simp: counts'_def nth_list_update)
      obtain ev2 where "evicted_by D ev2 ?m2 m'"
        using evict_loop_spec[OF w2(1), of per_limit counts' target cs ow' "ev @ [(?k, v)]"] ct2 run2 by auto
      from map_le_implies_dom_le[OF evicted_by_subset[OF this]] have "view D m' ?k = None" using v2 by auto
      moreover have "run_ok D target per_limit cs ?m2 m'" using Cons.IH[OF w2(1) st(1) b2 cs2 _ ow2 run2] ct2 by blast
      ultimately show ?thesis using run_ok_step[OF _ st(3) v2] by blast
    qed
  qed
qed

lemma run_ok_limits:
  assumes r: "run_ok D target per_limit cs m m'" and wf: "wf_map D m'" and b: "card (dom (view D m')) < 2 ^ 64"
    and all: "\<And>k. view D m' k \<noteq> None \<Longrightarrow> k \<in> cand_key ` set cs"
  shows "pass_limits D target per_limit m'"
proof -
  obtain T where sy: "synced_by D m' T" using r by (auto simp: run_ok_def)
  have n: "\<not> needed D target per_limit m' k" if "view D m' k \<noteq> None" for k
    using r all[OF that] that by (auto simp: run_ok_def)
  have fin: "finite (dom (view D m'))" using finite_dom_view wf by (simp add: wf_map_def)
  have g: "\<not> over_target m' target \<and> \<not> over_memory_budget (lifecycle m')"
  proof (cases "view D m' = Map.empty")
    case True
    then have "len m' = 0" "exact_weight (lifecycle m') = 0"
      using len_card[OF wf] synced_weight[OF sy] by (simp_all add: total_weight_def)
    then show ?thesis by (simp add: over_target_def over_memory_budget_def split: option.splits)
  next
    case False
    then obtain k where "view D m' k \<noteq> None" by (auto simp: fun_eq_iff)
    from n[OF this] show ?thesis by (simp add: needed_def)
  qed
  have "shard_load D m' i \<le> lim" if "per_limit = Some lim" for lim i
  proof (cases "shard_load D m' i = 0")
    case False
    then have "{k \<in> dom (view D m'). route D (length (shards m')) k = i} \<noteq> {}" by (metis card.empty shard_load_def)
    then obtain k where "view D m' k \<noteq> None" "route D (length (shards m')) k = i" by blast
    with n[OF this(1)] that show ?thesis by (auto simp: needed_def)
  qed simp
  then show ?thesis
    using g synced_weight[OF sy] by (auto simp: pass_limits_def over_memory_budget_def split: option.splits)
qed

section \<open>The exclusive path\<close>

lemma synced_frame:
  assumes "synced_by D m T" "tracks D l T" "same_epochs (lifecycle m) l" "life_opts l = life_opts (lifecycle m)"
  shows "synced_by D (m\<lparr>lifecycle := l\<rparr>) T"
  using assms weight_cong[OF assms(4)] by (simp add: synced_by_def dirty_def)

lemma synced_marks:
  assumes "synced_by D m T"
  shows "synced_by D (m\<lparr>lifecycle := mutation (lifecycle m)\<rparr>) T"
    "synced_by D (m\<lparr>lifecycle := mark_maintained ob (lifecycle m)\<rparr>) T"
    "synced_by D (m\<lparr>lifecycle := dispatch_callbacks D ev (lifecycle m)\<rparr>) T"
    "synced_by D (m\<lparr>lifecycle := dispatch_callbacks D ev (record_eviction_duration d (lifecycle m))\<rparr>) T"
proof -
  have tr: "tracks D (lifecycle m) T" using assms by (simp add: synced_by_def)
  then have tr': "tracks D (record_eviction_duration d (lifecycle m)) T" by simp
  show "synced_by D (m\<lparr>lifecycle := mutation (lifecycle m)\<rparr>) T"
    "synced_by D (m\<lparr>lifecycle := mark_maintained ob (lifecycle m)\<rparr>) T"
    "synced_by D (m\<lparr>lifecycle := dispatch_callbacks D ev (lifecycle m)\<rparr>) T"
    "synced_by D (m\<lparr>lifecycle := dispatch_callbacks D ev (record_eviction_duration d (lifecycle m))\<rparr>) T"
    using engine.dispatch_tracks[OF tr, of ev] engine.dispatch_tracks[OF tr', of ev] tr
    by (intro synced_frame[OF assms]; simp)+
qed

lemma live_weights_eq: "live_weights D m = map (\<lambda>(k, v). (k, weight (lifecycle m) k v)) (stored_entries D m)"
  by (simp add: live_weights_def stored_entries_def map_concat comp_def)

lemma live_weights_spec:
  assumes "wf_dirs D m"
  shows "distinct (map fst (live_weights D m))" "map_of (live_weights D m) k = map_option (weight (lifecycle m) k) (view D m k)"
    "length (live_weights D m) = card (dom (view D m))"
proof -
  note s = stored_entries_spec[OF assms]
  have "map fst (live_weights D m) = map fst (stored_entries D m)" by (simp add: live_weights_eq comp_def split_def)
  then show "distinct (map fst (live_weights D m))" using s(1) by simp
  show "map_of (live_weights D m) k = map_option (weight (lifecycle m) k) (view D m k)"
    unfolding live_weights_eq s(2)[symmetric] by (rule map_of_map_key)
  show "length (live_weights D m) = card (dom (view D m))" by (simp add: live_weights_eq s(3) stored_len_card[OF assms])
qed

end

text \<open>
  What a pass needs of the engine: clean metadata is in sync with the map; dirty metadata may be anything, as long as
  the sequence has room for the stamps of a repair.
\<close>

definition engine_ok :: "('k, 'v, 'm, 'b) deps \<Rightarrow> ('k, 'v, 'm, 'b) sharded_map \<Rightarrow> bool" where
  "engine_ok D m \<longleftrightarrow> (if dirty (lifecycle m)
     then (\<exists>c. configured (lifecycle m) = Some c \<and> length (stripes c) = STRIPES) \<and>
       unat (sequence (lifecycle m)) + card (dom (view D m)) < 2 ^ 64
     else \<exists>T. synced_by D m T)"

context starshard_deps
begin

lemma reconcile_synced:
  assumes wf: "wf_map D m" and ok: "engine_ok D m"
  defines "m1 \<equiv> reconcile_eviction_metadata D (m\<lparr>lifecycle := mutation (lifecycle m)\<rparr>)"
  shows "\<exists>l. m1 = m\<lparr>lifecycle := l\<rparr> \<and> life_opts l = life_opts (lifecycle m) \<and>
    unat (sequence l) \<le> unat (sequence (lifecycle m)) + card (dom (view D m))" "\<exists>T. synced_by D m1 T"
    "\<not> dirty (lifecycle m) \<Longrightarrow> synced_by D m T \<Longrightarrow> synced_by D m1 T \<and> sequence (lifecycle m1) = sequence (lifecycle m)"
proof -
  let ?l0 = "mutation (lifecycle m)" and ?m0 = "m\<lparr>lifecycle := mutation (lifecycle m)\<rparr>"
  have wd: "wf_dirs D m" using wf by (simp add: wf_map_def)
  have dl: "dirty ?l0 = dirty (lifecycle m)" by (simp add: dirty_def)
  note clean = synced_marks(1)
  have "(\<exists>l. m1 = m\<lparr>lifecycle := l\<rparr> \<and> life_opts l = life_opts (lifecycle m) \<and>
    unat (sequence l) \<le> unat (sequence (lifecycle m)) + card (dom (view D m))) \<and> (\<exists>T. synced_by D m1 T)"
  proof (cases "dirty (lifecycle m)")
    case False
    then show ?thesis using clean ok dl unfolding m1_def by (auto simp: reconcile_eviction_metadata_def engine_ok_def)
  next
    case True
    let ?l1 = "mutation ?l0" and ?m2 = "m\<lparr>lifecycle := mutation (mutation (lifecycle m))\<rparr>"
    let ?live = "live_weights D ?m2"
    obtain c where c: "configured ?l1 = Some c" "length (stripes c) = STRIPES"
      using ok True by (auto simp: engine_ok_def mutation_def mark_pending_def enabled_def)
    note lw = live_weights_spec[of ?m2]
    note rt = engine.reconcile_tracks[OF c, of ?live]
    have m1: "m1 = m\<lparr>lifecycle := reconcile D ?live ?l1\<rparr>"
      using True dl by (simp add: m1_def reconcile_eviction_metadata_def Let_def)
    have "weight (reconcile D ?live ?l1) = weight (lifecycle ?m2)" by (rule weight_cong) simp
    then show ?thesis
      using rt lw wd ok True by (auto simp: m1 synced_by_def engine_ok_def)
  qed
  then show "\<exists>l. m1 = m\<lparr>lifecycle := l\<rparr> \<and> life_opts l = life_opts (lifecycle m) \<and>
    unat (sequence l) \<le> unat (sequence (lifecycle m)) + card (dom (view D m))" "\<exists>T. synced_by D m1 T" by blast+
  show "synced_by D m1 T \<and> sequence (lifecycle m1) = sequence (lifecycle m)" if "\<not> dirty (lifecycle m)" "synced_by D m T"
    using that clean dl by (simp add: m1_def reconcile_eviction_metadata_def)
qed

lemma count_keys_filter:
  assumes "wf_dirs D m" "count_keys D m ks counts = Some counts'" "length counts = length (shards m)"
  shows "length counts' = length (shards m) \<and>
    (\<forall>i < length (shards m). counts' ! i = counts ! i + length (filter (\<lambda>k. route D (length (shards m)) k = i) ks))"
  using assms(2,3)
proof (induction ks arbitrary: counts)
  case (Cons k ks)
  let ?i = "route D (length (shards m)) k"
  have i: "?i < length counts" using Cons.prems(2) route_less[OF wf_dirsD(1)[OF assms(1)]] by simp
  have "count_keys D m ks (counts[?i := counts ! ?i + 1]) = Some counts'"
    using Cons.prems i by (simp add: shard_index_wf[OF assms(1)])
  from Cons.IH[OF this] Cons.prems(2) i show ?case by (auto simp: nth_list_update)
qed simp

lemma count_stored:
  assumes wd: "wf_dirs D m" and c: "count_keys D m (stored_keys D m) (replicate (shard_count m) 0) = Some counts"
  shows "length counts = shard_count m \<and> (\<forall>i < shard_count m. counts ! i = shard_load D m i)"
proof -
  note s = stored_entries_spec[OF wd]
  have ks: "stored_keys D m = map fst (stored_entries D m)" by (simp add: stored_keys_def stored_entries_def map_concat comp_def)
  have "set (stored_keys D m) = dom (view D m)" unfolding ks s(2)[symmetric] by (simp add: dom_map_of_conv_image_fst)
  then have "length (filter (\<lambda>k. route D (length (shards m)) k = i) (stored_keys D m)) = shard_load D m i" for i
    using s(1) unfolding ks shard_load_def by (subst distinct_card[symmetric]) (auto intro!: arg_cong[where f = card])
  then show ?thesis using count_keys_filter[OF wd c] wf_dirsD(2)[OF wd] by simp
qed

text \<open>Which entries the policy gives up first.\<close>

end

definition entry_rank :: "capacity_policy \<Rightarrow> 'k entry \<Rightarrow> u64 \<times> u64 \<times> u64" where
  "entry_rank pol e = policy_rank pol (inserted e) (accessed e) (frequency e) (incarnation e)"

definition victims_lowest ::
  "('k, 'v, 'm, 'b) deps \<Rightarrow> capacity_policy \<Rightarrow> ('k \<Rightarrow> 'k entry option) \<Rightarrow> ('k, 'v, 'm, 'b) sharded_map \<Rightarrow>
   ('k, 'v, 'm, 'b) sharded_map \<Rightarrow> bool" where
  "victims_lowest D pol T m m' \<longleftrightarrow>
     (\<forall>k k' e e'. view D m k \<noteq> None \<and> view D m' k = None \<and> view D m' k' \<noteq> None \<and> T k = Some e \<and> T k' = Some e' \<longrightarrow>
        entry_rank pol e \<le> entry_rank pol e')"

text \<open>The candidates an exclusive pass selects.\<close>

definition exclusive_candidates ::
  "('k, 'v, 'm, 'b) deps \<Rightarrow> nat option \<Rightarrow> nat option \<Rightarrow> capacity_policy \<Rightarrow> ('k, 'v, 'm, 'b) sharded_map \<Rightarrow>
   'k eviction_candidate list" where
  "exclusive_candidates D target per_limit pol m =
     (if per_limit \<noteq> None \<or> over_target m target \<or> over_memory_budget (lifecycle m)
      then (if per_limit = None \<and> memory_budget (lifecycle m) = None \<and>
               (case target of None \<Rightarrow> False | Some t \<Rightarrow> t \<le> unat (len m) \<and> unat (len m) - t = 1)
            then (case minimum_candidate D (lifecycle m) pol of None \<Rightarrow> [] | Some c \<Rightarrow> [c])
            else candidates D (lifecycle m) pol)
      else [])"

lemma rank_make [simp]: "rank pol (make_candidate ep h e) = entry_rank pol e"
  by (simp add: rank_def make_candidate_def entry_rank_def)

context starshard_deps
begin

lemma run_ok_lowest:
  assumes sy: "synced_by D m T" and r: "run_ok D target None cs m m'"
    and cur: "\<forall>c\<in>set cs. current D (lifecycle m) T c"
    and lowest: "\<And>n c y. c \<in> set (take n cs) \<Longrightarrow> current D (lifecycle m) T y \<Longrightarrow> y \<notin> set (take n cs) \<Longrightarrow> rank pol c \<le> rank pol y"
  shows "victims_lowest D pol T m m'"
  unfolding victims_lowest_def
proof (intro allI impI)
  fix k k' e e'
  assume a: "view D m k \<noteq> None \<and> view D m' k = None \<and> view D m' k' \<noteq> None \<and> T k = Some e \<and> T k' = Some e'"
  obtain n where n: "\<forall>c\<in>set (take n cs). view D m' (cand_key c) = None"
    "\<forall>k. view D m k \<noteq> None \<and> view D m' k = None \<longrightarrow> k \<in> cand_key ` set (take n cs)"
    using r by (auto simp: run_ok_def)
  have tr: "tracks D (lifecycle m) T" using sy by (simp add: synced_by_def)
  obtain c where c: "c \<in> set (take n cs)" "cand_key c = k" using n(2) a by blast
  then have "current D (lifecycle m) T c" using cur in_set_takeD by fast
  then have rc: "rank pol c = entry_rank pol e" using engine.current_key[OF tr] c(2) a by (metis option.inject rank_make)
  let ?y = "make_candidate (epoch (lifecycle m)) (fx_hash_one D k') e'"
  have y: "current D (lifecycle m) T ?y" using a by (auto simp: current_def)
  then have "cand_key ?y = k'" using a tracks_key[OF tr] by simp
  then have "?y \<notin> set (take n cs)" using n(1) a by metis
  from lowest[OF c(1) y this] show "entry_rank pol e \<le> entry_rank pol e'" using rc by simp
qed

text \<open>The candidates of an exclusive pass and what a run over them achieves.\<close>

lemma exclusive_candidates_cases:
  obtains (none) "exclusive_candidates D target per_limit pol m = []" "per_limit = None" "\<not> over_target m target"
      "\<not> over_memory_budget (lifecycle m)"
  | (one) t where "per_limit = None" "memory_budget (lifecycle m) = None" "target = Some t" "unat (len m) = Suc t"
      "exclusive_candidates D target per_limit pol m = (case minimum_candidate D (lifecycle m) pol of None \<Rightarrow> [] | Some c \<Rightarrow> [c])"
  | (all) "exclusive_candidates D target per_limit pol m = candidates D (lifecycle m) pol"
proof -
  define one where "one \<longleftrightarrow> (\<exists>t. target = Some t \<and> unat (len m) = Suc t)"
  have "(case target of None \<Rightarrow> False | Some t \<Rightarrow> t \<le> unat (len m) \<and> unat (len m) - t = 1) \<longleftrightarrow> one"
    unfolding one_def by (cases target) auto
  note ex = exclusive_candidates_def[of D target per_limit pol m, unfolded this]
  show ?thesis
  proof (cases "per_limit \<noteq> None \<or> over_target m target \<or> over_memory_budget (lifecycle m)")
    case False
    then show ?thesis using that(1) ex by auto
  next
    case True
    note ex = ex[unfolded if_P[OF True]]
    show ?thesis
    proof (cases "per_limit = None \<and> memory_budget (lifecycle m) = None \<and> one")
      case True
      then obtain t where "target = Some t" "unat (len m) = Suc t" by (auto simp: one_def)
      from that(2)[OF conjunct1[OF True] conjunct1[OF conjunct2[OF True]] this ex[unfolded if_P[OF True]]] show ?thesis .
    next
      case False
      from that(3) ex[unfolded if_not_P[OF False]] show ?thesis .
    qed
  qed
qed

lemma exclusive_candidates_current:
  assumes "tracks D (lifecycle m) T" "\<not> dirty (lifecycle m)"
  shows "\<forall>c\<in>set (exclusive_candidates D target per_limit pol m). current D (lifecycle m) T c"
  using engine.set_candidates(1,3)[OF assms, of pol]
  by (cases rule: exclusive_candidates_cases[of target per_limit pol m]) (auto split: option.splits)

lemma exclusive_candidates_lowest:
  assumes tr: "tracks D (lifecycle m) T" "\<not> dirty (lifecycle m)"
    and c: "c \<in> set (take n (exclusive_candidates D target per_limit pol m))"
    and y: "current D (lifecycle m) T y" "y \<notin> set (take n (exclusive_candidates D target per_limit pol m))"
  shows "rank pol c \<le> rank pol y"
proof (cases rule: exclusive_candidates_cases[of target per_limit pol m])
  case none
  then show ?thesis using c by simp
next
  case one
  then show ?thesis using c y engine.set_candidates(3)[OF tr, of pol] by (auto split: option.splits dest: in_set_takeD)
next
  case all
  let ?cs = "candidates D (lifecycle m) pol"
  have "y \<in> set (drop n ?cs)"
    using y engine.set_candidates(1)[OF tr, of pol] unfolding all by (metis append_take_drop_id mem_Collect_eq set_append UnE)
  moreover have "sorted (map (rank pol) (take n ?cs @ drop n ?cs))" using engine.set_candidates(2)[OF tr, of pol] by simp
  ultimately show ?thesis using c unfolding map_append sorted_append all by auto
qed

text \<open>One entry too many: removing the minimum is enough.\<close>

lemma remove_one_limits:
  assumes wf: "wf_map D m" "wf_map D m'" and b: "card (dom (view D m)) < 2 ^ 64" and sub: "dom (view D m') \<subseteq> dom (view D m)"
    and len: "unat (len m) = Suc t" and k: "view D m k \<noteq> None" "over_target m' (Some t) \<Longrightarrow> view D m' k = None"
  shows "\<not> over_target m' (Some t)"
proof
  assume o: "over_target m' (Some t)"
  have fin: "finite (dom (view D m))" using finite_dom_view wf(1) by (simp add: wf_map_def)
  have "dom (view D m') \<subset> dom (view D m)" using sub k o by blast
  then have "card (dom (view D m')) < card (dom (view D m))" using fin by (rule psubset_card_mono[rotated])
  then show False using o unat_len[OF wf(2)] unat_len[OF wf(1) b] b len by (simp add: over_target_def)
qed

lemma exclusive_run:
  assumes wf: "wf_map D m" and sy: "synced_by D m T" and b: "card (dom (view D m)) < 2 ^ 64"
    and ct: "per_limit \<noteq> None \<Longrightarrow> length counts = shard_count m \<and> (\<forall>i < shard_count m. counts ! i = shard_load D m i)"
    and run: "evict_loop D target per_limit (exclusive_candidates D target per_limit pol m)
      (over_memory_budget (lifecycle m)) counts ev m = Some (ev', m')"
  shows "pass_limits D target per_limit m'" "\<exists>T'. synced_by D m' T'" "sequence (lifecycle m') = sequence (lifecycle m)"
    "per_limit = None \<Longrightarrow> victims_lowest D pol T m m'"
proof -
  let ?cs = "exclusive_candidates D target per_limit pol m"
  have tr: "tracks D (lifecycle m) T" "\<not> dirty (lifecycle m)" using sy by (simp_all add: synced_by_def)
  note cur = exclusive_candidates_current[OF tr, of target per_limit pol]
  have r: "run_ok D target per_limit ?cs m m'" by (rule evict_loop_run[OF wf sy b _ ct refl run]) (use cur in auto)
  obtain ev1 where ev: "evicted_by D ev1 m m'"
    using evict_loop_spec[OF wf, of per_limit counts target ?cs _ ev] ct run by (metis option.inject prod.inject)
  have w': "wf_map D m'" using evicted_byD[OF ev] by simp
  have sub: "dom (view D m') \<subseteq> dom (view D m)" by (rule map_le_implies_dom_le[OF evicted_by_subset[OF ev]])
  have b': "card (dom (view D m')) < 2 ^ 64" using card_mono[OF finite_dom_view sub] b wf by (simp add: wf_map_def)
  show "\<exists>T'. synced_by D m' T'" "sequence (lifecycle m') = sequence (lifecycle m)" using r by (auto simp: run_ok_def)
  show "pass_limits D target per_limit m'"
  proof (cases rule: exclusive_candidates_cases[of target per_limit pol m])
    case none
    then have "m' = m" using run by simp
    then show ?thesis using none synced_weight[OF sy] by (auto simp: pass_limits_def over_memory_budget_def split: option.splits)
  next
    case (one t)
    have "card (dom (view D m)) = Suc t" using unat_len[OF wf b] one(4) by simp
    then have "T \<noteq> Map.empty" using synced_dom[OF sy] by (auto simp: dom_def)
    then obtain c where c: "?cs = [c]" "current D (lifecycle m) T c" using engine.set_candidates(3)[OF tr, of pol] one(5) by (auto split: option.splits)
    have "view D m (cand_key c) \<noteq> None"
      using engine.current_key[OF tr(1) c(2)] synced_dom[OF sy, of "cand_key c"] by (metis option.distinct(1))
    moreover have "view D m' (cand_key c) = None" if "over_target m' (Some t)"
      using r that c(1) one(3) by (auto simp: run_ok_def needed_def)
    ultimately have "\<not> over_target m' target" unfolding one(3) by (rule remove_one_limits[OF wf w' b sub one(4)])
    then show ?thesis using one(1,2) evicted_byD[OF ev] by (simp add: pass_limits_def memory_budget_opts)
  next
    case all
    have "k \<in> cand_key ` set ?cs" if "view D m' k \<noteq> None" for k
    proof -
      have "view D m k \<noteq> None" using that sub by blast
      then obtain e where e: "T k = Some e" using synced_dom[OF sy, of k] by (cases "T k") auto
      then have "make_candidate (epoch (lifecycle m)) (fx_hash_one D k) e \<in> set ?cs"
        unfolding all engine.set_candidates(1)[OF tr] by (auto simp: current_def)
      then show ?thesis using tracks_key[OF tr(1) e] by (metis cand_key_make imageI)
    qed
    from run_ok_limits[OF r w' b' this] show ?thesis .
  qed
  show "victims_lowest D pol T m m'" if none: "per_limit = None"
    by (rule run_ok_lowest[OF sy r[unfolded none] cur[unfolded none] exclusive_candidates_lowest[OF tr]])
qed

lemma pass_limits_frame [simp]:
  "life_opts l = life_opts (lifecycle m) \<Longrightarrow> pass_limits D target per_limit (m\<lparr>lifecycle := l\<rparr>) = pass_limits D target per_limit m"
  using weight_cong[of l "lifecycle m"]
  by (auto simp: pass_limits_def over_target_def total_weight_def shard_load_def memory_budget_opts len_def split: option.splits)

lemma evict_exclusive_limits:
  assumes wf: "wf_map D m" and ok: "engine_ok D m" and b: "card (dom (view D m)) < 2 ^ 64"
    and run: "evict_exclusive D target per_limit pol ev m = Some (ev', m')"
  shows "pass_limits D target per_limit m'" "\<exists>T. synced_by D m' T"
    "unat (sequence (lifecycle m')) \<le> unat (sequence (lifecycle m)) + card (dom (view D m))"
    "synced_by D m T \<Longrightarrow> sequence (lifecycle m') = sequence (lifecycle m) \<and> (per_limit = None \<longrightarrow> victims_lowest D pol T m m')"
proof -
  define m1 where "m1 = reconcile_eviction_metadata D (m\<lparr>lifecycle := mutation (lifecycle m)\<rparr>)"
  note rs = reconcile_synced[OF wf ok, folded m1_def]
  obtain l where l: "m1 = m\<lparr>lifecycle := l\<rparr>" "life_opts l = life_opts (lifecycle m)"
    "unat (sequence l) \<le> unat (sequence (lifecycle m)) + card (dom (view D m))" using rs(1) by blast
  obtain T1 where T1: "synced_by D m1 T1" using rs(2) by blast
  have w1: "wf_map D m1" "view D m1 = view D m" using wf by (simp_all add: l)
  have wd1: "wf_dirs D m1" using w1 by (simp add: wf_map_def)
  obtain counts m2 where c: "(if per_limit \<noteq> None then count_keys D m1 (stored_keys D m1) (replicate (shard_count m1) 0) else Some []) = Some counts"
    and r: "evict_loop D target per_limit (exclusive_candidates D target per_limit pol m1)
      (over_memory_budget (lifecycle m1)) counts ev m1 = Some (ev', m2)"
    and m': "m' = m2\<lparr>lifecycle := mark_maintained (maintenance_generation (lifecycle m1)) (lifecycle m2)\<rparr>"
    using run unfolding evict_exclusive_def m1_def[symmetric] Let_def exclusive_candidates_def
    by (auto simp: bind_eq_Some_conv)
  have ct: "per_limit \<noteq> None \<Longrightarrow> length counts = shard_count m1 \<and> (\<forall>i < shard_count m1. counts ! i = shard_load D m1 i)"
    using count_stored[OF wd1] c by simp
  note er = exclusive_run[OF w1(1) _ _ ct r]
  show "pass_limits D target per_limit m'" using er(1)[OF T1] b w1(2) by (simp add: m')
  show "\<exists>T. synced_by D m' T"
    using er(2)[OF T1] b w1(2) synced_marks(2) unfolding m' by metis
  show "unat (sequence (lifecycle m')) \<le> unat (sequence (lifecycle m)) + card (dom (view D m))"
    using er(3)[OF T1] b w1(2) l by (simp add: m')
  assume sy: "synced_by D m T"
  then have s1: "synced_by D m1 T" "sequence (lifecycle m1) = sequence (lifecycle m)"
    using rs(3)[of T] by (auto simp: synced_by_def)
  then show "sequence (lifecycle m') = sequence (lifecycle m) \<and> (per_limit = None \<longrightarrow> victims_lowest D pol T m m')"
    using er(3)[OF s1(1)] er(4)[OF s1(1)] b w1(2) by (simp add: m' victims_lowest_def)
qed

end

end
