(* ===== verification/Capacity_Pass.thy ===== *)
theory Capacity_Pass
  imports Capacity
begin

text \<open>
  The per-shard path of a maintenance pass and the whole of \<open>run_eviction\<close>: whichever path it takes, the pass ends with every
  limit respected and a synced engine, and with limits on entries or weight alone it gives up the
  entries the policy ranks lowest.
\<close>


context starshard_deps
begin

section \<open>The per-shard path\<close>

lemma shard_victims_synced:
  assumes "wf_map D (unlock i (deref_mut_set sd g) m)" "i < length (shards m)" "synced_by D (unlock i (deref_mut_set sd g) m) T"
    "\<forall>c\<in>set cs. current D (lifecycle m) T c \<or> view D (unlock i (deref_mut_set sd g) m) (cand_key c) = None"
    "shard_victims D limit cs g ev m = (g', ev', m')"
  shows "\<exists>T'. synced_by D (unlock i (deref_mut_set sd g') m') T' \<and> sequence (lifecycle m') = sequence (lifecycle m) \<and> shards m' = shards m"
  using assms
proof (induction cs arbitrary: g ev m T)
  case Nil
  then show ?case by auto
next
  case (Cons c cs)
  let ?k = "cand_key c" and ?u = "\<lambda>g m. unlock i (deref_mut_set sd g) m"
  define g1 where "g1 = snd (hb_remove (shard_ops D) g ?k)"
  have rm: "hb_remove (shard_ops D) g ?k = (hb_get (shard_ops D) g ?k, g1)"
    using H.remove_old[of g ?k] by (simp add: g1_def prod_eq_iff)
  have wd: "wf_dirs D (?u g m)" using Cons.prems(1) by (simp add: wf_map_def)
  have at: "i < length (shards (?u g m))" "shards (?u g m) ! i = Some (deref_mut_set sd g)" using Cons.prems(2) by simp_all
  consider (same) "shard_victims D limit cs g ev m = (g', ev', m')" | (stop) "g' = g" "m' = m"
    | (absent) "hb_get (shard_ops D) g ?k = None" "shard_victims D limit cs g1 ev m = (g', ev', m')"
    | (gone) v where "hb_get (shard_ops D) g ?k = Some v" "shard_victims D limit cs g1 (ev @ [(?k, v)]) (commit_eviction D c m) = (g', ev', m')"
    using Cons.prems(5) rm by (auto split: if_splits option.splits)
  then show ?case
  proof cases
    case same
    then show ?thesis using Cons.IH[OF Cons.prems(1-3)] Cons.prems(4) by simp
  next
    case stop
    then show ?thesis using Cons.prems(3) by blast
  next
    case absent
    note ab = remove_shard_absent[OF wd at, of ?k, simplified, OF absent(1), folded g1_def]
    have w1: "wf_map D (?u g1 m)" using ab Cons.prems(1) by (simp add: wf_map_def)
    have "synced_by D (?u g1 m) T" using Cons.prems(3) ab(2) by (simp add: synced_by_def)
    then show ?thesis using Cons.IH[OF w1 Cons.prems(2) _ _ absent(2)] Cons.prems(4) ab(2) by simp
  next
    case gone
    note ent = remove_shard_entry[OF wd at, of ?k v, simplified, OF gone(1), folded g1_def]
    have cur: "current D (lifecycle (?u g m)) T c" using Cons.prems(4) ent(4) by simp
    have sm: "same_meta (?u g m) (?u g1 m)" "same_counters (?u g m) (?u g1 m)"
      by (simp_all add: same_meta_def same_counters_def unlock_def)
    have w2: "wf_map D (?u g1 (commit_eviction D c m))"
      using evicted_byD[OF commit_eviction_evicted[OF Cons.prems(1) ent(4) sm ent(1-3), of c]] by simp
    have tr: "tracks D (lifecycle m) T" using Cons.prems(3) by (simp add: synced_by_def)
    obtain st: "synced_by D (?u g1 (commit_eviction D c m)) (T(?k := None))"
      "epoch (lifecycle (commit_eviction D c m)) = epoch (lifecycle m)"
      "sequence (lifecycle (commit_eviction D c m)) = sequence (lifecycle m)"
      using evict_step[OF Cons.prems(1,3) cur, of "?u g1 m"] ent(2) by auto
    have "\<forall>c'\<in>set cs. current D (lifecycle (commit_eviction D c m)) (T(?k := None)) c' \<or> view D (?u g1 (commit_eviction D c m)) (cand_key c') = None"
      using Cons.prems(4) current_upd[OF _ tr st(2)] ent(2) by (auto simp del: commit_eviction_simps(9)) 
    from Cons.IH[OF w2 _ st(1) this gone(2)] show ?thesis using Cons.prems(2) st(3) by (auto simp del: commit_eviction_simps(9))
  qed
qed

lemma evict_shard_synced:
  assumes wf: "wf_map D m" and i: "i < length (shards m)" and sy: "synced_by D m T"
    and run: "evict_shard D limit pol i (ev, r, m) = (ev', r', m')"
  shows "\<exists>T'. synced_by D m' T'" "sequence (lifecycle m') = sequence (lifecycle m)" "r \<Longrightarrow> r'"
    "\<exists>s. shards m' = (shards m)[i := s] \<and> (r' \<or> slot_len D s \<le> limit)"
proof -
  have "(\<exists>T'. synced_by D m' T') \<and> sequence (lifecycle m') = sequence (lifecycle m) \<and> (r \<longrightarrow> r') \<and>
    (\<exists>s. shards m' = (shards m)[i := s] \<and> (r' \<or> slot_len D s \<le> limit))"
  proof (cases "case shards m ! i of None \<Rightarrow> True | Some sd \<Rightarrow> hb_len (shard_ops D) (as_map sd) \<le> limit")
    case True
    then have "slot_len D (shards m ! i) \<le> limit" by (auto simp: slot_len_def split: option.splits)
    moreover have "m' = m" "r' = r" using True run by (auto simp: evict_shard_def split: option.splits)
    ultimately show ?thesis using sy by (auto intro!: exI[of _ "shards m ! i"])
  next
    case False
    then obtain sd where sd: "shards m ! i = Some sd" "\<not> hb_len (shard_ops D) (as_map sd) \<le> limit" by (auto split: option.splits)
    have same: "unlock i (deref_mut_set sd (as_map sd)) m = m" using unlock_same[OF sd(1)] by (cases sd) simp_all
    let ?cs = "candidates_for_keys D (lifecycle m) pol (map fst (hb_iter (shard_ops D) (as_map sd)))"
    have "tracks D (lifecycle m) T" "\<not> dirty (lifecycle m)" using sy by (simp_all add: synced_by_def)
    from engine.set_candidates(4)[OF this]
    have cur: "\<forall>c\<in>set ?cs. current D (lifecycle m) T c \<or> view D m (cand_key c) = None" by auto
    obtain g ev1 m1 where v: "shard_victims D limit ?cs (as_map sd) ev m = (g, ev1, m1)" by (metis prod_cases3)
    have m': "m' = unlock i (deref_mut_set sd g) m1" "r' = (r \<or> hb_len (shard_ops D) g > limit)"
      using run sd v by (auto simp: evict_shard_def Let_def)
    have "as_map (deref_mut_set sd g) = g" by (cases sd) simp_all
    then show ?thesis
      using shard_victims_synced[of i sd "as_map sd" m T, unfolded same, OF wf i sy cur v]
      by (auto simp: m' unlock_def slot_len_def intro!: exI[of _ "Some (deref_mut_set sd g)"])
  qed
  then show "\<exists>T'. synced_by D m' T'" "sequence (lifecycle m') = sequence (lifecycle m)" "r \<Longrightarrow> r'"
    "\<exists>s. shards m' = (shards m)[i := s] \<and> (r' \<or> slot_len D s \<le> limit)" by blast+
qed

lemma fold_evict_shard:
  assumes "wf_map D m" "\<forall>i\<in>set ixs. i < length (shards m)" "distinct ixs" "synced_by D m T"
    "fold (evict_shard D limit pol) ixs (ev, r, m) = (ev', r', m')"
  shows "(\<exists>T'. synced_by D m' T') \<and> sequence (lifecycle m') = sequence (lifecycle m) \<and> (r \<longrightarrow> r') \<and>
    (\<forall>i\<in>set ixs. r' \<or> slot_len D (shards m' ! i) \<le> limit) \<and> (\<forall>i. i \<notin> set ixs \<longrightarrow> shards m' ! i = shards m ! i)"
  using assms
proof (induction ixs arbitrary: ev r m T)
  case (Cons i xs)
  obtain ev1 r1 m1 where s: "evict_shard D limit pol i (ev, r, m) = (ev1, r1, m1)" by (metis prod_cases3)
  have i: "i < length (shards m)" using Cons.prems(2) by simp
  note es = evict_shard_synced[OF Cons.prems(1) i Cons.prems(4) s]
  obtain ev2 where e: "evicted_by D ev2 m m1" using evict_shard_spec[OF Cons.prems(1) i, of limit pol ev r] s by auto
  obtain T1 where T1: "synced_by D m1 T1" using es(1) by blast
  obtain x where x: "shards m1 = (shards m)[i := x]" "r1 \<or> slot_len D x \<le> limit" using es(4) by blast
  have "wf_map D m1" using evicted_byD[OF e] by simp
  then have ih: "(\<exists>T'. synced_by D m' T') \<and> sequence (lifecycle m') = sequence (lifecycle m1) \<and> (r1 \<longrightarrow> r') \<and>
      (\<forall>i\<in>set xs. r' \<or> slot_len D (shards m' ! i) \<le> limit) \<and> (\<forall>i. i \<notin> set xs \<longrightarrow> shards m' ! i = shards m1 ! i)"
    using Cons.IH[OF _ _ _ T1, of ev1 r1] Cons.prems(2,3,5) s x(1) by simp
  then have "shards m' ! i = x" using Cons.prems(3) x(1) i by simp
  then show ?case using ih es(2,3) x by auto
qed auto

lemma shard_load_slot:
  assumes wd: "wf_dirs D m" and none: "previous_shard_count m = 0"
  shows "shard_load D m i = (if i < length (shards m) then slot_len D (shards m ! i) else 0)"
proof -
  have pv: "prev_slots m = []" using wd none by (simp add: wf_dirs_def)
  have view: "view D m k = slot_get D (shards m ! route D (length (shards m)) k) k" for k
    using wf_dirsD(1)[OF wd] by (simp add: view_def pv map_add_def slots_get_def split: option.splits)
  have "{k \<in> dom (view D m). route D (length (shards m)) k = i} = dom (slot_get D (shards m ! i))" if "i < length (shards m)"
  proof -
    have "route D (length (shards m)) k = i" if "slot_get D (shards m ! i) k \<noteq> None" for k
      using slots_okD[OF wf_dirsD(5)[OF wd] \<open>i < length (shards m)\<close>] that by (cases "shards m ! i") (simp_all add: shard_ok_def)
    then show ?thesis unfolding dom_def view by blast
  qed
  moreover have "{k \<in> dom (view D m). route D (length (shards m)) k = i} = {}" if "\<not> i < length (shards m)"
    using that route_less[OF wf_dirsD(1)[OF wd], of D] by blast
  ultimately show ?thesis unfolding shard_load_def by (metis card.empty card_slot_get)
qed

lemma evict_per_shard_limits:
  assumes wf: "wf_map D m" and sy: "synced_by D m T" and none: "previous_shard_count m = 0"
    and run: "evict_per_shard D limit pol m = (ev, r, m')"
  shows "\<exists>T'. synced_by D m' T'" "sequence (lifecycle m') = sequence (lifecycle m)" "r \<or> shard_load D m' i \<le> limit"
proof -
  note f = fold_evict_shard[OF wf _ _ sy run[unfolded evict_per_shard_def], simplified]
  show "\<exists>T'. synced_by D m' T'" "sequence (lifecycle m') = sequence (lifecycle m)" using f by blast+
  have e: "evicted_by D ev m m'" using evict_per_shard_spec[OF wf, of limit pol] run by auto
  then have "wf_dirs D m'" "previous_shard_count m' = 0" "length (shards m') = length (shards m)"
    using evicted_byD[OF e] none by (simp_all add: wf_map_def same_meta_def)
  then show "r \<or> shard_load D m' i \<le> limit" using f by (auto simp: shard_load_slot)
qed

section \<open>A whole pass\<close>

lemma dispatch_limits:
  assumes "pass_limits D target per_limit m" "synced_by D m T"
  shows "pass_limits D target per_limit (snd (batch_dispatch D ev m)) \<and> (\<exists>T. synced_by D (snd (batch_dispatch D ev m)) T) \<and>
    sequence (lifecycle (snd (batch_dispatch D ev m))) = sequence (lifecycle m) \<and> view D (snd (batch_dispatch D ev m)) = view D m"
proof -
  have "tracks D (record_eviction_duration (elapsed D) (lifecycle m)) T" using assms(2) by (simp add: synced_by_def)
  from engine.dispatch_tracks(3)[OF this] show ?thesis
    using assms(1) synced_marks(4)[OF assms(2), of ev "elapsed D"] by (auto simp: batch_dispatch_def)
qed

lemma victims_lowest_view: "view D m2 = view D m1 \<Longrightarrow> victims_lowest D pol T m m2 = victims_lowest D pol T m m1"
  by (simp add: victims_lowest_def)

lemma exclusive_pass:
  assumes wf: "wf_map D m" and ok: "engine_ok D m" and b: "card (dom (view D m)) < 2 ^ 64"
    and run: "map_option (\<lambda>(ev, m2). batch_dispatch D ev m2) (evict_exclusive D target per_limit pol ev m) = Some (n, m')"
  shows "pass_limits D target per_limit m'" "\<exists>T. synced_by D m' T"
    "unat (sequence (lifecycle m')) \<le> unat (sequence (lifecycle m)) + card (dom (view D m))"
    "synced_by D m T \<Longrightarrow> sequence (lifecycle m') = sequence (lifecycle m) \<and> (per_limit = None \<longrightarrow> victims_lowest D pol T m m')"
proof -
  obtain ev1 m2 where r: "evict_exclusive D target per_limit pol ev m = Some (ev1, m2)" "m' = snd (batch_dispatch D ev1 m2)"
    using run by auto
  note x = evict_exclusive_limits[OF wf ok b r(1)]
  obtain T2 where "synced_by D m2 T2" using x(2) by blast
  note d = dispatch_limits[OF x(1) this, of ev1, folded r(2)]
  show "pass_limits D target per_limit m'" "\<exists>T. synced_by D m' T" using d by blast+
  show "unat (sequence (lifecycle m')) \<le> unat (sequence (lifecycle m)) + card (dom (view D m))" using d x(3) by simp
  show "sequence (lifecycle m') = sequence (lifecycle m) \<and> (per_limit = None \<longrightarrow> victims_lowest D pol T m m')" if "synced_by D m T"
    using d x(4)[OF that] victims_lowest_view by metis
qed

lemma shard_pass:
  assumes wf: "wf_map D m" and sy: "synced_by D m T" and none: "previous_shard_count m = 0" "memory_budget (lifecycle m) = None"
    and run: "evict_per_shard D limit pol (m\<lparr>lifecycle := mutation (lifecycle m)\<rparr>) = (ev, r, m1)"
  shows "\<exists>T. synced_by D m1 T" "sequence (lifecycle m1) = sequence (lifecycle m)" "evicted_by D ev m m1"
    "\<not> r \<Longrightarrow> pass_limits D None (Some limit) m1"
proof -
  let ?m0 = "m\<lparr>lifecycle := mutation (lifecycle m)\<rparr>"
  have w0: "wf_map D ?m0" using wf by simp
  note p = evict_per_shard_limits[OF w0 synced_marks(1)[OF sy] _ run]
  have e0: "evicted_by D ev ?m0 m1" using evict_per_shard_spec[OF w0, of limit pol] run by auto
  show "\<exists>T. synced_by D m1 T" using p(1) none(1) by simp
  show "sequence (lifecycle m1) = sequence (lifecycle m)" using p(2) none(1) by simp
  show "evicted_by D ev m m1" using e0 by simp
  assume "\<not> r"
  moreover have "memory_budget (lifecycle m1) = None"
    using evicted_byD[OF e0] none(2) by (simp add: memory_budget_opts)
  ultimately show "pass_limits D None (Some limit) m1" using p(3) none(1) by (simp add: pass_limits_def over_target_def)
qed

lemma run_eviction_limits:
  assumes wf: "wf_map D m" and ok: "engine_ok D m" and b: "card (dom (view D m)) < 2 ^ 64"
    and cfg: "config (lifecycle m) = Some cfg" and pol: "(if pol = None then policy (lifecycle m) else pol) = Some p"
    and run: "run_eviction D wanted pol m = Some (n, m')"
  shows "pass_limits D (effective_target wanted (max_entries cfg)) (max_items_per_shard cfg) m'" "\<exists>T. synced_by D m' T"
    "unat (sequence (lifecycle m')) \<le> unat (sequence (lifecycle m)) + card (dom (view D m))"
    "synced_by D m T \<Longrightarrow> sequence (lifecycle m') = sequence (lifecycle m) \<and>
       (max_items_per_shard cfg = None \<longrightarrow> victims_lowest D p T m m')"
proof -
  define target per_limit where "target = effective_target wanted (max_entries cfg)" and "per_limit = max_items_per_shard cfg"
  note defs = target_def[symmetric] per_limit_def[symmetric]
  define P1 P2 where "P1 \<longleftrightarrow> \<not> dirty (lifecycle m) \<and> per_limit = None \<and> \<not> over_target m target \<and> \<not> over_memory_budget (lifecycle m)"
    and "P2 \<longleftrightarrow> target = None \<and> memory_budget (lifecycle m) = None \<and> \<not> dirty (lifecycle m) \<and> per_limit \<noteq> None \<and> previous_shard_count m = 0"
  obtain ev r m1 where ps: "evict_per_shard D (the per_limit) p (m\<lparr>lifecycle := mutation (lifecycle m)\<rparr>) = (ev, r, m1)"
    by (metis prod_cases3)
  have run': "(if P1 then Some (0, m\<lparr>lifecycle := dispatch_callbacks D [] (mark_maintained (maintenance_generation (lifecycle m)) (lifecycle m))\<rparr>)
     else if P2 then if \<not> r \<and> \<not> dirty (lifecycle m1)
         then Some (batch_dispatch D ev (m1\<lparr>lifecycle := mark_maintained (maintenance_generation (mutation (lifecycle m))) (lifecycle m1)\<rparr>))
         else map_option (\<lambda>(ev, m2). batch_dispatch D ev m2) (evict_exclusive D target per_limit p ev m1)
     else map_option (\<lambda>(ev, m2). batch_dispatch D ev m2) (evict_exclusive D target per_limit p [] m)) = Some (n, m')"
    using run unfolding run_eviction_def cfg pol option.case Let_def defs P1_def[symmetric] P2_def[symmetric] ps prod.case .
  let ?goal = "pass_limits D target per_limit m' \<and> (\<exists>T. synced_by D m' T) \<and>
      unat (sequence (lifecycle m')) \<le> unat (sequence (lifecycle m)) + card (dom (view D m)) \<and>
      (\<forall>T. synced_by D m T \<longrightarrow> sequence (lifecycle m') = sequence (lifecycle m) \<and> (per_limit = None \<longrightarrow> victims_lowest D p T m m'))"
  have goal: ?goal
  proof -
    consider (early) P1 | (shards) "\<not> P1" P2 | (exclusive) "\<not> P1" "\<not> P2" by blast
    then show ?goal
    proof cases
      case early
      then obtain T where T: "synced_by D m T" using ok by (auto simp: engine_ok_def P1_def)
      let ?m1 = "m\<lparr>lifecycle := mark_maintained (maintenance_generation (lifecycle m)) (lifecycle m)\<rparr>"
      have m': "m' = ?m1\<lparr>lifecycle := dispatch_callbacks D [] (lifecycle ?m1)\<rparr>" using run' early by simp
      have s1: "synced_by D ?m1 T" by (rule synced_marks(2)[OF T])
      have "tracks D (lifecycle m) T" using T by (simp add: synced_by_def)
      then have "sequence (lifecycle m') = sequence (lifecycle m)"
        using engine.dispatch_tracks(3)[of "lifecycle ?m1" T "[]"] by (simp add: m')
      moreover have "pass_limits D target per_limit m"
        using early synced_weight[OF T] by (auto simp: P1_def pass_limits_def over_memory_budget_def split: option.splits)
      ultimately show ?thesis using synced_marks(3)[OF s1, of "[]"] by (auto simp: m' victims_lowest_def)
    next
      case shards
      then have p2: "target = None" "memory_budget (lifecycle m) = None" "\<not> dirty (lifecycle m)" "per_limit = Some (the per_limit)"
        "previous_shard_count m = 0" by (auto simp: P2_def)
      obtain T where T: "synced_by D m T" using ok p2(3) by (auto simp: engine_ok_def)
      note sp = shard_pass[OF wf T p2(5,2) ps]
      obtain T1 where T1: "synced_by D m1 T1" using sp(1) by blast
      show ?thesis
      proof (cases r)
        case False
        let ?m2 = "m1\<lparr>lifecycle := mark_maintained (maintenance_generation (mutation (lifecycle m))) (lifecycle m1)\<rparr>"
        have "m' = snd (batch_dispatch D ev ?m2)" using run' shards False T1 by (simp add: synced_by_def)
        moreover have "pass_limits D target per_limit ?m2" using sp(4)[OF False] p2(1,4) by simp
        ultimately show ?thesis
          using dispatch_limits[OF _ synced_marks(2)[OF T1], of target per_limit _ ev] sp(2) p2(4) by auto
      next
        case True
        have e: "wf_map D m1" using evicted_byD[OF sp(3)] by simp
        have "card (dom (view D m1)) \<le> card (dom (view D m))"
          using card_mono[OF finite_dom_view map_le_implies_dom_le[OF evicted_by_subset[OF sp(3)]]] wf by (simp add: wf_map_def)
        moreover have "engine_ok D m1" using T1 by (auto simp: engine_ok_def synced_by_def)
        ultimately show ?thesis
          using exclusive_pass[of m1 target per_limit p ev n m'] run' shards True e b sp(2) T1 p2(4) by auto
      qed
    next
      case exclusive
      then show ?thesis using exclusive_pass[OF wf ok b, of target per_limit p "[]" n m'] run' by auto
    qed
  qed
  then show "pass_limits D (effective_target wanted (max_entries cfg)) (max_items_per_shard cfg) m'" "\<exists>T. synced_by D m' T"
    "unat (sequence (lifecycle m')) \<le> unat (sequence (lifecycle m)) + card (dom (view D m))"
    "synced_by D m T \<Longrightarrow> sequence (lifecycle m') = sequence (lifecycle m) \<and>
       (max_items_per_shard cfg = None \<longrightarrow> victims_lowest D p T m m')"
    unfolding target_def per_limit_def by blast+
qed

end

end
