(* ===== verification/Capacity_Calls.thy ===== *)
theory Capacity_Calls
  imports Capacity_Pass Sync_Lifecycle
begin

text \<open>
  A configured cache stays within its limits. Insertions, reads and removals keep the engine in sync with the map, and
  each mutation ends with a pass that restores the limits; so after any calls, with any maintenance passes in
  between, a cache built by one of the constructors respects the limits of its configuration.
  The stamps of the metadata are unique only until the 64-bit sequence wraps, so the number of calls is bounded.
\<close>

section \<open>The contract of a bounded cache\<close>

definition keeps_limits ::
  "('k, 'v, 'm, 'b) deps \<Rightarrow> nat option \<Rightarrow> nat option \<Rightarrow> ('k, 'v, 'm, 'b) sharded_map \<Rightarrow> bool" where
  "keeps_limits D limit per_shard m \<longleftrightarrow>
     (\<forall>n. limit = Some n \<longrightarrow> card (dom (view D m)) \<le> n) \<and>
     (\<forall>b. memory_budget (lifecycle m) = Some b \<longrightarrow> total_weight D m \<le> b) \<and>
     (\<forall>n i. per_shard = Some n \<longrightarrow> shard_load D m i \<le> n)"

text \<open>\<open>inv n\<close> holds after at most \<open>n\<close> stamps.\<close>

locale bounded_contract =
  fixes inv :: "nat \<Rightarrow> 's \<Rightarrow> bool"
    and bg :: "'e \<Rightarrow> 's \<Rightarrow> 's option"
    and call :: "('k, 'v) call \<Rightarrow> 's \<Rightarrow> ('v option \<times> 's) option"
  assumes bg_ok: "inv n s \<Longrightarrow> n < 2 ^ 64 \<Longrightarrow> \<exists>s'. bg e s = Some s' \<and> inv n s'"
    and call_ok: "inv n s \<Longrightarrow> Suc n < 2 ^ 64 \<Longrightarrow> \<exists>r s'. call c s = Some (r, s') \<and> inv (Suc n) s'"
begin

lemma events_ok:
  assumes "inv n s" "n + length es < 2 ^ 64"
  shows "\<exists>rs s'. run_events bg call es s = Some (rs, s') \<and> inv (n + length (calls_of es)) s'"
  using assms
proof (induction es arbitrary: n s)
  case (Cons e es)
  have b: "n < 2 ^ 64" "Suc n < 2 ^ 64" "n + length es < 2 ^ 64" "Suc n + length es < 2 ^ 64"
    using Cons.prems(2) by (auto simp del: power_numeral)
  show ?case
  proof (cases e)
    case (Inl x)
    then show ?thesis using bg_ok[OF Cons.prems(1) b(1), of x] Cons.IH[OF _ b(3)] by fastforce
  next
    case (Inr c)
    then obtain r s1 where s1: "call c s = Some (r, s1)" "inv (Suc n) s1" using call_ok[OF Cons.prems(1) b(2)] by blast
    from Cons.IH[OF this(2) b(4)] show ?thesis using s1(1) Inr by auto
  qed
qed simp

end

section \<open>The synchronous map\<close>

definition bounded_map :: "('k, 'v, 'm, 'b) deps \<Rightarrow> ('k, 'v) eviction_options \<Rightarrow> nat \<Rightarrow> ('k, 'v, 'm, 'b) sharded_map \<Rightarrow> bool" where
  "bounded_map D opts n m \<longleftrightarrow> wf_map D m \<and> (\<exists>T. synced_by D m T) \<and> life_opts (lifecycle m) = Some opts \<and>
     unat (sequence (lifecycle m)) \<le> n \<and> card (dom (view D m)) \<le> n \<and>
     keeps_limits D (max_entries (opt_config opts)) (max_items_per_shard (opt_config opts)) m"

text \<open>The maintenance a caller or the worker may ask for: a target, a policy, both or neither.\<close>

definition maintain ::
  "('k, 'v, 'm, 'b) deps \<Rightarrow> nat option \<times> capacity_policy option \<Rightarrow> ('k, 'v, 'm, 'b) sharded_map \<Rightarrow> ('k, 'v, 'm, 'b) sharded_map option" where
  "maintain D = (\<lambda>(target, pol) m. map_option snd (run_eviction D target pol m))"

context starshard_deps
begin

lemma pass_respects:
  assumes "pass_limits D (effective_target wanted limit) per_shard m" "wf_map D m" "card (dom (view D m)) < 2 ^ 64"
  shows "keeps_limits D (effective_target wanted limit) per_shard m" "keeps_limits D limit per_shard m"
proof -
  show r: "keeps_limits D (effective_target wanted limit) per_shard m"
    using assms unat_len[OF assms(2,3)] by (auto simp: pass_limits_def keeps_limits_def over_target_def split: option.splits)
  then show "keeps_limits D limit per_shard m"
    by (cases limit; cases wanted) (auto simp: keeps_limits_def effective_target_def)
qed

lemma run_eviction_bounded:
  assumes wf: "wf_map D m" and sy: "synced_by D m T" and opts: "life_opts (lifecycle m) = Some opts"
    and n: "unat (sequence (lifecycle m)) \<le> n" "card (dom (view D m)) \<le> n" "n < 2 ^ 64"
  shows "\<exists>k m'. run_eviction D wanted pol m = Some (k, m') \<and> bounded_map D opts n m'"
proof -
  obtain ev m' where r: "run_eviction D wanted pol m = Some (length ev, m')" and e: "evicted_by D ev m m'"
    using run_eviction_evicts[OF wf, of wanted pol] by blast
  have cfg: "config (lifecycle m) = Some (opt_config opts)" using opts by (auto simp: config_def life_opts_def)
  obtain p where p: "(if pol = None then policy (lifecycle m) else pol) = Some p"
    using opts by (cases pol) (auto simp: policy_def life_opts_def)
  have ok: "engine_ok D m" using sy by (auto simp: engine_ok_def synced_by_def)
  have b: "card (dom (view D m)) < 2 ^ 64" using n by simp
  note l = run_eviction_limits[OF wf ok b cfg p r]
  have sub: "card (dom (view D m')) \<le> card (dom (view D m))"
    using card_mono[OF finite_dom_view map_le_implies_dom_le[OF evicted_by_subset[OF e]]] wf by (simp add: wf_map_def)
  then have "keeps_limits D (max_entries (opt_config opts)) (max_items_per_shard (opt_config opts)) m'"
    using pass_respects(2)[OF l(1)] evicted_byD[OF e] b by simp
  then show ?thesis using r l(2) l(4)[OF sy] evicted_byD[OF e] opts n sub by (auto simp: bounded_map_def)
qed

lemma maintain_bounded:
  assumes "bounded_map D opts n m" "n < 2 ^ 64"
  shows "\<exists>m'. maintain D e m = Some m' \<and> bounded_map D opts n m'"
  using assms run_eviction_bounded[of m _ opts n] by (cases e) (fastforce simp: maintain_def bounded_map_def)

text \<open>The hooks keep the engine in sync with the view.\<close>

lemma insert_synced:
  assumes sy: "synced_by D m T" and seq: "unat (sequence (lifecycle m)) + 1 < 2 ^ 64"
    and c: "committed D m ((view D m)(k \<mapsto> v)) ep (insert_hook D k v r (lifecycle m)) m1"
  shows "\<exists>T'. synced_by D m1 T'" "unat (sequence (lifecycle m1)) = Suc (unat (sequence (lifecycle m)))"
proof -
  let ?l = "mutation (lifecycle m)"
  have tr: "tracks D ?l T" using sy by (simp add: synced_by_def)
  have sq: "unat (sequence ?l) + 1 < 2 ^ 64" using seq by simp
  note ri = engine.record_insert_tracks[OF tr sq, of k v r, folded insert_hook_def]
  have l: "lifecycle m1 = insert_hook D k v r (lifecycle m)" "view D m1 = (view D m)(k \<mapsto> v)" using c by (simp_all add: committed_def)
  have w: "weight (lifecycle m1) = weight (lifecycle m)" "weight ?l = weight (lifecycle m)"
    by (rule weight_cong; simp add: l)+
  obtain e where "tracks D (lifecycle m1) (T(k \<mapsto> e))" "entry_weight e = weight (lifecycle m) k v" using ri(1) w(2) l(1) by metis
  then have "synced_by D m1 (T(k \<mapsto> e))"
    using sy ri(2) w(1) l by (auto simp: synced_by_def dirty_def)
  then show "\<exists>T'. synced_by D m1 T'" by blast
  show "unat (sequence (lifecycle m1)) = Suc (unat (sequence (lifecycle m)))"
    using ri(3) l(1) unat_stamp[OF seq] by simp
qed

lemma remove_synced:
  assumes sy: "synced_by D m T" and c: "committed D m ((view D m)(k := None)) ep l m1"
    and l: "l = remove_hook D k (view D m k \<noteq> None) (lifecycle m) \<or> view D m k = None \<and> l = lifecycle m"
  shows "\<exists>T'. synced_by D m1 T'" "sequence (lifecycle m1) = sequence (lifecycle m)"
proof -
  have m1: "lifecycle m1 = l" "view D m1 = (view D m)(k := None)" using c by (simp_all add: committed_def)
  have tr: "tracks D (mutation (lifecycle m)) T" "tracks D (lifecycle m) T" using sy by (simp_all add: synced_by_def)
  have w: "weight l = weight (lifecycle m)" using l by (intro weight_cong) auto
  have T: "(T(k := None)) = T" if "view D m k = None" using that synced_dom[OF sy] by (simp add: fun_upd_idem)
  have "synced_by D m1 (T(k := None)) \<and> sequence l = sequence (lifecycle m)"
  proof (cases "view D m k = None")
    case True
    then have "l = mutation (lifecycle m) \<or> l = lifecycle m" using l by (auto simp: remove_hook_def)
    then have "tracks D l T" "same_epochs (lifecycle m) l" "sequence l = sequence (lifecycle m)" using tr by auto
    then show ?thesis using T[OF True] True sy w m1 by (simp add: synced_by_def dirty_def fun_upd_idem)
  next
    case False
    then have l': "l = record_remove D k (mutation (lifecycle m))" using l by (auto simp: remove_hook_def)
    have "T k \<noteq> None" using False synced_dom[OF sy] by simp
    from engine.record_remove_tracks[OF tr(1) this] show ?thesis using sy w m1 by (simp add: l'[symmetric] synced_by_def dirty_def)
  qed
  then show "\<exists>T'. synced_by D m1 T'" "sequence (lifecycle m1) = sequence (lifecycle m)" using m1 by auto
qed

lemma read_synced:
  assumes sy: "synced_by D m T" and seq: "unat (sequence (lifecycle m)) + 1 < 2 ^ 64"
  shows "\<exists>T'. synced_by D (tracked_read D k x m) T'"
    "unat (sequence (lifecycle (tracked_read D k x m))) \<le> Suc (unat (sequence (lifecycle m)))"
proof -
  let ?l = "record_read D k (x \<noteq> None) (lifecycle m)"
  have tr: "tracks D (lifecycle m) T" using sy by (simp add: synced_by_def)
  note rr = engine.record_read_tracks[OF tr seq, of k "x \<noteq> None"]
  obtain T' where T': "tracks D ?l T'" "map_option entry_weight \<circ> T' = map_option entry_weight \<circ> T" using rr(1) by blast
  have "map_option entry_weight (T' i) = map_option entry_weight (T i)" for i using fun_cong[OF T'(2), of i] by simp
  moreover have "weight ?l = weight (lifecycle m)" by (rule weight_cong) simp
  ultimately have "synced_by D (m\<lparr>lifecycle := ?l\<rparr>) T'" using sy T'(1) rr(2) by (simp add: synced_by_def dirty_def)
  then show "\<exists>T'. synced_by D (tracked_read D k x m) T'" by (auto simp: tracked_read_def)
  show "unat (sequence (lifecycle (tracked_read D k x m))) \<le> Suc (unat (sequence (lifecycle m)))"
    using rr(3) by (simp add: tracked_read_def)
qed

lemma keeps_limits_frame:
  "life_opts l = life_opts (lifecycle m) \<Longrightarrow> keeps_limits D limit per_shard (m\<lparr>lifecycle := l\<rparr>) = keeps_limits D limit per_shard m"
  using weight_cong[of l "lifecycle m"] by (simp add: keeps_limits_def total_weight_def shard_load_def memory_budget_opts)

lemma insert_bounded:
  assumes b: "bounded_map D opts n m" "Suc n < 2 ^ 64"
  shows "\<exists>r m'. insert_op D k v m = Some (r, m') \<and> bounded_map D opts (Suc n) m'"
proof -
  have wf: "wf_map D m" and fin: "finite (dom (view D m))" using b finite_dom_view by (auto simp: bounded_map_def wf_map_def)
  obtain T where T: "synced_by D m T" using b by (auto simp: bounded_map_def)
  have seq: "unat (sequence (lifecycle m)) \<le> n" "card (dom (view D m)) \<le> n" using b(1) by (auto simp: bounded_map_def)
  obtain m1 where i: "insert_inner D k v m = Some (view D m k, m1)"
    and c: "committed D m ((view D m)(k \<mapsto> v)) (write_epoch m + 1) (insert_hook D k v (view D m k \<noteq> None) (lifecycle m)) m1"
    using insert_inner_spec[OF wf] by blast
  have s: "\<exists>T'. synced_by D m1 T'" "unat (sequence (lifecycle m1)) = Suc (unat (sequence (lifecycle m)))"
    using insert_synced[OF T _ c] seq b(2) by auto
  have "card (dom (view D m1)) \<le> Suc n" using c seq card_insert_le_m1[of "Suc n" "dom (view D m)" k] fin
    by (simp add: committed_def card_insert_if)
  moreover have "wf_map D m1" "life_opts (lifecycle m1) = Some opts" using c b(1) by (simp_all add: committed_def bounded_map_def)
  ultimately show ?thesis
    using run_eviction_bounded[of m1 _ opts "Suc n" None None] s seq b(2) i
    by (fastforce simp: insert_op_def enforce_eviction_limits_def)
qed

lemma remove_bounded:
  assumes b: "bounded_map D opts n m" "Suc n < 2 ^ 64"
  shows "\<exists>r m'. remove_borrowed D k m = Some (r, m') \<and> bounded_map D opts (Suc n) m'"
proof -
  have wf: "wf_map D m" and fin: "finite (dom (view D m))" using b finite_dom_view by (auto simp: bounded_map_def wf_map_def)
  obtain T where T: "synced_by D m T" using b by (auto simp: bounded_map_def)
  have seq: "unat (sequence (lifecycle m)) \<le> n" "card (dom (view D m)) \<le> n" using b(1) by (auto simp: bounded_map_def)
  obtain m1 l where i: "remove_inner D k m = Some (view D m k, m1)"
    and c: "committed D m ((view D m)(k := None)) (if view D m k = None then write_epoch m else write_epoch m + 1) l m1"
    and l: "l = remove_hook D k (view D m k \<noteq> None) (lifecycle m) \<or> view D m k = None \<and> l = lifecycle m"
    using remove_inner_spec[OF wf] by blast
  note s = remove_synced[OF T c l]
  have "card (dom (view D m1)) \<le> Suc n" using c seq card_Diff1_le[of "dom (view D m)" k] by (simp add: committed_def)
  moreover have "wf_map D m1" "life_opts (lifecycle m1) = Some opts" using c l b(1) by (auto simp: committed_def bounded_map_def)
  ultimately show ?thesis
    using run_eviction_bounded[of m1 _ opts "Suc n" None None] s seq b(2) i
    by (fastforce simp: remove_borrowed_def enforce_eviction_limits_def)
qed

lemma get_bounded:
  assumes b: "bounded_map D opts n m" "Suc n < 2 ^ 64"
  shows "\<exists>r m'. get_borrowed D k m = Some (r, m') \<and> bounded_map D opts (Suc n) m'"
proof -
  obtain T where T: "synced_by D m T" using b by (auto simp: bounded_map_def)
  have seq: "unat (sequence (lifecycle m)) \<le> n" "wf_dirs D m" using b(1) by (auto simp: bounded_map_def wf_map_def)
  note s = read_synced[OF T, of k "view D m k"]
  have "bounded_map D opts (Suc n) (tracked_read D k (view D m k) m)"
    using b seq s keeps_limits_frame[of "record_read D k (view D m k \<noteq> None) (lifecycle m)" m]
    by (auto simp: bounded_map_def tracked_read_def)
  then show ?thesis using read_inner_eq[OF seq(2), of k] by (simp add: get_borrowed_def)
qed

lemma call_bounded:
  assumes "bounded_map D opts n m" "Suc n < 2 ^ 64"
  shows "\<exists>r m'. run_call (insert_op D) (get_borrowed D) (remove_borrowed D) c m = Some (r, m') \<and> bounded_map D opts (Suc n) m'"
  using insert_bounded[OF assms] get_bounded[OF assms] remove_bounded[OF assms] by (cases c) simp_all

end

sublocale starshard_deps \<subseteq> bounded: bounded_contract "bounded_map D opts" "maintain D"
  "run_call (insert_op D) (get_borrowed D) (remove_borrowed D)"
  by unfold_locales (rule maintain_bounded call_bounded; assumption)+

context starshard_deps
begin

lemma new_tracks:
  assumes "configured l = Some c" "stripes c = replicate STRIPES (stripe_default D)"
  shows "tracks D l Map.empty"
proof -
  have g: "hb_get (stripe_ops D) (buckets (stripes c ! i)) h = None" if "i < STRIPES" for i h
    using that assms(2) by (simp add: stripe_default_def B.get_new)
  have "bucket_of D c h = None" for h using g by (simp add: bucket_of_def)
  then have "find_entry D c = Map.empty" by (simp add: find_entry_def fun_eq_iff)
  moreover have "meta_ok D (unat (sequence l)) c"
    using g assms(2) \<open>\<And>h. bucket_of D c h = None\<close> calculation
    by (simp add: meta_ok_def stripe_sum_def stripe_default_def)
  ultimately show ?thesis using assms(1) by (simp add: tracks_def)
qed

lemma built_bounded:
  assumes "build_eviction_map D n mode opts = Inr m"
  shows "bounded_map D opts 1 m"
proof -
  have "0 < min (normalized_shard_count n) MAX_SHARDS" by (simp add: MAX_SHARDS_def)
  note w = wf_map_build[OF this, of D mode]
  have m: "wf_map D m" "view D m = Map.empty" "life_opts (lifecycle m) = Some opts" "sequence (lifecycle m) = 1"
    "\<not> dirty (lifecycle m)" "tracks D (lifecycle m) Map.empty"
    using assms w new_tracks[of "lifecycle m"]
    by (auto simp: build_eviction_cases life_opts_def lifecycle_new_def dirty_def split: sum.splits)
  then have "synced_by D m Map.empty" by (simp add: synced_by_def)
  then show ?thesis using m by (auto simp: bounded_map_def keeps_limits_def total_weight_def shard_load_def)
qed

lemma built_events:
  assumes "build_eviction_map D n mode opts = Inr m" "1 + length es < 2 ^ 64"
  shows "\<exists>rs m'. run_events (maintain D) (run_call (insert_op D) (get_borrowed D) (remove_borrowed D)) es m = Some (rs, m') \<and>
    bounded_map D opts (1 + length (calls_of es)) m'"
  using bounded.events_ok[OF built_bounded[OF assms(1)] assms(2)] .

end

section \<open>Properties\<close>

text \<open>A small cache over the instance \<open>nat_deps\<close>: at most two entries, least recently used first.\<close>

definition small_options :: "(nat, nat) eviction_options" where
  "small_options = options_new (eviction_config_default\<lparr>max_entries := Some 2, background_enabled := False\<rparr>)"

lemma small_options_valid: "validate_options small_options = Inr ()"
  by (simp add: small_options_def options_new_def eviction_config_default_def validate_options_def)

definition small_cache :: nat_map where
  "small_cache = (case build_eviction_map nat_deps 2 Cow small_options of Inl e \<Rightarrow> fresh_map Cow | Inr m \<Rightarrow> m)"

lemma small_cache_built: "build_eviction_map nat_deps 2 Cow small_options = Inr small_cache"
  by (simp add: small_cache_def build_eviction_cases small_options_valid)

definition used_cache :: nat_map where
  "used_cache = snd (the (insert_op nat_deps 1 10 small_cache))"

lemma used_cache_bounded: "bounded_map nat_deps small_options 2 used_cache"
proof -
  have "bounded_map nat_deps small_options 1 small_cache"
    by (rule starshard_deps.built_bounded[OF nat_deps_laws small_cache_built])
  from starshard_deps.insert_bounded[OF nat_deps_laws this, of 1 10]
  obtain r m' where "insert_op nat_deps 1 10 small_cache = Some (r, m')" "bounded_map nat_deps small_options (Suc 1) m'" by auto
  then show ?thesis unfolding used_cache_def by (simp add: eval_nat_numeral)
qed

text \<open>
  C6: a maintenance pass restores the limits. On a well-formed configured map whose metadata is either in sync with the
  map or marked for repair, \<open>run_eviction\<close> with any target and policy returns, only removes entries, leaves the
  metadata in sync, and afterwards the number of entries, their total weight and the load of every shard
  are within the limits of the configuration and the target. When the limits do not depend on shards,
  no evicted entry is ranked above one that stays by the policy of the pass.
\<close>

theorem eviction_restores_limits:
  assumes "starshard_deps D" "wf_map D m" "engine_ok D m" "card (dom (view D m)) < 2 ^ 64" "config (lifecycle m) = Some cfg"
  shows "\<exists>n m'. run_eviction D wanted pol m = Some (n, m') \<and> wf_map D m' \<and> view D m' \<subseteq>\<^sub>m view D m \<and> (\<exists>T. synced_by D m' T) \<and>
    keeps_limits D (effective_target wanted (max_entries cfg)) (max_items_per_shard cfg) m' \<and>
    (\<forall>T. max_items_per_shard cfg = None \<and> synced_by D m T \<longrightarrow>
       victims_lowest D (case pol of None \<Rightarrow> the (policy (lifecycle m)) | Some p \<Rightarrow> p) T m m')"
proof -
  obtain ev m' where r: "run_eviction D wanted pol m = Some (length ev, m')" and e: "evicted_by D ev m m'"
    using starshard_deps.run_eviction_evicts[OF assms(1,2), of wanted pol] by blast
  define p where "p = (case pol of None \<Rightarrow> the (policy (lifecycle m)) | Some p \<Rightarrow> p)"
  have p: "(if pol = None then policy (lifecycle m) else pol) = Some p"
    using assms(5) by (cases pol) (auto simp: policy_def config_def p_def)
  note l = starshard_deps.run_eviction_limits[OF assms(1-5) p r]
  have wf': "wf_map D m'" using evicted_byD[OF e] by simp
  have "card (dom (view D m')) \<le> card (dom (view D m))"
    using card_mono[OF starshard_deps.finite_dom_view[OF assms(1)] map_le_implies_dom_le[OF evicted_by_subset[OF e]]] assms(2)
    by (simp add: wf_map_def)
  then have "keeps_limits D (effective_target wanted (max_entries cfg)) (max_items_per_shard cfg) m'"
    using starshard_deps.pass_respects(1)[OF assms(1) l(1) wf'] assms(4) by simp
  then show ?thesis using r wf' evicted_by_subset[OF e] l(2,4) unfolding p_def by blast
qed

theorem eviction_restores_limits_witness:
  "\<exists>n m'. run_eviction nat_deps (Some 0) None used_cache = Some (n, m') \<and> keeps_limits nat_deps (Some 0) None m'"
proof -
  note b = used_cache_bounded[unfolded bounded_map_def]
  have "engine_ok nat_deps used_cache" using b by (auto simp: engine_ok_def synced_by_def)
  moreover have "config (lifecycle used_cache) = Some (opt_config small_options)" using b by (auto simp: config_def life_opts_def)
  ultimately show ?thesis
    using eviction_restores_limits[OF nat_deps_laws, of used_cache "opt_config small_options" "Some 0" None] b
    by (auto simp: small_options_def options_new_def effective_target_def eviction_config_default_def)
qed

text \<open>
  C5: a cache stays within its limits. Starting from a newly built cache, any sequence of fewer than 2^64 - 1 insertions, reads,
  removals and maintenance passes (explicit or by the worker, with any target and policy) runs without a
  panic and ends with the number of entries, the total weight and the load of every shard within
  the configured limits.
\<close>

theorem cache_stays_within_limits:
  assumes "starshard_deps D" "build_eviction_map D n mode opts = Inr m" "1 + length es < 2 ^ 64"
  shows "\<exists>rs m'. run_events (maintain D) (run_call (insert_op D) (get_borrowed D) (remove_borrowed D)) es m = Some (rs, m') \<and>
    wf_map D m' \<and> memory_budget (lifecycle m') = opt_memory_budget opts \<and>
    keeps_limits D (max_entries (opt_config opts)) (max_items_per_shard (opt_config opts)) m'"
  using starshard_deps.built_events[OF assms] by (fastforce simp: bounded_map_def memory_budget_opts)

theorem cache_stays_within_limits_witness:
  "\<exists>rs m'. run_events (maintain nat_deps) (run_call (insert_op nat_deps) (get_borrowed nat_deps) (remove_borrowed nat_deps))
      [Inr (Insert 1 10), Inr (Insert 2 20), Inr (Get 1), Inr (Insert 3 30), Inl (Some 1, Some Lfu)] small_cache = Some (rs, m') \<and>
    keeps_limits nat_deps (Some 2) None m'"
  using cache_stays_within_limits[OF nat_deps_laws small_cache_built,
      of "[Inr (Insert 1 10), Inr (Insert 2 20), Inr (Get 1), Inr (Insert 3 30), Inl (Some 1, Some Lfu)]"]
  by (auto simp: small_options_def options_new_def eviction_config_default_def)

end
