(* ===== verification/Worker_Online.thy ===== *)
theory Worker_Online
  imports Sync_Online Sync_Snapshots
begin

text \<open>
  The supervised rebalance worker among clients: \<open>spawn_rebalance\<close> of \<open>core/sync_impl/rebalance_impl.rs\<close> with the
  handle of \<open>rebalance.rs\<close>. The worker's thread and its clients take turns: a turn of the worker is one pass
  of its loop, the wait, the batch and, at the end, the drop of its lease; between two turns any
  other thread may call the map, reshard it by hand, pause it, or cancel the worker through its handle.
  A turn while \<open>wait_ready\<close> blocks changes nothing.
\<close>

section \<open>The handle\<close>

record supervised_worker =
  sw_ticket :: worker_ticket
  sw_opts :: rebalance_options
  sw_state :: worker_state
  sw_cancelled :: bool
  sw_result :: "rebalance_outcome option"

definition worker_new :: "worker_ticket \<Rightarrow> rebalance_options \<Rightarrow> supervised_worker" where
  "worker_new tk opts = \<lparr>sw_ticket = tk, sw_opts = opts, sw_state = worker_start tk opts, sw_cancelled = False, sw_result = None\<rparr>"

definition handle_cancel :: "supervised_worker \<Rightarrow> supervised_worker" where
  "handle_cancel w = w\<lparr>sw_cancelled := True\<rparr>"

text \<open>\<open>join\<close>: it waits until the thread has returned or, \<open>panicked\<close>, unwound.\<close>

definition handle_join :: "bool \<Rightarrow> supervised_worker \<Rightarrow> (rebalance_error + rebalance_outcome) option" where
  "handle_join panicked w = (if panicked then Some (Inl rebalance_error.WorkerPanicked) else map_option Inr (sw_result w))"

section \<open>The threads together\<close>

record ('k, 'v, 'm, 'b) worker_sys =
  ws_map :: "('k, 'v, 'm, 'b) sharded_map"
  ws_workers :: "supervised_worker list"

definition set_worker :: "nat \<Rightarrow> supervised_worker \<Rightarrow> ('k, 'v, 'm, 'b) sharded_map \<Rightarrow> ('k, 'v, 'm, 'b) worker_sys \<Rightarrow> ('k, 'v, 'm, 'b) worker_sys" where
  "set_worker i w m s = s\<lparr>ws_map := m, ws_workers := (ws_workers s)[i := w]\<rparr>"

text \<open>The end of the thread: its outcome, and the lease is dropped.\<close>

definition worker_returns ::
  "('k, 'v, 'm, 'b) deps \<Rightarrow> supervised_worker \<Rightarrow> worker_state \<Rightarrow> ('k, 'v, 'm, 'b) sharded_map \<Rightarrow> supervised_worker \<times> ('k, 'v, 'm, 'b) sharded_map" where
  "worker_returns D w st m =
     (w\<lparr>sw_state := st, sw_result := Some (worker_outcome D (sw_ticket w) st m)\<rparr>,
      m\<lparr>rebalance_tracker := release_worker (ticket_generation (sw_ticket w)) (rebalance_tracker m)\<rparr>)"

definition worker_turn ::
  "('k, 'v, 'm, 'b) deps \<Rightarrow> batch_env \<Rightarrow> supervised_worker \<Rightarrow> ('k, 'v, 'm, 'b) sharded_map \<Rightarrow>
   (supervised_worker \<times> ('k, 'v, 'm, 'b) sharded_map) option" where
  "worker_turn D env w m =
     (if sw_result w \<noteq> None then Some (w, m)
      else
        (case wait_ready (ticket_generation (sw_ticket w)) (sw_cancelled w) (rebalance_tracker m) of
           None \<Rightarrow> Some (w, m)
         | Some False \<Rightarrow> Some (worker_returns D w (sw_state w) m)
         | Some True \<Rightarrow> do {
             (stop, st, m') \<leftarrow> worker_round D env (sw_opts w) (ticket_generation (sw_ticket w)) (sw_state w) m;
             Some (if stop then worker_returns D w st m' else (w\<lparr>sw_state := st\<rparr>, m'))
           }))"

datatype worker_event = Manual background | Spawn bool nat rebalance_options | Turn nat batch_env | Cancel nat

fun worker_op :: "('k, 'v, 'm, 'b) deps \<Rightarrow> worker_event \<Rightarrow> ('k, 'v, 'm, 'b) worker_sys \<Rightarrow> ('k, 'v, 'm, 'b) worker_sys option" where
  "worker_op D (Manual b) s =
     (case b of
        SpawnWorker _ _ \<Rightarrow> Some s
      | _ \<Rightarrow> map_option (\<lambda>m. s\<lparr>ws_map := m\<rparr>) (background_op D b (ws_map s)))"
| "worker_op D (Spawn ok n opts) s =
     (case spawn_rebalance D ok n (ws_map s) of
        (Inl _, m) \<Rightarrow> Some (s\<lparr>ws_map := m\<rparr>)
      | (Inr tk, m) \<Rightarrow> Some (s\<lparr>ws_map := m, ws_workers := ws_workers s @ [worker_new tk opts]\<rparr>))"
| "worker_op D (Turn i env) s =
     (if i < length (ws_workers s)
      then map_option (\<lambda>(w, m). set_worker i w m s) (worker_turn D env (ws_workers s ! i) (ws_map s))
      else Some s)"
| "worker_op D (Cancel i) s =
     (if i < length (ws_workers s) then Some (set_worker i (handle_cancel (ws_workers s ! i)) (ws_map s) s) else Some s)"

definition on_map ::
  "(('k, 'v, 'm, 'b) sharded_map \<Rightarrow> ('v option \<times> ('k, 'v, 'm, 'b) sharded_map) option) \<Rightarrow> ('k, 'v, 'm, 'b) worker_sys \<Rightarrow>
   ('v option \<times> ('k, 'v, 'm, 'b) worker_sys) option" where
  "on_map f s = map_option (\<lambda>(r, m). (r, s\<lparr>ws_map := m\<rparr>)) (f (ws_map s))"

abbreviation sys_call :: "('k, 'v, 'm, 'b) deps \<Rightarrow> ('k, 'v) call \<Rightarrow> ('k, 'v, 'm, 'b) worker_sys \<Rightarrow> ('v option \<times> ('k, 'v, 'm, 'b) worker_sys) option" where
  "sys_call D \<equiv> run_call (\<lambda>k v. on_map (insert_op D k v)) (\<lambda>k. on_map (get_borrowed D k)) (\<lambda>k. on_map (remove_borrowed D k))"

section \<open>One lease\<close>

text \<open>The registered lease is the one of the only worker that has not returned.\<close>

fun lease_of :: "supervised_worker list \<Rightarrow> u64 option \<Rightarrow> bool" where
  "lease_of [] g \<longleftrightarrow> g = None"
| "lease_of [w] g \<longleftrightarrow> g = Some (ticket_generation (sw_ticket w))"
| "lease_of _ g \<longleftrightarrow> False"

abbreviation running :: "supervised_worker \<Rightarrow> bool" where
  "running w \<equiv> sw_result w = None"

definition lease_inv :: "('k, 'v, 'm, 'b) worker_sys \<Rightarrow> bool" where
  "lease_inv s \<longleftrightarrow> lease_of (filter running (ws_workers s)) (worker_generation (rebalance_tracker (ws_map s)))"

definition sys_ok :: "('k, 'v, 'm, 'b) deps \<Rightarrow> ('k, 'v, 'm, 'b) worker_sys \<Rightarrow> bool" where
  "sys_ok D s \<longleftrightarrow> plain_map D (ws_map s) \<and> lease_inv s \<and> (\<forall>w \<in> set (ws_workers s). 0 < wk_effective (sw_state w))"

text \<open>What a client's call does to a migration: the tracker is left alone, and entries only leave the old generation.\<close>

definition undisturbed :: "('k, 'v, 'm, 'b) deps \<Rightarrow> ('k, 'v, 'm, 'b) sharded_map \<Rightarrow> ('k, 'v, 'm, 'b) sharded_map \<Rightarrow> bool" where
  "undisturbed D m m' \<longleftrightarrow> rebalance_tracker m' = rebalance_tracker m \<and> remaining D m' \<le> remaining D m"

context starshard_deps
begin

lemma promote_len: "hb_len (shard_ops D) (snd (promote_entry (shard_ops D) a p k)) \<le> hb_len (shard_ops D) p"
  by (auto simp: H.promote_entry_eq H.len_remove split: option.splits)

lemma lock_key_undisturbed:
  assumes wf: "wf_dirs D m" and l: "lock_key D m k = Some (i, a, m2)"
  shows "rebalance_tracker m2 = rebalance_tracker m \<and> length (prev_slots m2) = length (prev_slots m) \<and>
    slots_len D (prev_slots m2) \<le> slots_len D (prev_slots m)"
proof -
  let ?i = "route D (length (shards m)) k"
  have i: "?i < length (shards m)" using wf_dirsD(1)[OF wf] by (simp add: route_less)
  let ?m1 = "unlock ?i (init_slot D m ?i) m" and ?j = "route D (length (prev_slots m)) k"
  note m1 = get_or_init_wf[OF wf i]
  have pr: "promote_previous D ?m1 k (init_slot D m ?i) = Some (a, m2)"
    using l i by (auto simp: lock_key_def shard_index_wf[OF wf] get_or_init_eq split: bind_splits)
  show ?thesis
  proof (cases "m2 = ?m1")
    case True
    then show ?thesis by (simp add: unlock_def)
  next
    case False
    then obtain p where p: "prev_slots m \<noteq> []" "prev_slots m ! ?j = Some p"
      and m2: "m2 = set_previous_slot ?j (Some (deref_mut_set p (snd (promote_entry (shard_ops D) (as_map (init_slot D m ?i)) (as_map p) k)))) ?m1"
      using pr by (auto simp: promote_previous_def previous_shard_wf[OF m1(1)] split_beta split: if_splits option.splits)
    have j: "?j < length (prev_slots m)" using p(1) by (rule route_less)
    have "slots_len D (prev_slots m2) \<le> slots_len D (prev_slots m)"
      using slots_len_update[OF j, of D "Some (deref_mut_set p (snd (promote_entry (shard_ops D) (as_map (init_slot D m ?i)) (as_map p) k)))"]
        promote_len[of "as_map (init_slot D m ?i)" "as_map p" k] p(2) by (simp add: m2 slot_len_def)
    then show ?thesis by (simp add: m2 unlock_def)
  qed
qed


lemma undisturbed_refl [simp]: "undisturbed D m m"
  by (simp add: undisturbed_def)

lemma commit_undisturbed:
  assumes "wf_dirs D m" "lock_key D m k = Some (i, a, m2)"
  shows "undisturbed D m (commit D i a mu l m2)" "undisturbed D m (unlock i a m2)"
  using lock_key_undisturbed[OF assms] by (simp_all add: undisturbed_def remaining_def commit_eq unlock_def prev_slots_def)

lemma insert_inner_undisturbed:
  assumes "wf_dirs D m" "insert_inner D k v m = Some (r, m')"
  shows "undisturbed D m m'"
  using assms(2) commit_undisturbed(1)[OF assms(1)] by (auto simp: insert_inner_def split_beta Let_def split: bind_splits)

lemma remove_inner_undisturbed:
  assumes "wf_dirs D m" "remove_inner D k m = Some (r, m')"
  shows "undisturbed D m m'"
  using assms(2) commit_undisturbed[OF assms(1)] by (auto simp: remove_inner_def split_beta Let_def split: bind_splits if_splits)

lemma call_undisturbed:
  assumes m: "plain_map D m"
  shows "\<exists>m'. run_call (insert_op D) (get_borrowed D) (remove_borrowed D) c m = Some (fst (spec_call c (view D m)), m') \<and>
    plain_map D m' \<and> view D m' = snd (spec_call c (view D m)) \<and> undisturbed D m m'"
proof -
  have wf: "wf_map D m" and wd: "wf_dirs D m" and pl: "life_opts (lifecycle m) = None" using m by (simp_all add: plain_map_def wf_map_def)
  show ?thesis
  proof (cases c)
    case (Insert k v)
    obtain m1 where m1: "insert_inner D k v m = Some (view D m k, m1)"
      and cm: "committed D m ((view D m)(k \<mapsto> v)) (write_epoch m + 1) (insert_hook D k v (view D m k \<noteq> None) (lifecycle m)) m1"
      using insert_inner_spec[OF wf] by blast
    have "life_opts (lifecycle m1) = None" using cm pl by (simp add: committed_def)
    then show ?thesis
      using Insert m1 cm enforce_plain[of m1 D] insert_inner_undisturbed[OF wd m1]
      by (auto simp: insert_op_def plain_map_def committed_def)
  next
    case (Get k)
    have "undisturbed D m (tracked_read D k (view D m k) m)" by (simp add: undisturbed_def remaining_def tracked_read_def prev_slots_def)
    then show ?thesis using Get read_inner_eq[OF wd, of k] m wf by (simp add: get_borrowed_def plain_map_def)
  next
    case (Delete k)
    obtain m1 l where r: "remove_inner D k m = Some (view D m k, m1)"
      and cm: "committed D m ((view D m)(k := None)) (if view D m k = None then write_epoch m else write_epoch m + 1) l m1"
      and l: "l = remove_hook D k (view D m k \<noteq> None) (lifecycle m) \<or> view D m k = None \<and> l = lifecycle m"
      using remove_inner_spec[OF wf] by blast
    have lo: "life_opts (lifecycle m1) = None" using cm l pl by (auto simp: committed_def)
    then show ?thesis using Delete r lo cm enforce_plain[OF lo, of D] remove_inner_undisturbed[OF wd r]
      by (auto simp: remove_borrowed_def plain_map_def committed_def)
  qed
qed

section \<open>Resharding by hand keeps the lease\<close>

lemma advance_lease:
  assumes "wf_map D m" "advance_rebalance_inner D env mx e p expd m = Some (r, m')"
  shows "worker_generation (rebalance_tracker m') = worker_generation (rebalance_tracker m)"
  using advance_inner_ok[OF assms(1), of env mx e p expd] assms(2) by (auto simp: batch_post_def)

lemma pause_lease [simp]: "worker_generation (snd (pause b p)) = worker_generation p"
  by (simp add: pause_def)

lemma coop_round_lease:
  assumes wf: "wf_map D m" and t: "0 < target"
    and r: "advance_rebalance_with_options D clk opts (snd (resume_rebalance
      (if migrating (rebalance_tracker m) then m else begin_migration D (shard_count m) target m))) = Some (r, m')"
  shows "worker_generation (rebalance_tracker m') = worker_generation (rebalance_tracker m)"
proof -
  let ?m1 = "if migrating (rebalance_tracker m) then m else begin_migration D (shard_count m) target m"
  have m1: "wf_map D ?m1" "worker_generation (rebalance_tracker ?m1) = worker_generation (rebalance_tracker m)"
    using wf begin_migration_map[OF wf _ t] by auto
  have m2: "worker_generation (rebalance_tracker (snd (resume_rebalance ?m1))) = worker_generation (rebalance_tracker ?m1)"
    by (simp add: resume_rebalance_def split_beta)
  show ?thesis
    using advance_lease[OF resume_rebalance_ok(1)[OF m1(1)]] r m2 m1(2) by (auto simp: advance_rebalance_with_options_def)
qed

lemma cooperative_lease:
  assumes "cooperative_loop D clks target opts rnd n m = Some (k, m')" "wf_map D m" "0 < target"
  shows "worker_generation (rebalance_tracker m') = worker_generation (rebalance_tracker m)"
  using assms
proof (induction "coop_measure D target m" arbitrary: m n rnd rule: wf_induct_rule[OF wf_lex_prod[OF wf_less_than wf_less_than]])
  case (1 m)
  have sim: "cooperative_loop D clks target opts rnd n m =
      (if \<not> migrating (rebalance_tracker m) \<and> shard_count m = target then Some (n, m)
       else do {
         (r, m3) \<leftarrow> advance_rebalance_with_options D (clks rnd) opts (snd (resume_rebalance
            (if migrating (rebalance_tracker m) then m else begin_migration D (shard_count m) target m)));
         cooperative_loop D clks target opts (rnd + 1) (n + rep_moved_entries r) m3
       })"
    by (subst cooperative_loop.simps) (simp add: is_migrating_def Let_def)
  show ?case
  proof (cases "\<not> migrating (rebalance_tracker m) \<and> shard_count m = target")
    case True
    then show ?thesis using sim 1(2) by simp
  next
    case False
    obtain r m3 where m3: "advance_rebalance_with_options D (clks rnd) opts (snd (resume_rebalance
        (if migrating (rebalance_tracker m) then m else begin_migration D (shard_count m) target m))) = Some (r, m3)" "wf_map D m3"
      "(coop_measure D target m3, coop_measure D target m) \<in> less_than <*lex*> less_than"
      using coop_round[OF 1(3,4) False, of "clks rnd" opts] by blast
    have "cooperative_loop D clks target opts (rnd + 1) (n + rep_moved_entries r) m3 = Some (k, m')"
      using sim False m3(1) 1(2) by auto
    from 1(1)[OF m3(3) this m3(2) 1(4)] show ?thesis using coop_round_lease[OF 1(3,4) m3(1)] by simp
  qed
qed

lemma manual_lease:
  assumes wf: "wf_map D m" and b: "background_op D b m = Some m'" "\<And>ok n. b \<noteq> SpawnWorker ok n"
  shows "worker_generation (rebalance_tracker m') = worker_generation (rebalance_tracker m)"
proof (cases b)
  case (StartOnline n)
  have "length (shards m) = shard_count m" using wf_dirsD(2)[OF wf_map_dirs[OF wf]] by simp
  then show ?thesis
    using StartOnline b(1) strict_Inr begin_migration_map(7)[OF wf]
    by (auto simp: start_rebalance_online_def is_migrating_def Let_def split: sum.splits if_splits)
next
  case (Advance env mx e p expd)
  then show ?thesis using b(1) advance_lease[OF wf] by auto
next
  case (RebalanceTo clks n opts)
  then obtain r where r: "rebalance_to D clks n opts m = Some (r, m')" using b(1) by auto
  then show ?thesis using cooperative_lease[OF _ wf] strict_Inr
    by (fastforce simp: rebalance_to_def publish_staged_def finish_staged_def Let_def split: sum.splits if_splits bind_splits)
qed (use b in \<open>auto simp: pause_rebalance_def resume_rebalance_def split_beta\<close>)


section \<open>A turn of the worker\<close>

lemma worker_round_safe:
  assumes wf: "wf_map D m" and e: "0 < wk_effective w"
  shows "\<exists>stop st m'. worker_round D env opts gen w m = Some (stop, st, m') \<and> wf_map D m' \<and> same_content D m m' \<and>
    worker_generation (rebalance_tracker m') = worker_generation (rebalance_tracker m) \<and> 0 < wk_effective st"
proof -
  obtain r m' where r: "advance_rebalance_inner D env USIZE_MAX (wk_effective w) (opt_max_pause_ns opts) (Some gen) m = Some (r, m')"
    "batch_post D m r m'"
    using advance_inner_ok[OF wf, of env USIZE_MAX "wk_effective w" "opt_max_pause_ns opts" "Some gen"] by blast
  then show ?thesis using e by (auto simp: worker_round_def batch_post_def Let_def USIZE_MAX_def)
qed

lemma release_lease: "worker_generation p = Some g \<Longrightarrow> worker_generation (release_worker g p) = None"
  by (simp add: release_worker_def)

lemma same_content_release: "same_content D m (m\<lparr>rebalance_tracker := release_worker g (rebalance_tracker m)\<rparr>)"
  by simp

lemma worker_turn_safe:
  assumes wf: "wf_map D m" and e: "0 < wk_effective (sw_state w)"
    and lease: "sw_result w = None \<longrightarrow> worker_generation (rebalance_tracker m) = Some (ticket_generation (sw_ticket w))"
  shows "\<exists>w' m'. worker_turn D env w m = Some (w', m') \<and> wf_map D m' \<and> same_content D m m' \<and> 0 < wk_effective (sw_state w') \<and>
    sw_ticket w' = sw_ticket w \<and> sw_cancelled w' = sw_cancelled w \<and> (sw_result w \<noteq> None \<longrightarrow> w' = w \<and> m' = m) \<and>
    worker_generation (rebalance_tracker m') = (if sw_result w' = None then worker_generation (rebalance_tracker m)
      else if sw_result w = None then None else worker_generation (rebalance_tracker m))"
proof (cases "sw_result w = None \<and> wait_ready (ticket_generation (sw_ticket w)) (sw_cancelled w) (rebalance_tracker m) = Some True")
  case True
  obtain stop st m' where r: "worker_round D env (sw_opts w) (ticket_generation (sw_ticket w)) (sw_state w) m = Some (stop, st, m')" "wf_map D m'"
    "same_content D m m'" "worker_generation (rebalance_tracker m') = worker_generation (rebalance_tracker m)" "0 < wk_effective st"
    using worker_round_safe[OF wf e] by blast
  then show ?thesis
    using True lease release_lease[of "rebalance_tracker m'"] wf_map_tracker[of D m'] same_content_trans[OF r(3) same_content_release]
    by (cases stop) (auto simp: worker_turn_def worker_returns_def)
next
  case False
  let ?ret = "worker_returns D w (sw_state w) m"
  consider "worker_turn D env w m = Some (w, m)" | "sw_result w = None" "worker_turn D env w m = Some (fst ?ret, snd ?ret)"
    using False by (cases "wait_ready (ticket_generation (sw_ticket w)) (sw_cancelled w) (rebalance_tracker m)"; cases "sw_result w")
      (auto simp: worker_turn_def split: bool.splits)
  then show ?thesis
  proof cases
    case 1
    then show ?thesis using wf e by (intro exI[of _ w] exI[of _ m]) simp
  next
    case 2
    then show ?thesis using wf e lease
      by (intro exI[of _ "fst ?ret"] exI[of _ "snd ?ret"]) (simp add: worker_returns_def wf_map_tracker release_lease)
  qed
qed

end

section \<open>The contract\<close>

lemma filter_update:
  assumes "i < length xs"
  shows "filter P (xs[i := y]) = filter P (take i xs) @ (if P y then [y] else []) @ filter P (drop (Suc i) xs)"
    "filter P xs = filter P (take i xs) @ (if P (xs ! i) then [xs ! i] else []) @ filter P (drop (Suc i) xs)"
proof -
  show "filter P (xs[i := y]) = filter P (take i xs) @ (if P y then [y] else []) @ filter P (drop (Suc i) xs)"
    using assms by (simp add: upd_conv_take_nth_drop)
  show "filter P xs = filter P (take i xs) @ (if P (xs ! i) then [xs ! i] else []) @ filter P (drop (Suc i) xs)"
    using assms by (subst id_take_nth_drop[OF assms]) simp
qed

text \<open>Spawning takes the lease exactly if it succeeds.\<close>

lemma spawn_lease_refused:
  assumes wf: "wf_map D m" and sp: "fst (spawn_rebalance D ok n m) = Inl err"
  shows "worker_generation (rebalance_tracker (snd (spawn_rebalance D ok n m))) = worker_generation (rebalance_tracker m)"
proof (cases "strict_shard_count n MAX_SHARDS")
  case (Inr target)
  have b: "\<not> migrating (rebalance_tracker m) \<Longrightarrow>
      worker_generation (rebalance_tracker (begin_migration D (shard_count m) target m)) = worker_generation (rebalance_tracker m)"
    using begin_migration_map(7)[OF wf, of target] strict_Inr[OF Inr] by auto
  show ?thesis
    using sp b by (auto simp: spawn_rebalance_def Inr Let_def is_migrating_def has_worker_def claim_worker_def release_worker_def split: if_splits)
qed (simp add: spawn_rebalance_def)

lemma spawn_lease_taken:
  assumes wf: "wf_map D m" and sp: "fst (spawn_rebalance D ok n m) = Inr tk"
  shows "worker_generation (rebalance_tracker m) = None"
    "worker_generation (rebalance_tracker (snd (spawn_rebalance D ok n m))) = Some (ticket_generation tk)"
  using sp by (auto simp: spawn_rebalance_def Let_def is_migrating_def has_worker_def claim_worker_def split: if_splits sum.splits)

text \<open>Workers that have returned hold no lease.\<close>

lemma lease_inv_cases:
  assumes "lease_inv s" "i < length (ws_workers s)" "running (ws_workers s ! i)"
  shows "worker_generation (rebalance_tracker (ws_map s)) = Some (ticket_generation (sw_ticket (ws_workers s ! i)))"
    "filter running (take i (ws_workers s)) = []" "filter running (drop (Suc i) (ws_workers s)) = []"
proof -
  let ?A = "filter running (take i (ws_workers s))" and ?B = "filter running (drop (Suc i) (ws_workers s))"
  have l: "lease_of (?A @ ws_workers s ! i # ?B) (worker_generation (rebalance_tracker (ws_map s)))"
    using assms filter_update(2)[OF assms(2), of running] by (simp add: lease_inv_def)
  show A: "?A = []" using l by (cases ?A rule: remdups_adj.cases) (auto elim: lease_of.elims)
  show "?B = []" using l unfolding A by (cases ?B) simp_all
  then show "worker_generation (rebalance_tracker (ws_map s)) = Some (ticket_generation (sw_ticket (ws_workers s ! i)))"
    using l A by simp
qed

lemma lease_inv_worker:
  assumes inv: "lease_inv s" and i: "i < length (ws_workers s)" and w: "sw_ticket w' = sw_ticket (ws_workers s ! i)"
    and st: "\<not> running (ws_workers s ! i) \<Longrightarrow> \<not> running w' \<and> m' = ws_map s"
      "running (ws_workers s ! i) \<Longrightarrow> worker_generation (rebalance_tracker m') =
        (if running w' then worker_generation (rebalance_tracker (ws_map s)) else None)"
  shows "lease_inv (set_worker i w' m' s)"
proof (cases "running (ws_workers s ! i)")
  case True
  then show ?thesis using lease_inv_cases[OF inv i True] st(2) w by (simp add: lease_inv_def set_worker_def filter_update(1)[OF i])
next
  case False
  then have "filter running ((ws_workers s)[i := w']) = filter running (ws_workers s)"
    using filter_update(1)[OF i, of running w'] filter_update(2)[OF i, of running] st(1) by simp
  then show ?thesis using inv st(1)[OF False] by (simp add: lease_inv_def set_worker_def)
qed

lemma lease_inv_map:
  assumes "lease_inv s" "worker_generation (rebalance_tracker m) = worker_generation (rebalance_tracker (ws_map s))"
  shows "lease_inv (s\<lparr>ws_map := m\<rparr>)"
  using assms by (simp add: lease_inv_def)


lemma worker_event_safe:
  assumes D: "starshard_deps D" and inv: "sys_ok D s"
  shows "\<exists>s'. worker_op D e s = Some s' \<and> sys_ok D s' \<and> same_content D (ws_map s) (ws_map s')"
proof -
  have wf: "wf_map D (ws_map s)" and pl: "life_opts (lifecycle (ws_map s)) = None" and li: "lease_inv s"
    and ef: "w \<in> set (ws_workers s) \<Longrightarrow> 0 < wk_effective (sw_state w)" for w
    using inv by (auto simp: sys_ok_def plain_map_def)
  have plain: "plain_map D m'" if "wf_map D m'" "same_content D (ws_map s) m'" for m'
    using that pl by (simp add: plain_map_def same_content_def)
  show ?thesis
  proof (cases e)
    case (Manual b)
    show ?thesis
    proof (cases "\<exists>ok n. b = SpawnWorker ok n")
      case True
      then show ?thesis using Manual inv by auto
    next
      case False
      obtain m' where m': "background_op D b (ws_map s) = Some m'" "wf_map D m'" "same_content D (ws_map s) m'"
        using starshard_deps.background_unseen[OF D wf] by blast
      have "lease_inv (s\<lparr>ws_map := m'\<rparr>)" using starshard_deps.manual_lease[OF D wf m'(1)] False by (intro lease_inv_map[OF li]) auto
      then show ?thesis using Manual False m' plain[OF m'(2,3)] ef by (cases b) (auto simp: sys_ok_def)
    qed
  next
    case (Spawn ok n opts)
    let ?m = "snd (spawn_rebalance D ok n (ws_map s))"
    note sp = spawn_safe[OF wf, of ok n]
    show ?thesis
    proof (cases "fst (spawn_rebalance D ok n (ws_map s))")
      case (Inl err)
      have "worker_generation (rebalance_tracker ?m) = worker_generation (rebalance_tracker (ws_map s))"
        using spawn_lease_refused[OF wf Inl] .
      then show ?thesis using Spawn Inl sp plain[of ?m] lease_inv_map[OF li, of ?m] ef
        by (cases "spawn_rebalance D ok n (ws_map s)") (auto simp: sys_ok_def)
    next
      case (Inr tk)
      note l = spawn_lease_taken[OF wf Inr]
      have none: "filter running (ws_workers s) = []"
        using li l(1) by (cases "filter running (ws_workers s)" rule: remdups_adj.cases) (auto simp: lease_inv_def)
      have "lease_inv (s\<lparr>ws_map := ?m, ws_workers := ws_workers s @ [worker_new tk opts]\<rparr>)"
        using none l(2) by (simp add: lease_inv_def worker_new_def)
      then show ?thesis using Spawn Inr sp plain[of ?m] ef
        by (cases "spawn_rebalance D ok n (ws_map s)") (auto simp: sys_ok_def worker_new_def worker_start_def)
    qed
  next
    case (Turn i env)
    show ?thesis
    proof (cases "i < length (ws_workers s)")
      case True
      let ?w = "ws_workers s ! i"
      obtain w' m' where w': "worker_turn D env ?w (ws_map s) = Some (w', m')" "wf_map D m'" "same_content D (ws_map s) m'"
        "0 < wk_effective (sw_state w')" "sw_ticket w' = sw_ticket ?w" "sw_result ?w \<noteq> None \<longrightarrow> w' = ?w \<and> m' = ws_map s"
        "worker_generation (rebalance_tracker m') = (if sw_result w' = None then worker_generation (rebalance_tracker (ws_map s))
          else if sw_result ?w = None then None else worker_generation (rebalance_tracker (ws_map s)))"
        using starshard_deps.worker_turn_safe[OF D wf, of ?w env] ef True lease_inv_cases(1)[OF li True] by (metis nth_mem)
      have "lease_inv (set_worker i w' m' s)" by (rule lease_inv_worker[OF li True w'(5)]) (use w'(6,7) in auto)
      moreover have "\<forall>w \<in> set (ws_workers (set_worker i w' m' s)). 0 < wk_effective (sw_state w)"
        using ef w'(4) set_update_subset_insert[of "ws_workers s" i w'] by (auto simp: set_worker_def)
      ultimately show ?thesis using Turn True w'(1-3) plain[OF w'(2,3)] by (simp add: sys_ok_def) (simp add: set_worker_def)
    qed (use Turn inv in simp)
  next
    case (Cancel i)
    show ?thesis
    proof (cases "i < length (ws_workers s)")
      case True
      have "lease_inv (set_worker i (handle_cancel (ws_workers s ! i)) (ws_map s) s)"
        by (rule lease_inv_worker[OF li True]) (simp_all add: handle_cancel_def)
      moreover have "\<forall>w \<in> set ((ws_workers s)[i := handle_cancel (ws_workers s ! i)]). 0 < wk_effective (sw_state w)"
        using ef nth_mem[OF True] set_update_subset_insert[of "ws_workers s" i "handle_cancel (ws_workers s ! i)"]
        by (auto simp: handle_cancel_def)
      ultimately show ?thesis using Cancel True plain[OF wf] by (simp add: sys_ok_def) (simp add: set_worker_def)
    qed (use Cancel inv in simp)
  qed
qed


section \<open>Clients\<close>

lemma sys_call_eq: "sys_call D c s = on_map (run_call (insert_op D) (get_borrowed D) (remove_borrowed D) c) s"
  by (cases c) (simp_all add: on_map_def)

lemma sys_call_safe:
  assumes D: "starshard_deps D" and inv: "sys_ok D s"
  shows "\<exists>s'. sys_call D c s = Some (fst (spec_call c (view D (ws_map s))), s') \<and> sys_ok D s' \<and>
    view D (ws_map s') = snd (spec_call c (view D (ws_map s))) \<and> undisturbed D (ws_map s) (ws_map s') \<and> ws_workers s' = ws_workers s"
proof -
  have pl: "plain_map D (ws_map s)" and li: "lease_inv s" using inv by (simp_all add: sys_ok_def)
  obtain m' where m': "run_call (insert_op D) (get_borrowed D) (remove_borrowed D) c (ws_map s) = Some (fst (spec_call c (view D (ws_map s))), m')"
    "plain_map D m'" "view D m' = snd (spec_call c (view D (ws_map s)))" "undisturbed D (ws_map s) m'"
    using starshard_deps.call_undisturbed[OF D pl] by blast
  have "lease_inv (s\<lparr>ws_map := m'\<rparr>)" using m'(4) by (intro lease_inv_map[OF li]) (simp add: undisturbed_def)
  then show ?thesis unfolding sys_call_eq on_map_def using m' inv by (intro exI[of _ "s\<lparr>ws_map := m'\<rparr>"]) (auto simp: sys_ok_def)
qed

sublocale starshard_deps \<subseteq> supervised: online_contract "sys_ok D" "\<lambda>s. view D (ws_map s)" "\<lambda>k v. on_map (insert_op D k v)"
  "\<lambda>k. on_map (get_borrowed D k)" "\<lambda>k. on_map (remove_borrowed D k)" "worker_op D"
proof
  note c = sys_call_safe[OF starshard_deps_axioms]
  fix s k v assume s: "sys_ok D s"
  show "\<exists>s'. on_map (insert_op D k v) s = Some (view D (ws_map s) k, s') \<and> sys_ok D s' \<and> view D (ws_map s') \<subseteq>\<^sub>m (view D (ws_map s))(k \<mapsto> v)"
    "\<And>r s'. on_map (insert_op D k v) s = Some (r, s') \<Longrightarrow> view D (ws_map s') = (view D (ws_map s))(k \<mapsto> v)"
    using c[OF s, of "Insert k v"] by auto
  show "\<exists>s'. on_map (get_borrowed D k) s = Some (view D (ws_map s) k, s') \<and> sys_ok D s' \<and> view D (ws_map s') = view D (ws_map s)"
    using c[OF s, of "Get k"] by auto
  show "\<exists>s'. on_map (remove_borrowed D k) s = Some (view D (ws_map s) k, s') \<and> sys_ok D s' \<and> view D (ws_map s') \<subseteq>\<^sub>m (view D (ws_map s))(k := None)"
    "\<And>r s'. on_map (remove_borrowed D k) s = Some (r, s') \<Longrightarrow> view D (ws_map s') = (view D (ws_map s))(k := None)"
    using c[OF s, of "Delete k"] by auto
next
  fix s e assume "sys_ok D s"
  then show "\<exists>s'. worker_op D e s = Some s' \<and> sys_ok D s' \<and> view D (ws_map s') = view D (ws_map s)"
    using worker_event_safe[OF starshard_deps_axioms, of s e] by (auto simp: same_content_def)
qed

context starshard_deps
begin

lemma supervised_events:
  "sys_ok D s \<Longrightarrow> \<exists>s'. run_events (worker_op D) (sys_call D) es s = Some (fst (spec_calls (calls_of es) (view D (ws_map s))), s') \<and>
    sys_ok D s' \<and> view D (ws_map s') = snd (spec_calls (calls_of es) (view D (ws_map s)))"
  by (rule supervised.events_exact)

end

section \<open>Progress under traffic\<close>

text \<open>Calls of clients, and turns of worker \<open>i\<close> in which it is not cancelled.\<close>

fun drives :: "nat \<Rightarrow> worker_event + ('k, 'v) call \<Rightarrow> bool" where
  "drives i (Inl (Turn j env)) \<longleftrightarrow> j = i \<and> (\<forall>n. \<not> control_cancelled env n)"
| "drives i (Inl _) \<longleftrightarrow> False"
| "drives i (Inr _) \<longleftrightarrow> True"

fun turns :: "(worker_event + ('k, 'v) call) list \<Rightarrow> nat" where
  "turns [] = 0"
| "turns (Inl _ # es) = Suc (turns es)"
| "turns (Inr _ # es) = turns es"

definition worker_finished :: "nat \<Rightarrow> ('k, 'v, 'm, 'b) worker_sys \<Rightarrow> bool" where
  "worker_finished i s \<longleftrightarrow> i < length (ws_workers s) \<and> \<not> migrating (rebalance_tracker (ws_map s)) \<and>
     (\<exists>out. sw_result (ws_workers s ! i) = Some out \<and> out_completed out)"

definition worker_active :: "nat \<Rightarrow> ('k, 'v, 'm, 'b) worker_sys \<Rightarrow> bool" where
  "worker_active i s \<longleftrightarrow> i < length (ws_workers s) \<and> running (ws_workers s ! i) \<and> \<not> sw_cancelled (ws_workers s ! i) \<and>
     migrating (rebalance_tracker (ws_map s)) \<and> \<not> paused (telem (rebalance_tracker (ws_map s))) \<and>
     generation (telem (rebalance_tracker (ws_map s))) = ticket_generation (sw_ticket (ws_workers s ! i))"

lemma worker_finished_stable:
  assumes D: "starshard_deps D" and inv: "sys_ok D s" and f: "worker_finished i s" and e: "drives i e"
  shows "\<exists>rs s'. run_events (worker_op D) (sys_call D) [e] s = Some (rs, s') \<and> sys_ok D s' \<and> worker_finished i s'"
proof (cases e)
  case (Inl ev)
  then obtain env where ev: "ev = Turn i env" using e by (cases ev) auto
  let ?w = "ws_workers s ! i"
  have "worker_op D ev s = Some (set_worker i ?w (ws_map s) s)" using f by (auto simp: ev worker_finished_def worker_turn_def)
  moreover have "set_worker i ?w (ws_map s) s = s" using f by (simp add: set_worker_def worker_finished_def)
  ultimately show ?thesis using Inl inv f by simp
next
  case (Inr c)
  then show ?thesis using sys_call_safe[OF D inv, of c] f by (auto simp: worker_finished_def undisturbed_def)
qed

lemma worker_active_step:
  assumes D: "starshard_deps D" and inv: "sys_ok D s" and a: "worker_active i s" and e: "drives i e"
  shows "\<exists>rs s'. run_events (worker_op D) (sys_call D) [e] s = Some (rs, s') \<and> sys_ok D s' \<and>
    (worker_finished i s' \<or> worker_active i s' \<and> remaining D (ws_map s') + turns [e] \<le> remaining D (ws_map s))"
proof (cases e)
  case (Inr c)
  then show ?thesis using sys_call_safe[OF D inv, of c] a by (auto simp: worker_active_def undisturbed_def)
next
  case (Inl ev)
  then obtain env where ev: "ev = Turn i env" and nc: "\<And>n. \<not> control_cancelled env n" using e by (cases ev) auto
  let ?w = "ws_workers s ! i" and ?m = "ws_map s"
  have wf: "wf_map D ?m" and i: "i < length (ws_workers s)" and ef: "0 < wk_effective (sw_state ?w)"
    using inv a by (auto simp: sys_ok_def plain_map_def worker_active_def)
  let ?tk = "(sw_ticket ?w)\<lparr>ticket_complete := False, ticket_target := shard_count ?m\<rparr>"
  have lease: "worker_generation (rebalance_tracker ?m) = Some (ticket_generation (sw_ticket ?w))"
    using lease_inv_cases(1)[OF _ i] inv a by (simp add: sys_ok_def worker_active_def)
  have rd: "worker_ready ?tk ?m" using a lease by (simp add: worker_active_def worker_ready_def)
  have wait: "wait_ready (ticket_generation (sw_ticket ?w)) (sw_cancelled ?w) (rebalance_tracker ?m) = Some True"
    using a by (simp add: worker_active_def wait_ready_def wait_blocks_def wait_result_def)
  obtain stop st m' where r: "worker_round D env (sw_opts ?w) (ticket_generation (sw_ticket ?w)) (sw_state ?w) ?m = Some (stop, st, m')"
    "if stop then \<not> migrating (rebalance_tracker m') \<and> wk_completed st else worker_ready ?tk m' \<and> remaining D m' < remaining D ?m"
    using starshard_deps.worker_round_ok[OF D wf rd _ nc ef, of "sw_opts ?w"] by fastforce
  let ?s' = "set_worker i (fst (if stop then worker_returns D ?w st m' else (?w\<lparr>sw_state := st\<rparr>, m')))
    (snd (if stop then worker_returns D ?w st m' else (?w\<lparr>sw_state := st\<rparr>, m'))) s"
  have run: "worker_op D ev s = Some ?s'"
    using i wait r(1) a by (simp add: ev worker_turn_def worker_active_def split_beta)
  have ok: "sys_ok D ?s'" using worker_event_safe[OF D inv, of ev] run by auto
  have "worker_finished i ?s' \<or> worker_active i ?s' \<and> remaining D (ws_map ?s') + 1 \<le> remaining D ?m"
  proof (cases stop)
    case True
    then show ?thesis using r(2) i
      by (simp add: worker_finished_def set_worker_def worker_returns_def worker_outcome_def release_worker_def Let_def)
  next
    case False
    then show ?thesis using r(2) i a by (simp add: worker_active_def set_worker_def worker_ready_def)
  qed
  then show ?thesis using Inl run ok by simp
qed

lemma run_events_append1:
  "run_events bg call (e # es) s = (case run_events bg call [e] s of None \<Rightarrow> None
     | Some (rs, s1) \<Rightarrow> map_option (\<lambda>(rs', s2). (rs @ rs', s2)) (run_events bg call es s1))"
  by (cases e) (auto simp: option.map_id split: option.splits bind_splits prod.splits)

lemma worker_finished_run:
  assumes "starshard_deps D" "sys_ok D s" "worker_finished i s" "list_all (drives i) es"
  shows "\<exists>rs s'. run_events (worker_op D) (sys_call D) es s = Some (rs, s') \<and> sys_ok D s' \<and> worker_finished i s'"
  using assms(2-4)
proof (induction es arbitrary: s)
  case (Cons e es)
  obtain rs s1 where 1: "run_events (worker_op D) (sys_call D) [e] s = Some (rs, s1)" "sys_ok D s1" "worker_finished i s1"
    using worker_finished_stable[OF assms(1) Cons.prems(1,2), of e] Cons.prems(3) by auto
  then show ?case using Cons.IH[OF 1(2,3)] Cons.prems(3) by (subst run_events_append1) auto
qed simp

lemma worker_drives_run:
  assumes "starshard_deps D" "sys_ok D s" "worker_active i s" "list_all (drives i) es" "remaining D (ws_map s) \<le> turns es"
  shows "\<exists>rs s'. run_events (worker_op D) (sys_call D) es s = Some (rs, s') \<and> sys_ok D s' \<and> worker_finished i s'"
  using assms(2-5)
proof (induction es arbitrary: s)
  case Nil
  have "wf_dirs D (ws_map s)" "migrating (rebalance_tracker (ws_map s))"
    using Nil.prems(1,2) by (simp_all add: sys_ok_def plain_map_def wf_map_def worker_active_def)
  then have "0 < remaining D (ws_map s)" using migration_okE(3) by (fastforce simp: remaining_def)
  then show ?case using Nil.prems(4) by simp
next
  case (Cons e es)
  obtain rs s1 where 1: "run_events (worker_op D) (sys_call D) [e] s = Some (rs, s1)" "sys_ok D s1"
    "worker_finished i s1 \<or> worker_active i s1 \<and> remaining D (ws_map s1) + turns [e] \<le> remaining D (ws_map s)"
    using worker_active_step[OF assms(1) Cons.prems(1,2), of e] Cons.prems(3) by auto
  have t: "turns (e # es) = turns [e] + turns es" by (cases e) simp_all
  have "\<exists>rs s'. run_events (worker_op D) (sys_call D) es s1 = Some (rs, s') \<and> sys_ok D s' \<and> worker_finished i s'"
  proof (cases "worker_finished i s1")
    case True
    then show ?thesis using worker_finished_run[OF assms(1) 1(2)] Cons.prems(3) by simp
  next
    case False
    then show ?thesis using Cons.IH[OF 1(2)] 1(3) Cons.prems(3,4) t by simp
  qed
  then show ?case using 1(1) by (subst run_events_append1) auto
qed


lemma cancelled_turn:
  assumes "i < length (ws_workers s)" "running (ws_workers s ! i)" "sw_cancelled (ws_workers s ! i)"
  shows "\<exists>s'. worker_op D (Turn i env) s = Some s' \<and> \<not> running (ws_workers s' ! i) \<and>
    shards (ws_map s') = shards (ws_map s) \<and> previous_shards (ws_map s') = previous_shards (ws_map s)"
  using assms by (simp add: worker_turn_def wait_ready_def wait_blocks_def wait_result_def worker_returns_def set_worker_def)

lemma lease_holders:
  assumes "lease_inv s"
  shows "length (filter running (ws_workers s)) = (if worker_generation (rebalance_tracker (ws_map s)) = None then 0 else 1)"
  using assms by (cases "filter running (ws_workers s)" rule: remdups_adj.cases) (auto simp: lease_inv_def)

section \<open>Properties\<close>

text \<open>
  C11: a supervised worker serves its clients. In any interleaving of clients' calls, worker turns, spawns,
  cancellations, pauses and resharding by hand on a map without a policy, the calls are answered exactly as by
  a finite map; there is one worker that has not returned if the lease is taken and none otherwise; a
  cancelled worker returns at its next turn and moves nothing; and a worker that is neither cancelled nor
  paused finishes its migration after at most as many turns as there were entries and slots left, whatever
  the clients do in between, and its handle's \<open>join\<close> reports completion.
\<close>

theorem worker_serves_clients:
  assumes "starshard_deps D" "wf_map D m" "configured (lifecycle m) = None" "worker_generation (rebalance_tracker m) = None"
  shows "\<exists>s. run_events (worker_op D) (sys_call D) es \<lparr>ws_map = m, ws_workers = []\<rparr> = Some (fst (spec_calls (calls_of es) (view D m)), s) \<and>
    wf_map D (ws_map s) \<and> view D (ws_map s) = snd (spec_calls (calls_of es) (view D m)) \<and>
    length (filter running (ws_workers s)) = (if worker_generation (rebalance_tracker (ws_map s)) = None then 0 else 1) \<and>
    (i < length (ws_workers s) \<and> running (ws_workers s ! i) \<and> sw_cancelled (ws_workers s ! i) \<longrightarrow>
      (\<exists>s'. worker_op D (Turn i env) s = Some s' \<and> \<not> running (ws_workers s' ! i) \<and> shards (ws_map s') = shards (ws_map s) \<and>
        previous_shards (ws_map s') = previous_shards (ws_map s))) \<and>
    (worker_active i s \<and> list_all (drives i) later \<and> remaining D (ws_map s) \<le> turns later \<longrightarrow>
      (\<exists>rs s' out. run_events (worker_op D) (sys_call D) later s = Some (rs, s') \<and> \<not> migrating (rebalance_tracker (ws_map s')) \<and>
        handle_join False (ws_workers s' ! i) = Some (Inr out) \<and> out_completed out))"
proof -
  let ?s0 = "\<lparr>ws_map = m, ws_workers = []\<rparr>"
  have ok: "sys_ok D ?s0" using assms by (simp add: sys_ok_def plain_map_def opts_None lease_inv_def)
  obtain s where s: "run_events (worker_op D) (sys_call D) es ?s0 = Some (fst (spec_calls (calls_of es) (view D m)), s)" "sys_ok D s"
    "view D (ws_map s) = snd (spec_calls (calls_of es) (view D m))"
    using starshard_deps.supervised_events[OF assms(1) ok] by auto
  have fin: "\<exists>rs s' out. run_events (worker_op D) (sys_call D) later s = Some (rs, s') \<and> \<not> migrating (rebalance_tracker (ws_map s')) \<and>
      handle_join False (ws_workers s' ! i) = Some (Inr out) \<and> out_completed out"
    if "worker_active i s" "list_all (drives i) later" "remaining D (ws_map s) \<le> turns later"
    using worker_drives_run[OF assms(1) s(2) that] by (auto simp: worker_finished_def handle_join_def)
  have wf: "wf_map D (ws_map s)" and li: "lease_inv s" using s(2) by (simp_all add: sys_ok_def plain_map_def)
  show ?thesis
    by (intro exI[of _ s] conjI impI s(1,3) wf lease_holders[OF li] cancelled_turn fin; elim conjE; assumption)
qed

theorem worker_serves_clients_witness:
  "\<exists>s. run_events (worker_op nat_deps) (sys_call nat_deps)
      [Inr (Insert 5 50), Inl (Spawn True 4 \<lparr>opt_background = True, opt_batch_size = 1, opt_max_pause_ns = 0\<rparr>), Inr (Get 5), Inl (Cancel 0), Inr (Delete 5)]
      \<lparr>ws_map = fresh_map Cow, ws_workers = []\<rparr> = Some ([None, Some 50, Some 50], s) \<and>
    wf_map nat_deps (ws_map s) \<and> view nat_deps (ws_map s) = Map.empty"
proof -
  let ?es = "[Inr (Insert 5 50), Inl (Spawn True 4 \<lparr>opt_background = True, opt_batch_size = 1, opt_max_pause_ns = 0\<rparr>), Inr (Get 5),
    Inl (Cancel 0), Inr (Delete 5)] :: (worker_event + (nat, nat) call) list"
  let ?D = "nat_deps :: (nat, nat, (nat, nat) alist_map, (u64, nat entry list) alist_map) deps"
  have v: "view ?D (fresh_map Cow) = Map.empty" by simp
  have c: "fst (spec_calls (calls_of ?es) Map.empty) = [None, Some 50, Some 50]" "snd (spec_calls (calls_of ?es) Map.empty) = Map.empty" by simp_all
  have "wf_map ?D (fresh_map Cow)" by simp
  moreover have "configured (lifecycle (fresh_map Cow)) = None" "worker_generation (rebalance_tracker (fresh_map Cow)) = None"
    by (simp_all add: fresh_map_def tracker_new_def)
  ultimately show ?thesis
    using worker_serves_clients[OF nat_deps_laws, where m = "fresh_map Cow" and es = ?es and i = 0 and later = "[]", unfolded v c] by blast
qed

end
