(* ===== verification/Lock_Order.thy ===== *)
theory Lock_Order
  imports Starshard_Prelude
begin

text \<open>
  Threads and read-write locks, independent of what the locks protect. A thread is described by its
  program counter: the locks it holds there and the lock its next step takes. \<open>granted\<close> is what any
  read-write lock guarantees; \<open>let_in\<close> is the most reluctant lock the standard library allows, one
  that keeps readers out as soon as a writer waits. The locale states the discipline that rules
  deadlocks out: locks are taken in increasing order, but for locks nobody ever writes.
\<close>

datatype lock_mode = Read_Lock | Write_Lock

type_synonym 'l lock_use = "'l \<times> lock_mode"

fun uses_clash :: "'l lock_use \<Rightarrow> 'l lock_use \<Rightarrow> bool" where
  "uses_clash (l, a) (l', b) \<longleftrightarrow> l = l' \<and> (a = Write_Lock \<or> b = Write_Lock)"

lemma uses_clash_sym: "uses_clash x y = uses_clash y x"
  by (cases x; cases y) auto

definition compatible :: "('p \<Rightarrow> 'l lock_use list) \<Rightarrow> 'p list \<Rightarrow> bool" where
  "compatible holds ps \<longleftrightarrow>
     (\<forall>t < length ps. \<forall>u < length ps. t \<noteq> u \<longrightarrow> (\<forall>x \<in> set (holds (ps ! t)). \<forall>y \<in> set (holds (ps ! u)). \<not> uses_clash x y))"

text \<open>May thread \<open>t\<close> take its next step? Only locks held by other threads can stop it.\<close>

definition granted :: "('p \<Rightarrow> 'l lock_use list) \<Rightarrow> ('p \<Rightarrow> 'l lock_use option) \<Rightarrow> 'p list \<Rightarrow> nat \<Rightarrow> bool" where
  "granted holds wants ps t \<longleftrightarrow>
     (case wants (ps ! t) of
        None \<Rightarrow> True
      | Some x \<Rightarrow> (\<forall>u < length ps. u \<noteq> t \<longrightarrow> (\<forall>y \<in> set (holds (ps ! u)). \<not> uses_clash x y)))"

text \<open>With writers preferred: a reader also waits for every thread that is about to write the lock.\<close>

definition let_in :: "('p \<Rightarrow> 'l lock_use list) \<Rightarrow> ('p \<Rightarrow> 'l lock_use option) \<Rightarrow> 'p list \<Rightarrow> nat \<Rightarrow> bool" where
  "let_in holds wants ps t \<longleftrightarrow>
     granted holds wants ps t \<and>
     (case wants (ps ! t) of
        Some (l, Read_Lock) \<Rightarrow> (\<forall>u < length ps. u \<noteq> t \<longrightarrow> wants (ps ! u) \<noteq> Some (l, Write_Lock))
      | _ \<Rightarrow> True)"

lemma compatible_step:
  assumes c: "compatible holds ps" and t: "t < length ps" and g: "granted holds wants ps t"
    and sub: "set (holds p') \<subseteq> set (holds (ps ! t)) \<union> set_option (wants (ps ! t))"
  shows "compatible holds (ps[t := p'])"
proof -
  have new: "\<not> uses_clash x y" if u: "u < length ps" "u \<noteq> t" and x: "x \<in> set (holds p')" and y: "y \<in> set (holds (ps ! u))" for u x y
  proof (cases "x \<in> set (holds (ps ! t))")
    case True
    then show ?thesis using c t u y unfolding compatible_def by metis
  next
    case False
    then have "wants (ps ! t) = Some x" using sub x by auto
    then show ?thesis using g u y unfolding granted_def by simp
  qed
  show ?thesis
    unfolding compatible_def
  proof (intro allI impI ballI)
    fix v u x y assume v: "v < length (ps[t := p'])" "u < length (ps[t := p'])" "v \<noteq> u"
      and x: "x \<in> set (holds (ps[t := p'] ! v))" and y: "y \<in> set (holds (ps[t := p'] ! u))"
    consider "v = t" | "u = t" "v \<noteq> t" | "v \<noteq> t" "u \<noteq> t" by blast
    then show "\<not> uses_clash x y"
    proof cases
      case 1
      then show ?thesis using new[of u x y] v x y by simp
    next
      case 2
      then show ?thesis using new[of v y x] v x y uses_clash_sym[of x y] by simp
    next
      case 3
      then show ?thesis using c v x y unfolding compatible_def by (metis length_list_update nth_list_update_neq)
    qed
  qed
qed

text \<open>What the others hold while a thread writes.\<close>

definition writes :: "('p \<Rightarrow> 'l lock_use list) \<Rightarrow> ('p \<Rightarrow> 'l lock_use option) \<Rightarrow> 'p \<Rightarrow> 'l set" where
  "writes holds wants p = {l. (l, Write_Lock) \<in> set (holds p) \<union> set_option (wants p)}"

lemma writes_exclusive:
  assumes "compatible holds ps" "granted holds wants ps t" "t < length ps" "u < length ps" "u \<noteq> t"
    and "l \<in> writes holds wants (ps ! t)"
  shows "(l, a) \<notin> set (holds (ps ! u))"
proof
  assume h: "(l, a) \<in> set (holds (ps ! u))"
  show False
  proof (cases "(l, Write_Lock) \<in> set (holds (ps ! t))")
    case True
    then show False using assms(1,3-5) h unfolding compatible_def by (metis uses_clash.simps)
  next
    case False
    then have "wants (ps ! t) = Some (l, Write_Lock)" using assms(6) by (auto simp: writes_def)
    then show False using assms(2,4,5) h unfolding granted_def by fastforce
  qed
qed

section \<open>Locks in order\<close>

locale lock_order =
  fixes holds :: "'p \<Rightarrow> ('l :: linorder) lock_use list"
    and wants :: "'p \<Rightarrow> 'l lock_use option"
    and busy :: "'p \<Rightarrow> bool"
    and unwritten :: "'l \<Rightarrow> bool"
    and valid :: "'p \<Rightarrow> bool"
  assumes ordered: "\<lbrakk>valid p; wants p = Some (l, a); (l', b) \<in> set (holds p); \<not> unwritten l; \<not> unwritten l'\<rbrakk> \<Longrightarrow> l' < l"
    and only_read: "valid p \<Longrightarrow> unwritten l \<Longrightarrow> (l, Write_Lock) \<notin> set (holds p) \<and> wants p \<noteq> Some (l, Write_Lock)"
    and idle: "\<not> busy p \<Longrightarrow> holds p = [] \<and> wants p = None"
begin

lemma refused_wants:
  assumes r: "\<not> let_in holds wants ps t" "t < length ps" and v: "\<And>u. u < length ps \<Longrightarrow> valid (ps ! u)"
  obtains l a where "wants (ps ! t) = Some (l, a)" "\<not> unwritten l"
proof (cases "wants (ps ! t)")
  case None
  then show ?thesis using r by (simp add: let_in_def granted_def)
next
  case (Some x)
  obtain l a where x: "x = (l, a)" by (cases x)
  have "\<not> unwritten l"
  proof
    assume u: "unwritten l"
    then have "a = Read_Lock" using only_read[OF v[OF r(2)] u] Some x by (cases a) auto
    then show False using r(1) Some x only_read[OF v u] by (auto simp: let_in_def granted_def)
  qed
  then show ?thesis using that Some x by blast
qed

text \<open>Whoever is refused waits, directly or behind a writer, for a thread that holds the lock.\<close>

lemma refused_holder:
  assumes r: "\<And>u. u < length ps \<Longrightarrow> busy (ps ! u) \<Longrightarrow> \<not> let_in holds wants ps u"
    and t: "t < length ps" "busy (ps ! t)" and w: "wants (ps ! t) = Some (l, a)"
  shows "\<exists>u < length ps. \<exists>b. (l, b) \<in> set (holds (ps ! u))"
proof (cases "granted holds wants ps t")
  case False
  then show ?thesis using w unfolding granted_def by (auto elim!: uses_clash.elims)
next
  case True
  then obtain u where u: "u < length ps" "wants (ps ! u) = Some (l, Write_Lock)"
    using r[OF t] w by (auto simp: let_in_def split: lock_mode.splits)
  then have "busy (ps ! u)" using idle[of "ps ! u"] by auto
  then have "\<not> granted holds wants ps u" using r[OF u(1)] u(2) by (simp add: let_in_def)
  then show ?thesis using u(2) unfolding granted_def by (auto elim!: uses_clash.elims)
qed

theorem someone_let_in:
  assumes v: "\<And>u. u < length ps \<Longrightarrow> valid (ps ! u)" and t: "t < length ps" "busy (ps ! t)"
  shows "\<exists>u < length ps. busy (ps ! u) \<and> let_in holds wants ps u"
proof (rule ccontr)
  assume "\<not> ?thesis"
  then have r: "\<And>u. u < length ps \<Longrightarrow> busy (ps ! u) \<Longrightarrow> \<not> let_in holds wants ps u" by blast
  define wanted where "wanted = {l. \<not> unwritten l \<and> (\<exists>u < length ps. busy (ps ! u) \<and> (\<exists>a. wants (ps ! u) = Some (l, a)))}"
  have "wanted \<subseteq> (\<lambda>u. fst (the (wants (ps ! u)))) ` {..< length ps}" unfolding wanted_def by force
  then have fin: "finite wanted" by (rule finite_subset) simp
  obtain l a where "wants (ps ! t) = Some (l, a)" "\<not> unwritten l" using refused_wants[OF r[OF t] t(1) v] .
  then have "l \<in> wanted" using t unfolding wanted_def by blast
  then have "wanted \<noteq> {}" by blast
  then have top: "Max wanted \<in> wanted" using fin by (rule Max_in[rotated])
  then obtain u a where u: "u < length ps" "busy (ps ! u)" "wants (ps ! u) = Some (Max wanted, a)" "\<not> unwritten (Max wanted)"
    unfolding wanted_def by blast
  obtain h b where h: "h < length ps" "(Max wanted, b) \<in> set (holds (ps ! h))" using refused_holder[OF r u(1-3)] by blast
  then have bh: "busy (ps ! h)" by (metis idle empty_iff list.set(1))
  obtain l c where l: "wants (ps ! h) = Some (l, c)" "\<not> unwritten l" using refused_wants[OF r[OF h(1) bh] h(1) v] .
  then have "Max wanted < l" using ordered[OF v[OF h(1)] l(1) h(2) l(2) u(4)] by simp
  moreover have "l \<in> wanted" unfolding wanted_def using h(1) bh l by blast
  ultimately show False using Max_ge[OF fin, of l] by simp
qed

end

end
