(* ===== verification/Map_Threads.thy ===== *)
theory Map_Threads
  imports Lock_Order Sync_Snapshots Sync_Whole
begin

text \<open>
  Both maps at the grain of their locks. The other theories run an operation as one step; here
  \<open>insert\<close>, \<open>get\<close>, \<open>remove\<close>, the compare-and-swap family, the closure operations, transactions and \<open>snapshot_view\<close> of
  \<open>core/sync_impl.rs\<close> and \<open>core/async_impl.rs\<close> are cut wherever the
  source takes a lock, and any number of threads or tasks interleave at these points. A program counter records the locks held;
  a lock that is taken and given back within one statement (a directory lookup) is only asked for. What
  runs under the exclusive routing lock (\<open>retain\<close>, \<open>clear\<close>, \<open>drain\<close> and the resharding entry points) is one step with that lock held, and
  \<open>resume_rebalance\<close> is a step without locks. Maps have no eviction policy here, so that the call after the routing
  lock is dropped does nothing. The shard a guard refers to is the slot the directory names, since
  slots are only replaced under the exclusive routing lock. The two maps share most of these steps; where their code differs
  is a \<open>thread_code\<close>.
\<close>

section \<open>The locks\<close>

datatype lock = Builder | Resharding | Routing | Directory | PrevDirectory | Active nat | Previous nat

text \<open>The order the comments of \<open>lib.rs\<close> state: routing, directories, active shards, previous shards, by index.\<close>

fun lock_rank :: "lock \<Rightarrow> nat \<times> nat" where
  "lock_rank Builder = (0, 0)"
| "lock_rank Resharding = (1, 0)"
| "lock_rank Routing = (2, 0)"
| "lock_rank Directory = (3, 0)"
| "lock_rank PrevDirectory = (4, 0)"
| "lock_rank (Active i) = (5, i)"
| "lock_rank (Previous j) = (6, j)"

lemma lock_rank_inj: "lock_rank l = lock_rank l' \<Longrightarrow> l = l'"
  by (cases l; cases l') simp_all

instantiation lock :: linorder
begin

definition less_eq_lock :: "lock \<Rightarrow> lock \<Rightarrow> bool" where
  "less_eq_lock l l' \<longleftrightarrow>
     fst (lock_rank l) < fst (lock_rank l') \<or> fst (lock_rank l) = fst (lock_rank l') \<and> snd (lock_rank l) \<le> snd (lock_rank l')"

definition less_lock :: "lock \<Rightarrow> lock \<Rightarrow> bool" where
  "less_lock l l' \<longleftrightarrow>
     fst (lock_rank l) < fst (lock_rank l') \<or> fst (lock_rank l) = fst (lock_rank l') \<and> snd (lock_rank l) < snd (lock_rank l')"

instance
  by standard (auto simp: less_eq_lock_def less_lock_def intro: lock_rank_inj[OF prod_eqI])

end

section \<open>Operations\<close>

text \<open>
  What a thread may do: an operation on one key, a snapshot, a transaction, or an operation that runs alone, under the
  exclusive routing lock. The closures of \<open>get_or_insert_with\<close>, \<open>compute_if_present\<close> and \<open>retain\<close> are functions.
\<close>

datatype ('k, 'v) request =
    Call "('k, 'v) call"
  | Swap 'k 'v 'v
  | RemoveIf 'k 'v
  | OrInsert 'k "unit \<Rightarrow> 'v"
  | IfPresent 'k "'v \<Rightarrow> 'v option"

datatype ('e, 'k, 'v) alone = Reshard 'e | Retain "'k \<Rightarrow> 'v \<Rightarrow> bool" | Clear | Drain

datatype ('e, 'k, 'v) operation = Keyed "('k, 'v) request" | Scan | Txn "('k, 'v) txn_op list" | Alone "('e, 'k, 'v) alone"

datatype ('k, 'v) reply =
    Value "'v option"
  | Swapped "'v cas_result"
  | Matched bool
  | Listed "('k \<times> 'v) list"
  | Outcome "unit transaction_result"
  | Done

fun call_key :: "('k, 'v) call \<Rightarrow> 'k" where
  "call_key (Insert k v) = k"
| "call_key (Get k) = k"
| "call_key (Delete k) = k"

fun request_key :: "('k, 'v) request \<Rightarrow> 'k" where
  "request_key (Call c) = call_key c"
| "request_key (Swap k expected new) = k"
| "request_key (RemoveIf k expected) = k"
| "request_key (OrInsert k f) = k"
| "request_key (IfPresent k f) = k"

fun request_mode :: "('k, 'v) request \<Rightarrow> lock_mode" where
  "request_mode (Call (Get k)) = Read_Lock"
| "request_mode _ = Write_Lock"

section \<open>Program counters\<close>

datatype ('e, 'k, 'v, 'm) pc =
    Idle
  | Ticket "('e, 'k, 'v) operation"
  | Enter "('e, 'k, 'v) operation"
  | Locate "('k, 'v) request"
  | Lookup "('k, 'v) request" nat
  | Init "('k, 'v) request" nat
  | LockActive "('k, 'v) request" nat
  | Fallback "('k, 'v) request" nat
  | LockPrevious "('k, 'v) request" nat nat
  | Mutate "('k, 'v) request" nat
  | Missing 'k
  | MissingPrevious 'k nat
  | TxnLookup "('k, 'v) txn_op list" "nat list" "nat list"
  | TxnInit "('k, 'v) txn_op list" "nat list" nat "nat list"
  | TxnPrevious "('k, 'v) txn_op list" "nat list"
  | TxnLock "('k, 'v) txn_op list" "nat list" "lock list" "lock list"
  | TxnRun "('k, 'v) txn_op list" "nat list" "lock list"
  | ScanRouting
  | ScanDirectory
  | ScanPrevious
  | ScanLock "lock list" "lock list"
  | Copy "lock list" "'m list"
  | Gate "('e, 'k, 'v) alone"
  | LockRouting bool "('e, 'k, 'v) alone"
  | Exclusive bool "('e, 'k, 'v) alone"
  | Resuming 'e
  | Leave "('e, 'k, 'v) operation" "('k, 'v) reply"

fun wants :: "('e, 'k, 'v, 'm) pc \<Rightarrow> lock lock_use option" where
  "wants (Enter (Keyed c)) = Some (Routing, Read_Lock)"
| "wants (Enter (Txn xs)) = Some (Routing, Read_Lock)"
| "wants (Enter Scan) = Some (Builder, Write_Lock)"
| "wants (Locate c) = Some (Directory, Read_Lock)"
| "wants (Lookup c i) = Some (Directory, Read_Lock)"
| "wants (Init c i) = Some (Directory, Write_Lock)"
| "wants (LockActive c i) = Some (Active i, request_mode c)"
| "wants (Fallback c i) = Some (PrevDirectory, Read_Lock)"
| "wants (LockPrevious c i j) = Some (Previous j, request_mode c)"
| "wants (Missing k) = Some (PrevDirectory, Read_Lock)"
| "wants (MissingPrevious k j) = Some (Previous j, Read_Lock)"
| "wants (TxnLookup xs active (i # todo)) = Some (Directory, Read_Lock)"
| "wants (TxnInit xs active i todo) = Some (Directory, Write_Lock)"
| "wants (TxnPrevious xs active) = Some (PrevDirectory, Read_Lock)"
| "wants (TxnLock xs active held (l # todo)) = Some (l, Write_Lock)"
| "wants (Gate b) = Some (Resharding, Write_Lock)"
| "wants (LockRouting gated b) = Some (Routing, Write_Lock)"
| "wants ScanRouting = Some (Routing, Read_Lock)"
| "wants ScanDirectory = Some (Directory, Read_Lock)"
| "wants ScanPrevious = Some (PrevDirectory, Read_Lock)"
| "wants (ScanLock held (l # todo)) = Some (l, Read_Lock)"
| "wants _ = None"

definition gate_use :: "bool \<Rightarrow> lock lock_use list" where
  "gate_use gated = (if gated then [(Resharding, Write_Lock)] else [])"

definition scan_uses :: "lock list \<Rightarrow> lock lock_use list" where
  "scan_uses held = map (\<lambda>l. (l, Read_Lock)) ([Routing, Directory, PrevDirectory] @ held)"

definition txn_uses :: "lock list \<Rightarrow> lock lock_use list" where
  "txn_uses held = (Routing, Read_Lock) # map (\<lambda>l. (l, Write_Lock)) held"

fun holds :: "('e, 'k, 'v, 'm) pc \<Rightarrow> lock lock_use list" where
  "holds Idle = []"
| "holds (Ticket p) = []"
| "holds (Enter p) = []"
| "holds (Locate c) = [(Routing, Read_Lock)]"
| "holds (Lookup c i) = [(Routing, Read_Lock)]"
| "holds (Init c i) = [(Routing, Read_Lock)]"
| "holds (LockActive c i) = [(Routing, Read_Lock)]"
| "holds (Fallback c i) = [(Routing, Read_Lock), (Active i, request_mode c)]"
| "holds (LockPrevious c i j) = [(Routing, Read_Lock), (Active i, request_mode c)]"
| "holds (Mutate c i) = [(Routing, Read_Lock), (Active i, request_mode c)]"
| "holds (Missing k) = [(Routing, Read_Lock), (Directory, Read_Lock)]"
| "holds (MissingPrevious k j) = [(Routing, Read_Lock), (Directory, Read_Lock)]"
| "holds (TxnLookup xs active todo) = txn_uses []"
| "holds (TxnInit xs active i todo) = txn_uses []"
| "holds (TxnPrevious xs active) = txn_uses []"
| "holds (TxnLock xs active held todo) = txn_uses held"
| "holds (TxnRun xs active held) = txn_uses held"
| "holds ScanRouting = [(Builder, Write_Lock)]"
| "holds ScanDirectory = [(Builder, Write_Lock), (Routing, Read_Lock)]"
| "holds ScanPrevious = [(Builder, Write_Lock), (Routing, Read_Lock), (Directory, Read_Lock)]"
| "holds (ScanLock held todo) = (Builder, Write_Lock) # scan_uses held"
| "holds (Copy held acc) = (Builder, Write_Lock) # scan_uses held"
| "holds (Gate b) = []"
| "holds (LockRouting gated b) = gate_use gated"
| "holds (Exclusive gated b) = (Routing, Write_Lock) # gate_use gated"
| "holds (Resuming b) = []"
| "holds (Leave (Keyed c) out) = [(Routing, Read_Lock)]"
| "holds (Leave (Txn xs) out) = [(Routing, Read_Lock)]"
| "holds (Leave Scan out) = [(Builder, Write_Lock)]"
| "holds (Leave (Alone b) out) = []"

section \<open>Steps of one thread\<close>

type_synonym ('e, 'k, 'v, 'm, 'b) pc_step = "(('e, 'k, 'v, 'm) pc \<times> ('k, 'v, 'm, 'b) sharded_map) option"

definition slot_guard :: "'m slots \<Rightarrow> nat \<Rightarrow> 'm shard_data option" where
  "slot_guard slots i = Option.bind (index_checked slots i) id"

text \<open>A read ends: the read is recorded and the shard guards are dropped.\<close>

definition read_done :: "('k, 'v, 'm, 'b) deps \<Rightarrow> 'k \<Rightarrow> 'v option \<Rightarrow> ('k, 'v, 'm, 'b) sharded_map \<Rightarrow> ('e, 'k, 'v, 'm) pc \<times> ('k, 'v, 'm, 'b) sharded_map" where
  "read_done D k r m = (Leave (Keyed (Call (Get k))) (Value r), tracked_read D k r m)"

text \<open>\<open>get_or_init_shard\<close>: the read of the slot, then its creation under the directory's write lock.\<close>

definition lookup_shard :: "('k, 'v) request \<Rightarrow> nat \<Rightarrow> ('k, 'v, 'm, 'b) sharded_map \<Rightarrow> ('e, 'k, 'v, 'm, 'b) pc_step" where
  "lookup_shard c i m = do {
     slot \<leftarrow> index_checked (shards m) i;
     Some (if slot = None then Init c i else LockActive c i, m)
   }"

definition init_shard :: "('k, 'v, 'm, 'b) deps \<Rightarrow> ('k, 'v) request \<Rightarrow> nat \<Rightarrow> ('k, 'v, 'm, 'b) sharded_map \<Rightarrow> ('e, 'k, 'v, 'm, 'b) pc_step" where
  "init_shard D c i m = do {
     (_, m') \<leftarrow> get_or_init_shard D m i;
     Some (LockActive c i, m')
   }"

definition lock_active :: "('k, 'v, 'm, 'b) deps \<Rightarrow> ('k, 'v) request \<Rightarrow> nat \<Rightarrow> ('k, 'v, 'm, 'b) sharded_map \<Rightarrow> ('e, 'k, 'v, 'm, 'b) pc_step" where
  "lock_active D c i m =
     (case c of
        Call (Get k) \<Rightarrow> do {
          active \<leftarrow> slot_guard (shards m) i;
          Some (case hb_get (shard_ops D) (as_map active) k of
                  Some v \<Rightarrow> read_done D k (Some v) m
                | None \<Rightarrow> (Fallback c i, m))
        }
      | _ \<Rightarrow> Some (Fallback c i, m))"

text \<open>\<open>previous_shard\<close>, whose result is \<open>found\<close>, with the active shard locked.\<close>

definition find_previous ::
  "('k, 'v, 'm, 'b) deps \<Rightarrow> (nat \<times> 'm shard_data) option option \<Rightarrow> ('k, 'v) request \<Rightarrow> nat \<Rightarrow> ('k, 'v, 'm, 'b) sharded_map \<Rightarrow> ('e, 'k, 'v, 'm, 'b) pc_step" where
  "find_previous D found c i m = do {
     prev \<leftarrow> found;
     Some (case prev of
             Some (j, _) \<Rightarrow> (LockPrevious c i j, m)
           | None \<Rightarrow> (case c of Call (Get k) \<Rightarrow> read_done D k None m | _ \<Rightarrow> (Mutate c i, m)))
   }"

definition read_previous :: "('k, 'v, 'm, 'b) deps \<Rightarrow> 'k \<Rightarrow> nat \<Rightarrow> ('k, 'v, 'm, 'b) sharded_map \<Rightarrow> ('e, 'k, 'v, 'm, 'b) pc_step" where
  "read_previous D k j m = do {
     previous \<leftarrow> slot_guard (prev_slots m) j;
     Some (read_done D k (hb_get (shard_ops D) (as_map previous) k) m)
   }"

definition promote_locked :: "('k, 'v, 'm, 'b) deps \<Rightarrow> ('k, 'v) request \<Rightarrow> nat \<Rightarrow> nat \<Rightarrow> ('k, 'v, 'm, 'b) sharded_map \<Rightarrow> ('e, 'k, 'v, 'm, 'b) pc_step" where
  "promote_locked D c i j m = do {
     active \<leftarrow> slot_guard (shards m) i;
     previous \<leftarrow> slot_guard (prev_slots m) j;
     if hb_get (shard_ops D) (as_map previous) (request_key c) \<noteq> None
     then (let (a, p) = promote_entry (shard_ops D) (as_map active) (as_map previous) (request_key c)
           in Some (Mutate c i, unlock i (deref_mut_set active a) (set_previous_slot j (Some (deref_mut_set previous p)) m)))
     else Some (Mutate c i, m)
   }"

definition lock_previous :: "('k, 'v, 'm, 'b) deps \<Rightarrow> ('k, 'v) request \<Rightarrow> nat \<Rightarrow> nat \<Rightarrow> ('k, 'v, 'm, 'b) sharded_map \<Rightarrow> ('e, 'k, 'v, 'm, 'b) pc_step" where
  "lock_previous D c i j m = (case c of Call (Get k) \<Rightarrow> read_previous D k j m | _ \<Rightarrow> promote_locked D c i j m)"

text \<open>
  The mutations of the locked shard \<open>active\<close>; its metadata is published before the guard is dropped. Both
  helpers return the reply \<open>answer\<close> makes of the previous value.
\<close>

definition put_locked ::
  "('k, 'v, 'm, 'b) deps \<Rightarrow> nat \<Rightarrow> 'm shard_data \<Rightarrow> 'k \<Rightarrow> 'v \<Rightarrow> ('v option \<Rightarrow> ('k, 'v) reply) \<Rightarrow> ('k, 'v, 'm, 'b) sharded_map \<Rightarrow>
   ('k, 'v) reply \<times> ('k, 'v, 'm, 'b) sharded_map" where
  "put_locked D i active key val answer m =
     (let (previous, mu, l) = tracked_insert D (shard_mutation_new (shard_ops D) (as_map active)) key val (lifecycle m)
      in (answer previous, commit D i active mu l m))"

definition take_locked ::
  "('k, 'v, 'm, 'b) deps \<Rightarrow> nat \<Rightarrow> 'm shard_data \<Rightarrow> 'k \<Rightarrow> ('v option \<Rightarrow> ('k, 'v) reply) \<Rightarrow> ('k, 'v, 'm, 'b) sharded_map \<Rightarrow>
   ('k, 'v) reply \<times> ('k, 'v, 'm, 'b) sharded_map" where
  "take_locked D i active key answer m =
     (let (previous, mu, l) = tracked_remove D (shard_mutation_new (shard_ops D) (as_map active)) key (lifecycle m)
      in (answer previous, commit D i active mu l m))"

definition remove_locked ::
  "('k, 'v, 'm, 'b) deps \<Rightarrow> nat \<Rightarrow> 'm shard_data \<Rightarrow> 'k \<Rightarrow> ('k, 'v, 'm, 'b) sharded_map \<Rightarrow> ('k, 'v) reply \<times> ('k, 'v, 'm, 'b) sharded_map" where
  "remove_locked D i active key m =
     (if snapshot_mode m = Cow \<and> hb_get (shard_ops D) (as_map active) key = None then (Value None, m)
      else take_locked D i active key Value m)"

definition note_read :: "('k, 'v, 'm, 'b) deps \<Rightarrow> 'k \<Rightarrow> 'v option \<Rightarrow> ('k, 'v, 'm, 'b) sharded_map \<Rightarrow> ('k, 'v, 'm, 'b) sharded_map" where
  "note_read D key current m = m\<lparr>lifecycle := record_read D key (current \<noteq> None) (lifecycle m)\<rparr>"

definition swap_locked ::
  "('k, 'v, 'm, 'b) deps \<Rightarrow> nat \<Rightarrow> 'm shard_data \<Rightarrow> 'k \<Rightarrow> 'v \<Rightarrow> 'v \<Rightarrow> ('k, 'v, 'm, 'b) sharded_map \<Rightarrow> ('k, 'v) reply \<times> ('k, 'v, 'm, 'b) sharded_map" where
  "swap_locked D i active key expected new m =
     (let current = hb_get (shard_ops D) (as_map active) key; m1 = note_read D key current m
      in case current of
           Some cur \<Rightarrow>
             if cur = expected then put_locked D i active key new (\<lambda>_. Swapped (Success new)) m1
             else (Swapped (Failure cur), m1)
         | None \<Rightarrow> (Swapped (Failure new), m1))"

definition remove_if_locked ::
  "('k, 'v, 'm, 'b) deps \<Rightarrow> nat \<Rightarrow> 'm shard_data \<Rightarrow> 'k \<Rightarrow> 'v \<Rightarrow> ('k, 'v, 'm, 'b) sharded_map \<Rightarrow> ('k, 'v) reply \<times> ('k, 'v, 'm, 'b) sharded_map" where
  "remove_if_locked D i active key expected m =
     (let current = hb_get (shard_ops D) (as_map active) key; m1 = note_read D key current m
      in if current = Some expected then take_locked D i active key (\<lambda>_. Matched True) m1 else (Matched False, m1))"

definition or_insert_locked ::
  "('k, 'v, 'm, 'b) deps \<Rightarrow> nat \<Rightarrow> 'm shard_data \<Rightarrow> 'k \<Rightarrow> (unit \<Rightarrow> 'v) \<Rightarrow> ('k, 'v, 'm, 'b) sharded_map \<Rightarrow> ('k, 'v) reply \<times> ('k, 'v, 'm, 'b) sharded_map" where
  "or_insert_locked D i active key f m =
     (let current = hb_get (shard_ops D) (as_map active) key; m1 = note_read D key current m
      in case current of
           Some val \<Rightarrow> (Value (Some val), m1)
         | None \<Rightarrow> (let val = f () in put_locked D i active key val (\<lambda>_. Value (Some val)) m1))"

definition if_present_locked ::
  "('k, 'v, 'm, 'b) deps \<Rightarrow> nat \<Rightarrow> 'm shard_data \<Rightarrow> 'k \<Rightarrow> ('v \<Rightarrow> 'v option) \<Rightarrow> ('k, 'v, 'm, 'b) sharded_map \<Rightarrow> ('k, 'v) reply \<times> ('k, 'v, 'm, 'b) sharded_map" where
  "if_present_locked D i active key f m =
     (let current = hb_get (shard_ops D) (as_map active) key; m1 = note_read D key current m
      in case current of
           None \<Rightarrow> (Value None, m1)
         | Some cur \<Rightarrow>
             (case f cur of
                Some val \<Rightarrow> put_locked D i active key val (\<lambda>_. Value (Some val)) m1
              | None \<Rightarrow> take_locked D i active key (\<lambda>_. Value None) m1))"

definition mutate :: "('k, 'v, 'm, 'b) deps \<Rightarrow> ('k, 'v) request \<Rightarrow> nat \<Rightarrow> ('k, 'v, 'm, 'b) sharded_map \<Rightarrow> ('e, 'k, 'v, 'm, 'b) pc_step" where
  "mutate D c i m = do {
     active \<leftarrow> slot_guard (shards m) i;
     (out, m') \<leftarrow>
       (case c of
          Call (Insert k v) \<Rightarrow> Some (put_locked D i active k v Value m)
        | Call (Delete k) \<Rightarrow> Some (remove_locked D i active k m)
        | Call (Get k) \<Rightarrow> None
        | Swap k expected new \<Rightarrow> Some (swap_locked D i active k expected new m)
        | RemoveIf k expected \<Rightarrow> Some (remove_if_locked D i active k expected m)
        | OrInsert k f \<Rightarrow> Some (or_insert_locked D i active k f m)
        | IfPresent k f \<Rightarrow> Some (if_present_locked D i active k f m));
     Some (Leave (Keyed c) out, m')
   }"

text \<open>The fallback of a read whose active slot does not exist; the directory stays locked.\<close>

definition find_missing ::
  "('k, 'v, 'm, 'b) deps \<Rightarrow> (nat \<times> 'm shard_data) option option \<Rightarrow> 'k \<Rightarrow> ('k, 'v, 'm, 'b) sharded_map \<Rightarrow> ('e, 'k, 'v, 'm, 'b) pc_step" where
  "find_missing D found k m = do {
     prev \<leftarrow> found;
     Some (case prev of Some (j, _) \<Rightarrow> (MissingPrevious k j, m) | None \<Rightarrow> read_done D k None m)
   }"

text \<open>
  \<open>execute_transaction\<close>: the indices of the active shards, which are created one after the other, the lookup of
  the previous shards, the locks, and the operations under all of them.
\<close>

definition txn_begin :: "('k, 'v, 'm, 'b) deps \<Rightarrow> ('k, 'v) txn_op list \<Rightarrow> ('k, 'v, 'm, 'b) sharded_map \<Rightarrow> ('e, 'k, 'v, 'm, 'b) pc_step" where
  "txn_begin D xs m = do {
     ixs \<leftarrow> indexed D m txn_key xs;
     let active = remdups_adj (sort (map fst ixs));
     Some (TxnLookup xs active active, m)
   }"

definition txn_lookup ::
  "('k, 'v) txn_op list \<Rightarrow> nat list \<Rightarrow> nat \<Rightarrow> nat list \<Rightarrow> ('k, 'v, 'm, 'b) sharded_map \<Rightarrow> ('e, 'k, 'v, 'm, 'b) pc_step" where
  "txn_lookup xs active i todo m = do {
     slot \<leftarrow> index_checked (shards m) i;
     Some (if slot = None then TxnInit xs active i todo else TxnLookup xs active todo, m)
   }"

definition txn_init ::
  "('k, 'v, 'm, 'b) deps \<Rightarrow> ('k, 'v) txn_op list \<Rightarrow> nat list \<Rightarrow> nat \<Rightarrow> nat list \<Rightarrow> ('k, 'v, 'm, 'b) sharded_map \<Rightarrow> ('e, 'k, 'v, 'm, 'b) pc_step" where
  "txn_init D xs active i todo m = do {
     (_, m') \<leftarrow> get_or_init_shard D m i;
     Some (TxnLookup xs active todo, m')
   }"

definition txn_previous_indices :: "('k, 'v, 'm, 'b) deps \<Rightarrow> ('k, 'v) txn_op list \<Rightarrow> ('k, 'v, 'm, 'b) sharded_map \<Rightarrow> nat list" where
  "txn_previous_indices D xs m =
     (if previous_shard_count m = 0 then []
      else remdups_adj (sort (map (\<lambda>x. route D (previous_shard_count m) (txn_key x)) xs)))"

definition txn_previous ::
  "('k, 'v, 'm, 'b) deps \<Rightarrow> ('k, 'v) txn_op list \<Rightarrow> nat list \<Rightarrow> ('k, 'v, 'm, 'b) sharded_map \<Rightarrow> ('e, 'k, 'v, 'm, 'b) pc_step" where
  "txn_previous D xs active m = do {
     let indices = txn_previous_indices D xs m;
     previous \<leftarrow>
       (case previous_shards m of
          None \<Rightarrow> Some []
        | Some slots \<Rightarrow>
            if list_all (\<lambda>j. j < length slots) indices then Some (filter (\<lambda>j. slots ! j \<noteq> None) indices) else None);
     Some (TxnLock xs active [] (map Active active @ map Previous previous), m)
   }"

text \<open>\<open>capture_view_data\<close>: the guards it collects, and the copy made under each of them.\<close>

definition initialised :: "(nat \<Rightarrow> lock) \<Rightarrow> 'm slots \<Rightarrow> lock list" where
  "initialised mk slots = map mk (filter (\<lambda>i. slots ! i \<noteq> None) [0..<length slots])"

definition scan_locks :: "('k, 'v, 'm, 'b) sharded_map \<Rightarrow> lock list" where
  "scan_locks m = initialised Active (shards m) @ initialised Previous (prev_slots m)"

fun guarded :: "('k, 'v, 'm, 'b) sharded_map \<Rightarrow> lock \<Rightarrow> 'm shard_data option" where
  "guarded m (Active i) = slot_guard (shards m) i"
| "guarded m (Previous j) = slot_guard (prev_slots m) j"
| "guarded m _ = None"

definition copy_next :: "('k, 'v, 'm, 'b) deps \<Rightarrow> lock list \<Rightarrow> 'm list \<Rightarrow> ('k, 'v, 'm, 'b) sharded_map \<Rightarrow> ('e, 'k, 'v, 'm, 'b) pc_step" where
  "copy_next D held acc m =
     (if length acc < length held
      then do { sd \<leftarrow> guarded m (held ! length acc); Some (Copy held (acc @ [shard_snapshot sd]), m) }
      else Some (Leave Scan (Listed (sv_iter D (snapshot_view_new D acc (write_epoch m) (length (shards m))))), m))"

text \<open>
  What the two maps do differently: how an operation starts (the asynchronous map takes a ticket first and
  guards resharding by a mutex), its first look into the active directory, the lookup of a previous shard, the
  operations of a transaction once its shards are locked, what runs under the exclusive routing lock, and what happens when a
  future is dropped; \<open>None\<close> says that this cannot happen there. A drop takes the number of awaits the operation
  has passed within its last step, and tells which entries it has removed by then.
\<close>

record ('e, 'k, 'v, 'm, 'b) thread_code =
  tc_start :: "('e, 'k, 'v) operation \<Rightarrow> ('e, 'k, 'v, 'm) pc option"
  tc_ticket :: "('k, 'v, 'm, 'b) sharded_map \<Rightarrow> ('k, 'v, 'm, 'b) sharded_map"
  tc_locate :: "('k, 'v) request \<Rightarrow> ('k, 'v, 'm, 'b) sharded_map \<Rightarrow> ('e, 'k, 'v, 'm, 'b) pc_step"
  tc_previous :: "('k, 'v, 'm, 'b) sharded_map \<Rightarrow> 'k \<Rightarrow> (nat \<times> 'm shard_data) option option"
  tc_txn :: "('k, 'v) txn_op list \<Rightarrow> nat list \<Rightarrow> ('k, 'v, 'm, 'b) sharded_map \<Rightarrow> (unit transaction_result \<times> ('k, 'v, 'm, 'b) sharded_map) option"
  tc_alone :: "('e, 'k, 'v) alone \<Rightarrow> ('k, 'v, 'm, 'b) sharded_map \<Rightarrow> (('k, 'v) reply \<times> ('k, 'v, 'm, 'b) sharded_map) option"
  tc_resume :: "('k, 'v, 'm, 'b) sharded_map \<Rightarrow> ('k, 'v, 'm, 'b) sharded_map"
  tc_drop :: "('e, 'k, 'v, 'm) pc \<Rightarrow> nat \<Rightarrow> ('k, 'v, 'm, 'b) sharded_map \<Rightarrow> (('k \<times> 'v) list \<times> ('k, 'v, 'm, 'b) sharded_map) option"

fun perform ::
  "('k, 'v, 'm, 'b) deps \<Rightarrow> ('e, 'k, 'v, 'm, 'b) thread_code \<Rightarrow> ('e, 'k, 'v, 'm) pc \<Rightarrow> ('k, 'v, 'm, 'b) sharded_map \<Rightarrow> ('e, 'k, 'v, 'm, 'b) pc_step" where
  "perform D C Idle m = Some (Idle, m)"
| "perform D C (Ticket p) m = Some (case p of Alone b \<Rightarrow> LockRouting False b | _ \<Rightarrow> Enter p, tc_ticket C m)"
| "perform D C (Enter (Keyed c)) m = Some (Locate c, m)"
| "perform D C (Enter (Txn xs)) m = txn_begin D xs m"
| "perform D C (Enter Scan) m = Some (ScanRouting, m)"
| "perform D C (Enter (Alone b)) m = Some (Gate b, m)"
| "perform D C (Gate b) m = Some (LockRouting True b, m)"
| "perform D C (LockRouting gated b) m = Some (Exclusive gated b, m)"
| "perform D C (Exclusive gated b) m = map_option (\<lambda>(out, m'). (Leave (Alone b) out, m')) (tc_alone C b m)"
| "perform D C (Resuming b) m = Some (Leave (Alone (Reshard b)) Done, tc_resume C m)"
| "perform D C (Locate c) m = tc_locate C c m"
| "perform D C (Lookup c i) m = lookup_shard c i m"
| "perform D C (Init c i) m = init_shard D c i m"
| "perform D C (LockActive c i) m = lock_active D c i m"
| "perform D C (Fallback c i) m = find_previous D (tc_previous C m (request_key c)) c i m"
| "perform D C (LockPrevious c i j) m = lock_previous D c i j m"
| "perform D C (Mutate c i) m = mutate D c i m"
| "perform D C (Missing k) m = find_missing D (tc_previous C m k) k m"
| "perform D C (MissingPrevious k j) m = read_previous D k j m"
| "perform D C (TxnLookup xs active (i # todo)) m = txn_lookup xs active i todo m"
| "perform D C (TxnLookup xs active []) m = Some (TxnPrevious xs active, m)"
| "perform D C (TxnInit xs active i todo) m = txn_init D xs active i todo m"
| "perform D C (TxnPrevious xs active) m = txn_previous D xs active m"
| "perform D C (TxnLock xs active held (l # todo)) m = Some (TxnLock xs active (held @ [l]) todo, m)"
| "perform D C (TxnLock xs active held []) m = Some (TxnRun xs active held, m)"
| "perform D C (TxnRun xs active held) m = map_option (\<lambda>(r, m'). (Leave (Txn xs) (Outcome r), m')) (tc_txn C xs active m)"
| "perform D C ScanRouting m = Some (ScanDirectory, m)"
| "perform D C ScanDirectory m = Some (ScanPrevious, m)"
| "perform D C ScanPrevious m = Some (ScanLock [] (scan_locks m), m)"
| "perform D C (ScanLock held (l # todo)) m = Some (ScanLock (held @ [l]) todo, m)"
| "perform D C (ScanLock held []) m = Some (Copy held [], m)"
| "perform D C (Copy held acc) m = copy_next D held acc m"
| "perform D C (Leave p out) m = Some (Idle, m)"

fun op_of :: "('e, 'k, 'v, 'm) pc \<Rightarrow> ('e, 'k, 'v) operation option" where
  "op_of Idle = None"
| "op_of (Ticket p) = Some p"
| "op_of (Enter p) = Some p"
| "op_of (Locate c) = Some (Keyed c)"
| "op_of (Lookup c i) = Some (Keyed c)"
| "op_of (Init c i) = Some (Keyed c)"
| "op_of (LockActive c i) = Some (Keyed c)"
| "op_of (Fallback c i) = Some (Keyed c)"
| "op_of (LockPrevious c i j) = Some (Keyed c)"
| "op_of (Mutate c i) = Some (Keyed c)"
| "op_of (Missing k) = Some (Keyed (Call (Get k)))"
| "op_of (MissingPrevious k j) = Some (Keyed (Call (Get k)))"
| "op_of (TxnLookup xs active todo) = Some (Txn xs)"
| "op_of (TxnInit xs active i todo) = Some (Txn xs)"
| "op_of (TxnPrevious xs active) = Some (Txn xs)"
| "op_of (TxnLock xs active held todo) = Some (Txn xs)"
| "op_of (TxnRun xs active held) = Some (Txn xs)"
| "op_of (Gate b) = Some (Alone b)"
| "op_of (LockRouting gated b) = Some (Alone b)"
| "op_of (Exclusive gated b) = Some (Alone b)"
| "op_of (Resuming b) = Some (Alone (Reshard b))"
| "op_of (Leave p out) = Some p"
| "op_of _ = Some Scan"

section \<open>The threads together\<close>

datatype ('e, 'k, 'v) trace_entry =
    Invoked nat "('e, 'k, 'v) operation"
  | Took nat "('e, 'k, 'v) operation" "('k, 'v) reply"
  | Returned nat "('e, 'k, 'v) operation" "('k, 'v) reply"
  | Dropped nat "('e, 'k, 'v) operation" "('k \<times> 'v) list"

record ('e, 'k, 'v, 'm, 'b) thread_sys =
  th_map :: "('k, 'v, 'm, 'b) sharded_map"
  th_pcs :: "('e, 'k, 'v, 'm) pc list"
  th_trace :: "('e, 'k, 'v) trace_entry list"

definition threads_on :: "nat \<Rightarrow> ('k, 'v, 'm, 'b) sharded_map \<Rightarrow> ('e, 'k, 'v, 'm, 'b) thread_sys" where
  "threads_on n m = \<lparr>th_map = m, th_pcs = replicate n Idle, th_trace = []\<rparr>"

text \<open>
  The trace notes when an operation takes effect, which is the step whose program counter becomes
  \<open>Leave\<close>, and when it returns; of an operation whose future is dropped it notes what it had removed.
\<close>

definition trace_of :: "nat \<Rightarrow> ('e, 'k, 'v, 'm) pc \<Rightarrow> ('e, 'k, 'v, 'm) pc \<Rightarrow> ('e, 'k, 'v) trace_entry list" where
  "trace_of t p p' =
     (case p of
        Leave q out \<Rightarrow> [Returned t q out]
      | _ \<Rightarrow> (case p' of Leave q out \<Rightarrow> [Took t q out] | _ \<Rightarrow> []))"

datatype ('e, 'k, 'v) thread_event = Start nat "('e, 'k, 'v) operation" | Go nat | Cut nat nat

text \<open>An event that is not possible now, because of a lock or because the thread is busy, changes nothing.\<close>

fun thread_step ::
  "('k, 'v, 'm, 'b) deps \<Rightarrow> ('e, 'k, 'v, 'm, 'b) thread_code \<Rightarrow> ('e, 'k, 'v) thread_event \<Rightarrow> ('e, 'k, 'v, 'm, 'b) thread_sys \<Rightarrow>
   ('e, 'k, 'v, 'm, 'b) thread_sys option" where
  "thread_step D C (Start t p) s =
     Some (case tc_start C p of
             Some q \<Rightarrow>
               if t < length (th_pcs s) \<and> th_pcs s ! t = Idle
               then s\<lparr>th_pcs := (th_pcs s)[t := q], th_trace := th_trace s @ [Invoked t p]\<rparr>
               else s
           | None \<Rightarrow> s)"
| "thread_step D C (Go t) s =
     (if t < length (th_pcs s) \<and> th_pcs s ! t \<noteq> Idle \<and> granted holds wants (th_pcs s) t
      then do {
        (p', m') \<leftarrow> perform D C (th_pcs s ! t) (th_map s);
        Some (s\<lparr>th_map := m', th_pcs := (th_pcs s)[t := p'], th_trace := th_trace s @ trace_of t (th_pcs s ! t) p'\<rparr>)
      }
      else Some s)"
| "thread_step D C (Cut t n) s =
     Some (if t < length (th_pcs s)
           then (case tc_drop C (th_pcs s ! t) n (th_map s) of
                   Some (lost, m') \<Rightarrow> s\<lparr>th_map := m', th_pcs := (th_pcs s)[t := Idle],
                                th_trace := th_trace s @ [Dropped t (the (op_of (th_pcs s ! t))) lost]\<rparr>
                 | None \<Rightarrow> s)
           else s)"

fun thread_run ::
  "('k, 'v, 'm, 'b) deps \<Rightarrow> ('e, 'k, 'v, 'm, 'b) thread_code \<Rightarrow> ('e, 'k, 'v) thread_event list \<Rightarrow> ('e, 'k, 'v, 'm, 'b) thread_sys \<Rightarrow>
   ('e, 'k, 'v, 'm, 'b) thread_sys option" where
  "thread_run D C [] s = Some s"
| "thread_run D C (e # es) s = Option.bind (thread_step D C e s) (thread_run D C es)"

end
