(* ===== verification/Thread_Steps.thy ===== *)
theory Thread_Steps
  imports Map_Threads
begin

text \<open>
  Why interleaved operations are linearizable. Each program counter carries what the locks held there keep
  true (\<open>pc_ok\<close>): an active shard that was found stays, a key missing from a read-locked shard stays
  missing, a promoted key stays out of the previous generation, the copies of a snapshot stay current. A step of a
  thread changes only what it has locked for writing (\<open>framed\<close>), so it leaves the others' facts alone; and
  the step at which an operation takes effect answers as the finite map does.
\<close>

section \<open>What a program counter knows\<close>

definition at_active :: "('k, 'v, 'm, 'b) deps \<Rightarrow> ('k, 'v, 'm, 'b) sharded_map \<Rightarrow> 'k \<Rightarrow> nat \<Rightarrow> bool" where
  "at_active D m k i \<longleftrightarrow> i = route D (length (shards m)) k \<and> shards m ! i \<noteq> None"

definition at_previous :: "('k, 'v, 'm, 'b) deps \<Rightarrow> ('k, 'v, 'm, 'b) sharded_map \<Rightarrow> 'k \<Rightarrow> nat \<Rightarrow> bool" where
  "at_previous D m k j \<longleftrightarrow> prev_slots m \<noteq> [] \<and> j = route D (length (prev_slots m)) k \<and> prev_slots m ! j \<noteq> None"

definition read_missed :: "('k, 'v, 'm, 'b) deps \<Rightarrow> ('k, 'v, 'm, 'b) sharded_map \<Rightarrow> ('k, 'v) request \<Rightarrow> bool" where
  "read_missed D m c \<longleftrightarrow> (request_mode c = Read_Lock \<longrightarrow> slots_get D (shards m) (request_key c) = None)"

text \<open>The shards of a transaction, and the locks it takes.\<close>

definition txn_active :: "('k, 'v, 'm, 'b) deps \<Rightarrow> ('k, 'v, 'm, 'b) sharded_map \<Rightarrow> ('k, 'v) txn_op list \<Rightarrow> nat list" where
  "txn_active D m xs = remdups_adj (sort (map (\<lambda>x. route D (length (shards m)) (txn_key x)) xs))"

definition txn_previously :: "('k, 'v, 'm, 'b) deps \<Rightarrow> ('k, 'v, 'm, 'b) sharded_map \<Rightarrow> ('k, 'v) txn_op list \<Rightarrow> nat list" where
  "txn_previously D m xs =
     (if prev_slots m = [] then []
      else filter (\<lambda>j. prev_slots m ! j \<noteq> None) (remdups_adj (sort (map (\<lambda>x. route D (length (prev_slots m)) (txn_key x)) xs))))"

definition txn_locks :: "('k, 'v, 'm, 'b) deps \<Rightarrow> ('k, 'v, 'm, 'b) sharded_map \<Rightarrow> ('k, 'v) txn_op list \<Rightarrow> lock list" where
  "txn_locks D m xs = map Active (txn_active D m xs) @ map Previous (txn_previously D m xs)"

definition txn_ready :: "('k, 'v, 'm, 'b) deps \<Rightarrow> ('k, 'v, 'm, 'b) sharded_map \<Rightarrow> ('k, 'v) txn_op list \<Rightarrow> bool" where
  "txn_ready D m xs \<longleftrightarrow> (\<forall>i \<in> set (txn_active D m xs). shards m ! i \<noteq> None)"

lemma txn_active_set: "set (txn_active D m xs) = (\<lambda>x. route D (length (shards m)) (txn_key x)) ` set xs"
  by (simp add: txn_active_def image_image)

lemma txn_previously_set:
  "set (txn_previously D m xs) =
    {j. prev_slots m \<noteq> [] \<and> prev_slots m ! j \<noteq> None \<and> (\<exists>x \<in> set xs. j = route D (length (prev_slots m)) (txn_key x))}"
  by (auto simp: txn_previously_def)

fun pc_ok :: "('k, 'v, 'm, 'b) deps \<Rightarrow> ('k, 'v, 'm, 'b) sharded_map \<Rightarrow> ('e, 'k, 'v, 'm) pc \<Rightarrow> bool" where
  "pc_ok D m (Lookup c i) = (i = route D (length (shards m)) (request_key c))"
| "pc_ok D m (Init c i) = (i = route D (length (shards m)) (request_key c))"
| "pc_ok D m (LockActive c i) = at_active D m (request_key c) i"
| "pc_ok D m (Fallback c i) = (at_active D m (request_key c) i \<and> read_missed D m c)"
| "pc_ok D m (LockPrevious c i j) = (at_active D m (request_key c) i \<and> read_missed D m c \<and> at_previous D m (request_key c) j)"
| "pc_ok D m (Mutate c i) = (at_active D m (request_key c) i \<and> request_mode c = Write_Lock \<and> slots_get D (prev_slots m) (request_key c) = None)"
| "pc_ok D m (Missing k) = (shards m ! route D (length (shards m)) k = None)"
| "pc_ok D m (MissingPrevious k j) = (shards m ! route D (length (shards m)) k = None \<and> at_previous D m k j)"
| "pc_ok D m (TxnLookup xs active todo) =
     (active = txn_active D m xs \<and> (\<exists>ready. txn_active D m xs = ready @ todo \<and> (\<forall>i \<in> set ready. shards m ! i \<noteq> None)))"
| "pc_ok D m (TxnInit xs active i todo) =
     (active = txn_active D m xs \<and> (\<exists>ready. txn_active D m xs = ready @ i # todo \<and> (\<forall>i \<in> set ready. shards m ! i \<noteq> None)))"
| "pc_ok D m (TxnPrevious xs active) = (active = txn_active D m xs \<and> txn_ready D m xs)"
| "pc_ok D m (TxnLock xs active held todo) = (active = txn_active D m xs \<and> txn_ready D m xs \<and> held @ todo = txn_locks D m xs)"
| "pc_ok D m (TxnRun xs active held) = (active = txn_active D m xs \<and> txn_ready D m xs \<and> held = txn_locks D m xs)"
| "pc_ok D m (ScanLock held todo) = (held @ todo = scan_locks m)"
| "pc_ok D m (Copy held acc) =
     (held = scan_locks m \<and> length acc \<le> length held \<and>
      map Some acc = map (\<lambda>l. map_option shard_snapshot (guarded m l)) (take (length acc) held))"
| "pc_ok D m _ = True"

text \<open>What a step that writes under the locks \<open>W\<close> leaves alone.\<close>

definition framed :: "('k, 'v, 'm, 'b) deps \<Rightarrow> lock set \<Rightarrow> ('k, 'v, 'm, 'b) sharded_map \<Rightarrow> ('k, 'v, 'm, 'b) sharded_map \<Rightarrow> bool" where
  "framed D W m m' \<longleftrightarrow>
     length (shards m') = length (shards m) \<and> length (prev_slots m') = length (prev_slots m) \<and>
     (\<forall>i < length (shards m). shards m ! i \<noteq> None \<longrightarrow>
        shards m' ! i \<noteq> None \<and> (Active i \<notin> W \<longrightarrow> shards m' ! i = shards m ! i)) \<and>
     (\<forall>i < length (shards m). shards m ! i = None \<longrightarrow> Directory \<notin> W \<longrightarrow> shards m' ! i = None) \<and>
     (\<forall>j < length (prev_slots m). (prev_slots m' ! j = None \<longleftrightarrow> prev_slots m ! j = None) \<and>
        (Previous j \<notin> W \<longrightarrow> prev_slots m' ! j = prev_slots m ! j)) \<and>
     (\<forall>k. slots_get D (prev_slots m) k = None \<longrightarrow> slots_get D (prev_slots m') k = None)"

lemma framed_same: "shards m' = shards m \<Longrightarrow> prev_slots m' = prev_slots m \<Longrightarrow> framed D W m m'"
  by (simp add: framed_def)

lemma framedD:
  assumes "framed D W m m'"
  shows "length (shards m') = length (shards m)" "length (prev_slots m') = length (prev_slots m)"
    "\<lbrakk>i < length (shards m); shards m ! i \<noteq> None\<rbrakk> \<Longrightarrow> shards m' ! i \<noteq> None"
    "\<lbrakk>i < length (shards m); shards m ! i \<noteq> None; Active i \<notin> W\<rbrakk> \<Longrightarrow> shards m' ! i = shards m ! i"
    "\<lbrakk>i < length (shards m); shards m ! i = None; Directory \<notin> W\<rbrakk> \<Longrightarrow> shards m' ! i = None"
    "j < length (prev_slots m) \<Longrightarrow> prev_slots m' ! j = None \<longleftrightarrow> prev_slots m ! j = None"
    "\<lbrakk>j < length (prev_slots m); Previous j \<notin> W\<rbrakk> \<Longrightarrow> prev_slots m' ! j = prev_slots m ! j"
    "slots_get D (prev_slots m) k = None \<Longrightarrow> slots_get D (prev_slots m') k = None"
  using assms unfolding framed_def by blast+

lemma at_active_framed:
  assumes "framed D W m m'" "at_active D m k i" "shards m \<noteq> []"
  shows "at_active D m' k i"
  using assms framedD(3)[OF assms(1), of i] route_less[OF assms(3), of D k] by (auto simp: at_active_def framedD(1)[OF assms(1)])

lemma at_previous_framed:
  assumes "framed D W m m'" "at_previous D m k j"
  shows "at_previous D m' k j"
proof -
  have ne: "prev_slots m \<noteq> []" and j: "j = route D (length (prev_slots m)) k" using assms(2) by (simp_all add: at_previous_def)
  have "prev_slots m' \<noteq> []" using ne framedD(2)[OF assms(1)] by (metis length_0_conv)
  then show ?thesis using assms framedD(6)[OF assms(1), of j] route_less[OF ne, of D k] by (auto simp: at_previous_def framedD(2)[OF assms(1)])
qed

lemma read_missed_framed:
  assumes f: "framed D W m m'" and a: "at_active D m (request_key c) i" and ne: "shards m \<noteq> []" and i: "Active i \<notin> W"
    and r: "read_missed D m c"
  shows "read_missed D m' c"
proof -
  have il: "i < length (shards m)" "i = route D (length (shards m)) (request_key c)" "shards m ! i \<noteq> None"
    using a route_less[OF ne, of D "request_key c"] by (auto simp: at_active_def)
  have "slots_get D (shards m') (request_key c) = slots_get D (shards m) (request_key c)"
    using slots_get_at[OF il(1), of D "request_key c"] slots_get_at[of i "shards m'" D "request_key c"] il framedD(1)[OF f] framedD(4)[OF f il(1,3) i] by simp
  then show ?thesis using r by (simp add: read_missed_def)
qed

lemma initialised_cong: "length s' = length s \<Longrightarrow> (\<And>i. i < length s \<Longrightarrow> s' ! i = None \<longleftrightarrow> s ! i = None) \<Longrightarrow> initialised mk s' = initialised mk s"
  unfolding initialised_def by (intro arg_cong[where f = "map mk"] filter_cong) auto

lemma scan_locks_framed:
  assumes f: "framed D W m m'" and d: "Directory \<notin> W"
  shows "scan_locks m' = scan_locks m"
proof -
  have "shards m' ! i = None \<longleftrightarrow> shards m ! i = None" if "i < length (shards m)" for i
    using framedD(3)[OF f that] framedD(5)[OF f that _ d] by blast
  then show ?thesis
    using framedD(1,2,6)[OF f] by (simp add: scan_locks_def initialised_cong[of "shards m'" "shards m"] initialised_cong[of "prev_slots m'" "prev_slots m"])
qed

lemma scan_locks_in:
  "Active i \<in> set (scan_locks m) \<longleftrightarrow> i < length (shards m) \<and> shards m ! i \<noteq> None"
  "Previous j \<in> set (scan_locks m) \<longleftrightarrow> j < length (prev_slots m) \<and> prev_slots m ! j \<noteq> None"
  "l \<in> set (scan_locks m) \<Longrightarrow> (\<exists>i. l = Active i) \<or> (\<exists>j. l = Previous j)"
  by (auto simp: scan_locks_def initialised_def)

lemma guarded_framed:
  assumes f: "framed D W m m'" and l: "l \<in> set (scan_locks m)" "l \<notin> W"
  shows "guarded m' l = guarded m l"
  using scan_locks_in(3)[OF l(1)] l framedD(1,2)[OF f] framedD(4,7)[OF f]
  by (auto simp: scan_locks_in(1,2) slot_guard_def)

lemma txn_active_cong: "length (shards m') = length (shards m) \<Longrightarrow> txn_active D m' xs = txn_active D m xs"
  by (simp add: txn_active_def)

lemma txn_active_less: "shards m \<noteq> [] \<Longrightarrow> i \<in> set (txn_active D m xs) \<Longrightarrow> i < length (shards m)"
  using route_less[of "shards m" D] by (auto simp: txn_active_set)

lemma txn_locks_framed:
  assumes f: "framed D W m m'"
  shows "txn_locks D m' xs = txn_locks D m xs"
proof (cases "prev_slots m = []")
  case True
  then have "prev_slots m' = []" using framedD(2)[OF f] by simp
  then show ?thesis using True txn_active_cong[OF framedD(1)[OF f], of D xs] by (simp add: txn_locks_def txn_previously_def)
next
  case False
  then have ne: "prev_slots m' \<noteq> []" using framedD(2)[OF f] by (metis length_0_conv)
  let ?js = "remdups_adj (sort (map (\<lambda>x. route D (length (prev_slots m)) (txn_key x)) xs))"
  have "filter (\<lambda>j. prev_slots m' ! j \<noteq> None) ?js = filter (\<lambda>j. prev_slots m ! j \<noteq> None) ?js"
  proof (rule filter_cong[OF refl])
    fix j assume "j \<in> set ?js"
    then have "j < length (prev_slots m)" using route_less[OF False, of D] by auto
    then show "prev_slots m' ! j \<noteq> None \<longleftrightarrow> prev_slots m ! j \<noteq> None" using framedD(6)[OF f, of j] by simp
  qed
  then have "txn_previously D m' xs = txn_previously D m xs"
    using False ne framedD(2)[OF f] by (simp add: txn_previously_def)
  then show ?thesis using txn_active_cong[OF framedD(1)[OF f], of D xs] by (simp add: txn_locks_def)
qed

lemma txn_ready_framed: "framed D W m m' \<Longrightarrow> shards m \<noteq> [] \<Longrightarrow> txn_ready D m xs \<Longrightarrow> txn_ready D m' xs"
  unfolding txn_ready_def using framedD(3) txn_active_less txn_active_cong[OF framedD(1)] by metis

text \<open>What a thread knows outlives a step of another one.\<close>

lemma pc_ok_framed:
  assumes ok: "pc_ok D m p" and f: "framed D W m m'" and ne: "shards m \<noteq> []"
    and free: "\<And>l a. (l, a) \<in> set (holds p) \<Longrightarrow> l \<notin> W"
  shows "pc_ok D m' p"
proof -
  note len = framedD(1,2)[OF f]
  note stays = at_active_framed[OF f _ ne] at_previous_framed[OF f] read_missed_framed[OF f _ ne]
  show ?thesis
  proof (cases p)
    case (Fallback c i)
    then show ?thesis using ok free stays by auto
  next
    case (LockPrevious c i j)
    then show ?thesis using ok free stays by auto
  next
    case (Mutate c i)
    then show ?thesis using ok stays framedD(8)[OF f] by auto
  next
    case (Missing k)
    then show ?thesis using ok free[of Directory Read_Lock] framedD(5)[OF f route_less[OF ne]] len by simp
  next
    case (MissingPrevious k j)
    then show ?thesis using ok free[of Directory Read_Lock] framedD(5)[OF f route_less[OF ne]] len stays(2) by auto
  next
    case (TxnLookup xs active todo)
    then obtain ready where r: "txn_active D m xs = ready @ todo" "\<forall>i \<in> set ready. shards m ! i \<noteq> None" using ok by auto
    then have "\<forall>i \<in> set ready. shards m' ! i \<noteq> None" using framedD(3)[OF f] txn_active_less[OF ne, of _ D xs] by simp
    then show ?thesis using TxnLookup ok r(1) txn_active_cong[OF len(1)] by auto
  next
    case (TxnInit xs active i todo)
    then obtain ready where r: "txn_active D m xs = ready @ i # todo" "\<forall>i \<in> set ready. shards m ! i \<noteq> None" using ok by auto
    then have "\<forall>i \<in> set ready. shards m' ! i \<noteq> None" using framedD(3)[OF f] txn_active_less[OF ne, of _ D xs] by simp
    then show ?thesis using TxnInit ok r(1) txn_active_cong[OF len(1)] by auto
  next
    case (TxnPrevious xs active)
    then show ?thesis using ok txn_ready_framed[OF f ne, of xs] txn_active_cong[OF len(1), of D xs] by simp
  next
    case (TxnLock xs active held todo)
    then show ?thesis using ok txn_ready_framed[OF f ne, of xs] txn_active_cong[OF len(1), of D xs] txn_locks_framed[OF f, of xs] by simp
  next
    case (TxnRun xs active held)
    then show ?thesis using ok txn_ready_framed[OF f ne, of xs] txn_active_cong[OF len(1), of D xs] txn_locks_framed[OF f, of xs] by simp
  next
    case (ScanLock held todo)
    then show ?thesis using ok free[of Directory Read_Lock] scan_locks_framed[OF f] by (simp add: scan_uses_def)
  next
    case (Copy held acc)
    have d: "Directory \<notin> W" using free[of Directory Read_Lock] Copy by (simp add: scan_uses_def)
    have "guarded m' l = guarded m l" if "l \<in> set (take (length acc) held)" for l
    proof (rule guarded_framed[OF f])
      have h: "l \<in> set held" using that by (meson in_set_takeD)
      then show "l \<in> set (scan_locks m)" using ok Copy by simp
      show "l \<notin> W" using h free[of l Read_Lock] Copy by (auto simp: scan_uses_def)
    qed
    then show ?thesis using ok Copy scan_locks_framed[OF f d] by (auto cong: map_cong)
  qed (use ok stays len in auto)
qed

lemma pc_ok_outside: "(Routing, Read_Lock) \<notin> set (holds p) \<Longrightarrow> pc_ok D m p \<Longrightarrow> pc_ok D m' p"
  by (cases p) (auto simp: scan_uses_def txn_uses_def)

section \<open>What a step does\<close>

text \<open>What a finite map replies to a request, and the map afterwards.\<close>

fun spec_request :: "('k, 'v) request \<Rightarrow> ('k \<Rightarrow> 'v option) \<Rightarrow> ('k, 'v) reply \<times> ('k \<Rightarrow> 'v option)" where
  "spec_request (Call c) A = (Value (fst (spec_call c A)), snd (spec_call c A))"
| "spec_request (Swap k expected new) A =
     (case A k of
        Some cur \<Rightarrow> if cur = expected then (Swapped (Success new), A(k \<mapsto> new)) else (Swapped (Failure cur), A)
      | None \<Rightarrow> (Swapped (Failure new), A))"
| "spec_request (RemoveIf k expected) A = (if A k = Some expected then (Matched True, A(k := None)) else (Matched False, A))"
| "spec_request (OrInsert k f) A =
     (case A k of Some v \<Rightarrow> (Value (Some v), A) | None \<Rightarrow> (Value (Some (f ())), A(k \<mapsto> f ())))"
| "spec_request (IfPresent k f) A = (Value (Option.bind (A k) f), A(k := Option.bind (A k) f))"

definition kept :: "('k \<Rightarrow> 'v \<Rightarrow> bool) \<Rightarrow> ('k \<Rightarrow> 'v option) \<Rightarrow> ('k \<Rightarrow> 'v option)" where
  "kept P A = (\<lambda>k. case A k of None \<Rightarrow> None | Some v \<Rightarrow> if P k v then Some v else None)"

fun fits :: "('e, 'k, 'v) operation \<Rightarrow> ('k, 'v) reply \<Rightarrow> ('k \<Rightarrow> 'v option) \<Rightarrow> bool" where
  "fits (Keyed c) out A \<longleftrightarrow> out = fst (spec_request c A)"
| "fits (Txn xs) out A \<longleftrightarrow> out = Outcome (Committed ())"
| "fits Scan out A \<longleftrightarrow> (\<exists>xs. out = Listed xs \<and> lists_map xs A)"
| "fits (Alone Drain) out A \<longleftrightarrow> (\<exists>xs. out = Listed xs \<and> lists_map xs A)"
| "fits (Alone b) out A \<longleftrightarrow> out = Done"

fun after :: "('e, 'k, 'v) operation \<Rightarrow> ('k \<Rightarrow> 'v option) \<Rightarrow> ('k \<Rightarrow> 'v option)" where
  "after (Keyed c) A = snd (spec_request c A)"
| "after (Txn xs) A = fold txn_apply xs A"
| "after Scan A = A"
| "after (Alone (Reshard b)) A = A"
| "after (Alone (Retain P)) A = kept P A"
| "after (Alone Clear) A = Map.empty"
| "after (Alone Drain) A = Map.empty"

text \<open>
  How an operation ends: with a reply, or cancelled, with the entries it had removed. Only a \<open>retain\<close> may have removed any, and
  none that its predicate keeps.
\<close>

datatype ('k, 'v) ending = Replied "('k, 'v) reply" | Cancelled "('k \<times> 'v) list"

fun ends :: "('e, 'k, 'v) operation \<Rightarrow> ('k, 'v) ending \<Rightarrow> ('k \<Rightarrow> 'v option) \<Rightarrow> bool" where
  "ends p (Replied out) A \<longleftrightarrow> fits p out A"
| "ends (Alone (Retain P)) (Cancelled lost) A \<longleftrightarrow> distinct (map fst lost) \<and> (\<forall>(k, v) \<in> set lost. A k = Some v \<and> \<not> P k v)"
| "ends p (Cancelled lost) A \<longleftrightarrow> lost = []"

fun leaves :: "('e, 'k, 'v) operation \<times> ('k, 'v) ending \<Rightarrow> ('k \<Rightarrow> 'v option) \<Rightarrow> ('k \<Rightarrow> 'v option)" where
  "leaves (p, Replied out) A = after p A"
| "leaves (p, Cancelled lost) A = A |` (- fst ` set lost)"

lemma ends_nothing [simp]: "ends p (Cancelled []) A"
proof (cases p)
  case (Alone b)
  then show ?thesis by (cases b) simp_all
qed simp_all

definition effect ::
  "('k, 'v, 'm, 'b) deps \<Rightarrow> ('e, 'k, 'v, 'm) pc \<Rightarrow> ('k, 'v, 'm, 'b) sharded_map \<Rightarrow> ('e, 'k, 'v, 'm) pc \<Rightarrow> ('k, 'v, 'm, 'b) sharded_map \<Rightarrow> bool" where
  "effect D p m p' m' \<longleftrightarrow>
     (case p' of
        Leave q out \<Rightarrow> op_of p = Some q \<and> fits q out (view D m) \<and> view D m' = after q (view D m)
      | _ \<Rightarrow> p' \<noteq> Idle \<and> op_of p' = op_of p \<and> view D m' = view D m)"

definition step_ok ::
  "('k, 'v, 'm, 'b) deps \<Rightarrow> ('e, 'k, 'v, 'm) pc \<Rightarrow> ('k, 'v, 'm, 'b) sharded_map \<Rightarrow> ('e, 'k, 'v, 'm) pc \<times> ('k, 'v, 'm, 'b) sharded_map \<Rightarrow> bool" where
  "step_ok D p m r \<longleftrightarrow>
     (case r of (p', m') \<Rightarrow>
       plain_map D m' \<and> pc_ok D m' p' \<and> set (holds p') \<subseteq> set (holds p) \<union> set_option (wants p) \<and>
       (Routing \<in> writes holds wants p \<or> framed D (writes holds wants p) m m') \<and> effect D p m p' m')"

lemma plain_dirs: "plain_map D m \<Longrightarrow> wf_dirs D m"
  by (simp add: plain_map_def wf_map_def)

text \<open>A step that leaves the map alone.\<close>

lemma quiet_step:
  assumes "plain_map D m" "pc_ok D m p'" "set (holds p') \<subseteq> set (holds p) \<union> set_option (wants p)" "effect D p m p' m"
  shows "step_ok D p m (p', m)"
  using assms by (simp add: step_ok_def framed_same)

lemma read_step:
  assumes m: "plain_map D m" and p: "op_of p = Some (Keyed (Call (Get k)))" "(Routing, Read_Lock) \<in> set (holds p)" and r: "r = view D m k"
  shows "step_ok D p m (read_done D k r m)"
proof -
  have "plain_map D (tracked_read D k r m)"
    using m by (simp add: plain_map_def tracked_read_def opts_record_read)
  moreover have "framed D W m (tracked_read D k r m)" for W by (rule framed_same) (simp_all add: tracked_read_def)
  moreover have "view D (tracked_read D k r m) = view D m" by (simp add: tracked_read_def)
  ultimately show ?thesis using p r by (simp add: step_ok_def read_done_def effect_def)
qed

lemma view_missing: "slots_get D (shards m) k = None \<Longrightarrow> view D m k = slots_get D (prev_slots m) k"
  by (simp add: view_def map_add_def)

lemma view_present: "slots_get D (shards m) k = Some v \<Longrightarrow> view D m k = Some v"
  by (simp add: view_def map_add_def)

lemma active_slot:
  assumes "wf_dirs D m" "at_active D m k i"
  obtains a where "shards m ! i = Some a" "i < length (shards m)" "slot_guard (shards m) i = Some a"
    "slots_get D (shards m) k = hb_get (shard_ops D) (as_map a) k"
proof -
  have i: "i < length (shards m)" "i = route D (length (shards m)) k"
    using assms route_less[OF wf_dirsD(1)[OF assms(1)], of D k] by (simp_all add: at_active_def)
  obtain a where a: "shards m ! i = Some a" using assms(2) by (auto simp: at_active_def)
  show ?thesis using that[of a] a i slots_get_at[OF i(1), of D k] by (simp add: slot_guard_def)
qed

lemma missing_slot:
  assumes "wf_dirs D m" "shards m ! route D (length (shards m)) k = None"
  shows "slots_get D (shards m) k = None"
  using assms(2) slots_get_at[OF route_less[OF wf_dirsD(1)[OF assms(1)]] refl, of D k] by simp

lemma previous_slot:
  assumes "at_previous D m k j"
  obtains p where "prev_slots m ! j = Some p" "j < length (prev_slots m)" "slot_guard (prev_slots m) j = Some p"
    "slots_get D (prev_slots m) k = hb_get (shard_ops D) (as_map p) k"
proof -
  have j: "j < length (prev_slots m)" "j = route D (length (prev_slots m)) k"
    using assms route_less[of "prev_slots m" D k] by (simp_all add: at_previous_def)
  obtain p where p: "prev_slots m ! j = Some p" using assms by (auto simp: at_previous_def)
  show ?thesis using that[of p] p j slots_get_at[OF j(1), of D k] by (simp add: slot_guard_def)
qed

lemma previous_lookup:
  assumes "wf_dirs D m"
  obtains (none) "previous_shard D m k = Some None" "slots_get D (prev_slots m) k = None"
    | (found) j p where "previous_shard D m k = Some (Some (j, p))" "at_previous D m k j"
proof (cases "prev_slots m = []")
  case True
  then show ?thesis using none previous_shard_wf[OF assms, of k] by simp
next
  case False
  let ?j = "route D (length (prev_slots m)) k"
  show ?thesis
  proof (cases "prev_slots m ! ?j")
    case None
    then show ?thesis using none previous_shard_wf[OF assms, of k] False by (simp add: slots_get_def)
  next
    case (Some p)
    then show ?thesis using found[of ?j p] previous_shard_wf[OF assms, of k] False by (simp add: at_previous_def)
  qed
qed

lemma filter_slots: "filter P xs = map (nth xs) (filter (\<lambda>i. P (xs ! i)) [0..<length xs])"
  using filter_map[of P "nth xs" "[0..<length xs]"] by (simp add: map_nth comp_def)

lemma guarded_initialised: "map (slot_guard slots) (filter (\<lambda>i. slots ! i \<noteq> None) [0..<length slots]) = map Some (List.map_filter id slots)"
proof -
  have "map Some (List.map_filter id slots) = filter (\<lambda>x. x \<noteq> None) slots"
    by (induction slots) (auto simp: map_filter_def)
  then show ?thesis using filter_slots[of "\<lambda>x. x \<noteq> None" slots] by (simp add: slot_guard_def)
qed

lemma guarded_all: "map (guarded m) (scan_locks m) = map Some (all_shards m)"
  using guarded_initialised[of "shards m"] guarded_initialised[of "prev_slots m"]
  by (simp add: scan_locks_def initialised_def all_shards_def prev_slots_def comp_def map_filter_def split: option.splits)

lemma guarded_scan: "l \<in> set (scan_locks m) \<Longrightarrow> \<exists>sd. guarded m l = Some sd"
  using arg_cong[OF guarded_all[of m], of set] by (force simp: image_iff)

section \<open>The steps of a request\<close>

lemma read_or_write:
  obtains (reader) k where "c = Call (Get k)" | (writer) "request_mode c = Write_Lock"
  by (cases c rule: request_mode.cases) auto

lemma writing_steps:
  assumes "request_mode c = Write_Lock"
  shows "lock_active D c i m = Some (Fallback c i, m)" "lock_previous D c i j m = promote_locked D c i j m"
    "find_previous D (Some None) c i m = Some (Mutate c i, m)"
  using assms by (cases c rule: request_mode.cases; simp add: lock_active_def lock_previous_def find_previous_def)+

context starshard_deps
begin

lemma lookup_ok:
  assumes m: "plain_map D m" and ok: "pc_ok D m (Lookup c i :: ('e, 'k, 'v, 'm) pc)"
  shows "\<exists>r. lookup_shard c i m = Some r \<and> step_ok D (Lookup c i :: ('e, 'k, 'v, 'm) pc) m r"
proof -
  have "i < length (shards m)" using ok route_less[OF wf_dirsD(1)[OF plain_dirs[OF m]]] by simp
  then have "lookup_shard c i m = Some (if shards m ! i = None then Init c i else LockActive c i, m)" by (simp add: lookup_shard_def)
  moreover have "step_ok D (Lookup c i) m (if shards m ! i = None then Init c i else LockActive c i, m)"
    using ok by (intro quiet_step[OF m]) (auto simp: at_active_def effect_def)
  ultimately show ?thesis by blast
qed

lemma init_ok:
  assumes m: "plain_map D m" and ok: "pc_ok D m (Init c i :: ('e, 'k, 'v, 'm) pc)"
  shows "\<exists>r. init_shard D c i m = Some r \<and> step_ok D (Init c i :: ('e, 'k, 'v, 'm) pc) m r"
proof -
  note wd = plain_dirs[OF m]
  have i: "i < length (shards m)" "i = route D (length (shards m)) (request_key c)"
    using ok route_less[OF wf_dirsD(1)[OF wd]] by simp_all
  let ?m = "unlock i (init_slot D m i) m"
  note new = get_or_init_wf[OF wd i(1)]
  have "plain_map D ?m" using m new(1,3) by (simp add: plain_map_def wf_map_def)
  moreover have "framed D (writes holds wants (Init c i :: ('e, 'k, 'v, 'm) pc)) m ?m"
    using i(1) by (auto simp: framed_def writes_def nth_list_update init_slot_def)
  ultimately have "step_ok D (Init c i :: ('e, 'k, 'v, 'm) pc) m (LockActive c i, ?m)"
    using i new(2) by (simp add: step_ok_def at_active_def effect_def)
  then show ?thesis using i(1) by (simp add: init_shard_def get_or_init_eq)
qed

lemma lock_active_ok:
  assumes m: "plain_map D m" and ok: "pc_ok D m (LockActive c i :: ('e, 'k, 'v, 'm) pc)"
  shows "\<exists>r. lock_active D c i m = Some r \<and> step_ok D (LockActive c i :: ('e, 'k, 'v, 'm) pc) m r"
proof -
  have at: "at_active D m (request_key c) i" using ok by simp
  obtain a where a: "slot_guard (shards m) i = Some a" "slots_get D (shards m) (request_key c) = hb_get (shard_ops D) (as_map a) (request_key c)"
    using active_slot[OF plain_dirs[OF m] at] by metis
  have go: "step_ok D (LockActive c i) m (Fallback c i, m)" if "read_missed D m c"
    using at that by (intro quiet_step[OF m]) (auto simp: effect_def)
  show ?thesis
  proof (cases rule: read_or_write[of c])
    case (reader k)
    show ?thesis
    proof (cases "hb_get (shard_ops D) (as_map a) k")
      case None
      then show ?thesis using go a reader by (simp add: lock_active_def read_missed_def)
    next
      case (Some v)
      then show ?thesis
        using read_step[OF m, of "LockActive c i" k "Some v"] a reader view_present[of D m k v] by (simp add: lock_active_def)
    qed
  next
    case writer
    then show ?thesis using go by (simp add: writing_steps read_missed_def)
  qed
qed

lemma find_previous_ok:
  assumes m: "plain_map D m" and ok: "pc_ok D m (Fallback c i :: ('e, 'k, 'v, 'm) pc)"
  shows "\<exists>r. find_previous D (previous_shard D m (request_key c)) c i m = Some r \<and> step_ok D (Fallback c i :: ('e, 'k, 'v, 'm) pc) m r"
  using plain_dirs[OF m]
proof (cases rule: previous_lookup[of D m "request_key c"])
  case (found j p)
  then have "step_ok D (Fallback c i) m (LockPrevious c i j, m)"
    using ok by (intro quiet_step[OF m]) (auto simp: effect_def)
  then show ?thesis using found by (simp add: find_previous_def)
next
  case none
  have mutate: "step_ok D (Fallback c i) m (Mutate c i, m)" if "request_mode c = Write_Lock"
    using ok none(2) that by (intro quiet_step[OF m]) (auto simp: effect_def)
  show ?thesis
  proof (cases rule: read_or_write[of c])
    case (reader k)
    then show ?thesis
      using read_step[OF m, of "Fallback c i" k None] none ok view_missing[of D m k] by (simp add: find_previous_def read_missed_def)
  next
    case writer
    then show ?thesis using mutate none by (simp add: writing_steps)
  qed
qed

lemma read_previous_ok:
  assumes m: "plain_map D m" and j: "at_previous D m k j" and none: "slots_get D (shards m) k = None"
    and p: "op_of p = Some (Keyed (Call (Get k)))" "(Routing, Read_Lock) \<in> set (holds p)"
  shows "\<exists>r. read_previous D k j m = Some r \<and> step_ok D p m r"
proof -
  obtain q where "slot_guard (prev_slots m) j = Some q" "slots_get D (prev_slots m) k = hb_get (shard_ops D) (as_map q) k"
    using previous_slot[OF j] by metis
  then show ?thesis using read_step[OF m p] view_missing[OF none] by (simp add: read_previous_def)
qed

lemma find_missing_ok:
  assumes m: "plain_map D m" and ok: "pc_ok D m (Missing k :: ('e, 'k, 'v, 'm) pc)"
  shows "\<exists>r. find_missing D (previous_shard D m k) k m = Some r \<and> step_ok D (Missing k :: ('e, 'k, 'v, 'm) pc) m r"
  using plain_dirs[OF m]
proof (cases rule: previous_lookup[of D m k])
  case (found j p)
  then have "step_ok D (Missing k) m (MissingPrevious k j, m)" using ok by (intro quiet_step[OF m]) (auto simp: effect_def)
  then show ?thesis using found by (simp add: find_missing_def)
next
  case none
  then show ?thesis
    using read_step[OF m, of "Missing k" k None] view_missing[OF missing_slot[OF plain_dirs[OF m]], of k] ok by (simp add: find_missing_def)
qed

lemma promote_locked_ok:
  assumes m: "plain_map D m" and ok: "pc_ok D m (LockPrevious c i j :: ('e, 'k, 'v, 'm) pc)" and c: "request_mode c = Write_Lock"
  shows "\<exists>r. promote_locked D c i j m = Some r \<and> step_ok D (LockPrevious c i j :: ('e, 'k, 'v, 'm) pc) m r"
proof -
  let ?k = "request_key c"
  note wd = plain_dirs[OF m]
  have at: "at_active D m ?k i" "at_previous D m ?k j" using ok by simp_all
  obtain a where a: "shards m ! i = Some a" "i < length (shards m)" "slot_guard (shards m) i = Some a"
    "slots_get D (shards m) ?k = hb_get (shard_ops D) (as_map a) ?k" using active_slot[OF wd at(1)] .
  obtain p where p: "prev_slots m ! j = Some p" "j < length (prev_slots m)" "slot_guard (prev_slots m) j = Some p"
    "slots_get D (prev_slots m) ?k = hb_get (shard_ops D) (as_map p) ?k" using previous_slot[OF at(2)] .
  show ?thesis
  proof (cases "hb_get (shard_ops D) (as_map p) ?k")
    case None
    have "step_ok D (LockPrevious c i j :: ('e, 'k, 'v, 'm) pc) m (Mutate c i, m)"
      using at(1) c None p(4) by (intro quiet_step[OF m]) (auto simp: effect_def)
    then show ?thesis using a(3) p(3) None by (simp add: promote_locked_def)
  next
    case (Some v)
    obtain a' p' where ap: "promote_entry (shard_ops D) (as_map a) (as_map p) ?k = (a', p')" by fastforce
    let ?A = "deref_mut_set a a'" and ?P = "deref_mut_set p p'"
    let ?m = "unlock i ?A (set_previous_slot j (Some ?P) m)"
    have init: "init_slot D m i = a" using a(1) by (simp add: init_slot_def)
    have none: "hb_get (shard_ops D) (as_map a) ?k = None" using wf_dirsD(8)[OF wd, of ?k] a(4) p(4) Some by simp
    have ga: "hb_get (shard_ops D) (as_map ?A) = (hb_get (shard_ops D) (as_map (init_slot D m i)))(?k \<mapsto> v)"
      using H.promote_entry_active[of "as_map a" "as_map p" ?k] ap none Some init by simp
    have gp: "hb_get (shard_ops D) (as_map ?P) = (hb_get (shard_ops D) (as_map p))(?k := None)"
      using H.promote_entry_previous[of "as_map a" "as_map p" ?k] ap by simp
    have i: "i = route D (length (shards m)) ?k" using at(1) by (simp add: at_active_def)
    note tr = transfer_key[OF wd p(2,1) Some i ga _ gp shared_deref_mut_set, unfolded init, OF shared_deref_mut_set]
    have pl: "plain_map D ?m" using m tr(1,3) by (simp add: plain_map_def wf_map_def)
    have fr: "framed D (writes holds wants (LockPrevious c i j :: ('e, 'k, 'v, 'm) pc)) m ?m"
      unfolding framed_def
    proof (intro conjI)
      show "\<forall>k. slots_get D (prev_slots m) k = None \<longrightarrow> slots_get D (prev_slots ?m) k = None" using tr(4) by simp
    qed (use a(1,2) p(1,2) c in \<open>auto simp: nth_list_update writes_def\<close>)
    have "pc_ok D ?m (Mutate c i)" using tr(4) c a(2) i by (simp add: at_active_def)
    then have "step_ok D (LockPrevious c i j :: ('e, 'k, 'v, 'm) pc) m (Mutate c i, ?m)" using pl fr tr(2) by (simp add: step_ok_def effect_def)
    then show ?thesis using a(3) p(3) Some ap by (simp add: promote_locked_def)
  qed
qed

lemma lock_previous_ok:
  assumes m: "plain_map D m" and ok: "pc_ok D m (LockPrevious c i j :: ('e, 'k, 'v, 'm) pc)"
  shows "\<exists>r. lock_previous D c i j m = Some r \<and> step_ok D (LockPrevious c i j :: ('e, 'k, 'v, 'm) pc) m r"
proof (cases rule: read_or_write[of c])
  case (reader k)
  then show ?thesis
    using read_previous_ok[OF m, of k j "LockPrevious c i j"] ok by (simp add: lock_previous_def read_missed_def)
next
  case writer
  then show ?thesis using promote_locked_ok[OF m ok] by (simp add: writing_steps)
qed

text \<open>A key that has been promoted is already locked: the whole operation is its mutation.\<close>

lemma lock_key_promoted:
  assumes wf: "wf_map D m" and at: "at_active D m k i" and none: "slots_get D (prev_slots m) k = None"
  obtains a where "shards m ! i = Some a" "slot_guard (shards m) i = Some a" "lock_key D m k = Some (i, a, m)" "i < length (shards m)"
proof -
  have wd: "wf_dirs D m" using wf by (simp add: wf_map_def)
  obtain a where a: "shards m ! i = Some a" "i < length (shards m)" "slot_guard (shards m) i = Some a" using active_slot[OF wd at] by metis
  have "promote_previous D m k a = Some (a, m)"
    using wd
  proof (cases rule: previous_lookup[of D m k])
    case none
    then show ?thesis by (simp add: promote_previous_def)
  next
    case (found j p)
    obtain q where q: "prev_slots m ! j = Some q" "slots_get D (prev_slots m) k = hb_get (shard_ops D) (as_map q) k" using previous_slot[OF found(2)] by metis
    moreover have "p = q" using found q previous_shard_wf[OF wd, of k] by (auto simp: at_previous_def)
    ultimately show ?thesis using found(1) none by (simp add: promote_previous_def)
  qed
  then show ?thesis
    using that[of a] a at by (simp add: lock_key_def shard_index_wf[OF wd] get_or_init_eq at_active_def init_slot_def unlock_same)
qed

text \<open>How a mutation may end: with a commit of the locked shard, or without a change.\<close>

lemma mutation_ends:
  assumes m: "plain_map D m" and L: "locked D m (request_key c) i a m" and a: "shards m ! i \<noteq> None" "i < length (shards m)"
    and w: "request_mode c = Write_Lock" and l: "life_opts l = None"
  shows "\<lbrakk>fst (spec_request c (view D m)) = answer (view D m (request_key c)); snd (spec_request c (view D m)) = (view D m)(request_key c \<mapsto> v)\<rbrakk> \<Longrightarrow>
      \<exists>m'. put_locked D i a (request_key c) v answer (m\<lparr>lifecycle := l\<rparr>) = (answer (view D m (request_key c)), m') \<and>
        step_ok D (Mutate c i :: ('e, 'k, 'v, 'm) pc) m (Leave (Keyed c) (answer (view D m (request_key c))), m')"
    "\<lbrakk>fst (spec_request c (view D m)) = answer (view D m (request_key c)); snd (spec_request c (view D m)) = (view D m)(request_key c := None)\<rbrakk> \<Longrightarrow>
      \<exists>m'. take_locked D i a (request_key c) answer (m\<lparr>lifecycle := l\<rparr>) = (answer (view D m (request_key c)), m') \<and>
        step_ok D (Mutate c i :: ('e, 'k, 'v, 'm) pc) m (Leave (Keyed c) (answer (view D m (request_key c))), m')"
    "\<lbrakk>fst (spec_request c (view D m)) = out; snd (spec_request c (view D m)) = view D m\<rbrakk> \<Longrightarrow>
      step_ok D (Mutate c i :: ('e, 'k, 'v, 'm) pc) m (Leave (Keyed c) out, m\<lparr>lifecycle := l\<rparr>)"
proof -
  let ?k = "request_key c" and ?p = "Mutate c i :: ('e, 'k, 'v, 'm) pc"
  have fr: "framed D (writes holds wants ?p) m (commit D i a mu l' (m\<lparr>lifecycle := l\<rparr>))" for mu l'
    using a w by (auto simp: framed_def writes_def commit_eq nth_list_update)
  have fin: "step_ok D ?p m (Leave (Keyed c) out, m')"
    if "committed D m V ep l' m'" "life_opts l' = None" "framed D (writes holds wants ?p) m m'"
      "fst (spec_request c (view D m)) = out" "snd (spec_request c (view D m)) = V" for V ep l' m' out
    using that by (simp add: step_ok_def effect_def plain_map_def committed_def)
  show "\<exists>m'. put_locked D i a ?k v answer (m\<lparr>lifecycle := l\<rparr>) = (answer (view D m ?k), m') \<and>
      step_ok D ?p m (Leave (Keyed c) (answer (view D m ?k)), m')"
    if "fst (spec_request c (view D m)) = answer (view D m ?k)" "snd (spec_request c (view D m)) = (view D m)(?k \<mapsto> v)"
  proof -
    obtain mu where mu: "tracked_insert D (shard_mutation_new (shard_ops D) (as_map a)) ?k v l =
        (view D m ?k, mu, insert_hook D ?k v (view D m ?k \<noteq> None) l)"
      "\<forall>l' l''. committed D m ((view D m)(?k \<mapsto> v)) (write_epoch m + 1) l' (commit D i a mu l' (m\<lparr>lifecycle := l''\<rparr>))"
      using locked_insert[OF L] by blast
    then show ?thesis
      using fin[OF mu(2)[rule_format] _ fr that] l by (simp add: put_locked_def)
  qed
  show "\<exists>m'. take_locked D i a ?k answer (m\<lparr>lifecycle := l\<rparr>) = (answer (view D m ?k), m') \<and>
      step_ok D ?p m (Leave (Keyed c) (answer (view D m ?k)), m')"
    if "fst (spec_request c (view D m)) = answer (view D m ?k)" "snd (spec_request c (view D m)) = (view D m)(?k := None)"
  proof -
    obtain mu where mu: "tracked_remove D (shard_mutation_new (shard_ops D) (as_map a)) ?k l =
        (view D m ?k, mu, remove_hook D ?k (view D m ?k \<noteq> None) l)"
      "\<forall>l' l''. committed D m ((view D m)(?k := None)) (if view D m ?k = None then write_epoch m else write_epoch m + 1) l'
         (commit D i a mu l' (m\<lparr>lifecycle := l''\<rparr>))"
      using locked_remove[OF L] by blast
    then show ?thesis
      using fin[OF mu(2)[rule_format] _ fr that] l by (simp add: take_locked_def)
  qed
  show "step_ok D ?p m (Leave (Keyed c) out, m\<lparr>lifecycle := l\<rparr>)"
    if "fst (spec_request c (view D m)) = out" "snd (spec_request c (view D m)) = view D m"
    using that m l by (simp add: step_ok_def effect_def plain_map_def framed_same)
qed

lemma mutate_ok:
  assumes m: "plain_map D m" and ok: "pc_ok D m (Mutate c i :: ('e, 'k, 'v, 'm) pc)"
  shows "\<exists>r. mutate D c i m = Some r \<and> step_ok D (Mutate c i :: ('e, 'k, 'v, 'm) pc) m r"
proof -
  let ?k = "request_key c"
  have wf: "wf_map D m" and plain: "life_opts (lifecycle m) = None" using m by (simp_all add: plain_map_def)
  have at: "at_active D m ?k i" and none: "slots_get D (prev_slots m) ?k = None" and w: "request_mode c = Write_Lock" using ok by simp_all
  obtain a where a: "shards m ! i = Some a" "slot_guard (shards m) i = Some a" "lock_key D m ?k = Some (i, a, m)" "i < length (shards m)"
    using lock_key_promoted[OF wf at none] .
  have L: "locked D m ?k i a m" using locked_key[OF wf, of ?k] a(3) by auto
  have cur: "hb_get (shard_ops D) (as_map a) ?k = view D m ?k" by (rule lockedD(1)[OF L])
  let ?l = "record_read D ?k (view D m ?k \<noteq> None) (lifecycle m)"
  have lo: "life_opts ?l = None" using plain by (simp add: opts_record_read)
  have keep: "m\<lparr>lifecycle := lifecycle m\<rparr> = m" by simp
  have sl: "shards m ! i \<noteq> None" using a(1) by simp
  note ends = mutation_ends[OF m L sl a(4) w lo, where 'e = 'e]
  note plain_ends = mutation_ends[OF m L sl a(4) w plain, where 'e = 'e, unfolded keep]
  show ?thesis
  proof (cases c)
    case (Call d)
    show ?thesis
    proof (cases d)
      case (Insert k v)
      then show ?thesis using plain_ends(1)[of Value v] a(2) Call by (auto simp: mutate_def)
    next
      case (Delete k)
      then show ?thesis using plain_ends(2)[of Value] plain_ends(3)[of "Value None"] a(2) cur Call
        by (auto simp: mutate_def remove_locked_def fun_upd_idem)
    qed (use w Call in simp)
  next
    case (Swap k expected new)
    then show ?thesis using ends(1)[of "\<lambda>_. Swapped (Success new)" new] ends(3) a(2) cur
      by (cases "view D m ?k") (auto simp: mutate_def swap_locked_def note_read_def Let_def)
  next
    case (RemoveIf k expected)
    then show ?thesis using ends(2)[of "\<lambda>_. Matched True"] ends(3) a(2) cur
      by (auto simp: mutate_def remove_if_locked_def note_read_def Let_def)
  next
    case (OrInsert k f)
    then show ?thesis using ends(1)[of "\<lambda>_. Value (Some (f ()))" "f ()"] ends(3) a(2) cur
      by (cases "view D m ?k") (auto simp: mutate_def or_insert_locked_def note_read_def Let_def)
  next
    case (IfPresent k f)
    then show ?thesis
      using ends(1)[of "\<lambda>_. Value (f (the (view D m k)))" "the (f (the (view D m k)))"] ends(2)[of "\<lambda>_. Value None"] ends(3) a(2) cur
      by (cases "view D m ?k"; cases "f (the (view D m ?k))") (auto simp: mutate_def if_present_locked_def note_read_def Let_def fun_upd_idem)
  qed
qed

section \<open>The steps of a transaction\<close>

lemma txn_begin_ok:
  assumes m: "plain_map D m"
  shows "\<exists>r. txn_begin D xs m = Some r \<and> step_ok D (Enter (Txn xs) :: ('e, 'k, 'v, 'm) pc) m r"
proof -
  have eq: "txn_begin D xs m = Some (TxnLookup xs (txn_active D m xs) (txn_active D m xs), m)"
    by (simp add: txn_begin_def indexed_wf[OF plain_dirs[OF m]] txn_active_def comp_def Let_def)
  have "step_ok D (Enter (Txn xs)) m (TxnLookup xs (txn_active D m xs) (txn_active D m xs), m)"
    by (intro quiet_step[OF m]) (auto simp: effect_def txn_uses_def)
  then show ?thesis using eq by blast
qed

lemma txn_todo_less:
  assumes "plain_map D m" "txn_active D m xs = ready @ i # todo"
  shows "i < length (shards m)"
  using txn_active_less[OF wf_dirsD(1)[OF plain_dirs[OF assms(1)]], of i D xs] assms(2) by simp

lemma txn_lookup_ok:
  assumes m: "plain_map D m" and ok: "pc_ok D m (TxnLookup xs active (i # todo) :: ('e, 'k, 'v, 'm) pc)"
  shows "\<exists>r. txn_lookup xs active i todo m = Some r \<and> step_ok D (TxnLookup xs active (i # todo) :: ('e, 'k, 'v, 'm) pc) m r"
proof -
  obtain ready where r: "active = txn_active D m xs" "txn_active D m xs = ready @ i # todo" "\<forall>i \<in> set ready. shards m ! i \<noteq> None" using ok by auto
  have i: "i < length (shards m)" using txn_todo_less[OF m r(2)] .
  let ?p = "(if shards m ! i = None then TxnInit xs active i todo else TxnLookup xs active todo) :: ('e, 'k, 'v, 'm) pc"
  have "txn_lookup xs active i todo m = Some (?p, m)" using i by (simp add: txn_lookup_def)
  moreover have "pc_ok D m ?p"
  proof (cases "shards m ! i = None")
    case True
    then show ?thesis using ok by simp
  next
    case False
    then have "txn_active D m xs = (ready @ [i]) @ todo \<and> (\<forall>j \<in> set (ready @ [i]). shards m ! j \<noteq> None)" using r(2,3) by simp
    then show ?thesis using False r(1) unfolding if_not_P[OF False] pc_ok.simps by blast
  qed
  then have "step_ok D (TxnLookup xs active (i # todo)) m (?p, m)"
    by (intro quiet_step[OF m]) (auto simp: effect_def txn_uses_def)
  ultimately show ?thesis by blast
qed

lemma txn_init_ok:
  assumes m: "plain_map D m" and ok: "pc_ok D m (TxnInit xs active i todo :: ('e, 'k, 'v, 'm) pc)"
  shows "\<exists>r. txn_init D xs active i todo m = Some r \<and> step_ok D (TxnInit xs active i todo :: ('e, 'k, 'v, 'm) pc) m r"
proof -
  note wd = plain_dirs[OF m]
  obtain ready where r: "active = txn_active D m xs" "txn_active D m xs = ready @ i # todo" "\<forall>i \<in> set ready. shards m ! i \<noteq> None" using ok by auto
  have i: "i < length (shards m)" using txn_todo_less[OF m r(2)] .
  let ?m = "unlock i (init_slot D m i) m"
  note new = get_or_init_wf[OF wd i]
  have pl: "plain_map D ?m" using m new(1,3) by (simp add: plain_map_def wf_map_def)
  have fr: "framed D (writes holds wants (TxnInit xs active i todo :: ('e, 'k, 'v, 'm) pc)) m ?m"
    using i by (auto simp: framed_def writes_def nth_list_update init_slot_def)
  have act: "txn_active D ?m xs = txn_active D m xs" by (rule txn_active_cong) simp
  have "txn_active D ?m xs = (ready @ [i]) @ todo \<and> (\<forall>j \<in> set (ready @ [i]). shards ?m ! j \<noteq> None)" using r(2,3) i act by (auto simp: nth_list_update)
  then have "pc_ok D ?m (TxnLookup xs active todo)" using r(1) act unfolding pc_ok.simps by metis
  then have "step_ok D (TxnInit xs active i todo :: ('e, 'k, 'v, 'm) pc) m (TxnLookup xs active todo, ?m)"
    using pl fr new(2) by (simp add: step_ok_def effect_def txn_uses_def del: pc_ok.simps)
  then show ?thesis using i by (simp add: txn_init_def get_or_init_eq)
qed

lemma txn_previous_ok:
  assumes m: "plain_map D m" and ok: "pc_ok D m (TxnPrevious xs active :: ('e, 'k, 'v, 'm) pc)"
  shows "\<exists>r. txn_previous D xs active m = Some r \<and> step_ok D (TxnPrevious xs active :: ('e, 'k, 'v, 'm) pc) m r"
proof -
  have count: "previous_shard_count m = length (prev_slots m)" using wf_dirsD(4)[OF plain_dirs[OF m]] by simp
  have "list_all (\<lambda>j. j < length (prev_slots m)) (txn_previous_indices D xs m)"
    using route_less[of "prev_slots m" D] count by (auto simp: txn_previous_indices_def list_all_iff)
  then have "txn_previous D xs active m = Some (TxnLock xs active [] (map Active active @ map Previous (txn_previously D m xs)), m)"
    using count by (auto simp: txn_previous_def txn_previously_def txn_previous_indices_def prev_slots_def split: option.splits)
  then have "txn_previous D xs active m = Some (TxnLock xs active [] (txn_locks D m xs), m)" using ok by (simp add: txn_locks_def)
  moreover have "step_ok D (TxnPrevious xs active) m (TxnLock xs active [] (txn_locks D m xs), m)"
    using ok by (intro quiet_step[OF m]) (auto simp: effect_def txn_uses_def)
  ultimately show ?thesis by blast
qed

text \<open>The operations of a transaction write nothing but the shards it has locked.\<close>

lemma framed_trans:
  assumes f: "framed D W m m1" and g: "framed D W m1 m2"
  shows "framed D W m m2"
  using framedD(1)[OF f] framedD(2)[OF f] framedD(1)[OF g] framedD(2)[OF g] framedD(3-8)[OF f] framedD(3-8)[OF g]
  unfolding framed_def by (intro conjI; metis)

lemma promote_framed:
  assumes wd: "wf_dirs D m" and p: "promote_previous D m k a = Some (a', m1)"
    and j: "\<And>j. at_previous D m k j \<Longrightarrow> Previous j \<in> W"
  shows "framed D W m m1"
  using wd
proof (cases rule: previous_lookup[of D m k])
  case none
  then show ?thesis using p by (simp add: promote_previous_def framed_same)
next
  case (found j q)
  note jl = route_less[of "prev_slots m" D k]
  have jr: "prev_slots m \<noteq> []" "j = route D (length (prev_slots m)) k" "prev_slots m ! j = Some q" "j < length (prev_slots m)"
    using found jl previous_shard_wf[OF wd, of k] by (auto simp: at_previous_def)
  show ?thesis
  proof (cases "hb_get (shard_ops D) (as_map q) k")
    case None
    then show ?thesis using p found(1) by (simp add: promote_previous_def framed_same)
  next
    case (Some v)
    obtain x y where xy: "promote_entry (shard_ops D) (as_map a) (as_map q) k = (x, y)" by fastforce
    let ?P = "deref_mut_set q y"
    have m1: "m1 = set_previous_slot j (Some ?P) m" using p found(1) Some xy by (simp add: promote_previous_def)
    have gy: "hb_get (shard_ops D) (as_map ?P) = (hb_get (shard_ops D) (as_map q))(k := None)"
      using H.promote_entry_previous[of "as_map a" "as_map q" k] xy by simp
    have sl: "prev_slots m1 = (prev_slots m)[j := Some ?P]" "shards m1 = shards m" using m1 by simp_all
    have "slots_get D (prev_slots m1) k' = None" if "slots_get D (prev_slots m) k' = None" for k'
    proof (cases "route D (length (prev_slots m)) k' = j")
      case True
      then have "hb_get (shard_ops D) (as_map q) k' = None" using that slots_get_at[OF jr(4), of D k'] jr(3) by simp
      then show ?thesis using True gy slots_get_at[of j "prev_slots m1" D k'] jr(4) sl(1) by simp
    next
      case False
      then show ?thesis using that sl(1) by (auto simp: slots_get_def Let_def nth_list_update split: option.splits)
    qed
    then show ?thesis unfolding framed_def using j[OF found(2)] sl jr(3,4) by (auto simp: nth_list_update)
  qed
qed

lemma txn_step_framed:
  assumes wd: "wf_dirs D m" and st: "txn_step D x m = Some m'"
    and i: "Active (route D (length (shards m)) (txn_key x)) \<in> W" and j: "\<And>j. at_previous D m (txn_key x) j \<Longrightarrow> Previous j \<in> W"
  shows "framed D W m m'"
proof -
  let ?i = "route D (length (shards m)) (txn_key x)"
  have il: "?i < length (shards m)" using route_less[OF wf_dirsD(1)[OF wd]] .
  have "\<exists>g a m1. shards m ! ?i = Some g \<and> promote_previous D m (txn_key x) g = Some (a, m1) \<and>
      (\<exists>b. shards m' = (shards m1)[?i := Some b]) \<and> prev_slots m' = prev_slots m1"
    using st il by (auto simp: txn_step_def shard_index_wf[OF wd] commit_eq Let_def split: bind_splits txn_op.splits if_splits prod.splits)
  then obtain g a m1 where g: "shards m ! ?i = Some g" "promote_previous D m (txn_key x) g = Some (a, m1)"
    and m': "\<exists>b. shards m' = (shards m1)[?i := Some b]" "prev_slots m' = prev_slots m1" by blast
  have sh: "shards m1 = shards m" using promote_previous_shards[OF g(2)] .
  have "framed D W m1 m'" unfolding framed_def using m' sh g(1) i il by (auto simp: nth_list_update)
  then show ?thesis using framed_trans[OF promote_framed[OF wd g(2) j]] by blast
qed

lemma txn_fold_framed:
  assumes "plain_map D m" "set xs \<subseteq> set ys" "txn_ready D m ys"
  shows "\<exists>m'. fold_option (txn_step D) xs m = Some m' \<and> plain_map D m' \<and> view D m' = fold txn_apply xs (view D m) \<and>
    framed D (set (txn_locks D m ys)) m m'"
  using assms
proof (induction xs arbitrary: m)
  case Nil
  then show ?case by (simp add: framed_same)
next
  case (Cons x xs)
  have wf: "wf_map D m" and wd: "wf_dirs D m" using Cons.prems(1) by (simp_all add: plain_map_def wf_map_def)
  have x: "x \<in> set ys" using Cons.prems(2) by simp
  then have "shards m ! route D (length (shards m)) (txn_key x) \<noteq> None"
    using Cons.prems(3) by (simp add: txn_ready_def txn_active_set)
  then obtain m1 where m1: "txn_step D x m = Some m1" "op_post D m (view D m1) m1" "view D m1 = txn_apply x (view D m)"
    using txn_step_spec[OF wf, of x] by blast
  have fr: "framed D (set (txn_locks D m ys)) m m1"
  proof (rule txn_step_framed[OF wd m1(1)])
    show "Active (route D (length (shards m)) (txn_key x)) \<in> set (txn_locks D m ys)" using x by (simp add: txn_locks_def txn_active_set)
    show "Previous j \<in> set (txn_locks D m ys)" if "at_previous D m (txn_key x) j" for j
      using that x by (auto simp: txn_locks_def txn_previously_set at_previous_def)
  qed
  have pl: "plain_map D m1" using op_post_plain[OF m1(2) Cons.prems(1)] by simp
  obtain m' where m': "fold_option (txn_step D) xs m1 = Some m'" "plain_map D m'" "view D m' = fold txn_apply xs (view D m1)"
    "framed D (set (txn_locks D m1 ys)) m1 m'"
    using Cons.IH[OF pl _ txn_ready_framed[OF fr wf_dirsD(1)[OF wd] Cons.prems(3)]] Cons.prems(2) by auto
  then show ?case using m1(1,3) framed_trans[OF fr] txn_locks_framed[OF fr, of ys] by auto
qed

lemma copy_ok:
  assumes m: "plain_map D m" and ok: "pc_ok D m (Copy held acc :: ('e, 'k, 'v, 'm) pc)"
  shows "\<exists>r. copy_next D held acc m = Some r \<and> step_ok D (Copy held acc :: ('e, 'k, 'v, 'm) pc) m r"
proof (cases "length acc < length held")
  case True
  let ?l = "held ! length acc"
  have "?l \<in> set (scan_locks m)" using True ok by auto
  then obtain sd where sd: "guarded m ?l = Some sd" using guarded_scan by blast
  have "step_ok D (Copy held acc) m (Copy held (acc @ [shard_snapshot sd]), m)"
    using ok sd True by (intro quiet_step[OF m]) (auto simp: effect_def take_Suc_conv_app_nth)
  then show ?thesis using True sd by (simp add: copy_next_def)
next
  case False
  then have "map Some acc = map (map_option shard_snapshot) (map (guarded m) (scan_locks m))" using ok by (simp add: comp_def)
  also have "\<dots> = map Some (map shard_snapshot (all_shards m))" by (simp add: guarded_all comp_def)
  finally have acc: "acc = map shard_snapshot (all_shards m)" by (rule map_injective) simp
  have "sv_iter D (snapshot_view_new D acc ep n) = stored_entries D m" for ep n
    by (simp add: acc sv_iter_def snapshot_view_new_def stored_entries_def shard_snapshot_def comp_def)
  then have "step_ok D (Copy held acc) m (Leave Scan (Listed (sv_iter D (snapshot_view_new D acc (write_epoch m) (length (shards m))))), m)"
    using entries_exact[of m] m by (intro quiet_step[OF m]) (auto simp: effect_def plain_map_def)
  then show ?thesis using False by (simp add: copy_next_def)
qed

end

end
