(* ===== verification/Linearizability.thy ===== *)
theory Linearizability
  imports Thread_Steps
begin

text \<open>
  Any number of threads on one map: every interleaving of their steps is linearizable, and
  no interleaving blocks for good. The lock order of \<open>Map_Threads\<close> is an instance of \<open>lock_order\<close>, the
  steps of \<open>Thread_Steps\<close> keep the invariant \<open>threads_ok\<close>, and a lexicographic measure bounds what is
  left of the operations in progress. \<open>linear_code\<close> is what the code of a map must guarantee for this where the two maps differ.
\<close>

section \<open>Traces\<close>

text \<open>The life of a thread: it calls an operation, which either takes effect once and then returns with that answer, or is
  dropped before it returns.\<close>

datatype ('e, 'k, 'v) phase = Outside | Called "('e, 'k, 'v) operation" | Taken "('e, 'k, 'v) operation" "('k, 'v) reply"

fun thread_of :: "('e, 'k, 'v) trace_entry \<Rightarrow> nat" where
  "thread_of (Invoked t p) = t"
| "thread_of (Took t p out) = t"
| "thread_of (Returned t p out) = t"
| "thread_of (Dropped t p lost) = t"

fun next_phase :: "('e, 'k, 'v) trace_entry \<Rightarrow> ('e, 'k, 'v) phase \<Rightarrow> ('e, 'k, 'v) phase option" where
  "next_phase (Invoked t p) ph = (if ph = Outside then Some (Called p) else None)"
| "next_phase (Took t p out) ph = (if ph = Called p then Some (Taken p out) else None)"
| "next_phase (Returned t p out) ph = (if ph = Taken p out then Some Outside else None)"
| "next_phase (Dropped t p lost) ph = (if ph = Called p then Some Outside else None)"

fun script :: "('e, 'k, 'v) trace_entry list \<Rightarrow> ('e, 'k, 'v) phase \<Rightarrow> ('e, 'k, 'v) phase option" where
  "script [] ph = Some ph"
| "script (e # es) ph = Option.bind (next_phase e ph) (script es)"

definition life_of :: "nat \<Rightarrow> ('e, 'k, 'v) trace_entry list \<Rightarrow> ('e, 'k, 'v) phase option" where
  "life_of t tr = script (filter (\<lambda>e. thread_of e = t) tr) Outside"

fun pc_phase :: "('e, 'k, 'v, 'm) pc \<Rightarrow> ('e, 'k, 'v) phase" where
  "pc_phase Idle = Outside"
| "pc_phase (Leave p out) = Taken p out"
| "pc_phase p = Called (the (op_of p))"

text \<open>The operations in the order in which they took effect or were dropped, with how they ended.\<close>

fun effects :: "('e, 'k, 'v) trace_entry list \<Rightarrow> (('e, 'k, 'v) operation \<times> ('k, 'v) ending) list" where
  "effects [] = []"
| "effects (Took t p out # es) = (p, Replied out) # effects es"
| "effects (Dropped t p lost # es) = (p, Cancelled lost) # effects es"
| "effects (_ # es) = effects es"

text \<open>A finite map starting as \<open>A\<close> gives these replies, and is left with these entries removed.\<close>

fun explained :: "(('e, 'k, 'v) operation \<times> ('k, 'v) ending) list \<Rightarrow> ('k \<Rightarrow> 'v option) \<Rightarrow> bool" where
  "explained [] A = True"
| "explained ((p, e) # es) A = (ends p e A \<and> explained es (leaves (p, e) A))"

lemma effects_append [simp]: "effects (xs @ ys) = effects xs @ effects ys"
  by (induction xs rule: effects.induct) simp_all

lemma script_append: "script (xs @ ys) ph = Option.bind (script xs ph) (script ys)"
  by (induction xs arbitrary: ph) (auto split: bind_splits)

lemma life_of_other: "thread_of e \<noteq> t \<Longrightarrow> life_of t (tr @ [e]) = life_of t tr"
  by (simp add: life_of_def)

lemma life_of_own: "thread_of e = t \<Longrightarrow> life_of t (tr @ [e]) = Option.bind (life_of t tr) (next_phase e)"
  by (cases "script (filter (\<lambda>e. thread_of e = t) tr) Outside"; cases "next_phase e (the (life_of t tr))")
    (simp_all add: life_of_def script_append)

lemma explained_snoc: "explained (es @ [(p, e)]) A \<longleftrightarrow> explained es A \<and> ends p e (fold leaves es A)"
  by (induction es A rule: explained.induct) simp_all

text \<open>A step that leaves both directories as they are.\<close>

definition same_slots :: "('k, 'v, 'm, 'b) deps \<Rightarrow> ('k, 'v, 'm, 'b) sharded_map \<Rightarrow> ('k, 'v, 'm, 'b) sharded_map \<Rightarrow> bool" where
  "same_slots D m m' \<longleftrightarrow> shards m' = shards m \<and> prev_slots m' = prev_slots m \<and> view D m' = view D m"

lemma pc_ok_same: "pc_ok D m p \<Longrightarrow> same_slots D m m' \<Longrightarrow> shards m \<noteq> [] \<Longrightarrow> pc_ok D m' p"
  using pc_ok_framed[of D m p "{}" m'] by (simp add: same_slots_def framed_same)

section \<open>The invariant\<close>

definition threads_ok :: "('k, 'v, 'm, 'b) deps \<Rightarrow> ('k \<Rightarrow> 'v option) \<Rightarrow> ('e, 'k, 'v, 'm, 'b) thread_sys \<Rightarrow> bool" where
  "threads_ok D A s \<longleftrightarrow>
     plain_map D (th_map s) \<and> compatible holds (th_pcs s) \<and>
     (\<forall>t < length (th_pcs s). pc_ok D (th_map s) (th_pcs s ! t) \<and> life_of t (th_trace s) = Some (pc_phase (th_pcs s ! t))) \<and>
     explained (effects (th_trace s)) A \<and> view D (th_map s) = fold leaves (effects (th_trace s)) A"

lemma threads_okD:
  assumes "threads_ok D A s"
  shows "plain_map D (th_map s)" "compatible holds (th_pcs s)"
    "t < length (th_pcs s) \<Longrightarrow> pc_ok D (th_map s) (th_pcs s ! t)"
    "t < length (th_pcs s) \<Longrightarrow> life_of t (th_trace s) = Some (pc_phase (th_pcs s ! t))"
    "explained (effects (th_trace s)) A" "view D (th_map s) = fold leaves (effects (th_trace s)) A"
  using assms by (simp_all add: threads_ok_def)

lemma threads_ok_init: "plain_map D m \<Longrightarrow> threads_ok D (view D m) (threads_on n m)"
  by (simp add: threads_ok_def threads_on_def compatible_def life_of_def)

text \<open>One entry more in the trace, of thread \<open>t\<close> moving to \<open>p'\<close>.\<close>

lemma lives_step:
  assumes ok: "threads_ok D A s" and t: "t < length (th_pcs s)" and e: "thread_of e = t"
    and ph: "next_phase e (pc_phase (th_pcs s ! t)) = Some (pc_phase p')"
  shows "\<forall>u < length (th_pcs s). life_of u (th_trace s @ [e]) = Some (pc_phase ((th_pcs s)[t := p'] ! u))"
proof (intro allI impI)
  fix u assume u: "u < length (th_pcs s)"
  show "life_of u (th_trace s @ [e]) = Some (pc_phase ((th_pcs s)[t := p'] ! u))"
    using threads_okD(4)[OF ok u] life_of_own[OF e] life_of_other[of e u] ph t e u by (cases "u = t") simp_all
qed

lemma lives_quiet:
  assumes ok: "threads_ok D A s" and t: "t < length (th_pcs s)" and ph: "pc_phase p' = pc_phase (th_pcs s ! t)"
  shows "\<forall>u < length (th_pcs s). life_of u (th_trace s) = Some (pc_phase ((th_pcs s)[t := p'] ! u))"
  using threads_okD(4)[OF ok] ph t by (simp add: nth_list_update)

section \<open>No deadlock\<close>

fun shard_lock :: "lock \<Rightarrow> bool" where
  "shard_lock (Active i) = True"
| "shard_lock (Previous j) = True"
| "shard_lock _ = False"

fun in_lock_order :: "('e, 'k, 'v, 'm) pc \<Rightarrow> bool" where
  "in_lock_order (TxnLock xs active held todo) = (sorted_wrt (<) (held @ todo) \<and> list_all shard_lock (held @ todo))"
| "in_lock_order (TxnRun xs active held) = list_all shard_lock held"
| "in_lock_order (ScanLock held todo) = (sorted_wrt (<) (held @ todo) \<and> list_all shard_lock (held @ todo))"
| "in_lock_order _ = True"

lemma shard_lock_last: "shard_lock l \<Longrightarrow> Routing < l \<and> Directory < l \<and> Builder < l"
  by (cases l) (simp_all add: less_lock_def)

lemma shard_lock_all: "list_all shard_lock xs \<Longrightarrow> PrevDirectory \<notin> set xs"
  by (auto simp: list_all_iff)

text \<open>
  The previous directory is only written under the exclusive routing lock, where nobody else is inside;
  it may therefore be read in any order.
\<close>

interpretation sync_locks: lock_order holds wants "\<lambda>p. p \<noteq> Idle" "\<lambda>l. l = PrevDirectory" in_lock_order
proof
  fix p :: "('e, 'k, 'v, 'm) pc" and l a l' b
  assume "in_lock_order p" "wants p = Some (l, a)" "(l', b) \<in> set (holds p)" "l \<noteq> PrevDirectory" "l' \<noteq> PrevDirectory"
  then show "l' < l"
  proof (cases p rule: wants.cases)
    case (15 xs active held x todo)
    then show ?thesis
      using \<open>in_lock_order p\<close> \<open>wants p = Some (l, a)\<close> \<open>(l', b) \<in> set (holds p)\<close> \<open>l' \<noteq> PrevDirectory\<close> shard_lock_last[of l]
      by (auto simp: txn_uses_def sorted_wrt_append)
  next
    case (21 held x todo)
    then show ?thesis
      using \<open>in_lock_order p\<close> \<open>wants p = Some (l, a)\<close> \<open>(l', b) \<in> set (holds p)\<close> \<open>l' \<noteq> PrevDirectory\<close> shard_lock_last[of l]
      by (auto simp: scan_uses_def sorted_wrt_append)
  qed (auto simp: less_lock_def gate_use_def txn_uses_def split: if_splits)
next
  fix l and p :: "('e, 'k, 'v, 'm) pc"
  show "in_lock_order p \<Longrightarrow> l = PrevDirectory \<Longrightarrow> (l, Write_Lock) \<notin> set (holds p) \<and> wants p \<noteq> Some (l, Write_Lock)"
    by (cases p rule: holds.cases; cases p rule: wants.cases)
      (auto simp: scan_uses_def txn_uses_def gate_use_def shard_lock_all split: if_splits)
next
  fix p :: "('e, 'k, 'v, 'm) pc"
  show "\<not> p \<noteq> Idle \<Longrightarrow> holds p = [] \<and> wants p = None" by simp
qed

lemma scan_locks_order:
  fixes m :: "('k, 'v, 'b, 'c) sharded_map"
  shows "sorted_wrt (<) (scan_locks m) \<and> list_all shard_lock (scan_locks m)"
proof -
  have sorted: "sorted_wrt (<) (initialised mk slots)" if "\<And>i j. i < j \<Longrightarrow> mk i < mk j" for mk and slots :: "'b slots"
    unfolding initialised_def sorted_wrt_map by (rule sorted_wrt_mono_rel[OF that sorted_wrt_filter[OF sorted_wrt_upt]])
  have "sorted_wrt (<) (initialised Active (shards m))" "sorted_wrt (<) (initialised Previous (prev_slots m))"
    by (rule sorted; simp add: less_lock_def)+
  moreover have "l < l'" if "l \<in> set (initialised Active (shards m))" "l' \<in> set (initialised Previous (prev_slots m))" for l l'
    using that by (auto simp: initialised_def less_lock_def)
  moreover have "list_all shard_lock (scan_locks m)" by (auto simp: scan_locks_def list_all_iff initialised_def)
  ultimately show ?thesis by (simp add: scan_locks_def sorted_wrt_append)
qed

lemma ascending_remdups_adj: "sorted js \<Longrightarrow> sorted_wrt (<) (remdups_adj js)"
  by (induction js rule: remdups_adj.induct) (auto simp: order.strict_iff_order)

lemma txn_locks_order:
  fixes m :: "('k, 'v, 'b, 'c) sharded_map"
  shows "sorted_wrt (<) (txn_locks D m xs) \<and> list_all shard_lock (txn_locks D m xs)"
proof -
  have ascending: "sorted_wrt (<) (remdups_adj (sort js))" for js :: "nat list"
    by (rule ascending_remdups_adj) simp
  have sorted: "sorted_wrt (<) (map mk js)" if "\<And>i j. i < j \<Longrightarrow> mk i < mk j" "sorted_wrt (<) js" for mk :: "nat \<Rightarrow> lock" and js
    unfolding sorted_wrt_map by (rule sorted_wrt_mono_rel[OF that(1,2)])
  have "sorted_wrt (<) (txn_active D m xs)" by (simp add: txn_active_def ascending)
  moreover have "sorted_wrt (<) (txn_previously D m xs)"
    by (simp add: txn_previously_def sorted_wrt_filter ascending)
  ultimately have "sorted_wrt (<) (map Active (txn_active D m xs))" "sorted_wrt (<) (map Previous (txn_previously D m xs))"
    by (auto intro!: sorted simp: less_lock_def)
  moreover have "Active i < Previous j" for i j by (simp add: less_lock_def)
  ultimately show ?thesis by (auto simp: txn_locks_def sorted_wrt_append list_all_iff)
qed

lemma pc_ok_in_order: "pc_ok D m p \<Longrightarrow> in_lock_order p"
  using scan_locks_order[of m] txn_locks_order[of D m] by (cases p) auto

lemma someone_moves:
  assumes ok: "threads_ok D A s" and t: "t < length (th_pcs s)" "th_pcs s ! t \<noteq> Idle"
  shows "\<exists>u < length (th_pcs s). th_pcs s ! u \<noteq> Idle \<and> let_in holds wants (th_pcs s) u"
  using sync_locks.someone_let_in[OF _ t] pc_ok_in_order[OF threads_okD(3)[OF ok]] by blast

section \<open>Every operation returns\<close>

text \<open>What is left of an operation: a stage, and within a scan the shards still to be locked or copied.\<close>

fun stage :: "('e, 'k, 'v, 'm) pc \<Rightarrow> nat" where
  "stage Idle = 0"
| "stage (Leave p out) = 1"
| "stage (Ticket p) = 10"
| "stage (Enter p) = 9"
| "stage (Gate b) = 4"
| "stage (LockRouting gated b) = 3"
| "stage (Resuming b) = 2"
| "stage (Locate c) = 8"
| "stage (Lookup c i) = 7"
| "stage (Init c i) = 6"
| "stage (LockActive c i) = 5"
| "stage (Fallback c i) = 4"
| "stage (LockPrevious c i j) = 3"
| "stage (Mutate c i) = 2"
| "stage (Missing k) = 3"
| "stage (MissingPrevious k j) = 2"
| "stage (TxnLookup xs active todo) = 6"
| "stage (TxnInit xs active i todo) = 6"
| "stage (TxnPrevious xs active) = 5"
| "stage (TxnLock xs active held todo) = 4"
| "stage (TxnRun xs active held) = 2"
| "stage ScanRouting = 6"
| "stage ScanDirectory = 5"
| "stage ScanPrevious = 4"
| "stage (ScanLock held todo) = 3"
| "stage (Copy held acc) = 2"
| "stage (Exclusive gated b) = 2"

fun shards_left :: "('e, 'k, 'v, 'm) pc \<Rightarrow> nat" where
  "shards_left (TxnLookup xs active todo) = 2 * length todo"
| "shards_left (TxnInit xs active i todo) = 2 * length todo + 1"
| "shards_left (TxnLock xs active held todo) = length todo"
| "shards_left (ScanLock held todo) = length todo"
| "shards_left (Copy held acc) = length held - length acc"
| "shards_left _ = 0"

definition work_left :: "('e, 'k, 'v, 'm, 'b) thread_sys \<Rightarrow> nat \<times> nat" where
  "work_left s = (sum_list (map stage (th_pcs s)), sum_list (map shards_left (th_pcs s)))"

text \<open>
  Whatever thread is scheduled next, as long as no new operation starts: nobody can run forever, and unless
  all threads are idle one of them can go on, even under locks that prefer writers.
\<close>

inductive settles ::
  "('k, 'v, 'm, 'b) deps \<Rightarrow> ('e, 'k, 'v, 'm, 'b) thread_code \<Rightarrow> ('e, 'k, 'v, 'm, 'b) thread_sys \<Rightarrow> bool" for D C where
  settle: "\<lbrakk>\<And>t s'. \<lbrakk>t < length (th_pcs s); th_pcs s ! t \<noteq> Idle; granted holds wants (th_pcs s) t; thread_step D C (Go t) s = Some s'\<rbrakk> \<Longrightarrow> settles D C s';
      \<exists>t < length (th_pcs s). th_pcs s ! t \<noteq> Idle \<Longrightarrow>
        \<exists>t < length (th_pcs s). th_pcs s ! t \<noteq> Idle \<and> let_in holds wants (th_pcs s) t\<rbrakk> \<Longrightarrow> settles D C s"

inductive_cases settlesE: "settles D C s"

lemma sum_list_step: "t < length ps \<Longrightarrow> sum_list (map f (ps[t := p'])) + f (ps ! t) = sum_list (map f ps) + (f p' :: nat)"
  using sum_list_update_nat[of t "map f ps" "f p'"] by (simp add: map_update)

section \<open>Code that linearizes\<close>

text \<open>What the parts in which the two maps differ must guarantee.\<close>

locale linear_code =
  fixes D :: "('k, 'v, 'm, 'b) deps" and C :: "('e, 'k, 'v, 'm, 'b) thread_code"
  assumes deps: "starshard_deps D"
    and start: "tc_start C work = Some q \<Longrightarrow> holds q = [] \<and> op_of q = Some work \<and> pc_phase q = Called work \<and> (\<forall>m. pc_ok D m q)"
    and ticket: "plain_map D m \<Longrightarrow> plain_map D (tc_ticket C m) \<and> same_slots D m (tc_ticket C m)"
    and locate: "plain_map D m \<Longrightarrow> \<exists>r. tc_locate C c m = Some r \<and> step_ok D (Locate c) m r \<and> stage (fst r) < stage (Locate c :: ('e, 'k, 'v, 'm) pc)"
    and previous: "plain_map D m \<Longrightarrow> tc_previous C m k = previous_shard D m k"
    and txn: "plain_map D m \<Longrightarrow> txn_ready D m xs \<Longrightarrow>
      \<exists>m'. tc_txn C xs (txn_active D m xs) m = Some (Committed (), m') \<and> plain_map D m' \<and>
        view D m' = fold txn_apply xs (view D m) \<and> framed D (set (txn_locks D m xs)) m m'"
    and alone: "plain_map D m \<Longrightarrow> \<exists>out m'. tc_alone C b m = Some (out, m') \<and> plain_map D m' \<and>
      fits (Alone b :: ('e, 'k, 'v) operation) out (view D m) \<and> view D m' = after (Alone b :: ('e, 'k, 'v) operation) (view D m)"
    and resume: "plain_map D m \<Longrightarrow> plain_map D (tc_resume C m) \<and> same_slots D m (tc_resume C m)"
    and drop: "plain_map D m \<Longrightarrow> tc_drop C p n m = Some (lost, m') \<Longrightarrow>
      plain_map D m' \<and> p \<noteq> Idle \<and> (\<forall>q out. p \<noteq> Leave q out) \<and> ends (the (op_of p)) (Cancelled lost) (view D m) \<and>
      view D m' = leaves (the (op_of p), Cancelled lost) (view D m) \<and> ((Routing, Write_Lock) \<in> set (holds p) \<or> same_slots D m m')"
begin

lemma perform_ok:
  assumes m: "plain_map D m" and ok: "pc_ok D m p" and busy: "p \<noteq> Idle" "\<And>q out. p \<noteq> Leave q out"
  shows "\<exists>r. perform D C p m = Some r \<and> step_ok D p m r"
proof (cases p)
  case (Ticket q)
  then show ?thesis using ticket[OF m] by (cases q) (simp_all add: step_ok_def effect_def same_slots_def framed_same gate_use_def)
next
  case (Enter q)
  then show ?thesis using m starshard_deps.txn_begin_ok[OF deps m]
    by (cases q) (auto simp: effect_def gate_use_def intro!: quiet_step)
next
  case (Exclusive gated b)
  then show ?thesis using alone[OF m, of b] by (auto simp: step_ok_def effect_def writes_def)
next
  case (TxnLookup xs active todo)
  show ?thesis
  proof (cases todo)
    case Nil
    then show ?thesis using TxnLookup m ok by (auto simp: effect_def txn_uses_def txn_ready_def intro!: quiet_step)
  next
    case (Cons i todo)
    then show ?thesis using TxnLookup starshard_deps.txn_lookup_ok[OF deps m, of xs active i todo] ok by simp
  qed
next
  case (TxnInit xs active i todo)
  then show ?thesis using starshard_deps.txn_init_ok[OF deps m, of xs active i todo] ok by simp
next
  case (TxnPrevious xs active)
  then show ?thesis using starshard_deps.txn_previous_ok[OF deps m, of xs active] ok by simp
next
  case (TxnLock xs active held todo)
  then show ?thesis using ok m by (cases todo) (auto simp: effect_def txn_uses_def intro!: quiet_step)
next
  case (TxnRun xs active held)
  have "writes holds wants p = set (txn_locks D m xs)" using ok TxnRun by (auto simp: writes_def txn_uses_def)
  then show ?thesis using TxnRun ok txn[OF m, of xs] by (auto simp: step_ok_def effect_def txn_uses_def)
next
  case (Resuming b)
  then show ?thesis using resume[OF m] by (simp add: step_ok_def effect_def same_slots_def framed_same)
next
  case (Locate c)
  then show ?thesis using locate[OF m, of c] by auto
next
  case (Fallback c i)
  then show ?thesis using starshard_deps.find_previous_ok[OF deps m, of c i] ok previous[OF m] by simp
next
  case (Missing k)
  then show ?thesis using starshard_deps.find_missing_ok[OF deps m, of k] ok previous[OF m] by simp
next
  case (MissingPrevious k j)
  then show ?thesis using starshard_deps.read_previous_ok[OF deps m, of k j p] ok missing_slot[OF plain_dirs[OF m], of k] by simp
next
  case (ScanLock held todo)
  then show ?thesis using ok m by (cases todo) (auto simp: effect_def scan_uses_def intro!: quiet_step)
next
  case (Lookup c i)
  then show ?thesis using starshard_deps.lookup_ok[OF deps m, of c i] ok by simp
next
  case (Init c i)
  then show ?thesis using starshard_deps.init_ok[OF deps m, of c i] ok by simp
next
  case (LockActive c i)
  then show ?thesis using starshard_deps.lock_active_ok[OF deps m, of c i] ok by simp
next
  case (LockPrevious c i j)
  then show ?thesis using starshard_deps.lock_previous_ok[OF deps m, of c i j] ok by simp
next
  case (Mutate c i)
  then show ?thesis using starshard_deps.mutate_ok[OF deps m, of c i] ok by simp
next
  case (Copy held acc)
  then show ?thesis using starshard_deps.copy_ok[OF deps m, of held acc] ok by auto
qed (use m busy in \<open>auto simp: effect_def scan_uses_def gate_use_def intro!: quiet_step\<close>)

lemma perform_decreases:
  assumes "perform D C p m = Some (p', m')" "p \<noteq> Idle" "plain_map D m"
  shows "stage p' < stage p \<or> stage p' = stage p \<and> shards_left p' < shards_left p"
proof (cases "\<exists>c. p = Locate c")
  case True
  then obtain c where "p = Locate c" by blast
  then show ?thesis using assms(1) locate[OF assms(3), of c] by auto
next
  case False
  then show ?thesis
    using assms(1,2)
    by (cases p rule: wants.cases)
      (auto simp: lookup_shard_def init_shard_def lock_active_def find_previous_def lock_previous_def read_previous_def
        promote_locked_def mutate_def find_missing_def copy_next_def read_done_def txn_begin_def txn_lookup_def txn_init_def
        txn_previous_def Let_def
        split: bind_splits option.splits operation.splits request.splits call.splits if_splits prod.splits)
qed

lemma start_ok:
  assumes ok: "threads_ok D A s"
  shows "\<exists>s'. thread_step D C (Start t p) s = Some s' \<and> threads_ok D A s' \<and> length (th_pcs s') = length (th_pcs s)"
proof (cases "\<exists>q. tc_start C p = Some q \<and> t < length (th_pcs s) \<and> th_pcs s ! t = Idle")
  case True
  then obtain q where q: "tc_start C p = Some q" "t < length (th_pcs s)" "th_pcs s ! t = Idle" by blast
  let ?s = "s\<lparr>th_pcs := (th_pcs s)[t := q], th_trace := th_trace s @ [Invoked t p]\<rparr>"
  have "compatible holds ((th_pcs s)[t := q])"
    using compatible_step[OF threads_okD(2)[OF ok] q(2), of wants q] start[OF q(1)] q(3) by (simp add: granted_def)
  moreover have "\<forall>u < length (th_pcs s). life_of u (th_trace s @ [Invoked t p]) = Some (pc_phase ((th_pcs s)[t := q] ! u))"
    using q start[OF q(1)] by (intro lives_step[OF ok]) simp_all
  ultimately have "threads_ok D A ?s"
    using threads_okD[OF ok] q start[OF q(1)] by (auto simp: threads_ok_def nth_list_update)
  then show ?thesis using q by simp
qed (use ok in \<open>auto split: option.splits\<close>)

lemma cut_ok:
  assumes ok: "threads_ok D A s"
  shows "\<exists>s'. thread_step D C (Cut t n) s = Some s' \<and> threads_ok D A s' \<and> length (th_pcs s') = length (th_pcs s)"
proof (cases "\<exists>lost m'. tc_drop C (th_pcs s ! t) n (th_map s) = Some (lost, m') \<and> t < length (th_pcs s)")
  case True
  let ?p = "th_pcs s ! t"
  obtain lost m' where m': "tc_drop C ?p n (th_map s) = Some (lost, m')" and t: "t < length (th_pcs s)" using True by blast
  let ?e = "Dropped t (the (op_of ?p)) lost"
  note d = drop[OF threads_okD(1)[OF ok] m']
  have comp: "compatible holds ((th_pcs s)[t := Idle])"
    unfolding compatible_def using threads_okD(2)[OF ok] t by (auto simp: nth_list_update compatible_def)
  have lives: "\<forall>u < length (th_pcs s). life_of u (th_trace s @ [?e]) = Some (pc_phase ((th_pcs s)[t := Idle] ! u))"
    using d by (intro lives_step[OF ok t]) (cases ?p; simp)+
  have others: "pc_ok D m' (th_pcs s ! u)" if u: "u < length (th_pcs s)" "u \<noteq> t" for u
  proof (cases "(Routing, Write_Lock) \<in> set (holds ?p)")
    case True
    then have "(Routing, Read_Lock) \<notin> set (holds (th_pcs s ! u))" using threads_okD(2)[OF ok] t u by (fastforce simp: compatible_def)
    then show ?thesis using pc_ok_outside threads_okD(3)[OF ok u(1)] by blast
  next
    case False
    then show ?thesis
      using pc_ok_same[OF threads_okD(3)[OF ok u(1)]] d wf_dirsD(1)[OF plain_dirs[OF threads_okD(1)[OF ok]]] by blast
  qed
  have "threads_ok D A (s\<lparr>th_map := m', th_pcs := (th_pcs s)[t := Idle], th_trace := th_trace s @ [?e]\<rparr>)"
    using threads_okD(5,6)[OF ok] comp lives others d t explained_snoc[of "effects (th_trace s)" "the (op_of ?p)" "Cancelled lost" A]
    by (simp add: threads_ok_def nth_list_update)
  then show ?thesis using m' t by simp
qed (use ok in \<open>auto split: option.splits\<close>)

text \<open>Where no future can be dropped, the trace has no dropped operation.\<close>

lemma nothing_dropped:
  assumes "\<And>p n m. tc_drop C p n m = None" "thread_run D C es s = Some s'" "Dropped t p lost \<notin> set (th_trace s)"
  shows "Dropped t p lost \<notin> set (th_trace s')"
  using assms(2,3)
proof (induction es arbitrary: s)
  case (Cons e es)
  obtain s1 where s1: "thread_step D C e s = Some s1" "thread_run D C es s1 = Some s'" using Cons.prems(1) by (auto split: bind_splits)
  have "Dropped t p lost \<notin> set (th_trace s1)"
    using s1(1) Cons.prems(2) assms(1) by (cases e) (auto simp: trace_of_def split: bind_splits option.splits pc.splits if_splits)
  then show ?case using Cons.IH s1(2) by blast
qed simp

text \<open>The other threads, and the trace, after a step of thread \<open>t\<close> that does not leave an operation.\<close>

lemma others_ok:
  assumes ok: "threads_ok D A s" and t: "t < length (th_pcs s)" and g: "granted holds wants (th_pcs s) t"
    and st: "step_ok D (th_pcs s ! t) (th_map s) (p', m')" and u: "u < length (th_pcs s)" "u \<noteq> t"
  shows "pc_ok D m' (th_pcs s ! u)"
proof -
  let ?W = "writes holds wants (th_pcs s ! t)"
  note w = writes_exclusive[OF threads_okD(2)[OF ok] g t u]
  have p: "pc_ok D (th_map s) (th_pcs s ! u)" by (rule threads_okD(3)[OF ok u(1)])
  consider (routing) "Routing \<in> ?W" | (framed) "framed D ?W (th_map s) m'" using st by (auto simp: step_ok_def)
  then show ?thesis
  proof cases
    case routing
    then show ?thesis using pc_ok_outside[OF _ p] w by blast
  next
    case framed
    then show ?thesis using pc_ok_framed[OF p framed wf_dirsD(1)[OF plain_dirs[OF threads_okD(1)[OF ok]]]] w by blast
  qed
qed

lemma go_ok:
  assumes ok: "threads_ok D A s" and t: "t < length (th_pcs s)" "th_pcs s ! t \<noteq> Idle" and g: "granted holds wants (th_pcs s) t"
  shows "\<exists>p' m'. perform D C (th_pcs s ! t) (th_map s) = Some (p', m') \<and>
    threads_ok D A (s\<lparr>th_map := m', th_pcs := (th_pcs s)[t := p'], th_trace := th_trace s @ trace_of t (th_pcs s ! t) p'\<rparr>)"
proof (cases "\<exists>q out. th_pcs s ! t = Leave q out")
  case True
  then obtain q out where p: "th_pcs s ! t = Leave q out" by blast
  have "compatible holds ((th_pcs s)[t := Idle])" by (rule compatible_step[OF threads_okD(2)[OF ok] t(1) g]) simp
  moreover have "\<forall>u < length (th_pcs s). life_of u (th_trace s @ [Returned t q out]) = Some (pc_phase ((th_pcs s)[t := Idle] ! u))"
    using p by (intro lives_step[OF ok t(1)]) simp_all
  ultimately show ?thesis
    using p threads_okD[OF ok] t by (auto simp: threads_ok_def trace_of_def nth_list_update)
next
  case False
  let ?p = "th_pcs s ! t"
  obtain p' m' where r: "perform D C ?p (th_map s) = Some (p', m')" and st: "step_ok D ?p (th_map s) (p', m')"
    using perform_ok[OF threads_okD(1,3)[OF ok] t(2)] t(1) False by auto
  have pcs: "\<forall>u < length (th_pcs s). pc_ok D m' ((th_pcs s)[t := p'] ! u)"
    using others_ok[OF ok t(1) g st] st t(1) by (auto simp: nth_list_update step_ok_def)
  have comp: "compatible holds ((th_pcs s)[t := p'])" and m': "plain_map D m'"
    using compatible_step[OF threads_okD(2)[OF ok] t(1) g] st by (simp_all add: step_ok_def)
  have eff: "effect D ?p (th_map s) p' m'" using st by (simp add: step_ok_def)
  have called: "pc_phase ?p = Called (the (op_of ?p))" using t(2) False by (cases ?p) auto
  show ?thesis
  proof (cases "\<exists>q out. p' = Leave q out")
    case True
    then obtain q out where p': "p' = Leave q out" by blast
    have j: "op_of ?p = Some q" "fits q out (view D (th_map s))" "view D m' = after q (view D (th_map s))" using eff p' by (simp_all add: effect_def)
    have tr: "trace_of t ?p p' = [Took t q out]" using p' False by (cases ?p) (simp_all add: trace_of_def)
    have "\<forall>u < length (th_pcs s). life_of u (th_trace s @ [Took t q out]) = Some (pc_phase ((th_pcs s)[t := p'] ! u))"
      using p' j called by (intro lives_step[OF ok t(1)]) simp_all
    then show ?thesis
      using r m' comp pcs tr explained_snoc[of "effects (th_trace s)" q "Replied out" A] j(2,3) threads_okD(5,6)[OF ok]
      by (simp add: threads_ok_def)
  next
    case no: False
    have j: "op_of p' = op_of ?p" "view D m' = view D (th_map s)" "p' \<noteq> Idle" using eff no by (auto simp: effect_def split: pc.splits)
    have tr: "trace_of t ?p p' = []" using no False by (auto simp: trace_of_def split: pc.splits)
    have "pc_phase p' = Called (the (op_of p'))" using no j(3) by (cases p') auto
    then show ?thesis
      using r m' comp pcs tr j called lives_quiet[OF ok t(1), of p'] threads_okD(5,6)[OF ok] by (simp add: threads_ok_def)
  qed
qed

lemma thread_step_ok:
  assumes "threads_ok D A s"
  shows "\<exists>s'. thread_step D C e s = Some s' \<and> threads_ok D A s' \<and> length (th_pcs s') = length (th_pcs s)"
proof (cases e)
  case (Start t p)
  then show ?thesis using start_ok[OF assms] by simp
next
  case (Cut t n)
  then show ?thesis using cut_ok[OF assms] by simp
next
  case (Go t)
  show ?thesis
  proof (cases "t < length (th_pcs s) \<and> th_pcs s ! t \<noteq> Idle \<and> granted holds wants (th_pcs s) t")
    case True
    then show ?thesis using go_ok[OF assms, of t] Go by auto
  qed (use assms Go in auto)
qed

lemma thread_run_ok:
  "threads_ok D A s \<Longrightarrow> \<exists>s'. thread_run D C es s = Some s' \<and> threads_ok D A s' \<and> length (th_pcs s') = length (th_pcs s)"
proof (induction es arbitrary: s)
  case (Cons e es)
  obtain s1 where "thread_step D C e s = Some s1" "threads_ok D A s1" "length (th_pcs s1) = length (th_pcs s)"
    using thread_step_ok[OF Cons.prems] by blast
  then show ?case using Cons.IH[of s1] by simp
qed simp

lemma threads_settle: "threads_ok D A s \<Longrightarrow> settles D C s"
proof (induction s rule: wf_induct_rule[OF wf_inv_image[OF wf_lex_prod[OF wf_less_than wf_less_than], of work_left]])
  case (1 s)
  show ?case
  proof (rule settle)
    fix t s' assume t: "t < length (th_pcs s)" "th_pcs s ! t \<noteq> Idle" "granted holds wants (th_pcs s) t" and st: "thread_step D C (Go t) s = Some s'"
    obtain p' m' where p: "perform D C (th_pcs s ! t) (th_map s) = Some (p', m')" and s': "threads_ok D A s'"
      "th_pcs s' = (th_pcs s)[t := p']" using go_ok[OF 1(2) t] st t by auto
    have "(work_left s', work_left s) \<in> less_than <*lex*> less_than"
      using perform_decreases[OF p t(2) threads_okD(1)[OF 1(2)]] sum_list_step[OF t(1), of stage p'] sum_list_step[OF t(1), of shards_left p']
      by (auto simp: work_left_def s'(2))
    then show "settles D C s'" using 1(1)[of s'] s'(1) by (simp add: inv_image_def)
  qed (use someone_moves[OF 1(2)] in blast)
qed

lemma threads_exact:
  assumes "plain_map D m"
  shows "\<exists>s. thread_run D C es (threads_on n m) = Some s \<and>
    (\<forall>t < n. life_of t (th_trace s) = Some (pc_phase (th_pcs s ! t))) \<and>
    explained (effects (th_trace s)) (view D m) \<and>
    view D (th_map s) = fold leaves (effects (th_trace s)) (view D m) \<and>
    settles D C s"
proof -
  obtain s where s: "thread_run D C es (threads_on n m) = Some s" "threads_ok D (view D m) s" "length (th_pcs s) = n"
    using thread_run_ok[OF threads_ok_init[OF assms], of es n] by (auto simp: threads_on_def)
  then show ?thesis using threads_okD[OF s(2)] threads_settle[OF s(2)] by (auto simp:)
qed

end

end
