(* ===== verification/Sync_Concurrent.thy ===== *)
theory Sync_Concurrent
  imports Linearizability
begin

text \<open>
  The synchronous map under threads: its \<open>thread_code\<close> (\<open>core/sync_impl.rs\<close>, \<open>core/sync_impl/rebalance_impl.rs\<close>), and
  that it is linearizable and free of deadlocks.
\<close>

section \<open>The code of a thread\<close>

text \<open>
  Which resharding operations are single steps: those that do all their work under the exclusive routing
  lock. The cooperative \<open>rebalance_to\<close> is a loop of batches, each of them an \<open>Advance\<close>; a worker's batches are
  \<open>Advance\<close> too, once \<open>spawn_rebalance\<close> has claimed its lease. \<open>resume_rebalance\<close> only takes the tracker's own lock.
\<close>

fun sync_start :: "(background, 'k, 'v) operation \<Rightarrow> (background, 'k, 'v, 'm) pc option" where
  "sync_start (Alone (Reshard Resume)) = Some (Resuming Resume)"
| "sync_start (Alone (Reshard (RebalanceTo clks n opts))) =
     (if opt_background opts then None else Some (LockRouting False (Reshard (RebalanceTo clks n opts))))"
| "sync_start (Alone (Reshard (SpawnWorker spawned n))) =
     (if spawned then Some (LockRouting False (Reshard (SpawnWorker spawned n))) else None)"
| "sync_start (Alone b) = Some (LockRouting False b)"
| "sync_start p = Some (Enter p)"

text \<open>The first look into the active directory.\<close>

definition sync_locate :: "('k, 'v, 'm, 'b) deps \<Rightarrow> ('k, 'v) request \<Rightarrow> ('k, 'v, 'm, 'b) sharded_map \<Rightarrow> (background, 'k, 'v, 'm, 'b) pc_step" where
  "sync_locate D c m = do {
     i \<leftarrow> shard_index D m (request_key c);
     slot \<leftarrow> index_checked (shards m) i;
     Some (case slot of
             Some _ \<Rightarrow> LockActive c i
           | None \<Rightarrow>
               (case c of
                  Call (Get k) \<Rightarrow> Missing k
                | Call (Delete k) \<Rightarrow> if previous_shard_count m = 0 then Leave (Keyed c) (Value None) else Lookup c i
                | _ \<Rightarrow> Init c i), m)
   }"

text \<open>The operations of a transaction, under all its locks.\<close>

definition sync_txn ::
  "('k, 'v, 'm, 'b) deps \<Rightarrow> ('k, 'v) txn_op list \<Rightarrow> nat list \<Rightarrow> ('k, 'v, 'm, 'b) sharded_map \<Rightarrow>
   (unit transaction_result \<times> ('k, 'v, 'm, 'b) sharded_map) option" where
  "sync_txn D xs active m = map_option (Pair (Committed ())) (fold_option (txn_step D) xs m)"

text \<open>What runs under the exclusive routing lock.\<close>

fun sync_alone ::
  "('k, 'v, 'm, 'b) deps \<Rightarrow> (background, 'k, 'v) alone \<Rightarrow> ('k, 'v, 'm, 'b) sharded_map \<Rightarrow> (('k, 'v) reply \<times> ('k, 'v, 'm, 'b) sharded_map) option" where
  "sync_alone D (Reshard b) m = map_option (Pair Done) (background_op D b m)"
| "sync_alone D (Retain p) m = Some (Done, snd (for_all_shards (retain_shard D p) [] m))"
| "sync_alone D Clear m = Some (Done, snd (drain_all D m))"
| "sync_alone D Drain m = (let (items, m') = drain_all D m in Some (Listed items, m'))"

definition sync_code :: "('k, 'v, 'm, 'b) deps \<Rightarrow> (background, 'k, 'v, 'm, 'b) thread_code" where
  "sync_code D =
     \<lparr>tc_start = sync_start, tc_ticket = id, tc_locate = sync_locate D, tc_previous = previous_shard D,
      tc_txn = sync_txn D, tc_alone = sync_alone D, tc_resume = (\<lambda>m. snd (resume_rebalance m)), tc_drop = (\<lambda>_ _ _. None)\<rparr>"

section \<open>Its laws\<close>

lemma plain_same_content: "plain_map D m \<Longrightarrow> wf_map D m' \<Longrightarrow> same_content D m m' \<Longrightarrow> plain_map D m' \<and> view D m' = view D m"
  by (simp add: plain_map_def same_content_def)

lemma resume_same_slots:
  assumes "plain_map D m"
  shows "plain_map D (snd (resume_rebalance m)) \<and> same_slots D m (snd (resume_rebalance m))"
proof -
  have "shards (snd (resume_rebalance m)) = shards m" "prev_slots (snd (resume_rebalance m)) = prev_slots m"
    by (simp_all add: resume_rebalance_def prev_slots_def split_beta Let_def)
  then show ?thesis
    using plain_same_content[OF assms resume_rebalance_ok(1,2)] assms by (simp add: same_slots_def plain_map_def)
qed

lemma sync_start_outside:
  assumes "sync_start p = Some (q :: (background, 'k, 'v, 'm) pc)"
  shows "holds q = [] \<and> op_of q = Some p \<and> pc_phase q = Called p \<and> (\<forall>m. pc_ok D m q)"
  using assms by (cases p rule: sync_start.cases) (auto simp: gate_use_def split: if_splits)

context starshard_deps
begin

lemma sync_locate_ok:
  assumes m: "plain_map D m"
  shows "\<exists>r. sync_locate D c m = Some r \<and> step_ok D (Locate c) m r \<and> stage (fst r) < stage (Locate c :: (background, 'k, 'v, 'm) pc)"
proof -
  let ?k = "request_key c" and ?i = "route D (length (shards m)) (request_key c)"
  note wd = plain_dirs[OF m]
  have i: "?i < length (shards m)" using route_less[OF wf_dirsD(1)[OF wd]] .
  let ?p = "(case shards m ! ?i of Some _ \<Rightarrow> LockActive c ?i | None \<Rightarrow>
      (case c of Call (Get k) \<Rightarrow> Missing k
       | Call (Delete k) \<Rightarrow> if previous_shard_count m = 0 then Leave (Keyed c) (Value None) else Lookup c ?i
       | _ \<Rightarrow> Init c ?i)) :: (background, 'k, 'v, 'm) pc"
  have eq: "sync_locate D c m = Some (?p, m)" using i by (simp add: sync_locate_def shard_index_wf[OF wd])
  have none: "view D m ?k = None" if "shards m ! ?i = None" "previous_shard_count m = 0"
    using missing_slot[OF wd that(1)] that(2) wf_dirsD(4)[OF wd] by (simp add: view_missing)
  have "step_ok D (Locate c) m (?p, m)"
    using none by (intro quiet_step[OF m]) (auto simp: at_active_def effect_def fun_upd_idem split: option.splits request.splits call.splits)
  moreover have "stage ?p < stage (Locate c :: (background, 'k, 'v, 'm) pc)" by (auto split: option.splits request.splits call.splits)
  ultimately show ?thesis using eq by (metis fst_conv)
qed

lemma sync_alone_ok:
  assumes m: "plain_map D m"
  shows "\<exists>out m'. sync_alone D b m = Some (out, m') \<and> plain_map D m' \<and>
    fits (Alone b :: (background, 'k, 'v) operation) out (view D m) \<and> view D m' = after (Alone b :: (background, 'k, 'v) operation) (view D m)"
proof -
  have wf: "wf_map D m" using m by (simp add: plain_map_def)
  obtain items m1 where d: "drain_all D m = (items, m1)" "map_of items = view D m" "distinct (map fst items)"
    "op_post D m Map.empty m1" using drain_all_spec[OF wf] by blast
  note e = op_post_plain[OF d(4) m]
  show ?thesis
  proof (cases b)
    case (Reshard e)
    then show ?thesis using background_unseen[OF wf, of e] plain_same_content[OF m] by auto
  next
    case (Retain p)
    obtain out m1 where "for_all_shards (retain_shard D p) [] m = (out, m1)" "op_post D m (view D m1) m1"
      "view D m1 = kept p (view D m)" using retain_all_spec[OF wf, of p] by (auto simp: kept_def)
    then show ?thesis using op_post_plain[OF _ m] Retain by auto
  qed (use d e in \<open>simp_all add: lists_map_def\<close>)
qed

end

sublocale starshard_deps \<subseteq> sync_threads: linear_code D "sync_code D"
proof
  fix m assume m: "plain_map D m"
  show "\<exists>m'. tc_txn (sync_code D) xs (txn_active D m xs) m = Some (Committed (), m') \<and> plain_map D m' \<and>
      view D m' = fold txn_apply xs (view D m) \<and> framed D (set (txn_locks D m xs)) m m'" if "txn_ready D m xs" for xs
    using txn_fold_framed[OF m order_refl that] by (auto simp: sync_code_def sync_txn_def)
  show "\<exists>out m'. tc_alone (sync_code D) b m = Some (out, m') \<and> plain_map D m' \<and>
      fits (Alone b :: (background, 'k, 'v) operation) out (view D m) \<and> view D m' = after (Alone b :: (background, 'k, 'v) operation) (view D m)" for b
    using sync_alone_ok[OF m, of b] by (simp add: sync_code_def)
  show "\<exists>r. tc_locate (sync_code D) c m = Some r \<and> step_ok D (Locate c) m r \<and> stage (fst r) < stage (Locate c :: (background, 'k, 'v, 'm) pc)" for c
    using sync_locate_ok[OF m, of c] by (simp add: sync_code_def)
  show "plain_map D (tc_resume (sync_code D) m) \<and> same_slots D m (tc_resume (sync_code D) m)"
    using resume_same_slots[OF m] by (simp add: sync_code_def)
qed (use starshard_deps_axioms sync_start_outside in \<open>simp_all add: sync_code_def same_slots_def\<close>)

section \<open>Linearizability\<close>

context starshard_deps
begin

lemmas sync_threads_exact = sync_threads.threads_exact

lemma sync_none_dropped:
  "thread_run D (sync_code D) es s = Some s' \<Longrightarrow> Dropped t p lost \<notin> set (th_trace s) \<Longrightarrow> Dropped t p lost \<notin> set (th_trace s')"
  by (rule sync_threads.nothing_dropped) (simp_all add: sync_code_def)

end

text \<open>
  C1: Threads interleave at every lock acquisition of \<open>insert\<close>, \<open>get\<close>, \<open>remove\<close>, \<open>compare_and_swap\<close>, \<open>compare_and_remove\<close>,
  \<open>get_or_insert_with\<close>, \<open>compute_if_present\<close>, \<open>execute_transaction\<close> and \<open>snapshot_view\<close>, while others run \<open>retain\<close>, \<open>clear\<close> or
  \<open>drain\<close> or reshard the map. No schedule panics. In every schedule each operation takes effect exactly once, between its call and
  its return and with the answer it returns, none is dropped; taken in that order the answers are those of a finite map, whose
  content is the content of the map. The map has no eviction policy. And no schedule gets stuck: if no operation is started any more, all
  operations in progress return, whatever thread is run next, even if the locks prefer writers.
\<close>

theorem threads_linearizable:
  assumes "starshard_deps D" "plain_map D m"
  shows "\<exists>s. thread_run D (sync_code D) es (threads_on n m) = Some s \<and>
    (\<forall>t < n. life_of t (th_trace s) = Some (pc_phase (th_pcs s ! t))) \<and>
    explained (effects (th_trace s)) (view D m) \<and>
    (\<forall>t p lost. Dropped t p lost \<notin> set (th_trace s)) \<and>
    view D (th_map s) = fold leaves (effects (th_trace s)) (view D m) \<and>
    settles D (sync_code D) s"
proof -
  obtain s where s: "thread_run D (sync_code D) es (threads_on n m) = Some s"
    "\<forall>t < n. life_of t (th_trace s) = Some (pc_phase (th_pcs s ! t))" "explained (effects (th_trace s)) (view D m)"
    "view D (th_map s) = fold leaves (effects (th_trace s)) (view D m)" "settles D (sync_code D) s"
    using starshard_deps.sync_threads_exact[OF assms, of es n] by blast
  then show ?thesis using starshard_deps.sync_none_dropped[OF assms(1) s(1)] by (simp add: threads_on_def)
qed

theorem threads_linearizable_witness:
  "\<exists>s. thread_run nat_deps (sync_code nat_deps)
      [Start 0 (Keyed (Call (Insert 1 (7 :: nat)))), Go 0, Start 1 (Keyed (Swap 1 7 8)), Go 1, Start 2 Scan, Go 0, Go 2, Go 0, Go 1, Go 0, Go 2,
       Start 3 (Alone (Reshard (StartOnline 3))), Go 3, Start 4 (Txn [Write 1 5, Remove 2]), Go 4, Go 4, Go 0, Go 0, Go 4, Go 4, Go 4, Go 1]
      (threads_on 5 (fresh_map CloneMode)) = Some s \<and>
    (\<forall>t < 5. life_of t (th_trace s) = Some (pc_phase (th_pcs s ! t))) \<and>
    explained (effects (th_trace s)) (view nat_deps (fresh_map CloneMode)) \<and>
    (\<forall>t p lost. Dropped t p lost \<notin> set (th_trace s)) \<and>
    view nat_deps (th_map s) = fold leaves (effects (th_trace s)) (view nat_deps (fresh_map CloneMode)) \<and>
    settles nat_deps (sync_code nat_deps) s"
  by (rule threads_linearizable[OF nat_deps_laws]) (simp add: plain_map_def)

end
