(* ===== verification/Async_Eviction.thy ===== *)
theory Async_Eviction
  imports Sync_Correct
begin

text \<open>
  Policy maintenance of the asynchronous map, \<open>core/async_impl/eviction_impl.rs\<close>. The asynchronous map has
  the fields of the synchronous one, so it is a value of the same record \<open>sharded_map\<close>; what differs is the
  code. Maintenance first plans, with awaits but without changes, and then executes its plan without an
  await. A completed pass only removes entries, counts exactly what it removed and keeps the invariant.
\<close>

section \<open>Locked shards\<close>

text \<open>A location is a generation (\<open>True\<close>: the previous one) and an index in its directory.\<close>

definition slot_at :: "('k, 'v, 'm, 'b) sharded_map \<Rightarrow> bool \<times> nat \<Rightarrow> 'm shard_data option" where
  "slot_at m loc =
     (case loc of
        (False, i) \<Rightarrow> if i < length (shards m) then shards m ! i else None
      | (True, j) \<Rightarrow>
          (case previous_shards m of None \<Rightarrow> None | Some ps \<Rightarrow> if j < length ps then ps ! j else None))"

definition put_at ::
  "bool \<times> nat \<Rightarrow> 'm shard_data \<Rightarrow> ('k, 'v, 'm, 'b) sharded_map \<Rightarrow> ('k, 'v, 'm, 'b) sharded_map" where
  "put_at loc sd m = (case loc of (False, i) \<Rightarrow> unlock i sd m | (True, j) \<Rightarrow> set_previous_slot j (Some sd) m)"

text \<open>
  The removal of a planned victim: \<open>remove_entry\<close> under its own \<open>ShardMutation\<close>, then the eviction is
  recorded, or the metadata is declared dirty if the entry was not there.
\<close>

definition async_remove_victim ::
  "('k, 'v, 'm, 'b) deps \<Rightarrow> 'k eviction_candidate \<Rightarrow> bool \<times> nat \<Rightarrow> 'm shard_data \<Rightarrow> ('k \<times> 'v) list \<Rightarrow>
   ('k, 'v, 'm, 'b) sharded_map \<Rightarrow> ('k \<times> 'v) list \<times> ('k, 'v, 'm, 'b) sharded_map" where
  "async_remove_victim D c loc sd evicted m =
     (let (removed, mu) = mutation_remove (shard_ops D) (shard_mutation_new (shard_ops D) (as_map sd)) (cand_key c);
          (mp, n, ep) = mutation_drop (shard_ops D) mu (total_len m) (write_epoch m);
          m1 = put_at loc (deref_mut_set sd mp) (m\<lparr>total_len := n, write_epoch := ep\<rparr>)
      in case removed of
           Some v \<Rightarrow> (evicted @ [(cand_key c, v)], m1\<lparr>lifecycle := record_eviction D c (lifecycle m1)\<rparr>)
         | None \<Rightarrow> (evicted, m1\<lparr>lifecycle := mark_dirty (lifecycle m1)\<rparr>))"

section \<open>The per-shard pass\<close>

definition overfull :: "('k, 'v, 'm, 'b) deps \<Rightarrow> nat \<Rightarrow> ('k, 'v, 'm, 'b) sharded_map \<Rightarrow> nat list" where
  "overfull D limit m =
     filter (\<lambda>i. case shards m ! i of None \<Rightarrow> False | Some sd \<Rightarrow> hb_len (shard_ops D) (as_map sd) > limit)
       [0..<length (shards m)]"

definition shard_plans ::
  "('k, 'v, 'm, 'b) deps \<Rightarrow> capacity_policy \<Rightarrow> nat list \<Rightarrow> ('k, 'v, 'm, 'b) sharded_map \<Rightarrow>
   ('k eviction_candidate \<times> nat) list" where
  "shard_plans D pol chosen m =
     concat (map (\<lambda>i. case shards m ! i of
         None \<Rightarrow> []
       | Some sd \<Rightarrow> map (\<lambda>c. (c, i)) (candidates_for_keys D (lifecycle m) pol (map fst (hb_iter (shard_ops D) (as_map sd)))))
       chosen)"

fun run_shard_plans ::
  "('k, 'v, 'm, 'b) deps \<Rightarrow> nat \<Rightarrow> ('k eviction_candidate \<times> nat) list \<Rightarrow> ('k \<times> 'v) list \<Rightarrow>
   ('k, 'v, 'm, 'b) sharded_map \<Rightarrow> (('k \<times> 'v) list \<times> ('k, 'v, 'm, 'b) sharded_map) option" where
  "run_shard_plans D limit [] evicted m = Some (evicted, m)"
| "run_shard_plans D limit ((c, i) # ps) evicted m =
     (case slot_at m (False, i) of
        None \<Rightarrow> None
      | Some sd \<Rightarrow>
          if hb_len (shard_ops D) (as_map sd) \<le> limit \<or> \<not> validate D (lifecycle m) c
          then run_shard_plans D limit ps evicted m
          else let (evicted', m') = async_remove_victim D c (False, i) sd evicted m
               in run_shard_plans D limit ps evicted' m')"

text \<open>\<open>None\<close> as the first component: the pass declined and the global path has to run.\<close>

definition maintain_per_shard ::
  "('k, 'v, 'm, 'b) deps \<Rightarrow> ('k, 'v, 'm, 'b) sharded_map \<Rightarrow> (nat option \<times> ('k, 'v, 'm, 'b) sharded_map) option" where
  "maintain_per_shard D m =
     (case Option.bind (config (lifecycle m)) max_items_per_shard of
        None \<Rightarrow> Some (None, m)
      | Some limit \<Rightarrow>
          if previous_shard_count m \<noteq> 0 \<or> dirty (lifecycle m)
          then Some (None, m\<lparr>lifecycle := dispatch_callbacks D [] (lifecycle m)\<rparr>)
          else do {
            let m1 = m\<lparr>lifecycle := mutation (lifecycle m)\<rparr>;
            let observed = maintenance_generation (lifecycle m1);
            pol \<leftarrow> policy (lifecycle m1);
            let chosen = overfull D limit m1;
            if dirty (lifecycle m1)
            then Some (None, m1\<lparr>lifecycle := dispatch_callbacks D [] (ticket_drop False (lifecycle m1))\<rparr>)
            else do {
              (evicted, m2) \<leftarrow> run_shard_plans D limit (shard_plans D pol chosen m1) [] m1;
              let fits = list_all (\<lambda>i. case shards m2 ! i of None \<Rightarrow> True
                    | Some sd \<Rightarrow> hb_len (shard_ops D) (as_map sd) \<le> limit) chosen;
              let l = (if fits then mark_maintained observed (lifecycle m2) else lifecycle m2);
              Some (Some (length evicted),
                m2\<lparr>lifecycle := dispatch_callbacks D evicted (record_eviction_duration (elapsed D) l)\<rparr>)
            }
          })"

section \<open>The global pass\<close>

text \<open>Routing of the candidates: the logical load of every shard and the total weight.\<close>

fun route_candidates ::
  "('k, 'v, 'm, 'b) deps \<Rightarrow> ('k, 'v, 'm, 'b) sharded_map \<Rightarrow> 'k eviction_candidate list \<Rightarrow> nat list \<Rightarrow> nat \<Rightarrow>
   (nat list \<times> nat) option" where
  "route_candidates D m [] counts weighted = Some (counts, weighted)"
| "route_candidates D m (c # cs) counts weighted = do {
     index \<leftarrow> shard_index D m (cand_key c);
     n \<leftarrow> index_checked counts index;
     route_candidates D m cs (counts[index := n + 1]) (weighted + cand_weight c)
   }"

text \<open>Where a candidate is stored, the active generation first.\<close>

definition locate ::
  "('k, 'v, 'm, 'b) deps \<Rightarrow> ('k, 'v, 'm, 'b) sharded_map \<Rightarrow> 'k \<Rightarrow> nat \<Rightarrow> (bool \<times> nat) option option" where
  "locate D m key index = do {
     active \<leftarrow> index_checked (shards m) index;
     if (case active of None \<Rightarrow> False | Some sd \<Rightarrow> hb_get (shard_ops D) (as_map sd) key \<noteq> None)
     then Some (Some (False, index))
     else (case previous_shards m of
             None \<Rightarrow> Some None
           | Some ps \<Rightarrow>
               if length ps = 0 then None
               else let old_index = unat (hash_one D key) mod length ps in
                 Some (if (case ps ! old_index of None \<Rightarrow> False | Some sd \<Rightarrow> hb_get (shard_ops D) (as_map sd) key \<noteq> None)
                       then Some (True, old_index) else None))
   }"

text \<open>
  The planning loop. \<open>remaining\<close> is a \<open>usize\<close>; the weights are \<open>u128\<close> sums of \<open>usize\<close> values, which cannot
  overflow, and a count or weight is only given back after it was added for the same candidate.
\<close>

fun plan_victims ::
  "('k, 'v, 'm, 'b) deps \<Rightarrow> nat option \<Rightarrow> nat option \<Rightarrow> nat option \<Rightarrow> 'k eviction_candidate list \<Rightarrow> nat list \<Rightarrow> nat \<Rightarrow> usize \<Rightarrow>
   ('k eviction_candidate \<times> bool \<times> nat) list \<Rightarrow> ('k, 'v, 'm, 'b) sharded_map \<Rightarrow>
   (('k eviction_candidate \<times> bool \<times> nat) list \<times> ('k, 'v, 'm, 'b) sharded_map) option" where
  "plan_victims D entry_limit per_limit budget [] counts weighted remaining plans m = Some (plans, m)"
| "plan_victims D entry_limit per_limit budget (c # cs) counts weighted remaining plans m = do {
     index \<leftarrow> shard_index D m (cand_key c);
     n \<leftarrow> index_checked counts index;
     let over_entries = (case entry_limit of None \<Rightarrow> False | Some limit \<Rightarrow> unat remaining > limit);
     let over_one_shard = (case per_limit of None \<Rightarrow> False | Some limit \<Rightarrow> n > limit);
     let over_weight = (case budget of None \<Rightarrow> False | Some b \<Rightarrow> weighted > b);
     if \<not> (over_entries \<or> over_one_shard \<or> over_weight) \<or> \<not> validate D (lifecycle m) c
     then plan_victims D entry_limit per_limit budget cs counts weighted remaining plans m
     else do {
       location \<leftarrow> locate D m (cand_key c) index;
       case location of
         Some loc \<Rightarrow>
           plan_victims D entry_limit per_limit budget cs (counts[index := n - 1]) (weighted - cand_weight c)
             (remaining - 1) (plans @ [(c, loc)]) m
       | None \<Rightarrow>
           plan_victims D entry_limit per_limit budget cs counts weighted remaining plans
             (m\<lparr>lifecycle := mark_dirty (lifecycle m)\<rparr>)
     }
   }"

fun run_plans ::
  "('k, 'v, 'm, 'b) deps \<Rightarrow> ('k eviction_candidate \<times> bool \<times> nat) list \<Rightarrow> ('k \<times> 'v) list \<Rightarrow>
   ('k, 'v, 'm, 'b) sharded_map \<Rightarrow> (('k \<times> 'v) list \<times> ('k, 'v, 'm, 'b) sharded_map) option" where
  "run_plans D [] evicted m = Some (evicted, m)"
| "run_plans D ((c, loc) # ps) evicted m =
     (if \<not> validate D (lifecycle m) c then run_plans D ps evicted m
      else case slot_at m loc of
             None \<Rightarrow> None
           | Some sd \<Rightarrow>
               let (evicted', m') = async_remove_victim D c loc sd evicted m in run_plans D ps evicted' m')"

definition maintain_global ::
  "('k, 'v, 'm, 'b) deps \<Rightarrow> eviction_config \<Rightarrow> nat option \<Rightarrow> capacity_policy option \<Rightarrow> ('k, 'v, 'm, 'b) sharded_map \<Rightarrow>
   (nat \<times> ('k, 'v, 'm, 'b) sharded_map) option" where
  "maintain_global D cfg entry_limit force_policy m = do {
     let m1 = m\<lparr>lifecycle := mutation (mark_pending (lifecycle m))\<rparr>;
     let observed = maintenance_generation (lifecycle m1);
     let repair = concat (map (\<lambda>sd. map (\<lambda>(k, v). (k, weight (lifecycle m1) k v)) (hb_iter (shard_ops D) (as_map sd)))
                            (all_shards m1));
     let m2 = (if dirty (lifecycle m1) then m1\<lparr>lifecycle := reconcile D repair (lifecycle m1)\<rparr> else m1);
     pol \<leftarrow> (if force_policy \<noteq> None then force_policy else policy (lifecycle m2));
     let current_len = total_len m2;
     let only_one = (max_items_per_shard cfg = None \<and> memory_budget (lifecycle m2) = None \<and>
           (case entry_limit of None \<Rightarrow> False | Some limit \<Rightarrow> limit \<le> unat current_len \<and> unat current_len - limit = 1));
     let cands = (if only_one then (case minimum_candidate D (lifecycle m2) pol of None \<Rightarrow> [] | Some c \<Rightarrow> [c])
                  else candidates D (lifecycle m2) pol);
     (counts, weighted) \<leftarrow> route_candidates D m2 cands (replicate (shard_count m2) 0) 0;
     (plans, m3) \<leftarrow> plan_victims D entry_limit (max_items_per_shard cfg) (memory_budget (lifecycle m2)) cands counts weighted
                      current_len [] m2;
     (evicted, m4) \<leftarrow> run_plans D plans [] m3;
     Some (length evicted,
       m4\<lparr>lifecycle := dispatch_callbacks D evicted
            (record_eviction_duration (elapsed D) (mark_maintained observed (lifecycle m4)))\<rparr>)
   }"

definition maintain_eviction ::
  "('k, 'v, 'm, 'b) deps \<Rightarrow> nat option \<Rightarrow> capacity_policy option \<Rightarrow> ('k, 'v, 'm, 'b) sharded_map \<Rightarrow>
   (nat \<times> ('k, 'v, 'm, 'b) sharded_map) option" where
  "maintain_eviction D target_count force_policy m =
     (case config (lifecycle m) of
        None \<Rightarrow> Some (0, m)
      | Some cfg \<Rightarrow> do {
          (per_shard, m1) \<leftarrow>
            (if target_count = None \<and> force_policy = None \<and> max_items_per_shard cfg \<noteq> None \<and>
                memory_budget (lifecycle m) = None
             then maintain_per_shard D m else Some (None, m));
          case per_shard of
            Some removed \<Rightarrow> Some (removed, m1\<lparr>lifecycle := dispatch_callbacks D [] (lifecycle m1)\<rparr>)
          | None \<Rightarrow>
              (let observed = maintenance_generation (lifecycle m1);
                   entry_limit = effective_target target_count (max_entries cfg)
               in if \<not> dirty (lifecycle m1) \<and> max_items_per_shard cfg = None \<and> \<not> over_target m1 entry_limit \<and>
                     \<not> over_memory_budget (lifecycle m1)
                  then Some (0, m1\<lparr>lifecycle := dispatch_callbacks D [] (mark_maintained observed (lifecycle m1))\<rparr>)
                  else maintain_global D cfg entry_limit force_policy m1)
        })"

definition async_evict :: "('k, 'v, 'm, 'b) deps \<Rightarrow> nat \<Rightarrow> ('k, 'v, 'm, 'b) sharded_map \<Rightarrow>
   (nat \<times> ('k, 'v, 'm, 'b) sharded_map) option" where
  "async_evict D target_count m = maintain_eviction D (Some target_count) None m"

definition async_evict_lru :: "('k, 'v, 'm, 'b) deps \<Rightarrow> nat \<Rightarrow> ('k, 'v, 'm, 'b) sharded_map \<Rightarrow>
   (nat \<times> ('k, 'v, 'm, 'b) sharded_map) option" where
  "async_evict_lru D target_count m = maintain_eviction D (Some target_count) (Some Lru) m"

definition async_enforce :: "('k, 'v, 'm, 'b) deps \<Rightarrow> ('k, 'v, 'm, 'b) sharded_map \<Rightarrow>
   (nat \<times> ('k, 'v, 'm, 'b) sharded_map) option" where
  "async_enforce D m = maintain_eviction D None None m"

section \<open>A pass only removes\<close>

lemma put_at_simps [simp]:
  "lifecycle (put_at loc sd m) = lifecycle m" "total_len (put_at loc sd m) = total_len m"
  "write_epoch (put_at loc sd m) = write_epoch m"
  "put_at loc sd (m\<lparr>total_len := n\<rparr>) = (put_at loc sd m)\<lparr>total_len := n\<rparr>"
  "put_at loc sd (m\<lparr>write_epoch := e\<rparr>) = (put_at loc sd m)\<lparr>write_epoch := e\<rparr>"
  by (auto simp: put_at_def unlock_def set_previous_slot_def split: prod.splits bool.splits)

lemma slot_at_frame [simp]:
  "slot_at (m\<lparr>total_len := n\<rparr>) loc = slot_at m loc" "slot_at (m\<lparr>write_epoch := e\<rparr>) loc = slot_at m loc"
  "slot_at (m\<lparr>lifecycle := l\<rparr>) loc = slot_at m loc"
  by (simp_all add: slot_at_def split: prod.splits bool.splits)

lemma update_Some: "i < length xs \<Longrightarrow> xs ! i = Some x \<Longrightarrow> \<exists>x'. xs[j := Some y] ! i = Some x'"
  by (cases "i = j") simp_all

lemma put_at_keeps: "slot_at m loc' \<noteq> None \<Longrightarrow> slot_at (put_at loc sd m) loc' \<noteq> None"
  by (auto simp: slot_at_def put_at_def unlock_def set_previous_slot_def update_Some
      split: prod.splits bool.splits option.splits if_splits)

lemma same_put_at: "same_meta m (put_at loc sd m)" "same_counters m (put_at loc sd m)"
  by (auto simp: put_at_def same_meta_unlock same_counters_unlock same_meta_set_previous same_counters_def split: prod.splits bool.splits)

context starshard_deps
begin

lemma put_at_shrinks:
  assumes wf: "wf_dirs D m" and sd: "slot_at m loc = Some sd"
    and sub: "hb_get (shard_ops D) g \<subseteq>\<^sub>m hb_get (shard_ops D) (as_map sd)"
  defines "m1 \<equiv> put_at loc (deref_mut_set sd g) m"
  shows "wf_dirs D m1"
    "view D m1 k = (if hb_get (shard_ops D) (as_map sd) k \<noteq> None then hb_get (shard_ops D) g k else view D m k)"
    "stored_len D m1 + hb_len (shard_ops D) (as_map sd) = stored_len D m + hb_len (shard_ops D) g"
    "hb_get (shard_ops D) (as_map sd) k = Some v \<Longrightarrow> view D m k = Some v"
proof -
  obtain old i where loc: "loc = (old, i)" by (cases loc)
  have "(old = False \<and> i < length (shards m) \<and> shards m ! i = Some sd) \<or>
      (old = True \<and> i < length (prev_slots m) \<and> prev_slots m ! i = Some sd)"
    using sd by (auto simp: loc slot_at_def prev_slots_def split: bool.splits if_splits option.splits)
  then show "wf_dirs D m1"
    "view D m1 k = (if hb_get (shard_ops D) (as_map sd) k \<noteq> None then hb_get (shard_ops D) g k else view D m k)"
    "stored_len D m1 + hb_len (shard_ops D) (as_map sd) = stored_len D m + hb_len (shard_ops D) g"
    "hb_get (shard_ops D) (as_map sd) k = Some v \<Longrightarrow> view D m k = Some v"
    using shrink_active[OF wf _ _ sub, of i] shrink_previous[OF wf _ _ sub, of i]
    by (auto simp: m1_def put_at_def loc)
qed

lemma async_remove_victim_spec:
  assumes wf: "wf_map D m" and sd: "slot_at m loc = Some sd"
  shows "\<exists>ev m'. async_remove_victim D c loc sd evicted m = (evicted @ ev, m') \<and> evicted_by D ev m m' \<and>
    (\<forall>loc'. slot_at m loc' \<noteq> None \<longrightarrow> slot_at m' loc' \<noteq> None)"
proof -
  let ?k = "cand_key c"
  obtain old mp where rm: "hb_remove (shard_ops D) (as_map sd) ?k = (old, mp)" by fastforce
  have old: "old = hb_get (shard_ops D) (as_map sd) ?k" using H.remove_old[of "as_map sd" ?k] rm by simp
  have get: "hb_get (shard_ops D) mp = (hb_get (shard_ops D) (as_map sd))(?k := None)"
    using H.get_remove[of "as_map sd" ?k] rm by simp
  have wd: "wf_dirs D m" using wf by (simp add: wf_map_def)
  let ?m1 = "put_at loc (deref_mut_set sd mp) m"
  note s = put_at_shrinks[OF wd sd remove_le, of ?k, unfolded rm snd_conv]
  have vw: "view D ?m1 = (view D m)(?k := None)" if "old = Some v" for v
    using s(2) put_at_shrinks(4)[OF wd sd remove_le] that old by (auto simp: fun_eq_iff get)
  show ?thesis
  proof (cases old)
    case (Some v)
    have g: "hb_get (shard_ops D) (as_map sd) ?k = Some v" using old Some by simp
    then have len: "hb_len (shard_ops D) (as_map sd) = Suc (hb_len (shard_ops D) mp)" using len_remove_Some[OF g] rm by simp
    have "evicted_by D [(?k, v)] m (commit_eviction D c ?m1)"
      by (rule commit_eviction_evicted[OF wf s(4)[OF g] same_put_at s(1) vw[OF Some]]) (use s(3) len in simp)
    moreover have "async_remove_victim D c loc sd evicted m = (evicted @ [(?k, v)], commit_eviction D c ?m1)"
      using rm Some len by (simp add: async_remove_victim_def mutation_remove_def shard_mutation_new_def mutation_drop_def
          commit_eviction_def record_write_def Let_def)
    ultimately show ?thesis using put_at_keeps[of m _ loc "deref_mut_set sd mp"]
      by (intro exI[of _ "[(?k, v)]"] exI[of _ "commit_eviction D c ?m1"]) (simp add: commit_eviction_def record_write_def Let_def)
  next
    case None
    have g: "hb_get (shard_ops D) (as_map sd) ?k = None" using old None by simp
    have len: "hb_len (shard_ops D) mp = hb_len (shard_ops D) (as_map sd)" using len_remove_None[OF g] rm by simp
    have "view D ?m1 = view D m" using s(2) put_at_shrinks(4)[OF wd sd remove_le] g by (auto simp: fun_eq_iff get)
    then have "evicted_by D [] m ?m1"
      using wf s(1,3) len same_put_at[of m loc "deref_mut_set sd mp"]
      by (simp add: evicted_by_def shrunk_def wf_map_def restrict_map_def same_counters_def)
    moreover have "async_remove_victim D c loc sd evicted m = (evicted, ?m1\<lparr>lifecycle := mark_dirty (lifecycle m)\<rparr>)"
      using rm None len by (simp add: async_remove_victim_def mutation_remove_def shard_mutation_new_def mutation_drop_def Let_def)
    ultimately show ?thesis using put_at_keeps[of m _ loc "deref_mut_set sd mp"]
      by (intro exI[of _ "[]"] exI[of _ "?m1\<lparr>lifecycle := mark_dirty (lifecycle m)\<rparr>"]) simp
  qed
qed

lemma run_plans_spec:
  assumes "wf_map D m" "\<forall>(c, loc) \<in> set ps. slot_at m loc \<noteq> None"
  shows "\<exists>ev m'. run_plans D ps evicted m = Some (evicted @ ev, m') \<and> evicted_by D ev m m'"
  using assms
proof (induction ps arbitrary: evicted m)
  case Nil
  then show ?case using evicted_by_refl by (intro exI[of _ "[]"]) simp
next
  case (Cons p ps)
  obtain c loc where p: "p = (c, loc)" by (cases p)
  show ?case
  proof (cases "validate D (lifecycle m) c")
    case False
    then show ?thesis using Cons.IH[OF Cons.prems(1)] Cons.prems(2) p by simp
  next
    case True
    obtain sd where sd: "slot_at m loc = Some sd" using Cons.prems(2) p by auto
    obtain ev1 m1 where v: "async_remove_victim D c loc sd evicted m = (evicted @ ev1, m1)" "evicted_by D ev1 m m1"
      "\<forall>loc'. slot_at m loc' \<noteq> None \<longrightarrow> slot_at m1 loc' \<noteq> None"
      using async_remove_victim_spec[OF Cons.prems(1) sd] by blast
    obtain ev2 m2 where "run_plans D ps (evicted @ ev1) m1 = Some ((evicted @ ev1) @ ev2, m2)" "evicted_by D ev2 m1 m2"
      using Cons.IH[of m1 "evicted @ ev1"] Cons.prems(2) v(2,3) evicted_byD[OF v(2)] by fastforce
    then show ?thesis using True sd v(1) evicted_by_trans[OF v(2)] p by auto
  qed
qed

lemma run_shard_plans_spec:
  assumes "wf_map D m" "\<forall>(c, i) \<in> set ps. slot_at m (False, i) \<noteq> None"
  shows "\<exists>ev m'. run_shard_plans D limit ps evicted m = Some (evicted @ ev, m') \<and> evicted_by D ev m m'"
  using assms
proof (induction ps arbitrary: evicted m)
  case Nil
  then show ?case using evicted_by_refl by (intro exI[of _ "[]"]) simp
next
  case (Cons p ps)
  obtain c i where p: "p = (c, i)" by (cases p)
  obtain sd where sd: "slot_at m (False, i) = Some sd" using Cons.prems(2) p by auto
  show ?case
  proof (cases "hb_len (shard_ops D) (as_map sd) \<le> limit \<or> \<not> validate D (lifecycle m) c")
    case True
    then show ?thesis using Cons.IH[OF Cons.prems(1)] Cons.prems(2) p sd by simp
  next
    case False
    obtain ev1 m1 where v: "async_remove_victim D c (False, i) sd evicted m = (evicted @ ev1, m1)" "evicted_by D ev1 m m1"
      "\<forall>loc'. slot_at m loc' \<noteq> None \<longrightarrow> slot_at m1 loc' \<noteq> None"
      using async_remove_victim_spec[OF Cons.prems(1) sd] by blast
    obtain ev2 m2 where "run_shard_plans D limit ps (evicted @ ev1) m1 = Some ((evicted @ ev1) @ ev2, m2)" "evicted_by D ev2 m1 m2"
      using Cons.IH[of m1 "evicted @ ev1"] Cons.prems(2) v(2,3) evicted_byD[OF v(2)] by fastforce
    then show ?thesis using False sd v(1) evicted_by_trans[OF v(2)] p by auto
  qed
qed

lemma shard_plans_slots: "\<forall>(c, i) \<in> set (shard_plans D pol (overfull D limit m) m). slot_at m (False, i) \<noteq> None"
  by (auto simp: shard_plans_def overfull_def slot_at_def split: option.splits)

lemma maintain_per_shard_spec:
  assumes wf: "wf_map D m"
  shows "\<exists>r ev m'. maintain_per_shard D m = Some (r, m') \<and> evicted_by D ev m m' \<and> (r = None \<and> ev = [] \<or> r = Some (length ev))"
proof (cases "Option.bind (config (lifecycle m)) max_items_per_shard")
  case None
  then show ?thesis using evicted_by_refl[OF wf] by (auto simp: maintain_per_shard_def)
next
  case (Some limit)
  let ?m1 = "m\<lparr>lifecycle := mutation (lifecycle m)\<rparr>"
  obtain os where "life_opts (lifecycle m) = Some os" using Some by (cases "life_opts (lifecycle m)") (auto simp: config_opts)
  then obtain pol where pol: "policy (lifecycle ?m1) = Some pol" by (simp add: policy_opts)
  have w1: "wf_map D ?m1" using wf by simp
  have e: "evicted_by D [] m (m\<lparr>lifecycle := l\<rparr>)" if "life_opts l = life_opts (lifecycle m)" for l using evicted_by_refl[OF wf] that by simp
  obtain ev m2 where r: "run_shard_plans D limit (shard_plans D pol (overfull D limit ?m1) ?m1) [] ?m1 = Some (ev, m2)" "evicted_by D ev m m2"
    using run_shard_plans_spec[OF w1, of "shard_plans D pol (overfull D limit ?m1) ?m1" limit "[]"] shard_plans_slots[of pol limit ?m1] by auto
  show ?thesis
  proof (cases "previous_shard_count m \<noteq> 0 \<or> dirty (lifecycle m) \<or> dirty (lifecycle ?m1)")
    case True
    then show ?thesis using Some pol e by (auto simp: maintain_per_shard_def Let_def ticket_drop_def intro: exI[of _ "[]"])
  next
    case False
    then show ?thesis using Some pol r by (auto simp: maintain_per_shard_def Let_def intro: exI[of _ ev])
  qed
qed

lemma route_candidates_ok:
  assumes "wf_dirs D m" "length counts = shard_count m"
  shows "\<exists>counts' w'. route_candidates D m cs counts w = Some (counts', w') \<and> length counts' = shard_count m"
  using assms(2)
proof (induction cs arbitrary: counts w)
  case (Cons c cs)
  have "route D (length (shards m)) (cand_key c) < length counts"
    using Cons.prems wf_dirsD[OF assms(1)] route_less by metis
  then show ?case
    using Cons.IH[of "counts[route D (length (shards m)) (cand_key c) := counts ! route D (length (shards m)) (cand_key c) + 1]"]
      Cons.prems by (simp add: shard_index_wf[OF assms(1)])
qed simp

lemma locate_ok:
  assumes wf: "wf_dirs D m"
  shows "\<exists>r. locate D m k (route D (length (shards m)) k) = Some r \<and> (\<forall>loc. r = Some loc \<longrightarrow> slot_at m loc \<noteq> None)"
proof -
  have i: "route D (length (shards m)) k < length (shards m)" using route_less[OF wf_dirsD(1)[OF wf]] .
  have ne: "ps \<noteq> []" if "previous_shards m = Some ps" for ps
    using wf that by (auto simp: wf_dirs_def migration_ok_def)
  then show ?thesis using i
    by (auto simp: locate_def slot_at_def Let_def split: option.splits if_splits)
qed

lemma plan_victims_spec:
  assumes "wf_dirs D m" "length counts = shard_count m" "\<forall>(c, loc) \<in> set plans. slot_at m loc \<noteq> None"
  shows "\<exists>plans' l. plan_victims D el pl budget cs counts weighted remaining plans m = Some (plans', m\<lparr>lifecycle := l\<rparr>) \<and>
    life_opts l = life_opts (lifecycle m) \<and> (\<forall>(c, loc) \<in> set plans'. slot_at m loc \<noteq> None)"
  using assms
proof (induction cs arbitrary: counts weighted remaining plans m)
  case Nil
  then show ?case by (intro exI[of _ plans] exI[of _ "lifecycle m"]) simp
next
  case (Cons c cs)
  let ?i = "route D (length (shards m)) (cand_key c)"
  have i: "?i < length counts" using Cons.prems wf_dirsD[OF Cons.prems(1)] route_less by metis
  obtain r where r: "locate D m (cand_key c) ?i = Some r" "\<forall>loc. r = Some loc \<longrightarrow> slot_at m loc \<noteq> None"
    using locate_ok[OF Cons.prems(1)] by blast
  have dirty: "\<exists>plans' l. plan_victims D el pl budget cs counts weighted remaining plans (m\<lparr>lifecycle := mark_dirty (lifecycle m)\<rparr>) =
      Some (plans', m\<lparr>lifecycle := l\<rparr>) \<and> life_opts l = life_opts (lifecycle m) \<and> (\<forall>(c, loc) \<in> set plans'. slot_at m loc \<noteq> None)"
    using Cons.IH[of "m\<lparr>lifecycle := mark_dirty (lifecycle m)\<rparr>" counts plans weighted remaining] Cons.prems by simp
  have take: "\<exists>plans' l. plan_victims D el pl budget cs (counts[?i := counts ! ?i - 1]) (weighted - cand_weight c) (remaining - 1)
      (plans @ [(c, loc)]) m = Some (plans', m\<lparr>lifecycle := l\<rparr>) \<and> life_opts l = life_opts (lifecycle m) \<and>
      (\<forall>(c, loc) \<in> set plans'. slot_at m loc \<noteq> None)" if "r = Some loc" for loc
    using Cons.IH[of m "counts[?i := counts ! ?i - 1]" "plans @ [(c, loc)]" "weighted - cand_weight c" "remaining - 1"] Cons.prems r(2) that by simp
  show ?case
    using Cons.IH[OF Cons.prems, of weighted remaining] i r(1) dirty take
    by (cases r) (auto simp: shard_index_wf[OF Cons.prems(1)] Let_def)
qed

lemma maintain_global_spec:
  assumes wf: "wf_map D m" and cfg: "configured (lifecycle m) \<noteq> None"
  shows "\<exists>ev m'. maintain_global D cfg el force m = Some (length ev, m') \<and> evicted_by D ev m m'"
proof -
  define m1 where "m1 = m\<lparr>lifecycle := mutation (mark_pending (lifecycle m))\<rparr>"
  define repair where "repair = concat (map (\<lambda>sd. map (\<lambda>(k, v). (k, weight (lifecycle m1) k v)) (hb_iter (shard_ops D) (as_map sd))) (all_shards m1))"
  define m2 where "m2 = (if dirty (lifecycle m1) then m1\<lparr>lifecycle := reconcile D repair (lifecycle m1)\<rparr> else m1)"
  obtain l2 where m2: "m2 = m\<lparr>lifecycle := l2\<rparr>" "life_opts l2 = life_opts (lifecycle m)"
    by (cases "dirty (lifecycle m1)") (auto simp: m2_def m1_def)
  then have w2: "wf_map D m2" "wf_dirs D m2" using wf by (simp_all add: wf_map_def)
  have "life_opts (lifecycle m2) \<noteq> None" using cfg m2 by (simp add: opts_None)
  then obtain pol where pol: "(if force \<noteq> None then force else policy (lifecycle m2)) = Some pol"
    by (cases force) (auto simp: policy_opts)
  define cands where "cands = (if max_items_per_shard cfg = None \<and> memory_budget (lifecycle m2) = None \<and>
       (case el of None \<Rightarrow> False | Some limit \<Rightarrow> limit \<le> unat (total_len m2) \<and> unat (total_len m2) - limit = 1)
     then (case minimum_candidate D (lifecycle m2) pol of None \<Rightarrow> [] | Some c \<Rightarrow> [c]) else candidates D (lifecycle m2) pol)"
  obtain counts w where c: "route_candidates D m2 cands (replicate (shard_count m2) 0) 0 = Some (counts, w)" "length counts = shard_count m2"
    using route_candidates_ok[OF w2(2), of "replicate (shard_count m2) 0" cands 0] by auto
  obtain plans l3 where pl: "plan_victims D el (max_items_per_shard cfg) (memory_budget (lifecycle m2)) cands counts w (total_len m2) [] m2 =
      Some (plans, m2\<lparr>lifecycle := l3\<rparr>)" "life_opts l3 = life_opts (lifecycle m2)" "\<forall>(c, loc) \<in> set plans. slot_at m2 loc \<noteq> None"
    using plan_victims_spec[OF w2(2) c(2), of "[]" el "max_items_per_shard cfg" "memory_budget (lifecycle m2)" cands w "total_len m2"]
    by auto
  obtain ev m4 where r: "run_plans D plans [] (m2\<lparr>lifecycle := l3\<rparr>) = Some (ev, m4)" "evicted_by D ev (m2\<lparr>lifecycle := l3\<rparr>) m4"
    using run_plans_spec[of "m2\<lparr>lifecycle := l3\<rparr>" plans "[]"] w2(1) pl(3) by auto
  have e: "evicted_by D ev m m4" using r(2) pl(2) m2 by simp
  show ?thesis
    unfolding maintain_global_def Let_def
    unfolding m1_def[symmetric] unfolding repair_def[symmetric] unfolding m2_def[symmetric] pol bind.bind_lunit unfolding cands_def[symmetric]
    using c(1) pl(1) r(1) e by (intro exI[of _ ev]) auto
qed

lemma maintain_evicts:
  assumes wf: "wf_map D m"
  shows "\<exists>ev m'. maintain_eviction D target force m = Some (length ev, m') \<and> evicted_by D ev m m' \<and>
    (configured (lifecycle m) = None \<longrightarrow> ev = [] \<and> m' = m)"
proof (cases "configured (lifecycle m)")
  case None
  then show ?thesis using evicted_by_refl[OF wf] by (intro exI[of _ "[]"] exI[of _ m]) (simp add: maintain_eviction_def config_def)
next
  case (Some c)
  define cfg where "cfg = opt_config (options c)"
  have cfgm: "config (lifecycle m) = Some cfg" by (simp add: config_def Some cfg_def)
  obtain r ev m1 where r: "(if target = None \<and> force = None \<and> max_items_per_shard cfg \<noteq> None \<and> memory_budget (lifecycle m) = None
      then maintain_per_shard D m else Some (None, m)) = Some (r, m1)" "evicted_by D ev m m1" "r = None \<and> ev = [] \<or> r = Some (length ev)"
  proof (cases "target = None \<and> force = None \<and> max_items_per_shard cfg \<noteq> None \<and> memory_budget (lifecycle m) = None")
    case True
    then show ?thesis using maintain_per_shard_spec[OF wf] that by auto
  next
    case False
    then show ?thesis using evicted_by_refl[OF wf] that[of None m "[]"] by auto
  qed
  have w1: "wf_map D m1" "configured (lifecycle m1) \<noteq> None"
    using evicted_byD[OF r(2)] Some by (simp_all add: opts_None[symmetric], simp add: life_opts_def)
  show ?thesis
  proof (cases r)
    case (Some n)
    then show ?thesis using r cfgm \<open>configured (lifecycle m) = Some c\<close> unfolding maintain_eviction_def cfgm option.case
      by (intro exI[of _ ev] exI[of _ "m1\<lparr>lifecycle := dispatch_callbacks D [] (lifecycle m1)\<rparr>"]) simp
  next
    case None
    then have e: "evicted_by D [] m m1" using r(2,3) by simp
    obtain ev' m' where g: "maintain_global D cfg (effective_target target (max_entries cfg)) force m1 = Some (length ev', m')" "evicted_by D ev' m m'"
      using maintain_global_spec[OF w1, of cfg "effective_target target (max_entries cfg)" force] evicted_by_trans[OF e] by auto
    let ?l = "dispatch_callbacks D [] (mark_maintained (maintenance_generation (lifecycle m1)) (lifecycle m1))"
    have "evicted_by D [] m (m1\<lparr>lifecycle := ?l\<rparr>)" using e by simp
    then show ?thesis
      using r(1) None g Some unfolding maintain_eviction_def cfgm option.case
      by (auto simp: Let_def intro: exI[of _ "[]"])
  qed
qed

lemma async_enforce_post:
  assumes "op_post D m V m1" "view D m1 = V"
  shows "\<exists>n m'. async_enforce D m1 = Some (n, m') \<and> op_post D m V m'"
proof -
  have w: "wf_map D m1" using assms(1) by (simp add: op_post_def)
  obtain ev m' where e: "async_enforce D m1 = Some (length ev, m')" "evicted_by D ev m1 m'"
    "configured (lifecycle m1) = None \<longrightarrow> ev = [] \<and> m' = m1"
    using maintain_evicts[OF w, of None None] unfolding async_enforce_def by metis
  have "op_post D m1 V m'"
    using evicted_byD[OF e(2)] evicted_by_subset[OF e(2)] e(3) assms(2) w
    by (auto simp: op_post_def same_meta_def opts_None)
  then show ?thesis using e(1) op_post_trans[OF assms] by blast
qed

lemma async_enforce_committed:
  assumes "committed D m V ep l m1" "life_opts l = life_opts (lifecycle m)"
  shows "\<exists>n m'. async_enforce D m1 = Some (n, m') \<and> op_post D m V m'"
  using async_enforce_post[OF op_post_committed[OF assms]] assms(1) by (simp add: committed_def)

end

end
