(* ===== verification/Sync_Entry.thy ===== *)
theory Sync_Entry
  imports Sync_Contract
begin

text \<open>
  The entry API, \<open>entry.rs\<close>. A handle remembers only the key and what \<open>entry\<close> observed; every method runs
  one atomic operation of the map and takes the map's state at that moment as an argument. \<open>and_modify\<close>'s
  \<open>FnOnce(&mut V)\<close> is the function from the old to the new value.
\<close>

datatype 'k entry_handle = Occupied 'k | Vacant 'k

fun handle_key :: "'k entry_handle \<Rightarrow> 'k" where
  "handle_key (Occupied k) = k"
| "handle_key (Vacant k) = k"

fun is_occupied :: "'k entry_handle \<Rightarrow> bool" where
  "is_occupied (Occupied _) = True"
| "is_occupied (Vacant _) = False"

definition is_vacant :: "'k entry_handle \<Rightarrow> bool" where
  "is_vacant e = (\<not> is_occupied e)"

definition entry_of ::
  "('k, 'v, 'm, 'b) deps \<Rightarrow> 'k \<Rightarrow> ('k, 'v, 'm, 'b) sharded_map \<Rightarrow> ('k entry_handle \<times> ('k, 'v, 'm, 'b) sharded_map) option" where
  "entry_of D key m = do {
     (found, m1) \<leftarrow> contains_borrowed D key m;
     Some (if found then Occupied key else Vacant key, m1)
   }"

definition or_insert_with ::
  "('k, 'v, 'm, 'b) deps \<Rightarrow> 'k entry_handle \<Rightarrow> (unit \<Rightarrow> 'v) \<Rightarrow> ('k, 'v, 'm, 'b) sharded_map \<Rightarrow>
   ('v \<times> ('k, 'v, 'm, 'b) sharded_map) option" where
  "or_insert_with D e f m = get_or_insert_with D (handle_key e) f m"

definition or_insert ::
  "('k, 'v, 'm, 'b) deps \<Rightarrow> 'k entry_handle \<Rightarrow> 'v \<Rightarrow> ('k, 'v, 'm, 'b) sharded_map \<Rightarrow>
   ('v \<times> ('k, 'v, 'm, 'b) sharded_map) option" where
  "or_insert D e dflt m = or_insert_with D e (\<lambda>_. dflt) m"

definition and_modify ::
  "('k, 'v, 'm, 'b) deps \<Rightarrow> 'k entry_handle \<Rightarrow> ('v \<Rightarrow> 'v) \<Rightarrow> ('k, 'v, 'm, 'b) sharded_map \<Rightarrow>
   ('k entry_handle \<times> ('k, 'v, 'm, 'b) sharded_map) option" where
  "and_modify D e f m = do {
     (result, m1) \<leftarrow> compute_if_present D (handle_key e) (\<lambda>old. Some (f old)) m;
     Some (if result \<noteq> None then Occupied (handle_key e) else Vacant (handle_key e), m1)
   }"

definition entry_insert ::
  "('k, 'v, 'm, 'b) deps \<Rightarrow> 'k entry_handle \<Rightarrow> 'v \<Rightarrow> ('k, 'v, 'm, 'b) sharded_map \<Rightarrow>
   ('v option \<times> ('k, 'v, 'm, 'b) sharded_map) option" where
  "entry_insert D e val m = insert_op D (handle_key e) val m"

definition entry_remove ::
  "('k, 'v, 'm, 'b) deps \<Rightarrow> 'k entry_handle \<Rightarrow> ('k, 'v, 'm, 'b) sharded_map \<Rightarrow>
   ('v option \<times> ('k, 'v, 'm, 'b) sharded_map) option" where
  "entry_remove D e m = remove_borrowed D (handle_key e) m"

definition occupied_get ::
  "('k, 'v, 'm, 'b) deps \<Rightarrow> 'k \<Rightarrow> ('k, 'v, 'm, 'b) sharded_map \<Rightarrow> ('v option \<times> ('k, 'v, 'm, 'b) sharded_map) option" where
  "occupied_get D key m = get_borrowed D key m"

definition occupied_remove_entry ::
  "('k, 'v, 'm, 'b) deps \<Rightarrow> 'k \<Rightarrow> ('k, 'v, 'm, 'b) sharded_map \<Rightarrow>
   (('k \<times> 'v) option \<times> ('k, 'v, 'm, 'b) sharded_map) option" where
  "occupied_remove_entry D key m = do {
     (val, m1) \<leftarrow> remove_borrowed D key m;
     Some (map_option (Pair key) val, m1)
   }"

definition vacant_insert ::
  "('k, 'v, 'm, 'b) deps \<Rightarrow> 'k \<Rightarrow> 'v \<Rightarrow> ('k, 'v, 'm, 'b) sharded_map \<Rightarrow> ('v \<times> ('k, 'v, 'm, 'b) sharded_map) option" where
  "vacant_insert D key val m = get_or_insert_with D key (\<lambda>_. val) m"

section \<open>Chained calls\<close>

text \<open>\<open>map.entry(k).and_modify(f).or_insert(v)\<close>, the upsert idiom, as the three atomic steps it is.\<close>

definition upsert ::
  "('k, 'v, 'm, 'b) deps \<Rightarrow> 'k \<Rightarrow> ('v \<Rightarrow> 'v) \<Rightarrow> 'v \<Rightarrow> ('k, 'v, 'm, 'b) sharded_map \<Rightarrow> ('v \<times> ('k, 'v, 'm, 'b) sharded_map) option" where
  "upsert D k f v m = do {
     (e, m1) \<leftarrow> entry_of D k m;
     (e', m2) \<leftarrow> and_modify D e f m1;
     or_insert D e' v m2
   }"

context starshard_deps
begin

lemma entry_of_ok:
  assumes "plain_map D m"
  shows "\<exists>m'. entry_of D k m = Some (if view D m k = None then Vacant k else Occupied k, m') \<and> plain_map D m' \<and> view D m' = view D m"
proof -
  have "wf_map D m" using assms by (simp add: plain_map_def)
  from contains_post[OF this, of k] obtain m' where
    "contains_borrowed D k m = Some (k \<in> dom (view D m), m')" "op_post D m (view D m) m'" by blast
  then show ?thesis using op_post_plain[OF _ assms] by (auto simp: entry_of_def domIff)
qed

lemma and_modify_ok:
  assumes "plain_map D m" "handle_key e = k"
  shows "\<exists>m'. and_modify D e f m = Some (if view D m k = None then Vacant k else Occupied k, m') \<and> plain_map D m' \<and>
    view D m' = (view D m)(k := map_option f (view D m k))"
proof -
  have "wf_map D m" using assms by (simp add: plain_map_def)
  from compute_post[OF this, of k "\<lambda>old. Some (f old)"] obtain m' where
    c: "compute_if_present D k (\<lambda>old. Some (f old)) m = Some (Option.bind (view D m k) (\<lambda>old. Some (f old)), m')"
       "op_post D m ((view D m)(k := Option.bind (view D m k) (\<lambda>old. Some (f old)))) m'" by blast
  have "Option.bind (view D m k) (\<lambda>old. Some (f old)) = map_option f (view D m k)" by (cases "view D m k") simp_all
  then show ?thesis using c op_post_plain[OF c(2) assms(1)] assms(2) by (auto simp: and_modify_def)
qed

lemma or_insert_ok:
  assumes "plain_map D m" "handle_key e = k"
  shows "\<exists>m'. or_insert D e v m = Some (case view D m k of Some w \<Rightarrow> w | None \<Rightarrow> v, m') \<and> plain_map D m' \<and>
    view D m' = (view D m)(k \<mapsto> (case view D m k of Some w \<Rightarrow> w | None \<Rightarrow> v))"
proof -
  have "wf_map D m" using assms by (simp add: plain_map_def)
  from get_or_insert_post[OF this, of k "\<lambda>_. v"] obtain m' where
    c: "get_or_insert_with D k (\<lambda>_. v) m = Some (case view D m k of Some w \<Rightarrow> w | None \<Rightarrow> v, m')"
       "op_post D m ((view D m)(k \<mapsto> (case view D m k of Some w \<Rightarrow> w | None \<Rightarrow> v))) m'" by blast
  then show ?thesis using op_post_plain[OF c(2) assms(1)] assms(2) by (auto simp: or_insert_def or_insert_with_def)
qed

lemma upsert_ok:
  assumes "plain_map D m"
  shows "\<exists>m'. upsert D k f v m = Some (case view D m k of None \<Rightarrow> v | Some w \<Rightarrow> f w, m') \<and> plain_map D m' \<and>
    view D m' = (view D m)(k \<mapsto> (case view D m k of None \<Rightarrow> v | Some w \<Rightarrow> f w))"
proof -
  let ?e = "if view D m k = None then Vacant k else Occupied k"
  have key: "handle_key ?e = k" by simp
  obtain m1 where m1: "entry_of D k m = Some (?e, m1)" "plain_map D m1" "view D m1 = view D m" using entry_of_ok[OF assms] by blast
  obtain m2 where m2: "and_modify D ?e f m1 = Some (?e, m2)" "plain_map D m2" "view D m2 = (view D m)(k := map_option f (view D m k))"
    using and_modify_ok[OF m1(2) key, of f] unfolding m1(3) by blast
  obtain m3 where m3: "or_insert D ?e v m2 = Some (case view D m2 k of Some w \<Rightarrow> w | None \<Rightarrow> v, m3)" "plain_map D m3"
    "view D m3 = (view D m2)(k \<mapsto> (case view D m2 k of Some w \<Rightarrow> w | None \<Rightarrow> v))"
    using or_insert_ok[OF m2(2) key, of v] by blast
  have "(case view D m2 k of Some w \<Rightarrow> w | None \<Rightarrow> v) = (case view D m k of None \<Rightarrow> v | Some w \<Rightarrow> f w)"
    using m2(3) by (cases "view D m k") simp_all
  then show ?thesis using m1 m2 m3 by (auto simp: upsert_def)
qed

end

text \<open>
  C26: on a map without an eviction policy the upsert idiom \<open>entry(k).and_modify(f).or_insert(v)\<close> changes nothing but \<open>k\<close>: an existing value is
  replaced by \<open>f\<close> of it, an absent one by \<open>v\<close>, and the stored value is returned; \<open>remove_entry\<close> hands back the
  pair it removed.
\<close>

theorem entry_api_correct:
  assumes "starshard_deps D" "wf_map D m" "configured (lifecycle m) = None"
  shows "(\<exists>m'. upsert D k f v m = Some (case view D m k of None \<Rightarrow> v | Some w \<Rightarrow> f w, m') \<and> wf_map D m' \<and>
      view D m' = (view D m)(k \<mapsto> (case view D m k of None \<Rightarrow> v | Some w \<Rightarrow> f w))) \<and>
    (\<exists>m'. occupied_remove_entry D k m = Some (map_option (Pair k) (view D m k), m') \<and> wf_map D m' \<and>
      view D m' = (view D m)(k := None))"
proof -
  have pl: "plain_map D m" using assms by (simp add: plain_map_def opts_None)
  obtain m' where "remove_borrowed D k m = Some (view D m k, m')" "op_post D m ((view D m)(k := None)) m'"
    using starshard_deps.remove_post[OF assms(1,2)] by blast
  then show ?thesis
    using starshard_deps.upsert_ok[OF assms(1) pl, of k f v] op_post_plain[OF _ pl]
    by (auto simp: occupied_remove_entry_def plain_map_def)
qed

theorem entry_api_correct_witness:
  "\<exists>m'. upsert nat_deps 3 Suc 7 (fresh_map Cow) = Some (7, m') \<and> view nat_deps m' = [3 \<mapsto> 7]"
  using entry_api_correct[OF nat_deps_laws, of "fresh_map Cow" 3 Suc 7] by auto

end
