(* ===== verification/Async_Map.thy ===== *)
theory Async_Map
  imports Async_Eviction Sync_Snapshots Sync_Entry
begin

text \<open>
  The operations of \<open>AsyncShardedHashMap\<close> (\<open>core/async_impl.rs\<close>), each as the state change of a call that
  runs to completion; what a dropped call leaves is part of \<open>Async_Contract\<close>. The struct has the
  fields of the synchronous map, so the state is \<open>sharded_map\<close>; the code differs in its tickets, in the
  migration test of the batches, in shards it initialises, in when it enforces the limits, and in how
  \<open>retain\<close>, \<open>clear\<close> and \<open>drain\<close> account for what they remove. The inline sequence of ticket, preparation,
  mutation and recording around a write is the one of \<open>tracked_insert\<close> and \<open>tracked_remove\<close>. A projection
  passed to a read is a HOL function; the outer \<open>None\<close> is a panic.
\<close>

section \<open>Shard access\<close>

text \<open>The ticket that covers a whole operation.\<close>

definition begin_op :: "('k, 'v, 'm, 'b) sharded_map \<Rightarrow> ('k, 'v, 'm, 'b) sharded_map" where
  "begin_op m = m\<lparr>lifecycle := mutation (lifecycle m)\<rparr>"

definition async_previous_shard ::
  "('k, 'v, 'm, 'b) deps \<Rightarrow> ('k, 'v, 'm, 'b) sharded_map \<Rightarrow> 'k \<Rightarrow> (nat \<times> 'm shard_data) option" where
  "async_previous_shard D m key =
     (let cnt = previous_shard_count m in
      if cnt = 0 then None
      else let index = unat (hash_one D key) mod cnt in
        (case previous_shards m of
           None \<Rightarrow> None
         | Some slots \<Rightarrow> if index < length slots then map_option (Pair index) (slots ! index) else None))"

definition cache_enabled :: "('k, 'v, 'm, 'b) sharded_map \<Rightarrow> bool" where
  "cache_enabled m = (snapshot_mode m \<noteq> CloneMode)"

definition on_structural_write :: "('k, 'v, 'm, 'b) sharded_map \<Rightarrow> ('k, 'v, 'm, 'b) sharded_map" where
  "on_structural_write m = m\<lparr>write_epoch := write_epoch m + 1\<rparr>"

text \<open>The part of \<open>lock_key\<close> after the active shard is locked.\<close>

definition async_promote ::
  "('k, 'v, 'm, 'b) deps \<Rightarrow> ('k, 'v, 'm, 'b) sharded_map \<Rightarrow> 'k \<Rightarrow> 'm shard_data \<Rightarrow>
   'm shard_data \<times> ('k, 'v, 'm, 'b) sharded_map" where
  "async_promote D m key active =
     (case async_previous_shard D m key of
        None \<Rightarrow> (active, m)
      | Some (j, previous) \<Rightarrow>
          if hb_get (shard_ops D) (as_map previous) key \<noteq> None
          then (let (a, p) = promote_entry (shard_ops D) (as_map active) (as_map previous) key
                in (deref_mut_set active a, set_previous_slot j (Some (deref_mut_set previous p)) m))
          else (active, m))"

definition async_lock_key ::
  "('k, 'v, 'm, 'b) deps \<Rightarrow> ('k, 'v, 'm, 'b) sharded_map \<Rightarrow> 'k \<Rightarrow>
   (nat \<times> 'm shard_data \<times> ('k, 'v, 'm, 'b) sharded_map) option" where
  "async_lock_key D m key = do {
     index \<leftarrow> shard_index D m key;
     (shard, m1) \<leftarrow> get_or_init_shard D m index;
     let (active, m2) = async_promote D m1 key shard;
     Some (index, active, m2)
   }"

definition async_read_key ::
  "('k, 'v, 'm, 'b) deps \<Rightarrow> 'k \<Rightarrow> ('v option \<Rightarrow> 'r) \<Rightarrow> ('k, 'v, 'm, 'b) sharded_map \<Rightarrow>
   ('r \<times> ('k, 'v, 'm, 'b) sharded_map) option" where
  "async_read_key D key f m = do {
     index \<leftarrow> shard_index D m key;
     slot \<leftarrow> index_checked (shards m) index;
     let fallback = (case async_previous_shard D m key of
            None \<Rightarrow> None | Some (_, previous) \<Rightarrow> hb_get (shard_ops D) (as_map previous) key);
     let val = (case slot of
            Some active \<Rightarrow>
              (case hb_get (shard_ops D) (as_map active) key of Some v \<Rightarrow> Some v | None \<Rightarrow> fallback)
          | None \<Rightarrow> fallback);
     Some (f val, m\<lparr>lifecycle := record_read D key (val \<noteq> None) (lifecycle m)\<rparr>)
   }"

section \<open>Single keys\<close>

definition async_insert_inner ::
  "('k, 'v, 'm, 'b) deps \<Rightarrow> 'k \<Rightarrow> 'v \<Rightarrow> ('k, 'v, 'm, 'b) sharded_map \<Rightarrow>
   ('v option \<times> ('k, 'v, 'm, 'b) sharded_map) option" where
  "async_insert_inner D key val m = do {
     (index, guard, m1) \<leftarrow> async_lock_key D m key;
     let (old, mu, l) = tracked_insert D (shard_mutation_new (shard_ops D) (as_map guard)) key val (lifecycle m1);
     Some (old, commit D index guard mu l m1)
   }"

definition async_remove_inner ::
  "('k, 'v, 'm, 'b) deps \<Rightarrow> 'k \<Rightarrow> ('k, 'v, 'm, 'b) sharded_map \<Rightarrow>
   ('v option \<times> ('k, 'v, 'm, 'b) sharded_map) option" where
  "async_remove_inner D key m = do {
     (index, guard, m1) \<leftarrow> async_lock_key D m key;
     if snapshot_mode m1 = Cow \<and> hb_get (shard_ops D) (as_map guard) key = None
     then Some (None, unlock index guard m1)
     else do {
       let (old, mu, l) = tracked_remove D (shard_mutation_new (shard_ops D) (as_map guard)) key (lifecycle m1);
       Some (old, commit D index guard mu l m1)
     }
   }"

definition async_insert ::
  "('k, 'v, 'm, 'b) deps \<Rightarrow> 'k \<Rightarrow> 'v \<Rightarrow> ('k, 'v, 'm, 'b) sharded_map \<Rightarrow>
   ('v option \<times> ('k, 'v, 'm, 'b) sharded_map) option" where
  "async_insert D key val m = do {
     (old, m1) \<leftarrow> async_insert_inner D key val (begin_op m);
     (_, m2) \<leftarrow> async_enforce D m1;
     Some (old, m2)
   }"

definition async_get ::
  "('k, 'v, 'm, 'b) deps \<Rightarrow> 'k \<Rightarrow> ('k, 'v, 'm, 'b) sharded_map \<Rightarrow>
   ('v option \<times> ('k, 'v, 'm, 'b) sharded_map) option" where
  "async_get D key m = async_read_key D key id m"

definition async_read_with ::
  "('k, 'v, 'm, 'b) deps \<Rightarrow> 'k \<Rightarrow> ('v \<Rightarrow> 'r) \<Rightarrow> ('k, 'v, 'm, 'b) sharded_map \<Rightarrow>
   ('r option \<times> ('k, 'v, 'm, 'b) sharded_map) option" where
  "async_read_with D key f m = async_read_key D key (map_option f) m"

definition async_contains ::
  "('k, 'v, 'm, 'b) deps \<Rightarrow> 'k \<Rightarrow> ('k, 'v, 'm, 'b) sharded_map \<Rightarrow>
   (bool \<times> ('k, 'v, 'm, 'b) sharded_map) option" where
  "async_contains D key m = async_read_key D key (\<lambda>val. val \<noteq> None) m"

definition async_remove ::
  "('k, 'v, 'm, 'b) deps \<Rightarrow> 'k \<Rightarrow> ('k, 'v, 'm, 'b) sharded_map \<Rightarrow>
   ('v option \<times> ('k, 'v, 'm, 'b) sharded_map) option" where
  "async_remove D key m = do {
     (old, m1) \<leftarrow> async_remove_inner D key (begin_op m);
     (_, m2) \<leftarrow> async_enforce D m1;
     Some (old, m2)
   }"

section \<open>Closures under the shard lock\<close>

definition compute_if_present_inner ::
  "('k, 'v, 'm, 'b) deps \<Rightarrow> 'k \<Rightarrow> ('v \<Rightarrow> 'v option) \<Rightarrow> ('k, 'v, 'm, 'b) sharded_map \<Rightarrow>
   ('v option \<times> ('k, 'v, 'm, 'b) sharded_map) option" where
  "compute_if_present_inner D key f m = do {
     (index, guard, m1) \<leftarrow> async_lock_key D m key;
     let old = hb_get (shard_ops D) (as_map guard) key;
     let m2 = m1\<lparr>lifecycle := record_read D key (old \<noteq> None) (lifecycle m1)\<rparr>;
     Some (case old of
       None \<Rightarrow> (None, unlock index guard m2)
     | Some val \<Rightarrow>
         (let result = f val;
              mu0 = shard_mutation_new (shard_ops D) (as_map guard);
              (_, mu, l) = (case result of
                 Some new \<Rightarrow> tracked_insert D mu0 key new (lifecycle m2)
               | None \<Rightarrow> tracked_remove D mu0 key (lifecycle m2))
          in (result, commit D index guard mu l m2)))
   }"

definition async_compute_if_present ::
  "('k, 'v, 'm, 'b) deps \<Rightarrow> 'k \<Rightarrow> ('v \<Rightarrow> 'v option) \<Rightarrow> ('k, 'v, 'm, 'b) sharded_map \<Rightarrow>
   ('v option \<times> ('k, 'v, 'm, 'b) sharded_map) option" where
  "async_compute_if_present D key f m = do {
     (result, m1) \<leftarrow> compute_if_present_inner D key f (begin_op m);
     (_, m2) \<leftarrow> async_enforce D m1;
     Some (result, m2)
   }"

definition get_or_insert_with_inner ::
  "('k, 'v, 'm, 'b) deps \<Rightarrow> 'k \<Rightarrow> (unit \<Rightarrow> 'v) \<Rightarrow> ('k, 'v, 'm, 'b) sharded_map \<Rightarrow>
   ('v \<times> ('k, 'v, 'm, 'b) sharded_map) option" where
  "get_or_insert_with_inner D key f m = do {
     (index, guard, m1) \<leftarrow> async_lock_key D m key;
     Some (case hb_get (shard_ops D) (as_map guard) key of
       Some val \<Rightarrow> (val, unlock index guard (m1\<lparr>lifecycle := record_read D key True (lifecycle m1)\<rparr>))
     | None \<Rightarrow>
         (let l1 = record_read D key False (lifecycle m1); val = f ();
              (_, mu, l) = tracked_insert D (shard_mutation_new (shard_ops D) (as_map guard)) key val l1
          in (val, commit D index guard mu l (m1\<lparr>lifecycle := l1\<rparr>))))
   }"

definition compute_if_absent ::
  "('k, 'v, 'm, 'b) deps \<Rightarrow> 'k \<Rightarrow> (unit \<Rightarrow> 'v) \<Rightarrow> ('k, 'v, 'm, 'b) sharded_map \<Rightarrow>
   ('v \<times> ('k, 'v, 'm, 'b) sharded_map) option" where
  "compute_if_absent D key f m = do {
     (val, m1) \<leftarrow> get_or_insert_with_inner D key f (begin_op m);
     (_, m2) \<leftarrow> async_enforce D m1;
     Some (val, m2)
   }"

definition async_get_or_insert_with ::
  "('k, 'v, 'm, 'b) deps \<Rightarrow> 'k \<Rightarrow> (unit \<Rightarrow> 'v) \<Rightarrow> ('k, 'v, 'm, 'b) sharded_map \<Rightarrow>
   ('v \<times> ('k, 'v, 'm, 'b) sharded_map) option" where
  "async_get_or_insert_with D key f m = do {
     (val, m1) \<leftarrow> get_or_insert_with_inner D key f (begin_op m);
     (_, m2) \<leftarrow> async_enforce D m1;
     Some (val, m2)
   }"

definition async_compare_and_swap ::
  "('k, 'v, 'm, 'b) deps \<Rightarrow> 'k \<Rightarrow> 'v \<Rightarrow> 'v \<Rightarrow> ('k, 'v, 'm, 'b) sharded_map \<Rightarrow>
   ('v cas_result \<times> ('k, 'v, 'm, 'b) sharded_map) option" where
  "async_compare_and_swap D key expected new m = do {
     (index, guard, m1) \<leftarrow> async_lock_key D (begin_op m) key;
     let current = hb_get (shard_ops D) (as_map guard) key;
     let m2 = m1\<lparr>lifecycle := record_read D key (current \<noteq> None) (lifecycle m1)\<rparr>;
     let (result, m3) =
       (case current of
          Some cur \<Rightarrow>
            if cur = expected
            then (let (_, mu, l) = tracked_insert D (shard_mutation_new (shard_ops D) (as_map guard)) key new (lifecycle m2)
                  in (Success new, commit D index guard mu l m2))
            else (Failure cur, unlock index guard m2)
        | None \<Rightarrow> (Failure new, unlock index guard m2));
     (_, m4) \<leftarrow> async_enforce D m3;
     Some (result, m4)
   }"

definition async_compare_and_remove ::
  "('k, 'v, 'm, 'b) deps \<Rightarrow> 'k \<Rightarrow> 'v \<Rightarrow> ('k, 'v, 'm, 'b) sharded_map \<Rightarrow>
   (bool \<times> ('k, 'v, 'm, 'b) sharded_map) option" where
  "async_compare_and_remove D key expected m = do {
     (index, guard, m1) \<leftarrow> async_lock_key D (begin_op m) key;
     let current = hb_get (shard_ops D) (as_map guard) key;
     let m2 = m1\<lparr>lifecycle := record_read D key (current \<noteq> None) (lifecycle m1)\<rparr>;
     let (removed, m3) =
       (if current = Some expected
        then (let (_, mu, l) = tracked_remove D (shard_mutation_new (shard_ops D) (as_map guard)) key (lifecycle m2)
              in (True, commit D index guard mu l m2))
        else (False, unlock index guard m2));
     (_, m4) \<leftarrow> async_enforce D m3;
     Some (removed, m4)
   }"

section \<open>Batches\<close>

definition async_insert_step ::
  "('k, 'v, 'm, 'b) deps \<Rightarrow> 'k \<times> 'v \<Rightarrow> nat \<times> ('k, 'v, 'm, 'b) sharded_map \<Rightarrow>
   (nat \<times> ('k, 'v, 'm, 'b) sharded_map) option" where
  "async_insert_step D = (\<lambda>(key, val) (n, m). do {
     (old, m1) \<leftarrow> async_insert_inner D key val m;
     Some (if old = None then n + 1 else n, m1)
   })"

definition async_remove_step ::
  "('k, 'v, 'm, 'b) deps \<Rightarrow> 'k \<Rightarrow> nat \<times> ('k, 'v, 'm, 'b) sharded_map \<Rightarrow>
   (nat \<times> ('k, 'v, 'm, 'b) sharded_map) option" where
  "async_remove_step D = (\<lambda>key (n, m). do {
     (old, m1) \<leftarrow> async_remove_inner D key m;
     Some (if old \<noteq> None then n + 1 else n, m1)
   })"

definition async_get_step ::
  "('k, 'v, 'm, 'b) deps \<Rightarrow> nat \<times> 'k \<Rightarrow> 'v option list \<times> ('k, 'v, 'm, 'b) sharded_map \<Rightarrow>
   ('v option list \<times> ('k, 'v, 'm, 'b) sharded_map) option" where
  "async_get_step D = (\<lambda>(pos, key) (result, m). do {
     (val, m1) \<leftarrow> async_read_key D key id m;
     Some (result[pos := val], m1)
   })"

text \<open>The buckets of a stable layout are processed as in the synchronous map.\<close>

definition async_batch_insert ::
  "('k, 'v, 'm, 'b) deps \<Rightarrow> ('k \<times> 'v) list \<Rightarrow> ('k, 'v, 'm, 'b) sharded_map \<Rightarrow>
   (nat \<times> ('k, 'v, 'm, 'b) sharded_map) option" where
  "async_batch_insert D es m = do {
     let m0 = begin_op m;
     (n, m1) \<leftarrow>
       (if is_migrating (rebalance_tracker m0) then fold_option (async_insert_step D) es (0, m0)
        else do {
          ixs \<leftarrow> indexed D m0 fst es;
          fold_option (insert_bucket D) (bucketize (bucket_order D) fst ixs) (0, m0)
        });
     (_, m2) \<leftarrow> async_enforce D m1;
     Some (n, m2)
   }"

definition async_batch_remove ::
  "('k, 'v, 'm, 'b) deps \<Rightarrow> 'k list \<Rightarrow> ('k, 'v, 'm, 'b) sharded_map \<Rightarrow>
   (nat \<times> ('k, 'v, 'm, 'b) sharded_map) option" where
  "async_batch_remove D ks m = do {
     let m0 = begin_op m;
     (n, m1) \<leftarrow>
       (if is_migrating (rebalance_tracker m0) then fold_option (async_remove_step D) ks (0, m0)
        else do {
          ixs \<leftarrow> indexed D m0 id ks;
          fold_option (remove_bucket D) (bucketize (bucket_order D) fst ixs) (0, m0)
        });
     (_, m2) \<leftarrow> async_enforce D m1;
     Some (n, m2)
   }"

definition async_batch_get ::
  "('k, 'v, 'm, 'b) deps \<Rightarrow> 'k list \<Rightarrow> ('k, 'v, 'm, 'b) sharded_map \<Rightarrow>
   ('v option list \<times> ('k, 'v, 'm, 'b) sharded_map) option" where
  "async_batch_get D ks m =
     (let result = replicate (length ks) None in
      if is_migrating (rebalance_tracker m) then fold_option (async_get_step D) (enumerate 0 ks) (result, m)
      else do {
        ixs \<leftarrow> indexed D m snd (enumerate 0 ks);
        fold_option (get_bucket D) (bucketize (bucket_order D) fst ixs) (result, m)
      })"

section \<open>Whole-map operations\<close>

definition async_retain_shard ::
  "('k, 'v, 'm, 'b) deps \<Rightarrow> ('k \<Rightarrow> 'v \<Rightarrow> bool) \<Rightarrow> 'm shard_data \<Rightarrow> ('k \<times> 'v) list \<Rightarrow>
   ('k, 'v, 'm, 'b) sharded_map \<Rightarrow> 'm shard_data \<times> ('k \<times> 'v) list \<times> ('k, 'v, 'm, 'b) sharded_map" where
  "async_retain_shard D predicate sd retired_pairs m =
     (let (removed, mp) = hb_extract_if (shard_ops D) (as_map sd) (\<lambda>k v. \<not> predicate k v);
          m1 = fold (\<lambda>(k, _) m'. (on_structural_write (m'\<lparr>total_len := total_len m' - 1\<rparr>))
                 \<lparr>lifecycle := record_remove D k (lifecycle m')\<rparr>) removed m
      in (deref_mut_set sd mp, retired_pairs @ removed, m1))"

definition async_retain ::
  "('k, 'v, 'm, 'b) deps \<Rightarrow> ('k \<Rightarrow> 'v \<Rightarrow> bool) \<Rightarrow> ('k, 'v, 'm, 'b) sharded_map \<Rightarrow>
   ('k, 'v, 'm, 'b) sharded_map option" where
  "async_retain D predicate m = do {
     let m0 = begin_op m;
     let (_, m1) = for_all_shards (async_retain_shard D predicate) [] (m0\<lparr>lifecycle := mutation (lifecycle m0)\<rparr>);
     (_, m2) \<leftarrow> async_enforce D m1;
     Some m2
   }"

definition drained_items :: "('k, 'v, 'm, 'b) deps \<Rightarrow> 'm slots \<Rightarrow> ('k \<times> 'v) list" where
  "drained_items D slots = concat (map (\<lambda>sd. fst (hb_drain (shard_ops D) (as_map sd))) (List.map_filter id slots))"

definition drained_slot :: "('k, 'v, 'm, 'b) deps \<Rightarrow> 'm shard_data option \<Rightarrow> 'm shard_data option" where
  "drained_slot D slot = map_option (\<lambda>sd. deref_mut_set sd (snd (hb_drain (shard_ops D) (as_map sd)))) slot"

text \<open>From the first drained shard to the last released guard; \<open>removed\<close> is what has been drained.\<close>

definition drain_commit ::
  "('k, 'v, 'm, 'b) deps \<Rightarrow> ('k \<times> 'v) list \<Rightarrow> ('k, 'v, 'm, 'b) sharded_map \<Rightarrow> ('k, 'v, 'm, 'b) sharded_map" where
  "drain_commit D removed m =
     (let m1 = m\<lparr>lifecycle := mutation (lifecycle m), shards := map (drained_slot D) (shards m),
                 previous_shards := None, previous_shard_count := 0,
                 rebalance_tracker := finish (now D) (rebalance_tracker m), total_len := 0\<rparr>;
          m2 = (if removed \<noteq> [] then on_structural_write m1 else m1)
      in m2\<lparr>lifecycle := fold (\<lambda>(k, _). record_remove D k) removed (lifecycle m2)\<rparr>)"

definition async_clear :: "('k, 'v, 'm, 'b) deps \<Rightarrow> ('k, 'v, 'm, 'b) sharded_map \<Rightarrow>
   ('k, 'v, 'm, 'b) sharded_map option" where
  "async_clear D m = do {
     let m0 = begin_op m;
     let removed = drained_items D (shards m0) @ drained_items D (prev_slots m0);
     (_, m2) \<leftarrow> async_enforce D (drain_commit D removed m0);
     Some m2
   }"

definition async_drain :: "('k, 'v, 'm, 'b) deps \<Rightarrow> ('k, 'v, 'm, 'b) sharded_map \<Rightarrow>
   (('k, 'v) drain_iterator \<times> ('k, 'v, 'm, 'b) sharded_map) option" where
  "async_drain D m = do {
     let m0 = begin_op m;
     let removed = drained_items D (prev_slots m0) @ drained_items D (shards m0);
     (_, m2) \<leftarrow> async_enforce D (drain_commit D removed m0);
     Some (\<lparr>drain_items = removed, drain_index = 0\<rparr>, m2)
   }"

section \<open>Transactions\<close>

text \<open>
  One operation on its locked shard. \<open>Inl\<close> is the early return \<open>Aborted\<close> for an index that was not locked.
\<close>

definition async_txn_step ::
  "('k, 'v, 'm, 'b) deps \<Rightarrow> nat list \<Rightarrow> ('k, 'v) txn_op \<Rightarrow> ('k, 'v, 'm, 'b) sharded_map \<Rightarrow>
   (('k, 'v, 'm, 'b) sharded_map + ('k, 'v, 'm, 'b) sharded_map) option" where
  "async_txn_step D active_indices txo m = do {
     index \<leftarrow> shard_index D m (txn_key txo);
     if index \<notin> set active_indices then Some (Inl m)
     else do {
       slot \<leftarrow> index_checked (shards m) index;
       guard \<leftarrow> slot;
       let (active, m1) = async_promote D m (txn_key txo) guard;
       Some (Inr (case txo of
         Read key \<Rightarrow>
           unlock index active
             (m1\<lparr>lifecycle := record_read D key (hb_get (shard_ops D) (as_map active) key \<noteq> None) (lifecycle m1)\<rparr>)
       | Write key val \<Rightarrow>
           (let (_, mu, l) = tracked_insert D (shard_mutation_new (shard_ops D) (as_map active)) key val (lifecycle m1)
            in commit D index active mu l m1)
       | Remove key \<Rightarrow>
           if snapshot_mode m1 = Cow \<and> hb_get (shard_ops D) (as_map active) key = None
           then unlock index active m1
           else (let (_, mu, l) = tracked_remove D (shard_mutation_new (shard_ops D) (as_map active)) key (lifecycle m1)
                 in commit D index active mu l m1)))
     }
   }"

fun async_txn_ops ::
  "('k, 'v, 'm, 'b) deps \<Rightarrow> nat list \<Rightarrow> ('k, 'v) txn_op list \<Rightarrow> ('k, 'v, 'm, 'b) sharded_map \<Rightarrow>
   (('k, 'v, 'm, 'b) sharded_map + ('k, 'v, 'm, 'b) sharded_map) option" where
  "async_txn_ops D ixs [] m = Some (Inr m)"
| "async_txn_ops D ixs (x # xs) m = do {
     r \<leftarrow> async_txn_step D ixs x m;
     case r of Inl m' \<Rightarrow> Some (Inl m') | Inr m' \<Rightarrow> async_txn_ops D ixs xs m'
   }"

definition async_execute_transaction ::
  "('k, 'v, 'm, 'b) deps \<Rightarrow> ('k, 'v) transaction \<Rightarrow> ('k, 'v, 'm, 'b) sharded_map \<Rightarrow>
   (unit transaction_result \<times> ('k, 'v, 'm, 'b) sharded_map) option" where
  "async_execute_transaction D txn m = do {
     let m0 = begin_op m;
     ixs \<leftarrow> indexed D m0 txn_key (ops txn);
     let active_indices = remdups_adj (sort (map fst ixs));
     m1 \<leftarrow> fold_option (\<lambda>i m'. map_option snd (get_or_init_shard D m' i)) active_indices m0;
     r \<leftarrow> async_txn_ops D active_indices (ops txn) m1;
     case r of
       Inl m2 \<Rightarrow> Some (Aborted, m2\<lparr>lifecycle := ticket_drop False (lifecycle m2)\<rparr>)
     | Inr m2 \<Rightarrow> do {
         (_, m3) \<leftarrow> async_enforce D m2;
         Some (Committed (), m3)
       }
   }"

section \<open>Snapshots\<close>

definition async_capture_view_data :: "('k, 'v, 'm, 'b) sharded_map \<Rightarrow> 'm list \<times> u64 \<times> nat" where
  "async_capture_view_data m =
     (let guards = List.map_filter id (shards m)
            @ (case previous_shards m of None \<Rightarrow> [] | Some ps \<Rightarrow> List.map_filter id ps)
      in (map shard_snapshot guards, write_epoch m, length (shards m)))"

definition async_snapshot_view :: "('k, 'v, 'm, 'b) deps \<Rightarrow> ('k, 'v, 'm, 'b) sharded_map \<Rightarrow> 'm snapshot_view" where
  "async_snapshot_view D m =
     (let (sds, ep, slot_count) = async_capture_view_data m in snapshot_view_new D sds ep slot_count)"

definition async_collect_into ::
  "('k, 'v, 'm, 'b) deps \<Rightarrow> ('k \<times> 'v \<Rightarrow> 't) \<Rightarrow> ('k, 'v, 'm, 'b) sharded_map \<Rightarrow> 't list \<times> u64" where
  "async_collect_into D project m =
     (let guards = List.map_filter id (shards m)
            @ (case previous_shards m of None \<Rightarrow> [] | Some ps \<Rightarrow> List.map_filter id ps)
      in (concat (map (\<lambda>g. map project (hb_iter (shard_ops D) (as_map g))) guards), write_epoch m))"

definition async_collect_with ::
  "('k, 'v, 'm, 'b) deps \<Rightarrow> ('k \<times> 'v \<Rightarrow> 't) \<Rightarrow> ('k, 'v, 'm, 'b) sharded_map \<Rightarrow> 't list" where
  "async_collect_with D project m =
     (if snapshot_mode m = Cow then map project (sv_iter D (async_snapshot_view D m))
      else fst (async_collect_into D project m))"

text \<open>The miss path of \<open>capture_snapshot\<close>, under the builder lock.\<close>

definition async_build_snapshot ::
  "('k, 'v, 'm, 'b) deps \<Rightarrow> ('k, 'v, 'm, 'b) sharded_map \<Rightarrow>
   (u64 \<times> ('k \<times> 'v) list) \<times> ('k, 'v, 'm, 'b) sharded_map" where
  "async_build_snapshot D m =
     (let (output, ep) =
            (if snapshot_mode m = Cow
             then (let (sds, ep, _) = async_capture_view_data m in (concat (map (hb_iter (shard_ops D)) sds), ep))
             else async_collect_into D id m)
      in ((ep, output), if cache_enabled m then m\<lparr>snapshot_cache := Some (ep, output)\<rparr> else m))"

definition async_capture_snapshot ::
  "('k, 'v, 'm, 'b) deps \<Rightarrow> ('k, 'v, 'm, 'b) sharded_map \<Rightarrow>
   (u64 \<times> ('k \<times> 'v) list) \<times> ('k, 'v, 'm, 'b) sharded_map" where
  "async_capture_snapshot D m =
     (case (if cache_enabled m then snapshot_cache m else None) of
        Some (cached_epoch, data) \<Rightarrow>
          if cached_epoch = write_epoch m then ((write_epoch m, data), m) else async_build_snapshot D m
      | None \<Rightarrow> async_build_snapshot D m)"

definition async_shared_snapshot ::
  "('k, 'v, 'm, 'b) deps \<Rightarrow> ('k, 'v, 'm, 'b) sharded_map \<Rightarrow> ('k \<times> 'v) list \<times> ('k, 'v, 'm, 'b) sharded_map" where
  "async_shared_snapshot D m = (let ((_, data), m') = async_capture_snapshot D m in (data, m'))"

definition async_iter ::
  "('k, 'v, 'm, 'b) deps \<Rightarrow> ('k, 'v, 'm, 'b) sharded_map \<Rightarrow> ('k \<times> 'v) list \<times> ('k, 'v, 'm, 'b) sharded_map" where
  "async_iter D m = (if cache_enabled m then async_shared_snapshot D m else (async_collect_with D id m, m))"

definition async_keys :: "('k, 'v, 'm, 'b) deps \<Rightarrow> ('k, 'v, 'm, 'b) sharded_map \<Rightarrow> 'k list" where
  "async_keys D m = async_collect_with D fst m"

definition async_values :: "('k, 'v, 'm, 'b) deps \<Rightarrow> ('k, 'v, 'm, 'b) sharded_map \<Rightarrow> 'v list" where
  "async_values D m = async_collect_with D snd m"

definition async_cow_snapshot ::
  "('k, 'v, 'm, 'b) deps \<Rightarrow> ('k, 'v, 'm, 'b) sharded_map \<Rightarrow> ('k, 'v) cow_snapshot \<times> ('k, 'v, 'm, 'b) sharded_map" where
  "async_cow_snapshot D m = (let ((ep, data), m') = async_capture_snapshot D m in (cow_from_arc data ep, m'))"

definition async_versioned_snapshot ::
  "('k, 'v, 'm, 'b) deps \<Rightarrow> ('k, 'v, 'm, 'b) sharded_map \<Rightarrow> ('k, 'v) isolated_snapshot \<times> ('k, 'v, 'm, 'b) sharded_map" where
  "async_versioned_snapshot D m =
     (let ((version, data), m') = async_capture_snapshot D m in (isolated_from_arc (now D) version data, m'))"

definition async_snapshot_at_version ::
  "('k, 'v, 'm, 'b) deps \<Rightarrow> u64 \<Rightarrow> ('k, 'v, 'm, 'b) sharded_map \<Rightarrow>
   ('k, 'v) isolated_snapshot option \<times> ('k, 'v, 'm, 'b) sharded_map" where
  "async_snapshot_at_version D version m =
     (if write_epoch m \<noteq> version then (None, m)
      else
        (let ((ep, data), m') = async_capture_snapshot D m
         in (if ep = version then Some (isolated_from_arc (now D) ep data) else None, m')))"

section \<open>Statistics\<close>

definition async_shard_stats :: "('k, 'v, 'm, 'b) deps \<Rightarrow> ('k, 'v, 'm, 'b) sharded_map \<Rightarrow> shard_stats" where
  "async_shard_stats D m =
     (let (initialized, loads) = fold (\<lambda>slot (n, ls). case slot of None \<Rightarrow> (n, ls)
             | Some sd \<Rightarrow> (n + 1, ls @ [hb_len (shard_ops D) (as_map sd)])) (shards m) (0, [])
      in \<lparr>st_initialized = initialized, st_total = length (shards m),
          st_empty = length (filter (\<lambda>n. n = 0) loads),
          st_avg_load = (if initialized > 0 then real (sum_list loads) / real initialized else 0),
          st_max_load = fold max loads 0\<rparr>)"

definition async_per_shard_load :: "('k, 'v, 'm, 'b) deps \<Rightarrow> ('k, 'v, 'm, 'b) sharded_map \<Rightarrow> per_shard_load list" where
  "async_per_shard_load D m =
     fold (\<lambda>(i, slot) stats. case slot of None \<Rightarrow> stats
       | Some sd \<Rightarrow> stats @ [\<lparr>load_shard_idx = i, load_entry_count = hb_len (shard_ops D) (as_map sd),
                                load_capacity = hb_capacity (shard_ops D) (as_map sd)\<rparr>]) (enumerate 0 (shards m)) []"

definition async_memory_stats :: "('k, 'v, 'm, 'b) deps \<Rightarrow> ('k, 'v, 'm, 'b) sharded_map \<Rightarrow> memory_stats" where
  "async_memory_stats D m =
     (let sds = List.map_filter id (shards m)
            @ (case previous_shards m of None \<Rightarrow> [] | Some ps \<Rightarrow> List.map_filter id ps);
          (cap, n) = fold (\<lambda>sd (c, e). (c + hb_capacity (shard_ops D) (as_map sd), e + hb_len (shard_ops D) (as_map sd))) sds (0, 0)
      in \<lparr>shards_allocated = length sds, total_capacity = cap,
          load_factor = (if cap > 0 then real n / real cap else 0)\<rparr>)"

section \<open>Entries\<close>

definition async_entry ::
  "('k, 'v, 'm, 'b) deps \<Rightarrow> 'k \<Rightarrow> ('k, 'v, 'm, 'b) sharded_map \<Rightarrow> ('k entry_handle \<times> ('k, 'v, 'm, 'b) sharded_map) option" where
  "async_entry D key m = do {
     (found, m1) \<leftarrow> async_contains D key m;
     Some (if found then Occupied key else Vacant key, m1)
   }"

definition async_or_insert_with ::
  "('k, 'v, 'm, 'b) deps \<Rightarrow> 'k entry_handle \<Rightarrow> (unit \<Rightarrow> 'v) \<Rightarrow> ('k, 'v, 'm, 'b) sharded_map \<Rightarrow>
   ('v \<times> ('k, 'v, 'm, 'b) sharded_map) option" where
  "async_or_insert_with D e f m = async_get_or_insert_with D (handle_key e) f m"

definition async_or_insert ::
  "('k, 'v, 'm, 'b) deps \<Rightarrow> 'k entry_handle \<Rightarrow> 'v \<Rightarrow> ('k, 'v, 'm, 'b) sharded_map \<Rightarrow>
   ('v \<times> ('k, 'v, 'm, 'b) sharded_map) option" where
  "async_or_insert D e dflt m = async_or_insert_with D e (\<lambda>_. dflt) m"

definition async_and_modify ::
  "('k, 'v, 'm, 'b) deps \<Rightarrow> 'k entry_handle \<Rightarrow> ('v \<Rightarrow> 'v) \<Rightarrow> ('k, 'v, 'm, 'b) sharded_map \<Rightarrow>
   ('k entry_handle \<times> ('k, 'v, 'm, 'b) sharded_map) option" where
  "async_and_modify D e f m = do {
     (result, m1) \<leftarrow> async_compute_if_present D (handle_key e) (\<lambda>old. Some (f old)) m;
     Some (if result \<noteq> None then Occupied (handle_key e) else Vacant (handle_key e), m1)
   }"

definition async_entry_insert ::
  "('k, 'v, 'm, 'b) deps \<Rightarrow> 'k entry_handle \<Rightarrow> 'v \<Rightarrow> ('k, 'v, 'm, 'b) sharded_map \<Rightarrow>
   ('v option \<times> ('k, 'v, 'm, 'b) sharded_map) option" where
  "async_entry_insert D e val m = async_insert D (handle_key e) val m"

definition async_entry_remove ::
  "('k, 'v, 'm, 'b) deps \<Rightarrow> 'k entry_handle \<Rightarrow> ('k, 'v, 'm, 'b) sharded_map \<Rightarrow>
   ('v option \<times> ('k, 'v, 'm, 'b) sharded_map) option" where
  "async_entry_remove D e m = async_remove D (handle_key e) m"

definition async_occupied_remove_entry ::
  "('k, 'v, 'm, 'b) deps \<Rightarrow> 'k \<Rightarrow> ('k, 'v, 'm, 'b) sharded_map \<Rightarrow>
   (('k \<times> 'v) option \<times> ('k, 'v, 'm, 'b) sharded_map) option" where
  "async_occupied_remove_entry D key m = do {
     (val, m1) \<leftarrow> async_remove D key m;
     Some (map_option (Pair key) val, m1)
   }"

definition async_vacant_insert ::
  "('k, 'v, 'm, 'b) deps \<Rightarrow> 'k \<Rightarrow> 'v \<Rightarrow> ('k, 'v, 'm, 'b) sharded_map \<Rightarrow> ('v \<times> ('k, 'v, 'm, 'b) sharded_map) option" where
  "async_vacant_insert D key val m = async_get_or_insert_with D key (\<lambda>_. val) m"

end
