(* ===== verification/Async_Correct.thy ===== *)
theory Async_Correct
  imports Async_Map
begin

text \<open>
  Correctness of the key operations, the closures and the batches of \<open>AsyncShardedHashMap\<close> against the
  finite map \<open>view\<close>. On a well-formed map the shard access of the asynchronous code is the one of the
  synchronous map, so the facts about a locked key carry over; what is proved anew is the ticket around
  the operation, the order of its steps and the asynchronous maintenance pass at its end.
\<close>

section \<open>Shard access\<close>

lemma begin_op_simps [simp]:
  "view D (begin_op m) = view D m" "wf_map D (begin_op m) = wf_map D m" "wf_dirs D (begin_op m) = wf_dirs D m"
  "life_opts (lifecycle (begin_op m)) = life_opts (lifecycle m)" "write_epoch (begin_op m) = write_epoch m"
  "op_post D (begin_op m) V m' = op_post D m V m'" "shards (begin_op m) = shards m" "prev_slots (begin_op m) = prev_slots m"
  "snapshot_cache (begin_op m) = snapshot_cache m" "rebalance_tracker (begin_op m) = rebalance_tracker m"
  "snapshot_mode (begin_op m) = snapshot_mode m" "shard_count (begin_op m) = shard_count m"
  by (simp_all add: begin_op_def op_post_def)

lemma async_previous_shard_wf:
  assumes "wf_dirs D m"
  shows "previous_shard D m k = Some (async_previous_shard D m k)"
proof (cases "previous_shards m")
  case None
  then show ?thesis using assms by (simp add: previous_shard_def async_previous_shard_def Let_def)
next
  case (Some ps)
  then have "previous_shard_count m = length ps" using assms by (simp add: wf_dirs_def prev_slots_def)
  then show ?thesis using Some by (simp add: previous_shard_def async_previous_shard_def Let_def)
qed

lemma async_promote_wf:
  "wf_dirs D m \<Longrightarrow> promote_previous D m k active = Some (async_promote D m k active)"
  by (auto simp: promote_previous_def async_promote_def async_previous_shard_wf Let_def split_beta split: option.splits)

lemma migrating_wf: "wf_dirs D m \<Longrightarrow> is_migrating (rebalance_tracker m) \<longleftrightarrow> prev_slots m \<noteq> []"
  using migration_okD[of "rebalance_tracker m" "previous_shards m"]
  by (auto simp: is_migrating_def wf_dirs_def prev_slots_def split: option.splits)

context starshard_deps
begin

lemma async_lock_key_wf:
  assumes "wf_dirs D m"
  shows "async_lock_key D m k = lock_key D m k"
proof -
  let ?i = "route D (length (shards m)) k"
  have i: "?i < length (shards m)" using route_less[OF wf_dirsD(1)[OF assms]] .
  note w1 = get_or_init_wf(1)[OF assms i]
  show ?thesis
    by (simp add: async_lock_key_def lock_key_def shard_index_wf[OF assms] get_or_init_eq[OF i] async_promote_wf[OF w1] split_beta)
qed

lemma async_locked:
  assumes "wf_map D m"
  shows "\<exists>i a m2. async_lock_key D m k = Some (i, a, m2) \<and> locked D m k i a m2"
  using locked_key[OF assms] async_lock_key_wf assms by (simp add: wf_map_def)

lemma async_read_key_eq:
  assumes "wf_dirs D m"
  shows "async_read_key D k f m = Some (f (view D m k), tracked_read D k (view D m k) m)"
proof -
  let ?i = "route D (length (shards m)) k"
  have i: "?i < length (shards m)" using route_less[OF wf_dirsD(1)[OF assms]] .
  have a: "slots_get D (shards m) k = slot_get D (shards m ! ?i) k" by (rule slots_get_at[OF i refl])
  have "async_previous_shard D m k = (if prev_slots m = [] then None
          else map_option (Pair (route D (length (prev_slots m)) k)) (prev_slots m ! route D (length (prev_slots m)) k))"
    using async_previous_shard_wf[OF assms, of k] previous_shard_wf[OF assms, of k] by simp
  then have p: "(case async_previous_shard D m k of None \<Rightarrow> None | Some (_, p) \<Rightarrow> hb_get (shard_ops D) (as_map p) k) =
      slots_get D (prev_slots m) k"
    by (auto simp: slots_get_def slot_get_def split: option.splits)
  show ?thesis
    using i a
    by (cases "shards m ! ?i") (simp_all add: async_read_key_def shard_index_wf[OF assms] p Let_def tracked_read_def view_def map_add_def
        split: option.splits)
qed

section \<open>Single keys\<close>

lemma async_insert_inner_spec:
  assumes wf: "wf_map D m"
  shows "\<exists>m'. async_insert_inner D k v m = Some (view D m k, m') \<and>
    committed D m ((view D m)(k \<mapsto> v)) (write_epoch m + 1) (insert_hook D k v (view D m k \<noteq> None) (lifecycle m)) m'"
proof -
  have "async_insert_inner D k v m = insert_inner D k v m"
    using wf by (simp add: async_insert_inner_def insert_inner_def async_lock_key_wf wf_map_def)
  then show ?thesis using insert_inner_spec[OF wf] by simp
qed

lemma async_remove_inner_hook:
  assumes wf: "wf_map D m"
  shows "\<exists>m' l. async_remove_inner D k m = Some (view D m k, m') \<and>
    committed D m ((view D m)(k := None)) (if view D m k = None then write_epoch m else write_epoch m + 1) l m' \<and>
    (l = remove_hook D k (view D m k \<noteq> None) (lifecycle m) \<or> view D m k = None \<and> l = lifecycle m)"
proof -
  obtain i a m2 where L: "async_lock_key D m k = Some (i, a, m2)" "locked D m k i a m2" using async_locked[OF wf] by blast
  note d = lockedD[OF L(2)] and m2 = locked_same[OF L(2)]
  show ?thesis
  proof (cases "snapshot_mode m = Cow \<and> view D m k = None")
    case True
    then show ?thesis using L(1) d(1,3) d(4)[of "lifecycle m"]
      by (intro exI[of _ "unlock i a m2"] exI[of _ "lifecycle m"]) (auto simp: async_remove_inner_def fun_upd_idem m2)
  next
    case False
    let ?l = "remove_hook D k (view D m k \<noteq> None) (lifecycle m)"
    obtain mu where mu: "tracked_remove D (shard_mutation_new (shard_ops D) (as_map a)) k (lifecycle m) = (view D m k, mu, ?l)"
      "\<forall>l' l''. committed D m ((view D m)(k := None)) (if view D m k = None then write_epoch m else write_epoch m + 1)
        l' (commit D i a mu l' (m2\<lparr>lifecycle := l''\<rparr>))"
      using locked_remove[OF L(2)] by blast
    have "async_remove_inner D k m = Some (view D m k, commit D i a mu ?l m2)"
      using False L(1) d(1-3) mu(1) by (auto simp: async_remove_inner_def Let_def)
    then show ?thesis using mu(2)[rule_format, of ?l "lifecycle m"] unfolding m2 by auto
  qed
qed

lemma async_remove_inner_spec:
  assumes "wf_map D m"
  shows "\<exists>m' l. async_remove_inner D k m = Some (view D m k, m') \<and>
    committed D m ((view D m)(k := None)) (if view D m k = None then write_epoch m else write_epoch m + 1) l m' \<and>
    life_opts l = life_opts (lifecycle m)"
  using async_remove_inner_hook[OF assms] by (metis life_opts_hooks(2))

lemma async_insert_post:
  assumes "wf_map D m"
  shows "\<exists>m'. async_insert D k v m = Some (view D m k, m') \<and> op_post D m ((view D m)(k \<mapsto> v)) m'"
proof -
  have w: "wf_map D (begin_op m)" using assms by simp
  obtain m1 where "async_insert_inner D k v (begin_op m) = Some (view D m k, m1)"
    and c: "committed D (begin_op m) ((view D m)(k \<mapsto> v)) (write_epoch m + 1)
      (insert_hook D k v (view D m k \<noteq> None) (lifecycle (begin_op m))) m1"
    using async_insert_inner_spec[OF w, of k v] by auto
  then show ?thesis using async_enforce_committed[OF c] by (auto simp: async_insert_def)
qed

lemma async_remove_post:
  assumes "wf_map D m"
  shows "\<exists>m'. async_remove D k m = Some (view D m k, m') \<and> op_post D m ((view D m)(k := None)) m'"
proof -
  have w: "wf_map D (begin_op m)" using assms by simp
  obtain m1 l ep where r: "async_remove_inner D k (begin_op m) = Some (view D m k, m1)"
    and c: "committed D (begin_op m) ((view D m)(k := None)) ep l m1" "life_opts l = life_opts (lifecycle (begin_op m))"
    using async_remove_inner_spec[OF w, of k] by auto
  then show ?thesis using async_enforce_committed[OF c] by (auto simp: async_remove_def)
qed

lemma async_read_post:
  assumes "wf_map D m"
  shows "\<exists>m'. async_read_key D k f m = Some (f (view D m k), m') \<and> op_post D m (view D m) m' \<and>
    view D m' = view D m \<and> write_epoch m' = write_epoch m"
  using async_read_key_eq[OF wf_map_dirs[OF assms], of k f] assms op_post_refl[OF assms] by simp

section \<open>Closures under the shard lock\<close>

lemma locked_insert_async:
  assumes "locked D m k i a m2" "life_opts l = life_opts (lifecycle m)"
  shows "\<exists>mu l' n m'. tracked_insert D (shard_mutation_new (shard_ops D) (as_map a)) k v l = (view D m k, mu, l') \<and>
    async_enforce D (commit D i a mu l' (m2\<lparr>lifecycle := x\<rparr>)) = Some (n, m') \<and> op_post D m ((view D m)(k \<mapsto> v)) m'"
  using locked_insert[OF assms(1), of v l] assms(2) async_enforce_committed by (metis life_opts_hooks(1))

lemma locked_remove_async:
  assumes "locked D m k i a m2" "life_opts l = life_opts (lifecycle m)"
  shows "\<exists>mu l' n m'. tracked_remove D (shard_mutation_new (shard_ops D) (as_map a)) k l = (view D m k, mu, l') \<and>
    async_enforce D (commit D i a mu l' (m2\<lparr>lifecycle := x\<rparr>)) = Some (n, m') \<and> op_post D m ((view D m)(k := None)) m'"
  using locked_remove[OF assms(1), of l] assms(2) async_enforce_committed by (metis life_opts_hooks(2))

lemma locked_miss_async:
  assumes "locked D m k i a m2" "life_opts l = life_opts (lifecycle m)"
  shows "\<exists>n m'. async_enforce D (unlock i a (m2\<lparr>lifecycle := l\<rparr>)) = Some (n, m') \<and> op_post D m (view D m) m'"
  using async_enforce_committed[OF lockedD(4)[OF assms(1)] assms(2)] .

lemma compute_if_absent_eq: "compute_if_absent D k f m = async_get_or_insert_with D k f m"
  by (simp add: compute_if_absent_def async_get_or_insert_with_def)

lemma async_get_or_insert_post:
  assumes "wf_map D m"
  shows "\<exists>m'. async_get_or_insert_with D k f m = Some (case view D m k of Some v \<Rightarrow> v | None \<Rightarrow> f (), m') \<and>
    op_post D m ((view D m)(k \<mapsto> (case view D m k of Some v \<Rightarrow> v | None \<Rightarrow> f ()))) m'"
proof -
  have w: "wf_map D (begin_op m)" using assms by simp
  obtain i a m2 where L: "async_lock_key D (begin_op m) k = Some (i, a, m2)" "locked D (begin_op m) k i a m2"
    using async_locked[OF w] by blast
  note d = lockedD[OF L(2)]
  let ?l = "record_read D k (view D m k \<noteq> None) (lifecycle (begin_op m))"
  show ?thesis
  proof (cases "view D m k")
    case (Some v)
    then show ?thesis using L(1) d(1,2) locked_miss_async[OF L(2), of ?l]
      by (auto simp: async_get_or_insert_with_def get_or_insert_with_inner_def fun_upd_idem)
  next
    case None
    then show ?thesis
      using L(1) d(1,2) locked_insert_async[OF L(2), of ?l "f ()" ?l]
      by (auto simp: async_get_or_insert_with_def get_or_insert_with_inner_def Let_def)
  qed
qed

lemma async_compute_post:
  assumes "wf_map D m"
  shows "\<exists>m'. async_compute_if_present D k f m = Some (Option.bind (view D m k) f, m') \<and>
    op_post D m ((view D m)(k := Option.bind (view D m k) f)) m'"
proof -
  have w: "wf_map D (begin_op m)" using assms by simp
  obtain i a m2 where L: "async_lock_key D (begin_op m) k = Some (i, a, m2)" "locked D (begin_op m) k i a m2"
    using async_locked[OF w] by blast
  note d = lockedD[OF L(2)]
  let ?l = "record_read D k (view D m k \<noteq> None) (lifecycle (begin_op m))"
  show ?thesis
  proof (cases "view D m k")
    case None
    then show ?thesis using L(1) d(1,2) locked_miss_async[OF L(2), of ?l]
      by (auto simp: async_compute_if_present_def compute_if_present_inner_def fun_upd_idem)
  next
    case (Some v)
    then show ?thesis
      using L(1) d(1,2) locked_insert_async[OF L(2), of ?l "the (f v)" ?l] locked_remove_async[OF L(2), of ?l ?l]
      by (cases "f v") (auto simp: async_compute_if_present_def compute_if_present_inner_def Let_def)
  qed
qed

lemma async_cas_post:
  assumes "wf_map D m"
  shows "\<exists>m'. async_compare_and_swap D k expected new m =
      Some (case view D m k of None \<Rightarrow> Failure new | Some v \<Rightarrow> if v = expected then Success new else Failure v, m') \<and>
    op_post D m (if view D m k = Some expected then (view D m)(k \<mapsto> new) else view D m) m'"
proof -
  have w: "wf_map D (begin_op m)" using assms by simp
  obtain i a m2 where L: "async_lock_key D (begin_op m) k = Some (i, a, m2)" "locked D (begin_op m) k i a m2"
    using async_locked[OF w] by blast
  note d = lockedD[OF L(2)]
  let ?l = "record_read D k (view D m k \<noteq> None) (lifecycle (begin_op m))"
  have ins: "\<exists>mu l' n m'. tracked_insert D (shard_mutation_new (shard_ops D) (as_map a)) k new ?l = (view D m k, mu, l') \<and>
    async_enforce D (commit D i a mu l' (m2\<lparr>lifecycle := ?l\<rparr>)) = Some (n, m') \<and> op_post D m ((view D m)(k \<mapsto> new)) m'"
    using locked_insert_async[OF L(2), of ?l new ?l] by simp
  have miss: "\<exists>n m'. async_enforce D (unlock i a (m2\<lparr>lifecycle := ?l\<rparr>)) = Some (n, m') \<and> op_post D m (view D m) m'"
    using locked_miss_async[OF L(2), of ?l] by simp
  show ?thesis
    using L(1) d(1,2) ins miss
    by (cases "view D m k") (fastforce simp: async_compare_and_swap_def Let_def)+
qed

lemma async_compare_and_remove_post:
  assumes "wf_map D m"
  shows "\<exists>m'. async_compare_and_remove D k expected m = Some (view D m k = Some expected, m') \<and>
    op_post D m (if view D m k = Some expected then (view D m)(k := None) else view D m) m'"
proof -
  have w: "wf_map D (begin_op m)" using assms by simp
  obtain i a m2 where L: "async_lock_key D (begin_op m) k = Some (i, a, m2)" "locked D (begin_op m) k i a m2"
    using async_locked[OF w] by blast
  note d = lockedD[OF L(2)]
  let ?l = "record_read D k (view D m k \<noteq> None) (lifecycle (begin_op m))"
  have rem: "\<exists>mu l' n m'. tracked_remove D (shard_mutation_new (shard_ops D) (as_map a)) k ?l = (view D m k, mu, l') \<and>
    async_enforce D (commit D i a mu l' (m2\<lparr>lifecycle := ?l\<rparr>)) = Some (n, m') \<and> op_post D m ((view D m)(k := None)) m'"
    using locked_remove_async[OF L(2), of ?l ?l] by simp
  have miss: "\<exists>n m'. async_enforce D (unlock i a (m2\<lparr>lifecycle := ?l\<rparr>)) = Some (n, m') \<and> op_post D m (view D m) m'"
    using locked_miss_async[OF L(2), of ?l] by simp
  show ?thesis
    using L(1) d(1,2) rem miss
    by (cases "view D m k = Some expected") (fastforce simp: async_compare_and_remove_def Let_def)+
qed

section \<open>Batches\<close>

lemma async_insert_step_ok:
  assumes "wf_map D m1"
  shows "\<exists>m2. async_insert_step D (k, v) (n, m1) = Some (if view D m1 k = None then n + 1 else n, m2) \<and>
    op_post D m1 (view D m2) m2 \<and> view D m2 = (view D m1)(k \<mapsto> v)"
proof -
  obtain m2 where "async_insert_inner D k v m1 = Some (view D m1 k, m2)"
    and c: "committed D m1 ((view D m1)(k \<mapsto> v)) (write_epoch m1 + 1) (insert_hook D k v (view D m1 k \<noteq> None) (lifecycle m1)) m2"
    using async_insert_inner_spec[OF assms] by blast
  then show ?thesis using op_post_committed[OF c] by (simp add: async_insert_step_def committed_def)
qed

lemma async_remove_step_ok:
  assumes "wf_map D m1"
  shows "\<exists>m2. async_remove_step D k (n, m1) = Some (if view D m1 k \<noteq> None then n + 1 else n, m2) \<and>
    op_post D m1 (view D m2) m2 \<and> view D m2 = (view D m1)(k := None)"
proof -
  obtain m2 l ep where "async_remove_inner D k m1 = Some (view D m1 k, m2)"
    and c: "committed D m1 ((view D m1)(k := None)) ep l m2" "life_opts l = life_opts (lifecycle m1)"
    using async_remove_inner_spec[OF assms] by blast
  then show ?thesis using op_post_committed[OF c] by (simp add: async_remove_step_def committed_def)
qed

lemma async_get_step_ok:
  "wf_dirs D m1 \<Longrightarrow> async_get_step D (p, k) (res, m1) = Some (res[p := view D m1 k], tracked_read D k (view D m1 k) m1)"
  by (simp add: async_get_step_def async_read_key_eq)

lemma async_batch_insert_post:
  assumes wf: "wf_map D m"
  shows "\<exists>m'. async_batch_insert D es m = Some (card (fst ` set es - dom (view D m)), m') \<and>
    op_post D m (view D m ++ map_of (rev es)) m'"
proof -
  have wd: "wf_dirs D (begin_op m)" and w: "wf_map D (begin_op m)" using wf by (simp_all add: wf_map_dirs)
  have "\<exists>m1. (if is_migrating (rebalance_tracker (begin_op m)) then fold_option (async_insert_step D) es (0, begin_op m)
        else do { ixs \<leftarrow> indexed D (begin_op m) fst es;
                  fold_option (insert_bucket D) (bucketize (bucket_order D) fst ixs) (0, begin_op m) }) =
      Some (card (fst ` set es - dom (view D m)), m1) \<and>
    op_post D m (view D m ++ map_of (rev es)) m1 \<and> view D m1 = view D m ++ map_of (rev es)"
    using insert_steps[OF w async_insert_step_ok, of es] insert_buckets_spec[OF w, of es] migrating_wf[OF wd]
    by (simp add: indexed_wf[OF wd])
  then show ?thesis using async_enforce_post unfolding async_batch_insert_def Let_def by fastforce
qed

lemma async_batch_remove_post:
  assumes wf: "wf_map D m"
  shows "\<exists>m'. async_batch_remove D ks m = Some (card (set ks \<inter> dom (view D m)), m') \<and> op_post D m (view D m |` (- set ks)) m'"
proof -
  have wd: "wf_dirs D (begin_op m)" and w: "wf_map D (begin_op m)" using wf by (simp_all add: wf_map_dirs)
  have "\<exists>m1. (if is_migrating (rebalance_tracker (begin_op m)) then fold_option (async_remove_step D) ks (0, begin_op m)
        else do { ixs \<leftarrow> indexed D (begin_op m) id ks;
                  fold_option (remove_bucket D) (bucketize (bucket_order D) fst ixs) (0, begin_op m) }) =
      Some (card (set ks \<inter> dom (view D m)), m1) \<and>
    op_post D m (view D m |` (- set ks)) m1 \<and> view D m1 = view D m |` (- set ks)"
    using remove_steps[OF w async_remove_step_ok, of ks] remove_buckets_spec[OF w, of ks] migrating_wf[OF wd]
    by (simp add: indexed_wf[OF wd])
  then show ?thesis using async_enforce_post unfolding async_batch_remove_def Let_def by fastforce
qed

lemma async_batch_get_post:
  assumes wf: "wf_map D m"
  shows "\<exists>m'. async_batch_get D ks m = Some (map (view D m) ks, m') \<and> op_post D m (view D m) m' \<and>
    view D m' = view D m \<and> write_epoch m' = write_epoch m"
proof -
  have wd: "wf_dirs D m" using wf by (simp add: wf_map_def)
  have "\<exists>m'. async_batch_get D ks m = Some (map (view D m) ks, m') \<and> read_only m m'"
    using get_steps[OF wf async_get_step_ok, of ks] get_buckets_spec[OF wf, of ks] migrating_wf[OF wd]
    by (cases "prev_slots m = []") (simp_all add: async_batch_get_def indexed_wf[OF wd] Let_def)
  then show ?thesis using wf by (auto simp: read_only_def op_post_def)
qed

end

end
