(* ===== verification/Async_Whole.thy ===== *)
theory Async_Whole
  imports Async_Correct
begin

text \<open>
  Correctness of \<open>retain\<close>, \<open>clear\<close>, \<open>drain\<close>, transactions, snapshots and iteration of
  \<open>AsyncShardedHashMap\<close>. The asynchronous \<open>clear\<close> and \<open>drain\<close> hold every guard of both generations at
  once and publish the length and one write epoch for all of it, where the synchronous ones go shard by
  shard.
\<close>

section \<open>Emptying a map\<close>

context starshard_deps
begin

lemma drained_items_eq: "drained_items D slots = slots_entries D slots"
  by (simp add: drained_items_def slots_entries_def H.drain_out)

lemma drained_slot_facts:
  "slot_get D (drained_slot D slot) k = None" "slot_len D (drained_slot D slot) = 0"
  by (cases slot; simp add: drained_slot_def H.get_drain H.len_drain)+

lemma drained_slots_get: "slots_get D (map (drained_slot D) slots) k = None"
  using route_less[of slots D k] by (cases "slots = []") (simp_all add: slots_get_def drained_slot_facts)

lemma drained_slots_ok:
  assumes ok: "slots_ok D mode slots"
  shows "slots_ok D mode (map (drained_slot D) slots)"
proof -
  have "shard_ok D mode (length slots) i sd" if i: "i < length slots" and sd: "drained_slot D (slots ! i) = Some sd" for i sd
  proof -
    obtain z where z: "slots ! i = Some z" "sd = deref_mut_set z (snd (hb_drain (shard_ops D) (as_map z)))"
      using sd by (auto simp: drained_slot_def)
    then show ?thesis using slots_okD[OF ok i z(1)] by (simp add: shard_ok_def H.get_drain)
  qed
  then show ?thesis by (simp add: slots_ok_def)
qed

lemma drain_commit_spec:
  fixes removed :: "('k \<times> 'v) list"
  assumes wf: "wf_map D m"
  defines "m' \<equiv> drain_commit D removed m"
  shows "op_post D m Map.empty m'" "view D m' = Map.empty" "previous_shards m' = None"
    "\<not> migrating (rebalance_tracker m')" "write_epoch m' = (if removed = [] then write_epoch m else write_epoch m + 1)"
    "snapshot_cache m' = snapshot_cache m"
proof -
  have wd: "wf_dirs D m" using wf by (simp add: wf_map_def)
  have p: "prev_slots m' = []" and s: "shards m' = map (drained_slot D) (shards m)"
    and f: "previous_shard_count m' = 0" "total_len m' = 0" "rebalance_tracker m' = finish (now D) (rebalance_tracker m)"
      "snapshot_mode m' = snapshot_mode m" "shard_count m' = shard_count m"
      "life_opts (lifecycle m') = life_opts (lifecycle m)"
    by (simp_all add: m'_def drain_commit_def on_structural_write_def prev_slots_def life_opts_fold_remove Let_def)
  show "previous_shards m' = None" "write_epoch m' = (if removed = [] then write_epoch m else write_epoch m + 1)"
    "snapshot_cache m' = snapshot_cache m"
    by (simp_all add: m'_def drain_commit_def on_structural_write_def Let_def)
  then have pn: "previous_shards m' = None" by simp
  show "\<not> migrating (rebalance_tracker m')" using f by simp
  show v: "view D m' = Map.empty" by (auto simp: view_def p s drained_slots_get map_add_def)
  have "wf_dirs D m'"
    using wf_dirsD(1,2)[OF wd] drained_slots_ok[OF wf_dirsD(5)[OF wd]] unfolding wf_dirs_def
    by (simp add: p s f pn migration_ok_def tracker_inv_finish slots_ok_def[of D _ "[]"])
  moreover have "stored_len D m' = 0" using stored_len_card[OF \<open>wf_dirs D m'\<close>] v by simp
  ultimately show "op_post D m Map.empty m'" using f v by (simp add: op_post_def wf_map_def)
qed

lemma async_clear_post:
  assumes "wf_map D m"
  shows "\<exists>m'. async_clear D m = Some m' \<and> op_post D m Map.empty m' \<and> view D m' = Map.empty"
proof -
  have w: "wf_map D (begin_op m)" using assms by simp
  note c = drain_commit_spec[OF w, of "drained_items D (shards m) @ drained_items D (prev_slots m)"]
  obtain n m' where e: "async_enforce D (drain_commit D (drained_items D (shards m) @ drained_items D (prev_slots m)) (begin_op m)) = Some (n, m')"
    "op_post D m Map.empty m'" using async_enforce_post[OF c(1,2)] by auto
  then show ?thesis using op_post_empty[OF e(2)] by (simp add: async_clear_def)
qed

lemma async_drain_post:
  assumes wf: "wf_map D m"
  shows "\<exists>items m'. async_drain D m = Some (\<lparr>drain_items = items, drain_index = 0\<rparr>, m') \<and> lists_map items (view D m) \<and>
    op_post D m Map.empty m' \<and> view D m' = Map.empty"
proof -
  have w: "wf_map D (begin_op m)" using wf by simp
  let ?items = "drained_items D (prev_slots m) @ drained_items D (shards m)"
  note c = drain_commit_spec[OF w, of ?items]
  obtain n m' where e: "async_enforce D (drain_commit D ?items (begin_op m)) = Some (n, m')"
    "op_post D m Map.empty m'" using async_enforce_post[OF c(1,2)] by auto
  have "mset (stored_entries D m) = mset ?items" by (simp add: drained_items_eq stored_entries_eq)
  then have "lists_map ?items (view D m)" using lists_map_mset entries_exact[OF wf] by blast
  then show ?thesis using e op_post_empty[OF e(2)] by (simp add: async_drain_def)
qed

section \<open>retain\<close>

lemma async_retain_sheds: "sheds D p (async_retain_shard D p)"
  by (rule extract_sheds[where h = id]) (simp_all add: async_retain_shard_def record_write_def on_structural_write_def)

lemma async_retain_all_spec:
  assumes "wf_map D m"
  shows "\<exists>out m1. for_all_shards (async_retain_shard D p) [] (m\<lparr>lifecycle := mutation (lifecycle m)\<rparr>) = (out, m1) \<and>
    op_post D m (view D m1) m1 \<and>
    view D m1 = (\<lambda>k. case view D m k of None \<Rightarrow> None | Some v \<Rightarrow> if p k v then Some v else None)"
proof -
  let ?m0 = "m\<lparr>lifecycle := mutation (lifecycle m)\<rparr>"
  have w: "wf_map D ?m0" using assms by simp
  obtain out m1 where f: "for_all_shards (async_retain_shard D p) [] ?m0 = (out, m1)" "shrunk D out ?m0 m1"
    "\<forall>(k, v) \<in> set out. \<not> p k v" "\<forall>k v. view D m1 k = Some v \<longrightarrow> p k v"
    using for_all_shards_spec[OF async_retain_sheds w] by blast
  have "op_post D m (view D m1) m1" using shrunkD[OF f(2)] by (simp add: op_post_def same_meta_def)
  moreover have "view D m1 = (\<lambda>k. case view D m k of None \<Rightarrow> None | Some v \<Rightarrow> if p k v then Some v else None)"
    using shrunk_filter(1)[OF f(2-4)] by (simp add: fun_eq_iff)
  ultimately show ?thesis using f(1) by blast
qed

lemma async_retain_post:
  assumes "wf_map D m"
  shows "\<exists>m'. async_retain D p m = Some m' \<and>
    op_post D m (\<lambda>k. case view D m k of None \<Rightarrow> None | Some v \<Rightarrow> if p k v then Some v else None) m'"
proof -
  obtain out m1 where f: "for_all_shards (async_retain_shard D p) [] ((begin_op m)\<lparr>lifecycle := mutation (lifecycle (begin_op m))\<rparr>) = (out, m1)"
    and post: "op_post D (begin_op m) (view D m1) m1"
    and v: "view D m1 = (\<lambda>k. case view D m k of None \<Rightarrow> None | Some v \<Rightarrow> if p k v then Some v else None)"
    using async_retain_all_spec[of "begin_op m" p] assms by auto
  have "op_post D m (view D m1) m1" using post by (simp add: op_post_def)
  then show ?thesis using async_enforce_post[of m _ m1] f v by (fastforce simp: async_retain_def)
qed

section \<open>Transactions\<close>

text \<open>Every operation finds its shard among the locked ones, so nothing is ever aborted.\<close>

lemma async_txn_step_eq:
  assumes "wf_dirs D m" "route D (length (shards m)) (txn_key x) \<in> set ixs"
  shows "async_txn_step D ixs x m = map_option Inr (txn_step D x m)"
proof -
  let ?i = "route D (length (shards m)) (txn_key x)"
  have i: "?i < length (shards m)" using route_less[OF wf_dirsD(1)[OF assms(1)]] .
  show ?thesis
    using assms(2) i
    by (cases "shards m ! ?i") (simp_all add: async_txn_step_def txn_step_def shard_index_wf[OF assms(1)]
        async_promote_wf[OF assms(1)] split_beta)
qed

lemma async_txn_ops_spec:
  assumes "wf_map D m" "\<forall>x \<in> set xs. route D (length (shards m)) (txn_key x) \<in> set ixs"
    "\<forall>i \<in> set ixs. shards m ! i \<noteq> None"
  shows "\<exists>m'. async_txn_ops D ixs xs m = Some (Inr m') \<and> op_post D m (view D m') m' \<and> view D m' = fold txn_apply xs (view D m)"
  using assms
proof (induction xs arbitrary: m)
  case Nil
  then show ?case using op_post_refl by simp
next
  case (Cons x xs)
  have mem: "route D (length (shards m)) (txn_key x) \<in> set ixs" using Cons.prems(2) by simp
  obtain m1 where m1: "txn_step D x m = Some m1" "op_post D m (view D m1) m1" "view D m1 = txn_apply x (view D m)"
    "length (shards m1) = length (shards m)" "\<forall>j. shards m ! j \<noteq> None \<longrightarrow> shards m1 ! j \<noteq> None"
    using txn_step_spec[OF Cons.prems(1), of x] Cons.prems(3) mem by blast
  obtain m' where m': "async_txn_ops D ixs xs m1 = Some (Inr m')" "op_post D m1 (view D m') m'" "view D m' = fold txn_apply xs (view D m1)"
    using Cons.IH[OF op_postD(1)[OF m1(2)]] Cons.prems(2,3) m1(4,5) by auto
  show ?case
    using m1(1,3) m' async_txn_step_eq[OF wf_map_dirs[OF Cons.prems(1)] mem] op_post_step[OF m1(2) m'(2)] by simp
qed

lemma async_txn_ops_eq:
  assumes "wf_map D m" "\<forall>x \<in> set xs. route D (length (shards m)) (txn_key x) \<in> set ixs"
    "\<forall>i \<in> set ixs. shards m ! i \<noteq> None"
  shows "async_txn_ops D ixs xs m = map_option Inr (fold_option (txn_step D) xs m)"
  using assms
proof (induction xs arbitrary: m)
  case (Cons x xs)
  have mem: "route D (length (shards m)) (txn_key x) \<in> set ixs" using Cons.prems(2) by simp
  obtain m1 where m1: "txn_step D x m = Some m1" "op_post D m (view D m1) m1" "length (shards m1) = length (shards m)"
    "\<forall>j. shards m ! j \<noteq> None \<longrightarrow> shards m1 ! j \<noteq> None"
    using txn_step_spec[OF Cons.prems(1), of x] Cons.prems(3) mem by blast
  have "async_txn_ops D ixs xs m1 = map_option Inr (fold_option (txn_step D) xs m1)"
    using Cons.IH[OF op_postD(1)[OF m1(2)]] Cons.prems(2,3) m1(3,4) by auto
  then show ?case using m1(1) async_txn_step_eq[OF wf_map_dirs[OF Cons.prems(1)] mem] by simp
qed simp

lemma async_transaction_post:
  assumes wf: "wf_map D m"
  shows "\<exists>m'. async_execute_transaction D t m = Some (Committed (), m') \<and> op_post D m (fold txn_apply (ops t) (view D m)) m'"
proof -
  have w: "wf_map D (begin_op m)" and wd: "wf_dirs D (begin_op m)" using wf by (simp_all add: wf_map_dirs)
  let ?r = "\<lambda>x. route D (length (shards m)) (txn_key x)"
  let ?ixs = "remdups_adj (sort (map fst (map (\<lambda>x. (?r x, x)) (ops t))))"
  have set: "set ?ixs = ?r ` set (ops t)" by (simp add: image_image)
  have lt: "\<forall>i \<in> set ?ixs. i < length (shards (begin_op m))"
    unfolding set using route_less[OF wf_dirsD(1)[OF wd]] by auto
  obtain m1 where m1: "fold_option (\<lambda>i m'. map_option snd (get_or_init_shard D m' i)) ?ixs (begin_op m) = Some m1"
    "op_post D (begin_op m) (view D (begin_op m)) m1" "view D m1 = view D (begin_op m)" "length (shards m1) = length (shards (begin_op m))"
    "\<forall>i \<in> set ?ixs. shards m1 ! i \<noteq> None"
    using init_shards_spec[OF w lt] by blast
  have mem: "\<forall>x \<in> set (ops t). route D (length (shards m1)) (txn_key x) \<in> set ?ixs" unfolding set using m1(4) by simp
  obtain m2 where m2: "async_txn_ops D ?ixs (ops t) m1 = Some (Inr m2)" "op_post D m1 (view D m2) m2"
    "view D m2 = fold txn_apply (ops t) (view D m)"
    using async_txn_ops_spec[OF op_postD(1)[OF m1(2)] mem m1(5)] m1(3) by auto
  have "op_post D m (view D m2) m2" using op_post_step[of m m1 m2] m1(2,3) m2(2) by simp
  then obtain n m' where "async_enforce D m2 = Some (n, m')" "op_post D m (fold txn_apply (ops t) (view D m)) m'"
    using async_enforce_post[of m "fold txn_apply (ops t) (view D m)" m2] m2(3) by auto
  then show ?thesis using m1(1) m2(1) indexed_wf[OF wd, of txn_key "ops t"] by (simp add: async_execute_transaction_def Let_def)
qed

end

section \<open>Snapshots\<close>

text \<open>The asynchronous code collects sequentially; otherwise a capture is the one of the synchronous map.\<close>

abbreviation seq_collect :: "('a \<Rightarrow> 't list) \<Rightarrow> 'a list \<Rightarrow> 't list" where
  "seq_collect f xs \<equiv> concat (map f xs)"

lemma async_capture_view_data_eq: "async_capture_view_data m = capture_view_data m"
  by (simp add: async_capture_view_data_def capture_view_data_def all_shards_def Let_def)

lemma async_snapshot_view_eq: "async_snapshot_view D m = snapshot_view_of D m"
  by (simp add: async_snapshot_view_def snapshot_view_of_def async_capture_view_data_eq)

lemma async_collect_into_eq: "async_collect_into D project m = collect_into D seq_collect project m"
  by (simp add: async_collect_into_def collect_into_def all_shards_def Let_def)

lemma async_collect_with_eq: "async_collect_with D project m = collect_with D seq_collect project m"
  by (simp add: async_collect_with_def collect_with_def async_snapshot_view_eq async_collect_into_eq)

lemma async_capture_snapshot_eq: "async_capture_snapshot D m = capture_snapshot D seq_collect m"
  by (auto simp: async_capture_snapshot_def capture_snapshot_def async_build_snapshot_def cached_snapshot_def cache_enabled_def
      async_capture_view_data_eq async_collect_into_eq capture_view_data_def split: option.splits prod.splits)

lemmas async_snapshot_eqs = async_snapshot_view_eq async_collect_with_eq async_capture_snapshot_eq

lemma async_iter_eq: "async_iter D m = iter_op D seq_collect m"
  by (simp add: async_iter_def iter_op_def async_shared_snapshot_def shared_snapshot_def cache_enabled_def async_snapshot_eqs)

lemma async_keys_eq: "async_keys D m = keys_op D seq_collect m"
  by (simp add: async_keys_def keys_op_def async_snapshot_eqs)

lemma async_values_eq: "async_values D m = values_op D seq_collect m"
  by (simp add: async_values_def values_op_def async_snapshot_eqs)

lemma async_snapshot_at_version_eq: "async_snapshot_at_version D ver m = snapshot_at_version D seq_collect ver m"
  by (auto simp: async_snapshot_at_version_def snapshot_at_version_def async_snapshot_eqs split_beta)

end
