(* ===== verification/Async_Rebalance.thy ===== *)
theory Async_Rebalance
  imports Async_Whole
begin

text \<open>
  Resharding of the asynchronous map, \<open>core/async_impl/rebalance_impl.rs\<close>. A batch holds the rebalance
  mutex, the routing lock and both directories from before its first change until it returns, so no
  other operation runs in between; but it suspends at every lock it awaits, and at each of these points
  its future can be dropped. The loop is therefore a machine that moves from one await point to the
  next (\<open>async_next\<close>), and what an abandoned batch leaves behind is part of the model. The options,
  reports and the blocks of the loop that do not await anything are those of \<open>Sync_Rebalance\<close>.
\<close>

section \<open>Control of a migration\<close>

definition async_pause_rebalance :: "('k, 'v, 'm, 'b) sharded_map \<Rightarrow> bool \<times> ('k, 'v, 'm, 'b) sharded_map" where
  "async_pause_rebalance m =
     (let (b, tr) = pause True (rebalance_tracker m) in (b, m\<lparr>rebalance_tracker := tr\<rparr>))"

definition async_resume_rebalance :: "('k, 'v, 'm, 'b) sharded_map \<Rightarrow> bool \<times> ('k, 'v, 'm, 'b) sharded_map" where
  "async_resume_rebalance m =
     (let (b, tr) = pause False (rebalance_tracker m) in (b, m\<lparr>rebalance_tracker := tr\<rparr>))"

definition async_start_rebalance_online ::
  "('k, 'v, 'm, 'b) deps \<Rightarrow> nat \<Rightarrow> ('k, 'v, 'm, 'b) sharded_map \<Rightarrow> (shard_count_error + unit) \<times> ('k, 'v, 'm, 'b) sharded_map" where
  "async_start_rebalance_online D new_shard_count m =
     (case strict_shard_count new_shard_count MAX_SHARDS of
        Inl e \<Rightarrow> (Inl e, m)
      | Inr target \<Rightarrow>
          if is_migrating (rebalance_tracker m) \<or> target = shard_count m then (Inr (), m)
          else (Inr (), begin_migration D (length (shards m)) target m))"

section \<open>One migration batch\<close>

text \<open>
  Where a batch can be suspended: at the head of an iteration (or awaiting the read lock under which it
  loads keys), awaiting the write locks for one key, awaiting the read lock of the emptiness check.
\<close>

datatype 'k await_point = AtLoop | AtTransfer nat 'k nat | AtObserve nat | AtEnd

definition async_prepare ::
  "('k, 'v, 'm, 'b) deps \<Rightarrow> batch_env \<Rightarrow> nat \<Rightarrow> nat \<Rightarrow> ('k, 'v, 'm, 'b) batch_state \<Rightarrow>
   ('k await_point \<times> ('k, 'v, 'm, 'b) batch_state) option" where
  "async_prepare D env entry_limit pause_ns s =
     (let index = status_moved (tracker_snapshot (rebalance_tracker (batch_map s)));
          source = source_slot index (batch_map s);
          s1 = load_work D env pause_ns entry_limit index s
      in if work_keys s1 = [] then Some (AtObserve index, s1)
         else
           (let key = last (work_keys s1); s2 = s1\<lparr>work_keys := butlast (work_keys s1)\<rparr> in
            case source of
              None \<Rightarrow> Some (AtObserve index, s2)
            | Some _ \<Rightarrow> do {
                target_index \<leftarrow> shard_index D (batch_map s2) key;
                (_, m1) \<leftarrow> get_or_init_shard D (batch_map s2) target_index;
                Some (AtTransfer index key target_index, s2\<lparr>batch_map := m1\<rparr>)
              }))"

definition async_transfer ::
  "('k, 'v, 'm, 'b) deps \<Rightarrow> telemetry \<Rightarrow> nat \<Rightarrow> 'k \<Rightarrow> nat \<Rightarrow> ('k, 'v, 'm, 'b) batch_state \<Rightarrow>
   ('k, 'v, 'm, 'b) batch_state option" where
  "async_transfer D tel index key target_index s = do {
     let m = batch_map s;
     slot \<leftarrow> index_checked (shards m) target_index;
     target \<leftarrow> slot;
     source \<leftarrow> source_slot index m;
     target_map \<leftarrow>
       (if hb_capacity (shard_ops D) (as_map target) = 0
        then (if to_shards tel = 0 then None
              else Some (hb_reserve (shard_ops D) (as_map target)
                     (max ((initial_entries tel + to_shards tel - 1) div to_shards tel) 1)))
        else Some (as_map target));
     (t, sm) \<leftarrow> move_one (shard_ops D) target_map (as_map source) key;
     let m2 = set_previous_slot index (Some (deref_mut_set source sm)) (unlock target_index (deref_mut_set target t) m);
     Some (s\<lparr>batch_map := m2\<lparr>rebalance_tracker := moved (rebalance_tracker m2)\<rparr>,
             report := (report s)\<lparr>rep_moved_entries := rep_moved_entries (report s) + 1\<rparr>\<rparr>)
   }"

definition async_observe ::
  "('k, 'v, 'm, 'b) deps \<Rightarrow> batch_env \<Rightarrow> nat \<Rightarrow> nat \<Rightarrow> ('k, 'v, 'm, 'b) batch_state \<Rightarrow>
   'k await_point \<times> ('k, 'v, 'm, 'b) batch_state" where
  "async_observe D env pause_ns index s =
     (let (drained, s3) = retire_source D index s; (go, s4) = finish_or_yield D env pause_ns drained s3
      in (if go then AtLoop else AtEnd, s4))"

fun async_next ::
  "('k, 'v, 'm, 'b) deps \<Rightarrow> batch_env \<Rightarrow> telemetry \<Rightarrow> nat \<Rightarrow> nat \<Rightarrow> nat \<Rightarrow> 'k await_point \<times> ('k, 'v, 'm, 'b) batch_state \<Rightarrow>
   ('k await_point \<times> ('k, 'v, 'm, 'b) batch_state) option" where
  "async_next D env tel max_shards entry_limit pause_ns (AtLoop, s) =
     (if rep_completed_shards (report s) < max_shards \<and> rep_moved_entries (report s) < entry_limit
      then (let s0 = s\<lparr>control_reads := control_reads s + 1\<rparr> in
            if control_cancelled env (control_reads s) then Some (AtEnd, s0)
            else async_prepare D env entry_limit pause_ns s0)
      else Some (AtEnd, s))"
| "async_next D env tel max_shards entry_limit pause_ns (AtTransfer index key target_index, s) =
     map_option (Pair (AtObserve index)) (async_transfer D tel index key target_index s)"
| "async_next D env tel max_shards entry_limit pause_ns (AtObserve index, s) =
     Some (async_observe D env pause_ns index s)"
| "async_next D env tel max_shards entry_limit pause_ns (AtEnd, s) = None"

text \<open>A batch that is not abandoned. \<open>None\<close> is a panic or no end.\<close>

partial_function (option) async_batch ::
  "('k, 'v, 'm, 'b) deps \<Rightarrow> batch_env \<Rightarrow> telemetry \<Rightarrow> nat \<Rightarrow> nat \<Rightarrow> nat \<Rightarrow> 'k await_point \<times> ('k, 'v, 'm, 'b) batch_state \<Rightarrow>
   ('k, 'v, 'm, 'b) batch_state option" where
  "async_batch D env tel max_shards entry_limit pause_ns c =
     (if fst c = AtEnd then Some (snd c)
      else Option.bind (async_next D env tel max_shards entry_limit pause_ns c)
             (async_batch D env tel max_shards entry_limit pause_ns))"

definition batch_start :: "('k, 'v, 'm, 'b) sharded_map \<Rightarrow> ('k, 'v, 'm, 'b) batch_state" where
  "batch_start m =
     \<lparr>work_keys = [], loaded_index = None, report = batch_report_default, batch_map = m, clock_reads = 0,
      control_reads = 1\<rparr>"

definition async_advance_rebalance_inner ::
  "('k, 'v, 'm, 'b) deps \<Rightarrow> batch_env \<Rightarrow> nat \<Rightarrow> nat \<Rightarrow> nat \<Rightarrow> u64 option \<Rightarrow> ('k, 'v, 'm, 'b) sharded_map \<Rightarrow>
   (batch_report \<times> ('k, 'v, 'm, 'b) sharded_map) option" where
  "async_advance_rebalance_inner D env max_shards entry_limit pause_ns expected m =
     (let tel = tracker_telemetry (now D) (rebalance_tracker m) in
      if (case expected of None \<Rightarrow> False | Some g \<Rightarrow> g \<noteq> generation tel) \<or> paused tel \<or> control_cancelled env 0 \<or> max_shards = 0
      then Some (batch_report_default, m)
      else if \<not> is_migrating (rebalance_tracker m)
      then Some (batch_report_default\<lparr>rep_complete := True\<rparr>, m)
      else do {
        s \<leftarrow> async_batch D env tel max_shards entry_limit pause_ns (AtLoop, batch_start m);
        let r = report s;
        let r' = r\<lparr>rep_elapsed_ns := env_clock env (clock_reads s),
                   rep_budget_exhausted := rep_budget_exhausted r \<or>
                     (\<not> rep_complete r \<and> rep_moved_entries r \<ge> entry_limit)\<rparr>;
        Some (r', (batch_map s)\<lparr>rebalance_tracker := record_batch (generation tel)
                     (env_clock env (clock_reads s + 1)) pause_ns (rebalance_tracker (batch_map s))\<rparr>)
      })"

text \<open>The map a dropped batch leaves: what it has committed, and the drop of its \<open>BatchTimer\<close>.\<close>

definition abandon_batch ::
  "batch_env \<Rightarrow> telemetry \<Rightarrow> nat \<Rightarrow> ('k, 'v, 'm, 'b) batch_state \<Rightarrow> ('k, 'v, 'm, 'b) sharded_map" where
  "abandon_batch env tel pause_ns s =
     (batch_map s)\<lparr>rebalance_tracker :=
        record_batch (generation tel) (env_clock env (clock_reads s)) pause_ns (rebalance_tracker (batch_map s))\<rparr>"

inductive batch_awaits ::
  "('k, 'v, 'm, 'b) deps \<Rightarrow> batch_env \<Rightarrow> telemetry \<Rightarrow> nat \<Rightarrow> nat \<Rightarrow> nat \<Rightarrow> ('k, 'v, 'm, 'b) sharded_map \<Rightarrow>
   'k await_point \<times> ('k, 'v, 'm, 'b) batch_state \<Rightarrow> bool"
  for D env tel max_shards entry_limit pause_ns m where
  aw_start: "batch_awaits D env tel max_shards entry_limit pause_ns m (AtLoop, batch_start m)"
| aw_next: "\<lbrakk>batch_awaits D env tel max_shards entry_limit pause_ns m c;
     async_next D env tel max_shards entry_limit pause_ns c = Some c'\<rbrakk>
    \<Longrightarrow> batch_awaits D env tel max_shards entry_limit pause_ns m c'"

definition async_advance_rebalance ::
  "('k, 'v, 'm, 'b) deps \<Rightarrow> (nat \<Rightarrow> nat) \<Rightarrow> nat \<Rightarrow> ('k, 'v, 'm, 'b) sharded_map \<Rightarrow> (nat \<times> ('k, 'v, 'm, 'b) sharded_map) option" where
  "async_advance_rebalance D clk max_shards m = do {
     (r, m') \<leftarrow> async_advance_rebalance_inner D \<lparr>env_clock = clk, env_control = None\<rparr> max_shards USIZE_MAX 0 None m;
     Some (rep_completed_shards r, m')
   }"

definition async_advance_rebalance_with_options ::
  "('k, 'v, 'm, 'b) deps \<Rightarrow> (nat \<Rightarrow> nat) \<Rightarrow> rebalance_options \<Rightarrow> ('k, 'v, 'm, 'b) sharded_map \<Rightarrow>
   (batch_report \<times> ('k, 'v, 'm, 'b) sharded_map) option" where
  "async_advance_rebalance_with_options D clk opts m =
     async_advance_rebalance_inner D \<lparr>env_clock = clk, env_control = None\<rparr> USIZE_MAX (max (opt_batch_size opts) 1)
       (opt_max_pause_ns opts) None m"

section \<open>Completing a rebalance\<close>

text \<open>
  Staging copies the previous generation first and lets later insertions win, where the synchronous map
  copies the active generation first and keeps what is there.
\<close>

definition async_staged_insert ::
  "('k, 'v, 'm, 'b) deps \<Rightarrow> nat \<Rightarrow> 'k \<times> 'v \<Rightarrow> 'm option list \<Rightarrow> 'm option list option" where
  "async_staged_insert D target = (\<lambda>(key, val) maps.
     if target = 0 then None
     else do {
       let index = unat (hash_one D key) mod target;
       slot \<leftarrow> index_checked maps index;
       let mp = (case slot of None \<Rightarrow> hb_new (shard_ops D) | Some mp \<Rightarrow> mp);
       Some (maps[index := Some (snd (hb_insert (shard_ops D) mp key val))])
     })"

definition async_stage_all ::
  "('k, 'v, 'm, 'b) deps \<Rightarrow> nat \<Rightarrow> ('k, 'v, 'm, 'b) sharded_map \<Rightarrow> ('m option list \<times> nat) option" where
  "async_stage_all D target m = do {
     let guards = (case previous_shards m of None \<Rightarrow> [] | Some ps \<Rightarrow> List.map_filter id ps) @ List.map_filter id (shards m);
     destinations \<leftarrow> fold_option (async_staged_insert D target)
         (concat (map (\<lambda>g. hb_iter (shard_ops D) (as_map g)) guards)) (replicate target None);
     Some (destinations, sum_list (map (hb_len (shard_ops D)) (List.map_filter id destinations)))
   }"

definition async_publish_staged ::
  "('k, 'v, 'm, 'b) deps \<Rightarrow> nat \<Rightarrow> 'm option list \<Rightarrow> nat \<Rightarrow> ('k, 'v, 'm, 'b) sharded_map \<Rightarrow> ('k, 'v, 'm, 'b) sharded_map" where
  "async_publish_staged D target maps n m =
     m\<lparr>shards := map (map_option (\<lambda>mp. shard_data_new mp (snapshot_mode m))) maps,
       previous_shards := None, previous_shard_count := 0, shard_count := target,
       lifecycle := mark_pending (lifecycle m), total_len := of_nat n,
       rebalance_tracker :=
         finish_staged (now D + elapsed D) (shard_count m) target n (now D) (rebalance_tracker m)\<rparr>"

partial_function (option) async_cooperative_loop ::
  "('k, 'v, 'm, 'b) deps \<Rightarrow> (nat \<Rightarrow> nat \<Rightarrow> nat) \<Rightarrow> nat \<Rightarrow> rebalance_options \<Rightarrow> nat \<Rightarrow> nat \<Rightarrow> ('k, 'v, 'm, 'b) sharded_map \<Rightarrow>
   (nat \<times> ('k, 'v, 'm, 'b) sharded_map) option" where
  "async_cooperative_loop D clks target opts rnd n m =
     (let current = shard_count m; migr = is_migrating (rebalance_tracker m) in
      if \<not> migr \<and> current = target then Some (n, m)
      else do {
        let m1 = (if migr then m else begin_migration D current target m);
        let m2 = snd (async_resume_rebalance m1);
        (r, m3) \<leftarrow> async_advance_rebalance_with_options D (clks rnd) opts m2;
        async_cooperative_loop D clks target opts (rnd + 1) (n + rep_moved_entries r) m3
      })"

definition async_rebalance_to ::
  "('k, 'v, 'm, 'b) deps \<Rightarrow> (nat \<Rightarrow> nat \<Rightarrow> nat) \<Rightarrow> nat \<Rightarrow> rebalance_options \<Rightarrow> ('k, 'v, 'm, 'b) sharded_map \<Rightarrow>
   ((shard_count_error + rebalance_report) \<times> ('k, 'v, 'm, 'b) sharded_map) option" where
  "async_rebalance_to D clks new_shard_count opts m =
     (case strict_shard_count new_shard_count MAX_SHARDS of
        Inl e \<Rightarrow> Some (Inl e, m)
      | Inr target \<Rightarrow>
          if opt_background opts then do {
            let from = shard_count m;
            (n, m') \<leftarrow> async_cooperative_loop D clks target opts 0 0 m;
            Some (Inr \<lparr>rr_from_shards = from, rr_to_shards = target, rr_moved_entries = n,
                       rr_elapsed_ms = elapsed D div 1000000\<rparr>, m')
          }
          else if target = shard_count m \<and> \<not> is_migrating (rebalance_tracker m)
          then Some (Inr \<lparr>rr_from_shards = shard_count m, rr_to_shards = target, rr_moved_entries = 0,
                          rr_elapsed_ms = 0\<rparr>, m)
          else do {
            (maps, n) \<leftarrow> async_stage_all D target m;
            Some (Inr \<lparr>rr_from_shards = shard_count m, rr_to_shards = target, rr_moved_entries = n,
                       rr_elapsed_ms = elapsed D div 1000000\<rparr>, async_publish_staged D target maps n m)
          })"

section \<open>The supervised task\<close>

text \<open>\<open>spawn_rebalance\<close> up to the creation of the task; \<open>runtime\<close> is whether a Tokio runtime is entered.\<close>

definition async_spawn_rebalance ::
  "('k, 'v, 'm, 'b) deps \<Rightarrow> bool \<Rightarrow> nat \<Rightarrow> ('k, 'v, 'm, 'b) sharded_map \<Rightarrow>
   (rebalance_error + worker_ticket) \<times> ('k, 'v, 'm, 'b) sharded_map" where
  "async_spawn_rebalance D runtime n m =
     (if \<not> runtime then (Inl RuntimeUnavailable, m)
      else
        (case strict_shard_count n MAX_SHARDS of
           Inl e \<Rightarrow> (Inl (InvalidShardCount e), m)
         | Inr target \<Rightarrow>
             if has_worker (rebalance_tracker m) then (Inl WorkerAlreadyRunning, m)
             else
               (let migr = is_migrating (rebalance_tracker m); current = shard_count m in
                if migr \<and> current \<noteq> target then (Inl (TargetMismatch current target), m)
                else
                  (let already_complete = (\<not> migr \<and> current = target);
                       m1 = (if \<not> migr \<and> \<not> already_complete then begin_migration D current target m else m);
                       tel = tracker_telemetry (now D) (rebalance_tracker m1);
                       (claimed, tr) = claim_worker (generation tel) (rebalance_tracker m1)
                   in if \<not> claimed then (Inl WorkerAlreadyRunning, m1)
                      else (Inr \<lparr>ticket_generation = generation tel, ticket_complete = already_complete,
                                 ticket_from = (if already_complete then current else from_shards tel),
                                 ticket_target = target\<rparr>, m1\<lparr>rebalance_tracker := tr\<rparr>)))))"

definition async_worker_round ::
  "('k, 'v, 'm, 'b) deps \<Rightarrow> batch_env \<Rightarrow> rebalance_options \<Rightarrow> u64 \<Rightarrow> worker_state \<Rightarrow> ('k, 'v, 'm, 'b) sharded_map \<Rightarrow>
   (bool \<times> worker_state \<times> ('k, 'v, 'm, 'b) sharded_map) option" where
  "async_worker_round D env opts gen w m = do {
     (r, m') \<leftarrow> async_advance_rebalance_inner D env USIZE_MAX (wk_effective w) (opt_max_pause_ns opts) (Some gen) m;
     let w1 = w\<lparr>wk_moved := wk_moved w + rep_moved_entries r\<rparr>;
     Some (if rep_complete r then (True, w1\<lparr>wk_completed := True\<rparr>, m')
           else if opt_max_pause_ns opts \<noteq> 0 \<and> rep_elapsed_ns r > opt_max_pause_ns opts
           then (False, w1\<lparr>wk_effective := max (wk_effective w div 2) 1\<rparr>, m')
           else (False, w1\<lparr>wk_effective := min (min (wk_effective w + 1) USIZE_MAX) (max (opt_batch_size opts) 1)\<rparr>, m'))
   }"

partial_function (option) async_worker_loop ::
  "('k, 'v, 'm, 'b) deps \<Rightarrow> (nat \<Rightarrow> batch_env) \<Rightarrow> (nat \<Rightarrow> bool) \<Rightarrow> rebalance_options \<Rightarrow> worker_ticket \<Rightarrow> nat \<Rightarrow>
   worker_state \<Rightarrow> ('k, 'v, 'm, 'b) sharded_map \<Rightarrow> (rebalance_outcome \<times> ('k, 'v, 'm, 'b) sharded_map) option" where
  "async_worker_loop D envs cancels opts tk rnd w m =
     (let gen = ticket_generation tk;
          leave = (\<lambda>w m. Some (worker_outcome D tk w m,
             m\<lparr>rebalance_tracker := release_worker gen (rebalance_tracker m)\<rparr>))
      in do {
        ready \<leftarrow> wait_ready_async gen (cancels rnd) (now D) (rebalance_tracker m);
        if \<not> ready then leave w m
        else do {
          (stop, w', m') \<leftarrow> async_worker_round D (envs rnd) opts gen w m;
          if stop then leave w' m' else async_worker_loop D envs cancels opts tk (rnd + 1) w' m'
        }
      })"

definition async_run_worker ::
  "('k, 'v, 'm, 'b) deps \<Rightarrow> (nat \<Rightarrow> batch_env) \<Rightarrow> (nat \<Rightarrow> bool) \<Rightarrow> rebalance_options \<Rightarrow> worker_ticket \<Rightarrow>
   ('k, 'v, 'm, 'b) sharded_map \<Rightarrow> (rebalance_outcome \<times> ('k, 'v, 'm, 'b) sharded_map) option" where
  "async_run_worker D envs cancels opts tk m = async_worker_loop D envs cancels opts tk 0 (worker_start tk opts) m"

end
