(* ===== verification/Async_Migration.thy ===== *)
theory Async_Migration
  imports Async_Rebalance
begin

text \<open>
  Correctness of asynchronous resharding. A batch that runs to its end does what the synchronous batch
  does, so everything proved about that carries over, its termination included; at every await point of
  a batch the map is well-formed and holds exactly its old content, so a batch may be abandoned there.
\<close>

section \<open>Batches are those of the synchronous map\<close>

lemma get_or_init_twice:
  assumes "get_or_init_shard D m i = Some (t, m1)"
  shows "get_or_init_shard D m1 i = Some (t, m1)" "shard_index D m1 k = shard_index D m k" "i < length (shards m)"
    "shards m1 ! i = Some t" "length (shards m1) = length (shards m)" "previous_shards m1 = previous_shards m"
    "rebalance_tracker m1 = rebalance_tracker m"
  using assms by (auto simp: get_or_init_shard_def shard_index_def index_checked_def Let_def split: if_splits option.splits bind_splits)

lemma source_slot_init: "get_or_init_shard D m i = Some (t, m1) \<Longrightarrow> source_slot j m1 = source_slot j m"
  by (simp add: source_slot_def get_or_init_twice(6))

text \<open>The three await-free blocks of an iteration that moves a key are \<open>migrate_key\<close>.\<close>

lemma async_transfer_eq:
  assumes "shard_index D m key = Some ti" "get_or_init_shard D m ti = Some (t, m1)" "source_slot index m = Some sd"
  shows "async_transfer D tel index key ti (s\<lparr>batch_map := m1\<rparr>) = do {
     m' \<leftarrow> migrate_key D tel index sd key m;
     Some (s\<lparr>batch_map := m', report := (report s)\<lparr>rep_moved_entries := rep_moved_entries (report s) + 1\<rparr>\<rparr>)
   }"
  using assms get_or_init_twice[OF assms(2)]
  by (auto simp: async_transfer_def migrate_key_def source_slot_init[OF assms(2)] Let_def split: bind_splits)

definition async_iteration ::
  "('k, 'v, 'm, 'b) deps \<Rightarrow> batch_env \<Rightarrow> telemetry \<Rightarrow> nat \<Rightarrow> nat \<Rightarrow> nat \<Rightarrow> ('k, 'v, 'm, 'b) batch_state \<Rightarrow>
   ('k await_point \<times> ('k, 'v, 'm, 'b) batch_state) option" where
  "async_iteration D env tel mx e p s = do {
     (pt, s1) \<leftarrow> async_prepare D env e p s;
     case pt of
       AtTransfer i k ti \<Rightarrow> map_option (async_observe D env p i) (async_transfer D tel i k ti s1)
     | AtObserve i \<Rightarrow> Some (async_observe D env p i s1)
     | _ \<Rightarrow> None
   }"

text \<open>The second half of an iteration, of either map.\<close>

definition settle ::
  "('k, 'v, 'm, 'b) deps \<Rightarrow> batch_env \<Rightarrow> nat \<Rightarrow> nat \<Rightarrow> ('k, 'v, 'm, 'b) batch_state \<Rightarrow> bool \<times> ('k, 'v, 'm, 'b) batch_state" where
  "settle D env p i s = (let (drained, s3) = retire_source D i s in finish_or_yield D env p drained s3)"

lemma async_observe_settle:
  "async_observe D env p i = (\<lambda>(go, s'). (if go then AtLoop else AtEnd, s')) \<circ> settle D env p i"
  by (simp add: fun_eq_iff async_observe_def settle_def split_beta Let_def)

lemma async_iteration_body:
  fixes s0 :: "('k, 'v, 'm, 'b) batch_state"
  defines "i \<equiv> status_moved (tracker_snapshot (rebalance_tracker (batch_map s0)))"
  shows "async_iteration D env tel mx e p s0 =
    map_option (async_observe D env p i) (move_next D tel i (source_slot i (batch_map s0)) (load_work D env p e i s0))"
proof -
  define s1 where "s1 = load_work D env p e i s0"
  have b1: "batch_map s1 = batch_map s0" by (simp add: s1_def)
  let ?k = "last (work_keys s1)" and ?s2 = "s1\<lparr>work_keys := butlast (work_keys s1)\<rparr>"
  note defs = async_iteration_def async_prepare_def i_def[symmetric] s1_def[symmetric] move_next_def b1 Let_def
  show ?thesis
  proof (cases "work_keys s1 = [] \<or> source_slot i (batch_map s0) = None")
    case True
    then show ?thesis by (auto simp: defs)
  next
    case False
    then obtain sd where sd: "source_slot i (batch_map s0) = Some sd" by auto
    show ?thesis
    proof (cases "shard_index D (batch_map s0) ?k")
      case None
      then show ?thesis using False sd by (simp add: defs migrate_key_def)
    next
      case ti: (Some ti)
      show ?thesis
      proof (cases "get_or_init_shard D (batch_map s0) ti")
        case None
        then show ?thesis using False sd ti by (simp add: defs migrate_key_def)
      next
        case (Some tm)
        obtain t m1 where tm: "get_or_init_shard D (batch_map s0) ti = Some (t, m1)" using Some by (cases tm) simp
        show ?thesis using False sd ti tm async_transfer_eq[OF ti tm sd, of tel ?s2] by (simp add: defs)
      qed
    qed
  qed
qed

lemma async_iteration_eq:
  assumes "\<not> control_cancelled env (control_reads s)"
  shows "async_iteration D env tel mx e p (s\<lparr>control_reads := control_reads s + 1\<rparr>) =
    map_option (\<lambda>(go, s'). (if go then AtLoop else AtEnd, s')) (batch_step D env tel e p s)"
proof -
  define s0 where "s0 = s\<lparr>control_reads := control_reads s + 1\<rparr>"
  define i where "i = status_moved (tracker_snapshot (rebalance_tracker (batch_map s0)))"
  have "batch_step D env tel e p s =
      map_option (settle D env p i) (move_next D tel i (source_slot i (batch_map s0)) (load_work D env p e i s0))"
    using assms unfolding batch_step_def Let_def s0_def[symmetric] i_def[symmetric]
    by (cases "move_next D tel i (source_slot i (batch_map s0)) (load_work D env p e i s0)") (simp_all add: settle_def split_beta)
  then show ?thesis
    unfolding s0_def[symmetric] by (simp add: async_iteration_body i_def option.map_comp async_observe_settle)
qed

lemma async_batch_end [simp]: "async_batch D env tel mx e p (AtEnd, s) = Some s"
  by (subst async_batch.simps) simp

lemma async_batch_iteration:
  assumes "rep_completed_shards (report s) < mx" "rep_moved_entries (report s) < e" "\<not> control_cancelled env (control_reads s)"
  shows "async_batch D env tel mx e p (AtLoop, s) =
    Option.bind (async_iteration D env tel mx e p (s\<lparr>control_reads := control_reads s + 1\<rparr>)) (async_batch D env tel mx e p)"
proof -
  let ?s0 = "s\<lparr>control_reads := control_reads s + 1\<rparr>" and ?run = "async_batch D env tel mx e p"
  have head: "?run (AtLoop, s) = Option.bind (async_prepare D env e p ?s0) ?run"
    using assms by (subst async_batch.simps) simp
  have obs: "?run (AtObserve i, s') = ?run (async_observe D env p i s')" for i s'
    by (subst async_batch.simps) simp
  have trans: "?run (AtTransfer i k ti, s') = Option.bind (async_transfer D tel i k ti s') (\<lambda>s2. ?run (AtObserve i, s2))" for i k ti s'
    by (subst async_batch.simps) (simp add: bind_map_option comp_def)
  have pt: "(\<exists>i. pt = AtObserve i) \<or> (\<exists>i k ti. pt = AtTransfer i k ti)" if "async_prepare D env e p ?s0 = Some (pt, s')" for pt s'
    using that by (auto simp: async_prepare_def Let_def split: if_splits option.splits bind_splits)
  show ?thesis
  proof (cases "async_prepare D env e p ?s0")
    case None
    then show ?thesis by (simp add: head async_iteration_def)
  next
    case (Some c)
    obtain pt s1 where c: "c = (pt, s1)" by (cases c)
    from pt[OF Some[unfolded c]] show ?thesis
    proof (elim disjE exE)
      fix i assume "pt = AtObserve i"
      then show ?thesis using Some by (simp add: head async_iteration_def c obs)
    next
      fix i k ti assume "pt = AtTransfer i k ti"
      then show ?thesis using Some
        by (cases "async_transfer D tel i k ti s1") (simp_all add: head async_iteration_def c trans obs)
    qed
  qed
qed

lemma async_batch_eq: "async_batch D env tel mx e p (AtLoop, s) = batch_loop D env tel mx e p s"
proof (induction "batch_measure mx s" arbitrary: s rule: wf_induct_rule[OF wf_batch_measure])
  case (1 s)
  note sim = batch_loop.simps[of D env tel mx e p s]
  let ?s0 = "s\<lparr>control_reads := control_reads s + 1\<rparr>"
  show ?case
  proof (cases "rep_completed_shards (report s) < mx \<and> rep_moved_entries (report s) < e")
    case False
    then have "async_batch D env tel mx e p (AtLoop, s) = Some s"
      using async_batch_end[of D env tel mx e p s] by (subst async_batch.simps) (simp, blast)
    then show ?thesis using sim False by simp
  next
    case True
    show ?thesis
    proof (cases "control_cancelled env (control_reads s)")
      case c: True
      have "async_batch D env tel mx e p (AtLoop, s) = Some ?s0"
        using True c async_batch_end[of D env tel mx e p ?s0] by (subst async_batch.simps) simp
      then show ?thesis using sim True c by (simp add: batch_step_def)
    next
      case nc: False
      have it: "async_batch D env tel mx e p (AtLoop, s) =
          Option.bind (map_option (\<lambda>(go, s'). (if go then AtLoop else AtEnd, s')) (batch_step D env tel e p s)) (async_batch D env tel mx e p)"
        using async_batch_iteration[of s mx e env] True nc async_iteration_eq[OF nc, of D tel mx e p] by simp
      show ?thesis
      proof (cases "batch_step D env tel e p s")
        case None
        then show ?thesis using it sim True by simp
      next
        case (Some r)
        obtain go s' where r: "r = (go, s')" by (cases r)
        show ?thesis
        proof (cases go)
          case go: True
          have "batch_step D env tel e p s = Some (True, s')" using Some r go by simp
          from 1[OF batch_step_decreases[OF this conjunct1[OF True]]] show ?thesis
            using it sim True Some r go by simp
        next
          case False
          then show ?thesis using it sim True Some r by simp
        qed
      qed
    qed
  qed
qed

lemma async_advance_inner_eq: "async_advance_rebalance_inner = advance_rebalance_inner"
  by (intro ext) (simp add: async_advance_rebalance_inner_def advance_rebalance_inner_def async_batch_eq batch_start_def Let_def)

lemma async_advance_options_eq: "async_advance_rebalance_with_options = advance_rebalance_with_options"
  by (intro ext) (simp add: async_advance_rebalance_with_options_def advance_rebalance_with_options_def async_advance_inner_eq)

lemma async_advance_eq: "async_advance_rebalance = advance_rebalance"
  by (intro ext) (simp add: async_advance_rebalance_def advance_rebalance_def async_advance_inner_eq)

lemma async_control_eqs:
  "async_resume_rebalance m = resume_rebalance m" "async_pause_rebalance m = pause_rebalance m"
  "async_start_rebalance_online D n m = start_rebalance_online D n m"
  by (simp_all add: async_resume_rebalance_def resume_rebalance_def async_pause_rebalance_def pause_rebalance_def
      async_start_rebalance_online_def start_rebalance_online_def)

lemma async_spawn_eq: "async_spawn_rebalance D True n m = spawn_rebalance D True n m"
  by (auto simp: async_spawn_rebalance_def spawn_rebalance_def Let_def split: sum.splits prod.splits)

lemma async_wait_eq: "wait_ready_async g c t p = wait_ready g c p"
  by (auto simp: wait_ready_async_def wait_ready_def wait_blocks_def wait_result_def is_migrating_def Let_def)

lemma async_worker_round_eq: "async_worker_round = worker_round"
  by (intro ext) (simp add: async_worker_round_def worker_round_def async_advance_inner_eq)

section \<open>Abandoning a batch\<close>

text \<open>What holds at each await point of a batch that started on \<open>m\<close>.\<close>

fun await_ok ::
  "('k, 'v, 'm, 'b) deps \<Rightarrow> ('k, 'v, 'm, 'b) sharded_map \<Rightarrow> 'k await_point \<times> ('k, 'v, 'm, 'b) batch_state \<Rightarrow> bool" where
  "await_ok D m (AtLoop, s) = batch_inv D False m s"
| "await_ok D m (AtTransfer i k ti, s) =
     (batch_running D m (report s) (batch_map s) \<and> i = completed_shards (telem (rebalance_tracker (batch_map s))) \<and>
      work_ok D False (work_keys s @ [k]) (prev_slots (batch_map s) ! i) \<and> loaded_index s = Some i \<and>
      shard_index D (batch_map s) k = Some ti \<and> (\<exists>t. get_or_init_shard D (batch_map s) ti = Some (t, batch_map s)))"
| "await_ok D m (AtObserve i, s) =
     (batch_running D m (report s) (batch_map s) \<and> i = completed_shards (telem (rebalance_tracker (batch_map s))) \<and>
      work_ok D False (work_keys s) (prev_slots (batch_map s) ! i) \<and> loaded_index s = Some i)"
| "await_ok D m (AtEnd, s) =
     (batch_running D m (report s) (batch_map s) \<or> batch_done D m (report s) (batch_map s))"

lemma batch_runningD:
  assumes "batch_running D m r m'"
  shows "wf_dirs D m'" "migrating (rebalance_tracker m')" "same_content D m m'"
  using assms by (simp_all add: batch_running_def batch_core_def)

lemma batch_inv_running: "batch_inv D exact m s \<Longrightarrow> batch_running D m (report s) (batch_map s)"
  by (simp add: batch_inv_def Let_def)

context starshard_deps
begin

lemma running_init:
  assumes "batch_running D m r m1" "i < length (shards m1)"
  shows "batch_running D m r (unlock i (init_slot D m1 i) m1)"
proof -
  have wf: "wf_dirs D m1" using assms(1) by (simp add: batch_running_def batch_core_def)
  note g = get_or_init_wf[OF wf assms(2)]
  have "same_content D m1 (unlock i (init_slot D m1 i) m1)" using g by (simp add: same_content_def)
  then show ?thesis using assms(1) g(1) same_content_trans by (fastforce simp: batch_running_def batch_core_def)
qed

lemma prepare_await_ok:
  assumes inv: "batch_inv D False m s" and e: "rep_moved_entries (report s) < e"
    and nx: "async_prepare D env e p s = Some c'"
  shows "await_ok D m c'"
proof -
  define i where "i = completed_shards (telem (rebalance_tracker (batch_map s)))"
  define s1 where "s1 = load_work D env p e i s"
  note run = batch_inv_running[OF inv] and wf = batch_runningD(1,2)[OF batch_inv_running[OF inv]]
  have ix: "status_moved (tracker_snapshot (rebalance_tracker (batch_map s))) = i"
    using wf(2) by (simp add: tracker_snapshot_moved_cong i_def)
  have src: "source_slot i (batch_map s) = prev_slots (batch_map s) ! i" using source_slot_wf[OF wf, folded i_def] .
  have b1: "batch_map s1 = batch_map s" "report s1 = report s" "loaded_index s1 = Some i" by (simp_all add: s1_def)
  have wk: "work_ok D False (work_keys s1) (prev_slots (batch_map s) ! i)"
    unfolding s1_def by (rule load_work_ok(1)[OF inv i_def e]) simp
  show ?thesis
  proof (cases "work_keys s1 = []")
    case True
    then have "c' = (AtObserve i, s1)" using nx by (simp add: async_prepare_def ix s1_def[symmetric] Let_def)
    then show ?thesis using run wk b1 by (simp add: i_def)
  next
    case False
    let ?k = "last (work_keys s1)" and ?s2 = "s1\<lparr>work_keys := butlast (work_keys s1)\<rparr>"
    let ?ti = "route D (length (shards (batch_map s))) ?k"
    let ?m1 = "unlock ?ti (init_slot D (batch_map s) ?ti) (batch_map s)"
    have ti: "?ti < length (shards (batch_map s))" using route_less[OF wf_dirsD(1)[OF wf(1)]] .
    have "slot_get D (prev_slots (batch_map s) ! i) ?k \<noteq> None" using wk False by (simp add: work_ok_def)
    then have sd: "prev_slots (batch_map s) ! i \<noteq> None" by (auto simp: slot_get_def split: option.splits)
    have c': "c' = (AtTransfer i ?k ?ti, ?s2\<lparr>batch_map := ?m1\<rparr>)"
      using nx False sd ti
      by (auto simp: async_prepare_def ix s1_def[symmetric] src b1 shard_index_wf[OF wf(1)] get_or_init_eq[OF ti] Let_def)
    note r1 = running_init[OF run ti]
    have at: "get_or_init_shard D ?m1 ?ti = Some (init_slot D (batch_map s) ?ti, ?m1)"
      by (rule get_or_init_twice(1)[OF get_or_init_eq[OF ti]])
    have "shard_index D ?m1 ?k = Some ?ti"
      using get_or_init_twice(2)[OF get_or_init_eq[OF ti, of D]] shard_index_wf[OF wf(1)] by metis
    then show ?thesis using r1 at b1 wk False by (simp add: c' i_def)
  qed
qed

lemma transfer_await_ok:
  assumes ok: "await_ok D m (AtTransfer i k ti, s)" and tel: "0 < to_shards tel"
    and nx: "async_transfer D tel i k ti s = Some s'"
  shows "await_ok D m (AtObserve i, s')"
proof -
  let ?s = "s\<lparr>work_keys := work_keys s @ [k]\<rparr>"
  have run: "batch_running D m (report s) (batch_map s)" and i: "i = completed_shards (telem (rebalance_tracker (batch_map s)))"
    and wk: "work_ok D False (work_keys s @ [k]) (prev_slots (batch_map s) ! i)" and l: "loaded_index s = Some i"
    and si: "shard_index D (batch_map s) k = Some ti" using ok unfolding await_ok.simps by blast+
  obtain t where gi: "get_or_init_shard D (batch_map s) ti = Some (t, batch_map s)" using ok unfolding await_ok.simps by blast
  note wf = batch_runningD(1,2)[OF run]
  obtain sd where sd: "prev_slots (batch_map s) ! i = Some sd" using wk by (cases "prev_slots (batch_map s) ! i") (auto simp: work_ok_def)
  have src: "source_slot i (batch_map s) = Some sd" using source_slot_wf[OF wf, folded i] sd by simp
  have eq: "async_transfer D tel i k ti s = move_next D tel i (prev_slots (batch_map s) ! i) ?s"
    using async_transfer_eq[OF si gi src, of tel s] sd by (cases "migrate_key D tel i sd k (batch_map s)") (simp_all add: move_next_def)
  have "batch_running D m (report ?s) (batch_map ?s)" "i = completed_shards (telem (rebalance_tracker (batch_map ?s)))"
    "work_ok D False (work_keys ?s) (prev_slots (batch_map ?s) ! i)" using run i wk by simp_all
  from move_next_ok[OF this tel] obtain s2 where s2: "move_next D tel i (prev_slots (batch_map s) ! i) ?s = Some s2"
    "batch_running D m (report s2) (batch_map s2)" "i = completed_shards (telem (rebalance_tracker (batch_map s2)))"
    "work_ok D False (work_keys s2) (prev_slots (batch_map s2) ! i)" "loaded_index s2 = Some i" using l by auto
  have "s' = s2" using s2(1) nx unfolding eq by simp
  then show ?thesis using s2(2-5) unfolding await_ok.simps by blast
qed

lemma await_ok_next:
  assumes ok: "await_ok D m c" and tel: "0 < to_shards tel" and nx: "async_next D env tel mx e p c = Some c'"
  shows "await_ok D m c'"
proof (cases "(D, env, tel, mx, e, p, c)" rule: async_next.cases)
  case (1 D' env' tel' mx' e' p' s)
  let ?s0 = "s\<lparr>control_reads := control_reads s + 1\<rparr>"
  have inv: "batch_inv D False m ?s0" and inv': "batch_inv D False m s" using ok 1 by (auto simp: batch_inv_def Let_def)
  show ?thesis
    using prepare_await_ok[OF inv, of e env p c'] batch_inv_running[OF inv'] nx 1
    by (auto simp: Let_def split: if_splits)
next
  case (2 D' env' tel' mx' e' p' i k ti s)
  then show ?thesis using transfer_await_ok[OF _ tel, of m i k ti s] ok nx by (auto simp del: await_ok.simps)
next
  case (3 D' env' tel' mx' e' p' i s)
  then have c: "c = (AtObserve i, s)" by simp
  obtain drained s3 where s3: "retire_source D i s = (drained, s3)" by fastforce
  obtain go s' where s': "finish_or_yield D env p drained s3 = (go, s')" by fastforce
  have h: "batch_running D m (report s) (batch_map s)" "i = completed_shards (telem (rebalance_tracker (batch_map s)))"
    "work_ok D False (work_keys s) (prev_slots (batch_map s) ! i)" "loaded_index s = Some i"
    using ok unfolding c await_ok.simps by blast+
  have ex: "False \<longrightarrow> p = 0" by simp
  note ry = retire_yield_ok(2,3)[OF h ex s3 s']
  have "c' = (if go then AtLoop else AtEnd, s')" using nx s3 s' by (simp add: c async_observe_def)
  then show ?thesis using ry by (cases go) simp_all
next
  case (4 D' env' tel' mx' e' p' s)
  then show ?thesis using nx by simp
qed

lemma await_ok_content:
  assumes "wf_map D m" "await_ok D m (pt, s)"
  shows "wf_map D (abandon_batch env tel p s)" "same_content D m (abandon_batch env tel p s)"
proof -
  have core: "batch_core D m (batch_map s)"
    using assms(2) by (cases pt) (auto simp: batch_inv_def batch_running_def batch_done_def Let_def)
  then have wd: "wf_dirs D (batch_map s)" and sc: "same_content D m (batch_map s)" by (simp_all add: batch_core_def)
  show sc': "same_content D m (abandon_batch env tel p s)" using sc by (simp add: abandon_batch_def)
  have "wf_dirs D (abandon_batch env tel p s)"
    unfolding abandon_batch_def by (rule wf_dirs_tracker[OF wd migration_ok_record[OF wf_dirsD(7)[OF wd]]])
  then show "wf_map D (abandon_batch env tel p s)" by (rule same_content_wf[OF sc' _ assms(1)])
qed

lemma batch_start_ok: "wf_map D m \<Longrightarrow> migrating (rebalance_tracker m) \<Longrightarrow> batch_inv D False m (batch_start m)"
  by (simp add: batch_inv_def batch_start_def batch_running_def batch_core_def batch_report_default_def wf_map_def)

lemma abandoned_batch_ok:
  assumes wf: "wf_map D m" and mg: "migrating (rebalance_tracker m)" and tel: "tel = tracker_telemetry t (rebalance_tracker m)"
    and aw: "batch_awaits D env tel mx e p m (pt, s)"
  shows "wf_map D (abandon_batch env tel p s)" "same_content D m (abandon_batch env tel p s)"
proof -
  have pos: "0 < to_shards tel" using migration_okE(4)[OF wf_map_dirs[OF wf] mg] by (simp add: tel)
  have "await_ok D m c" if "batch_awaits D env tel mx e p m c" for c
    using that
  proof (induction rule: batch_awaits.induct)
    case aw_start
    then show ?case using batch_start_ok[OF wf mg] by simp
  next
    case (aw_next c c')
    then show ?case using await_ok_next[OF _ pos] by blast
  qed
  from await_ok_content[OF wf this[OF aw]]
  show "wf_map D (abandon_batch env tel p s)" "same_content D m (abandon_batch env tel p s)" .
qed

end

end
