(* ===== verification/Async_Online.thy ===== *)
theory Async_Online
  imports Async_Migration
begin

text \<open>
  The asynchronous map as a whole: its staged copy, its cooperative loop and its worker task complete,
  and with all of resharding as background work it meets the same contracts as the synchronous map, so
  the two answer every sequence of calls alike.
\<close>

section \<open>Staged copy\<close>

context starshard_deps
begin

lemma async_staged_insert_ok:
  assumes t: "0 < target" "length maps = target" and ok: "slots_ok D mode (staged_slots mode maps)"
  shows "\<exists>maps'. async_staged_insert D target (k, v) maps = Some maps' \<and> length maps' = target \<and>
    slots_ok D mode (staged_slots mode maps') \<and>
    slots_get D (staged_slots mode maps') = (slots_get D (staged_slots mode maps))(k \<mapsto> v)"
proof -
  let ?i = "route D target k"
  let ?mp = "case maps ! ?i of None \<Rightarrow> hb_new (shard_ops D) | Some mp \<Rightarrow> mp"
  let ?new = "snd (hb_insert (shard_ops D) ?mp k v)"
  have i: "?i < length maps" using t by (simp add: route_def)
  have at: "hb_get (shard_ops D) ?mp k' = slot_get D (staged_slots mode maps ! ?i) k'" for k'
    using i by (cases "maps ! ?i") (simp_all add: H.get_new)
  have "async_staged_insert D target (k, v) maps = Some (maps[?i := Some ?new])"
    using t i by (simp add: async_staged_insert_def route_def[symmetric] Let_def)
  moreover have sl: "staged_slots mode (maps[?i := Some ?new]) = (staged_slots mode maps)[?i := Some (shard_data_new ?new mode)]"
    by (simp add: map_update)
  have "hb_get (shard_ops D) ?mp k' \<noteq> None \<longrightarrow> route D target k' = ?i" for k'
    using slots_okD[OF ok, of ?i] at[of k'] i t by (cases "maps ! ?i") (auto simp: shard_ok_def)
  then have "shard_ok D mode target ?i (shard_data_new ?new mode)"
    by (auto simp: shard_ok_def H.get_insert)
  then have "slots_ok D mode (staged_slots mode (maps[?i := Some ?new]))"
    unfolding sl using i t by (intro slots_ok_update[OF ok]) auto
  moreover have "slots_get D (staged_slots mode (maps[?i := Some ?new])) k' = ((slots_get D (staged_slots mode maps))(k \<mapsto> v)) k'" for k'
    unfolding sl using i t at[of k'] slots_get_at[of ?i "staged_slots mode maps" D k']
    by (auto simp: slots_get_update H.get_insert)
  ultimately show ?thesis using t by (intro exI[of _ "maps[?i := Some ?new]"]) (simp add: fun_eq_iff)
qed

lemma staged_len: "sum_list (map (hb_len (shard_ops D)) (List.map_filter id maps)) = slots_len D (staged_slots mode maps)"
  by (induction maps) (auto simp: slots_len_def map_filter_def split: option.splits)

lemma async_stage_all_ok:
  assumes wf: "wf_dirs D m" and t: "0 < target"
  shows "\<exists>maps. async_stage_all D target m = Some (maps, stored_len D m) \<and> length maps = target \<and>
    slots_ok D mode (staged_slots mode maps) \<and> slots_get D (staged_slots mode maps) = view D m"
proof -
  define es where "es = slots_entries D (prev_slots m) @ slots_entries D (shards m)"
  have mset: "mset (stored_entries D m) = mset (rev es)" by (simp add: es_def stored_entries_eq)
  have "lists_map (stored_entries D m) (view D m)" using stored_entries_spec[OF wf] by (simp add: lists_map_def)
  from lists_map_mset[OF mset this] have view: "map_of (rev es) = view D m" by (simp add: lists_map_def)
  let ?R = "\<lambda>xs maps. length maps = target \<and> slots_ok D mode (staged_slots mode maps) \<and>
     slots_get D (staged_slots mode maps) = map_of (rev xs)"
  have "\<exists>maps. fold_option (async_staged_insert D target) es (replicate target None) = Some maps \<and> ?R es maps"
  proof (rule fold_option_rel)
    show "?R [] (replicate target None)" by (simp add: slots_ok_def fun_eq_iff)
  next
    fix ys y zs maps assume R: "?R ys maps"
    then show "\<exists>maps'. async_staged_insert D target y maps = Some maps' \<and> ?R (ys @ [y]) maps'"
      using async_staged_insert_ok[OF t, of maps mode "fst y" "snd y"] by (cases y) auto
  qed
  then obtain maps where maps: "fold_option (async_staged_insert D target) es (replicate target None) = Some maps" "?R es maps" by blast
  have "slots_len D (staged_slots mode maps) = card (dom (view D m))"
    using card_slots_get[of mode "staged_slots mode maps"] maps(2) view by simp
  then have len: "sum_list (map (hb_len (shard_ops D)) (List.map_filter id maps)) = stored_len D m"
    using staged_len[of maps mode] stored_len_card[OF wf] by simp
  have "concat (map (\<lambda>g. hb_iter (shard_ops D) (as_map g))
      ((case previous_shards m of None \<Rightarrow> [] | Some ps \<Rightarrow> List.map_filter id ps) @ List.map_filter id (shards m))) = es"
    by (cases "previous_shards m") (simp_all add: es_def slots_entries_def prev_slots_def map_filter_simps)
  then have "async_stage_all D target m = Some (maps, stored_len D m)"
    using maps(1) len by (simp add: async_stage_all_def Let_def)
  then show ?thesis using maps(2) view by auto
qed

lemma async_publish_ok:
  assumes "wf_map D m"
  shows "async_publish_staged D target maps (stored_len D m) m = publish_staged D target maps (stored_len D m) m"
  using assms by (simp add: async_publish_staged_def publish_staged_def wf_map_def)

section \<open>Loops that complete\<close>

lemma async_cooperative_ok:
  assumes "wf_map D m" "0 < target"
  shows "\<exists>m'. async_cooperative_loop D clks target opts rnd n m = Some (n + coop_moves D target m, m') \<and> wf_map D m' \<and>
    same_content D m m' \<and> \<not> migrating (rebalance_tracker m') \<and> shard_count m' = target"
proof (rule coop_equation_ok[OF _ assms])
  show "async_cooperative_loop D clks target opts rnd n m =
      (if \<not> migrating (rebalance_tracker m) \<and> shard_count m = target then Some (n, m)
       else do {
         (r, m3) \<leftarrow> advance_rebalance_with_options D (clks rnd) opts (snd (resume_rebalance
            (if migrating (rebalance_tracker m) then m else begin_migration D (shard_count m) target m)));
         async_cooperative_loop D clks target opts (rnd + 1) (n + rep_moved_entries r) m3
       })" for rnd n m
    by (subst async_cooperative_loop.simps) (simp add: is_migrating_def async_advance_options_eq async_control_eqs Let_def)
qed

lemma async_rebalance_to_ok:
  assumes wf: "wf_map D m" and t: "strict_shard_count req MAX_SHARDS = Inr target"
  shows "\<exists>r m'. async_rebalance_to D clks req opts m = Some (Inr r, m') \<and> wf_map D m' \<and> same_content D m m' \<and>
    \<not> migrating (rebalance_tracker m') \<and> shard_count m' = target \<and> rr_from_shards r = shard_count m \<and> rr_to_shards r = target"
proof -
  have pos: "0 < target" using strict_Inr[OF t] by simp
  obtain m1 where m1: "async_cooperative_loop D clks target opts 0 0 m = Some (0 + coop_moves D target m, m1)" "wf_map D m1"
    "same_content D m m1" "\<not> migrating (rebalance_tracker m1)" "shard_count m1 = target"
    using async_cooperative_ok[OF wf pos] by blast
  obtain maps where maps: "async_stage_all D target m = Some (maps, stored_len D m)" "length maps = target"
    "slots_ok D (snapshot_mode m) (staged_slots (snapshot_mode m) maps)" "slots_get D (staged_slots (snapshot_mode m) maps) = view D m"
    using async_stage_all_ok[OF wf_map_dirs[OF wf] pos] by blast
  note pub = publish_staged_ok[OF wf pos maps(2,3,4), of "stored_len D m"]
  consider "opt_background opts" | "\<not> opt_background opts" "target = shard_count m" "\<not> migrating (rebalance_tracker m)"
    | "\<not> opt_background opts" "\<not> (target = shard_count m \<and> \<not> migrating (rebalance_tracker m))" by blast
  then show ?thesis
  proof cases
    case 1
    then show ?thesis using m1 by (simp add: async_rebalance_to_def t)
  next
    case 2
    then show ?thesis using wf by (simp add: async_rebalance_to_def t is_migrating_def)
  next
    case 3
    have "async_rebalance_to D clks req opts m = Some (Inr \<lparr>rr_from_shards = shard_count m, rr_to_shards = target,
        rr_moved_entries = stored_len D m, rr_elapsed_ms = elapsed D div 1000000\<rparr>, publish_staged D target maps (stored_len D m) m)"
      using 3 maps(1) by (auto simp: async_rebalance_to_def t is_migrating_def async_publish_ok[OF wf])
    then show ?thesis using pub by simp
  qed
qed

lemma async_run_worker_ok:
  assumes "wf_map D m" "worker_ready tk m" "\<And>i j. \<not> control_cancelled (envs i) j" "\<And>i. \<not> cancels i"
  shows "worker_done D tk 0 m (async_run_worker D envs cancels opts tk m)"
proof (cases "ticket_complete tk")
  case True
  note c = worker_complete_ok[OF assms(1,2) True]
  show ?thesis using c(1)[of "cancels 0"] c(2)[of opts]
    by (simp add: async_run_worker_def async_worker_loop.simps async_wait_eq Let_def)
next
  case False
  have "worker_done D tk (wk_moved (worker_start tk opts)) m (async_worker_loop D envs cancels opts tk 0 (worker_start tk opts) m)"
    by (rule worker_equation_ok[where envs = envs and cancels = cancels and opts = opts, OF _ assms(1,2) False _ assms(3,4)])
      (subst async_worker_loop.simps, unfold async_wait_eq async_worker_round_eq Let_def, rule refl, simp add: worker_start_def)
  then show ?thesis by (simp add: async_run_worker_def worker_start_def)
qed

end

section \<open>Background work\<close>

text \<open>\<open>AsyncAbandon\<close> is a batch whose future is dropped after \<open>j\<close> of its steps.\<close>

datatype async_background =
    AsyncStartOnline nat
  | AsyncAdvance batch_env nat nat nat "u64 option"
  | AsyncAbandon batch_env nat nat nat nat
  | AsyncPause
  | AsyncResume
  | AsyncRebalanceTo "nat \<Rightarrow> nat \<Rightarrow> nat" nat rebalance_options
  | AsyncSpawnWorker bool nat

fun steps_of ::
  "('k, 'v, 'm, 'b) deps \<Rightarrow> batch_env \<Rightarrow> telemetry \<Rightarrow> nat \<Rightarrow> nat \<Rightarrow> nat \<Rightarrow> nat \<Rightarrow> 'k await_point \<times> ('k, 'v, 'm, 'b) batch_state \<Rightarrow>
   'k await_point \<times> ('k, 'v, 'm, 'b) batch_state" where
  "steps_of D env tel mx e p 0 c = c"
| "steps_of D env tel mx e p (Suc j) c =
     (case async_next D env tel mx e p c of None \<Rightarrow> c | Some c' \<Rightarrow> steps_of D env tel mx e p j c')"

fun async_background_op ::
  "('k, 'v, 'm, 'b) deps \<Rightarrow> async_background \<Rightarrow> ('k, 'v, 'm, 'b) sharded_map \<Rightarrow> ('k, 'v, 'm, 'b) sharded_map option" where
  "async_background_op D (AsyncStartOnline n) m = Some (snd (async_start_rebalance_online D n m))"
| "async_background_op D (AsyncAdvance env mx e p expd) m = map_option snd (async_advance_rebalance_inner D env mx e p expd m)"
| "async_background_op D (AsyncAbandon env mx e p j) m =
     (if \<not> is_migrating (rebalance_tracker m) then Some m
      else
        (let tel = tracker_telemetry (now D) (rebalance_tracker m)
         in Some (abandon_batch env tel p (snd (steps_of D env tel mx e p j (AtLoop, batch_start m))))))"
| "async_background_op D AsyncPause m = Some (snd (async_pause_rebalance m))"
| "async_background_op D AsyncResume m = Some (snd (async_resume_rebalance m))"
| "async_background_op D (AsyncRebalanceTo clks n opts) m = map_option snd (async_rebalance_to D clks n opts m)"
| "async_background_op D (AsyncSpawnWorker runtime n) m = Some (snd (async_spawn_rebalance D runtime n m))"

lemma steps_of_awaits:
  "batch_awaits D env tel mx e p m c \<Longrightarrow> batch_awaits D env tel mx e p m (steps_of D env tel mx e p j c)"
  by (induction j arbitrary: c) (auto split: option.splits intro: aw_next)

context starshard_deps
begin

lemma async_background_unseen:
  assumes wf: "wf_map D m"
  shows "\<exists>m'. async_background_op D b m = Some m' \<and> wf_map D m' \<and> same_content D m m'"
proof (cases b)
  case (AsyncStartOnline n)
  then show ?thesis using start_online_ok[OF wf] by (simp add: async_control_eqs)
next
  case (AsyncAdvance env mx e p expd)
  then show ?thesis using advance_inner_ok[OF wf, of env mx e p expd] by (auto simp: batch_post_def async_advance_inner_eq)
next
  case (AsyncAbandon env mx e p j)
  let ?tel = "tracker_telemetry (now D) (rebalance_tracker m)"
  obtain pt s where c: "steps_of D env ?tel mx e p j (AtLoop, batch_start m) = (pt, s)" by fastforce
  have aw: "batch_awaits D env ?tel mx e p m (pt, s)" using steps_of_awaits[OF aw_start] c by metis
  show ?thesis using AsyncAbandon abandoned_batch_ok[OF wf _ refl aw] wf by (auto simp: is_migrating_def c Let_def)
next
  case AsyncPause
  then show ?thesis using pause_rebalance_ok[OF wf] by (simp add: async_control_eqs)
next
  case AsyncResume
  then show ?thesis using resume_rebalance_ok(1,2)[OF wf] by (simp add: async_control_eqs)
next
  case (AsyncRebalanceTo clks n opts)
  show ?thesis
  proof (cases "strict_shard_count n MAX_SHARDS")
    case (Inl e)
    then show ?thesis using AsyncRebalanceTo wf by (simp add: async_rebalance_to_def)
  next
    case (Inr target)
    then show ?thesis using AsyncRebalanceTo async_rebalance_to_ok[OF wf Inr, of clks opts] by auto
  qed
next
  case (AsyncSpawnWorker runtime n)
  then show ?thesis using spawn_safe[OF wf, of True n] wf
    by (cases runtime) (simp_all add: async_spawn_eq, simp add: async_spawn_rebalance_def)
qed

end

end
