(* ===== verification/Async_Contract.thy ===== *)
theory Async_Contract
  imports Async_Online
begin

text \<open>
  The asynchronous map meets the contracts of \<open>Map_Contract\<close>, with resharding and abandoned batches as
  background work, and the statements about its public operations in terms of the view. The last section
  is about an operation whose future is dropped.
\<close>

section \<open>Contracts\<close>

context starshard_deps
begin

lemma async_get_post:
  assumes "wf_map D m"
  shows "\<exists>m'. async_get D k m = Some (view D m k, m') \<and> op_post D m (view D m) m' \<and> view D m' = view D m \<and>
    write_epoch m' = write_epoch m"
  using async_read_post[OF assms, of k id] by (simp add: async_get_def)

end

sublocale starshard_deps \<subseteq> async: map_operations D "async_insert D" "async_get D" "async_remove D"
  by unfold_locales (rule async_insert_post async_get_post async_remove_post; assumption)+

sublocale starshard_deps \<subseteq> async_online: online_contract "plain_map D" "view D" "async_insert D" "async_get D" "async_remove D"
  "async_background_op D"
proof
  fix m b assume "plain_map D m"
  then show "\<exists>s'. async_background_op D b m = Some s' \<and> plain_map D s' \<and> view D s' = view D m"
    using async_background_unseen[of m b] unfolding plain_map_def same_content_def by metis
qed

lemma async_enforce_plain: "life_opts (lifecycle m) = None \<Longrightarrow> async_enforce D m = Some (0, m)"
  by (simp add: async_enforce_def maintain_eviction_def opts_None config_def)

context starshard_deps
begin

lemma async_call_keeps_cache:
  assumes c: "cached_map D n m"
  shows "\<exists>m'. run_call (async_insert D) (async_get D) (async_remove D) c m = Some (fst (spec_call c (view D m)), m') \<and>
    cached_map D (Suc n) m' \<and> view D m' = snd (spec_call c (view D m))"
proof -
  have wf: "wf_map D m" and pl: "life_opts (lifecycle m) = None" and ca: "cache_ok D n m"
    using c by (simp_all add: cached_map_def plain_map_def)
  have w0: "wf_map D (begin_op m)" using wf by simp
  have c0: "cache_ok D n (begin_op m)" by (rule cache_ok_frame[OF ca]) simp_all
  show ?thesis
  proof (cases c)
    case (Insert k v)
    obtain m1 where m1: "async_insert_inner D k v (begin_op m) = Some (view D m k, m1)"
      and cm: "committed D (begin_op m) ((view D m)(k \<mapsto> v)) (write_epoch (begin_op m) + 1)
        (insert_hook D k v (view D m k \<noteq> None) (lifecycle (begin_op m))) m1"
      using async_insert_inner_spec[OF w0, of k v] by auto
    have lo: "life_opts (lifecycle m1) = None" using cm pl by (simp add: committed_def)
    then show ?thesis
      using Insert m1 cm async_enforce_plain[OF lo, of D] cache_ok_committed[OF c0 cm]
      by (auto simp: async_insert_def cached_map_def plain_map_def committed_def)
  next
    case (Get k)
    have "cache_ok D (Suc n) (tracked_read D k (view D m k) m)"
      by (rule cache_ok_frame[OF cache_ok_mono[OF ca]]) (simp_all add: tracked_read_def)
    then show ?thesis using Get async_read_key_eq[OF wf_map_dirs[OF wf], of k id] wf pl
      by (simp add: async_get_def cached_map_def plain_map_def)
  next
    case (Delete k)
    obtain m1 l where r: "async_remove_inner D k (begin_op m) = Some (view D m k, m1)"
      and cm: "committed D (begin_op m) ((view D m)(k := None)) (if view D m k = None then write_epoch (begin_op m) else write_epoch (begin_op m) + 1) l m1"
      and l: "life_opts l = life_opts (lifecycle (begin_op m))"
      using async_remove_inner_spec[OF w0, of k] by auto
    have lo: "life_opts (lifecycle m1) = None" using cm l pl by (simp add: committed_def)
    have "cache_ok D (Suc n) m1"
      by (rule cache_ok_committed[OF c0 cm]) (auto simp: fun_upd_idem)
    then show ?thesis using Delete r lo cm async_enforce_plain[OF lo, of D]
      by (auto simp: async_remove_def cached_map_def plain_map_def committed_def)
  qed
qed

lemma async_background_keeps_cache:
  assumes "cached_map D n m"
  shows "\<exists>m'. async_background_op D b m = Some m' \<and> cached_map D n m' \<and> view D m' = view D m"
proof -
  obtain m' where m': "async_background_op D b m = Some m'" "wf_map D m'" "same_content D m m'"
    using async_background_unseen assms by (auto simp: cached_map_def plain_map_def)
  then show ?thesis using assms cache_ok_frame[of D n m m'] by (auto simp: cached_map_def plain_map_def same_content_def)
qed

lemma async_shared_snapshot_eq: "async_shared_snapshot D m = shared_snapshot D seq_collect m"
  by (simp add: async_shared_snapshot_def shared_snapshot_def async_snapshot_eqs)

end

sublocale starshard_deps \<subseteq> async_snapshots: snapshot_contract "cached_map D" "view D" "async_background_op D"
  "run_call (async_insert D) (async_get D) (async_remove D)" "async_shared_snapshot D"
proof
  show "\<exists>s'. async_background_op D e s = Some s' \<and> cached_map D n s' \<and> view D s' = view D s" if "cached_map D n s" for n s e
    using async_background_keeps_cache[OF that] .
  show "\<exists>s'. run_call (async_insert D) (async_get D) (async_remove D) c s = Some (fst (spec_call c (view D s)), s') \<and>
      cached_map D (Suc n) s' \<and> view D s' = snd (spec_call c (view D s))" if "cached_map D n s" for n s c
    using async_call_keeps_cache[OF that] .
  show "\<exists>data s'. async_shared_snapshot D s = (data, s') \<and> lists_map data (view D s) \<and> cached_map D n s' \<and> view D s' = view D s"
    if "cached_map D n s" "n < 2 ^ 64" for n s
    using snapshot_keeps_cache[OF that seq_collects] unfolding async_shared_snapshot_eq .
qed

section \<open>Dropped operations\<close>

text \<open>
  The maps an \<open>insert\<close> or \<open>remove\<close> can leave when its future is dropped: at a lock it awaits before its
  shard exists, at the locks after \<open>get_or_init_shard\<close>, or when the mutation is done and the maintenance
  pass is awaited. From the last await of \<open>lock_key\<close> to the end of the inner operation nothing suspends.
  The drop of the unfinished ticket marks the metadata dirty.
\<close>

definition dropped :: "('k, 'v, 'm, 'b) sharded_map \<Rightarrow> ('k, 'v, 'm, 'b) sharded_map" where
  "dropped m = m\<lparr>lifecycle := ticket_drop False (lifecycle m)\<rparr>"

definition shard_created ::
  "('k, 'v, 'm, 'b) deps \<Rightarrow> 'k \<Rightarrow> ('k, 'v, 'm, 'b) sharded_map \<Rightarrow> ('k, 'v, 'm, 'b) sharded_map option" where
  "shard_created D key m = do {
     index \<leftarrow> shard_index D m key;
     map_option snd (get_or_init_shard D m index)
   }"

datatype drop_point = AwaitRouting | AwaitShard | AwaitMaintenance

fun insert_dropped ::
  "('k, 'v, 'm, 'b) deps \<Rightarrow> 'k \<Rightarrow> 'v \<Rightarrow> drop_point \<Rightarrow> ('k, 'v, 'm, 'b) sharded_map \<Rightarrow> ('k, 'v, 'm, 'b) sharded_map option" where
  "insert_dropped D key val AwaitRouting m = Some (dropped (begin_op m))"
| "insert_dropped D key val AwaitShard m = map_option dropped (shard_created D key (begin_op m))"
| "insert_dropped D key val AwaitMaintenance m =
     map_option (\<lambda>(_, m1). dropped m1) (async_insert_inner D key val (begin_op m))"

fun remove_dropped ::
  "('k, 'v, 'm, 'b) deps \<Rightarrow> 'k \<Rightarrow> drop_point \<Rightarrow> ('k, 'v, 'm, 'b) sharded_map \<Rightarrow> ('k, 'v, 'm, 'b) sharded_map option" where
  "remove_dropped D key AwaitRouting m = Some (dropped (begin_op m))"
| "remove_dropped D key AwaitShard m = map_option dropped (shard_created D key (begin_op m))"
| "remove_dropped D key AwaitMaintenance m =
     map_option (\<lambda>(_, m1). dropped m1) (async_remove_inner D key (begin_op m))"

text \<open>
  A \<open>retain\<close> awaits routing, then the directories, then every shard in turn, and commits each removal at once: when
  it is dropped at a shard, the shards before it have lost what the predicate rejects. The result lists what has been
  removed. \<open>RetainShards n\<close> is the drop after the first \<open>n\<close> slots, active ones first; the empty slots among
  them are passed over. Two unfinished tickets are dropped there, one while the maintenance pass is awaited.
\<close>

definition for_first_shards ::
  "nat \<Rightarrow> ('m shard_data \<Rightarrow> 'a \<Rightarrow> ('k, 'v, 'm, 'b) sharded_map \<Rightarrow> 'm shard_data \<times> 'a \<times> ('k, 'v, 'm, 'b) sharded_map) \<Rightarrow>
   'a \<Rightarrow> ('k, 'v, 'm, 'b) sharded_map \<Rightarrow> 'a \<times> ('k, 'v, 'm, 'b) sharded_map" where
  "for_first_shards n f acc m =
     fold (for_previous f) (take (n - length (shards m)) [0..<length (prev_slots m)])
       (fold (for_active f) (take n [0..<length (shards m)]) (acc, m))"

definition retain_cut ::
  "('k, 'v, 'm, 'b) deps \<Rightarrow> ('k \<Rightarrow> 'v \<Rightarrow> bool) \<Rightarrow> nat \<Rightarrow> ('k, 'v, 'm, 'b) sharded_map \<Rightarrow> ('k \<times> 'v) list \<times> ('k, 'v, 'm, 'b) sharded_map" where
  "retain_cut D predicate n m =
     (let (removed, m1) = for_first_shards n (async_retain_shard D predicate) [] (m\<lparr>lifecycle := mutation (lifecycle m)\<rparr>)
      in (removed, dropped (dropped m1)))"

datatype retain_point = RetainRouting | RetainShards nat | RetainMaintenance

fun retain_dropped ::
  "('k, 'v, 'm, 'b) deps \<Rightarrow> ('k \<Rightarrow> 'v \<Rightarrow> bool) \<Rightarrow> retain_point \<Rightarrow> ('k, 'v, 'm, 'b) sharded_map \<Rightarrow>
   ('k \<times> 'v) list \<times> ('k, 'v, 'm, 'b) sharded_map" where
  "retain_dropped D predicate RetainRouting m = ([], dropped (begin_op m))"
| "retain_dropped D predicate (RetainShards n) m = retain_cut D predicate n (begin_op m)"
| "retain_dropped D predicate RetainMaintenance m =
     (let m0 = begin_op m;
          (removed, m1) = for_all_shards (async_retain_shard D predicate) [] (m0\<lparr>lifecycle := mutation (lifecycle m0)\<rparr>)
      in (removed, dropped m1))"

lemma life_opts_ticket_drop [simp]: "life_opts (ticket_drop b l) = life_opts l"
  by (simp add: ticket_drop_def life_opts_def Let_def)

lemma dropped_frame [simp]: "view D (dropped m) = view D m" "wf_map D (dropped m) = wf_map D m"
  by (simp_all add: dropped_def)

context starshard_deps
begin

lemma shard_created_ok:
  assumes wf: "wf_map D m"
  shows "\<exists>m'. shard_created D k m = Some m' \<and> wf_map D m' \<and> view D m' = view D m"
proof -
  have wd: "wf_dirs D m" using wf by (simp add: wf_map_def)
  let ?i = "route D (length (shards m)) k"
  have i: "?i < length (shards m)" using route_less[OF wf_dirsD(1)[OF wd]] .
  note g = get_or_init_wf[OF wd i]
  show ?thesis using g wf by (simp add: shard_created_def shard_index_wf[OF wd] get_or_init_eq[OF i] wf_map_def)
qed

lemma insert_dropped_ok:
  assumes "wf_map D m"
  shows "\<exists>m'. insert_dropped D k v pt m = Some m' \<and> wf_map D m' \<and>
    view D m' = (if pt = AwaitMaintenance then (view D m)(k \<mapsto> v) else view D m)"
  using assms shard_created_ok[of "begin_op m" k] async_insert_inner_spec[of "begin_op m" k v]
  by (cases pt) (auto simp: committed_def)

lemma remove_dropped_ok:
  assumes "wf_map D m"
  shows "\<exists>m'. remove_dropped D k pt m = Some m' \<and> wf_map D m' \<and>
    view D m' = (if pt = AwaitMaintenance then (view D m)(k := None) else view D m)"
  using assms shard_created_ok[of "begin_op m" k] async_remove_inner_spec[of "begin_op m" k]
  by (cases pt) (auto simp: committed_def)

text \<open>Any part of a loop over the shards takes out only what the predicate rejects.\<close>

lemma fold_active_shrunk:
  assumes "sheds D p f" "shrunk D out m m1" "\<forall>(k, v) \<in> set out. \<not> p k v" "set js \<subseteq> {..< length (shards m)}"
  shows "\<exists>out' m'. fold (for_active f) js (out, m1) = (out', m') \<and> shrunk D out' m m' \<and> (\<forall>(k, v) \<in> set out'. \<not> p k v)"
  using assms(2-4)
proof (induction js arbitrary: out m1)
  case (Cons j js)
  have wf: "wf_map D m1" and j: "j < length (shards m1)" using shrunkD[OF Cons.prems(1)] Cons.prems(3) by (simp_all add: same_meta_def)
  obtain o2 m2 where st: "for_active f j (out, m1) = (out @ o2, m2)" "shrunk D o2 m1 m2" "\<forall>(k, v) \<in> set o2. \<not> p k v"
    using for_active_spec[OF assms(1) wf j, of out] by blast
  have "\<forall>(k, v) \<in> set (out @ o2). \<not> p k v" using Cons.prems(2) st(3) by auto
  then show ?case using Cons.IH[OF shrunk_trans[OF Cons.prems(1) st(2)]] Cons.prems(3) st(1) by simp
qed simp

lemma fold_previous_shrunk:
  assumes "sheds D p f" "shrunk D out m m1" "\<forall>(k, v) \<in> set out. \<not> p k v" "set js \<subseteq> {..< length (prev_slots m)}"
  shows "\<exists>out' m'. fold (for_previous f) js (out, m1) = (out', m') \<and> shrunk D out' m m' \<and> (\<forall>(k, v) \<in> set out'. \<not> p k v)"
  using assms(2-4)
proof (induction js arbitrary: out m1)
  case (Cons j js)
  have wf: "wf_map D m1" and j: "j < length (prev_slots m1)" using shrunkD[OF Cons.prems(1)] Cons.prems(3) by (simp_all add: same_meta_def)
  obtain o2 m2 where st: "for_previous f j (out, m1) = (out @ o2, m2)" "shrunk D o2 m1 m2" "\<forall>(k, v) \<in> set o2. \<not> p k v"
    using for_previous_spec[OF assms(1) wf j, of out] by blast
  have "\<forall>(k, v) \<in> set (out @ o2). \<not> p k v" using Cons.prems(2) st(3) by auto
  then show ?case using Cons.IH[OF shrunk_trans[OF Cons.prems(1) st(2)]] Cons.prems(3) st(1) by simp
qed simp

lemma for_first_shards_spec:
  assumes f: "sheds D p f" and wf: "wf_map D m"
  shows "\<exists>out m'. for_first_shards n f [] m = (out, m') \<and> shrunk D out m m' \<and> (\<forall>(k, v) \<in> set out. \<not> p k v)"
proof -
  have "set (take n [0..<length (shards m)]) \<subseteq> {..< length (shards m)}" by (auto dest: in_set_takeD)
  then obtain o1 m1 where 1: "fold (for_active f) (take n [0..<length (shards m)]) ([], m) = (o1, m1)" "shrunk D o1 m m1"
    "\<forall>(k, v) \<in> set o1. \<not> p k v" using fold_active_shrunk[OF f shrunk_refl[OF wf]] by fastforce
  have "set (take (n - length (shards m)) [0..<length (prev_slots m)]) \<subseteq> {..< length (prev_slots m)}" by (auto dest: in_set_takeD)
  from fold_previous_shrunk[OF f 1(2,3) this] show ?thesis using 1(1) by (simp add: for_first_shards_def)
qed

lemma retain_cut_shrunk:
  assumes "wf_map D m"
  shows "\<exists>lost m'. retain_cut D p n m = (lost, m') \<and> shrunk D lost m m' \<and> (\<forall>(k, v) \<in> set lost. \<not> p k v)"
proof -
  have lo: "life_opts (mutation (lifecycle m)) = life_opts (lifecycle m)" by simp
  have w: "wf_map D (m\<lparr>lifecycle := mutation (lifecycle m)\<rparr>)" using assms by simp
  obtain lost m1 where "for_first_shards n (async_retain_shard D p) [] (m\<lparr>lifecycle := mutation (lifecycle m)\<rparr>) = (lost, m1)"
    "shrunk D lost (m\<lparr>lifecycle := mutation (lifecycle m)\<rparr>) m1" "\<forall>(k, v) \<in> set lost. \<not> p k v"
    using for_first_shards_spec[OF async_retain_sheds w] by blast
  then show ?thesis by (simp add: retain_cut_def dropped_def shrunk_def same_meta_def)
qed

lemma retain_dropped_ok:
  assumes "wf_map D m"
  shows "\<exists>lost m'. retain_dropped D p pt m = (lost, m') \<and> shrunk D lost m m' \<and> (\<forall>(k, v) \<in> set lost. \<not> p k v) \<and>
    (pt = RetainMaintenance \<longrightarrow> view D m' = (\<lambda>k. case view D m k of None \<Rightarrow> None | Some v \<Rightarrow> if p k v then Some v else None))"
proof (cases pt)
  case RetainRouting
  have "shrunk D [] m (dropped (begin_op m))" using shrunk_refl[OF assms] by (simp add: shrunk_def dropped_def begin_op_def same_meta_def)
  then show ?thesis using RetainRouting by simp
next
  case (RetainShards n)
  have w: "wf_map D (begin_op m)" using assms by simp
  obtain lost m' where c: "retain_cut D p n (begin_op m) = (lost, m')" "shrunk D lost (begin_op m) m'" "\<forall>(k, v) \<in> set lost. \<not> p k v"
    using retain_cut_shrunk[OF w, of p n] by blast
  have "shrunk D lost m m'" using c(2) by (simp add: shrunk_def same_meta_def begin_op_def)
  then show ?thesis using RetainShards c(1,3) by simp
next
  case RetainMaintenance
  let ?m0 = "(begin_op m)\<lparr>lifecycle := mutation (lifecycle (begin_op m))\<rparr>"
  have w: "wf_map D ?m0" using assms by simp
  obtain lost m1 where f: "for_all_shards (async_retain_shard D p) [] ?m0 = (lost, m1)" "shrunk D lost ?m0 m1"
    "\<forall>(k, v) \<in> set lost. \<not> p k v" "\<forall>k v. view D m1 k = Some v \<longrightarrow> p k v"
    using for_all_shards_spec[OF async_retain_sheds w] by blast
  have "view D m1 k = (case view D m k of None \<Rightarrow> None | Some v \<Rightarrow> if p k v then Some v else None)" for k
    using shrunk_filter(1)[OF f(2-4), of k] by simp
  moreover have "shrunk D lost m (dropped m1)" using f(2) by (simp add: shrunk_def same_meta_def dropped_def begin_op_def)
  ultimately show ?thesis using RetainMaintenance f(1,3) by (simp add: fun_eq_iff)
qed

lemma shrunk_len:
  assumes wf: "wf_map D m" and s: "shrunk D lost m m'"
  shows "len m' + of_nat (length lost) = len m"
proof -
  have w: "wf_map D m'" and v: "view D m' = view D m |` (- fst ` set lost)" and d: "distinct (map fst lost)"
    and sub: "fst ` set lost \<subseteq> dom (view D m)" using s by (auto simp: shrunk_def)
  have fin: "finite (dom (view D m))" using finite_dom_view wf by (simp add: wf_map_def)
  have "card (fst ` set lost) = length lost" using distinct_card[OF d] by simp
  moreover have "dom (view D m') = dom (view D m) - fst ` set lost" unfolding v by auto
  ultimately have "card (dom (view D m')) + length lost = card (dom (view D m))"
    using card_Diff_subset[OF _ sub] card_mono[OF fin sub] by simp
  then show ?thesis using len_card[OF wf] len_card[OF w] by (metis of_nat_add)
qed

end

end
