(* ===== verification/Async_Properties.thy ===== *)
theory Async_Properties
  imports Async_Contract
begin

text \<open>The statements about \<open>AsyncShardedHashMap\<close>, over a map that may be in the middle of a migration.\<close>

context starshard_deps
begin

lemma async_events_exact:
  "plain_map D m \<Longrightarrow> \<exists>m'. run_events (async_background_op D) (run_call (async_insert D) (async_get D) (async_remove D)) es m =
      Some (fst (spec_calls (calls_of es) (view D m)), m') \<and> plain_map D m' \<and> view D m' = snd (spec_calls (calls_of es) (view D m))"
  by (rule async_online.events_exact)

lemma async_calls_lossy:
  "wf_map D m \<Longrightarrow> \<exists>rs m'. run_calls (async_insert D) (async_get D) (async_remove D) cs m = Some (rs, m') \<and>
    wf_map D m' \<and> list_all2 lossy rs (fst (spec_calls cs (view D m))) \<and> view D m' \<subseteq>\<^sub>m snd (spec_calls cs (view D m))"
  by (rule async.cache.calls_lossy) simp_all

lemma async_history_exact:
  assumes "cached_map D n m" "n + length ss < 2 ^ 64"
  shows "\<exists>outs m'. run_history (async_background_op D) (run_call (async_insert D) (async_get D) (async_remove D))
      (async_shared_snapshot D) ss m = Some (outs, m') \<and> history_ok ss outs (view D m) \<and> wf_map D m'"
  using async_snapshots.history_exact[OF assms] by (auto simp: cached_map_def plain_map_def)

end

lemma strict_count_four [simp]: "strict_shard_count 4 MAX_SHARDS = Inr 4"
  by (simp add: strict_shard_count_def MAX_SHARDS_def normalized_shard_count_def)

text \<open>
  C30: without an eviction policy the asynchronous map refines the finite map: any sequence of \<open>insert\<close>,
  \<open>get\<close> and \<open>remove\<close>, interleaved with any resharding work and with migration batches dropped at any of
  their await points, runs without panic, is answered as by the finite map and ends in its content.
\<close>

theorem async_map_refines_map:
  assumes "starshard_deps D" "wf_map D m" "configured (lifecycle m) = None"
  shows "\<exists>m'. run_events (async_background_op D) (run_call (async_insert D) (async_get D) (async_remove D)) es m =
      Some (fst (spec_calls (calls_of es) (view D m)), m') \<and> wf_map D m' \<and> view D m' = snd (spec_calls (calls_of es) (view D m))"
proof -
  have "plain_map D m" using assms by (simp add: plain_map_def opts_None)
  from starshard_deps.async_events_exact[OF assms(1) this, of es]
  show ?thesis by (auto simp: plain_map_def)
qed

theorem async_map_refines_map_witness:
  "\<exists>m'. run_events (async_background_op nat_deps) (run_call (async_insert nat_deps) (async_get nat_deps) (async_remove nat_deps))
       [Inr (Insert 1 10), Inl (AsyncStartOnline 4), Inl (AsyncAbandon \<lparr>env_clock = id, env_control = None\<rparr> 9 9 0 1),
        Inr (Get 1), Inr (Delete 1), Inr (Get 1)] (fresh_map Cow) =
      Some ([None, Some 10, Some 10, None], m') \<and> wf_map nat_deps m' \<and> view nat_deps m' = Map.empty"
  using async_map_refines_map[OF nat_deps_laws, of "fresh_map Cow"
      "[Inr (Insert 1 10), Inl (AsyncStartOnline 4), Inl (AsyncAbandon \<lparr>env_clock = id, env_control = None\<rparr> 9 9 0 1),
        Inr (Get 1), Inr (Delete 1), Inr (Get 1)]"]
  by simp

text \<open>
  C31: with any eviction policy the asynchronous map never panics and never returns a stale or invented
  value, and it holds a part of what the finite map holds.
\<close>

theorem async_cache_never_stale:
  assumes "starshard_deps D" "wf_map D m"
  shows "\<exists>rs m'. run_calls (async_insert D) (async_get D) (async_remove D) cs m = Some (rs, m') \<and>
    wf_map D m' \<and> list_all2 lossy rs (fst (spec_calls cs (view D m))) \<and> view D m' \<subseteq>\<^sub>m snd (spec_calls cs (view D m))"
  using starshard_deps.async_calls_lossy[OF assms, of cs] .

theorem async_cache_never_stale_witness:
  "\<exists>rs m'. run_calls (async_insert nat_deps) (async_get nat_deps) (async_remove nat_deps)
       [Insert 1 10, Get 1] (fresh_map Cached) = Some (rs, m') \<and>
    wf_map nat_deps m' \<and> list_all2 lossy rs [None, Some 10] \<and> view nat_deps m' \<subseteq>\<^sub>m [1 \<mapsto> 10]"
  using async_cache_never_stale[OF nat_deps_laws, of "fresh_map Cached" "[Insert 1 10, Get 1]"] by simp

text \<open>
  C32: the operations of the asynchronous map beyond the keyed calls. \<open>batch_insert\<close> acts like its elements in
  order and counts new keys, \<open>batch_remove\<close> removes exactly its keys and counts those present, \<open>batch_get\<close>
  answers by position, \<open>retain\<close> keeps what satisfies the predicate, \<open>clear\<close> empties both generations, and
  \<open>drain\<close> also hands out every entry exactly once; \<open>get_or_insert_with\<close>, \<open>compute_if_absent\<close>,
  \<open>compute_if_present\<close> and the two compare operations change the entry as promised on every branch, and a
  transaction is never aborted and acts like its operations in order.
\<close>

theorem async_operations_correct:
  assumes "starshard_deps D" "wf_map D m"
  shows "(\<exists>m'. async_batch_insert D es m = Some (card (fst ` set es - dom (view D m)), m') \<and>
      op_post D m (view D m ++ map_of (rev es)) m') \<and>
    (\<exists>m'. async_batch_remove D ks m = Some (card (set ks \<inter> dom (view D m)), m') \<and> op_post D m (view D m |` (- set ks)) m') \<and>
    (\<exists>m'. async_batch_get D ks m = Some (map (view D m) ks, m') \<and> op_post D m (view D m) m' \<and> view D m' = view D m) \<and>
    (\<exists>m'. async_retain D p m = Some m' \<and>
      op_post D m (\<lambda>k. case view D m k of None \<Rightarrow> None | Some v \<Rightarrow> if p k v then Some v else None) m') \<and>
    (\<exists>m'. async_clear D m = Some m' \<and> wf_map D m' \<and> view D m' = Map.empty) \<and>
    (\<exists>items m'. async_drain D m = Some (\<lparr>drain_items = items, drain_index = 0\<rparr>, m') \<and> lists_map items (view D m) \<and>
      wf_map D m' \<and> view D m' = Map.empty) \<and>
    (\<exists>m'. async_get_or_insert_with D k f m = Some (case view D m k of Some v \<Rightarrow> v | None \<Rightarrow> f (), m') \<and>
      op_post D m ((view D m)(k \<mapsto> (case view D m k of Some v \<Rightarrow> v | None \<Rightarrow> f ()))) m') \<and>
    compute_if_absent D k f m = async_get_or_insert_with D k f m \<and>
    (\<exists>m'. async_compute_if_present D k g m = Some (Option.bind (view D m k) g, m') \<and>
      op_post D m ((view D m)(k := Option.bind (view D m k) g)) m') \<and>
    (\<exists>m'. async_compare_and_swap D k expected new m =
      Some (case view D m k of None \<Rightarrow> Failure new | Some v \<Rightarrow> if v = expected then Success new else Failure v, m') \<and>
      op_post D m (if view D m k = Some expected then (view D m)(k \<mapsto> new) else view D m) m') \<and>
    (\<exists>m'. async_compare_and_remove D k expected m = Some (view D m k = Some expected, m') \<and>
      op_post D m (if view D m k = Some expected then (view D m)(k := None) else view D m) m') \<and>
    (\<exists>m'. async_execute_transaction D t m = Some (Committed (), m') \<and> op_post D m (fold txn_apply (ops t) (view D m)) m')"
  using starshard_deps.async_batch_insert_post[OF assms, of es] starshard_deps.async_batch_remove_post[OF assms, of ks]
    starshard_deps.async_batch_get_post[OF assms, of ks] starshard_deps.async_retain_post[OF assms, of p]
    starshard_deps.async_clear_post[OF assms] starshard_deps.async_drain_post[OF assms] op_postD(1)
    starshard_deps.async_get_or_insert_post[OF assms, of k f] starshard_deps.compute_if_absent_eq[OF assms(1), of k f m]
    starshard_deps.async_compute_post[OF assms, of k g] starshard_deps.async_cas_post[OF assms, of k expected new]
    starshard_deps.async_compare_and_remove_post[OF assms, of k expected] starshard_deps.async_transaction_post[OF assms, of t]
  by blast

theorem async_operations_correct_witness:
  "(\<exists>m'. async_batch_insert nat_deps [(1, 10), (2, 20), (1, 11)] (fresh_map Cow) = Some (2, m') \<and>
      op_post nat_deps (fresh_map Cow) [1 \<mapsto> 11, 2 \<mapsto> 20] m') \<and>
   (\<exists>m'. async_compare_and_swap nat_deps 1 2 3 (fresh_map Cow) = Some (Failure 3, m') \<and>
      op_post nat_deps (fresh_map Cow) Map.empty m')"
proof -
  have "Map.empty ++ map_of (rev [(1, 10), (2, 20), (1, 11)]) = [1 \<mapsto> 11, (2 :: nat) \<mapsto> (20 :: nat)]"
    by (auto simp: fun_eq_iff)
  then show ?thesis
    using async_operations_correct[where D = nat_deps and m = "fresh_map Cow" and es = "[(1, 10), (2, 20), (1, 11)]"
        and k = 1 and expected = 2 and new = 3, OF nat_deps_laws]
    by (simp add: card_insert_if numeral_2_eq_2)
qed

text \<open>
  C35: snapshots of an asynchronous map without an eviction policy never go stale along a history of calls, resharding work and
  dropped batches with fewer than 2^64 steps since the cached snapshot, if any, was taken from it, and its iteration operations list every
  entry once.
\<close>

theorem async_snapshots_never_stale:
  assumes "starshard_deps D" "plain_map D m" "cache_ok D n m" "n + length ss < 2 ^ 64"
  shows "(\<exists>outs m'. run_history (async_background_op D) (run_call (async_insert D) (async_get D) (async_remove D))
      (async_shared_snapshot D) ss m = Some (outs, m') \<and> history_ok ss outs (view D m) \<and> wf_map D m') \<and>
    lists_map (fst (async_iter D m)) (view D m) \<and> distinct (async_keys D m) \<and> set (async_keys D m) = dom (view D m) \<and>
    mset (async_values D m) = image_mset (\<lambda>k. the (view D m k)) (mset_set (dom (view D m))) \<and>
    (fst (async_snapshot_at_version D ver m) \<noteq> None \<longleftrightarrow> ver = write_epoch m)"
proof -
  have wf: "wf_map D m" and b: "n < 2 ^ 64" using assms(2,4) by (simp_all add: plain_map_def del: power_numeral)
  have c: "cached_map D n m" using assms(2,3) by (simp add: cached_map_def)
  show ?thesis
    using starshard_deps.async_history_exact[OF assms(1) c assms(4)] starshard_deps.iter_exact[OF assms(1) wf assms(3) b seq_collects] starshard_deps.keys_exact[OF assms(1) wf seq_collects]
      starshard_deps.values_exact[OF assms(1) wf seq_collects] starshard_deps.at_version_exact[OF assms(1) wf assms(3) b seq_collects, of ver]
    unfolding async_iter_eq async_keys_eq async_values_eq async_snapshot_at_version_eq by blast
qed

theorem async_snapshots_never_stale_witness:
  "\<exists>outs m'. run_history (async_background_op nat_deps) (run_call (async_insert nat_deps) (async_get nat_deps) (async_remove nat_deps))
      (async_shared_snapshot nat_deps) [Snap, Do (Insert 1 10), Snap, Snap] (fresh_map Cached) = Some (outs, m') \<and>
    history_ok [Snap :: (async_background, nat, nat) history_step, Do (Insert 1 10), Snap, Snap] outs Map.empty \<and> wf_map nat_deps m'"
  using conjunct1[OF async_snapshots_never_stale[OF nat_deps_laws, of "fresh_map Cached" 0 "[Snap, Do (Insert 1 10), Snap, Snap]" 0]]
  by (simp add: plain_map_def)

text \<open>
  C36: dropping a future is safe, with any eviction policy and whether or not a migration is running. A migration batch dropped
  at any await point it can reach leaves a well-formed map with exactly its old content, length and version. An \<open>insert\<close> or
  \<open>remove\<close> dropped at any of its suspension points leaves a well-formed map in which the operation has happened completely if it was
  already waiting for the maintenance pass, and not at all otherwise. A \<open>retain\<close> dropped at any of its suspension points has
  removed only entries its predicate rejects, and all of them if it was waiting for the maintenance pass; the length has
  gone down by exactly what has been removed.
\<close>

theorem dropped_futures_safe:
  assumes "starshard_deps D" "wf_map D m"
  shows "(migrating (rebalance_tracker m) \<and> batch_awaits D env (tracker_telemetry (now D) (rebalance_tracker m)) mx e p m (pt, s) \<longrightarrow>
      wf_map D (abandon_batch env (tracker_telemetry (now D) (rebalance_tracker m)) p s) \<and>
      same_content D m (abandon_batch env (tracker_telemetry (now D) (rebalance_tracker m)) p s)) \<and>
    (\<exists>m'. insert_dropped D k v dp m = Some m' \<and> wf_map D m' \<and>
      view D m' = (if dp = AwaitMaintenance then (view D m)(k \<mapsto> v) else view D m)) \<and>
    (\<exists>m'. remove_dropped D k dp m = Some m' \<and> wf_map D m' \<and>
      view D m' = (if dp = AwaitMaintenance then (view D m)(k := None) else view D m)) \<and>
    (\<exists>lost m'. retain_dropped D q rp m = (lost, m') \<and> wf_map D m' \<and> len m' + of_nat (length lost) = len m \<and>
      (\<forall>(k, v) \<in> set lost. view D m k = Some v \<and> \<not> q k v) \<and> view D m' = view D m |` (- fst ` set lost) \<and>
      (rp = RetainMaintenance \<longrightarrow> (\<forall>k v. view D m' k = Some v \<longrightarrow> q k v)))"
proof -
  obtain lost m' where r: "retain_dropped D q rp m = (lost, m')" "shrunk D lost m m'" "\<forall>(k, v) \<in> set lost. \<not> q k v"
    "rp = RetainMaintenance \<longrightarrow> view D m' = (\<lambda>k. case view D m k of None \<Rightarrow> None | Some v \<Rightarrow> if q k v then Some v else None)"
    using starshard_deps.retain_dropped_ok[OF assms, of q rp] by blast
  have "rp = RetainMaintenance \<longrightarrow> (\<forall>k v. view D m' k = Some v \<longrightarrow> q k v)" using r(4) by (auto split: option.splits if_splits)
  then have "\<exists>lost m'. retain_dropped D q rp m = (lost, m') \<and> wf_map D m' \<and> len m' + of_nat (length lost) = len m \<and>
      (\<forall>(k, v) \<in> set lost. view D m k = Some v \<and> \<not> q k v) \<and> view D m' = view D m |` (- fst ` set lost) \<and>
      (rp = RetainMaintenance \<longrightarrow> (\<forall>k v. view D m' k = Some v \<longrightarrow> q k v))"
    using r(1-3) starshard_deps.shrunk_len[OF assms r(2)] by (intro exI[of _ lost] exI[of _ m']) (auto simp: shrunk_def)
  then show ?thesis
    using starshard_deps.abandoned_batch_ok[OF assms _ refl]
    by (intro conjI impI starshard_deps.insert_dropped_ok[OF assms] starshard_deps.remove_dropped_ok[OF assms]) blast+
qed

theorem dropped_futures_safe_witness:
  "(\<exists>m. m = snd (start_rebalance_online nat_deps 4 (fresh_map Cow)) \<and>
      wf_map nat_deps (abandon_batch \<lparr>env_clock = id, env_control = None\<rparr> (tracker_telemetry 0 (rebalance_tracker m)) 0 (batch_start m))) \<and>
   (\<exists>m'. insert_dropped nat_deps 1 10 AwaitMaintenance (fresh_map Cached) = Some m' \<and> view nat_deps m' = [1 \<mapsto> 10]) \<and>
   (\<exists>lost m'. retain_dropped nat_deps (\<lambda>k v. k < v) (RetainShards 1) (fresh_map Cached) = (lost, m') \<and> wf_map nat_deps m')"
proof -
  let ?m = "snd (start_rebalance_online nat_deps 4 (fresh_map Cow))" and ?env = "\<lparr>env_clock = id, env_control = None\<rparr>"
  have wf: "wf_map nat_deps ?m" by (rule start_online_ok(1)) simp
  have mg: "migrating (rebalance_tracker ?m)"
    by (simp add: start_rebalance_online_def is_migrating_def begin_migration_def)
  have now: "now (nat_deps :: (nat, nat, (nat, nat) alist_map, (u64, nat entry list) alist_map) deps) = 0" by (simp add: nat_deps_def)
  have fr: "wf_map nat_deps (fresh_map Cached)" by simp
  have aw: "batch_awaits nat_deps ?env (tracker_telemetry (now nat_deps) (rebalance_tracker ?m)) 1 1 0 ?m (AtLoop, batch_start ?m)"
    by (rule aw_start)
  have "wf_map nat_deps (abandon_batch ?env (tracker_telemetry 0 (rebalance_tracker ?m)) 0 (batch_start ?m))"
    using conjunct1[OF dropped_futures_safe[OF nat_deps_laws wf], rule_format, OF conjI[OF mg aw]] now by simp
  then show ?thesis
    using dropped_futures_safe[OF nat_deps_laws fr, where k = 1 and v = 10 and dp = AwaitMaintenance
        and q = "\<lambda>k v. k < v" and rp = "RetainShards 1"] by auto
qed

text \<open>
  C37: asynchronous resharding completes. \<open>rebalance_to\<close> rejects an invalid shard count without effect and
  otherwise terminates in both of its modes with the requested shards, no migration and unchanged content;
  a spawned task that is neither cancelled nor paused terminates with the migration complete, the requested shards and its lease
  returned.
\<close>

theorem async_rebalance_completes:
  assumes "starshard_deps D" "wf_map D m"
  shows "(case strict_shard_count req MAX_SHARDS of
      Inl err \<Rightarrow> async_rebalance_to D clks req opts m = Some (Inl err, m)
    | Inr target \<Rightarrow> (\<exists>r m'. async_rebalance_to D clks req opts m = Some (Inr r, m') \<and> wf_map D m' \<and> same_content D m m' \<and>
        \<not> migrating (rebalance_tracker m') \<and> shard_count m' = target)) \<and>
    (async_spawn_rebalance D True req m = (Inr tk, m1) \<and> \<not> paused (telem (rebalance_tracker m)) \<and>
      (\<forall>i j. \<not> control_cancelled (envs i) j) \<and> (\<forall>i. \<not> cancels i) \<longrightarrow>
     (\<exists>out m'. async_run_worker D envs cancels opts tk m1 = Some (out, m') \<and> out_completed out \<and> wf_map D m' \<and>
        same_content D m m' \<and> \<not> migrating (rebalance_tracker m') \<and> worker_generation (rebalance_tracker m') = None \<and>
        strict_shard_count req MAX_SHARDS = Inr (shard_count m')))"
proof (rule conjI)
  show "case strict_shard_count req MAX_SHARDS of
      Inl err \<Rightarrow> async_rebalance_to D clks req opts m = Some (Inl err, m)
    | Inr target \<Rightarrow> (\<exists>r m'. async_rebalance_to D clks req opts m = Some (Inr r, m') \<and> wf_map D m' \<and> same_content D m m' \<and>
        \<not> migrating (rebalance_tracker m') \<and> shard_count m' = target)"
    using starshard_deps.async_rebalance_to_ok[OF assms, of req _ clks opts]
    by (cases "strict_shard_count req MAX_SHARDS") (simp add: async_rebalance_to_def, fastforce)
  show "async_spawn_rebalance D True req m = (Inr tk, m1) \<and> \<not> paused (telem (rebalance_tracker m)) \<and>
      (\<forall>i j. \<not> control_cancelled (envs i) j) \<and> (\<forall>i. \<not> cancels i) \<longrightarrow>
     (\<exists>out m'. async_run_worker D envs cancels opts tk m1 = Some (out, m') \<and> out_completed out \<and> wf_map D m' \<and>
        same_content D m m' \<and> \<not> migrating (rebalance_tracker m') \<and> worker_generation (rebalance_tracker m') = None \<and>
        strict_shard_count req MAX_SHARDS = Inr (shard_count m'))"
  proof (intro impI, elim conjE)
    assume sp: "async_spawn_rebalance D True req m = (Inr tk, m1)" and np: "\<not> paused (telem (rebalance_tracker m))"
      and nc: "\<forall>i j. \<not> control_cancelled (envs i) j" "\<forall>i. \<not> cancels i"
    have sp': "spawn_rebalance D True req m = (Inr tk, m1)" using sp by (simp add: async_spawn_eq)
    obtain target where t: "strict_shard_count req MAX_SHARDS = Inr target" "worker_generation (rebalance_tracker m) = None"
      "migrating (rebalance_tracker m) \<longrightarrow> shard_count m = target \<and> \<not> paused (telem (rebalance_tracker m))"
      using sp' np by (auto simp: spawn_rebalance_def has_worker_def is_migrating_def Let_def split: sum.splits if_splits)
    have m1: "wf_map D m1" "same_content D m m1" "worker_ready tk m1" "shard_count m1 = target"
      using starshard_deps.spawn_rebalance_ok[OF assms t] sp' by auto
    have "worker_done D tk 0 m1 (async_run_worker D envs cancels opts tk m1)"
      using starshard_deps.async_run_worker_ok[OF assms(1) m1(1,3)] nc by blast
    then show "\<exists>out m'. async_run_worker D envs cancels opts tk m1 = Some (out, m') \<and> out_completed out \<and> wf_map D m' \<and>
        same_content D m m' \<and> \<not> migrating (rebalance_tracker m') \<and> worker_generation (rebalance_tracker m') = None \<and>
        strict_shard_count req MAX_SHARDS = Inr (shard_count m')"
      using same_content_trans[OF m1(2)] t(1) m1(4) unfolding worker_done_def by auto
  qed
qed

theorem async_rebalance_completes_witness:
  "\<exists>r m'. async_rebalance_to nat_deps (\<lambda>_ _. 0) 4 \<lparr>opt_background = True, opt_batch_size = 1, opt_max_pause_ns = 0\<rparr> (fresh_map Cow) =
      Some (Inr r, m') \<and> wf_map nat_deps m' \<and> shard_count m' = 4"
  using conjunct1[OF async_rebalance_completes[where req = 4 and clks = "\<lambda>_ _. 0" and m = "fresh_map Cow"
      and opts = "\<lparr>opt_background = True, opt_batch_size = 1, opt_max_pause_ns = 0\<rparr>", OF nat_deps_laws]]
  by auto

end
