(* ===== verification/Async_Capacity.thy ===== *)
theory Async_Capacity
  imports Async_Correct Capacity_Calls
begin

text \<open>
  The asynchronous map respects the limits of a cache as well. Its maintenance plans the victims first and removes them
  afterwards; on metadata in sync with the map both of its passes remove exactly what the loop of the synchronous map
  removes, so the results of \<open>Capacity\<close> carry over.
\<close>

section \<open>Planned and immediate removal\<close>

context starshard_deps
begin

lemma locate_eq:
  assumes wf: "wf_dirs D m"
  shows "locate D m k (route D (length (shards m)) k) =
    Some (if slots_get D (shards m) k \<noteq> None then Some (False, route D (length (shards m)) k)
          else if slots_get D (prev_slots m) k \<noteq> None then Some (True, route D (length (prev_slots m)) k) else None)"
proof -
  let ?i = "route D (length (shards m)) k"
  have i: "?i < length (shards m)" using route_less[OF wf_dirsD(1)[OF wf]] .
  have a: "(case shards m ! ?i of None \<Rightarrow> False | Some sd \<Rightarrow> hb_get (shard_ops D) (as_map sd) k \<noteq> None) \<longleftrightarrow> slots_get D (shards m) k \<noteq> None"
    using slots_get_at[OF i refl] by (simp add: slot_get_def split: option.splits)
  have ne: "ps \<noteq> []" if "previous_shards m = Some ps" for ps
    using wf that by (auto simp: wf_dirs_def migration_ok_def)
  show ?thesis
  proof (cases "previous_shards m")
    case None
    then show ?thesis using i a by (simp add: locate_def prev_slots_def)
  next
    case (Some ps)
    have "(case ps ! route D (length ps) k of None \<Rightarrow> False | Some sd \<Rightarrow> hb_get (shard_ops D) (as_map sd) k \<noteq> None) \<longleftrightarrow>
        slots_get D ps k \<noteq> None"
      using slots_get_at[OF route_less[OF ne[OF Some]] refl, of D k] by (simp add: slot_get_def split: option.splits)
    then show ?thesis using i a Some ne[OF Some] by (simp add: locate_def prev_slots_def route_def Let_def)
  qed
qed

text \<open>Removing a victim where it was located is the synchronous removal.\<close>

lemma victim_step:
  assumes wf: "wf_dirs D m" and v: "view D m (cand_key c) = Some v"
  obtains loc sd m1 where "locate D m (cand_key c) (route D (length (shards m)) (cand_key c)) = Some (Some loc)" "slot_at m loc = Some sd"
    "remove_victim D (cand_key c) (route D (length (shards m)) (cand_key c)) m = Some (Some (v, m1))"
    "\<And>ev. async_remove_victim D c loc sd ev m = (ev @ [(cand_key c, v)], commit_eviction D c m1)"
    "\<And>k. k \<noteq> cand_key c \<Longrightarrow> slots_get D (shards m1) k = slots_get D (shards m) k \<and> slots_get D (prev_slots m1) k = slots_get D (prev_slots m) k"
proof -
  let ?k = "cand_key c"
  let ?i = "route D (length (shards m)) ?k" and ?j = "route D (length (prev_slots m)) ?k"
  have i: "?i < length (shards m)" using wf_dirsD(1)[OF wf] by (rule route_less)
  have run: "async_remove_victim D c loc sd ev m =
      (ev @ [(?k, v)], commit_eviction D c (put_at loc (deref_mut_set sd (snd (hb_remove (shard_ops D) (as_map sd) ?k))) m))"
    if g: "hb_get (shard_ops D) (as_map sd) ?k = Some v" for loc sd ev
  proof -
    obtain mp where rm: "hb_remove (shard_ops D) (as_map sd) ?k = (Some v, mp)"
      using H.remove_old[of "as_map sd" ?k] g by (metis prod.collapse)
    have "hb_len (shard_ops D) (as_map sd) = Suc (hb_len (shard_ops D) mp)" using len_remove_Some[OF g] rm by simp
    then show ?thesis using rm
      by (simp add: async_remove_victim_def mutation_remove_def shard_mutation_new_def mutation_drop_def commit_eviction_def record_write_def Let_def)
  qed
  have other: "hb_get (shard_ops D) (snd (hb_remove (shard_ops D) mp ?k)) k = hb_get (shard_ops D) mp k" if "k \<noteq> ?k" for mp k
    using that by (simp add: H.get_remove)
  show ?thesis
  proof (cases "slots_get D (shards m) ?k")
    case (Some w)
    then obtain sd where sd: "shards m ! ?i = Some sd" "hb_get (shard_ops D) (as_map sd) ?k = Some v"
      using v slots_get_at[OF i refl] by (cases "shards m ! ?i") (auto simp: view_def map_add_def)
    show ?thesis
    proof (rule that[of "(False, ?i)" sd "unlock ?i (deref_mut_set sd (snd (hb_remove (shard_ops D) (as_map sd) ?k))) m"])
      show "locate D m ?k ?i = Some (Some (False, ?i))" using Some by (simp add: locate_eq[OF wf])
      show "slot_at m (False, ?i) = Some sd" using i sd by (simp add: slot_at_def)
      show "remove_victim D ?k ?i m = Some (Some (v, unlock ?i (deref_mut_set sd (snd (hb_remove (shard_ops D) (as_map sd) ?k))) m))"
        using i sd by (simp add: remove_victim_def previous_shard_wf[OF wf] remove_from_eq)
      show "async_remove_victim D c (False, ?i) sd ev m =
          (ev @ [(?k, v)], commit_eviction D c (unlock ?i (deref_mut_set sd (snd (hb_remove (shard_ops D) (as_map sd) ?k))) m))" for ev
        using run[OF sd(2), of "(False, ?i)" ev] by (simp add: put_at_def)
      fix k assume "k \<noteq> ?k"
      then show "slots_get D (shards (unlock ?i (deref_mut_set sd (snd (hb_remove (shard_ops D) (as_map sd) ?k))) m)) k = slots_get D (shards m) k \<and>
          slots_get D (prev_slots (unlock ?i (deref_mut_set sd (snd (hb_remove (shard_ops D) (as_map sd) ?k))) m)) k = slots_get D (prev_slots m) k"
        using i sd other by (cases sd) (auto simp: slots_get_update slots_get_at[OF i] slot_get_def)
    qed
  next
    case None
    then have pv: "slots_get D (prev_slots m) ?k = Some v" using v by (simp add: view_def map_add_def)
    then have ne: "prev_slots m \<noteq> []" by auto
    then have j: "?j < length (prev_slots m)" by (rule route_less)
    obtain p where p: "prev_slots m ! ?j = Some p" "hb_get (shard_ops D) (as_map p) ?k = Some v"
      using pv slots_get_at[OF j refl] by (cases "prev_slots m ! ?j") auto
    have act: "Option.bind (shards m ! ?i) (remove_from D ?k) = None"
      using None slots_get_at[OF i refl] by (cases "shards m ! ?i") (auto simp: remove_from_eq)
    let ?p = "deref_mut_set p (snd (hb_remove (shard_ops D) (as_map p) ?k))"
    obtain ps where ps: "previous_shards m = Some ps" "prev_slots m = ps" using ne by (auto simp: prev_slots_def split: option.splits)
    show ?thesis
    proof (rule that[of "(True, ?j)" p "set_previous_slot ?j (Some ?p) m"])
      show "locate D m ?k ?i = Some (Some (True, ?j))" using None pv by (simp add: locate_eq[OF wf])
      show "slot_at m (True, ?j) = Some p" using j p ps by (simp add: slot_at_def)
      show "remove_victim D ?k ?i m = Some (Some (v, set_previous_slot ?j (Some ?p) m))"
        using i p ne act by (simp add: remove_victim_def previous_shard_wf[OF wf] remove_from_eq)
      show "async_remove_victim D c (True, ?j) p ev m = (ev @ [(?k, v)], commit_eviction D c (set_previous_slot ?j (Some ?p) m))" for ev
        using run[OF p(2), of "(True, ?j)" ev] by (simp add: put_at_def)
      fix k assume "k \<noteq> ?k"
      then show "slots_get D (shards (set_previous_slot ?j (Some ?p) m)) k = slots_get D (shards m) k \<and>
          slots_get D (prev_slots (set_previous_slot ?j (Some ?p) m)) k = slots_get D (prev_slots m) k"
        using j p other by (cases p) (auto simp: slots_get_update slots_get_at[OF j] slot_get_def)
    qed
  qed
qed

section \<open>The global pass\<close>

text \<open>
  Planning looks at the map \<open>m\<close> as it was; \<open>mi\<close> is what the plan made so far will have left of it. For the
  candidates to come the two agree.
\<close>

end

definition agree ::
  "('k, 'v, 'm, 'b) deps \<Rightarrow> 'k eviction_candidate list \<Rightarrow> ('k, 'v, 'm, 'b) sharded_map \<Rightarrow> ('k, 'v, 'm, 'b) sharded_map \<Rightarrow> bool" where
  "agree D cs m mi \<longleftrightarrow> length (shards mi) = length (shards m) \<and> length (prev_slots mi) = length (prev_slots m) \<and>
     (\<forall>c\<in>set cs. validate D (lifecycle m) c \<and> slots_get D (shards mi) (cand_key c) = slots_get D (shards m) (cand_key c) \<and>
        slots_get D (prev_slots mi) (cand_key c) = slots_get D (prev_slots m) (cand_key c))"

text \<open>The counters of the planning loop describe \<open>mi\<close>.\<close>

definition counters_ok ::
  "('k, 'v, 'm, 'b) deps \<Rightarrow> nat option \<Rightarrow> nat list \<Rightarrow> nat \<Rightarrow> usize \<Rightarrow> ('k, 'v, 'm, 'b) sharded_map \<Rightarrow> bool" where
  "counters_ok D per_limit counts weighted rl mi \<longleftrightarrow>
     length counts = shard_count mi \<and> (per_limit \<noteq> None \<longrightarrow> (\<forall>i < shard_count mi. counts ! i = shard_load D mi i)) \<and>
     (memory_budget (lifecycle mi) \<noteq> None \<longrightarrow> weighted = exact_weight (lifecycle mi)) \<and> rl = total_len mi"

lemma distinct_map_sort: "distinct (map f (sort_key g xs)) = distinct (map f xs)"
  by (rule mset_eq_imp_distinct_iff) simp

lemma distinct_concat_by:
  assumes "distinct xs" "\<And>x. x \<in> set xs \<Longrightarrow> distinct (g x) \<and> (\<forall>k\<in>set (g x). r k = x)"
  shows "distinct (concat (map g xs))"
  using assms by (induction xs) (auto, metis)

lemma make_candidate_weight: "cand_weight (make_candidate ep h e) = entry_weight e"
  by (simp add: make_candidate_def)

lemma plan_none:
  assumes "\<And>c. c \<in> set cs \<Longrightarrow> \<exists>i < length counts. shard_index D m (cand_key c) = Some i" "per_limit = None"
    "\<not> (case entry_limit of None \<Rightarrow> False | Some limit \<Rightarrow> unat rl > limit)" "\<not> (case budget of None \<Rightarrow> False | Some b \<Rightarrow> weighted > b)"
  shows "plan_victims D entry_limit per_limit budget cs counts weighted rl plans m = Some (plans, m)"
  using assms(1)
proof (induction cs)
  case (Cons c cs)
  obtain i where "i < length counts" "shard_index D m (cand_key c) = Some i" using Cons.prems[of c] by auto
  then show ?case using Cons.IH Cons.prems assms(2-4) by simp
qed simp

context starshard_deps
begin

lemma weight_removed:
  assumes wf: "wf_dirs D m" and sy: "synced_by D m T" "synced_by D m' T'" and c: "current D (lifecycle m) T c"
    and v: "view D m' = (view D m)(cand_key c := None)" and opts: "life_opts (lifecycle m') = life_opts (lifecycle m)"
  shows "exact_weight (lifecycle m') = exact_weight (lifecycle m) - cand_weight c"
proof -
  let ?k = "cand_key c" and ?w = "\<lambda>k. weight (lifecycle m) k (the (view D m k))"
  have tr: "tracks D (lifecycle m) T" using sy(1) by (simp add: synced_by_def)
  obtain e where e: "T ?k = Some e" "c = make_candidate (epoch (lifecycle m)) (fx_hash_one D ?k) e"
    using engine.current_key[OF tr c] by blast
  have mo: "map_option entry_weight (T ?k) = map_option (weight (lifecycle m) ?k) (view D m ?k)"
    using sy(1) unfolding synced_by_def by blast
  have "cand_weight c = entry_weight e" by (subst e(2)) (simp add: make_candidate_def)
  then have cw: "?k \<in> dom (view D m)" "?w ?k = cand_weight c" using mo e(1) by (cases "view D m ?k"; auto)+
  have "total_weight D m' = (\<Sum>k\<in>dom (view D m) - {?k}. ?w k)"
    unfolding total_weight_def using v weight_cong[OF opts] by (intro sum.cong) auto
  also have "\<dots> = total_weight D m - ?w ?k"
    unfolding total_weight_def using sum_diff1_nat[of ?w "dom (view D m)" ?k] cw(1) by simp
  finally show ?thesis using synced_weight[OF sy(1)] synced_weight[OF sy(2)] cw(2) by simp
qed

text \<open>One planned removal: what it leaves is again a map the remaining candidates describe.\<close>

lemma planned_removal:
  assumes wf: "wf_map D mi" and sy: "synced_by D mi T" and cur: "\<forall>c'\<in>set (c # cs). current D (lifecycle mi) T c'"
    and dist: "distinct (map cand_key (c # cs))" and wm: "wf_dirs D m" and ag: "agree D (c # cs) m mi"
    and co: "counters_ok D per_limit counts weighted rl mi"
  defines "i \<equiv> route D (length (shards m)) (cand_key c)"
  obtains loc sd v m1 m2 T2 where "locate D m (cand_key c) i = Some (Some loc)" "slot_at mi loc = Some sd"
    "remove_victim D (cand_key c) i mi = Some (Some (v, m1))" "m2 = commit_eviction D c m1"
    "\<And>ev. async_remove_victim D c loc sd ev mi = (ev @ [(cand_key c, v)], m2)"
    "evicted_by D [(cand_key c, v)] mi m2" "synced_by D m2 T2" "\<forall>c'\<in>set cs. current D (lifecycle m2) T2 c'" "agree D cs m m2"
    "counters_ok D per_limit (counts[i := counts ! i - 1]) (weighted - cand_weight c) (rl - 1) m2"
proof -
  let ?k = "cand_key c"
  have wd: "wf_dirs D mi" using wf by (simp add: wf_map_def)
  have tr: "tracks D (lifecycle mi) T" using sy by (simp add: synced_by_def)
  have ln: "length (shards mi) = length (shards m)" "length (prev_slots mi) = length (prev_slots m)" using ag by (simp_all add: agree_def)
  have c: "current D (lifecycle mi) T c" using cur by simp
  then obtain v where v: "view D mi ?k = Some v"
    using engine.current_key[OF tr c] synced_dom[OF sy, of ?k] by (metis not_Some_eq)
  obtain loc sd m1 where st: "locate D mi ?k i = Some (Some loc)" "slot_at mi loc = Some sd" "remove_victim D ?k i mi = Some (Some (v, m1))"
    "\<And>ev. async_remove_victim D c loc sd ev mi = (ev @ [(?k, v)], commit_eviction D c m1)"
    "\<And>k. k \<noteq> ?k \<Longrightarrow> slots_get D (shards m1) k = slots_get D (shards mi) k \<and> slots_get D (prev_slots m1) k = slots_get D (prev_slots mi) k"
    using victim_step[OF wd v] ln(1) unfolding i_def by metis
  have loc: "locate D m ?k i = Some (Some loc)"
    using st(1) ag ln locate_eq[OF wm, of ?k] locate_eq[OF wd, of ?k] by (simp add: agree_def i_def)
  have m1: "wf_dirs D m1" "view D m1 = (view D mi)(?k := None)" "stored_len D mi = Suc (stored_len D m1)" "same_meta mi m1" "same_counters mi m1"
    using remove_victim_spec(2)[OF wd v] st(3) ln(1) by (auto simp: i_def)
  let ?m2 = "commit_eviction D c m1"
  have e: "evicted_by D [(?k, v)] mi ?m2" using commit_eviction_evicted[OF wf v m1(4,5,1-3)] .
  have l1: "lifecycle m1 = lifecycle mi" using m1(5) by (simp add: same_counters_def)
  obtain s2: "synced_by D ?m2 (T(?k := None))" "epoch (lifecycle ?m2) = epoch (lifecycle mi)" using evict_step[OF wf sy c l1 m1(2)] by blast
  have v2: "view D ?m2 = (view D mi)(?k := None)" using m1(2) by simp
  have w2: "wf_map D ?m2" "same_meta mi ?m2" "life_opts (lifecycle ?m2) = life_opts (lifecycle mi)" using evicted_byD[OF e] by auto
  have mb: "memory_budget (lifecycle ?m2) = memory_budget (lifecycle mi)" using w2(3) by (simp add: memory_budget_opts)
  have "?k \<notin> cand_key ` set cs" using dist by simp
  then have ne: "\<forall>c'\<in>set cs. cand_key c' \<noteq> ?k" by (metis imageI)
  show ?thesis
  proof (rule that[OF loc st(2,3) refl st(4) e s2(1)])
    show "\<forall>c'\<in>set cs. current D (lifecycle ?m2) (T(?k := None)) c'" using cur ne current_upd[OF _ tr s2(2)] by simp
    show "agree D cs m ?m2" using ag ne st(5) m1(4) by (simp add: agree_def same_meta_def)
    have "exact_weight (lifecycle ?m2) = exact_weight (lifecycle mi) - cand_weight c"
      by (rule weight_removed[OF wd sy s2(1) c v2 w2(3)])
    moreover have "total_len ?m2 = total_len mi - 1" using m1(5) by (simp add: same_counters_def)
    moreover have "counts[i := counts ! i - 1] ! j = shard_load D ?m2 j" if "per_limit \<noteq> None" "j < shard_count mi" for j
      using co that shard_load_remove[OF wd v v2, of j] w2(2) ln(1) wf_dirsD(2)[OF wd] route_less[OF wf_dirsD(1)[OF wm], of D ?k]
      by (auto simp: counters_ok_def i_def nth_list_update same_meta_def)
    ultimately show "counters_ok D per_limit (counts[i := counts ! i - 1]) (weighted - cand_weight c) (rl - 1) ?m2"
      using co w2(2) mb by (simp add: counters_ok_def same_meta_def)
  qed
qed

lemma plan_sim:
  assumes "wf_map D mi" "synced_by D mi T" "card (dom (view D mi)) < 2 ^ 64" "\<forall>c\<in>set cs. current D (lifecycle mi) T c"
    "distinct (map cand_key cs)" "wf_dirs D m" "agree D cs m mi" "counters_ok D per_limit counts weighted rl mi"
    "per_limit \<noteq> None \<Longrightarrow> cl = counts"
  shows "\<exists>ps. plan_victims D target per_limit (memory_budget (lifecycle mi)) cs counts weighted rl P m = Some (P @ ps, m) \<and>
    run_plans D ps ev mi = evict_loop D target per_limit cs (over_memory_budget (lifecycle mi)) cl ev mi"
  using assms
proof (induction cs arbitrary: mi T counts weighted rl cl P ev)
  case Nil
  then show ?case by simp
next
  case (Cons c cs)
  note wf = Cons.prems(1) and sy = Cons.prems(2) and b = Cons.prems(3) and cur = Cons.prems(4) and wm = Cons.prems(6)
    and ag = Cons.prems(7) and co = Cons.prems(8) and cl = Cons.prems(9)
  let ?k = "cand_key c" and ?i = "route D (length (shards m)) (cand_key c)" and ?ow = "over_memory_budget (lifecycle mi)"
  have wd: "wf_dirs D mi" using wf by (simp add: wf_map_def)
  have ln: "length (shards mi) = length (shards m)" using ag by (simp add: agree_def)
  have i: "route D (length (shards m)) k < length counts" for k
    using co wf_dirsD(2)[OF wd] ln route_less[OF wf_dirsD(1)[OF wm], of D k] by (simp add: counters_ok_def)
  have ix: "shard_index D m k = Some (route D (length (shards m)) k)" "shard_index D mi k = Some (route D (length (shards m)) k)" for k
    using shard_index_wf[OF wm] shard_index_wf[OF wd] ln by simp_all
  have os: "over_shard per_limit cl ?i = Some (case per_limit of None \<Rightarrow> False | Some limit \<Rightarrow> counts ! ?i > limit)"
    using i cl by (cases per_limit) (simp_all add: over_shard_def)
  have oe: "(case target of None \<Rightarrow> False | Some limit \<Rightarrow> unat rl > limit) \<longleftrightarrow> over_target mi target"
    using co by (simp add: over_target_def len_def counters_ok_def split: option.splits)
  have ob: "(case memory_budget (lifecycle mi) of None \<Rightarrow> False | Some bd \<Rightarrow> weighted > bd) \<longleftrightarrow> ?ow"
    using co by (auto simp: over_memory_budget_def counters_ok_def split: option.splits)
  define go where "go \<longleftrightarrow> over_target mi target \<or> (case per_limit of None \<Rightarrow> False | Some limit \<Rightarrow> counts ! ?i > limit) \<or> ?ow"
  consider (stop) "\<not> go" "per_limit = None" | (skip) limit where "\<not> go" "per_limit = Some limit" | (go) go by (cases per_limit) auto
  then show ?case
  proof cases
    case stop
    then have "plan_victims D target per_limit (memory_budget (lifecycle mi)) (c # cs) counts weighted rl P m = Some (P, m)"
      using i ix(1) oe ob by (intro plan_none) (auto simp: go_def)
    then show ?thesis using stop by (intro exI[of _ "[]"]) (simp add: go_def)
  next
    case skip
    have "agree D cs m mi" using ag by (simp add: agree_def)
    then obtain ps where "plan_victims D target per_limit (memory_budget (lifecycle mi)) cs counts weighted rl P m = Some (P @ ps, m)"
      "run_plans D ps ev mi = evict_loop D target per_limit cs ?ow cl ev mi"
      using Cons.IH[OF wf sy b _ _ wm _ co cl, of P ev] cur Cons.prems(5) by auto
    then show ?thesis using skip i[of ?k] ix os oe ob by (intro exI[of _ ps]) (simp add: go_def)
  next
    case go
    obtain loc sd v m1 m2 T2 where st: "locate D m ?k ?i = Some (Some loc)" "slot_at mi loc = Some sd"
      "remove_victim D ?k ?i mi = Some (Some (v, m1))" "m2 = commit_eviction D c m1"
      "\<And>ev. async_remove_victim D c loc sd ev mi = (ev @ [(?k, v)], m2)"
      "evicted_by D [(?k, v)] mi m2" "synced_by D m2 T2" "\<forall>c'\<in>set cs. current D (lifecycle m2) T2 c'" "agree D cs m m2"
      "counters_ok D per_limit (counts[?i := counts ! ?i - 1]) (weighted - cand_weight c) (rl - 1) m2"
      using planned_removal[OF wf sy cur Cons.prems(5) wm ag co] by blast
    have w2: "wf_map D m2" "same_meta mi m2" "life_opts (lifecycle m2) = life_opts (lifecycle mi)" using evicted_byD[OF st(6)] by auto
    have mb: "memory_budget (lifecycle m2) = memory_budget (lifecycle mi)" using w2(3) by (simp add: memory_budget_opts)
    have b2: "card (dom (view D m2)) < 2 ^ 64"
      using card_mono[OF finite_dom_view[OF wd] map_le_implies_dom_le[OF evicted_by_subset[OF st(6)]]] b by simp
    define cl' where "cl' = (if per_limit \<noteq> None then cl[?i := cl ! ?i - 1] else cl)"
    obtain ps where ih: "plan_victims D target per_limit (memory_budget (lifecycle mi)) cs (counts[?i := counts ! ?i - 1])
        (weighted - cand_weight c) (rl - 1) (P @ [(c, loc)]) m = Some ((P @ [(c, loc)]) @ ps, m)"
      "run_plans D ps (ev @ [(?k, v)]) m2 = evict_loop D target per_limit cs (over_memory_budget (lifecycle m2)) cl' (ev @ [(?k, v)]) m2"
      using Cons.IH[OF w2(1) st(7) b2 st(8) _ wm st(9,10), of cl' "P @ [(c, loc)]" "ev @ [(?k, v)]"] Cons.prems(5) cl mb
      by (auto simp: cl'_def)
    have val: "validate D (lifecycle mi) c"
      using engine.validate_current[of "lifecycle mi" T c] sy cur by (simp add: synced_by_def)
    have ow2: "(if ?ow then over_memory_budget (lifecycle m2) else ?ow) = over_memory_budget (lifecycle m2)"
      using needed_mono[OF wf w2(1) sy st(7) evicted_by_subset[OF st(6)] w2(2,3) b, of None None ?k] by (auto simp: needed_def over_target_def)
    have "\<not> (per_limit = None \<and> \<not> over_target mi target \<and> \<not> ?ow)" using go by (auto simp: go_def)
    then have "evict_loop D target per_limit (c # cs) ?ow cl ev mi =
        evict_loop D target per_limit cs (over_memory_budget (lifecycle m2)) cl' (ev @ [(?k, v)]) m2"
      using go ix(2)[of ?k] os val st(3,4) ow2 by (auto simp: go_def Let_def cl'_def)
    moreover have "plan_victims D target per_limit (memory_budget (lifecycle mi)) (c # cs) counts weighted rl P m = Some (P @ (c, loc) # ps, m)"
      using go i[of ?k] ix(1) oe ob st(1) ag ih(1) by (simp add: go_def agree_def) blast
    ultimately show ?thesis using ih(2) val st(2,5) by (intro exI[of _ "(c, loc) # ps"]) simp
  qed
qed

text \<open>The candidates of a pass have distinct keys, so the routing loop counts every tracked entry once.\<close>

lemma distinct_buckets:
  assumes "distinct (map fst its)" "\<forall>(h, b)\<in>set its. distinct (map entry_key b) \<and> (\<forall>e\<in>set b. fx_hash_one D (entry_key e) = h)"
  shows "distinct (concat (map (\<lambda>(h, b). map entry_key b) its))"
  using assms
proof (induction its)
  case (Cons p its)
  obtain h b where p: "p = (h, b)" by (cases p)
  have "entry_key e \<noteq> entry_key e'" if "e \<in> set b" "(h', b') \<in> set its" "e' \<in> set b'" for e h' b' e'
  proof -
    have "fx_hash_one D (entry_key e) = h" "fx_hash_one D (entry_key e') = h'" using that Cons.prems(2) p by auto
    moreover have "h \<noteq> h'" using that(2) Cons.prems(1) p by force
    ultimately show ?thesis by metis
  qed
  then show ?case using Cons p by (fastforce simp: disjoint_iff)
qed simp

lemma distinct_candidates:
  assumes "tracks D l T"
  shows "distinct (map cand_key (candidates D l pol))"
proof -
  obtain c where c: "configured l = Some c" "meta_ok D (unat (sequence l)) c" using assms by (auto simp: tracks_def)
  let ?g = "\<lambda>s. concat (map (\<lambda>(h, b). map entry_key b) (hb_iter (stripe_ops D) (buckets s)))"
  have "distinct (?g (stripes c ! i)) \<and> (\<forall>k\<in>set (?g (stripes c ! i)). stripe_index (fx_hash_one D k) = i + 0)" if "i < length (stripes c)" for i
  proof -
    have b: "bucket_ok D (unat (sequence l)) h b \<and> stripe_index h = i" if "(h, b) \<in> set (hb_iter (stripe_ops D) (buckets (stripes c ! i)))" for h b
    proof -
      have g: "hb_get (stripe_ops D) (buckets (stripes c ! i)) h = Some b"
        using that B.iter_distinct B.iter_map_of by (metis map_of_eq_Some_iff)
      have "stripe_index h = i" using c(2) g \<open>i < length (stripes c)\<close> by (auto simp: meta_ok_def)
      then show ?thesis using c(2) g by (auto simp: meta_ok_def bucket_of_def)
    qed
    have "distinct (?g (stripes c ! i))"
      by (rule distinct_buckets[OF B.iter_distinct]) (use b in \<open>auto simp: bucket_ok_def\<close>)
    then show ?thesis using b by (auto simp: bucket_ok_def)
  qed
  from distinct_concat_route[OF this] have "distinct (concat (map ?g (stripes c)))" by blast
  moreover have "map (entry_key \<circ> snd) (tracked_list D c) = concat (map ?g (stripes c))"
    by (simp add: tracked_list_def map_concat comp_def split_def)
  ultimately have "distinct (map (entry_key \<circ> snd) (tracked_list D c))" by simp
  moreover have "map cand_key (map (\<lambda>(hash, e). make_candidate (epoch l) hash e) (tracked_list D c)) = map (entry_key \<circ> snd) (tracked_list D c)"
    by (simp add: split_def)
  ultimately show ?thesis by (simp add: candidates_def c(1) distinct_map_sort del: map_map)
qed

lemma route_candidates_sum:
  assumes "wf_dirs D m" "route_candidates D m cs counts w = Some (counts', w')" "length counts = length (shards m)"
  shows "length counts' = length (shards m) \<and> w' = w + sum_list (map cand_weight cs) \<and>
    (\<forall>i < length (shards m). counts' ! i = counts ! i + length (filter (\<lambda>c. route D (length (shards m)) (cand_key c) = i) cs))"
  using assms(2,3)
proof (induction cs arbitrary: counts w)
  case (Cons c cs)
  let ?i = "route D (length (shards m)) (cand_key c)"
  have i: "?i < length counts" using Cons.prems(2) route_less[OF wf_dirsD(1)[OF assms(1)]] by simp
  have "route_candidates D m cs (counts[?i := counts ! ?i + 1]) (w + cand_weight c) = Some (counts', w')"
    using Cons.prems i by (simp add: shard_index_wf[OF assms(1)])
  from Cons.IH[OF this] Cons.prems(2) i show ?case by (auto simp: nth_list_update)
qed simp

lemma routed_counters:
  assumes wf: "wf_dirs D m" and sy: "synced_by D m T"
    and r: "route_candidates D m (candidates D (lifecycle m) pol) (replicate (shard_count m) 0) 0 = Some (counts, w)"
  shows "counters_ok D per_limit counts w (total_len m) m"
proof -
  let ?cs = "candidates D (lifecycle m) pol"
  have tr: "tracks D (lifecycle m) T" "\<not> dirty (lifecycle m)" using sy by (simp_all add: synced_by_def)
  note dk = distinct_candidates[OF tr(1), of pol]
  have cs: "c \<in> set ?cs \<longleftrightarrow> current D (lifecycle m) T c" for c using engine.set_candidates(1)[OF tr, of pol] by simp
  have keys: "cand_key ` set ?cs = dom T"
  proof
    show "cand_key ` set ?cs \<subseteq> dom T" using engine.current_key[OF tr(1)] cs by blast
    show "dom T \<subseteq> cand_key ` set ?cs"
    proof
      fix k assume "k \<in> dom T"
      then obtain e where e: "T k = Some e" by auto
      then have "make_candidate (epoch (lifecycle m)) (fx_hash_one D k) e \<in> set ?cs" unfolding cs by (auto simp: current_def)
      then show "k \<in> cand_key ` set ?cs" using tracks_key[OF tr(1) e] by (metis cand_key_make imageI)
    qed
  qed
  have dom: "dom T = dom (view D m)" using synced_dom[OF sy] by (simp add: dom_def)
  have "cand_weight c = entry_weight (the (T (cand_key c)))" if "c \<in> set ?cs" for c
    using engine.current_key[OF tr(1)] that cs by (metis make_candidate_weight option.sel)
  then have mw: "map cand_weight ?cs = map (\<lambda>k. entry_weight (the (T k))) (map cand_key ?cs)" by simp
  have w: "sum_list (map cand_weight ?cs) = exact_weight (lifecycle m)"
    unfolding mw using sum_list_distinct_conv_sum_set[OF dk, of "\<lambda>k. entry_weight (the (T k))"] engine.exact_weight_sum[OF tr(1)] keys by simp
  have ld: "length (filter (\<lambda>c. route D (length (shards m)) (cand_key c) = i) ?cs) = shard_load D m i" for i
  proof -
    have "length (filter (\<lambda>c. route D (length (shards m)) (cand_key c) = i) ?cs) =
        length (filter (\<lambda>k. route D (length (shards m)) k = i) (map cand_key ?cs))" by (simp add: filter_map comp_def)
    also have "\<dots> = card (set (filter (\<lambda>k. route D (length (shards m)) k = i) (map cand_key ?cs)))"
      using distinct_card[OF distinct_filter[OF dk]] by metis
    also have "set (filter (\<lambda>k. route D (length (shards m)) k = i) (map cand_key ?cs)) = {k \<in> dom (view D m). route D (length (shards m)) k = i}"
      unfolding set_filter set_map keys dom ..
    finally show ?thesis by (simp add: shard_load_def)
  qed
  show ?thesis using route_candidates_sum[OF wf r] w ld wf_dirsD(2)[OF wf] by (simp add: counters_ok_def)
qed

lemma evict_loop_exclusive:
  assumes "cs = (if per_limit = None \<and> memory_budget (lifecycle m) = None \<and>
         (case target of None \<Rightarrow> False | Some limit \<Rightarrow> limit \<le> unat (len m) \<and> unat (len m) - limit = 1)
       then (case minimum_candidate D (lifecycle m) pol of None \<Rightarrow> [] | Some c \<Rightarrow> [c]) else candidates D (lifecycle m) pol)"
  shows "evict_loop D target per_limit cs (over_memory_budget (lifecycle m)) cl ev m =
    evict_loop D target per_limit (exclusive_candidates D target per_limit pol m) (over_memory_budget (lifecycle m)) cl ev m"
proof (cases "per_limit \<noteq> None \<or> over_target m target \<or> over_memory_budget (lifecycle m)")
  case True
  then have "exclusive_candidates D target per_limit pol m = cs" unfolding exclusive_candidates_def assms by argo
  then show ?thesis by simp
next
  case False
  then show ?thesis by (cases cs) (simp_all add: exclusive_candidates_def)
qed

text \<open>The repair of the metadata, on a map whose life-cycle marks may have moved.\<close>

lemma repair_synced:
  assumes wf: "wf_dirs D m" and ok: "engine_ok D m"
  defines "m2 \<equiv> (if dirty (lifecycle m) then m\<lparr>lifecycle := reconcile D (live_weights D m) (lifecycle m)\<rparr> else m)"
  shows "\<exists>T. synced_by D m2 T" "unat (sequence (lifecycle m2)) \<le> unat (sequence (lifecycle m)) + card (dom (view D m))"
proof -
  have "(\<exists>T. synced_by D m2 T) \<and> unat (sequence (lifecycle m2)) \<le> unat (sequence (lifecycle m)) + card (dom (view D m))"
  proof (cases "dirty (lifecycle m)")
    case True
    obtain c where c: "configured (lifecycle m) = Some c" "length (stripes c) = STRIPES" using ok True by (auto simp: engine_ok_def)
    note rt = engine.reconcile_tracks[OF c, of "live_weights D m"] and lw = live_weights_spec[OF wf]
    have "weight (reconcile D (live_weights D m) (lifecycle m)) = weight (lifecycle m)" by (rule weight_cong) simp
    then show ?thesis using rt lw ok True by (auto simp: m2_def synced_by_def engine_ok_def)
  qed (use ok in \<open>auto simp: engine_ok_def m2_def\<close>)
  then show "\<exists>T. synced_by D m2 T" "unat (sequence (lifecycle m2)) \<le> unat (sequence (lifecycle m)) + card (dom (view D m))" by blast+
qed

lemma engine_ok_pending:
  assumes "engine_ok D m"
  defines "m1 \<equiv> m\<lparr>lifecycle := mutation (mark_pending (lifecycle m))\<rparr>"
  shows "engine_ok D m1" "synced_by D m T \<Longrightarrow> synced_by D m1 T"
proof -
  have d: "dirty (mutation (mark_pending (lifecycle m))) = dirty (lifecycle m)"
    "configured (mutation (mark_pending (lifecycle m))) = configured (lifecycle m)"
    by (simp_all add: dirty_def mutation_def mark_pending_def)
  show s: "synced_by D m1 T" if "synced_by D m T" for T
    using that unfolding m1_def by (intro synced_frame[OF that]) (simp_all add: synced_by_def)
  show "engine_ok D m1"
    using assms(1) s unfolding m1_def by (cases "dirty (lifecycle m)") (auto simp: engine_ok_def d)
qed

lemma planned_pass:
  fixes target :: "nat option" and pol :: capacity_policy
  assumes wf: "wf_map D m" and sy: "synced_by D m T" and b: "card (dom (view D m)) < 2 ^ 64"
    and cs: "cs = (if per_limit = None \<and> memory_budget (lifecycle m) = None \<and>
         (case target of None \<Rightarrow> False | Some limit \<Rightarrow> limit \<le> unat (len m) \<and> unat (len m) - limit = 1)
       then (case minimum_candidate D (lifecycle m) pol of None \<Rightarrow> [] | Some c \<Rightarrow> [c]) else candidates D (lifecycle m) pol)"
    and rc: "route_candidates D m cs (replicate (shard_count m) 0) 0 = Some (counts, w)"
  shows "\<exists>ps ev m'. plan_victims D target per_limit (memory_budget (lifecycle m)) cs counts w (total_len m) [] m = Some (ps, m) \<and>
    run_plans D ps [] m = Some (ev, m') \<and> pass_limits D target per_limit m' \<and> (\<exists>T'. synced_by D m' T') \<and>
    sequence (lifecycle m') = sequence (lifecycle m) \<and> (per_limit = None \<longrightarrow> victims_lowest D pol T m m')"
proof -
  have wd: "wf_dirs D m" using wf by (simp add: wf_map_def)
  have tr: "tracks D (lifecycle m) T" "\<not> dirty (lifecycle m)" using sy by (simp_all add: synced_by_def)
  have cur: "\<forall>c\<in>set cs. current D (lifecycle m) T c" and dist: "distinct (map cand_key cs)"
    using engine.set_candidates(1,3)[OF tr, of pol] distinct_candidates[OF tr(1), of pol] unfolding cs by (auto split: option.splits)
  have len: "length counts = shard_count m" using route_candidates_ok[OF wd, of "replicate (shard_count m) 0" cs 0] rc by simp
  have co: "counters_ok D per_limit counts w (total_len m) m"
  proof (cases "per_limit = None \<and> memory_budget (lifecycle m) = None")
    case True
    then show ?thesis using len by (simp add: counters_ok_def)
  next
    case False
    then have "cs = candidates D (lifecycle m) pol" unfolding cs by auto
    then show ?thesis using routed_counters[OF wd sy] rc by simp
  qed
  have ag: "agree D cs m m" using engine.validate_current[OF tr] cur by (simp add: agree_def)
  obtain ps where ps: "plan_victims D target per_limit (memory_budget (lifecycle m)) cs counts w (total_len m) [] m = Some (ps, m)"
    "run_plans D ps [] m = evict_loop D target per_limit cs (over_memory_budget (lifecycle m)) counts [] m"
    using plan_sim[OF wf sy b cur dist wd ag co refl, of target "[]" "[]"] by auto
  have ct: "per_limit \<noteq> None \<Longrightarrow> length counts = shard_count m \<and> (\<forall>i < shard_count m. counts ! i = shard_load D m i)"
    using co by (simp add: counters_ok_def)
  obtain ev m' where run: "evict_loop D target per_limit (exclusive_candidates D target per_limit pol m)
      (over_memory_budget (lifecycle m)) counts [] m = Some (ev, m')"
    using evict_loop_spec[OF wf, of per_limit counts target "exclusive_candidates D target per_limit pol m"] len by fastforce
  show ?thesis using ps run evict_loop_exclusive[OF cs, of counts "[]"] exclusive_run[OF wf sy b ct run] by auto
qed

lemma maintain_global_limits:
  assumes wf: "wf_map D m" and ok: "engine_ok D m" and b: "card (dom (view D m)) < 2 ^ 64"
    and pol: "(if force \<noteq> None then force else policy (lifecycle m)) = Some p"
    and run: "maintain_global D cfg target force m = Some (n, m')"
  shows "pass_limits D target (max_items_per_shard cfg) m'" "\<exists>T. synced_by D m' T"
    "unat (sequence (lifecycle m')) \<le> unat (sequence (lifecycle m)) + card (dom (view D m))"
    "synced_by D m T \<Longrightarrow> sequence (lifecycle m') = sequence (lifecycle m) \<and>
       (max_items_per_shard cfg = None \<longrightarrow> victims_lowest D p T m m')"
proof -
  define m1 where "m1 = m\<lparr>lifecycle := mutation (mark_pending (lifecycle m))\<rparr>"
  define m2 where "m2 = (if dirty (lifecycle m1) then m1\<lparr>lifecycle := reconcile D (live_weights D m1) (lifecycle m1)\<rparr> else m1)"
  obtain l2 where m2: "m2 = m\<lparr>lifecycle := l2\<rparr>" "life_opts l2 = life_opts (lifecycle m)"
    by (cases "dirty (lifecycle m1)") (auto simp: m2_def m1_def)
  have w2: "wf_map D m2" "view D m2 = view D m" "wf_dirs D m2" "wf_dirs D m1" using wf by (simp_all add: m2 m1_def wf_map_def)
  have v1: "view D m1 = view D m" "sequence (lifecycle m1) = sequence (lifecycle m)" by (simp_all add: m1_def)
  note ok1 = engine_ok_pending[OF ok, folded m1_def]
  obtain T2 where T2: "synced_by D m2 T2" using repair_synced(1)[OF w2(4) ok1(1)] by (auto simp: m2_def)
  have sq: "unat (sequence (lifecycle m2)) \<le> unat (sequence (lifecycle m)) + card (dom (view D m))"
    using repair_synced(2)[OF w2(4) ok1(1)] v1 by (simp add: m2_def)
  have "policy (lifecycle m2) = policy (lifecycle m)" using m2 by (simp add: policy_opts)
  then have pol2: "(if force \<noteq> None then force else policy (lifecycle m2)) = Some p" using pol by (cases force) simp_all
  define cs where "cs = (if max_items_per_shard cfg = None \<and> memory_budget (lifecycle m2) = None \<and>
       (case target of None \<Rightarrow> False | Some limit \<Rightarrow> limit \<le> unat (len m2) \<and> unat (len m2) - limit = 1)
     then (case minimum_candidate D (lifecycle m2) p of None \<Rightarrow> [] | Some c \<Rightarrow> [c]) else candidates D (lifecycle m2) p)"
  obtain counts w where rc: "route_candidates D m2 cs (replicate (shard_count m2) 0) 0 = Some (counts, w)"
    using route_candidates_ok[OF w2(3), of "replicate (shard_count m2) 0" cs 0] by auto
  have b2: "card (dom (view D m2)) < 2 ^ 64" using b w2(2) by simp
  note pp = planned_pass[OF w2(1) _ b2 cs_def rc]
  obtain ps ev m4 where r: "plan_victims D target (max_items_per_shard cfg) (memory_budget (lifecycle m2)) cs counts w (total_len m2) [] m2 = Some (ps, m2)"
    "run_plans D ps [] m2 = Some (ev, m4)" "pass_limits D target (max_items_per_shard cfg) m4" "\<exists>T'. synced_by D m4 T'"
    "sequence (lifecycle m4) = sequence (lifecycle m2)" using pp[OF T2] by blast
  define ob where "ob = maintenance_generation (lifecycle m1)"
  have m': "m' = m4\<lparr>lifecycle := dispatch_callbacks D ev (record_eviction_duration (elapsed D) (mark_maintained ob (lifecycle m4)))\<rparr>"
    using run unfolding maintain_global_def Let_def
    unfolding m1_def[symmetric] unfolding live_weights_def[symmetric] unfolding m2_def[symmetric] pol2 bind.bind_lunit
    unfolding len_def[symmetric] unfolding cs_def[symmetric]
    using rc r(1,2) by (simp add: ob_def len_def)
  obtain T4 where T4: "synced_by D m4 T4" using r(4) by blast
  have s5: "synced_by D (m4\<lparr>lifecycle := mark_maintained ob (lifecycle m4)\<rparr>) T4" by (rule synced_marks(2)[OF T4])
  then have "synced_by D m' T4" using synced_marks(4)[OF s5, of ev "elapsed D"] by (simp add: m')
  then show "\<exists>T. synced_by D m' T" by blast
  have seq: "sequence (lifecycle m') = sequence (lifecycle m2)"
  proof -
    have "tracks D (record_eviction_duration (elapsed D) (mark_maintained ob (lifecycle m4))) T4" using T4 by (simp add: synced_by_def)
    from engine.dispatch_tracks(3)[OF this] show ?thesis using r(5) by (simp add: m')
  qed
  show "pass_limits D target (max_items_per_shard cfg) m'" using r(3) by (simp add: m')
  show "unat (sequence (lifecycle m')) \<le> unat (sequence (lifecycle m)) + card (dom (view D m))" using seq sq by simp
  assume sy: "synced_by D m T"
  then have "m2 = m1" using ok1(2)[OF sy] by (simp add: m2_def synced_by_def)
  moreover have "victims_lowest D p T m2 m4" if "max_items_per_shard cfg = None" "synced_by D m2 T"
    using pp[OF that(2)] r(1,2) that(1) by auto
  ultimately show "sequence (lifecycle m') = sequence (lifecycle m) \<and> (max_items_per_shard cfg = None \<longrightarrow> victims_lowest D p T m m')"
    using seq v1(2) ok1(2)[OF sy] w2(2) by (simp add: m' victims_lowest_def)
qed

end

end
