(* ===== verification/Async_Capacity_Calls.thy ===== *)
theory Async_Capacity_Calls
  imports Async_Capacity
begin

text \<open>
  The asynchronous map within its limits: the per-shard pass, the whole of \<open>maintain_eviction\<close>, and the calls. A
  cache operated by asynchronous calls and passes respects the limits of its configuration just as the
  synchronous one does.
\<close>

context starshard_deps
begin

section \<open>The per-shard pass\<close>

text \<open>Outside a migration the planned removals of the per-shard pass are those of the loop with exact shard counts.\<close>

lemma shard_plans_loop:
  assumes "wf_map D m" "synced_by D m T" "card (dom (view D m)) < 2 ^ 64" "previous_shard_count m = 0" "memory_budget (lifecycle m) = None"
    "\<forall>(c, i)\<in>set ps. current D (lifecycle m) T c \<and> i = route D (length (shards m)) (cand_key c) \<and> slot_at m (False, i) \<noteq> None"
    "distinct (map cand_key (map fst ps))" "counters_ok D (Some limit) counts 0 (total_len m) m"
  shows "run_shard_plans D limit ps ev m = evict_loop D None (Some limit) (map fst ps) False counts ev m"
  using assms
proof (induction ps arbitrary: m T ev counts)
  case (Cons p ps)
  obtain c i where p: "p = (c, i)" by (cases p)
  note wf = Cons.prems(1) and sy = Cons.prems(2) and co = Cons.prems(8)
  let ?k = "cand_key c"
  have wd: "wf_dirs D m" using wf by (simp add: wf_map_def)
  have tr: "tracks D (lifecycle m) T" "\<not> dirty (lifecycle m)" using sy by (simp_all add: synced_by_def)
  have pv: "prev_slots m = []" using wd Cons.prems(4) by (simp add: wf_dirs_def)
  have c: "current D (lifecycle m) T c" "i = route D (length (shards m)) ?k" "slot_at m (False, i) \<noteq> None" using Cons.prems(6) p by auto
  have i: "i < length (shards m)" unfolding c(2) by (rule route_less[OF wf_dirsD(1)[OF wd]])
  obtain sd where at: "slot_at m (False, i) = Some sd" using c(3) by auto
  have "counts ! i = hb_len (shard_ops D) (as_map sd)"
    using co i at shard_load_slot[OF wd Cons.prems(4), of i] wf_dirsD(2)[OF wd] by (simp add: slot_len_def slot_at_def counters_ok_def)
  then have os: "over_shard (Some limit) counts i = Some (limit < hb_len (shard_ops D) (as_map sd))"
    using co i wf_dirsD(2)[OF wd] by (simp add: over_shard_def counters_ok_def)
  have cur: "\<forall>c\<in>set (c # map fst ps). current D (lifecycle m) T c" and dist: "distinct (map cand_key (c # map fst ps))"
    using Cons.prems(6,7) p by auto
  then have ag: "agree D (c # map fst ps) m m" and val: "validate D (lifecycle m) c"
    using engine.validate_current[OF tr] by (auto simp: agree_def)
  show ?case
  proof (cases "limit < hb_len (shard_ops D) (as_map sd)")
    case False
    then show ?thesis
      using Cons.IH[OF wf sy Cons.prems(3-5) _ _ co, of ev] Cons.prems(6,7) p at os c(2) shard_index_wf[OF wd]
      by (simp add: over_target_def)
  next
    case True
    obtain loc sd' v m1 m2 T2 where st: "locate D m ?k i = Some (Some loc)" "slot_at m loc = Some sd'"
      "remove_victim D ?k i m = Some (Some (v, m1))" "m2 = commit_eviction D c m1"
      "\<And>ev. async_remove_victim D c loc sd' ev m = (ev @ [(?k, v)], m2)"
      "evicted_by D [(?k, v)] m m2" "synced_by D m2 T2" "\<forall>c'\<in>set (map fst ps). current D (lifecycle m2) T2 c'" "agree D (map fst ps) m m2"
      "counters_ok D (Some limit) (counts[i := counts ! i - 1]) (0 - cand_weight c) (total_len m - 1) m2"
      using planned_removal[OF wf sy cur dist wd ag co, folded c(2)] by blast
    have w2: "wf_map D m2" "same_meta m m2" "memory_budget (lifecycle m2) = None" "card (dom (view D m2)) < 2 ^ 64"
      using evicted_byD[OF st(6)] Cons.prems(3,5) card_mono[OF finite_dom_view[OF wd] map_le_implies_dom_le[OF evicted_by_subset[OF st(6)]]]
      by (simp_all add: memory_budget_opts)
    have "loc = (False, i)" using st(1) locate_eq[OF wd, of ?k] pv c(2) by (simp split: if_splits)
    then have run: "async_remove_victim D c (False, i) sd ev m = (ev @ [(?k, v)], m2)" using st(2,5) at by simp
    then have "slot_at m loc' \<noteq> None \<Longrightarrow> slot_at m2 loc' \<noteq> None" for loc'
      using async_remove_victim_spec[OF wf at, of c ev] by (cases loc') auto
    then have ps2: "\<forall>(c, i)\<in>set ps. current D (lifecycle m2) T2 c \<and> i = route D (length (shards m2)) (cand_key c) \<and> slot_at m2 (False, i) \<noteq> None"
      using Cons.prems(6) st(8) w2(2) by (auto simp: same_meta_def)
    have co2: "counters_ok D (Some limit) (counts[i := counts ! i - 1]) 0 (total_len m2) m2" using st(10) w2(3) by (simp add: counters_ok_def)
    have "run_shard_plans D limit ps (ev @ [(?k, v)]) m2 = evict_loop D None (Some limit) (map fst ps) False (counts[i := counts ! i - 1]) (ev @ [(?k, v)]) m2"
      using Cons.prems(4,7) w2(2) by (intro Cons.IH[OF w2(1) st(7) w2(4) _ w2(3) ps2 _ co2]) (simp_all add: same_meta_def)
    then show ?thesis using True p at run os val st(3,4) c(2) shard_index_wf[OF wd] by (simp add: over_target_def Let_def)
  qed
qed simp

lemma distinct_for_keys:
  assumes "tracks D l T" "distinct ks"
  shows "distinct (map cand_key (candidates_for_keys D l pol ks))"
proof -
  obtain c where c: "configured l = Some c" "find_entry D c = T" using assms(1) by (auto simp: tracks_def)
  let ?f = "\<lambda>key. map_option (make_candidate (epoch l) (fx_hash_one D key)) (T key)"
  have "map cand_key (List.map_filter ?f ks) = filter (\<lambda>k. T k \<noteq> None) ks"
    using tracks_key[OF assms(1)] by (induction ks) (auto simp: List.map_filter_simps split: option.splits)
  then show ?thesis using assms(2) by (simp add: candidates_for_keys_def c distinct_map_sort)
qed

text \<open>The plan covers exactly the tracked keys of the overfull shards.\<close>

lemma shard_plans_spec:
  fixes pol :: capacity_policy and limit :: nat
  assumes wf: "wf_dirs D m" and sy: "synced_by D m T" and none: "previous_shard_count m = 0"
  defines "ps \<equiv> shard_plans D pol (overfull D limit m) m"
  shows "\<forall>(c, i)\<in>set ps. current D (lifecycle m) T c \<and> i = route D (length (shards m)) (cand_key c) \<and> slot_at m (False, i) \<noteq> None"
    "distinct (map cand_key (map fst ps))"
    "view D m k \<noteq> None \<Longrightarrow> limit < shard_load D m (route D (length (shards m)) k) \<Longrightarrow> k \<in> cand_key ` set (map fst ps)"
proof -
  have tr: "tracks D (lifecycle m) T" "\<not> dirty (lifecycle m)" using sy by (simp_all add: synced_by_def)
  let ?ks = "\<lambda>sd. map fst (hb_iter (shard_ops D) (as_map sd))"
  let ?g = "\<lambda>i. case shards m ! i of None \<Rightarrow> [] | Some sd \<Rightarrow> candidates_for_keys D (lifecycle m) pol (?ks sd)"
  have ks: "k \<in> set (?ks sd) \<longleftrightarrow> hb_get (shard_ops D) (as_map sd) k \<noteq> None" for sd k
    using H.iter_map_of[of "as_map sd"] by (metis list.set_map map_of_eq_None_iff)
  have g: "current D (lifecycle m) T c \<and> route D (length (shards m)) (cand_key c) = i" if il: "i < length (shards m)" and cg: "c \<in> set (?g i)" for c i
  proof -
    obtain sd where sd: "shards m ! i = Some sd" "c \<in> set (candidates_for_keys D (lifecycle m) pol (?ks sd))"
      using cg by (cases "shards m ! i") auto
    then have "current D (lifecycle m) T c" "hb_get (shard_ops D) (as_map sd) (cand_key c) \<noteq> None"
      unfolding engine.set_candidates(4)[OF tr] using ks by auto
    then show ?thesis using slots_okD[OF wf_dirsD(5)[OF wf] il sd(1)] by (auto simp: shard_ok_def)
  qed
  have ov: "i < length (shards m) \<and> slot_at m (False, i) \<noteq> None" if "i \<in> set (overfull D limit m)" for i
    using that by (auto simp: overfull_def slot_at_def split: option.splits)
  have ps: "ps = concat (map (\<lambda>i. map (\<lambda>c. (c, i)) (?g i)) (overfull D limit m))"
    unfolding ps_def shard_plans_def by (rule arg_cong[where f = concat], rule map_cong[OF refl]) (simp split: option.splits)
  show "\<forall>(c, i)\<in>set ps. current D (lifecycle m) T c \<and> i = route D (length (shards m)) (cand_key c) \<and> slot_at m (False, i) \<noteq> None"
    using g ov unfolding ps by fastforce
  have "distinct (concat (map (\<lambda>i. map cand_key (?g i)) (overfull D limit m)))"
  proof (rule distinct_concat_by[where r = "route D (length (shards m))"])
    show "distinct (overfull D limit m)" by (simp add: overfull_def)
    fix i assume "i \<in> set (overfull D limit m)"
    then have "i < length (shards m)" using ov by blast
    then have "\<forall>k\<in>cand_key ` set (?g i). route D (length (shards m)) k = i" using g by blast
    moreover have "distinct (map cand_key (?g i))" using distinct_for_keys[OF tr(1) H.iter_distinct] by (cases "shards m ! i") simp_all
    ultimately show "distinct (map cand_key (?g i)) \<and> (\<forall>k\<in>set (map cand_key (?g i)). route D (length (shards m)) k = i)" by simp
  qed
  then show "distinct (map cand_key (map fst ps))" by (simp add: ps map_concat comp_def)
  assume k: "view D m k \<noteq> None" "limit < shard_load D m (route D (length (shards m)) k)"
  let ?i = "route D (length (shards m)) k"
  have i: "?i < length (shards m)" by (rule route_less[OF wf_dirsD(1)[OF wf]])
  have "limit < slot_len D (shards m ! ?i)" using k(2) shard_load_slot[OF wf none, of ?i] i by simp
  then obtain sd where sd: "shards m ! ?i = Some sd" "limit < hb_len (shard_ops D) (as_map sd)" by (cases "shards m ! ?i") (auto simp: slot_len_def)
  have "prev_slots m = []" using wf none by (simp add: wf_dirs_def)
  then have "k \<in> set (?ks sd)" unfolding ks using k(1) slots_get_at[OF i refl] sd(1) by (auto simp: view_def map_add_def split: option.splits)
  moreover obtain e where e: "T k = Some e" using k(1) synced_dom[OF sy, of k] by (cases "T k") auto
  moreover have "cand_key (make_candidate (epoch (lifecycle m)) (fx_hash_one D k) e) = k" using tracks_key[OF tr(1) e] by simp
  ultimately have "make_candidate (epoch (lifecycle m)) (fx_hash_one D k) e \<in> set (?g ?i)"
    unfolding sd(1) option.case engine.set_candidates(4)[OF tr] by (auto simp: current_def)
  moreover have "?i \<in> set (overfull D limit m)" using i sd by (simp add: overfull_def)
  ultimately have "make_candidate (epoch (lifecycle m)) (fx_hash_one D k) e \<in> set (map fst ps)" unfolding ps by force
  then show "k \<in> cand_key ` set (map fst ps)" using tracks_key[OF tr(1) e] by (metis cand_key_make imageI)
qed

lemma shard_plans_limits:
  assumes wf: "wf_map D m" and sy: "synced_by D m T" and b: "card (dom (view D m)) < 2 ^ 64"
    and none: "previous_shard_count m = 0" "memory_budget (lifecycle m) = None"
    and run: "run_shard_plans D limit (shard_plans D pol (overfull D limit m) m) [] m = Some (ev, m')"
  shows "pass_limits D None (Some limit) m'" "\<exists>T. synced_by D m' T" "sequence (lifecycle m') = sequence (lifecycle m)"
proof -
  let ?ps = "shard_plans D pol (overfull D limit m) m" and ?counts = "map (shard_load D m) [0..<shard_count m]"
  have wd: "wf_dirs D m" using wf by (simp add: wf_map_def)
  note sp = shard_plans_spec[OF wd sy none(1), where pol = pol and limit = limit]
  have co: "counters_ok D (Some limit) ?counts 0 (total_len m) m" using none(2) by (simp add: counters_ok_def)
  have loop: "evict_loop D None (Some limit) (map fst ?ps) False ?counts [] m = Some (ev, m')"
    using shard_plans_loop[OF wf sy b none sp(1,2) co, of "[]"] run by simp
  have ow: "False = over_memory_budget (lifecycle m)" using none(2) by (simp add: over_memory_budget_def)
  have cur: "\<forall>c\<in>set (map fst ?ps). current D (lifecycle m) T c \<or> view D m (cand_key c) = None" using sp(1) by fastforce
  have r: "run_ok D None (Some limit) (map fst ?ps) m m'"
    by (rule evict_loop_run[OF wf sy b cur _ ow loop]) simp
  obtain T' where T': "synced_by D m' T'" using r by (auto simp: run_ok_def)
  then show "\<exists>T. synced_by D m' T" by blast
  show "sequence (lifecycle m') = sequence (lifecycle m)" using r by (simp add: run_ok_def)
  obtain ev' where e: "evicted_by D ev' m m'" using evict_loop_spec[OF wf, of "Some limit" ?counts None "map fst ?ps" False "[]"] loop by auto
  have meta: "same_meta m m'" "life_opts (lifecycle m') = life_opts (lifecycle m)" "wf_map D m'" using evicted_byD[OF e] by auto
  have "shard_load D m' i \<le> limit" for i
  proof (rule ccontr)
    assume ld: "\<not> shard_load D m' i \<le> limit"
    then have "{k \<in> dom (view D m'). route D (length (shards m')) k = i} \<noteq> {}" unfolding shard_load_def by (metis card.empty le0)
    then obtain k where k: "view D m' k \<noteq> None" "route D (length (shards m')) k = i" by blast
    have nd: "needed D None (Some limit) m' k" using ld k(2) by (simp add: needed_def)
    then have "needed D None (Some limit) m k"
      by (rule needed_mono[OF wf meta(3) sy T' evicted_by_subset[OF e] meta(1,2) b])
    then have "limit < shard_load D m (route D (length (shards m)) k)" using ow by (simp add: needed_def over_target_def)
    moreover have "view D m k \<noteq> None" using k(1) map_le_implies_dom_le[OF evicted_by_subset[OF e]] by blast
    ultimately have "k \<in> cand_key ` set (map fst ?ps)" using sp(3) by blast
    then obtain c where "c \<in> set (map fst ?ps)" "cand_key c = k" by blast
    then show False using r nd k(1) unfolding run_ok_def by metis
  qed
  then show "pass_limits D None (Some limit) m'" using meta(2) none(2) by (simp add: pass_limits_def over_target_def memory_budget_opts)
qed

lemma dispatch_engine_ok:
  assumes "engine_ok D m"
  shows "engine_ok D (m\<lparr>lifecycle := dispatch_callbacks D ev (lifecycle m)\<rparr>)"
    "sequence (dispatch_callbacks D ev (lifecycle m)) = sequence (lifecycle m)"
proof -
  let ?l = "lifecycle m"
  obtain c where c: "configured ?l = Some c" using assms by (auto simp: engine_ok_def synced_by_def tracks_def split: if_splits)
  obtain ks ss where d: "drain_retired_loop (retired_stripes c) (stripes c) [] = (ks, ss)" by fastforce
  let ?l1 = "?l\<lparr>configured := Some (c\<lparr>retired_stripes := 0, stripes := ss\<rparr>)\<rparr>"
  have dl: "snd (drain_retired ?l) = ?l1" by (simp add: drain_retired_def c d)
  have len: "length ss = length (stripes c)"
    using engine.drain_retired_same[where c = c and w = "retired_stripes c" and acc = "[]"] map_eq_imp_length_eq by (fastforce simp: d same_stripes_def)
  show sq: "sequence (dispatch_callbacks D ev ?l) = sequence ?l" by (auto simp: dispatch_callbacks_def dl Let_def split: option.splits)
  have dd: "dirty (dispatch_callbacks D ev ?l) = dirty ?l" by (auto simp: dispatch_callbacks_def dl Let_def dirty_def split: option.splits)
  have "configured (dispatch_callbacks D ev ?l) = configured ?l1" by (auto simp: dispatch_callbacks_def dl Let_def split: option.splits)
  then show "engine_ok D (m\<lparr>lifecycle := dispatch_callbacks D ev ?l\<rparr>)"
    using assms c len sq dd synced_marks(3)[of m _ ev] by (cases "dirty ?l") (auto simp: engine_ok_def)
qed

lemma maintain_per_shard_cases:
  assumes cfg: "config (lifecycle m) = Some cfg" and run: "maintain_per_shard D m = Some (r, m')"
  defines "m1 \<equiv> m\<lparr>lifecycle := mutation (lifecycle m)\<rparr>"
  obtains (unset) "max_items_per_shard cfg = None" "r = None" "m' = m"
    | (declined) "r = None" "m' = m\<lparr>lifecycle := dispatch_callbacks D [] (lifecycle m)\<rparr>"
    | (ran) limit pol ev m2 fits where "max_items_per_shard cfg = Some limit" "previous_shard_count m = 0" "\<not> dirty (lifecycle m)" "r \<noteq> None"
        "run_shard_plans D limit (shard_plans D pol (overfull D limit m1) m1) [] m1 = Some (ev, m2)"
        "m' = m2\<lparr>lifecycle := dispatch_callbacks D ev (record_eviction_duration (elapsed D)
           (if fits then mark_maintained (maintenance_generation (lifecycle m1)) (lifecycle m2) else lifecycle m2))\<rparr>"
proof (cases "max_items_per_shard cfg")
  case None
  then show ?thesis using run cfg unset by (simp add: maintain_per_shard_def)
next
  case (Some limit)
  then have bd: "Option.bind (config (lifecycle m)) max_items_per_shard = Some limit" by (simp add: cfg)
  have dm: "dirty (lifecycle m1) = dirty (lifecycle m)" by (simp add: dirty_def m1_def)
  note run' = run[unfolded maintain_per_shard_def bd option.case Let_def, folded m1_def]
  show ?thesis
  proof (cases "previous_shard_count m \<noteq> 0 \<or> dirty (lifecycle m)")
    case True
    then show ?thesis using run' declined by simp
  next
    case False
    obtain pol where pol: "policy (lifecycle m1) = Some pol" using run' False by (cases "policy (lifecycle m1)") auto
    obtain ev m2 where r: "run_shard_plans D limit (shard_plans D pol (overfull D limit m1) m1) [] m1 = Some (ev, m2)"
      using run' False pol dm by (cases "run_shard_plans D limit (shard_plans D pol (overfull D limit m1) m1) [] m1") auto
    show ?thesis by (rule ran[OF Some _ _ _ r]) (use run' False pol dm r in auto)
  qed
qed

lemma maintain_per_shard_limits:
  assumes wf: "wf_map D m" and ok: "engine_ok D m" and b: "card (dom (view D m)) < 2 ^ 64" and none: "memory_budget (lifecycle m) = None"
    and cfg: "config (lifecycle m) = Some cfg" and run: "maintain_per_shard D m = Some (r, m')"
  shows "r = None \<Longrightarrow> \<exists>l. m' = m\<lparr>lifecycle := l\<rparr> \<and> life_opts l = life_opts (lifecycle m) \<and> engine_ok D m' \<and> sequence l = sequence (lifecycle m) \<and>
      (\<forall>T. synced_by D m T \<longrightarrow> synced_by D m' T)"
    "r = Some n \<Longrightarrow> pass_limits D None (max_items_per_shard cfg) m' \<and> (\<exists>T. synced_by D m' T) \<and> sequence (lifecycle m') = sequence (lifecycle m)"
proof -
  let ?m1 = "m\<lparr>lifecycle := mutation (lifecycle m)\<rparr>"
  show "\<exists>l. m' = m\<lparr>lifecycle := l\<rparr> \<and> life_opts l = life_opts (lifecycle m) \<and> engine_ok D m' \<and> sequence l = sequence (lifecycle m) \<and>
      (\<forall>T. synced_by D m T \<longrightarrow> synced_by D m' T)" if "r = None"
    using cfg run
  proof (cases rule: maintain_per_shard_cases)
    case unset
    then show ?thesis using ok by (intro exI[of _ "lifecycle m"]) simp
  next
    case declined
    then show ?thesis using dispatch_engine_ok[OF ok, of "[]"] synced_marks(3)[of m _ "[]"]
      by (intro exI[of _ "dispatch_callbacks D [] (lifecycle m)"]) simp
  qed (use that in simp)
  assume rn: "r = Some n"
  show "pass_limits D None (max_items_per_shard cfg) m' \<and> (\<exists>T. synced_by D m' T) \<and> sequence (lifecycle m') = sequence (lifecycle m)"
    using cfg run
  proof (cases rule: maintain_per_shard_cases)
    case (ran limit pol ev m2 fits)
    obtain T where T: "synced_by D m T" using ok ran(3) by (auto simp: engine_ok_def)
    have p1: "wf_map D ?m1" "card (dom (view D ?m1)) < 2 ^ 64" "previous_shard_count ?m1 = 0" "memory_budget (lifecycle ?m1) = None"
      using wf b ran(2) none by (simp_all add: memory_budget_opts)
    note sp = shard_plans_limits[OF p1(1) synced_marks(1)[OF T] p1(2-4) ran(5)]
    obtain T2 where T2: "synced_by D m2 T2" using sp(2) by blast
    define l where "l = (if fits then mark_maintained (maintenance_generation (mutation (lifecycle m))) (lifecycle m2) else lifecycle m2)"
    have s3: "synced_by D (m2\<lparr>lifecycle := l\<rparr>) T2" using T2 synced_marks(2)[OF T2] by (auto simp: l_def)
    then have tr: "tracks D (record_eviction_duration (elapsed D) l) T2" by (simp add: synced_by_def)
    have m': "m' = m2\<lparr>lifecycle := dispatch_callbacks D ev (record_eviction_duration (elapsed D) l)\<rparr>" using ran(6) by (simp add: l_def)
    have "pass_limits D None (max_items_per_shard cfg) m'" using sp(1) ran(1) unfolding m' by (subst pass_limits_frame) (simp_all add: l_def)
    moreover have "synced_by D m' T2" using synced_marks(4)[OF s3, of ev "elapsed D"] by (simp add: m')
    moreover have "sequence (lifecycle m') = sequence (lifecycle m)"
      using engine.dispatch_tracks(3)[OF tr, of ev] sp(3) by (simp add: m') (simp add: l_def)
    ultimately show ?thesis by blast
  qed (use rn in auto)
qed

section \<open>A whole pass and the calls\<close>

lemma flush_limits:
  assumes "pass_limits D target per_limit m" "synced_by D m T"
  shows "pass_limits D target per_limit (m\<lparr>lifecycle := dispatch_callbacks D ev (lifecycle m)\<rparr>)"
    "synced_by D (m\<lparr>lifecycle := dispatch_callbacks D ev (lifecycle m)\<rparr>) T"
    "sequence (dispatch_callbacks D ev (lifecycle m)) = sequence (lifecycle m)"
proof -
  have tr: "tracks D (lifecycle m) T" using assms(2) by (simp add: synced_by_def)
  show "pass_limits D target per_limit (m\<lparr>lifecycle := dispatch_callbacks D ev (lifecycle m)\<rparr>)" using assms(1) by simp
  show "synced_by D (m\<lparr>lifecycle := dispatch_callbacks D ev (lifecycle m)\<rparr>) T" by (rule synced_marks(3)[OF assms(2)])
  show "sequence (dispatch_callbacks D ev (lifecycle m)) = sequence (lifecycle m)" by (rule engine.dispatch_tracks(3)[OF tr])
qed

end

text \<open>What follows when the per-shard pass did not settle the matter.\<close>

definition after_shards ::
  "('k, 'v, 'm, 'b) deps \<Rightarrow> eviction_config \<Rightarrow> nat option \<Rightarrow> capacity_policy option \<Rightarrow> ('k, 'v, 'm, 'b) sharded_map \<Rightarrow>
   (nat \<times> ('k, 'v, 'm, 'b) sharded_map) option" where
  "after_shards D cfg target force m =
     (if \<not> dirty (lifecycle m) \<and> max_items_per_shard cfg = None \<and> \<not> over_target m target \<and> \<not> over_memory_budget (lifecycle m)
      then Some (0, m\<lparr>lifecycle := dispatch_callbacks D [] (mark_maintained (maintenance_generation (lifecycle m)) (lifecycle m))\<rparr>)
      else maintain_global D cfg target force m)"

context starshard_deps
begin

lemma after_shards_limits:
  assumes wf: "wf_map D m" and ok: "engine_ok D m" and b: "card (dom (view D m)) < 2 ^ 64"
    and pol: "(if force \<noteq> None then force else policy (lifecycle m)) = Some p" and run: "after_shards D cfg target force m = Some (n, m')"
  shows "pass_limits D target (max_items_per_shard cfg) m' \<and> (\<exists>T. synced_by D m' T) \<and>
    unat (sequence (lifecycle m')) \<le> unat (sequence (lifecycle m)) + card (dom (view D m)) \<and>
    (\<forall>T. synced_by D m T \<longrightarrow> sequence (lifecycle m') = sequence (lifecycle m) \<and>
       (max_items_per_shard cfg = None \<longrightarrow> victims_lowest D p T m m'))"
proof (cases "\<not> dirty (lifecycle m) \<and> max_items_per_shard cfg = None \<and> \<not> over_target m target \<and> \<not> over_memory_budget (lifecycle m)")
  case True
  obtain T where T: "synced_by D m T" using ok True by (auto simp: engine_ok_def)
  let ?m1 = "m\<lparr>lifecycle := mark_maintained (maintenance_generation (lifecycle m)) (lifecycle m)\<rparr>"
  have "pass_limits D target (max_items_per_shard cfg) m"
    using True synced_weight[OF T] by (auto simp: pass_limits_def over_memory_budget_def split: option.splits)
  then have "pass_limits D target (max_items_per_shard cfg) ?m1" by simp
  note f = flush_limits[OF this synced_marks(2)[OF T], of "[]"]
  have "m' = ?m1\<lparr>lifecycle := dispatch_callbacks D [] (lifecycle ?m1)\<rparr>" using run True by (simp add: after_shards_def)
  then show ?thesis using f by (auto simp: victims_lowest_def)
next
  case False
  then have "maintain_global D cfg target force m = Some (n, m')" using run by (auto simp: after_shards_def)
  from maintain_global_limits[OF wf ok b pol this] show ?thesis by blast
qed

lemma maintain_limits:
  assumes wf: "wf_map D m" and ok: "engine_ok D m" and b: "card (dom (view D m)) < 2 ^ 64"
    and cfg: "config (lifecycle m) = Some cfg" and valid: "max_entries cfg = None \<or> max_items_per_shard cfg = None"
    and pol: "(if force \<noteq> None then force else policy (lifecycle m)) = Some p" and run: "maintain_eviction D wanted force m = Some (n, m')"
  shows "pass_limits D (effective_target wanted (max_entries cfg)) (max_items_per_shard cfg) m' \<and> (\<exists>T. synced_by D m' T) \<and>
    unat (sequence (lifecycle m')) \<le> unat (sequence (lifecycle m)) + card (dom (view D m)) \<and>
    (\<forall>T. synced_by D m T \<longrightarrow> sequence (lifecycle m') = sequence (lifecycle m) \<and>
       (max_items_per_shard cfg = None \<longrightarrow> victims_lowest D p T m m'))"
proof -
  define target where "target = effective_target wanted (max_entries cfg)"
  let ?P = "wanted = None \<and> force = None \<and> max_items_per_shard cfg \<noteq> None \<and> memory_budget (lifecycle m) = None"
  obtain r m1 where r: "(if ?P then maintain_per_shard D m else Some (None, m)) = Some (r, m1)"
    using run unfolding maintain_eviction_def cfg option.case by (auto simp: bind_eq_Some_conv)
  have run1: "(case r of Some removed \<Rightarrow> Some (removed, m1\<lparr>lifecycle := dispatch_callbacks D [] (lifecycle m1)\<rparr>)
      | None \<Rightarrow> after_shards D cfg target force m1) = Some (n, m')"
    using run unfolding maintain_eviction_def cfg option.case r bind.bind_lunit prod.case Let_def target_def after_shards_def .
  show ?thesis
  proof (cases r)
    case (Some k)
    then have P: ?P using r by (auto split: if_splits)
    then have s: "pass_limits D None (max_items_per_shard cfg) m1 \<and> (\<exists>T. synced_by D m1 T) \<and> sequence (lifecycle m1) = sequence (lifecycle m)"
      using maintain_per_shard_limits(2)[OF wf ok b _ cfg, of r m1 k] r Some by simp
    then obtain T1 where T1: "synced_by D m1 T1" by blast
    have "target = None" using P valid by (auto simp: target_def effective_target_def)
    moreover have "m' = m1\<lparr>lifecycle := dispatch_callbacks D [] (lifecycle m1)\<rparr>" using run1 Some by simp
    ultimately show ?thesis using flush_limits[OF conjunct1[OF s] T1, of "[]"] s P unfolding target_def by auto
  next
    case None
    have "\<exists>l. m1 = m\<lparr>lifecycle := l\<rparr> \<and> life_opts l = life_opts (lifecycle m) \<and> engine_ok D m1 \<and> sequence l = sequence (lifecycle m) \<and>
        (\<forall>T. synced_by D m T \<longrightarrow> synced_by D m1 T)"
    proof (cases ?P)
      case True
      then show ?thesis using maintain_per_shard_limits(1)[OF wf ok b _ cfg, of r m1] r None by simp
    next
      case False
      then have "m1 = m" using r None by auto
      then show ?thesis using ok by (intro exI[of _ "lifecycle m"]) simp
    qed
    then obtain l where m1: "m1 = m\<lparr>lifecycle := l\<rparr>" "life_opts l = life_opts (lifecycle m)" "engine_ok D m1" "sequence l = sequence (lifecycle m)"
      "\<forall>T. synced_by D m T \<longrightarrow> synced_by D m1 T" by blast
    have "policy (lifecycle m1) = policy (lifecycle m)" using m1 by (simp add: policy_opts)
    then have "(if force \<noteq> None then force else policy (lifecycle m1)) = Some p" using pol by (cases force) simp_all
    note a = after_shards_limits[OF _ m1(3) _ this, of cfg target n m']
    have v: "view D m1 = view D m" "wf_map D m1" "sequence (lifecycle m1) = sequence (lifecycle m)" using m1(1,4) wf by simp_all
    have "victims_lowest D p T m1 m' = victims_lowest D p T m m'" for T by (simp add: victims_lowest_def v(1))
    then show ?thesis using a run1 None b m1(5) unfolding target_def v(1,3) by (auto simp: v(2))
  qed
qed

end

text \<open>The limits of a valid configuration survive every call and every pass.\<close>

definition valid_limits :: "('k, 'v) eviction_options \<Rightarrow> bool" where
  "valid_limits opts \<longleftrightarrow> max_entries (opt_config opts) = None \<or> max_items_per_shard (opt_config opts) = None"

definition async_maintain ::
  "('k, 'v, 'm, 'b) deps \<Rightarrow> nat option \<times> capacity_policy option \<Rightarrow> ('k, 'v, 'm, 'b) sharded_map \<Rightarrow> ('k, 'v, 'm, 'b) sharded_map option" where
  "async_maintain D = (\<lambda>(target, pol) m. map_option snd (maintain_eviction D target pol m))"

context starshard_deps
begin

lemma maintain_bounded_async:
  assumes wf: "wf_map D m" and sy: "synced_by D m T" and opts: "life_opts (lifecycle m) = Some opts" "valid_limits opts"
    and n: "unat (sequence (lifecycle m)) \<le> n" "card (dom (view D m)) \<le> n" "n < 2 ^ 64"
  shows "\<exists>k m'. maintain_eviction D wanted pol m = Some (k, m') \<and> bounded_map D opts n m'"
proof -
  obtain ev m' where r: "maintain_eviction D wanted pol m = Some (length ev, m')" and e: "evicted_by D ev m m'"
    using maintain_evicts[OF wf, of wanted pol] by blast
  have cfg: "config (lifecycle m) = Some (opt_config opts)" using opts(1) by (simp add: config_opts)
  obtain p where p: "(if pol \<noteq> None then pol else policy (lifecycle m)) = Some p"
    using opts(1) by (cases pol) (auto simp: policy_opts)
  have ok: "engine_ok D m" using sy by (auto simp: engine_ok_def synced_by_def)
  have b: "card (dom (view D m)) < 2 ^ 64" using n by simp
  note l = maintain_limits[OF wf ok b cfg _ p r]
  have sub: "card (dom (view D m')) \<le> card (dom (view D m))"
    using card_mono[OF finite_dom_view map_le_implies_dom_le[OF evicted_by_subset[OF e]]] wf by (simp add: wf_map_def)
  have "pass_limits D (effective_target wanted (max_entries (opt_config opts))) (max_items_per_shard (opt_config opts)) m'"
    using l opts(2) by (simp add: valid_limits_def)
  then have "keeps_limits D (max_entries (opt_config opts)) (max_items_per_shard (opt_config opts)) m'"
    using pass_respects(2) evicted_byD[OF e] b sub by simp
  then show ?thesis using r l sy evicted_byD[OF e] opts n sub by (auto simp: bounded_map_def valid_limits_def)
qed

lemma begin_op_synced:
  assumes "synced_by D m T"
  shows "synced_by D (begin_op m) T" "sequence (lifecycle (begin_op m)) = sequence (lifecycle m)"
  using synced_marks(1)[OF assms] by (simp_all add: begin_op_def)

lemma async_call_bounded:
  assumes b: "bounded_map D opts n m" "Suc n < 2 ^ 64" and valid: "valid_limits opts"
  shows "\<exists>r m'. run_call (async_insert D) (async_get D) (async_remove D) c m = Some (r, m') \<and> bounded_map D opts (Suc n) m'"
proof -
  have wf: "wf_map D m" "wf_map D (begin_op m)" using b(1) by (simp_all add: bounded_map_def)
  have fin: "finite (dom (view D m))" by (rule finite_dom_view[OF wf_map_dirs[OF wf(1)]])
  obtain T where T: "synced_by D m T" using b by (auto simp: bounded_map_def)
  note T1 = begin_op_synced[OF T]
  have seq: "unat (sequence (lifecycle m)) \<le> n" "card (dom (view D m)) \<le> n" "life_opts (lifecycle m) = Some opts"
    using b(1) by (auto simp: bounded_map_def)
  have pass: "\<exists>k m'. async_enforce D m1 = Some (k, m') \<and> bounded_map D opts (Suc n) m'"
    if "wf_map D m1" "\<exists>T. synced_by D m1 T" "life_opts (lifecycle m1) = Some opts" "unat (sequence (lifecycle m1)) \<le> Suc n"
      "card (dom (view D m1)) \<le> Suc n" for m1
    using that maintain_bounded_async[of m1 _ opts "Suc n" None None] valid b(2) unfolding async_enforce_def by blast
  show ?thesis
  proof (cases c)
    case (Insert k v)
    obtain m1 where i: "async_insert_inner D k v (begin_op m) = Some (view D m k, m1)"
      and cm: "committed D (begin_op m) ((view D (begin_op m))(k \<mapsto> v)) (write_epoch m + 1)
        (insert_hook D k v (view D m k \<noteq> None) (lifecycle (begin_op m))) m1"
      using async_insert_inner_spec[OF wf(2), of k v] by auto
    have "unat (sequence (lifecycle (begin_op m))) + 1 < 2 ^ 64" using seq b(2) T1(2) by simp
    note s = insert_synced[OF T1(1) this cm]
    have "card (dom (view D m1)) \<le> Suc n" using cm seq fin by (simp add: committed_def card_insert_if)
    then obtain k' m' where "async_enforce D m1 = Some (k', m')" "bounded_map D opts (Suc n) m'"
      using pass[of m1] cm s seq T1(2) by (auto simp: committed_def)
    then show ?thesis using Insert i by (simp add: async_insert_def)
  next
    case (Get k)
    note s = read_synced[OF T, of k "view D m k"]
    have "bounded_map D opts (Suc n) (tracked_read D k (view D m k) m)"
      using b seq s keeps_limits_frame[of "record_read D k (view D m k \<noteq> None) (lifecycle m)" m]
      by (auto simp: bounded_map_def tracked_read_def)
    then show ?thesis using Get async_read_key_eq[OF wf_map_dirs[OF wf(1)], of k id] by (simp add: async_get_def)
  next
    case (Delete k)
    obtain m1 l where i: "async_remove_inner D k (begin_op m) = Some (view D (begin_op m) k, m1)"
      and cm: "committed D (begin_op m) ((view D (begin_op m))(k := None))
        (if view D (begin_op m) k = None then write_epoch (begin_op m) else write_epoch (begin_op m) + 1) l m1"
      and l: "l = remove_hook D k (view D (begin_op m) k \<noteq> None) (lifecycle (begin_op m)) \<or> view D (begin_op m) k = None \<and> l = lifecycle (begin_op m)"
      using async_remove_inner_hook[OF wf(2), of k] by blast
    note s = remove_synced[OF T1(1) cm l]
    have "card (dom (view D m1)) \<le> Suc n" using cm seq card_Diff1_le[of "dom (view D m)" k] by (simp add: committed_def)
    moreover have "life_opts (lifecycle m1) = Some opts" using cm l seq(3) by (auto simp: committed_def)
    ultimately obtain k' m' where "async_enforce D m1 = Some (k', m')" "bounded_map D opts (Suc n) m'"
      using pass[of m1] cm s seq T1(2) by (auto simp: committed_def)
    then show ?thesis using Delete i by (simp add: async_remove_def)
  qed
qed

lemma async_maintain_bounded:
  assumes "bounded_map D opts n m" "n < 2 ^ 64" "valid_limits opts"
  shows "\<exists>m'. async_maintain D e m = Some m' \<and> bounded_map D opts n m'"
proof -
  obtain target pol where e: "e = (target, pol)" by (cases e)
  obtain T where "synced_by D m T" using assms(1) by (auto simp: bounded_map_def)
  from maintain_bounded_async[OF _ this _ assms(3) _ _ assms(2), of target pol] assms(1) show ?thesis
    by (auto simp: bounded_map_def async_maintain_def e)
qed

end

sublocale starshard_deps \<subseteq> async_bounded: bounded_contract "\<lambda>n m. valid_limits opts \<and> bounded_map D opts n m" "async_maintain D"
  "run_call (async_insert D) (async_get D) (async_remove D)"
  by unfold_locales (use async_maintain_bounded async_call_bounded in blast)+

context starshard_deps
begin

lemma async_built_events:
  assumes "build_eviction_map D n mode opts = Inr m" "1 + length es < 2 ^ 64"
  shows "\<exists>rs m'. run_events (async_maintain D) (run_call (async_insert D) (async_get D) (async_remove D)) es m = Some (rs, m') \<and>
    bounded_map D opts (1 + length (calls_of es)) m'"
proof -
  have "validate_options opts = Inr ()" using assms(1) by (auto simp: build_eviction_cases split: sum.splits)
  from validate_options_ok[OF this] have "valid_limits opts" by (simp add: valid_limits_def)
  then show ?thesis using async_bounded.events_ok[of opts 1 m es] built_bounded[OF assms(1)] assms(2) by blast
qed

end

section \<open>Properties\<close>

text \<open>
  C33: a maintenance pass of the asynchronous map, which plans its victims before it removes them, restores the limits
  just as the synchronous one does: on a well-formed map with a valid configuration whose metadata is in sync
  or marked for repair it returns, only removes entries, leaves the metadata in sync and every
  limit respected, and without a limit per shard no victim is ranked above an entry that stays.
\<close>

theorem async_eviction_restores_limits:
  assumes "starshard_deps D" "wf_map D m" "engine_ok D m" "card (dom (view D m)) < 2 ^ 64" "config (lifecycle m) = Some cfg"
    "max_entries cfg = None \<or> max_items_per_shard cfg = None"
  shows "\<exists>n m'. maintain_eviction D wanted pol m = Some (n, m') \<and> wf_map D m' \<and> view D m' \<subseteq>\<^sub>m view D m \<and> (\<exists>T. synced_by D m' T) \<and>
    keeps_limits D (effective_target wanted (max_entries cfg)) (max_items_per_shard cfg) m' \<and>
    (\<forall>T. max_items_per_shard cfg = None \<and> synced_by D m T \<longrightarrow>
       victims_lowest D (case pol of None \<Rightarrow> the (policy (lifecycle m)) | Some p \<Rightarrow> p) T m m')"
proof -
  obtain ev m' where r: "maintain_eviction D wanted pol m = Some (length ev, m')" and e: "evicted_by D ev m m'"
    using starshard_deps.maintain_evicts[OF assms(1,2), of wanted pol] by blast
  define p where "p = (case pol of None \<Rightarrow> the (policy (lifecycle m)) | Some p \<Rightarrow> p)"
  have p: "(if pol \<noteq> None then pol else policy (lifecycle m)) = Some p"
    using assms(5) by (cases pol) (auto simp: policy_def config_def p_def)
  note l = starshard_deps.maintain_limits[OF assms p r]
  have wf': "wf_map D m'" using evicted_byD[OF e] by simp
  have "card (dom (view D m')) \<le> card (dom (view D m))"
    using card_mono[OF starshard_deps.finite_dom_view[OF assms(1)] map_le_implies_dom_le[OF evicted_by_subset[OF e]]] assms(2)
    by (simp add: wf_map_def)
  then have "keeps_limits D (effective_target wanted (max_entries cfg)) (max_items_per_shard cfg) m'"
    using starshard_deps.pass_respects(1)[OF assms(1) conjunct1[OF l] wf'] assms(4) by simp
  then show ?thesis using r wf' evicted_by_subset[OF e] l unfolding p_def by blast
qed

theorem async_eviction_restores_limits_witness:
  "\<exists>n m'. maintain_eviction nat_deps (Some 0) (Some Fifo) used_cache = Some (n, m') \<and> keeps_limits nat_deps (Some 0) None m'"
proof -
  note b = used_cache_bounded[unfolded bounded_map_def]
  have "engine_ok nat_deps used_cache" using b by (auto simp: engine_ok_def synced_by_def)
  moreover have "config (lifecycle used_cache) = Some (opt_config small_options)" using b by (auto simp: config_def life_opts_def)
  ultimately show ?thesis
    using async_eviction_restores_limits[OF nat_deps_laws, of used_cache "opt_config small_options" "Some 0" "Some Fifo"] b
    by (auto simp: small_options_def options_new_def effective_target_def eviction_config_default_def)
qed

text \<open>
  C34: a cache operated through the asynchronous interface stays within its limits: from a newly built cache, any sequence
  of fewer than 2^64 - 1 completed insertions, reads, removals and maintenance passes, with any target and
  policy, runs without a panic and ends within the configured limits on entries, weight and shard load.
\<close>

theorem async_cache_stays_within_limits:
  assumes "starshard_deps D" "build_eviction_map D n mode opts = Inr m" "1 + length es < 2 ^ 64"
  shows "\<exists>rs m'. run_events (async_maintain D) (run_call (async_insert D) (async_get D) (async_remove D)) es m = Some (rs, m') \<and>
    wf_map D m' \<and> memory_budget (lifecycle m') = opt_memory_budget opts \<and>
    keeps_limits D (max_entries (opt_config opts)) (max_items_per_shard (opt_config opts)) m'"
  using starshard_deps.async_built_events[OF assms] by (fastforce simp: bounded_map_def memory_budget_opts)

theorem async_cache_stays_within_limits_witness:
  "\<exists>rs m'. run_events (async_maintain nat_deps) (run_call (async_insert nat_deps) (async_get nat_deps) (async_remove nat_deps))
      [Inr (Insert 1 10), Inr (Insert 2 20), Inr (Get 1), Inr (Insert 3 30), Inl (Some 1, Some Lfu)] small_cache = Some (rs, m') \<and>
    keeps_limits nat_deps (Some 2) None m'"
  using async_cache_stays_within_limits[OF nat_deps_laws small_cache_built,
      of "[Inr (Insert 1 10), Inr (Insert 2 20), Inr (Get 1), Inr (Insert 3 30), Inl (Some 1, Some Lfu)]"]
  by (auto simp: small_options_def options_new_def eviction_config_default_def)

end
