(* ===== verification/Async_Lifecycle.thy ===== *)
theory Async_Lifecycle
  imports Sync_Lifecycle Async_Contract
begin

text \<open>
  Construction of the asynchronous map: the plain constructors of \<open>core/async_impl.rs\<close>, the configured caches
  of \<open>core/async_impl/eviction_impl.rs\<close> with the supervised maintenance task, and the accessors that reach the
  engine and the counters. \<open>start\<close> bundles what the caller's context decides: the clock reading, the largest
  instant, whether a Tokio runtime is entered and whether it has a time driver. The task is claimed before it
  is spawned, and its tick is \<open>enforce_eviction_limits\<close>.

  The last part states the construction of both maps as one decision table of errors, and that every
  constructor of both gives a well-formed empty map with the shard count its documentation promises.
\<close>

section \<open>Plain constructors\<close>

definition async_build_with_count :: "nat \<Rightarrow> snapshot_mode \<Rightarrow> ('k, 'v, 'm, 'b) sharded_map" where
  "async_build_with_count slot_count mode =
     \<lparr>snapshot_mode = mode, shards = replicate slot_count None, previous_shards = None,
      shard_count = slot_count, previous_shard_count = 0, total_len = 0, write_epoch = 0,
      snapshot_cache = None, rebalance_tracker = tracker_new, lifecycle = lifecycle_new,
      profiling_enabled = False\<rparr>"

definition async_with_shards_and_snapshot_mode :: "nat \<Rightarrow> snapshot_mode \<Rightarrow> ('k, 'v, 'm, 'b) sharded_map" where
  "async_with_shards_and_snapshot_mode n mode =
     (let req = normalized_shard_count n; slot_count = capped_shard_count req MAX_SHARDS
      in async_build_with_count slot_count mode)"

definition async_with_shards_and_hasher :: "nat \<Rightarrow> ('k, 'v, 'm, 'b) sharded_map" where
  "async_with_shards_and_hasher n = async_with_shards_and_snapshot_mode n CloneMode"

definition async_with_shards_capped_and_snapshot_mode ::
  "nat \<Rightarrow> nat \<Rightarrow> snapshot_mode \<Rightarrow> ('k, 'v, 'm, 'b) sharded_map" where
  "async_with_shards_capped_and_snapshot_mode n max_shards mode =
     (let effective_max = max max_shards 1; req = normalized_shard_count n;
          slot_count = capped_shard_count req effective_max
      in async_build_with_count slot_count mode)"

definition async_with_shards_capped :: "nat \<Rightarrow> nat \<Rightarrow> ('k, 'v, 'm, 'b) sharded_map" where
  "async_with_shards_capped n max_shards = async_with_shards_capped_and_snapshot_mode n max_shards CloneMode"

definition async_try_with_shards_capped ::
  "nat \<Rightarrow> nat \<Rightarrow> shard_count_error + ('k, 'v, 'm, 'b) sharded_map" where
  "async_try_with_shards_capped n max_shards =
     (let effective_max = max max_shards 1 in
      case strict_shard_count n effective_max of
        Inl e \<Rightarrow> Inl e
      | Inr slot_count \<Rightarrow> Inr (async_build_with_count slot_count CloneMode))"

definition async_try_with_shards_and_hasher :: "nat \<Rightarrow> shard_count_error + ('k, 'v, 'm, 'b) sharded_map" where
  "async_try_with_shards_and_hasher n = async_try_with_shards_capped n MAX_SHARDS"

section \<open>Counters\<close>

definition async_initialized_shards :: "('k, 'v, 'm, 'b) sharded_map \<Rightarrow> nat" where
  "async_initialized_shards m = length (filter (\<lambda>slot. slot \<noteq> None) (shards m))"

definition async_len :: "('k, 'v, 'm, 'b) sharded_map \<Rightarrow> usize" where
  "async_len m = total_len m"

definition async_is_empty :: "('k, 'v, 'm, 'b) sharded_map \<Rightarrow> bool" where
  "async_is_empty m = (async_len m = 0)"

definition async_shard_utilization :: "('k, 'v, 'm, 'b) deps \<Rightarrow> ('k, 'v, 'm, 'b) sharded_map \<Rightarrow> real" where
  "async_shard_utilization D m = utilization_percent (async_shard_stats D m)"

section \<open>Configured caches\<close>

record async_start_env =
  astart_now :: nat
  astart_clock_max :: nat
  astart_runtime :: bool
  astart_timer :: bool

definition async_build_with_eviction ::
  "('k, 'v, 'm, 'b) deps \<Rightarrow> nat \<Rightarrow> snapshot_mode \<Rightarrow> ('k, 'v) eviction_options \<Rightarrow>
   eviction_error + ('k, 'v, 'm, 'b) sharded_map" where
  "async_build_with_eviction D n mode opts =
     (let m = async_with_shards_and_snapshot_mode n mode in
      case configure D opts (lifecycle m) of
        Inl e \<Rightarrow> Inl e
      | Inr l \<Rightarrow> Inr (m\<lparr>lifecycle := l\<rparr>))"

definition async_try_with_manual_eviction ::
  "('k, 'v, 'm, 'b) deps \<Rightarrow> nat \<Rightarrow> snapshot_mode \<Rightarrow> ('k, 'v) eviction_options \<Rightarrow>
   eviction_error + ('k, 'v, 'm, 'b) sharded_map" where
  "async_try_with_manual_eviction D n mode opts =
     (case validate_options opts of
        Inl e \<Rightarrow> Inl e
      | Inr _ \<Rightarrow>
          if background_enabled (opt_config opts) then Inl BackgroundNotAllowed
          else async_build_with_eviction D n mode opts)"

definition async_spawn_eviction_task ::
  "(nat \<Rightarrow> bool) \<Rightarrow> async_start_env \<Rightarrow> ('k, 'v, 'm, 'b) sharded_map \<Rightarrow> scheduler_registry \<Rightarrow>
   (eviction_error + nat \<times> worker_lease) \<times> scheduler_registry" where
  "async_spawn_eviction_task live en m s =
     (case config (lifecycle m) of
        None \<Rightarrow> (Inl NotConfigured, s)
      | Some cfg \<Rightarrow>
          (case start_async live (astart_now en) (astart_clock_max en) (check_interval cfg)
                  (astart_runtime en) (astart_timer en) s of
             (Inl e, s') \<Rightarrow> (Inl (Scheduler e), s')
           | (Inr h, s') \<Rightarrow> (Inr h, s')))"

definition async_try_with_eviction_options ::
  "('k, 'v, 'm, 'b) deps \<Rightarrow> async_start_env \<Rightarrow> nat \<Rightarrow> snapshot_mode \<Rightarrow> ('k, 'v) eviction_options \<Rightarrow>
   eviction_error + (('k, 'v, 'm, 'b) sharded_map \<times> scheduler_registry \<times> nat option)" where
  "async_try_with_eviction_options D en n mode opts =
     (case async_build_with_eviction D n mode opts of
        Inl e \<Rightarrow> Inl e
      | Inr m \<Rightarrow>
          if (case config (lifecycle m) of None \<Rightarrow> False | Some cfg \<Rightarrow> background_enabled cfg)
          then (case async_spawn_eviction_task (\<lambda>_. False) en m registry_new of
                  (Inl e, _) \<Rightarrow> Inl e
                | (Inr (c, _), s) \<Rightarrow>
                    (let (automatic, s') = retain_handle c None s in Inr (m, s', automatic)))
          else Inr (m, registry_new, None))"

definition async_try_with_eviction ::
  "('k, 'v, 'm, 'b) deps \<Rightarrow> async_start_env \<Rightarrow> nat \<Rightarrow> eviction_config \<Rightarrow>
   eviction_error + (('k, 'v, 'm, 'b) sharded_map \<times> scheduler_registry \<times> nat option)" where
  "async_try_with_eviction D en n cfg = async_try_with_eviction_options D en n CloneMode (options_new cfg)"

definition async_with_eviction ::
  "('k, 'v, 'm, 'b) deps \<Rightarrow> async_start_env \<Rightarrow> nat \<Rightarrow> eviction_config \<Rightarrow>
   (('k, 'v, 'm, 'b) sharded_map \<times> scheduler_registry \<times> nat option) option" where
  "async_with_eviction D en n cfg = (case async_try_with_eviction D en n cfg of Inl _ \<Rightarrow> None | Inr r \<Rightarrow> Some r)"

definition async_eviction_worker_status :: "(nat \<Rightarrow> bool) \<Rightarrow> scheduler_registry \<Rightarrow> eviction_worker_status" where
  "async_eviction_worker_status live s = registry_status live s"

definition async_set_evict_callback ::
  "('k \<Rightarrow> 'v \<Rightarrow> bool) \<Rightarrow> ('k, 'v, 'm, 'b) sharded_map \<Rightarrow> ('k, 'v, 'm, 'b) sharded_map" where
  "async_set_evict_callback cb m = m\<lparr>lifecycle := set_callback cb (lifecycle m)\<rparr>"

definition async_clear_evict_callback :: "('k, 'v, 'm, 'b) sharded_map \<Rightarrow> ('k, 'v, 'm, 'b) sharded_map" where
  "async_clear_evict_callback m = m\<lparr>lifecycle := clear_callback (lifecycle m)\<rparr>"

definition async_metrics_snapshot :: "('k, 'v, 'm, 'b) sharded_map \<Rightarrow> metrics_stats" where
  "async_metrics_snapshot m = metrics_snapshot (lifecycle m)"

definition async_reset_metrics :: "('k, 'v, 'm, 'b) sharded_map \<Rightarrow> ('k, 'v, 'm, 'b) sharded_map" where
  "async_reset_metrics m = m\<lparr>lifecycle := reset_metrics (lifecycle m)\<rparr>"

definition async_eviction_runtime_stats :: "('k, 'v, 'm, 'b) sharded_map \<Rightarrow> eviction_runtime_stats" where
  "async_eviction_runtime_stats m = runtime_stats (lifecycle m)"

section \<open>Both maps are constructed alike\<close>

lemma async_build_eq: "async_build_with_count n mode = build_with_count n mode"
  by (simp add: async_build_with_count_def build_with_count_def)

lemma async_mode_eq: "async_with_shards_and_snapshot_mode n mode = with_shards_and_snapshot_mode n mode"
  by (simp add: async_with_shards_and_snapshot_mode_def with_shards_and_snapshot_mode_def async_build_eq)

lemma async_build_eviction_eq: "async_build_with_eviction D n mode opts = build_eviction_map D n mode opts"
  by (simp add: async_build_with_eviction_def build_eviction_map_def async_mode_eq configure_def Let_def split: sum.split)

text \<open>What construction must answer, as one decision table over whatever can stop the worker from starting.\<close>

definition start_error :: "('k, 'v) eviction_options \<Rightarrow> bool \<Rightarrow> eviction_scheduler_error option \<Rightarrow> eviction_error option" where
  "start_error opts representable worker =
     (case validate_options opts of
        Inl e \<Rightarrow> Some e
      | Inr _ \<Rightarrow>
          if \<not> background_enabled (opt_config opts) then None
          else if check_interval (opt_config opts) = 0 \<or> \<not> representable then Some (Scheduler InvalidInterval)
          else map_option Scheduler worker)"

definition thread_error :: "start_env \<Rightarrow> eviction_scheduler_error option" where
  "thread_error en = (if start_spawned en then None else Some eviction_scheduler_error.Spawn)"

definition task_error :: "async_start_env \<Rightarrow> eviction_scheduler_error option" where
  "task_error en =
     (if \<not> astart_runtime en then Some eviction_scheduler_error.RuntimeUnavailable
      else if \<not> astart_timer en then Some TimeDriverUnavailable else None)"

abbreviation thread_answer :: "start_env \<Rightarrow> ('k, 'v) eviction_options \<Rightarrow> eviction_error option" where
  "thread_answer en opts \<equiv> start_error opts (start_now en + check_interval (opt_config opts) \<le> start_clock_max en) (thread_error en)"

abbreviation task_answer :: "async_start_env \<Rightarrow> ('k, 'v) eviction_options \<Rightarrow> eviction_error option" where
  "task_answer en opts \<equiv> start_error opts (astart_now en + check_interval (opt_config opts) \<le> astart_clock_max en) (task_error en)"

definition answers :: "eviction_error option \<Rightarrow> ('c \<Rightarrow> bool) \<Rightarrow> eviction_error + 'c \<Rightarrow> bool" where
  "answers err ok r \<longleftrightarrow> (case r of Inl e \<Rightarrow> err = Some e | Inr c \<Rightarrow> err = None \<and> ok c)"

lemma thread_answer_eq: "construction_error en opts = thread_answer en opts"
  by (cases "validate_options opts") (simp_all add: construction_error_def start_error_def thread_error_def not_le Let_def)

lemma sync_answers: "answers (thread_answer en opts) (constructed D n opts) (try_with_eviction_options D en n mode opts)"
  using try_with_eviction_cases[where D = D and en = en and n = n and mode = mode and opts = opts]
  unfolding answers_def thread_answer_eq .

lemma start_async_fresh:
  "start_async (\<lambda>_. False) nw mx iv runtime timer registry_new =
     (if iv = 0 \<or> nw + iv > mx then (Inl InvalidInterval, registry_new)
      else if \<not> runtime then (Inl eviction_scheduler_error.RuntimeUnavailable, registry_new)
      else if \<not> timer then (Inl TimeDriverUnavailable, registry_new)
      else (Inr (0, \<lparr>lease_control = 0, lease_active = True, unexpected_stop = RuntimeStopped\<rparr>),
        registry_new\<lparr>reg_generation := 1, reg_active := Some 0, controls := [control_new 1]\<rparr>))"
  by (simp add: start_async_def validate_interval_def claim_def upgrade_def registry_new_def Let_def)

lemma async_answers:
  fixes D :: "('k, 'v, 'm, 'b) deps"
  shows "answers (task_answer en opts) (constructed D n opts) (async_try_with_eviction_options D en n mode opts)"
proof (cases "validate_options opts")
  case (Inl e)
  then show ?thesis
    by (simp add: answers_def async_try_with_eviction_options_def async_build_eviction_eq build_eviction_cases start_error_def)
next
  case (Inr u)
  obtain m where b: "build_eviction_map D n mode opts = Inr m"
    using Inr by (simp add: build_eviction_cases)
  then have m: "wf_map D m" "view D m = Map.empty" "config (lifecycle m) = Some (opt_config opts)"
    "shard_count m = min (normalized_shard_count n) MAX_SHARDS"
    using Inr by (auto simp: build_eviction_cases wf_map_build config_def MAX_SHARDS_def)
  show ?thesis
    by (simp add: answers_def async_try_with_eviction_options_def async_build_eviction_eq b async_spawn_eviction_task_def m(3)
        start_async_fresh start_error_def task_error_def Inr Let_def retain_handle_def constructed_def m
        eviction_worker_status_def registry_status_def upgrade_def not_le)
qed

lemma panicking_constructor:
  assumes "answers err ok r" "out = (case r of Inl _ \<Rightarrow> None | Inr c \<Rightarrow> Some c)"
  shows "(out = None \<longleftrightarrow> err \<noteq> None) \<and> (\<forall>c. out = Some c \<longrightarrow> ok c)"
  using assms by (auto simp: answers_def split: sum.splits)

definition fresh :: "('k, 'v, 'm, 'b) deps \<Rightarrow> nat \<Rightarrow> snapshot_mode \<Rightarrow> ('k, 'v, 'm, 'b) sharded_map \<Rightarrow> bool" where
  "fresh D n mode m \<longleftrightarrow> wf_map D m \<and> view D m = Map.empty \<and> total_len m = 0 \<and> shard_count m = n \<and>
     snapshot_mode m = mode \<and> configured (lifecycle m) = None \<and> async_initialized_shards m = 0"

lemma fresh_build: "0 < n \<Longrightarrow> fresh D n mode (build_with_count n mode)"
  by (simp add: fresh_def wf_map_build lifecycle_new_def async_initialized_shards_def)

definition configured_cache :: "('k, 'v, 'm, 'b) deps \<Rightarrow> nat \<Rightarrow> ('k, 'v) eviction_options \<Rightarrow> ('k, 'v, 'm, 'b) sharded_map \<Rightarrow> bool" where
  "configured_cache D n opts m \<longleftrightarrow> wf_map D m \<and> view D m = Map.empty \<and> config (lifecycle m) = Some (opt_config opts) \<and>
     shard_count m = min (normalized_shard_count n) MAX_SHARDS"

lemma build_answers:
  "answers (case validate_options opts of Inl e \<Rightarrow> Some e | Inr _ \<Rightarrow> None) (configured_cache D n opts) (build_eviction_map D n mode opts)"
  by (auto simp: answers_def configured_cache_def build_eviction_cases wf_map_build config_def MAX_SHARDS_def split: sum.splits)


text \<open>The synchronous constructor looks at the worker request first, the asynchronous one at the options.\<close>

definition manual_error :: "bool \<Rightarrow> ('k, 'v) eviction_options \<Rightarrow> eviction_error option" where
  "manual_error request_first opts =
     (case validate_options opts of
        Inl e \<Rightarrow> Some (if request_first \<and> background_enabled (opt_config opts) then BackgroundNotAllowed else e)
      | Inr _ \<Rightarrow> if background_enabled (opt_config opts) then Some BackgroundNotAllowed else None)"

lemma manual_answers:
  "answers (manual_error True opts) (configured_cache D n opts) (try_with_manual_eviction D n mode opts)"
  "answers (manual_error False opts) (configured_cache D n opts) (async_try_with_manual_eviction D n mode opts)"
  using build_answers[of opts D n mode]
  by (auto simp: answers_def manual_error_def try_with_manual_eviction_def async_try_with_manual_eviction_def async_build_eviction_eq
      split: sum.splits)

text \<open>
  The plain constructors: 64 shards for a request of none; the clamping constructors cut a larger request down, the strict ones reject it
  with the request and the cap, which is at least 1.
\<close>

definition wanted_shards :: "nat \<Rightarrow> nat" where
  "wanted_shards n = (if n = 0 then 64 else n)"

definition strictly_built ::
  "('k, 'v, 'm, 'b) deps \<Rightarrow> nat \<Rightarrow> nat \<Rightarrow> shard_count_error + ('k, 'v, 'm, 'b) sharded_map \<Rightarrow> bool" where
  "strictly_built D n limit r \<longleftrightarrow>
     (if max limit 1 < wanted_shards n
      then r = Inl \<lparr>requested = wanted_shards n, max_allowed = max limit 1\<rparr>
      else \<exists>m. r = Inr m \<and> fresh D (wanted_shards n) CloneMode m)"

lemma normalized_wanted: "normalized_shard_count n = wanted_shards n"
  by (simp add: normalized_shard_count_def wanted_shards_def DEFAULT_SHARDS_def)

lemma wanted_pos [simp]: "0 < wanted_shards n"
  by (simp add: wanted_shards_def)

lemma wanted_idem [simp]: "wanted_shards (wanted_shards n) = wanted_shards n"
  by (simp add: wanted_shards_def)

lemma plain_fresh:
  "fresh D (min (wanted_shards n) MAX_SHARDS) mode (with_shards_and_snapshot_mode n mode)"
  "fresh D (min (wanted_shards n) (max limit 1)) mode (with_shards_capped_and_snapshot_mode n limit mode)"
  by (simp_all add: with_shards_and_snapshot_mode_def with_shards_capped_and_snapshot_mode_def capped_shard_count_def
      normalized_wanted MAX_SHARDS_def Let_def fresh_build)

lemma strict_built: "strictly_built D n limit (try_with_shards_capped n limit)"
  by (simp add: strictly_built_def try_with_shards_capped_def strict_shard_count_def normalized_wanted Let_def fresh_build)

lemma async_plain_eq:
  "async_with_shards_capped_and_snapshot_mode n limit mode = with_shards_capped_and_snapshot_mode n limit mode"
  "async_try_with_shards_capped n limit = try_with_shards_capped n limit"
  by (simp_all add: async_with_shards_capped_and_snapshot_mode_def with_shards_capped_and_snapshot_mode_def
      async_try_with_shards_capped_def try_with_shards_capped_def async_build_eq split: sum.split)

section \<open>Property\<close>

text \<open>
  C29: construction. A cache with a worker, synchronous or asynchronous, is constructed exactly when its options are
  valid and, if it asks for a worker, the interval is representable and the thread, or the Tokio runtime with
  a time driver, is available; every other case is the documented error and the panicking constructors panic
  on exactly those. The new cache is well formed, empty, configured, has the capped number of shards, and a
  worker is running exactly if it was asked for. The manual constructors refuse a worker request; when the
  options are invalid as well, the synchronous one reports the request and the asynchronous one the options.
  The plain constructors of both maps give an empty map without a policy, with 64 shards if none are requested: the clamping ones cut
  the request down to the cap, the strict ones reject a larger request with an error that names the request and the cap.
\<close>

theorem cache_construction:
  fixes D :: "('k, 'v, 'm, 'b) deps" and opts :: "('k, 'v) eviction_options"
  shows "answers (thread_answer en opts) (constructed D n opts) (try_with_eviction_options D en n mode opts) \<and>
    answers (task_answer aen opts) (constructed D n opts) (async_try_with_eviction_options D aen n mode opts) \<and>
    (with_eviction D en n cfg = None \<longleftrightarrow> thread_answer en (options_new cfg :: ('k, 'v) eviction_options) \<noteq> None) \<and>
    (async_with_eviction D aen n cfg = None \<longleftrightarrow> task_answer aen (options_new cfg :: ('k, 'v) eviction_options) \<noteq> None) \<and>
    Option.these {with_eviction D en n cfg, async_with_eviction D aen n cfg} \<subseteq> Collect (constructed D n (options_new cfg)) \<and>
    answers (manual_error True opts) (configured_cache D n opts) (try_with_manual_eviction D n mode opts) \<and>
    answers (manual_error False opts) (configured_cache D n opts) (async_try_with_manual_eviction D n mode opts) \<and>
    fresh D (min (wanted_shards n) MAX_SHARDS) mode (with_shards_and_snapshot_mode n mode) \<and>
    fresh D (min (wanted_shards n) MAX_SHARDS) mode (async_with_shards_and_snapshot_mode n mode) \<and>
    fresh D (min (wanted_shards n) (max limit 1)) mode (with_shards_capped_and_snapshot_mode n limit mode) \<and>
    fresh D (min (wanted_shards n) (max limit 1)) mode (async_with_shards_capped_and_snapshot_mode n limit mode) \<and>
    strictly_built D n limit (try_with_shards_capped n limit) \<and>
    strictly_built D n limit (async_try_with_shards_capped n limit)"
proof -
  let ?dflt = "options_new cfg :: ('k, 'v) eviction_options"
  have t: "(with_eviction D en n cfg = None \<longleftrightarrow> thread_answer en ?dflt \<noteq> None) \<and>
      (\<forall>c. with_eviction D en n cfg = Some c \<longrightarrow> constructed D n ?dflt c)"
    by (rule panicking_constructor[OF sync_answers]) (simp add: with_eviction_def try_with_eviction_def)
  have a: "(async_with_eviction D aen n cfg = None \<longleftrightarrow> task_answer aen ?dflt \<noteq> None) \<and>
      (\<forall>c. async_with_eviction D aen n cfg = Some c \<longrightarrow> constructed D n ?dflt c)"
    by (rule panicking_constructor[OF async_answers]) (simp add: async_with_eviction_def async_try_with_eviction_def)
  have s: "Option.these {with_eviction D en n cfg, async_with_eviction D aen n cfg} \<subseteq> Collect (constructed D n ?dflt)"
    using t a by (auto simp: Option.these_def)
  show ?thesis
    unfolding async_mode_eq async_plain_eq
    by (intro conjI sync_answers async_answers conjunct1[OF t] conjunct1[OF a] s manual_answers plain_fresh strict_built)
qed

end
