(* ===== verification/Async_Concurrent.thy ===== *)
theory Async_Concurrent
  imports Sync_Concurrent Async_Contract
begin

text \<open>
  The asynchronous map under tasks: its \<open>thread_code\<close> (\<open>core/async_impl.rs\<close>, \<open>core/async_impl/rebalance_impl.rs\<close>). A task runs
  from one await to the next; a future may be dropped wherever it is suspended. The lock sequences are those of the synchronous
  map but for three things: an operation that writes takes a life-cycle ticket before it awaits routing, \<open>remove\<close> always
  initialises the active slot of its key, and resharding awaits the rebalance mutex before routing.
\<close>

section \<open>The code of a task\<close>

text \<open>The operations that begin by taking a ticket.\<close>

fun ticketed :: "('e, 'k, 'v) operation \<Rightarrow> bool" where
  "ticketed (Keyed c) = (request_mode c = Write_Lock)"
| "ticketed Scan = False"
| "ticketed (Alone (Reshard b)) = False"
| "ticketed _ = True"

fun async_start :: "(async_background, 'k, 'v) operation \<Rightarrow> (async_background, 'k, 'v, 'm) pc option" where
  "async_start (Alone (Reshard AsyncResume)) = Some (Resuming AsyncResume)"
| "async_start (Alone (Reshard AsyncPause)) = Some (LockRouting False (Reshard AsyncPause))"
| "async_start (Alone (Reshard (AsyncRebalanceTo clks n opts))) =
     (if opt_background opts then None else Some (Gate (Reshard (AsyncRebalanceTo clks n opts))))"
| "async_start (Alone (Reshard (AsyncSpawnWorker runtime n))) =
     (if runtime then Some (Gate (Reshard (AsyncSpawnWorker runtime n))) else None)"
| "async_start (Alone (Reshard b)) = Some (Gate (Reshard b))"
| "async_start p = Some (if ticketed p then Ticket p else Enter p)"

text \<open>The directory is read by \<open>read_key\<close> for a \<open>get\<close>, by \<open>get_or_init_shard\<close> for a write.\<close>

definition async_locate :: "('k, 'v, 'm, 'b) deps \<Rightarrow> ('k, 'v) request \<Rightarrow> ('k, 'v, 'm, 'b) sharded_map \<Rightarrow> (async_background, 'k, 'v, 'm, 'b) pc_step" where
  "async_locate D c m = do {
     i \<leftarrow> shard_index D m (request_key c);
     slot \<leftarrow> index_checked (shards m) i;
     Some (case slot of
             Some _ \<Rightarrow> LockActive c i
           | None \<Rightarrow> (case c of Call (Get k) \<Rightarrow> Missing k | _ \<Rightarrow> Init c i), m)
   }"

text \<open>The operations of a transaction, under all its locks; an early return drops the ticket.\<close>

definition async_txn ::
  "('k, 'v, 'm, 'b) deps \<Rightarrow> ('k, 'v) txn_op list \<Rightarrow> nat list \<Rightarrow> ('k, 'v, 'm, 'b) sharded_map \<Rightarrow>
   (unit transaction_result \<times> ('k, 'v, 'm, 'b) sharded_map) option" where
  "async_txn D xs active m = do {
     r \<leftarrow> async_txn_ops D active xs m;
     Some (case r of
             Inl m' \<Rightarrow> (Aborted, m'\<lparr>lifecycle := ticket_drop False (lifecycle m')\<rparr>)
           | Inr m' \<Rightarrow> (Committed (), m'))
   }"

fun async_alone ::
  "('k, 'v, 'm, 'b) deps \<Rightarrow> (async_background, 'k, 'v) alone \<Rightarrow> ('k, 'v, 'm, 'b) sharded_map \<Rightarrow>
   (('k, 'v) reply \<times> ('k, 'v, 'm, 'b) sharded_map) option" where
  "async_alone D (Reshard b) m = map_option (Pair Done) (async_background_op D b m)"
| "async_alone D (Retain p) m =
     Some (Done, snd (for_all_shards (async_retain_shard D p) [] (m\<lparr>lifecycle := mutation (lifecycle m)\<rparr>)))"
| "async_alone D Clear m =
     (let removed = drained_items D (shards m) @ drained_items D (prev_slots m) in Some (Done, drain_commit D removed m))"
| "async_alone D Drain m =
     (let removed = drained_items D (prev_slots m) @ drained_items D (shards m) in Some (Listed removed, drain_commit D removed m))"

text \<open>
  Where a future can be suspended, and so dropped: where it awaits a lock, and, with the exclusive routing lock, at the
  directory and shard locks that precede its work. From the last await of \<open>lock_key\<close> or of a transaction to the end of the inner
  operation nothing suspends. A batch that is dropped later is an \<open>AsyncAbandon\<close>. A \<open>retain\<close> also awaits every shard, and what it has
  removed by then is gone: it is dropped at the directories for \<open>n = 0\<close>, and after its first \<open>n - 1\<close> shards otherwise. The ticket
  of a write is dropped unfinished.
\<close>

fun suspended :: "(async_background, 'k, 'v, 'm) pc \<Rightarrow> bool" where
  "suspended (Exclusive gated b) = (case b of Reshard e \<Rightarrow> gated | _ \<Rightarrow> True)"
| "suspended p = (wants p \<noteq> None)"

definition async_drop ::
  "('k, 'v, 'm, 'b) deps \<Rightarrow> (async_background, 'k, 'v, 'm) pc \<Rightarrow> nat \<Rightarrow> ('k, 'v, 'm, 'b) sharded_map \<Rightarrow>
   (('k \<times> 'v) list \<times> ('k, 'v, 'm, 'b) sharded_map) option" where
  "async_drop D p n m =
     (if suspended p
      then Some (case (p, n) of
                   (Exclusive gated (Retain predicate), Suc shards_done) \<Rightarrow> retain_cut D predicate shards_done m
                 | _ \<Rightarrow> ([], case op_of p of Some q \<Rightarrow> (if ticketed q then dropped m else m) | None \<Rightarrow> m))
      else None)"

definition async_code :: "('k, 'v, 'm, 'b) deps \<Rightarrow> (async_background, 'k, 'v, 'm, 'b) thread_code" where
  "async_code D =
     \<lparr>tc_start = async_start, tc_ticket = begin_op, tc_locate = async_locate D, tc_previous = (\<lambda>m k. Some (async_previous_shard D m k)),
      tc_txn = async_txn D, tc_alone = async_alone D, tc_resume = (\<lambda>m. snd (async_resume_rebalance m)), tc_drop = async_drop D\<rparr>"

section \<open>Its laws\<close>

lemma async_start_outside:
  assumes "async_start p = Some (q :: (async_background, 'k, 'v, 'm) pc)"
  shows "holds q = [] \<and> op_of q = Some p \<and> pc_phase q = Called p \<and> (\<forall>m. pc_ok D m q)"
  using assms by (cases p rule: async_start.cases) (auto simp: gate_use_def split: if_splits)

lemma dropped_plain: "plain_map D m \<Longrightarrow> dropped m = m"
  by (simp add: dropped_def plain_map_def ticket_drop_def enabled_def opts_None)

context starshard_deps
begin

lemma async_locate_ok:
  assumes m: "plain_map D m"
  shows "\<exists>r. async_locate D c m = Some r \<and> step_ok D (Locate c) m r \<and> stage (fst r) < stage (Locate c :: (async_background, 'k, 'v, 'm) pc)"
proof -
  let ?i = "route D (length (shards m)) (request_key c)"
  have i: "?i < length (shards m)" using route_less[OF wf_dirsD(1)[OF plain_dirs[OF m]]] .
  let ?p = "(case shards m ! ?i of Some _ \<Rightarrow> LockActive c ?i | None \<Rightarrow> (case c of Call (Get k) \<Rightarrow> Missing k | _ \<Rightarrow> Init c ?i)) :: (async_background, 'k, 'v, 'm) pc"
  have eq: "async_locate D c m = Some (?p, m)" using i by (simp add: async_locate_def shard_index_wf[OF plain_dirs[OF m]])
  have "step_ok D (Locate c) m (?p, m)"
    by (intro quiet_step[OF m]) (auto simp: at_active_def effect_def split: option.splits request.splits call.splits)
  moreover have "stage ?p < stage (Locate c :: (async_background, 'k, 'v, 'm) pc)" by (auto split: option.splits request.splits call.splits)
  ultimately show ?thesis using eq by (metis fst_conv)
qed

lemma async_alone_ok:
  assumes m: "plain_map D m"
  shows "\<exists>out m'. async_alone D b m = Some (out, m') \<and> plain_map D m' \<and>
    fits (Alone b :: (async_background, 'k, 'v) operation) out (view D m) \<and> view D m' = after (Alone b :: (async_background, 'k, 'v) operation) (view D m)"
proof -
  have wf: "wf_map D m" using m by (simp add: plain_map_def)
  have empty: "plain_map D (drain_commit D xs m) \<and> view D (drain_commit D xs m) = Map.empty" for xs
    using op_post_plain[OF drain_commit_spec(1)[OF wf] m] .
  show ?thesis
  proof (cases b)
    case (Reshard e)
    then show ?thesis using async_background_unseen[OF wf, of e] plain_same_content[OF m] by auto
  next
    case (Retain p)
    obtain out m1 where "for_all_shards (async_retain_shard D p) [] (m\<lparr>lifecycle := mutation (lifecycle m)\<rparr>) = (out, m1)"
      "op_post D m (view D m1) m1" "view D m1 = kept p (view D m)" using async_retain_all_spec[OF wf, of p] by (auto simp: kept_def)
    then show ?thesis using op_post_plain[OF _ m] Retain by auto
  next
    case Clear
    then show ?thesis using empty by simp
  next
    case Drain
    let ?items = "drained_items D (prev_slots m) @ drained_items D (shards m)"
    have "mset (stored_entries D m) = mset ?items" by (simp add: drained_items_eq stored_entries_eq)
    then have "lists_map ?items (view D m)" using lists_map_mset entries_exact[OF wf] by blast
    then show ?thesis using empty Drain by (simp add: Let_def)
  qed
qed

lemma async_drop_ok:
  assumes m: "plain_map D m" and d: "async_drop D p n m = Some (lost, m')"
  shows "plain_map D m' \<and> p \<noteq> Idle \<and> (\<forall>q out. p \<noteq> Leave q out) \<and> ends (the (op_of p)) (Cancelled lost) (view D m) \<and>
    view D m' = leaves (the (op_of p), Cancelled lost) (view D m) \<and> ((Routing, Write_Lock) \<in> set (holds p) \<or> same_slots D m m')"
proof (cases "\<exists>gated q j. p = Exclusive gated (Retain q) \<and> n = Suc j")
  case True
  then obtain gated q j where p: "p = Exclusive gated (Retain q)" "n = Suc j" by blast
  have "wf_map D m" using m by (simp add: plain_map_def)
  then obtain out m1 where c: "retain_cut D q j m = (out, m1)" "shrunk D out m m1" "\<forall>(k, v) \<in> set out. \<not> q k v"
    using retain_cut_shrunk by blast
  have "out = lost" "m1 = m'" using d p c(1) by (simp_all add: async_drop_def)
  then show ?thesis using c(2,3) p m by (auto simp: shrunk_def plain_map_def)
next
  case False
  have s: "suspended p" using d by (simp add: async_drop_def split: if_splits)
  have "lost = []" "m' = m"
    using d s False dropped_plain[OF m] by (auto simp: async_drop_def split: pc.splits alone.splits nat.splits option.splits if_splits)
  moreover have "p \<noteq> Idle" "\<forall>q out. p \<noteq> Leave q out" using s by auto
  ultimately show ?thesis using m by (simp add: same_slots_def restrict_map_def)
qed

lemma async_txn_ok:
  assumes m: "plain_map D m" and r: "txn_ready D m xs"
  shows "async_txn D xs (txn_active D m xs) m = map_option (Pair (Committed ())) (fold_option (txn_step D) xs m)"
proof -
  have "async_txn_ops D (txn_active D m xs) xs m = map_option Inr (fold_option (txn_step D) xs m)"
    using m r by (intro async_txn_ops_eq) (auto simp: plain_map_def txn_ready_def txn_active_set)
  then show ?thesis by (cases "fold_option (txn_step D) xs m") (simp_all add: async_txn_def)
qed

end

sublocale starshard_deps \<subseteq> async_tasks: linear_code D "async_code D"
proof
  fix m assume m: "plain_map D m"
  show "\<exists>m'. tc_txn (async_code D) xs (txn_active D m xs) m = Some (Committed (), m') \<and> plain_map D m' \<and>
      view D m' = fold txn_apply xs (view D m) \<and> framed D (set (txn_locks D m xs)) m m'" if "txn_ready D m xs" for xs
    using txn_fold_framed[OF m order_refl that] async_txn_ok[OF m that] by (auto simp: async_code_def)
  show "\<exists>out m'. tc_alone (async_code D) b m = Some (out, m') \<and> plain_map D m' \<and>
      fits (Alone b :: (async_background, 'k, 'v) operation) out (view D m) \<and> view D m' = after (Alone b :: (async_background, 'k, 'v) operation) (view D m)" for b
    using async_alone_ok[OF m, of b] by (simp add: async_code_def)
  show "\<exists>r. tc_locate (async_code D) c m = Some r \<and> step_ok D (Locate c) m r \<and> stage (fst r) < stage (Locate c :: (async_background, 'k, 'v, 'm) pc)" for c
    using async_locate_ok[OF m, of c] by (simp add: async_code_def)
  show "plain_map D (tc_resume (async_code D) m) \<and> same_slots D m (tc_resume (async_code D) m)"
    using resume_same_slots[OF m] by (simp add: async_code_def async_control_eqs)
  show "plain_map D (tc_ticket (async_code D) m) \<and> same_slots D m (tc_ticket (async_code D) m)"
    using m by (simp add: async_code_def same_slots_def plain_map_def)
  show "tc_previous (async_code D) m k = previous_shard D m k" for k
    using async_previous_shard_wf[OF plain_dirs[OF m]] by (simp add: async_code_def)
  show "plain_map D m' \<and> p \<noteq> Idle \<and> (\<forall>q out. p \<noteq> Leave q out) \<and> ends (the (op_of p)) (Cancelled lost) (view D m) \<and>
      view D m' = leaves (the (op_of p), Cancelled lost) (view D m) \<and> ((Routing, Write_Lock) \<in> set (holds p) \<or> same_slots D m m')"
    if "tc_drop (async_code D) p n m = Some (lost, m')" for p n lost m'
    using async_drop_ok[OF m, of p n lost m'] that by (simp add: async_code_def)
qed (use starshard_deps_axioms async_start_outside in \<open>simp_all add: async_code_def\<close>)

section \<open>Linearizability\<close>

context starshard_deps
begin

lemmas async_tasks_exact = async_tasks.threads_exact

end

text \<open>
  C3: Tasks interleave at every await of the asynchronous \<open>insert\<close>, \<open>get\<close>, \<open>remove\<close>, \<open>compare_and_swap\<close>, \<open>compare_and_remove\<close>,
  \<open>get_or_insert_with\<close>, \<open>compute_if_present\<close>, \<open>execute_transaction\<close> and \<open>snapshot_view\<close>, others run \<open>retain\<close>, \<open>clear\<close> or \<open>drain\<close> or reshard the
  map, and any future may be dropped wherever it is suspended, a running \<open>retain\<close> between any two shards. The map has no eviction
  policy. No schedule panics. In every schedule each operation either takes effect exactly once, between its call and its return and
  with the answer it returns, or is dropped; a dropped \<open>retain\<close> has removed some of the entries its predicate rejects and nothing
  else, any other dropped operation has no effect. Taken in that order the answers are those of a finite map, whose content is the content of
  the map. Unless new operations start, all operations in progress return, whatever task is run next, even if the locks prefer writers: a
  dropped future leaves no lock behind.
\<close>

theorem tasks_linearizable:
  assumes "starshard_deps D" "plain_map D m"
  shows "\<exists>s. thread_run D (async_code D) es (threads_on n m) = Some s \<and>
    (\<forall>t < n. life_of t (th_trace s) = Some (pc_phase (th_pcs s ! t))) \<and>
    explained (effects (th_trace s)) (view D m) \<and>
    view D (th_map s) = fold leaves (effects (th_trace s)) (view D m) \<and>
    settles D (async_code D) s"
  by (rule starshard_deps.async_tasks_exact[OF assms])

theorem tasks_linearizable_witness:
  "\<exists>s. thread_run nat_deps (async_code nat_deps)
      [Start 0 (Keyed (Call (Insert 1 (7 :: nat)))), Go 0, Go 0, Go 0, Go 0, Go 0, Go 0, Go 0, Go 0, Start 0 (Keyed (Call (Insert 2 9))), Go 0, Go 0,
       Start 1 (Keyed (RemoveIf 1 7)), Go 0, Cut 0 0, Go 1, Start 2 Scan, Go 2, Cut 2 0, Start 0 (Alone (Reshard (AsyncStartOnline 3))), Go 0,
       Start 2 (Alone (Retain (\<lambda>k v. v < k))), Go 2, Go 2, Cut 2 3]
      (threads_on 3 (fresh_map Cow)) = Some s \<and>
    (\<forall>t < 3. life_of t (th_trace s) = Some (pc_phase (th_pcs s ! t))) \<and>
    explained (effects (th_trace s)) (view nat_deps (fresh_map Cow)) \<and>
    view nat_deps (th_map s) = fold leaves (effects (th_trace s)) (view nat_deps (fresh_map Cow)) \<and>
    settles nat_deps (async_code nat_deps) s"
  by (rule tasks_linearizable[OF nat_deps_laws]) (simp add: plain_map_def)

end
