(* ===== verification/Replication.thy ===== *)
theory Replication
  imports Async_Contract
begin

text \<open>
  Primary-first replication, \<open>core/replication.rs\<close>: the validation of the topology, the coordinator that
  collects replica results until the deadline, and the replicated mutations. A replica handle is a value
  of type \<open>'r\<close>, and \<open>Arc::ptr_eq\<close> is equality. What the remote side and the clock do is an argument: the
  \<open>n\<close>-th result of \<open>timeout_at(deadline, tasks.join_next())\<close>, and a \<open>replication_env\<close> for the rest. The
  order mutex is held from before the local write until the coordinator is done with every replica, so a
  replicated mutation is one step here; \<open>Replication_Order\<close> runs its parts concurrently.
\<close>

section \<open>Topology\<close>

definition checked_add_one :: "nat \<Rightarrow> nat option" where
  "checked_add_one n = (if n + 1 < 2 ^ 64 then Some (n + 1) else None)"

definition invalid_configuration :: "string \<Rightarrow> replica_error" where
  "invalid_configuration reason = Rejected (''invalid replication configuration: '' @ reason)"

definition validate_topology :: "'r list \<Rightarrow> quorum_config \<Rightarrow> replica_error + unit" where
  "validate_topology reps cfg =
     (if \<not> quorum_is_valid cfg
      then Inl (invalid_configuration
        ''quorums must fit a nonempty topology, writes need a majority, and timeout must be nonzero'')
      else if checked_add_one (length reps) \<noteq> Some (replica_count cfg)
      then Inl (invalid_configuration ''replica_count must equal the remote replica count plus one primary'')
      else if list_ex (\<lambda>index. reps ! index \<in> set (take index reps)) [0..<length reps]
      then Inl (invalid_configuration ''the same replica handle cannot be counted more than once'')
      else Inr ())"

record ('k, 'v, 'm, 'b, 'r) replicated_map =
  local_map :: "('k, 'v, 'm, 'b) sharded_map"
  remote_replicas :: "'r list"
  quorum_conf :: "quorum_config option"

definition try_with_replication ::
  "nat \<Rightarrow> 'r list \<Rightarrow> quorum_config \<Rightarrow> replica_error + ('k, 'v, 'm, 'b, 'r) replicated_map" where
  "try_with_replication n reps cfg =
     (case validate_topology reps cfg of
        Inl e \<Rightarrow> Inl e
      | Inr _ \<Rightarrow> Inr \<lparr>local_map = with_shards_and_hasher n, remote_replicas = reps, quorum_conf = Some cfg\<rparr>)"

definition with_replication ::
  "nat \<Rightarrow> 'r list \<Rightarrow> quorum_config \<Rightarrow> ('k, 'v, 'm, 'b, 'r) replicated_map option" where
  "with_replication n reps cfg = (case try_with_replication n reps cfg of Inl _ \<Rightarrow> None | Inr M \<Rightarrow> Some M)"

section \<open>The coordinator\<close>

text \<open>
  The outcome of one wait: the task at some position of the set has ended, with a result or by a panic
  (\<open>None\<close>), or the deadline has passed.
\<close>

datatype join_outcome = Joined nat "(replica_error + unit) option" | Elapsed

text \<open>\<open>confirmed\<close>, the replicas that have answered \<open>Ok\<close>, is not stored by the code, which only counts them.\<close>

record 'r coordinator =
  acknowledged :: nat
  pending_tasks :: "'r list"
  sender_open :: bool
  replies :: "(replica_error + unit) list"
  confirmed :: "'r list"

definition acknowledge :: "replica_error + unit \<Rightarrow> 'r coordinator \<Rightarrow> 'r coordinator" where
  "acknowledge result s =
     (if sender_open s then s\<lparr>sender_open := False, replies := replies s @ [result]\<rparr> else s)"

definition remove_nth :: "nat \<Rightarrow> 'a list \<Rightarrow> 'a list" where
  "remove_nth i xs = take i xs @ drop (Suc i) xs"

definition settle_join :: "nat \<Rightarrow> (replica_error + unit) option \<Rightarrow> 'r coordinator \<Rightarrow> 'r coordinator" where
  "settle_join i res s =
     (let j = i mod length (pending_tasks s); s1 = s\<lparr>pending_tasks := remove_nth j (pending_tasks s)\<rparr>
      in if res = Some (Inr ())
         then s1\<lparr>acknowledged := acknowledged s + 1, confirmed := confirmed s @ [pending_tasks s ! j]\<rparr>
         else s1)"

definition after_join :: "nat \<Rightarrow> 'r coordinator \<Rightarrow> 'r coordinator" where
  "after_join quorum s =
     (if acknowledged s \<ge> quorum then acknowledge (Inr ()) s
      else if acknowledged s + length (pending_tasks s) < quorum then acknowledge (Inl QuorumFailed) s
      else s)"

lemma pending_acknowledge [simp]: "pending_tasks (acknowledge r s) = pending_tasks s"
  by (simp add: acknowledge_def)

lemma pending_after_join [simp]: "pending_tasks (after_join q s) = pending_tasks s"
  by (simp add: after_join_def)

lemma pending_settle [simp]:
  "pending_tasks (settle_join i res s) = remove_nth (i mod length (pending_tasks s)) (pending_tasks s)"
  by (simp add: settle_join_def Let_def)

lemma length_remove_nth [simp]: "i < length xs \<Longrightarrow> length (remove_nth i xs) = length xs - 1"
  by (simp add: remove_nth_def)

function fanout :: "nat \<Rightarrow> (nat \<Rightarrow> join_outcome) \<Rightarrow> nat \<Rightarrow> 'r coordinator \<Rightarrow> 'r coordinator" where
  "fanout quorum joins n s =
     (if pending_tasks s = [] then s
      else
        (case joins n of
           Elapsed \<Rightarrow> (acknowledge (Inl Timeout) s)\<lparr>pending_tasks := []\<rparr>
         | Joined i res \<Rightarrow> fanout quorum joins (n + 1) (after_join quorum (settle_join i res s))))"
  by pat_completeness auto
termination
  by (relation "measure (\<lambda>(q, j, n, s). length (pending_tasks s))") auto

declare fanout.simps [simp del]

definition replicate_to_quorum :: "'r list \<Rightarrow> nat \<Rightarrow> (nat \<Rightarrow> join_outcome) \<Rightarrow> 'r coordinator" where
  "replicate_to_quorum reps quorum joins =
     (let s0 = \<lparr>acknowledged = 1, pending_tasks = reps, sender_open = True, replies = [], confirmed = []\<rparr>;
          s1 = (if acknowledged s0 \<ge> quorum then acknowledge (Inr ()) s0 else s0);
          s2 = fanout quorum joins 0 s1
      in if sender_open s2 then acknowledge (Inl QuorumFailed) s2 else s2)"

section \<open>Replicated mutations\<close>

text \<open>
  \<open>order_ok\<close>: the order mutex is obtained before the deadline; \<open>local_drop\<close>: where the local write is
  dropped if the deadline passes during it; \<open>clones_ok\<close>: copying the operation for the replicas does not
  panic. The caller borrows the map while it waits, so the coordinator is not aborted by the map's drop.
\<close>

record replication_env =
  instant_max :: nat
  order_ok :: bool
  local_drop :: "drop_point option"
  clones_ok :: bool
  task_joins :: "nat \<Rightarrow> join_outcome"

text \<open>\<open>dispatch_replication\<close>: the answer and the remote calls that were started.\<close>

definition dispatch_replication ::
  "replication_env \<Rightarrow> ('k, 'v) replication_op \<Rightarrow> quorum_config \<Rightarrow> 'r list \<Rightarrow>
   (replica_error + unit) \<times> ('r \<times> ('k, 'v) replication_op) list" where
  "dispatch_replication env rop cfg reps =
     (if \<not> clones_ok env then (Inl QuorumFailed, [])
      else
        ((case replies (replicate_to_quorum reps (write_quorum cfg) (task_joins env)) of
            [] \<Rightarrow> Inl QuorumFailed | r # _ \<Rightarrow> r),
         map (\<lambda>r. (r, rop)) reps))"

definition local_deadline :: "('k, 'v, 'm, 'b) deps \<Rightarrow> replication_env \<Rightarrow> quorum_config \<Rightarrow> nat option" where
  "local_deadline D env cfg =
     (if now D + timeout cfg \<le> instant_max env then Some (now D + timeout cfg) else None)"

definition insert_replicated ::
  "('k, 'v, 'm, 'b) deps \<Rightarrow> replication_env \<Rightarrow> 'k \<Rightarrow> 'v \<Rightarrow> ('k, 'v, 'm, 'b, 'r) replicated_map \<Rightarrow>
   ((replica_error + 'v option) \<times> ('r \<times> ('k, 'v) replication_op) list \<times> ('k, 'v, 'm, 'b, 'r) replicated_map) option" where
  "insert_replicated D env key val M =
     (if enabled (lifecycle (local_map M))
      then Some (Inl (Rejected ''replicated mutations are incompatible with configured capacity eviction''), [], M)
      else
        (case quorum_conf M of
           None \<Rightarrow> do {
             (old, m) \<leftarrow> async_insert D key val (local_map M);
             Some (Inr old, [], M\<lparr>local_map := m\<rparr>)
           }
         | Some cfg \<Rightarrow>
             if local_deadline D env cfg = None
             then Some (Inl (invalid_configuration ''timeout exceeds the supported clock range''), [], M)
             else if \<not> order_ok env then Some (Inl Timeout, [], M)
             else
               (case local_drop env of
                  Some pt \<Rightarrow> do {
                    m \<leftarrow> insert_dropped D key val pt (local_map M);
                    Some (Inl Timeout, [], M\<lparr>local_map := m\<rparr>)
                  }
                | None \<Rightarrow> do {
                    (old, m) \<leftarrow> async_insert D key val (local_map M);
                    let (r, calls) = dispatch_replication env (RepInsert key val) cfg (remote_replicas M);
                    Some (case r of Inl e \<Rightarrow> Inl e | Inr _ \<Rightarrow> Inr old, calls, M\<lparr>local_map := m\<rparr>)
                  })))"

definition remove_replicated ::
  "('k, 'v, 'm, 'b) deps \<Rightarrow> replication_env \<Rightarrow> 'k \<Rightarrow> ('k, 'v, 'm, 'b, 'r) replicated_map \<Rightarrow>
   ((replica_error + 'v option) \<times> ('r \<times> ('k, 'v) replication_op) list \<times> ('k, 'v, 'm, 'b, 'r) replicated_map) option" where
  "remove_replicated D env key M =
     (if enabled (lifecycle (local_map M))
      then Some (Inl (Rejected ''replicated mutations are incompatible with configured capacity eviction''), [], M)
      else
        (case quorum_conf M of
           None \<Rightarrow> do {
             (old, m) \<leftarrow> async_remove D key (local_map M);
             Some (Inr old, [], M\<lparr>local_map := m\<rparr>)
           }
         | Some cfg \<Rightarrow>
             if local_deadline D env cfg = None
             then Some (Inl (invalid_configuration ''timeout exceeds the supported clock range''), [], M)
             else if \<not> order_ok env then Some (Inl Timeout, [], M)
             else
               (case local_drop env of
                  Some pt \<Rightarrow> do {
                    m \<leftarrow> remove_dropped D key pt (local_map M);
                    Some (Inl Timeout, [], M\<lparr>local_map := m\<rparr>)
                  }
                | None \<Rightarrow> do {
                    (old, m) \<leftarrow> async_remove D key (local_map M);
                    let (r, calls) = dispatch_replication env (RepRemove key) cfg (remote_replicas M);
                    Some (case r of Inl e \<Rightarrow> Inl e | Inr _ \<Rightarrow> Inr old, calls, M\<lparr>local_map := m\<rparr>)
                  })))"

section \<open>The coordinator answers once, and rightly\<close>

text \<open>
  The counter is the primary plus the confirmed replicas; the ones still running and the confirmed ones
  are distinct members of the topology. A reply of success is only given at a quorum, a reply of failure
  only when the quorum is out of reach.
\<close>

definition coord_inv :: "'r list \<Rightarrow> nat \<Rightarrow> 'r coordinator \<Rightarrow> bool" where
  "coord_inv reps q s \<longleftrightarrow>
     acknowledged s = Suc (length (confirmed s)) \<and> (\<exists>rest. mset reps = mset (confirmed s) + mset (pending_tasks s) + rest) \<and>
     (if sender_open s then replies s = [] \<and> acknowledged s < q
      else \<exists>r. replies s = [r] \<and> (if r = Inr () then q \<le> acknowledged s else acknowledged s + length (pending_tasks s) < q))"

lemma mset_remove_nth: "i < length xs \<Longrightarrow> mset xs = add_mset (xs ! i) (mset (remove_nth i xs))"
  by (metis add_mset_commute id_take_nth_drop mset.simps(2) mset_append remove_nth_def union_mset_add_mset_right)

lemma coord_inv_join:
  assumes inv: "coord_inv reps q s" and ne: "pending_tasks s \<noteq> []"
  shows "coord_inv reps q (after_join q (settle_join i res s))"
proof -
  let ?j = "i mod length (pending_tasks s)" and ?s1 = "settle_join i res s"
  have j: "?j < length (pending_tasks s)" using ne by simp
  obtain rest where rest: "mset reps = mset (confirmed s) + mset (pending_tasks s) + rest" using inv by (auto simp: coord_inv_def)
  have pend: "mset (pending_tasks s) = add_mset (pending_tasks s ! ?j) (mset (pending_tasks ?s1))"
    using mset_remove_nth[OF j] by simp
  have len: "Suc (length (pending_tasks ?s1)) = length (pending_tasks s)" using j by (simp add: Suc_diff_Suc)
  have ack: "acknowledged ?s1 = Suc (length (confirmed ?s1))" using inv by (simp add: coord_inv_def settle_join_def Let_def)
  have mem: "\<exists>rest. mset reps = mset (confirmed ?s1) + mset (pending_tasks ?s1) + rest"
    using rest pend by (cases "res = Some (Inr ())")
      (auto simp: settle_join_def Let_def intro!: exI[of _ "if res = Some (Inr ()) then rest else add_mset (pending_tasks s ! ?j) rest"])
  have grow: "acknowledged ?s1 \<le> Suc (acknowledged s)" "acknowledged s \<le> acknowledged ?s1"
    "sender_open ?s1 = sender_open s" "replies ?s1 = replies s"
    by (simp_all add: settle_join_def Let_def)
  show ?thesis
  proof (cases "sender_open s")
    case True
    then show ?thesis using inv ack mem grow unfolding coord_inv_def
      by (auto simp: after_join_def acknowledge_def)
  next
    case False
    then obtain r where r: "replies s = [r]" "if r = Inr () then q \<le> acknowledged s else acknowledged s + length (pending_tasks s) < q"
      using inv by (auto simp: coord_inv_def)
    have same: "after_join q ?s1 = ?s1" using False grow(3) by (simp add: after_join_def acknowledge_def)
    show ?thesis unfolding same coord_inv_def using ack mem grow False r len by (auto split: if_splits)
  qed
qed

lemma coord_inv_elapsed:
  assumes "coord_inv reps q s"
  shows "coord_inv reps q ((acknowledge (Inl Timeout) s)\<lparr>pending_tasks := []\<rparr>)"
proof -
  let ?s' = "(acknowledge (Inl Timeout) s)\<lparr>pending_tasks := []\<rparr>"
  have f: "acknowledged ?s' = acknowledged s" "confirmed ?s' = confirmed s" "pending_tasks ?s' = []" "\<not> sender_open ?s'"
    "replies ?s' = (if sender_open s then replies s @ [Inl Timeout] else replies s)"
    by (simp_all add: acknowledge_def)
  have mem: "\<exists>rest. mset reps = mset (confirmed s) + mset [] + rest"
    using assms unfolding coord_inv_def by (metis add.assoc add.right_neutral mset.simps(1))
  have ack: "acknowledged s = Suc (length (confirmed s))"
    and rep: "if sender_open s then replies s = [] \<and> acknowledged s < q
      else \<exists>r. replies s = [r] \<and> (if r = Inr () then q \<le> acknowledged s else acknowledged s + length (pending_tasks s) < q)"
    using assms unfolding coord_inv_def by blast+
  have "\<exists>r. replies ?s' = [r] \<and> (if r = Inr () then q \<le> acknowledged s else acknowledged s < q)"
  proof (cases "sender_open s")
    case True
    then have "replies ?s' = [Inl Timeout]" "acknowledged s < q" using rep unfolding f by simp_all
    then show ?thesis by simp
  next
    case False
    then obtain r where "replies s = [r]" "if r = Inr () then q \<le> acknowledged s else acknowledged s + length (pending_tasks s) < q"
      using rep by auto
    then have "replies ?s' = [r]" "if r = Inr () then q \<le> acknowledged s else acknowledged s < q"
      using False unfolding f by (cases "r = Inr ()"; simp)+
    then show ?thesis by blast
  qed
  then show ?thesis using mem ack f(4) unfolding coord_inv_def f(1-3) list.size add_0_right if_not_P[OF f(4)] by blast
qed

lemma fanout_inv:
  "coord_inv reps q s \<Longrightarrow> coord_inv reps q (fanout q joins n s) \<and> pending_tasks (fanout q joins n s) = []"
proof (induction q joins n s rule: fanout.induct)
  case (1 q joins n s)
  note sim = fanout.simps[of q joins n s]
  show ?case
  proof (cases "pending_tasks s = []")
    case True
    then show ?thesis using sim "1.prems" by simp
  next
    case False
    show ?thesis
    proof (cases "joins n")
      case (Joined i res)
      then show ?thesis using sim False "1.IH"[OF False Joined] coord_inv_join[OF "1.prems" False] by simp
    next
      case Elapsed
      have "coord_inv reps q ((acknowledge (Inl Timeout) s)\<lparr>pending_tasks := []\<rparr>)" by (rule coord_inv_elapsed[OF "1.prems"])
      then show ?thesis using sim False Elapsed by simp
    qed
  qed
qed

lemma replicate_to_quorum_ok:
  fixes reps :: "'r list" and joins :: "nat \<Rightarrow> join_outcome"
  assumes "0 < q"
  defines "s \<equiv> replicate_to_quorum reps q joins"
  shows "\<exists>r. replies s = [r] \<and> (r = Inr () \<longleftrightarrow> q \<le> Suc (length (confirmed s)))" "mset (confirmed s) \<subseteq># mset reps"
    "pending_tasks s = []"
proof -
  define s0 where "s0 = \<lparr>acknowledged = 1, pending_tasks = reps, sender_open = True, replies = [], confirmed = []\<rparr>"
  define s1 where "s1 = (if acknowledged s0 \<ge> q then acknowledge (Inr ()) s0 else s0)"
  have "coord_inv reps q s1" using assms(1) by (auto simp: s1_def s0_def coord_inv_def acknowledge_def)
  note f = fanout_inv[OF this, of joins 0]
  have s: "s = (if sender_open (fanout q joins 0 s1) then acknowledge (Inl QuorumFailed) (fanout q joins 0 s1) else fanout q joins 0 s1)"
    unfolding s_def replicate_to_quorum_def s0_def[symmetric] Let_def s1_def ..
  show "pending_tasks s = []" using f by (simp add: s)
  show "mset (confirmed s) \<subseteq># mset reps"
    using f by (auto simp: s coord_inv_def acknowledge_def mset_subset_eq_exists_conv)
  show "\<exists>r. replies s = [r] \<and> (r = Inr () \<longleftrightarrow> q \<le> Suc (length (confirmed s)))"
    using f by (cases "sender_open (fanout q joins 0 s1)") (auto simp: s coord_inv_def acknowledge_def split: if_splits)
qed

lemma enabled_plain: "\<not> enabled (lifecycle m) \<longleftrightarrow> life_opts (lifecycle m) = None"
  by (simp add: enabled_def opts_None)

text \<open>The replicas of a coordinator's run that hold the operation, the primary aside.\<close>

definition holders :: "replication_env \<Rightarrow> quorum_config \<Rightarrow> 'r list \<Rightarrow> 'r set" where
  "holders env cfg reps = set (confirmed (replicate_to_quorum reps (write_quorum cfg) (task_joins env)))"

lemma dispatch_ok:
  assumes "distinct reps" "0 < write_quorum cfg"
  shows "holders env cfg reps \<subseteq> set reps"
    "fst (dispatch_replication env rop cfg reps) = Inr () \<longleftrightarrow> clones_ok env \<and> write_quorum cfg \<le> Suc (card (holders env cfg reps))"
    "snd (dispatch_replication env rop cfg reps) = (if clones_ok env then map (\<lambda>r. (r, rop)) reps else [])"
proof -
  let ?s = "replicate_to_quorum reps (write_quorum cfg) (task_joins env)"
  note ok = replicate_to_quorum_ok[OF assms(2), of reps "task_joins env"]
  show "holders env cfg reps \<subseteq> set reps" using set_mset_mono[OF ok(2)] by (simp add: holders_def)
  have "distinct (confirmed ?s)"
  proof -
    obtain rest where "mset reps = mset (confirmed ?s) + mset rest" using ok(2) ex_mset by (metis mset_subset_eq_exists_conv)
    then have "mset reps = mset (confirmed ?s @ rest)" by simp
    then show ?thesis using assms(1) mset_eq_imp_distinct_iff[of reps "confirmed ?s @ rest"] by simp
  qed
  then have "card (holders env cfg reps) = length (confirmed ?s)" by (simp add: holders_def distinct_card)
  then show "fst (dispatch_replication env rop cfg reps) = Inr () \<longleftrightarrow> clones_ok env \<and> write_quorum cfg \<le> Suc (card (holders env cfg reps))"
    using ok(1) by (auto simp: dispatch_replication_def)
  show "snd (dispatch_replication env rop cfg reps) = (if clones_ok env then map (\<lambda>r. (r, rop)) reps else [])"
    by (simp add: dispatch_replication_def)
qed

text \<open>The coordinator answers nothing but success, a timeout or an unreachable quorum.\<close>

abbreviation possible_replies :: "(replica_error + unit) set" where
  "possible_replies \<equiv> {Inr (), Inl Timeout, Inl QuorumFailed}"

lemma replies_acknowledge: "set (replies (acknowledge r s)) \<subseteq> insert r (set (replies s))"
  by (auto simp: acknowledge_def)

lemma replies_join:
  "set (replies s) \<subseteq> possible_replies \<Longrightarrow> set (replies (after_join q (settle_join i res s))) \<subseteq> possible_replies"
  by (auto simp: after_join_def settle_join_def Let_def acknowledge_def)

lemma fanout_replies:
  "set (replies s) \<subseteq> possible_replies \<Longrightarrow> set (replies (fanout q joins n s)) \<subseteq> possible_replies"
proof (induction q joins n s rule: fanout.induct)
  case (1 q joins n s)
  note sim = fanout.simps[of q joins n s]
  show ?case
  proof (cases "pending_tasks s = []")
    case True
    then show ?thesis using sim "1.prems" by simp
  next
    case False
    show ?thesis
    proof (cases "joins n")
      case (Joined i res)
      then show ?thesis using sim False "1.IH"[OF False Joined replies_join[OF "1.prems"]] by simp
    next
      case Elapsed
      then show ?thesis using sim False "1.prems" replies_acknowledge[of "Inl Timeout" s] by auto
    qed
  qed
qed

lemma dispatch_replies:
  "fst (dispatch_replication env rop cfg reps) \<in> possible_replies"
proof -
  define s0 where "s0 = \<lparr>acknowledged = 1, pending_tasks = reps, sender_open = True, replies = [], confirmed = []\<rparr>"
  define s1 where "s1 = (if acknowledged s0 \<ge> write_quorum cfg then acknowledge (Inr ()) s0 else s0)"
  let ?f = "fanout (write_quorum cfg) (task_joins env) 0 s1"
  have "set (replies s1) \<subseteq> possible_replies" by (simp add: s1_def s0_def acknowledge_def)
  then have f: "set (replies ?f) \<subseteq> possible_replies" by (rule fanout_replies)
  have s: "replicate_to_quorum reps (write_quorum cfg) (task_joins env) =
      (if sender_open ?f then acknowledge (Inl QuorumFailed) ?f else ?f)"
    unfolding replicate_to_quorum_def s0_def[symmetric] Let_def s1_def ..
  have "set (replies (replicate_to_quorum reps (write_quorum cfg) (task_joins env))) \<subseteq> possible_replies"
    unfolding s using f replies_acknowledge[of "Inl QuorumFailed" ?f] by auto
  then show ?thesis
    by (cases "replies (replicate_to_quorum reps (write_quorum cfg) (task_joins env))")
      (auto simp: dispatch_replication_def)
qed

lemma dup_prefix_iff: "list_ex (\<lambda>i. xs ! i \<in> set (take i xs)) [0..<length xs] \<longleftrightarrow> \<not> distinct xs"
proof -
  have "(\<exists>i<length xs. xs ! i \<in> set (take i xs)) \<longleftrightarrow> (\<exists>i<length xs. \<exists>j<i. xs ! i = xs ! j)"
    by (auto simp: in_set_conv_nth) (metis less_trans nth_take)+
  also have "\<dots> \<longleftrightarrow> \<not> distinct xs"
    unfolding distinct_conv_nth by (metis less_trans nat_neq_iff)
  finally show ?thesis by (auto simp: list_ex_iff)
qed

lemma validate_topology_iff:
  assumes "length reps + 1 < 2 ^ 64"
  shows "validate_topology reps cfg = Inr () \<longleftrightarrow>
    quorum_is_valid cfg \<and> replica_count cfg = length reps + 1 \<and> distinct reps"
  using assms dup_prefix_iff[of reps] by (auto simp: validate_topology_def checked_add_one_def)

lemma validate_topology_valid:
  "validate_topology reps cfg = Inr () \<Longrightarrow> distinct reps \<and> 0 < write_quorum cfg \<and> write_quorum cfg \<le> Suc (length reps)"
  using dup_prefix_iff[of reps]
  by (auto simp: validate_topology_def checked_add_one_def quorum_is_valid_def split: if_splits)

lemma validate_topology_error:
  "validate_topology reps cfg = Inl e \<Longrightarrow> \<exists>why. e = invalid_configuration why"
  by (auto simp: validate_topology_def split: if_splits)

context starshard_deps
begin

lemma new_map_plain:
  "plain_map D (with_shards_and_hasher n)" "view D (with_shards_and_hasher n) = Map.empty"
proof -
  have "0 < capped_shard_count (normalized_shard_count n) MAX_SHARDS"
    by (simp add: capped_shard_count_def MAX_SHARDS_def)
  then show "plain_map D (with_shards_and_hasher n)" "view D (with_shards_and_hasher n) = Map.empty"
    by (simp_all add: plain_map_def wf_map_build with_shards_and_hasher_def with_shards_and_snapshot_mode_def Let_def life_opts_def)
qed

end

section \<open>Properties\<close>

text \<open>
  C39: a replicated mutation whose local write completes before the deadline always applies it, and it is
  answered once: with the previous value exactly if the primary and the distinct replicas of the
  topology that confirmed the operation make a write quorum (and copying the operation did not panic), and with
  a timeout or a failed quorum otherwise. Every replica is called with the operation exactly once, or none
  is if the copying panicked. A topology accepted by the validation always allows a quorum.
\<close>

theorem replicated_write_quorum:
  assumes "starshard_deps D" "plain_map D (local_map M)" "quorum_conf M = Some cfg"
    "validate_topology (remote_replicas M) cfg = Inr ()" "now D + timeout cfg \<le> instant_max env"
    "order_ok env" "local_drop env = None"
  shows "holders env cfg (remote_replicas M) \<subseteq> set (remote_replicas M) \<and> write_quorum cfg \<le> Suc (card (set (remote_replicas M))) \<and>
    (\<exists>r m'. insert_replicated D env k v M =
        Some (r, if clones_ok env then map (\<lambda>h. (h, RepInsert k v)) (remote_replicas M) else [], M\<lparr>local_map := m'\<rparr>) \<and>
      plain_map D m' \<and> view D m' = (view D (local_map M))(k \<mapsto> v) \<and>
      (if clones_ok env \<and> write_quorum cfg \<le> Suc (card (holders env cfg (remote_replicas M)))
       then r = Inr (view D (local_map M) k) else r = Inl Timeout \<or> r = Inl QuorumFailed)) \<and>
    (\<exists>r m'. remove_replicated D env k M =
        Some (r, if clones_ok env then map (\<lambda>h. (h, RepRemove k)) (remote_replicas M) else [], M\<lparr>local_map := m'\<rparr>) \<and>
      plain_map D m' \<and> view D m' = (view D (local_map M))(k := None) \<and>
      (if clones_ok env \<and> write_quorum cfg \<le> Suc (card (holders env cfg (remote_replicas M)))
       then r = Inr (view D (local_map M) k) else r = Inl Timeout \<or> r = Inl QuorumFailed))"
proof (intro conjI)
  let ?m = "local_map M" and ?reps = "remote_replicas M"
  have wf: "wf_map D ?m" and dis: "\<not> enabled (lifecycle ?m)"
    using assms(2) by (simp_all add: plain_map_def enabled_plain)
  have dl: "local_deadline D env cfg = Some (now D + timeout cfg)" using assms(5) by (simp add: local_deadline_def)
  note v = validate_topology_valid[OF assms(4)]
  show "write_quorum cfg \<le> Suc (card (set ?reps))" using v by (simp add: distinct_card)
  show "holders env cfg ?reps \<subseteq> set ?reps" using dispatch_ok(1) v by blast
  have d: "\<exists>r. dispatch_replication env rop cfg ?reps = (r, if clones_ok env then map (\<lambda>h. (h, rop)) ?reps else []) \<and>
    (if clones_ok env \<and> write_quorum cfg \<le> Suc (card (holders env cfg ?reps))
     then r = Inr () else r = Inl Timeout \<or> r = Inl QuorumFailed)" for rop :: "('a, 'b) replication_op"
    using dispatch_ok(2,3)[of ?reps cfg env rop] v dispatch_replies[of env rop cfg ?reps]
    by (intro exI[of _ "fst (dispatch_replication env rop cfg ?reps)"]) (auto simp: prod_eq_iff)
  obtain m' where i: "async_insert D k v ?m = Some (view D ?m k, m')" "op_post D ?m ((view D ?m)(k \<mapsto> v)) m'"
    using starshard_deps.async_insert_post[OF assms(1) wf] by blast
  show "\<exists>r m'. insert_replicated D env k v M =
        Some (r, if clones_ok env then map (\<lambda>h. (h, RepInsert k v)) ?reps else [], M\<lparr>local_map := m'\<rparr>) \<and>
      plain_map D m' \<and> view D m' = (view D ?m)(k \<mapsto> v) \<and>
      (if clones_ok env \<and> write_quorum cfg \<le> Suc (card (holders env cfg ?reps))
       then r = Inr (view D ?m k) else r = Inl Timeout \<or> r = Inl QuorumFailed)"
    using d[of "RepInsert k v"] op_post_plain[OF i(2) assms(2)]
    by (auto simp: insert_replicated_def i(1) dis assms(3,6,7) dl split: if_splits)
  obtain m' where r: "async_remove D k ?m = Some (view D ?m k, m')" "op_post D ?m ((view D ?m)(k := None)) m'"
    using starshard_deps.async_remove_post[OF assms(1) wf] by blast
  show "\<exists>r m'. remove_replicated D env k M =
        Some (r, if clones_ok env then map (\<lambda>h. (h, RepRemove k)) ?reps else [], M\<lparr>local_map := m'\<rparr>) \<and>
      plain_map D m' \<and> view D m' = (view D ?m)(k := None) \<and>
      (if clones_ok env \<and> write_quorum cfg \<le> Suc (card (holders env cfg ?reps))
       then r = Inr (view D ?m k) else r = Inl Timeout \<or> r = Inl QuorumFailed)"
    using d[of "RepRemove k"] op_post_plain[OF r(2) assms(2)]
    by (auto simp: remove_replicated_def r(1) dis assms(3,6,7) dl split: if_splits)
qed

theorem replicated_write_quorum_witness:
  "\<exists>m'. insert_replicated nat_deps
      \<lparr>instant_max = 10 ^ 20, order_ok = True, local_drop = None, clones_ok = True,
       task_joins = (\<lambda>n. if n = 0 then Joined 1 (Some (Inr ())) else Elapsed)\<rparr> 1 10
      \<lparr>local_map = fresh_map Cow, remote_replicas = [7, 8 :: nat], quorum_conf = Some (quorum_majority 3)\<rparr> =
    Some (Inr None, [(7, RepInsert 1 10), (8, RepInsert 1 10)],
      \<lparr>local_map = m', remote_replicas = [7, 8], quorum_conf = Some (quorum_majority 3)\<rparr>)"
proof -
  let ?M = "\<lparr>local_map = fresh_map Cow, remote_replicas = [7, 8 :: nat], quorum_conf = Some (quorum_majority 3)\<rparr>"
  let ?env = "\<lparr>instant_max = 10 ^ 20, order_ok = True, local_drop = None, clones_ok = True,
       task_joins = (\<lambda>n. if n = 0 then Joined 1 (Some (Inr ())) else Elapsed)\<rparr>"
  have top: "validate_topology [7, 8 :: nat] (quorum_majority 3) = Inr ()"
    by (simp add: validate_topology_iff quorum_majority_def quorum_is_valid_def Let_def)
  have h: "holders ?env (quorum_majority 3) [7, 8 :: nat] = {8}"
    by (simp add: holders_def replicate_to_quorum_def quorum_majority_def Let_def fanout.simps settle_join_def
        remove_nth_def after_join_def acknowledge_def)
  have n: "now (nat_deps :: (nat, nat, (nat, nat) alist_map, (u64, nat entry list) alist_map) deps) = 0" by (simp add: nat_deps_def)
  have w: "write_quorum (quorum_majority 3) = 2" "timeout (quorum_majority 3) \<le> 10 ^ 20" by (simp_all add: quorum_majority_def Let_def)
  show ?thesis
    using replicated_write_quorum[OF nat_deps_laws, of ?M "quorum_majority 3" ?env 1 10] top h n w
    by (auto simp: plain_map_def)
qed

lemma try_with_replication_ok:
  fixes D :: "('k, 'v, 'm, 'b) deps" and reps :: "'r list"
  assumes "starshard_deps D" "length reps + 1 < 2 ^ 64"
  shows "if quorum_is_valid cfg \<and> replica_count cfg = length reps + 1 \<and> distinct reps
    then \<exists>M0. try_with_replication n reps cfg = Inr M0 \<and> with_replication n reps cfg = Some M0 \<and> remote_replicas M0 = reps \<and>
      quorum_conf M0 = Some cfg \<and> plain_map D (local_map M0) \<and> view D (local_map M0) = Map.empty
    else (\<exists>why. try_with_replication n reps cfg = (Inl (invalid_configuration why) :: replica_error + ('k, 'v, 'm, 'b, 'r) replicated_map)) \<and>
      with_replication n reps cfg = (None :: ('k, 'v, 'm, 'b, 'r) replicated_map option)"
  using starshard_deps.new_map_plain[OF assms(1), of n] validate_topology_iff[OF assms(2), of cfg] validate_topology_error[of reps cfg]
  by (auto simp: with_replication_def try_with_replication_def split: sum.splits)

lemma replicated_refused:
  assumes "enabled (lifecycle (local_map M)) \<or>
     (\<exists>c. quorum_conf M = Some c \<and> (instant_max env < now D + timeout c \<or> \<not> order_ok env))"
  shows "\<exists>e. insert_replicated D env k v M = Some (Inl e, [], M) \<and> remove_replicated D env k M = Some (Inl e, [], M)"
  using assms by (auto simp: insert_replicated_def remove_replicated_def local_deadline_def)

lemma replicated_dropped:
  assumes "starshard_deps D" "wf_map D (local_map M)"
    and ok: "\<not> enabled (lifecycle (local_map M)) \<and> quorum_conf M = Some c \<and> now D + timeout c \<le> instant_max env \<and> order_ok env \<and>
      local_drop env = Some pt"
  shows "(\<exists>m'. insert_replicated D env k v M = Some (Inl Timeout, [], M\<lparr>local_map := m'\<rparr>) \<and> wf_map D m' \<and>
        view D m' \<in> {view D (local_map M), (view D (local_map M))(k \<mapsto> v)}) \<and>
      (\<exists>m'. remove_replicated D env k M = Some (Inl Timeout, [], M\<lparr>local_map := m'\<rparr>) \<and> wf_map D m' \<and>
        view D m' \<in> {view D (local_map M), (view D (local_map M))(k := None)})"
proof -
  let ?m = "local_map M"
  obtain m1 m2 where "insert_dropped D k v pt ?m = Some m1" "wf_map D m1" "view D m1 \<in> {view D ?m, (view D ?m)(k \<mapsto> v)}"
    "remove_dropped D k pt ?m = Some m2" "wf_map D m2" "view D m2 \<in> {view D ?m, (view D ?m)(k := None)}"
    using starshard_deps.insert_dropped_ok[OF assms(1,2), of k v pt] starshard_deps.remove_dropped_ok[OF assms(1,2), of k pt]
    by (metis insertCI)
  moreover from this ok have "insert_replicated D env k v M = Some (Inl Timeout, [], M\<lparr>local_map := m1\<rparr>)"
    "remove_replicated D env k M = Some (Inl Timeout, [], M\<lparr>local_map := m2\<rparr>)"
    by (simp_all add: insert_replicated_def remove_replicated_def local_deadline_def)
  ultimately show ?thesis by blast
qed

lemma replicated_local:
  assumes "starshard_deps D" "wf_map D (local_map M)" and ok: "\<not> enabled (lifecycle (local_map M)) \<and> quorum_conf M = None"
  shows "(\<exists>m'. insert_replicated D env k v M = Some (Inr (view D (local_map M) k), [], M\<lparr>local_map := m'\<rparr>) \<and>
        plain_map D m' \<and> view D m' = (view D (local_map M))(k \<mapsto> v)) \<and>
      (\<exists>m'. remove_replicated D env k M = Some (Inr (view D (local_map M) k), [], M\<lparr>local_map := m'\<rparr>) \<and>
        plain_map D m' \<and> view D m' = (view D (local_map M))(k := None))"
proof -
  let ?m = "local_map M"
  have plain: "plain_map D ?m" using assms(2) ok by (simp add: plain_map_def enabled_plain)
  obtain m1 m2 where i: "async_insert D k v ?m = Some (view D ?m k, m1)" "op_post D ?m ((view D ?m)(k \<mapsto> v)) m1"
    and r: "async_remove D k ?m = Some (view D ?m k, m2)" "op_post D ?m ((view D ?m)(k := None)) m2"
    using starshard_deps.async_insert_post[OF assms(1,2)] starshard_deps.async_remove_post[OF assms(1,2)] by blast
  show ?thesis
    using op_post_plain[OF i(2) plain] op_post_plain[OF r(2) plain] ok
    by (auto simp: insert_replicated_def remove_replicated_def i(1) r(1))
qed

text \<open>
  C40: every error path of replication. A map is built exactly if the quorums are valid, the topology has the
  announced size and no handle occurs twice, and is then well formed and empty; any other configuration is
  rejected, and the panicking constructor panics exactly then. A mutation on a map with an eviction policy, with a
  deadline the clock cannot represent or whose turn does not come before the deadline leaves the map as it
  was and calls no replica. If the deadline passes during the local write, no replica is called and the write has
  happened completely or not at all. Without a topology a mutation is the local one.
\<close>

theorem replication_error_paths:
  fixes D :: "('k, 'v, 'm, 'b) deps" and M :: "('k, 'v, 'm, 'b, 'r) replicated_map" and reps :: "'r list"
  assumes "starshard_deps D" "wf_map D (local_map M)" "length reps + 1 < 2 ^ 64"
  shows "(if quorum_is_valid cfg \<and> replica_count cfg = length reps + 1 \<and> distinct reps
      then \<exists>M0. try_with_replication n reps cfg = Inr M0 \<and> with_replication n reps cfg = Some M0 \<and> remote_replicas M0 = reps \<and>
        quorum_conf M0 = Some cfg \<and> plain_map D (local_map M0) \<and> view D (local_map M0) = Map.empty
      else (\<exists>why. try_with_replication n reps cfg = (Inl (invalid_configuration why) :: replica_error + ('k, 'v, 'm, 'b, 'r) replicated_map)) \<and>
        with_replication n reps cfg = (None :: ('k, 'v, 'm, 'b, 'r) replicated_map option)) \<and>
    (enabled (lifecycle (local_map M)) \<or>
     (\<exists>c. quorum_conf M = Some c \<and> (instant_max env < now D + timeout c \<or> \<not> order_ok env)) \<longrightarrow>
      (\<exists>e. insert_replicated D env k v M = Some (Inl e, [], M) \<and> remove_replicated D env k M = Some (Inl e, [], M))) \<and>
    (\<not> enabled (lifecycle (local_map M)) \<and> quorum_conf M = Some c \<and> now D + timeout c \<le> instant_max env \<and> order_ok env \<and>
      local_drop env = Some pt \<longrightarrow>
      (\<exists>m'. insert_replicated D env k v M = Some (Inl Timeout, [], M\<lparr>local_map := m'\<rparr>) \<and> wf_map D m' \<and>
        view D m' \<in> {view D (local_map M), (view D (local_map M))(k \<mapsto> v)}) \<and>
      (\<exists>m'. remove_replicated D env k M = Some (Inl Timeout, [], M\<lparr>local_map := m'\<rparr>) \<and> wf_map D m' \<and>
        view D m' \<in> {view D (local_map M), (view D (local_map M))(k := None)})) \<and>
    (\<not> enabled (lifecycle (local_map M)) \<and> quorum_conf M = None \<longrightarrow>
      (\<exists>m'. insert_replicated D env k v M = Some (Inr (view D (local_map M) k), [], M\<lparr>local_map := m'\<rparr>) \<and>
        plain_map D m' \<and> view D m' = (view D (local_map M))(k \<mapsto> v)) \<and>
      (\<exists>m'. remove_replicated D env k M = Some (Inr (view D (local_map M) k), [], M\<lparr>local_map := m'\<rparr>) \<and>
        plain_map D m' \<and> view D m' = (view D (local_map M))(k := None)))"
  using try_with_replication_ok[OF assms(1,3), of cfg n] replicated_refused[of M env D k v]
    replicated_dropped[OF assms(1,2), of c env pt k v] replicated_local[OF assms(1,2), of env k v]
  by (intro conjI impI) simp_all

theorem replication_error_paths_witness:
  "(\<exists>why. try_with_replication 2 [7, 7 :: nat] (quorum_majority 3) =
      (Inl (invalid_configuration why) :: replica_error + (nat, nat, (nat, nat) alist_map, (u64, nat entry list) alist_map, nat) replicated_map))"
  using conjunct1[OF replication_error_paths[OF nat_deps_laws, where
      M = "\<lparr>local_map = fresh_map Cow, remote_replicas = [7 :: nat], quorum_conf = None\<rparr>" and
      reps = "[7, 7 :: nat]" and cfg = "quorum_majority 3" and n = 2]]
  by simp

end
