(* ===== verification/Replication_Order.thy ===== *)
theory Replication_Order
  imports Replication "HOL-Library.Sublist"
begin

text \<open>
  Replicated writes running concurrently: the callers of \<open>insert_replicated\<close> and \<open>remove_replicated\<close>, the order
  mutex they share, the coordinator tasks that \<open>ReplicationState::start\<close> registers, the replica calls they
  fan out to, and the drop of the last map, which aborts the registered coordinator
  (\<open>core/replication.rs\<close>). An event is one step of one task between two of its await points; any event that
  is enabled may be next. Calls are numbered in the order in which they are made.

  \<open>applied\<close> and \<open>received\<close> record, for the statements only, which calls have written locally and which call
  each replica was asked to perform, in the order in which that happened.
\<close>

section \<open>State\<close>

datatype ('k, 'v) call_phase =
    Queued "('k, 'v) replication_op"
  | Ordered "('k, 'v) replication_op"
  | Waiting "'v option"
  | Answered "replica_error + 'v option"
  | Abandoned

datatype task_status = Unpolled | Calling | Ended "(replica_error + unit) option"

text \<open>A coordinator: the guard of the order mutex goes with it, and the replicas are those of its \<open>JoinSet\<close>.\<close>

record 'r fan =
  fan_started :: bool
  fan_coord :: "'r coordinator"
  fan_task :: "'r \<Rightarrow> task_status"
  fan_draining :: bool
  fan_aborted :: bool

record ('k, 'v, 'm, 'b, 'r) repl_sys =
  r_map :: "('k, 'v, 'm, 'b, 'r) replicated_map"
  r_callers :: "('k, 'v) call_phase list"
  r_order :: "nat option"
  r_worker :: "nat option"
  r_fans :: "nat \<Rightarrow> 'r fan option"
  r_sent :: "nat \<Rightarrow> (replica_error + unit) list"
  r_confirmed :: "nat \<Rightarrow> 'r list"
  r_gone :: bool
  applied :: "nat list"
  received :: "('r \<times> nat) list"

definition repl_init :: "('k, 'v, 'm, 'b, 'r) replicated_map \<Rightarrow> ('k, 'v, 'm, 'b, 'r) repl_sys" where
  "repl_init M = \<lparr>r_map = M, r_callers = [], r_order = None, r_worker = None, r_fans = \<lambda>_. None, r_sent = \<lambda>_. [],
     r_confirmed = \<lambda>_. [], r_gone = False, applied = [], received = []\<rparr>"

fun local_apply ::
  "('k, 'v, 'm, 'b) deps \<Rightarrow> ('k, 'v) replication_op \<Rightarrow> ('k, 'v, 'm, 'b) sharded_map \<Rightarrow>
   ('v option \<times> ('k, 'v, 'm, 'b) sharded_map) option" where
  "local_apply D (RepInsert k v) m = async_insert D k v m"
| "local_apply D (RepRemove k) m = async_remove D k m"
| "local_apply D RepClear m = map_option (Pair None) (async_clear D m)"

fun local_dropped ::
  "('k, 'v, 'm, 'b) deps \<Rightarrow> ('k, 'v) replication_op \<Rightarrow> drop_point \<Rightarrow> ('k, 'v, 'm, 'b) sharded_map \<Rightarrow>
   ('k, 'v, 'm, 'b) sharded_map option" where
  "local_dropped D (RepInsert k v) pt m = insert_dropped D k v pt m"
| "local_dropped D (RepRemove k) pt m = remove_dropped D k pt m"
| "local_dropped D RepClear pt m = None"

section \<open>The callers\<close>

definition phase_of :: "nat \<Rightarrow> ('k, 'v, 'm, 'b, 'r) repl_sys \<Rightarrow> ('k, 'v) call_phase option" where
  "phase_of c s = (if c < length (r_callers s) then Some (r_callers s ! c) else None)"

definition set_phase :: "nat \<Rightarrow> ('k, 'v) call_phase \<Rightarrow> ('k, 'v, 'm, 'b, 'r) repl_sys \<Rightarrow> ('k, 'v, 'm, 'b, 'r) repl_sys" where
  "set_phase c p s = s\<lparr>r_callers := (r_callers s)[c := p]\<rparr>"

definition set_local :: "('k, 'v, 'm, 'b) sharded_map \<Rightarrow> ('k, 'v, 'm, 'b, 'r) repl_sys \<Rightarrow> ('k, 'v, 'm, 'b, 'r) repl_sys" where
  "set_local m s = s\<lparr>r_map := (r_map s)\<lparr>local_map := m\<rparr>\<rparr>"

text \<open>A call on a configured map that accepts replicated mutations and whose deadline is representable.\<close>

definition invoke ::
  "('k, 'v) replication_op \<Rightarrow> ('k, 'v, 'm, 'b, 'r) repl_sys \<Rightarrow> ('k, 'v, 'm, 'b, 'r) repl_sys option" where
  "invoke rop s =
     (if \<not> r_gone s \<and> rop \<noteq> RepClear \<and> \<not> enabled (lifecycle (local_map (r_map s))) \<and> quorum_conf (r_map s) \<noteq> None
      then Some (s\<lparr>r_callers := r_callers s @ [Queued rop]\<rparr>) else None)"

definition order_timeout :: "nat \<Rightarrow> ('k, 'v, 'm, 'b, 'r) repl_sys \<Rightarrow> ('k, 'v, 'm, 'b, 'r) repl_sys option" where
  "order_timeout c s =
     (case phase_of c s of Some (Queued _) \<Rightarrow> Some (set_phase c (Answered (Inl Timeout)) s) | _ \<Rightarrow> None)"

definition acquire_order :: "nat \<Rightarrow> ('k, 'v, 'm, 'b, 'r) repl_sys \<Rightarrow> ('k, 'v, 'm, 'b, 'r) repl_sys option" where
  "acquire_order c s =
     (case phase_of c s of
        Some (Queued rop) \<Rightarrow> if r_order s = None then Some ((set_phase c (Ordered rop) s)\<lparr>r_order := Some c\<rparr>) else None
      | _ \<Rightarrow> None)"

text \<open>
  The local write is dropped at one of its awaits, by the deadline or with the caller; the guard is released.
\<close>

definition drop_local ::
  "('k, 'v, 'm, 'b) deps \<Rightarrow> nat \<Rightarrow> drop_point \<Rightarrow> ('k, 'v) call_phase \<Rightarrow> ('k, 'v, 'm, 'b, 'r) repl_sys \<Rightarrow>
   ('k, 'v, 'm, 'b, 'r) repl_sys option" where
  "drop_local D c pt p s =
     (case phase_of c s of
        Some (Ordered rop) \<Rightarrow> do {
          m \<leftarrow> local_dropped D rop pt (local_map (r_map s));
          Some ((set_phase c p (set_local m s))\<lparr>r_order := None,
            applied := applied s @ (if pt = AwaitMaintenance then [c] else [])\<rparr>)
        }
      | _ \<Rightarrow> None)"

text \<open>
  The local write completes and \<open>dispatch_replication\<close> hands the operation and the guard to a new coordinator,
  whose handle \<open>start\<close> stores over the previous one.
\<close>

definition fan_new :: "'r list \<Rightarrow> 'r fan" where
  "fan_new reps = \<lparr>fan_started = False,
     fan_coord = \<lparr>acknowledged = 1, pending_tasks = reps, sender_open = True, replies = [], confirmed = []\<rparr>,
     fan_task = \<lambda>_. Unpolled, fan_draining = False, fan_aborted = False\<rparr>"

definition start_worker ::
  "nat \<Rightarrow> 'r fan \<Rightarrow> ('k, 'v, 'm, 'b, 'r) repl_sys \<Rightarrow> ('k, 'v, 'm, 'b, 'r) repl_sys" where
  "start_worker c f s = s\<lparr>r_fans := (r_fans s)(c \<mapsto> f), r_worker := Some c\<rparr>"

definition commit_local ::
  "('k, 'v, 'm, 'b) deps \<Rightarrow> nat \<Rightarrow> ('k, 'v, 'm, 'b, 'r) repl_sys \<Rightarrow> ('k, 'v, 'm, 'b, 'r) repl_sys option" where
  "commit_local D c s =
     (case phase_of c s of
        Some (Ordered rop) \<Rightarrow> do {
          (old, m) \<leftarrow> local_apply D rop (local_map (r_map s));
          Some ((start_worker c (fan_new (remote_replicas (r_map s))) (set_phase c (Waiting old) (set_local m s)))
            \<lparr>applied := applied s @ [c]\<rparr>)
        }
      | _ \<Rightarrow> None)"

text \<open>The receiver: the coordinator's answer, or a failed quorum when it is gone without one.\<close>

definition receive_answer :: "nat \<Rightarrow> ('k, 'v, 'm, 'b, 'r) repl_sys \<Rightarrow> ('k, 'v, 'm, 'b, 'r) repl_sys option" where
  "receive_answer c s =
     (case phase_of c s of
        Some (Waiting old) \<Rightarrow>
          (case r_sent s c of
             r # _ \<Rightarrow> Some (set_phase c (Answered (case r of Inl e \<Rightarrow> Inl e | Inr _ \<Rightarrow> Inr old)) s)
           | [] \<Rightarrow> if r_fans s c = None then Some (set_phase c (Answered (Inl QuorumFailed)) s) else None)
      | _ \<Rightarrow> None)"

text \<open>A caller that does not hold the guard is dropped.\<close>

definition abandon_call :: "nat \<Rightarrow> ('k, 'v, 'm, 'b, 'r) repl_sys \<Rightarrow> ('k, 'v, 'm, 'b, 'r) repl_sys option" where
  "abandon_call c s =
     (case phase_of c s of
        Some (Queued _) \<Rightarrow> Some (set_phase c Abandoned s)
      | Some (Waiting _) \<Rightarrow> Some (set_phase c Abandoned s)
      | _ \<Rightarrow> None)"

section \<open>The coordinator\<close>

definition set_fan :: "nat \<Rightarrow> 'r fan \<Rightarrow> ('k, 'v, 'm, 'b, 'r) repl_sys \<Rightarrow> ('k, 'v, 'm, 'b, 'r) repl_sys" where
  "set_fan c f s = s\<lparr>r_fans := (r_fans s)(c \<mapsto> f), r_sent := (r_sent s)(c := replies (fan_coord f)),
     r_confirmed := (r_confirmed s)(c := confirmed (fan_coord f))\<rparr>"

definition quorum_of :: "('k, 'v, 'm, 'b, 'r) repl_sys \<Rightarrow> nat" where
  "quorum_of s = (case quorum_conf (r_map s) of None \<Rightarrow> 0 | Some cfg \<Rightarrow> write_quorum cfg)"

text \<open>Copying the operation panics: the coordinator's guard and sender are dropped.\<close>

definition clones_panic :: "nat \<Rightarrow> ('k, 'v, 'm, 'b, 'r) repl_sys \<Rightarrow> ('k, 'v, 'm, 'b, 'r) repl_sys option" where
  "clones_panic c s =
     (case r_fans s c of
        Some f \<Rightarrow> if \<not> fan_started f \<and> \<not> fan_aborted f then Some (s\<lparr>r_fans := (r_fans s)(c := None), r_order := None\<rparr>) else None
      | None \<Rightarrow> None)"

definition fan_begin :: "nat \<Rightarrow> ('k, 'v, 'm, 'b, 'r) repl_sys \<Rightarrow> ('k, 'v, 'm, 'b, 'r) repl_sys option" where
  "fan_begin c s =
     (case r_fans s c of
        Some f \<Rightarrow>
          if \<not> fan_started f \<and> \<not> fan_aborted f
          then Some (set_fan c (f\<lparr>fan_started := True,
                 fan_coord := (if acknowledged (fan_coord f) \<ge> quorum_of s then acknowledge (Inr ()) (fan_coord f) else fan_coord f)\<rparr>) s)
          else None
      | None \<Rightarrow> None)"

text \<open>A replica task is polled for the first time, and its call returns or panics.\<close>

definition task_call :: "nat \<Rightarrow> 'r \<Rightarrow> ('k, 'v, 'm, 'b, 'r) repl_sys \<Rightarrow> ('k, 'v, 'm, 'b, 'r) repl_sys option" where
  "task_call c r s =
     (case r_fans s c of
        Some f \<Rightarrow>
          if fan_started f \<and> r \<in> set (pending_tasks (fan_coord f)) \<and> fan_task f r = Unpolled
          then Some ((set_fan c (f\<lparr>fan_task := (fan_task f)(r := Calling)\<rparr>) s)\<lparr>received := received s @ [(r, c)]\<rparr>) else None
      | None \<Rightarrow> None)"

definition task_end ::
  "nat \<Rightarrow> 'r \<Rightarrow> (replica_error + unit) option \<Rightarrow> ('k, 'v, 'm, 'b, 'r) repl_sys \<Rightarrow> ('k, 'v, 'm, 'b, 'r) repl_sys option" where
  "task_end c r res s =
     (case r_fans s c of
        Some f \<Rightarrow>
          if r \<in> set (pending_tasks (fan_coord f)) \<and> fan_task f r = Calling
          then Some (set_fan c (f\<lparr>fan_task := (fan_task f)(r := Ended res)\<rparr>) s) else None
      | None \<Rightarrow> None)"

text \<open>The loop of \<open>replicate_to_quorum\<close>: a task is joined, the deadline passes, aborted tasks end, and the fan-out is over.\<close>

definition fan_join :: "nat \<Rightarrow> nat \<Rightarrow> ('k, 'v, 'm, 'b, 'r) repl_sys \<Rightarrow> ('k, 'v, 'm, 'b, 'r) repl_sys option" where
  "fan_join c i s =
     (case r_fans s c of
        Some f \<Rightarrow>
          if fan_started f \<and> \<not> fan_draining f \<and> \<not> fan_aborted f \<and> i < length (pending_tasks (fan_coord f))
          then (case fan_task f (pending_tasks (fan_coord f) ! i) of
                  Ended res \<Rightarrow> Some (set_fan c (f\<lparr>fan_coord := after_join (quorum_of s) (settle_join i res (fan_coord f))\<rparr>) s)
                | _ \<Rightarrow> None)
          else None
      | None \<Rightarrow> None)"

definition fan_elapse :: "nat \<Rightarrow> ('k, 'v, 'm, 'b, 'r) repl_sys \<Rightarrow> ('k, 'v, 'm, 'b, 'r) repl_sys option" where
  "fan_elapse c s =
     (case r_fans s c of
        Some f \<Rightarrow>
          if fan_started f \<and> \<not> fan_draining f \<and> \<not> fan_aborted f \<and> pending_tasks (fan_coord f) \<noteq> []
          then Some (set_fan c (f\<lparr>fan_coord := acknowledge (Inl Timeout) (fan_coord f), fan_draining := True\<rparr>) s) else None
      | None \<Rightarrow> None)"

definition task_shutdown :: "nat \<Rightarrow> nat \<Rightarrow> ('k, 'v, 'm, 'b, 'r) repl_sys \<Rightarrow> ('k, 'v, 'm, 'b, 'r) repl_sys option" where
  "task_shutdown c i s =
     (case r_fans s c of
        Some f \<Rightarrow>
          if (fan_draining f \<or> fan_aborted f) \<and> i < length (pending_tasks (fan_coord f))
          then Some (set_fan c (f\<lparr>fan_coord := (fan_coord f)\<lparr>pending_tasks := remove_nth i (pending_tasks (fan_coord f))\<rparr>\<rparr>) s) else None
      | None \<Rightarrow> None)"

definition fan_finish :: "nat \<Rightarrow> ('k, 'v, 'm, 'b, 'r) repl_sys \<Rightarrow> ('k, 'v, 'm, 'b, 'r) repl_sys option" where
  "fan_finish c s =
     (case r_fans s c of
        Some f \<Rightarrow>
          if fan_started f \<and> \<not> fan_aborted f \<and> pending_tasks (fan_coord f) = []
          then (let f' = (if sender_open (fan_coord f) then f\<lparr>fan_coord := acknowledge (Inl QuorumFailed) (fan_coord f)\<rparr> else f);
                    s' = set_fan c f' s
                in Some (s'\<lparr>r_fans := (r_fans s')(c := None), r_order := None\<rparr>))
          else None
      | None \<Rightarrow> None)"

section \<open>The last map is dropped\<close>

text \<open>
  Callers borrow the map, so none is left. The registered coordinator is aborted: its guard, its sender and
  its \<open>JoinSet\<close> are dropped, which aborts the replica tasks but does not wait for them.
\<close>

fun call_over :: "('k, 'v) call_phase \<Rightarrow> bool" where
  "call_over (Answered _) \<longleftrightarrow> True"
| "call_over Abandoned \<longleftrightarrow> True"
| "call_over _ \<longleftrightarrow> False"

definition last_drop :: "('k, 'v, 'm, 'b, 'r) repl_sys \<Rightarrow> ('k, 'v, 'm, 'b, 'r) repl_sys option" where
  "last_drop s =
     (if r_gone s \<or> \<not> list_all call_over (r_callers s) then None
      else Some (case r_worker s of
          None \<Rightarrow> s\<lparr>r_gone := True\<rparr>
        | Some c \<Rightarrow>
            (case r_fans s c of
               None \<Rightarrow> s\<lparr>r_gone := True, r_worker := None\<rparr>
             | Some f \<Rightarrow> s\<lparr>r_gone := True, r_worker := None, r_order := None, r_fans := (r_fans s)(c \<mapsto> f\<lparr>fan_aborted := True\<rparr>)\<rparr>)))"

section \<open>Events\<close>

datatype ('k, 'v, 'r) repl_event =
    Invoke "('k, 'v) replication_op" | OrderTimeout nat | Acquire nat | LocalTimeout nat drop_point | Commit nat
  | Receive nat | Abandon nat | AbandonLocal nat drop_point | OtherWrite "('k, 'v) replication_op"
  | ClonesPanic nat | FanBegin nat | TaskCall nat 'r | TaskEnd nat 'r "(replica_error + unit) option"
  | Join nat nat | Elapse nat | Shutdown nat nat | Finish nat | LastDrop

fun repl_step ::
  "('k, 'v, 'm, 'b) deps \<Rightarrow> ('k, 'v, 'r) repl_event \<Rightarrow> ('k, 'v, 'm, 'b, 'r) repl_sys \<Rightarrow> ('k, 'v, 'm, 'b, 'r) repl_sys option" where
  "repl_step D (Invoke rop) s = invoke rop s"
| "repl_step D (OrderTimeout c) s = order_timeout c s"
| "repl_step D (Acquire c) s = acquire_order c s"
| "repl_step D (LocalTimeout c pt) s = drop_local D c pt (Answered (Inl Timeout)) s"
| "repl_step D (Commit c) s = commit_local D c s"
| "repl_step D (Receive c) s = receive_answer c s"
| "repl_step D (Abandon c) s = abandon_call c s"
| "repl_step D (AbandonLocal c pt) s = drop_local D c pt Abandoned s"
| "repl_step D (OtherWrite rop) s =
     (if r_gone s then None else map_option (\<lambda>(_, m). set_local m s) (local_apply D rop (local_map (r_map s))))"
| "repl_step D (ClonesPanic c) s = clones_panic c s"
| "repl_step D (FanBegin c) s = fan_begin c s"
| "repl_step D (TaskCall c r) s = task_call c r s"
| "repl_step D (TaskEnd c r res) s = task_end c r res s"
| "repl_step D (Join c i) s = fan_join c i s"
| "repl_step D (Elapse c) s = fan_elapse c s"
| "repl_step D (Shutdown c i) s = task_shutdown c i s"
| "repl_step D (Finish c) s = fan_finish c s"
| "repl_step D LastDrop s = last_drop s"

definition repl_run ::
  "('k, 'v, 'm, 'b) deps \<Rightarrow> ('k, 'v, 'r) repl_event list \<Rightarrow> ('k, 'v, 'm, 'b, 'r) repl_sys \<Rightarrow>
   ('k, 'v, 'm, 'b, 'r) repl_sys option" where
  "repl_run D es s = fold_option (repl_step D) es s"

section \<open>The invariant\<close>

text \<open>
  A coordinator that is not aborted holds the order mutex, is the registered one, and works for the call that
  was applied last; its replies and its confirmations obey the invariant of \<open>Replication\<close>.
\<close>

definition coordinator_ok :: "'r list \<Rightarrow> nat \<Rightarrow> 'r fan \<Rightarrow> bool" where
  "coordinator_ok reps q f \<longleftrightarrow>
     mset (confirmed (fan_coord f)) + mset (pending_tasks (fan_coord f)) \<subseteq># mset reps \<and>
     (if \<not> fan_started f
      then \<not> fan_draining f \<and> (fan_coord f)\<lparr>pending_tasks := []\<rparr> =
        \<lparr>acknowledged = 1, pending_tasks = [], sender_open = True, replies = [], confirmed = []\<rparr>
      else coord_inv reps q (if fan_draining f then (fan_coord f)\<lparr>pending_tasks := []\<rparr> else fan_coord f))"

definition calls_logged :: "('r \<times> nat) list \<Rightarrow> nat \<Rightarrow> 'r fan \<Rightarrow> bool" where
  "calls_logged calls c f \<longleftrightarrow>
     (\<forall>r \<in> set (pending_tasks (fan_coord f)). fan_task f r = Unpolled \<longrightarrow> (r, c) \<notin> set calls) \<and>
     (\<forall>r. fan_task f r \<noteq> Unpolled \<longrightarrow> (r, c) \<in> set calls) \<and>
     (\<forall>r \<in> set (confirmed (fan_coord f)). (r, c) \<in> set calls)"

definition fan_ok :: "'r list \<Rightarrow> nat \<Rightarrow> ('k, 'v, 'm, 'b, 'r) repl_sys \<Rightarrow> nat \<Rightarrow> 'r fan \<Rightarrow> bool" where
  "fan_ok reps q s c f \<longleftrightarrow>
     applied s \<noteq> [] \<and> last (applied s) = c \<and>
     (if fan_aborted f then r_gone s else \<not> r_gone s \<and> r_order s = Some c \<and> r_worker s = Some c) \<and>
     r_sent s c = replies (fan_coord f) \<and> r_confirmed s c = confirmed (fan_coord f) \<and>
     coordinator_ok reps q f \<and> calls_logged (received s) c f"

fun phase_ok :: "('k, 'v, 'm, 'b, 'r) repl_sys \<Rightarrow> nat \<Rightarrow> ('k, 'v) call_phase \<Rightarrow> bool" where
  "phase_ok s c (Queued rop) \<longleftrightarrow> c \<notin> set (applied s) \<and> \<not> r_gone s"
| "phase_ok s c (Ordered rop) \<longleftrightarrow> c \<notin> set (applied s) \<and> \<not> r_gone s \<and> r_order s = Some c"
| "phase_ok s c (Waiting old) \<longleftrightarrow> c \<in> set (applied s) \<and> \<not> r_gone s"
| "phase_ok s c (Answered r) \<longleftrightarrow> (\<forall>old. r = Inr old \<longrightarrow> Inr () \<in> set (r_sent s c))"
| "phase_ok s c Abandoned \<longleftrightarrow> True"

definition answers_ok :: "'r list \<Rightarrow> nat \<Rightarrow> ('k, 'v, 'm, 'b, 'r) repl_sys \<Rightarrow> nat \<Rightarrow> bool" where
  "answers_ok reps q s c \<longleftrightarrow>
     mset (r_confirmed s c) \<subseteq># mset reps \<and> (\<forall>r \<in> set (r_confirmed s c). (r, c) \<in> set (received s)) \<and>
     (Inr () \<in> set (r_sent s c) \<longrightarrow> q \<le> Suc (length (r_confirmed s c))) \<and>
     (c \<notin> set (applied s) \<longrightarrow> r_sent s c = [] \<and> r_confirmed s c = [] \<and> (\<forall>r. (r, c) \<notin> set (received s)))"

text \<open>A held mutex has a holder: a caller about to write, or a running coordinator.\<close>

definition holder_ok :: "('k, 'v, 'm, 'b, 'r) repl_sys \<Rightarrow> bool" where
  "holder_ok s \<longleftrightarrow>
     (\<forall>c. r_order s = Some c \<longrightarrow> (\<exists>rop. phase_of c s = Some (Ordered rop)) \<or> (\<exists>f. r_fans s c = Some f \<and> \<not> fan_aborted f))"

abbreviation seen_by :: "'r \<Rightarrow> ('r \<times> nat) list \<Rightarrow> nat list" where
  "seen_by r calls \<equiv> map snd (filter (\<lambda>(h, _). h = r) calls)"

definition repl_inv :: "('k, 'v, 'm, 'b) deps \<Rightarrow> 'r list \<Rightarrow> nat \<Rightarrow> ('k, 'v, 'm, 'b, 'r) repl_sys \<Rightarrow> bool" where
  "repl_inv D reps q s \<longleftrightarrow>
     wf_map D (local_map (r_map s)) \<and> remote_replicas (r_map s) = reps \<and> quorum_of s = q \<and>
     distinct (applied s) \<and> (\<forall>c \<in> set (applied s). c < length (r_callers s)) \<and>
     (\<forall>c p. phase_of c s = Some p \<longrightarrow> phase_ok s c p) \<and> (\<forall>c f. r_fans s c = Some f \<longrightarrow> fan_ok reps q s c f) \<and>
     (\<forall>c. answers_ok reps q s c) \<and> (\<forall>r. subseq (seen_by r (received s)) (applied s)) \<and> holder_ok s"

lemma repl_invD:
  assumes "repl_inv D reps q s"
  shows "wf_map D (local_map (r_map s))" "remote_replicas (r_map s) = reps" "quorum_of s = q" "distinct (applied s)"
    "c \<in> set (applied s) \<Longrightarrow> c < length (r_callers s)" "phase_of c s = Some p \<Longrightarrow> phase_ok s c p"
    "r_fans s c = Some f \<Longrightarrow> fan_ok reps q s c f" "answers_ok reps q s c" "subseq (seen_by r (received s)) (applied s)"
    "holder_ok s"
  using assms by (auto simp: repl_inv_def)

lemma repl_inv_init:
  assumes "wf_map D (local_map M)" "quorum_conf M = Some cfg"
  shows "repl_inv D (remote_replicas M) (write_quorum cfg) (repl_init M)"
  using assms by (simp add: repl_inv_def repl_init_def quorum_of_def phase_of_def answers_ok_def holder_ok_def)

section \<open>Callers keep it\<close>

lemma phase_of_set: "phase_of c' (set_phase c p s) = (if c' = c \<and> c < length (r_callers s) then Some p else phase_of c' s)"
  by (simp add: phase_of_def set_phase_def)

lemma phase_less: "phase_of c s = Some p \<Longrightarrow> c < length (r_callers s)"
  by (simp add: phase_of_def split: if_splits)

lemma set_phase_frame [simp]:
  "r_map (set_phase c p s) = r_map s" "r_order (set_phase c p s) = r_order s" "r_worker (set_phase c p s) = r_worker s"
  "r_fans (set_phase c p s) = r_fans s" "r_sent (set_phase c p s) = r_sent s" "r_confirmed (set_phase c p s) = r_confirmed s"
  "r_gone (set_phase c p s) = r_gone s" "applied (set_phase c p s) = applied s" "received (set_phase c p s) = received s"
  "length (r_callers (set_phase c p s)) = length (r_callers s)" "quorum_of (set_phase c p s) = quorum_of s"
  by (simp_all add: set_phase_def quorum_of_def)

lemma set_local_frame [simp]:
  "local_map (r_map (set_local m s)) = m" "remote_replicas (r_map (set_local m s)) = remote_replicas (r_map s)"
  "quorum_of (set_local m s) = quorum_of s" "r_callers (set_local m s) = r_callers s" "r_order (set_local m s) = r_order s"
  "r_worker (set_local m s) = r_worker s" "r_fans (set_local m s) = r_fans s" "r_sent (set_local m s) = r_sent s"
  "r_confirmed (set_local m s) = r_confirmed s" "r_gone (set_local m s) = r_gone s" "applied (set_local m s) = applied s"
  "received (set_local m s) = received s" "phase_of c (set_local m s) = phase_of c s"
  by (simp_all add: set_local_def quorum_of_def phase_of_def)

lemma phase_ok_cong:
  assumes "applied s' = applied s" "r_gone s' = r_gone s" "r_order s' = r_order s" "r_sent s' c = r_sent s c"
  shows "phase_ok s' c p = phase_ok s c p"
  using assms by (cases p) auto

lemma inv_set_phase:
  assumes "repl_inv D reps q s" "phase_of c s = Some p0" "phase_ok s c p" "\<And>rop. p0 \<noteq> Ordered rop"
  shows "repl_inv D reps q (set_phase c p s)"
proof -
  have "holder_ok (set_phase c p s)"
    using repl_invD(10)[OF assms(1)] assms(2,4) by (fastforce simp: holder_ok_def phase_of_set)
  moreover have "phase_ok (set_phase c p s) c' p' = phase_ok s c' p'" for c' p' by (rule phase_ok_cong) simp_all
  moreover have "fan_ok reps q (set_phase c p s) c' f = fan_ok reps q s c' f" for c' f by (simp add: fan_ok_def)
  moreover have "answers_ok reps q (set_phase c p s) c' = answers_ok reps q s c'" for c' by (simp add: answers_ok_def)
  ultimately show ?thesis using assms by (auto simp: repl_inv_def phase_of_set split: if_splits)
qed

lemma inv_set_local:
  assumes "repl_inv D reps q s" "wf_map D m"
  shows "repl_inv D reps q (set_local m s)"
proof -
  have "phase_ok (set_local m s) c' p' = phase_ok s c' p'" for c' p' by (rule phase_ok_cong) simp_all
  moreover have "fan_ok reps q (set_local m s) c' f = fan_ok reps q s c' f" for c' f by (simp add: fan_ok_def)
  moreover have "answers_ok reps q (set_local m s) c' = answers_ok reps q s c'" for c' by (simp add: answers_ok_def)
  moreover have "holder_ok (set_local m s) = holder_ok s" by (simp add: holder_ok_def)
  ultimately show ?thesis using assms by (auto simp: repl_inv_def)
qed

text \<open>While a caller holds or waits for the mutex on a free lock, no coordinator exists.\<close>

lemma no_fans:
  assumes "repl_inv D reps q s" "phase_of c s = Some p0" "p0 = Queued rop \<and> r_order s = None \<or> p0 = Ordered rop"
  shows "r_fans s c' = None"
proof (rule ccontr)
  assume "r_fans s c' \<noteq> None"
  then obtain f where f: "r_fans s c' = Some f" by auto
  note o = repl_invD(7)[OF assms(1) f] and p = repl_invD(6)[OF assms(1,2)]
  have "\<not> r_gone s" using assms(3) p by auto
  then have "r_order s = Some c'" "c' \<in> set (applied s)" using o by (auto simp: fan_ok_def split: if_splits)
  then show False using assms(3) p by auto
qed

lemma inv_acquire:
  assumes "repl_inv D reps q s" "acquire_order c s = Some s'"
  shows "repl_inv D reps q s'"
proof -
  obtain rop where p: "phase_of c s = Some (Queued rop)" and free: "r_order s = None"
    and s': "s' = (set_phase c (Ordered rop) s)\<lparr>r_order := Some c\<rparr>"
    using assms(2) by (auto simp: acquire_order_def split: option.splits call_phase.splits if_splits)
  have nf: "r_fans s c' = None" for c' using no_fans[OF assms(1) p] free by blast
  have q: "phase_ok s c (Queued rop)" by (rule repl_invD(6)[OF assms(1) p])
  have other: "phase_ok s' c' p'" if "phase_of c' s = Some p'" for c' p'
    using repl_invD(6)[OF assms(1) that] free by (cases p') (auto simp: s')
  have "phase_ok s' c (Ordered rop)" using q by (simp add: s')
  moreover have "holder_ok s'" using phase_of_set[of c c "Ordered rop" s] phase_less[OF p] by (simp add: holder_ok_def s' phase_of_def)
  ultimately show ?thesis using assms(1) other nf p
    by (auto simp: repl_inv_def s' phase_of_set answers_ok_def quorum_of_def phase_of_def set_phase_def nth_list_update split: if_splits)
qed

lemma local_apply_wf:
  assumes "starshard_deps D" "wf_map D m" "local_apply D rop m = Some (old, m')"
  shows "wf_map D m'"
proof (cases rop)
  case (RepInsert k v)
  then show ?thesis using assms(3) starshard_deps.async_insert_post[OF assms(1,2), of k v] op_postD(1) by auto
next
  case (RepRemove k)
  then show ?thesis using assms(3) starshard_deps.async_remove_post[OF assms(1,2), of k] op_postD(1) by auto
next
  case RepClear
  then show ?thesis using assms(3) starshard_deps.async_clear_post[OF assms(1,2)] op_postD(1) by auto
qed

lemma local_dropped_wf:
  assumes "starshard_deps D" "wf_map D m" "local_dropped D rop pt m = Some m'"
  shows "wf_map D m'"
proof (cases rop)
  case (RepInsert k v)
  then show ?thesis using assms(3) starshard_deps.insert_dropped_ok[OF assms(1,2), of k v pt] by auto
next
  case (RepRemove k)
  then show ?thesis using assms(3) starshard_deps.remove_dropped_ok[OF assms(1,2), of k pt] by auto
next
  case RepClear
  then show ?thesis using assms(3) by simp
qed

text \<open>A call that writes locally becomes the last applied one.\<close>

lemma answers_applied:
  assumes "answers_ok reps q s c'" "applied s' = applied s @ xs" "r_sent s' = r_sent s" "r_confirmed s' = r_confirmed s" "received s' = received s"
  shows "answers_ok reps q s' c'"
  using assms by (auto simp: answers_ok_def)

lemma phase_applied:
  assumes "phase_ok s c' p" "applied s' = applied s @ xs" "c' \<notin> set xs" "r_gone s' = r_gone s" "r_sent s' = r_sent s"
    "\<And>rop. p = Ordered rop \<Longrightarrow> r_order s' = Some c'"
  shows "phase_ok s' c' p"
  using assms by (cases p) auto

lemma other_ordered:
  assumes "repl_inv D reps q s" "phase_of c s = Some (Ordered rop)" "phase_of c' s = Some (Ordered rop')"
  shows "c' = c"
  using repl_invD(6)[OF assms(1,2)] repl_invD(6)[OF assms(1,3)] by simp

lemma phase_of_cong: "r_callers s = r_callers t \<Longrightarrow> phase_of c s = phase_of c t"
  by (simp add: phase_of_def)

lemma quorum_of_cong: "quorum_conf (r_map s) = quorum_conf (r_map t) \<Longrightarrow> quorum_of s = quorum_of t"
  by (simp add: quorum_of_def)

lemma inv_drop_local:
  assumes D: "starshard_deps D" and inv: "repl_inv D reps q s" and st: "drop_local D c pt p s = Some s'"
    and p: "p = Abandoned \<or> p = Answered (Inl e)"
  shows "repl_inv D reps q s'"
proof -
  obtain rop m where o: "phase_of c s = Some (Ordered rop)" and m: "local_dropped D rop pt (local_map (r_map s)) = Some m"
    and s': "s' = (set_phase c p (set_local m s))\<lparr>r_order := None, applied := applied s @ (if pt = AwaitMaintenance then [c] else [])\<rparr>"
    using st by (auto simp: drop_local_def split: option.splits call_phase.splits bind_splits)
  let ?xs = "if pt = AwaitMaintenance then [c] else []"
  note O = repl_invD(6)[OF inv o]
  have wf: "wf_map D m" using local_dropped_wf[OF D repl_invD(1)[OF inv] m] .
  have s1: "applied s' = applied s @ ?xs" "r_gone s' = r_gone s" "r_sent s' = r_sent s" "r_confirmed s' = r_confirmed s"
    "received s' = received s" "r_fans s' = r_fans s" "length (r_callers s') = length (r_callers s)" "local_map (r_map s') = m"
    "remote_replicas (r_map s') = remote_replicas (r_map s)"
    by (simp_all add: s')
  have q': "quorum_of s' = quorum_of s" by (rule quorum_of_cong) (simp add: s' set_local_def)
  have ph: "phase_of c' s' = (if c' = c then Some p else phase_of c' s)" for c'
    using phase_of_set[of c' c p "set_local m s"] phase_less[OF o] phase_of_cong[of s' "set_phase c p (set_local m s)" c']
    by (simp add: s')
  have "phase_ok s' c' p'" if "phase_of c' s' = Some p'" for c' p'
  proof (cases "c' = c")
    case True
    then show ?thesis using that p by (auto simp: ph)
  next
    case False
    then have p': "phase_of c' s = Some p'" using that by (simp add: ph)
    show ?thesis
      by (rule phase_applied[OF repl_invD(6)[OF inv p'] s1(1) _ s1(2,3)]) (use False other_ordered[OF inv o] p' in auto)
  qed
  moreover have "answers_ok reps q s' c'" for c' using answers_applied[OF repl_invD(8)[OF inv] s1(1,3,4,5)] .
  moreover have "subseq (seen_by r (received s')) (applied s')" for r
    using repl_invD(9)[OF inv, of r] by (simp add: s1 subseq_rev_drop_many)
  moreover have "r_fans s' c' = None" for c' using no_fans[OF inv o] s1(6) by simp
  moreover have "holder_ok s'" by (simp add: holder_ok_def s')
  ultimately show ?thesis
    using wf O repl_invD(2-5)[OF inv] phase_less[OF o] by (auto simp: repl_inv_def s1 q')
qed

lemma inv_commit:
  assumes D: "starshard_deps D" and inv: "repl_inv D reps q s" and st: "commit_local D c s = Some s'"
  shows "repl_inv D reps q s'"
proof -
  obtain rop old m where o: "phase_of c s = Some (Ordered rop)" and m: "local_apply D rop (local_map (r_map s)) = Some (old, m)"
    and s': "s' = (start_worker c (fan_new (remote_replicas (r_map s))) (set_phase c (Waiting old) (set_local m s)))\<lparr>applied := applied s @ [c]\<rparr>"
    using st by (auto simp: commit_local_def split: option.splits call_phase.splits bind_splits)
  note O = repl_invD(6)[OF inv o]
  have wf: "wf_map D m" using local_apply_wf[OF D repl_invD(1)[OF inv] m] .
  have s1: "applied s' = applied s @ [c]" "r_gone s' = r_gone s" "r_sent s' = r_sent s" "r_confirmed s' = r_confirmed s"
    "received s' = received s" "r_fans s' = (r_fans s)(c \<mapsto> fan_new (remote_replicas (r_map s)))" "r_worker s' = Some c"
    "r_order s' = r_order s" "length (r_callers s') = length (r_callers s)" "local_map (r_map s') = m"
    "remote_replicas (r_map s') = remote_replicas (r_map s)"
    by (simp_all add: s' start_worker_def)
  have q': "quorum_of s' = quorum_of s" by (rule quorum_of_cong) (simp add: s' start_worker_def set_local_def)
  have ph: "phase_of c' s' = (if c' = c then Some (Waiting old) else phase_of c' s)" for c'
    using phase_of_set[of c' c "Waiting old" "set_local m s"] phase_less[OF o]
      phase_of_cong[of s' "set_phase c (Waiting old) (set_local m s)" c']
    by (simp add: s' start_worker_def)
  have "phase_ok s' c' p'" if "phase_of c' s' = Some p'" for c' p'
  proof (cases "c' = c")
    case True
    then show ?thesis using that O by (auto simp: ph s1)
  next
    case False
    then have p': "phase_of c' s = Some p'" using that by (simp add: ph)
    show ?thesis
      by (rule phase_applied[OF repl_invD(6)[OF inv p'] s1(1) _ s1(2,3)]) (use False other_ordered[OF inv o] p' in auto)
  qed
  moreover have "answers_ok reps q s' c'" for c' using answers_applied[OF repl_invD(8)[OF inv] s1(1,3,4,5)] .
  moreover have "subseq (seen_by r (received s')) (applied s')" for r
    using repl_invD(9)[OF inv, of r] by (simp add: s1 subseq_rev_drop_many)
  moreover have "fan_ok reps q s' c' f" if "r_fans s' c' = Some f" for c' f
  proof -
    have "c' = c" "f = fan_new reps" using that no_fans[OF inv o] repl_invD(2)[OF inv] by (auto simp: s1 split: if_splits)
    then show ?thesis using O repl_invD(8)[OF inv, of c]
      by (auto simp: fan_ok_def s1 fan_new_def coordinator_ok_def calls_logged_def answers_ok_def)
  qed
  moreover have "holder_ok s'" using O by (auto simp: holder_ok_def s1(6,8) fan_new_def)
  ultimately show ?thesis
    using wf O repl_invD(2-5)[OF inv] phase_less[OF o] by (auto simp: repl_inv_def s1(1,9,10,11) q')
qed


section \<open>Coordinators keep it\<close>

lemma coord_inv_finished:
  assumes "coord_inv reps q s" "pending_tasks s = []" "sender_open s"
  shows "coord_inv reps q (acknowledge (Inl QuorumFailed) s)"
  using assms by (auto simp: coord_inv_def acknowledge_def)

lemma coord_inv_reply:
  assumes "coord_inv reps q s" "Inr () \<in> set (replies s)"
  shows "q \<le> Suc (length (confirmed s))"
  using assms by (auto simp: coord_inv_def split: if_splits)

lemma coordinator_reply:
  assumes "coordinator_ok reps q f" "Inr () \<in> set (replies (fan_coord f))"
  shows "q \<le> Suc (length (confirmed (fan_coord f)))"
proof (cases "fan_started f")
  case True
  then have "coord_inv reps q (if fan_draining f then (fan_coord f)\<lparr>pending_tasks := []\<rparr> else fan_coord f)"
    using assms(1) by (simp add: coordinator_ok_def)
  from coord_inv_reply[OF this] show ?thesis using assms(2) by (cases "fan_draining f") simp_all
next
  case False
  then have "replies ((fan_coord f)\<lparr>pending_tasks := []\<rparr>) = []" using assms(1) by (simp add: coordinator_ok_def)
  then show ?thesis using assms(2) by simp
qed

lemma subseq_without_last: "subseq xs (ys @ [c]) \<Longrightarrow> c \<notin> set xs \<Longrightarrow> subseq xs ys"
proof -
  assume emb: "subseq xs (ys @ [c])" and notin: "c \<notin> set xs"
  obtain us vs where split: "xs = us @ vs" "subseq us ys" "subseq vs [c]" using emb by (auto simp: subseq_append_iff)
  have "vs = []" using split notin by (cases vs) (auto split: if_splits)
  then show ?thesis using split by simp
qed

text \<open>One step of a coordinator: its replies only grow, and one call may be logged.\<close>

lemma inv_set_fan:
  assumes inv: "repl_inv D reps q s" and f: "r_fans s c = Some f"
    and ok: "coordinator_ok reps q f'" "calls_logged (received s @ xs) c f'" "fan_aborted f' = fan_aborted f"
      "set (replies (fan_coord f)) \<subseteq> set (replies (fan_coord f'))"
    and xs: "xs = [] \<or> (\<exists>r. xs = [(r, c)] \<and> (r, c) \<notin> set (received s))"
  shows "repl_inv D reps q ((set_fan c f' s)\<lparr>received := received s @ xs\<rparr>)" (is "repl_inv D reps q ?s'")
proof -
  note F = repl_invD(7)[OF inv f]
  have c: "applied s \<noteq> []" "last (applied s) = c" "c \<in> set (applied s)" using F by (auto simp: fan_ok_def)
  have only: "c' = c" if "r_fans s c' = Some g" for c' g using repl_invD(7)[OF inv that] c(2) by (simp add: fan_ok_def)
  have ph: "phase_of c' ?s' = phase_of c' s" for c' by (rule phase_of_cong) (simp add: set_fan_def)
  have q: "quorum_of ?s' = quorum_of s" by (rule quorum_of_cong) (simp add: set_fan_def)
  have sent: "set (r_sent s c') \<subseteq> set (r_sent ?s' c')" for c' using F ok(4) by (auto simp: set_fan_def fan_ok_def)
  have "phase_ok ?s' c' p" if "phase_of c' ?s' = Some p" for c' p
    using repl_invD(6)[OF inv, of c' p] that sent[of c'] unfolding ph by (cases p) (auto simp: set_fan_def)
  moreover have "fan_ok reps q ?s' c' g" if "r_fans ?s' c' = Some g" for c' g
  proof -
    have "c' = c" "g = f'" using that only by (auto simp: set_fan_def split: if_splits)
    then show ?thesis using F ok by (auto simp: fan_ok_def set_fan_def)
  qed
  moreover have "answers_ok reps q ?s' c'" for c'
  proof (cases "c' = c")
    case True
    have "mset (confirmed (fan_coord f')) \<subseteq># mset reps"
      using ok(1) by (auto simp: coordinator_ok_def intro: subset_mset.order_trans[OF mset_subset_eq_add_left])
    then show ?thesis using True c(3) ok(2) coordinator_reply[OF ok(1)] by (auto simp: answers_ok_def set_fan_def calls_logged_def)
  next
    case False
    then show ?thesis using repl_invD(8)[OF inv, of c'] xs by (auto simp: answers_ok_def set_fan_def)
  qed
  moreover have "subseq (seen_by r (received s @ xs)) (applied s)" for r
  proof (cases "xs = [(r, c)]")
    case True
    have notin: "c \<notin> set (seen_by r (received s))" using xs True by auto
    have app: "butlast (applied s) @ [c] = applied s" using append_butlast_last_id[OF c(1)] c(2) by simp
    have "subseq (seen_by r (received s)) (butlast (applied s) @ [c])" unfolding app by (rule repl_invD(9)[OF inv])
    then have "subseq (seen_by r (received s)) (butlast (applied s))"
      using notin by (rule subseq_without_last)
    then have "subseq (seen_by r (received s) @ [c]) (butlast (applied s) @ [c])" by (rule list_emb_append_mono) simp
    then have "subseq (seen_by r (received s) @ [c]) (applied s)" unfolding app .
    then show ?thesis using True by simp
  next
    case False
    then have "seen_by r (received s @ xs) = seen_by r (received s)" using xs by (auto split: if_splits)
    then show ?thesis using repl_invD(9)[OF inv, of r] by simp
  qed
  moreover have "holder_ok ?s'"
  proof -
    have "\<exists>g. r_fans ?s' c' = Some g \<and> \<not> fan_aborted g" if "r_fans s c' = Some g" "\<not> fan_aborted g" for c' g
      using that f ok(3) by (cases "c' = c") (simp_all add: set_fan_def)
    moreover have "r_order ?s' = r_order s" by (simp add: set_fan_def)
    ultimately show ?thesis using repl_invD(10)[OF inv] unfolding holder_ok_def ph by metis
  qed
  ultimately show ?thesis using repl_invD(1-5)[OF inv] q by (auto simp: repl_inv_def set_fan_def)
qed


lemma set_remove_nth: "set (remove_nth i xs) \<subseteq> set xs"
  by (auto simp: remove_nth_def dest: in_set_takeD in_set_dropD)

lemma fan_fields: "fan_ok reps q s c f \<Longrightarrow> coordinator_ok reps q f \<and> calls_logged (received s) c f"
  by (simp add: fan_ok_def)

lemma inv_set_fan_quiet:
  assumes "repl_inv D reps q s" "r_fans s c = Some f" "coordinator_ok reps q f'" "calls_logged (received s) c f'"
    "fan_aborted f' = fan_aborted f" "set (replies (fan_coord f)) \<subseteq> set (replies (fan_coord f'))"
  shows "repl_inv D reps q (set_fan c f' s)"
proof -
  have "(set_fan c f' s)\<lparr>received := received s @ []\<rparr> = set_fan c f' s" by (simp add: set_fan_def)
  then show ?thesis using inv_set_fan[OF assms(1-3) _ assms(5,6), of "[]"] assms(4) by simp
qed

lemma inv_fan_begin:
  assumes inv: "repl_inv D reps q s" and st: "fan_begin c s = Some s'" and q: "0 < q"
  shows "repl_inv D reps q s'"
proof -
  obtain f where f: "r_fans s c = Some f" and ns: "\<not> fan_started f"
    and s': "s' = set_fan c (f\<lparr>fan_started := True,
      fan_coord := (if acknowledged (fan_coord f) \<ge> q then acknowledge (Inr ()) (fan_coord f) else fan_coord f)\<rparr>) s"
    using st repl_invD(3)[OF inv] by (auto simp: fan_begin_def split: option.splits if_splits)
  note F = fan_fields[OF repl_invD(7)[OF inv f]]
  obtain ps where co: "fan_coord f = \<lparr>acknowledged = 1, pending_tasks = ps, sender_open = True, replies = [], confirmed = []\<rparr>"
    using F ns by (cases "fan_coord f") (auto simp: coordinator_ok_def)
  have "mset ps \<subseteq># mset reps" using F co by (simp add: coordinator_ok_def)
  then obtain rest where "mset reps = mset ps + rest" by (auto simp: mset_subset_eq_exists_conv)
  then show ?thesis unfolding s' using F ns q
    by (intro inv_set_fan_quiet[OF inv f]) (auto simp: coordinator_ok_def coord_inv_def co acknowledge_def calls_logged_def)
qed

lemma inv_task_call:
  assumes inv: "repl_inv D reps q s" and st: "task_call c r s = Some s'"
  shows "repl_inv D reps q s'"
proof -
  obtain f where f: "r_fans s c = Some f" and r: "r \<in> set (pending_tasks (fan_coord f))" "fan_task f r = Unpolled"
    and s': "s' = (set_fan c (f\<lparr>fan_task := (fan_task f)(r := Calling)\<rparr>) s)\<lparr>received := received s @ [(r, c)]\<rparr>"
    using st by (auto simp: task_call_def split: option.splits if_splits)
  note F = fan_fields[OF repl_invD(7)[OF inv f]]
  have "(r, c) \<notin> set (received s)" using F r by (auto simp: calls_logged_def)
  then show ?thesis unfolding s' using F by (intro inv_set_fan[OF inv f]) (auto simp: coordinator_ok_def calls_logged_def)
qed

lemma inv_task_end:
  assumes inv: "repl_inv D reps q s" and st: "task_end c r res s = Some s'"
  shows "repl_inv D reps q s'"
proof -
  obtain f where f: "r_fans s c = Some f" and r: "fan_task f r = Calling"
    and s': "s' = set_fan c (f\<lparr>fan_task := (fan_task f)(r := Ended res)\<rparr>) s"
    using st by (auto simp: task_end_def split: option.splits if_splits)
  note F = fan_fields[OF repl_invD(7)[OF inv f]]
  have "(r, c) \<in> set (received s)" using F r by (auto simp: calls_logged_def)
  then show ?thesis unfolding s' using F by (intro inv_set_fan_quiet[OF inv f]) (auto simp: coordinator_ok_def calls_logged_def)
qed

lemma inv_fan_join:
  assumes inv: "repl_inv D reps q s" and st: "fan_join c i s = Some s'"
  shows "repl_inv D reps q s'"
proof -
  obtain f res where f: "r_fans s c = Some f" and go: "fan_started f" "\<not> fan_draining f" "i < length (pending_tasks (fan_coord f))"
    and res: "fan_task f (pending_tasks (fan_coord f) ! i) = Ended res"
    and s': "s' = set_fan c (f\<lparr>fan_coord := after_join q (settle_join i res (fan_coord f))\<rparr>) s"
    using st repl_invD(3)[OF inv] by (auto simp: fan_join_def split: option.splits if_splits task_status.splits)
  let ?co = "fan_coord f"
  let ?r = "pending_tasks ?co ! i" and ?co' = "after_join q (settle_join i res ?co)"
  note F = fan_fields[OF repl_invD(7)[OF inv f]]
  have i: "i mod length (pending_tasks ?co) = i" using go(3) by simp
  have "coord_inv reps q ?co" using F go by (simp add: coordinator_ok_def)
  then have co': "coord_inv reps q ?co'" using go(3) by (intro coord_inv_join) auto
  have pend: "set (pending_tasks ?co') \<subseteq> set (pending_tasks ?co)"
    using set_remove_nth[of i "pending_tasks ?co"] by (simp add: i)
  have conf: "set (confirmed ?co') \<subseteq> insert ?r (set (confirmed ?co))"
    using i by (auto simp: after_join_def acknowledge_def settle_join_def Let_def)
  have repl: "set (replies ?co) \<subseteq> set (replies ?co')"
    by (auto simp: after_join_def acknowledge_def settle_join_def Let_def)
  have "mset (confirmed ?co') + mset (pending_tasks ?co') \<subseteq># mset reps"
    using co' unfolding coord_inv_def by (metis mset_subset_eq_add_left)
  then have "coordinator_ok reps q (f\<lparr>fan_coord := ?co'\<rparr>)" using co' go by (simp add: coordinator_ok_def)
  moreover have "calls_logged (received s) c (f\<lparr>fan_coord := ?co'\<rparr>)"
  proof -
    have "(?r, c) \<in> set (received s)" using F res by (simp add: calls_logged_def)
    then have "\<forall>r \<in> set (confirmed ?co'). (r, c) \<in> set (received s)" using F conf unfolding calls_logged_def by blast
    moreover have "\<forall>r \<in> set (pending_tasks ?co'). fan_task f r = Unpolled \<longrightarrow> (r, c) \<notin> set (received s)"
      using F pend unfolding calls_logged_def by blast
    ultimately show ?thesis using F by (simp add: calls_logged_def)
  qed
  ultimately show ?thesis unfolding s' using repl by (intro inv_set_fan_quiet[OF inv f]) simp_all
qed


lemma inv_fan_elapse:
  assumes inv: "repl_inv D reps q s" and st: "fan_elapse c s = Some s'"
  shows "repl_inv D reps q s'"
proof -
  obtain f where f: "r_fans s c = Some f" and go: "fan_started f" "\<not> fan_draining f"
    and s': "s' = set_fan c (f\<lparr>fan_coord := acknowledge (Inl Timeout) (fan_coord f), fan_draining := True\<rparr>) s"
    using st by (auto simp: fan_elapse_def split: option.splits if_splits)
  note F = fan_fields[OF repl_invD(7)[OF inv f]]
  let ?co' = "acknowledge (Inl Timeout) (fan_coord f)"
  let ?f' = "f\<lparr>fan_coord := ?co', fan_draining := True\<rparr>"
  have "coord_inv reps q (?co'\<lparr>pending_tasks := []\<rparr>)" using F go by (intro coord_inv_elapsed) (simp add: coordinator_ok_def)
  moreover have c: "confirmed ?co' = confirmed (fan_coord f)" and r: "set (replies (fan_coord f)) \<subseteq> set (replies ?co')"
    by (auto simp: acknowledge_def)
  ultimately have "coordinator_ok reps q ?f'" using F go(1) by (simp add: coordinator_ok_def)
  moreover have "calls_logged (received s) c ?f'" using F by (simp add: calls_logged_def c)
  ultimately show ?thesis unfolding s' using r by (intro inv_set_fan_quiet[OF inv f]) simp_all
qed

lemma coord_inv_fewer:
  assumes "coord_inv reps q co" "i < length (pending_tasks co)"
  shows "coord_inv reps q (co\<lparr>pending_tasks := remove_nth i (pending_tasks co)\<rparr>)"
proof -
  obtain rest where "mset reps = mset (confirmed co) + mset (pending_tasks co) + rest" using assms(1) by (auto simp: coord_inv_def)
  then have m: "\<exists>rest. mset reps = mset (confirmed co) + mset (remove_nth i (pending_tasks co)) + rest"
    unfolding mset_remove_nth[OF assms(2)] by (intro exI[of _ "add_mset (pending_tasks co ! i) rest"]) simp
  have l: "length (remove_nth i (pending_tasks co)) \<le> length (pending_tasks co)" using assms(2) by simp
  have fail: "acknowledged co + length (remove_nth i (pending_tasks co)) < q" if "acknowledged co + length (pending_tasks co) < q"
    using that l by linarith
  show ?thesis
  proof (cases "sender_open co")
    case True
    then show ?thesis using assms(1) m by (simp add: coord_inv_def)
  next
    case False
    then obtain r where "replies co = [r]" "if r = Inr () then q \<le> acknowledged co else acknowledged co + length (pending_tasks co) < q"
      using assms(1) by (auto simp: coord_inv_def)
    then show ?thesis using assms(1) m fail False by (cases "r = Inr ()") (simp_all add: coord_inv_def)
  qed
qed

lemma inv_task_shutdown:
  assumes inv: "repl_inv D reps q s" and st: "task_shutdown c i s = Some s'"
  shows "repl_inv D reps q s'"
proof -
  obtain f where f: "r_fans s c = Some f" and i: "i < length (pending_tasks (fan_coord f))"
    and s': "s' = set_fan c (f\<lparr>fan_coord := (fan_coord f)\<lparr>pending_tasks := remove_nth i (pending_tasks (fan_coord f))\<rparr>\<rparr>) s"
    using st by (auto simp: task_shutdown_def split: option.splits if_splits)
  let ?co' = "(fan_coord f)\<lparr>pending_tasks := remove_nth i (pending_tasks (fan_coord f))\<rparr>"
  note F = fan_fields[OF repl_invD(7)[OF inv f]]
  have "mset (remove_nth i (pending_tasks (fan_coord f))) \<subseteq># mset (pending_tasks (fan_coord f))"
    using mset_remove_nth[OF i] by simp
  then have m: "mset (confirmed ?co') + mset (pending_tasks ?co') \<subseteq># mset reps"
    using F by (auto simp: coordinator_ok_def intro: subset_mset.order_trans[OF subset_mset.add_left_mono])
  have "coordinator_ok reps q (f\<lparr>fan_coord := ?co'\<rparr>)"
    using F m coord_inv_fewer[OF _ i] by (auto simp: coordinator_ok_def)
  moreover have "calls_logged (received s) c (f\<lparr>fan_coord := ?co'\<rparr>)"
    using F set_remove_nth[of i "pending_tasks (fan_coord f)"] by (auto simp: calls_logged_def)
  ultimately show ?thesis unfolding s' by (intro inv_set_fan_quiet[OF inv f]) simp_all
qed

text \<open>A coordinator that ends releases the mutex; it was the only one.\<close>

lemma inv_fan_gone:
  assumes inv: "repl_inv D reps q s" and f: "r_fans s c = Some f" "\<not> fan_aborted f"
  shows "repl_inv D reps q (s\<lparr>r_fans := (r_fans s)(c := None), r_order := None\<rparr>)" (is "repl_inv D reps q ?s'")
proof -
  note F = repl_invD(7)[OF inv f(1)]
  have last: "last (applied s) = c" "c \<in> set (applied s)" "r_order s = Some c" using F f(2) by (auto simp: fan_ok_def)
  have ph: "phase_of c' ?s' = phase_of c' s" for c' by (rule phase_of_cong) simp
  have "phase_ok ?s' c' p" if "phase_of c' ?s' = Some p" for c' p
    using repl_invD(6)[OF inv, of c' p] that last unfolding ph by (cases p) auto
  moreover have "r_fans ?s' c' = None" for c'
    using repl_invD(7)[OF inv, of c'] last(1) by (cases "r_fans s c'") (auto simp: fan_ok_def)
  moreover have "answers_ok reps q ?s' c'" for c' using repl_invD(8)[OF inv, of c'] by (simp add: answers_ok_def)
  moreover have "quorum_of ?s' = quorum_of s" by (rule quorum_of_cong) simp
  moreover have "holder_ok ?s'" by (simp add: holder_ok_def)
  ultimately show ?thesis using inv by (auto simp: repl_inv_def)
qed

lemma inv_clones_panic:
  assumes "repl_inv D reps q s" "clones_panic c s = Some s'"
  shows "repl_inv D reps q s'"
  using assms inv_fan_gone[OF assms(1), of c] by (auto simp: clones_panic_def split: option.splits if_splits)

lemma inv_fan_finish:
  assumes inv: "repl_inv D reps q s" and st: "fan_finish c s = Some s'"
  shows "repl_inv D reps q s'"
proof -
  obtain f where f: "r_fans s c = Some f" and go: "fan_started f" "\<not> fan_aborted f" "pending_tasks (fan_coord f) = []"
    and st': "fan_finish c s = Some s'"
    using st by (auto simp: fan_finish_def split: option.splits if_splits)
  define f' where "f' = (if sender_open (fan_coord f) then f\<lparr>fan_coord := acknowledge (Inl QuorumFailed) (fan_coord f)\<rparr> else f)"
  have s': "s' = (set_fan c f' s)\<lparr>r_fans := (r_fans (set_fan c f' s))(c := None), r_order := None\<rparr>"
    using st' f go by (simp add: fan_finish_def f'_def Let_def)
  note F = fan_fields[OF repl_invD(7)[OF inv f]]
  have "(fan_coord f)\<lparr>pending_tasks := []\<rparr> = fan_coord f" using go(3) by simp
  then have co: "coord_inv reps q (fan_coord f)" using F go(1) by (auto simp: coordinator_ok_def split: if_splits)
  have f': "pending_tasks (fan_coord f') = []" "confirmed (fan_coord f') = confirmed (fan_coord f)" "fan_started f'"
    "fan_aborted f' = fan_aborted f" "fan_task f' = fan_task f" "set (replies (fan_coord f)) \<subseteq> set (replies (fan_coord f'))"
    using go by (auto simp: f'_def acknowledge_def)
  have "coord_inv reps q (fan_coord f')" using co coord_inv_finished[OF co go(3)] by (simp add: f'_def)
  moreover have "(fan_coord f')\<lparr>pending_tasks := []\<rparr> = fan_coord f'" using f'(1) by simp
  ultimately have "coord_inv reps q (if fan_draining f' then (fan_coord f')\<lparr>pending_tasks := []\<rparr> else fan_coord f')" by metis
  moreover have "mset (confirmed (fan_coord f)) \<subseteq># mset reps" using F go(3) by (simp add: coordinator_ok_def)
  ultimately have "coordinator_ok reps q f'" using f'(1-3) unfolding coordinator_ok_def by simp
  moreover have "calls_logged (received s) c f'" using F f' go(3) unfolding calls_logged_def by simp
  ultimately have "repl_inv D reps q (set_fan c f' s)" using f'(4,6) by (intro inv_set_fan_quiet[OF inv f])
  then show ?thesis unfolding s' by (rule inv_fan_gone[where f = f']) (use go(2) f'(4) in \<open>simp_all add: set_fan_def\<close>)
qed


section \<open>Every event keeps it\<close>

lemma inv_invoke:
  assumes inv: "repl_inv D reps q s" and st: "invoke rop s = Some s'"
  shows "repl_inv D reps q s'"
proof -
  let ?n = "length (r_callers s)"
  have ng: "\<not> r_gone s" and s': "s' = s\<lparr>r_callers := r_callers s @ [Queued rop]\<rparr>"
    using st by (auto simp: invoke_def split: if_splits)
  have ph: "phase_of c s' = (if c = ?n then Some (Queued rop) else phase_of c s)" for c
    by (auto simp: phase_of_def s' nth_append less_Suc_eq)
  have new: "?n \<notin> set (applied s)" using repl_invD(5)[OF inv, of ?n] by auto
  have "phase_ok s' c p" if "phase_of c s' = Some p" for c p
  proof (cases "c = ?n")
    case True
    then have "p = Queued rop" using that by (simp add: ph)
    then show ?thesis using True new ng by (simp add: s')
  next
    case False
    then have "phase_of c s = Some p" using that by (simp add: ph)
    then show ?thesis using repl_invD(6)[OF inv] phase_ok_cong[of s' s c p] by (simp add: s')
  qed
  moreover have "fan_ok reps q s' c f = fan_ok reps q s c f" for c f by (simp add: fan_ok_def s')
  moreover have "answers_ok reps q s' c = answers_ok reps q s c" for c by (simp add: answers_ok_def s')
  moreover have "phase_of ?n s = None" by (simp add: phase_of_def)
  then have "holder_ok s'" using repl_invD(10)[OF inv] unfolding holder_ok_def ph by (auto simp: s')
  moreover have "quorum_of s' = quorum_of s" by (rule quorum_of_cong) (simp add: s')
  ultimately show ?thesis using inv by (auto simp: repl_inv_def s')
qed

lemma inv_last_drop:
  assumes inv: "repl_inv D reps q s" and st: "last_drop s = Some s'"
  shows "repl_inv D reps q s'"
proof -
  have ng: "\<not> r_gone s" and over: "list_all call_over (r_callers s)"
    using st by (auto simp: last_drop_def split: if_splits)
  have ph: "phase_of c s' = phase_of c s" for c
    by (rule phase_of_cong) (use st in \<open>auto simp: last_drop_def split: if_splits option.splits\<close>)
  have frame: "r_map s' = r_map s" "r_callers s' = r_callers s" "r_sent s' = r_sent s" "r_confirmed s' = r_confirmed s" "applied s' = applied s"
    "received s' = received s" "r_gone s'"
    using st by (auto simp: last_drop_def split: if_splits option.splits)
  have worker: "r_worker s = Some c \<and> \<not> fan_aborted f" if "r_fans s c = Some f" for c f
    using repl_invD(7)[OF inv that] ng by (auto simp: fan_ok_def split: if_splits)
  have "phase_ok s' c p" if "phase_of c s' = Some p" for c p
  proof -
    have p: "phase_of c s = Some p" using that ph by simp
    then have "call_over p" using over by (auto simp: phase_of_def list_all_length split: if_splits)
    then show ?thesis using repl_invD(6)[OF inv p] by (cases p) (auto simp: frame)
  qed
  moreover have "fan_ok reps q s' c g" if fan: "r_fans s' c = Some g" for c g
  proof -
    obtain f where f: "r_fans s c = Some f" "g = f\<lparr>fan_aborted := True\<rparr>"
    proof (cases "r_fans s c")
      case None
      then have "r_fans s' c = None" using st by (auto simp: last_drop_def split: if_splits option.splits)
      then show ?thesis using fan by simp
    next
      case (Some f)
      then have "r_worker s = Some c" using worker by blast
      then have "r_fans s' c = Some (f\<lparr>fan_aborted := True\<rparr>)" using st Some ng over by (simp add: last_drop_def) auto
      then show ?thesis using that Some fan by simp
    qed
    have "coordinator_ok reps q g = coordinator_ok reps q f" "calls_logged (received s) c g = calls_logged (received s) c f"
      by (simp_all add: f(2) coordinator_ok_def calls_logged_def)
    then show ?thesis using repl_invD(7)[OF inv f(1)] by (simp add: fan_ok_def frame f(2))
  qed
  moreover have "answers_ok reps q s' c = answers_ok reps q s c" for c by (simp add: answers_ok_def frame)
  moreover have "r_order s' = None"
  proof (rule ccontr)
    assume "r_order s' \<noteq> None"
    then obtain c where c: "r_order s = Some c" using st by (auto simp: last_drop_def split: if_splits option.splits)
    have "r_fans s c = None"
    proof (rule ccontr)
      assume "r_fans s c \<noteq> None"
      then obtain f where f: "r_fans s c = Some f" by auto
      then have "r_order s' = None" using st worker[OF f] ng over by (simp add: last_drop_def) auto
      then show False using \<open>r_order s' \<noteq> None\<close> by simp
    qed
    then obtain rop where "phase_of c s = Some (Ordered rop)" using repl_invD(10)[OF inv] c by (auto simp: holder_ok_def)
    then show False using over by (auto simp: phase_of_def list_all_length split: if_splits)
  qed
  moreover have "quorum_of s' = quorum_of s" by (rule quorum_of_cong) (simp add: frame)
  ultimately show ?thesis using inv by (auto simp: repl_inv_def frame holder_ok_def)
qed

lemma inv_receive:
  assumes "repl_inv D reps q s" "receive_answer c s = Some s'"
  shows "repl_inv D reps q s'"
  using assms inv_set_phase[OF assms(1), of c]
  by (auto simp: receive_answer_def split: option.splits call_phase.splits list.splits sum.splits if_splits)

lemma repl_step_inv:
  assumes D: "starshard_deps D" and inv: "repl_inv D reps q s" and st: "repl_step D e s = Some s'" and q: "0 < q"
  shows "repl_inv D reps q s'"
proof (cases e)
  case (OrderTimeout c)
  then show ?thesis using st inv_set_phase[OF inv, of c] by (auto simp: order_timeout_def split: option.splits call_phase.splits)
next
  case (Abandon c)
  then show ?thesis using st inv_set_phase[OF inv, of c] by (auto simp: abandon_call_def split: option.splits call_phase.splits)
next
  case (OtherWrite rop)
  then obtain old m where "local_apply D rop (local_map (r_map s)) = Some (old, m)" "s' = set_local m s"
    using st by (auto split: if_splits)
  then show ?thesis using inv_set_local[OF inv] local_apply_wf[OF D repl_invD(1)[OF inv]] by blast
qed (use st inv_invoke[OF inv] inv_acquire[OF inv] inv_drop_local[OF D inv] inv_commit[OF D inv] inv_receive[OF inv] inv_clones_panic[OF inv]
  inv_fan_begin[OF inv _ q] inv_task_call[OF inv] inv_task_end[OF inv] inv_fan_join[OF inv] inv_fan_elapse[OF inv] inv_task_shutdown[OF inv]
  inv_fan_finish[OF inv] inv_last_drop[OF inv] in \<open>auto\<close>)

lemma repl_run_inv:
  assumes "starshard_deps D" "repl_inv D reps q s" "repl_run D es s = Some s'" "0 < q"
  shows "repl_inv D reps q s'"
  using assms(2,3) unfolding repl_run_def
  by (induction es arbitrary: s) (auto simp: bind_eq_Some_conv dest: repl_step_inv[OF assms(1) _ _ assms(4)])


section \<open>No replica can block the others\<close>

text \<open>A coordinator reaches its end and releases the mutex by its own steps alone, whatever the replicas do.\<close>

definition own_steps :: "nat \<Rightarrow> ('k, 'v, 'r) repl_event set" where
  "own_steps c = {FanBegin c, Elapse c, Shutdown c 0, Finish c}"

definition releases :: "('k, 'v, 'm, 'b) deps \<Rightarrow> nat \<Rightarrow> ('k, 'v, 'm, 'b, 'r) repl_sys \<Rightarrow> bool" where
  "releases D c s \<longleftrightarrow> (\<exists>es s'. set es \<subseteq> own_steps c \<and> repl_run D es s = Some s' \<and> r_order s' = None)"

lemma releases_step:
  assumes "repl_step D e s = Some s1" "e \<in> own_steps c" "releases D c s1"
  shows "releases D c s"
proof -
  obtain es s' where "set es \<subseteq> own_steps c" "repl_run D es s1 = Some s'" "r_order s' = None" using assms(3) by (auto simp: releases_def)
  then show ?thesis using assms(1,2) unfolding releases_def
    by (intro exI[of _ "e # es"] exI[of _ s']) (simp add: repl_run_def)
qed

lemma releases_finish:
  assumes "r_fans s c = Some f" "fan_started f" "\<not> fan_aborted f" "pending_tasks (fan_coord f) = []"
  shows "releases D c s"
  using assms unfolding releases_def
  by (intro exI[of _ "[Finish c]"]) (simp add: repl_run_def own_steps_def fan_finish_def Let_def)

lemma set_fan_at: "r_fans (set_fan c f s) c = Some f"
  by (simp add: set_fan_def)

lemma releases_drain:
  assumes "r_fans s c = Some f" "fan_started f" "\<not> fan_aborted f" "fan_draining f"
  shows "releases D c s"
  using assms
proof (induction "length (pending_tasks (fan_coord f))" arbitrary: f s)
  case 0
  then show ?case using releases_finish by simp
next
  case (Suc n)
  let ?f = "f\<lparr>fan_coord := (fan_coord f)\<lparr>pending_tasks := remove_nth 0 (pending_tasks (fan_coord f))\<rparr>\<rparr>"
  have len: "0 < length (pending_tasks (fan_coord f))" using Suc.hyps(2) by linarith
  have st: "repl_step D (Shutdown c 0) s = Some (set_fan c ?f s)" using Suc.prems len by (simp add: task_shutdown_def)
  have "releases D c (set_fan c ?f s)"
    by (rule Suc.hyps(1)[of ?f]) (use Suc.hyps(2) Suc.prems len in \<open>simp_all add: set_fan_at\<close>)
  then show ?case using releases_step[OF st] by (simp add: own_steps_def)
qed

lemma releases_started:
  assumes "r_fans s c = Some f" "fan_started f" "\<not> fan_aborted f"
  shows "releases D c s"
proof (cases "fan_draining f \<or> pending_tasks (fan_coord f) = []")
  case True
  then show ?thesis using assms releases_drain releases_finish by blast
next
  case False
  let ?f = "f\<lparr>fan_coord := acknowledge (Inl Timeout) (fan_coord f), fan_draining := True\<rparr>"
  have st: "repl_step D (Elapse c) s = Some (set_fan c ?f s)" using assms False by (simp add: fan_elapse_def)
  have "releases D c (set_fan c ?f s)" by (rule releases_drain[of _ _ ?f]) (use assms in \<open>simp_all add: set_fan_at\<close>)
  then show ?thesis using releases_step[OF st] by (simp add: own_steps_def)
qed

lemma releases_fan:
  assumes "r_fans s c = Some f" "\<not> fan_aborted f"
  shows "releases D c s"
proof (cases "fan_started f")
  case True
  then show ?thesis using assms releases_started by blast
next
  case False
  let ?f = "f\<lparr>fan_started := True,
    fan_coord := (if acknowledged (fan_coord f) \<ge> quorum_of s then acknowledge (Inr ()) (fan_coord f) else fan_coord f)\<rparr>"
  have st: "repl_step D (FanBegin c) s = Some (set_fan c ?f s)" using assms False by (simp add: fan_begin_def)
  have "releases D c (set_fan c ?f s)" by (rule releases_started[of _ _ ?f]) (use assms in \<open>simp_all add: set_fan_at\<close>)
  then show ?thesis using releases_step[OF st] by (simp add: own_steps_def)
qed

section \<open>Properties\<close>

text \<open>
  C38: replicated writes are ordered. However callers, coordinators, replica calls, deadlines, cancellations and the
  drop of the last map interleave on a map built by \<open>try_with_replication\<close>: every replica is asked to perform
  the calls in the order in which they were applied locally, each at most once, so no two replicas can see them
  in different orders; all replica calls that are in progress belong to the write applied last, and its
  coordinator is the registered one and holds the mutex, or is aborted because the map is gone; a call
  answered \<open>Ok\<close> was confirmed by a write quorum of the primary and distinct replicas that performed it; a held mutex
  has a holder, and a coordinator can always release it by its own steps, even if no replica ever answers.
\<close>

theorem replication_ordered:
  assumes "starshard_deps D" "try_with_replication n reps cfg = Inr M" "repl_run D es (repl_init M) = Some s"
  shows "wf_map D (local_map (r_map s)) \<and> distinct (applied s) \<and> (\<forall>r. subseq (seen_by r (received s)) (applied s)) \<and>
    (\<forall>c f. r_fans s c = Some f \<longrightarrow> applied s \<noteq> [] \<and> c = last (applied s) \<and>
      (if r_gone s then fan_aborted f else r_worker s = Some c \<and> r_order s = Some c \<and> releases D c s)) \<and>
    (\<forall>c old. phase_of c s = Some (Answered (Inr old)) \<longrightarrow>
      set (r_confirmed s c) \<subseteq> {r \<in> set reps. (r, c) \<in> set (received s)} \<and> write_quorum cfg \<le> Suc (card (set (r_confirmed s c)))) \<and>
    (\<forall>c. r_order s = Some c \<longrightarrow> (\<exists>rop. phase_of c s = Some (Ordered rop)) \<or> r_fans s c \<noteq> None)"
proof -
  have M: "validate_topology reps cfg = Inr ()" "M = \<lparr>local_map = with_shards_and_hasher n, remote_replicas = reps, quorum_conf = Some cfg\<rparr>"
    using assms(2) by (auto simp: try_with_replication_def split: sum.splits)
  note v = validate_topology_valid[OF M(1)]
  have "wf_map D (local_map M)" using starshard_deps.new_map_plain[OF assms(1)] by (simp add: M(2) plain_map_def)
  from repl_inv_init[OF this, of cfg] have "repl_inv D reps (write_quorum cfg) (repl_init M)" by (simp add: M(2))
  note inv = repl_run_inv[OF assms(1) this assms(3)] and i = repl_invD[OF repl_run_inv[OF assms(1) this assms(3)]]
  have fans: "applied s \<noteq> [] \<and> c = last (applied s) \<and>
      (if r_gone s then fan_aborted f else r_worker s = Some c \<and> r_order s = Some c \<and> releases D c s)"
    if f: "r_fans s c = Some f" for c f
    using i(7)[OF _ f] v releases_fan[OF f, of D] by (auto simp: fan_ok_def split: if_splits)
  have ans: "set (r_confirmed s c) \<subseteq> {r \<in> set reps. (r, c) \<in> set (received s)} \<and> write_quorum cfg \<le> Suc (card (set (r_confirmed s c)))"
    if a: "phase_of c s = Some (Answered (Inr old))" for c old
  proof -
    have ok: "answers_ok reps (write_quorum cfg) s c" "Inr () \<in> set (r_sent s c)" using i(8)[of c] i(6)[OF _ a] v by auto
    obtain rest where "mset reps = mset (r_confirmed s c @ rest)"
      using ok(1) ex_mset unfolding answers_ok_def by (metis mset_append mset_subset_eq_exists_conv)
    then have "distinct (r_confirmed s c)" "set (r_confirmed s c) \<subseteq> set reps"
      using v mset_eq_imp_distinct_iff[of reps "r_confirmed s c @ rest"] mset_eq_setD[of reps "r_confirmed s c @ rest"] by auto
    then show ?thesis using ok by (auto simp: answers_ok_def distinct_card)
  qed
  show ?thesis using i(1,4,9,10) fans ans v by (auto simp: holder_ok_def)
qed


theorem replication_ordered_witness:
  "\<exists>M s. try_with_replication 2 [7, 8 :: nat] (quorum_majority 3) = Inr M \<and>
    repl_run nat_deps [Invoke (RepInsert 5 (10 :: nat)), Invoke (RepRemove 5), Acquire 0, Commit 0, FanBegin 0, TaskCall 0 8,
      TaskEnd 0 8 (Some (Inr ())), Join 0 1, Receive 0] (repl_init M) = Some s \<and>
    wf_map nat_deps (local_map (r_map s)) \<and> received s = [(8, 0)] \<and> r_order s = Some 0 \<and> releases nat_deps 0 s \<and>
    phase_of 0 s = Some (Answered (Inr None)) \<and> phase_of 1 s = Some (Queued (RepRemove 5))"
proof -
  let ?m = "with_shards_and_hasher 2 :: (nat, nat, (nat, nat) alist_map, (u64, nat entry list) alist_map) sharded_map"
  let ?D = "nat_deps :: (nat, nat, (nat, nat) alist_map, (u64, nat entry list) alist_map) deps"
  let ?M = "\<lparr>local_map = ?m, remote_replicas = [7, 8 :: nat], quorum_conf = Some (quorum_majority 3)\<rparr>"
  have "validate_topology [7, 8 :: nat] (quorum_majority 3) = Inr ()"
    by (simp add: validate_topology_iff quorum_majority_def quorum_is_valid_def Let_def)
  then have top: "try_with_replication 2 [7, 8 :: nat] (quorum_majority 3) = Inr ?M" by (simp add: try_with_replication_def)
  have plain: "plain_map ?D ?m" "view ?D ?m = Map.empty" by (rule starshard_deps.new_map_plain[OF nat_deps_laws])+
  then have off: "\<not> enabled (lifecycle ?m)" "wf_map ?D ?m" by (simp_all add: enabled_plain plain_map_def)
  obtain m' where m': "async_insert ?D 5 10 ?m = Some (None, m')"
    using starshard_deps.async_insert_post[OF nat_deps_laws off(2), of 5 10] plain(2) by auto
  obtain s where s: "repl_run ?D [Invoke (RepInsert 5 10), Invoke (RepRemove 5), Acquire 0, Commit 0, FanBegin 0, TaskCall 0 8,
      TaskEnd 0 8 (Some (Inr ())), Join 0 1, Receive 0] (repl_init ?M) = Some s" "received s = [(8, 0)]" "r_order s = Some 0"
    "phase_of 0 s = Some (Answered (Inr None))" "phase_of 1 s = Some (Queued (RepRemove 5))" "r_fans s 0 \<noteq> None" "\<not> r_gone s"
    by (simp add: repl_run_def repl_init_def invoke_def off(1) acquire_order_def phase_of_def set_phase_def commit_local_def m'
        set_local_def start_worker_def fan_new_def fan_begin_def quorum_of_def quorum_majority_def Let_def set_fan_def task_call_def
        task_end_def fan_join_def settle_join_def remove_nth_def after_join_def acknowledge_def receive_answer_def)
  then have "wf_map ?D (local_map (r_map s)) \<and> releases ?D 0 s" using replication_ordered[OF nat_deps_laws top s(1)] by auto
  then show ?thesis using top s by blast
qed

end
