(* ===== verification/Spec2Isabelle.thy ===== *)
theory Spec2Isabelle
  imports Sync_Serde Sync_Reachable Capacity_Calls Worker_Online Sync_Concurrent Async_Properties Async_Capacity_Calls Async_Lifecycle Async_Concurrent Replication_Order
begin

text \<open>
  A verification library for the crate \<open>starshard\<close>: a hash map split into lazily created shards, with online
  resharding, consistent snapshots, cache eviction, a maintenance worker, transactions, an asynchronous
  twin and primary-first replication. Paths below are relative to \<open>src/src/\<close>.

  \<^bold>\<open>The program.\<close> A map (\<open>lib.rs\<close>, \<open>core/types.rs\<close>) has an active directory of shard slots and, while it is being
  resharded, a previous one; a key is routed by its hash modulo the directory's length. Keyed operations
  (\<open>core/sync_impl.rs\<close>) lock the shard of the active generation, promote the key from the previous one
  (\<open>core/mutation.rs\<close>) and publish length and write epoch through \<open>ShardMutation\<close>. Migration batches
  (\<open>core/sync_impl/rebalance_impl.rs\<close>) empty the previous directory slot by slot and record their progress in the
  tracker (\<open>rebalance.rs\<close>). Snapshots freeze both directories and are cached under the write epoch. With
  an eviction policy every mutation also calls the hooks of the eviction engine (\<open>eviction/engine.rs\<close>) and ends
  with a maintenance pass (\<open>core/sync_impl/eviction_impl.rs\<close>), which a background worker
  (\<open>eviction/scheduler.rs\<close>) repeats. \<open>core/async_impl.rs\<close> and its submodules do the same behind asynchronous locks;
  \<open>core/replication.rs\<close> wraps its insert and remove.

  \<^bold>\<open>The model.\<close> State is passed explicitly. The outer \<open>option\<close> of an operation is \<open>None\<close> for a panic;
  errors are values of sum types with the source's constructors. Counters and epochs that wrap are 64-bit
  words. The definition of an operation is what its Rust function does while it holds its locks; that this may be taken as
  one step is what \<open>Map_Threads\<close> and the theories on it show, where the keyed operations, transactions and snapshots of both maps are cut at
  every lock they take and threads interleave at these points. Other concurrency is modelled by sequences of steps (the scheduler's threads,
  the tracker's calls, client calls between resharding work, the await points of a batch, the rebalance worker between its clients, the tasks of replication). Third-party
  code is an argument: the hash map crate is the record \<open>hashbrown\<close> with the laws of the locale \<open>hashbrown_map\<close>
  (\<open>Hash_Map\<close>), and \<open>deps\<close> (\<open>Engine\<close>) adds the hashers, the iteration order of buckets and the clock, with the laws
  of \<open>starshard_deps\<close> (\<open>Sync_View\<close>); \<open>nat_deps\<close> (\<open>Sync_Contract\<close>) satisfies them and is what the witnesses run on. The
  features \<open>lifecycle\<close> and \<open>advanced\<close> are on.

  \<^bold>\<open>Theories and sources.\<close>
  \<^item> \<open>Starshard_Prelude\<close>: machine integers, panicking vector access, loops whose body may panic, grouping by shard.
  \<^item> \<open>Hash_Map\<close>: the interface of the hash map crate and an instance of its laws.
  \<^item> \<open>Shard_Count\<close>: \<open>core/helpers.rs\<close>, \<open>error.rs\<close>, \<open>types.rs\<close>. \<open>Mutation\<close>: \<open>core/mutation.rs\<close>. \<open>Rebalance_Tracker\<close>: the
    tracker of \<open>rebalance.rs\<close>. \<open>Eviction_Config\<close>: \<open>eviction.rs\<close>. \<open>Advanced\<close>: \<open>advanced.rs\<close>. \<open>Scheduler\<close>:
    \<open>eviction/scheduler.rs\<close>.
  \<^item> \<open>Engine\<close>, \<open>Engine_Inv\<close>, \<open>Engine_Track\<close>: \<open>eviction/engine.rs\<close>, what its hooks leave unchanged and what its metadata
    means; \<open>Capacity\<close>, \<open>Capacity_Pass\<close>, \<open>Capacity_Calls\<close>: the engine and the synchronous map together.
  \<^item> \<open>Sync_Map\<close>, \<open>Sync_Ops\<close>: state, internal and public operations of \<open>core/sync_impl.rs\<close>; \<open>Sync_Eviction\<close>,
    \<open>Sync_Lifecycle\<close>: \<open>core/sync_impl/eviction_impl.rs\<close>; \<open>Sync_Rebalance\<close>: \<open>core/sync_impl/rebalance_impl.rs\<close>;
    \<open>Sync_Snapshots\<close>: \<open>snapshot.rs\<close> and the snapshot operations; \<open>Sync_Serde\<close>: \<open>serde/\<close>; \<open>Sync_Entry\<close>: \<open>entry.rs\<close>.
  \<^item> \<open>Async_Map\<close>, \<open>Async_Eviction\<close>, \<open>Async_Rebalance\<close>: \<open>core/async_impl.rs\<close> and its submodules, \<open>async_entry.rs\<close>;
    \<open>Async_Contract\<close>: also dropped futures of \<open>insert\<close>, \<open>remove\<close> and \<open>retain\<close>; \<open>Async_Lifecycle\<close>: the asynchronous constructors and accessors.
  \<^item> \<open>Map_Threads\<close>: the locks and lock-level steps of the keyed operations, transactions and \<open>snapshot_view\<close>; \<open>Sync_Concurrent\<close>,
    \<open>Async_Concurrent\<close>: where \<open>core/sync_impl.rs\<close> and \<open>core/async_impl.rs\<close> differ, futures dropped among running tasks included,
    a running \<open>retain\<close> between any two shards.
  \<^item> \<open>Worker_Online\<close>: the supervised rebalance worker and its handle (\<open>rebalance.rs\<close>) among the map's clients.
  \<^item> \<open>Replication\<close>: \<open>core/replication.rs\<close>, one replicated write at a time; \<open>Replication_Order\<close>: its callers, coordinators,
    replica calls and the drop of the last map as concurrent tasks.

  \<^bold>\<open>The lemmas.\<close> \<open>Sync_View\<close> defines \<open>view\<close>, the finite map a reader sees, and the invariants \<open>wf_dirs\<close> and
  \<open>wf_map\<close>: every stored key is in the slot it is routed to, no key is in both generations, the slots before
  the tracker's progress are empty, the atomic length is the number of entries. \<open>Sync_Keys\<close>, \<open>Sync_Shrink\<close> and
  \<open>Sync_Entries\<close> prove the three basic moves (one locked key, taking entries out of a shard, walking all
  shards) once for all operations; \<open>Sync_Correct\<close>, \<open>Sync_Batch\<close> and \<open>Sync_Whole\<close> derive the postcondition \<open>op_post\<close>
  of every public operation. \<open>Sync_Migration\<close> shows that a batch never changes the view and makes progress,
  \<open>Sync_Completion\<close> that the loops which promise completion return. \<open>Map_Contract\<close> states what clients may rely on
  as locales: \<open>cache_contract\<close> (answers are never stale), \<open>map_contract\<close> (answers are those of a finite map),
  \<open>online_contract\<close> (unnoticed background work), \<open>snapshot_contract\<close> (snapshots are never stale).
  \<open>Sync_Contract\<close>, \<open>Sync_Online\<close> and \<open>Sync_Snapshots\<close> discharge them for the synchronous map, \<open>Async_Contract\<close>
  for the asynchronous one, after \<open>Async_Correct\<close>, \<open>Async_Whole\<close>, \<open>Async_Migration\<close> and \<open>Async_Online\<close> have shown
  that the asynchronous code does what the synchronous code does, and that a batch dropped at any await leaves a
  well-formed map with the same content. \<open>Engine_Track\<close> relates the striped metadata to the finite map of tracked
  entries it stands for (locale \<open>engine_deps\<close>), \<open>Capacity\<close> and \<open>Capacity_Pass\<close> show that on metadata in sync with the
  view a maintenance pass restores every limit on each of its paths and gives up the entries ranked lowest, and
  \<open>Capacity_Calls\<close> that the calls keep the two in sync (locale \<open>bounded_contract\<close>); \<open>Async_Capacity\<close> and
  \<open>Async_Capacity_Calls\<close> do the same for the asynchronous passes, which plan all victims before they remove the
  first. \<open>Worker_Online\<close> puts the rebalance worker under \<open>online_contract\<close> and bounds its turns by the work left, and
  \<open>Replication_Order\<close> proves by an invariant over all interleavings that replicas see the writes in one order. \<open>Lock_Order\<close> shows that threads which take
  read-write locks in increasing order cannot deadlock (locale \<open>lock_order\<close>), \<open>Thread_Steps\<close> what each program counter may rely on
  and that no step of another thread destroys it, and \<open>Linearizability\<close> concludes that every interleaving is linearizable and
  returns (locale \<open>linear_code\<close>). \<open>Sync_Reachable\<close> closes the
  constructors under all public operations: whatever map a client holds is well formed. Properties stand in the theory of their component,
  in \<open>Async_Properties\<close>, and below where they span components.

  \<^bold>\<open>Bounds and termination.\<close> No definition uses fuel. Loops with a decreasing measure are total functions; the loops
  over migration batches and the worker loops are \<open>partial_function (option)\<close>, and the properties that promise
  a result prove that they return. Snapshot properties bound the length of a history by the \<open>2^64\<close> epochs a
  cached snapshot can be told apart by, those on the limits of a cache the number of calls by the \<open>2^64\<close> stamps
  that tell incarnations of entries apart.

  \<^bold>\<open>Simplifications.\<close> The \<open>PartialEq\<close> of values is taken to be equality. The countdowns of the eviction loops are subtractions of
  natural numbers; on metadata in sync with the map they do not go below zero, where a debug build of the source would panic. The asynchronous transaction finds
  nothing where indexing the previous directory would panic; its indices are in range on well-formed maps. An \<open>insert\<close> or
  \<open>remove\<close> dropped during its maintenance pass is taken to be dropped at the start of the pass: the content is the same, as a pass removes entries
  only after its last await, the counters of the engine may differ. \<open>wait_ready\<close> reads the tracker in one step, the source in two.
  Eviction callbacks may panic but do not call back into the map. Under the exclusive routing lock \<open>retain\<close> is one step of \<open>Map_Threads\<close>, or one
  drop after any number of shards, since no other task can look at the shards meanwhile.

  \<^bold>\<open>Not modelled.\<close> Memory layout, lock poisoning and fairness, and the drop order of retired
  keys and values have no counterpart. Batch operations and maintenance passes are not interleaved with
  others: the threads of \<open>Map_Threads\<close> run on maps without a policy, and a batch holds no lock that would make it one step. Formatting of errors, logging, reserved profiling hooks that return
  nothing, and the test, bench and example programs are left out.
\<close>

section \<open>The synchronous map is a map\<close>

text \<open>
  C4: with any eviction policy, the same calls never panic and never return a stale or invented value:
  each answer is either absent, because the entry was evicted, or the one the finite map gives, and the
  final view is part of the finite map.
\<close>

theorem sync_cache_never_stale:
  assumes "starshard_deps D" "wf_map D m"
  shows "\<exists>rs m'. run_calls (insert_op D) (get_borrowed D) (remove_borrowed D) cs m = Some (rs, m') \<and>
    wf_map D m' \<and> list_all2 lossy rs (fst (spec_calls cs (view D m))) \<and> view D m' \<subseteq>\<^sub>m snd (spec_calls cs (view D m))"
  using starshard_deps.sync_calls_lossy[OF assms, of cs] .

theorem sync_cache_never_stale_witness:
  "config (lifecycle small_cache) = Some (opt_config small_options) \<and>
   (\<exists>rs m'. run_calls (insert_op nat_deps) (get_borrowed nat_deps) (remove_borrowed nat_deps)
       [Insert 1 10, Insert 2 20, Get 1] small_cache = Some (rs, m') \<and>
     wf_map nat_deps m' \<and> list_all2 lossy rs [None, None, Some 10] \<and> view nat_deps m' \<subseteq>\<^sub>m [1 \<mapsto> 10, 2 \<mapsto> 20])"
proof -
  have "wf_map nat_deps small_cache"
    by (rule starshard_deps.reachable_wf[OF nat_deps_laws reachable.new_cache[OF small_cache_built]])
  moreover have "view nat_deps small_cache = Map.empty" "config (lifecycle small_cache) = Some (opt_config small_options)"
    by (simp_all add: small_cache_def build_eviction_cases small_options_valid config_def wf_map_build MAX_SHARDS_def)
  ultimately show ?thesis
    using sync_cache_never_stale[OF nat_deps_laws, of small_cache "[Insert 1 10, Insert 2 20, Get 1]"] by simp
qed

text \<open>
  C15: \<open>len\<close>, which only reads the atomic counter, is the number of logical keys of every map a program can hold: one built by a
  constructor and changed by public operations, resharding and evictions in any order, entries that still wait in the previous
  generation included; \<open>is_empty\<close> is exact while that number is below \<open>2^64\<close>. After any calls \<open>len\<close> is the number of keys left, and without an
  eviction policy that is the number of keys of the finite map the calls describe.
\<close>

theorem len_counts_logical_keys:
  assumes "starshard_deps D" "reachable D m"
  shows "len m = of_nat (card (dom (view D m))) \<and>
    (card (dom (view D m)) < 2 ^ 64 \<longrightarrow> (is_empty m \<longleftrightarrow> view D m = Map.empty)) \<and>
    (\<exists>rs m'. run_calls (insert_op D) (get_borrowed D) (remove_borrowed D) cs m = Some (rs, m') \<and>
      len m' = of_nat (card (dom (view D m'))) \<and>
      (life_opts (lifecycle m) = None \<longrightarrow> len m' = of_nat (card (dom (snd (spec_calls cs (view D m)))))))"
proof -
  note card = starshard_deps.len_card[OF assms(1)]
  have wf: "wf_map D m" by (rule starshard_deps.reachable_wf[OF assms])
  have fin: "finite (dom (view D m))"
    using starshard_deps.finite_dom_view[OF assms(1)] wf by (simp add: wf_map_def)
  have "is_empty m \<longleftrightarrow> view D m = Map.empty" if "card (dom (view D m)) < 2 ^ 64"
  proof -
    have "is_empty m \<longleftrightarrow> (of_nat (card (dom (view D m))) :: usize) = of_nat 0" by (simp add: is_empty_def card[OF wf])
    also have "\<dots> \<longleftrightarrow> card (dom (view D m)) = 0" using that by (subst word_of_nat_eq_iff) (simp add: take_bit_nat_eq_self)
    finally show ?thesis using fin by simp
  qed
  moreover obtain rs m' where r: "run_calls (insert_op D) (get_borrowed D) (remove_borrowed D) cs m = Some (rs, m')" "wf_map D m'"
    using starshard_deps.sync_calls_lossy[OF assms(1) wf, of cs] by blast
  moreover have "view D m' = snd (spec_calls cs (view D m))" if "life_opts (lifecycle m) = None"
    using starshard_deps.sync_calls_exact[OF assms(1), of m cs] wf that r(1) by (auto simp: plain_map_def)
  ultimately show ?thesis using card[OF wf] card[OF r(2)] by auto
qed

theorem len_counts_logical_keys_witness:
  "\<exists>m m' rs m2. public_step nat_deps (OpBatchInsert [(1, 10 :: nat), (2, 20)]) (with_shards_and_snapshot_mode 4 Cow) = Some m \<and>
    public_step nat_deps (OpRebalance (StartOnline 8)) m = Some m' \<and> len m' = 2 \<and> \<not> is_empty m' \<and>
    run_calls (insert_op nat_deps) (get_borrowed nat_deps) (remove_borrowed nat_deps) [Insert 3 30, Delete 1, Insert 2 21] m' = Some (rs, m2) \<and>
    len m2 = 2"
proof -
  let ?m0 = "with_shards_and_snapshot_mode 4 Cow :: (nat, nat, (nat, nat) alist_map, (u64, nat entry list) alist_map) sharded_map"
  have r0: "reachable nat_deps ?m0" by (rule reachable.new_map)
  have p0: "plain_map nat_deps ?m0" "view nat_deps ?m0 = Map.empty"
    by (simp_all add: plain_map_def with_shards_and_snapshot_mode_def capped_shard_count_def normalized_shard_count_def DEFAULT_SHARDS_def MAX_SHARDS_def wf_map_build life_opts_def lifecycle_new_def)
  obtain m where m: "public_step nat_deps (OpBatchInsert [(1, 10 :: nat), (2, 20)]) ?m0 = Some m" "plain_map nat_deps m"
    "view nat_deps m = [1 \<mapsto> 10, 2 \<mapsto> 20]"
    using starshard_deps.batch_insert_post[OF nat_deps_laws, of ?m0 "[(1, 10 :: nat), (2, 20)]"] p0
    by (auto simp: plain_map_def op_post_def)
  obtain m' where m': "public_step nat_deps (OpRebalance (StartOnline 8)) m = Some m'" "plain_map nat_deps m'" "view nat_deps m' = view nat_deps m"
    using starshard_deps.background_unseen[OF nat_deps_laws, of m "StartOnline 8"] m(2) by (auto simp: plain_map_def same_content_def)
  have r: "reachable nat_deps m'" using reachable.step[OF reachable.step[OF r0 m(1)] m'(1)] .
  have doms: "dom (view nat_deps m') = {1, 2}" "dom (snd (spec_calls [Insert 3 30, Delete 1, Insert 2 21] (view nat_deps m'))) = {2, 3}"
    by (auto simp: m'(3) m(3))
  have "life_opts (lifecycle m') = None" using m'(2) by (simp add: plain_map_def)
  then show ?thesis
    using m(1) m'(1) len_counts_logical_keys[OF nat_deps_laws r, of "[Insert 3 30, Delete 1, Insert 2 21]"] doms
    by (auto simp: is_empty_def)
qed

text \<open>
  C14: the atomic operations on one key, on every branch. \<open>compare_and_swap\<close> replaces the value exactly when the key
  is present with the expected value; a failed swap leaves the map alone and carries the stored value, or the
  new value for an absent key; \<open>compare_and_remove\<close> removes under the same condition and reports it;
  \<open>get_or_insert_with\<close> returns the stored value if there is one and otherwise stores and returns the computed
  one; \<open>compute_if_present\<close> updates, removes or leaves an entry as its closure says and returns its result.
\<close>

theorem atomic_operations_correct:
  assumes "starshard_deps D" "wf_map D m"
  shows "(\<exists>m'. compare_and_swap D k expected new m =
      Some (case view D m k of None \<Rightarrow> Failure new | Some v \<Rightarrow> if v = expected then Success new else Failure v, m') \<and>
      op_post D m (if view D m k = Some expected then (view D m)(k \<mapsto> new) else view D m) m') \<and>
    (\<exists>m'. compare_and_remove D k expected m = Some (view D m k = Some expected, m') \<and>
      op_post D m (if view D m k = Some expected then (view D m)(k := None) else view D m) m') \<and>
    (\<exists>m'. get_or_insert_with D k f m = Some (case view D m k of Some v \<Rightarrow> v | None \<Rightarrow> f (), m') \<and>
      op_post D m ((view D m)(k \<mapsto> (case view D m k of Some v \<Rightarrow> v | None \<Rightarrow> f ()))) m') \<and>
    (\<exists>m'. compute_if_present D k g m = Some (Option.bind (view D m k) g, m') \<and>
      op_post D m ((view D m)(k := Option.bind (view D m k) g)) m')"
  using starshard_deps.cas_post[OF assms, of k expected new] starshard_deps.compare_and_remove_post[OF assms, of k expected]
    starshard_deps.get_or_insert_post[OF assms, of k f] starshard_deps.compute_post[OF assms, of k g]
  by blast

theorem atomic_operations_correct_witness:
  "(\<exists>m'. compare_and_swap nat_deps 1 2 3 (fresh_map CloneMode) = Some (Failure 3, m') \<and>
      op_post nat_deps (fresh_map CloneMode) Map.empty m') \<and>
   (\<exists>m'. get_or_insert_with nat_deps 1 (\<lambda>_. 70) (fresh_map CloneMode) = Some (70, m') \<and>
      op_post nat_deps (fresh_map CloneMode) [1 \<mapsto> 70] m')"
  using atomic_operations_correct[OF nat_deps_laws, of "fresh_map CloneMode" 1 2 3 "\<lambda>_. 70"] by simp

text \<open>
  C8: the batches. \<open>batch_insert\<close> has the effect of inserting its elements in order, whatever order the hash map
  of buckets is walked in and whether or not a migration is running, and it counts the keys that were new;
  \<open>batch_remove\<close> removes exactly the listed keys and counts those that were present; \<open>batch_get\<close> answers every
  key at its input position and changes neither the view nor the write epoch.
\<close>

theorem batch_operations_correct:
  assumes "starshard_deps D" "wf_map D m"
  shows "(\<exists>m'. batch_insert D es m = Some (card (fst ` set es - dom (view D m)), m') \<and> op_post D m (view D m ++ map_of (rev es)) m') \<and>
    (\<exists>m'. batch_remove D ks m = Some (card (set ks \<inter> dom (view D m)), m') \<and> op_post D m (view D m |` (- set ks)) m') \<and>
    (\<exists>m'. batch_get D ks m = Some (map (view D m) ks, m') \<and> op_post D m (view D m) m' \<and>
       view D m' = view D m \<and> write_epoch m' = write_epoch m)"
  using starshard_deps.batch_insert_post[OF assms] starshard_deps.batch_remove_post[OF assms] starshard_deps.batch_get_post[OF assms]
  by blast

theorem batch_operations_correct_witness:
  "(\<exists>m'. batch_insert nat_deps [(1, 10), (2, 20), (1, 11)] (fresh_map Cow) = Some (2, m') \<and>
      op_post nat_deps (fresh_map Cow) [1 \<mapsto> 11, 2 \<mapsto> 20] m') \<and>
   (\<exists>m'. batch_remove nat_deps [1, 2] (fresh_map Cow) = Some (0, m') \<and> op_post nat_deps (fresh_map Cow) Map.empty m') \<and>
   (\<exists>m'. batch_get nat_deps [1, 2] (fresh_map Cow) = Some ([None, None], m') \<and> write_epoch m' = 0)"
  using batch_operations_correct[OF nat_deps_laws, of "fresh_map Cow" "[(1, 10), (2, 20), (1, 11)]" "[1, 2]"]
  by (auto simp: restrict_map_def fun_upd_twist insert_commute numeral_2_eq_2)

text \<open>
  C9: a transaction locks shards in index order, yet has the effect of its operations one after the
  other, and it always commits.
\<close>

theorem transaction_is_sequential:
  assumes "starshard_deps D" "wf_map D m"
  shows "\<exists>m'. execute_transaction D t m = Some (Committed (), m') \<and> op_post D m (fold txn_apply (ops t) (view D m)) m'"
  by (rule starshard_deps.execute_transaction_post[OF assms])

theorem transaction_is_sequential_witness:
  "\<exists>m'. execute_transaction nat_deps (txn_remove 2 (txn_write 2 9 (txn_write 1 5 transaction_new))) (fresh_map Cow) =
      Some (Committed (), m') \<and> op_post nat_deps (fresh_map Cow) [1 \<mapsto> 5] m'"
  using transaction_is_sequential[OF nat_deps_laws, of "fresh_map Cow" "txn_remove 2 (txn_write 2 9 (txn_write 1 5 transaction_new))"]
  by (simp add: transaction_new_def txn_write_def txn_remove_def fun_upd_idem)

text \<open>
  C16: \<open>retain\<close> keeps exactly the entries of both generations that satisfy the predicate; \<open>drain\<close> empties both
  generations, ends a migration, and its iterator hands out every stored entry exactly once; \<open>clear\<close> leaves the same
  empty map.
\<close>

theorem whole_map_operations_correct:
  assumes "starshard_deps D" "wf_map D m"
  shows "(\<exists>m'. retain_op D p m = Some m' \<and>
      op_post D m (\<lambda>k. case view D m k of None \<Rightarrow> None | Some v \<Rightarrow> if p k v then Some v else None) m') \<and>
    (\<exists>d m'. drain_op D m = Some (d, m') \<and> mset (drain_collect d) = mset (drain_items d) \<and>
      map_of (drain_items d) = view D m \<and> distinct (map fst (drain_items d)) \<and>
      op_post D m Map.empty m' \<and> view D m' = Map.empty) \<and>
    (\<exists>m'. clear_op D m = Some m' \<and> op_post D m Map.empty m' \<and> view D m' = Map.empty)"
proof -
  obtain items m' where "drain_op D m = Some (\<lparr>drain_items = items, drain_index = 0\<rparr>, m')" "map_of items = view D m"
    "distinct (map fst items)" "op_post D m Map.empty m'" "view D m' = Map.empty"
    using starshard_deps.drain_post[OF assms] by blast
  moreover have "mset (drain_collect \<lparr>drain_items = items, drain_index = 0\<rparr>) = mset items"
    using mset_drain_collect[of "\<lparr>drain_items = items, drain_index = 0\<rparr>"] by simp
  ultimately have "\<exists>d m'. drain_op D m = Some (d, m') \<and> mset (drain_collect d) = mset (drain_items d) \<and>
      map_of (drain_items d) = view D m \<and> distinct (map fst (drain_items d)) \<and> op_post D m Map.empty m' \<and> view D m' = Map.empty"
    by (intro exI[of _ "\<lparr>drain_items = items, drain_index = 0\<rparr>"]) auto
  then show ?thesis using starshard_deps.retain_post[OF assms, of p] starshard_deps.clear_post[OF assms] by blast
qed

theorem whole_map_operations_correct_witness:
  "(\<exists>m'. retain_op nat_deps (\<lambda>k v. k < v) (fresh_map Cow) = Some m' \<and> op_post nat_deps (fresh_map Cow) Map.empty m') \<and>
   (\<exists>m'. clear_op nat_deps (fresh_map Cow) = Some m' \<and> view nat_deps m' = Map.empty)"
  using whole_map_operations_correct[OF nat_deps_laws, of "fresh_map Cow" "\<lambda>k v. k < v"] by auto

section \<open>Resharding\<close>

text \<open>
  C2: online resharding is transparent: clients' calls interleaved in any way with starting, pausing,
  resuming and advancing migrations, whole rebalances and worker starts are answered exactly as by a
  finite map that knows nothing of shards. The map has no eviction policy and may be in the middle of a migration.
\<close>

theorem resharding_is_transparent:
  assumes "starshard_deps D" "wf_map D m" "configured (lifecycle m) = None"
  shows "\<exists>m'. run_events (background_op D) (run_call (insert_op D) (get_borrowed D) (remove_borrowed D)) es m =
      Some (fst (spec_calls (calls_of es) (view D m)), m') \<and> wf_map D m' \<and> view D m' = snd (spec_calls (calls_of es) (view D m))"
  using starshard_deps.online_events_exact[OF assms(1), of m es] assms(2,3) by (auto simp: plain_map_def opts_None)

theorem resharding_is_transparent_witness:
  "\<exists>m'. run_events (background_op nat_deps)
      (run_call (insert_op nat_deps) (get_borrowed nat_deps) (remove_borrowed nat_deps))
      [Inr (Insert 1 10), Inl (StartOnline 3), Inr (Get 1),
       Inl (Advance \<lparr>env_clock = (\<lambda>_. 0), env_control = None\<rparr> 1 1 0 None), Inr (Delete 1), Inr (Get 1)] (fresh_map Cow) =
      Some ([None, Some 10, Some 10, None], m') \<and> wf_map nat_deps m' \<and> view nat_deps m' = Map.empty"
  using resharding_is_transparent[OF nat_deps_laws, of "fresh_map Cow"
      "[Inr (Insert 1 10), Inl (StartOnline 3), Inr (Get 1),
       Inl (Advance \<lparr>env_clock = (\<lambda>_. 0), env_control = None\<rparr> 1 1 0 None), Inr (Delete 1), Inr (Get 1)]"]
  by simp

text \<open>
  C10: \<open>rebalance_to\<close> returns in both of its modes, whatever migration is in progress: a shard count above
  the limit is rejected and changes nothing; otherwise the map ends with the requested number of
  shards, no migration in progress and the same content, length and write epoch.
\<close>

theorem rebalance_to_correct:
  assumes "starshard_deps D" "wf_map D m"
  shows "case strict_shard_count n MAX_SHARDS of
      Inl e \<Rightarrow> rebalance_to D clks n opts m = Some (Inl e, m)
    | Inr target \<Rightarrow> \<exists>r m'. rebalance_to D clks n opts m = Some (Inr r, m') \<and> wf_map D m' \<and> view D m' = view D m \<and>
        len m' = len m \<and> write_epoch m' = write_epoch m \<and> shard_count m' = target \<and> previous_shards m' = None \<and>
        rr_from_shards r = shard_count m \<and> rr_to_shards r = target"
proof (cases "strict_shard_count n MAX_SHARDS")
  case (Inl e)
  then show ?thesis by (simp add: rebalance_to_def)
next
  case (Inr target)
  obtain r m' where m': "rebalance_to D clks n opts m = Some (Inr r, m')" "wf_map D m'" "same_content D m m'"
    "\<not> migrating (rebalance_tracker m')" "shard_count m' = target" "rr_from_shards r = shard_count m" "rr_to_shards r = target"
    using starshard_deps.rebalance_to_ok[OF assms Inr] by blast
  then have "previous_shards m' = None" using not_migrating_prev[OF wf_map_dirs[OF m'(2)]] by simp
  then show ?thesis using m' Inr by (auto simp: same_content_def len_def)
qed

theorem rebalance_to_correct_witness:
  "\<exists>r m'. rebalance_to nat_deps (\<lambda>_ _. 0) 5 \<lparr>opt_background = True, opt_batch_size = 1, opt_max_pause_ns = 0\<rparr> (fresh_map Cow) =
     Some (Inr r, m') \<and> shard_count m' = 5 \<and> rr_to_shards r = 5"
  using rebalance_to_correct[OF nat_deps_laws, of "fresh_map Cow", where n = 5 and clks = "\<lambda>_ _. 0" and
      opts = "\<lparr>opt_background = True, opt_batch_size = 1, opt_max_pause_ns = 0\<rparr>"]
  by (auto simp: strict_shard_count_def normalized_shard_count_def MAX_SHARDS_def)

text \<open>
  C13: a migration batch keeps within its budgets of entries and source slots, never changes the
  content, and, when it is let in and not cancelled, does some work; what it has moved and retired is
  exactly what is no longer left to do.
\<close>

theorem migration_batch_bounded:
  assumes "starshard_deps D" "wf_map D m"
  shows "\<exists>r m'. advance_rebalance_inner D env mx e p expected m = Some (r, m') \<and> wf_map D m' \<and> same_content D m m' \<and>
    rep_moved_entries r \<le> e \<and> rep_completed_shards r \<le> mx \<and>
    remaining D m' + rep_moved_entries r + rep_completed_shards r = remaining D m \<and>
    (migrating (rebalance_tracker m) \<and> admitted env mx expected (rebalance_tracker m) \<and> \<not> control_cancelled env 1 \<and> 0 < e \<longrightarrow>
      remaining D m' < remaining D m)"
proof -
  obtain r m' where "advance_rebalance_inner D env mx e p expected m = Some (r, m')" "batch_post D m r m'"
    "rep_moved_entries r \<le> e" "rep_completed_shards r \<le> mx"
    "admitted env mx expected (rebalance_tracker m) \<longrightarrow> migrating (rebalance_tracker m) \<longrightarrow> \<not> control_cancelled env 1 \<longrightarrow> 0 < e \<longrightarrow>
       0 < batch_work r"
    using starshard_deps.advance_inner_ok[OF assms, of env mx e p expected] by blast
  then show ?thesis by (intro exI[of _ r] exI[of _ m']) (auto simp: batch_post_def batch_work_def)
qed

theorem migration_batch_bounded_witness:
  "\<exists>r m'. advance_rebalance_inner nat_deps \<lparr>env_clock = (\<lambda>_. 0), env_control = None\<rparr> 1 1 0 None
      (snd (start_rebalance_online nat_deps 3 (fresh_map Cow))) = Some (r, m') \<and> rep_completed_shards r \<le> 1 \<and>
      view nat_deps m' = Map.empty"
proof -
  have wf: "wf_map nat_deps (snd (start_rebalance_online nat_deps 3 (fresh_map Cow)))"
    and "view nat_deps (snd (start_rebalance_online nat_deps 3 (fresh_map Cow))) = Map.empty"
    using start_online_ok[of nat_deps "fresh_map Cow" 3] by (simp_all add: same_content_def)
  then show ?thesis
    using migration_batch_bounded[OF nat_deps_laws wf, of "\<lparr>env_clock = (\<lambda>_. 0), env_control = None\<rparr>" 1 1 0 None]
    by (auto simp: same_content_def)
qed

text \<open>
  C17: \<open>advance_rebalance n\<close> on a running migration that is not paused retires exactly \<open>n\<close> source slots, or all that are left
  if fewer, and the migration is over when none is left.
\<close>

theorem advance_rebalance_exact:
  assumes "starshard_deps D" "wf_map D m" "migrating (rebalance_tracker m)" "\<not> paused (telem (rebalance_tracker m))"
    "slots_len D (prev_slots m) < USIZE_MAX"
  defines "left \<equiv> length (prev_slots m) - completed_shards (telem (rebalance_tracker m))"
  shows "\<exists>m'. advance_rebalance D clk n m = Some (min n left, m') \<and> wf_map D m' \<and> same_content D m m' \<and>
    (migrating (rebalance_tracker m') \<longleftrightarrow> n < left)"
  using starshard_deps.advance_exact[OF assms(1-5), of clk n] by (simp add: left_def)

theorem advance_rebalance_exact_witness:
  "\<exists>m'. advance_rebalance nat_deps (\<lambda>_. 0) 7 (begin_migration nat_deps 2 3 (fresh_map Cow)) = Some (2, m') \<and>
    \<not> migrating (rebalance_tracker m')"
proof -
  have nm: "\<not> migrating (rebalance_tracker (fresh_map Cow))" "shard_count (fresh_map Cow) = 2"
    by (simp_all add: fresh_map_def tracker_new_def)
  note b = begin_migration_map[OF fresh_map_facts(1)[of Cow] nm(1), of 3, unfolded nm(2)]
  have eq: "prev_slots (begin_migration nat_deps 2 3 (fresh_map Cow)) = [None, None]"
    "completed_shards (telem (rebalance_tracker (begin_migration nat_deps 2 3 (fresh_map Cow)))) = 0"
    by (simp_all add: begin_migration_def fresh_map_def prev_slots_def numeral_2_eq_2 telemetry_default_def)
  have "slots_len nat_deps (prev_slots (begin_migration nat_deps 2 3 (fresh_map Cow))) < USIZE_MAX"
    by (simp add: eq slots_len_def USIZE_MAX_def)
  then show ?thesis using advance_rebalance_exact[OF nat_deps_laws b(1,3,6), of "\<lambda>_. 0" 7] by (auto simp: eq)
qed

text \<open>
  C12: a spawned worker that is not cancelled and whose migration nobody pauses terminates, whatever the
  clock does: it reports completion, leaves the requested number of shards with the content unchanged
  and no migration, and has given back its lease.
\<close>

theorem worker_completes:
  assumes "starshard_deps D" "wf_map D m" "strict_shard_count n MAX_SHARDS = Inr target"
    "worker_generation (rebalance_tracker m) = None"
    "migrating (rebalance_tracker m) \<longrightarrow> shard_count m = target \<and> \<not> paused (telem (rebalance_tracker m))"
    "\<And>i j. \<not> control_cancelled (envs i) j" "\<And>i. \<not> cancels i"
  shows "\<exists>tk m1 out m'. spawn_rebalance D True n m = (Inr tk, m1) \<and> run_worker D envs cancels opts tk m1 = Some (out, m') \<and>
    out_completed out \<and> wf_map D m' \<and> view D m' = view D m \<and> shard_count m' = target \<and> previous_shards m' = None \<and>
    worker_generation (rebalance_tracker m') = None"
proof -
  obtain tk m1 where s: "spawn_rebalance D True n m = (Inr tk, m1)" "wf_map D m1" "same_content D m m1" "worker_ready tk m1" "shard_count m1 = target"
    using starshard_deps.spawn_rebalance_ok[OF assms(1-5)] by blast
  obtain out m' where r: "run_worker D envs cancels opts tk m1 = Some (out, m')" "out_completed out" "wf_map D m'" "same_content D m1 m'"
    "\<not> migrating (rebalance_tracker m')" "shard_count m' = shard_count m1" "worker_generation (rebalance_tracker m') = None"
    using starshard_deps.run_worker_ok[OF assms(1) s(2,4), where envs = envs and cancels = cancels and opts = opts] assms(6,7)
    unfolding worker_done_def by blast
  then show ?thesis
    using s r not_migrating_prev[OF wf_map_dirs[OF r(3)] r(5)]
    by (intro exI[of _ tk] exI[of _ m1] exI[of _ out] exI[of _ m']) (simp add: same_content_def)
qed

theorem worker_completes_witness:
  "\<exists>tk m1 out m'. spawn_rebalance nat_deps True 4 (fresh_map Cow) = (Inr tk, m1) \<and>
    run_worker nat_deps (\<lambda>_. \<lparr>env_clock = (\<lambda>_. 9), env_control = Some (\<lambda>_. False)\<rparr>) (\<lambda>_. False)
      \<lparr>opt_background = True, opt_batch_size = 2, opt_max_pause_ns = 1\<rparr> tk m1 = Some (out, m') \<and>
    out_completed out \<and> shard_count m' = 4"
  using worker_completes[OF nat_deps_laws, of "fresh_map Cow" 4 4 "\<lambda>_. \<lparr>env_clock = (\<lambda>_. 9), env_control = Some (\<lambda>_. False)\<rparr>"
      "\<lambda>_. False" "\<lparr>opt_background = True, opt_batch_size = 2, opt_max_pause_ns = 1\<rparr>"]
  by (auto simp: strict_shard_count_def normalized_shard_count_def MAX_SHARDS_def control_cancelled_def)

end
